(* ===== verification/Prelude.thy ===== *)
theory Prelude
  imports Main "HOL-Library.Signed_Division"
begin

text \<open>
  Prelude of the library: the machine integers of the C++ code and the facts about them that
  every component uses.  A C++ \<open>int\<close> is an \<open>int\<close> of HOL kept in the 32-bit
  range: each arithmetic result that the code stores in an \<open>int\<close> goes through \<open>i32\<close>, which
  wraps around as two's complement does; \<open>u32\<close> does the same for \<open>uint\<close>, \<open>i64\<close> for
  \<open>qint64\<close>.  C++ division and remainder truncate towards zero: \<open>sdiv\<close> and \<open>smod\<close> of the
  library theory Signed\_Division.  The collection \<open>wrap_simps\<close> removes a wrap whose argument is in
  range.
\<close>

named_theorems wrap_simps
named_theorems cdiv_simps

type_synonym int32 = int
type_synonym uint32 = int
type_synonym int64 = int

definition in32 :: "int \<Rightarrow> bool" where
  "in32 x \<longleftrightarrow> -2147483648 \<le> x \<and> x < 2147483648"

definition i32 :: "int \<Rightarrow> int32" where
  "i32 x = (x + 2147483648) mod 4294967296 - 2147483648"

definition u32 :: "int \<Rightarrow> uint32" where
  "u32 x = x mod 4294967296"

definition in64 :: "int \<Rightarrow> bool" where
  "in64 x \<longleftrightarrow> -9223372036854775808 \<le> x \<and> x < 9223372036854775808"

definition i64 :: "int \<Rightarrow> int64" where
  "i64 x = (x + 9223372036854775808) mod 18446744073709551616 - 9223372036854775808"

lemma in32_i32 [simp]: "in32 (i32 x)"
  by (simp add: in32_def i32_def)

lemma i32_id [wrap_simps]: "in32 x \<Longrightarrow> i32 x = x"
  by (simp add: in32_def i32_def)

lemma i32_idem [simp]: "i32 (i32 x) = i32 x"
  by (simp add: i32_id)

lemma i32_eq_iff: "i32 x = i32 y \<longleftrightarrow> x mod 4294967296 = y mod 4294967296"
  by (simp add: i32_def mod_eq_dvd_iff)

lemma i32_mod [simp]: "i32 x mod 4294967296 = x mod 4294967296"
  unfolding i32_def by (simp only: mod_diff_left_eq) simp

lemma i32_add_wrap [simp]: "i32 (i32 a + b) = i32 (a + b)" "i32 (a + i32 b) = i32 (a + b)"
  unfolding i32_eq_iff by (metis i32_mod mod_add_left_eq) (metis i32_mod mod_add_right_eq)

lemma i32_diff_wrap [simp]: "i32 (i32 a - b) = i32 (a - b)" "i32 (a - i32 b) = i32 (a - b)"
  unfolding i32_eq_iff by (metis i32_mod mod_diff_left_eq) (metis i32_mod mod_diff_right_eq)

lemma in32_0 [simp]: "in32 0" "in32 1" "in32 (-1)"
  by (simp_all add: in32_def)

lemma in64_i64 [simp]: "in64 (i64 x)"
  by (simp add: in64_def i64_def)

lemma i64_id [wrap_simps]: "in64 x \<Longrightarrow> i64 x = x"
  by (simp add: in64_def i64_def)

lemma in32_in64: "in32 x \<Longrightarrow> in64 x"
  by (simp add: in32_def in64_def)

lemma u32_id [wrap_simps]: "0 \<le> x \<Longrightarrow> x < 4294967296 \<Longrightarrow> u32 x = x"
  by (simp add: u32_def)

lemma u32_range [simp]: "0 \<le> u32 x" "u32 x < 4294967296"
  by (simp_all add: u32_def)

lemma u32_idem [simp]: "u32 (u32 x) = u32 x"
  by (simp add: u32_def)

lemma u32_add_wrap [simp]: "u32 (u32 a + b) = u32 (a + b)" "u32 (a + u32 b) = u32 (a + b)"
  by (simp_all add: u32_def mod_simps)

text \<open>Truncating division agrees with the flooring one on non-negative operands.\<close>

lemma sdiv_nonneg [cdiv_simps]: "0 \<le> a \<Longrightarrow> 0 < b \<Longrightarrow> a sdiv b = a div (b::int)"
  by (cases "a = 0") (simp_all add: signed_divide_int_def)

lemma sdiv_neg [cdiv_simps]: "a < 0 \<Longrightarrow> 0 < b \<Longrightarrow> a sdiv b = - ((- a) div (b::int))"
  by (simp add: signed_divide_int_def)

lemma smod_nonneg [cdiv_simps]: "0 \<le> a \<Longrightarrow> 0 < b \<Longrightarrow> a smod b = a mod (b::int)"
  by (cases "a = 0") (simp_all add: signed_modulo_int_def)

lemma smod_neg [cdiv_simps]: "a < 0 \<Longrightarrow> 0 < b \<Longrightarrow> a smod b = - ((- a) mod (b::int))"
  by (simp add: signed_modulo_int_def)

lemma sdiv_smod_eq: "(a sdiv b) * b + a smod b = (a::int)"
  by (rule sdiv_mult_smod_eq)

lemma sdiv_bounds2: "2 * (a sdiv 2) \<le> a + 1 \<and> a \<le> 2 * (a sdiv 2) + 1 \<and> a - 1 \<le> 2 * (a sdiv (2::int))"
  by (cases "0 \<le> a") (simp_all add: cdiv_simps, linarith+)

lemma int_div_mult_le: "0 < d \<Longrightarrow> (x div d) * d \<le> (x::int)"
  by (simp add: minus_mod_eq_div_mult [symmetric])

lemma int_less_div_mult: "0 < d \<Longrightarrow> (x::int) < (x div d + 1) * d"
proof -
  assume "0 < d"
  then have "x mod d < d" by simp
  moreover have "x = x div d * d + x mod d" by simp
  ultimately show ?thesis by (metis add_strict_left_mono distrib_right mult_1)
qed

lemma int_div_eqI:
  fixes x q k :: int
  assumes "q * k \<le> x" "x < q * k + k"
  shows "x div k = q"
  by (rule int_div_pos_eq [of x k q "x - q * k"]) (use assms in \<open>simp_all add: mult.commute\<close>)

lemma int_div4_cases:
  fixes x :: int
  obtains a b where "x = 4 * a + b" "x mod 4 = b" "b = 0 \<or> b = 1 \<or> b = 2 \<or> b = 3"
proof (rule that)
  show "x = 4 * (x div 4) + x mod 4" by simp
  show "x mod 4 = x mod 4" by simp
  have "0 \<le> x mod 4" "x mod 4 < 4" by simp_all
  then show "x mod 4 = 0 \<or> x mod 4 = 1 \<or> x mod 4 = 2 \<or> x mod 4 = 3" by linarith
qed

end
