(* ===== verification/Geometry.thy ===== *)
theory Geometry
  imports Prelude
begin

text \<open>
  Integer geometry of src/src/core/tools: \<open>QPoint\<close> (qpoint.h), \<open>QSize\<close> (qsize.h, qsize.cpp),
  \<open>QMargins\<close> (qmargins.h) and \<open>QLine\<close> (qline.h).  The classes are records with the source's
  fields; a member function that changes its object returns the changed record.  The overloads on
  \<open>float\<close>, \<open>double\<close> and the classes QPointF, QSizeF, QLineF are floating point and not modelled.
\<close>

section \<open>QPoint\<close>

record qpoint =
  xp :: int32
  yp :: int32

definition QPoint0 :: qpoint where
  "QPoint0 = \<lparr>xp = 0, yp = 0\<rparr>"

definition QPoint :: "int32 \<Rightarrow> int32 \<Rightarrow> qpoint" where
  "QPoint xpos ypos = \<lparr>xp = xpos, yp = ypos\<rparr>"

definition QPoint_isNull :: "qpoint \<Rightarrow> bool" where
  "QPoint_isNull p \<longleftrightarrow> xp p = 0 \<and> yp p = 0"

definition QPoint_x :: "qpoint \<Rightarrow> int32" where
  "QPoint_x p = xp p"

definition QPoint_y :: "qpoint \<Rightarrow> int32" where
  "QPoint_y p = yp p"

definition QPoint_setX :: "qpoint \<Rightarrow> int32 \<Rightarrow> qpoint" where
  "QPoint_setX p xpos = p\<lparr>xp := xpos\<rparr>"

definition QPoint_setY :: "qpoint \<Rightarrow> int32 \<Rightarrow> qpoint" where
  "QPoint_setY p ypos = p\<lparr>yp := ypos\<rparr>"

definition QPoint_add_assign :: "qpoint \<Rightarrow> qpoint \<Rightarrow> qpoint" where
  "QPoint_add_assign q p = q\<lparr>xp := i32 (xp q + xp p), yp := i32 (yp q + yp p)\<rparr>"

definition QPoint_sub_assign :: "qpoint \<Rightarrow> qpoint \<Rightarrow> qpoint" where
  "QPoint_sub_assign q p = q\<lparr>xp := i32 (xp q - xp p), yp := i32 (yp q - yp p)\<rparr>"

definition QPoint_mul_assign_int :: "qpoint \<Rightarrow> int32 \<Rightarrow> qpoint" where
  "QPoint_mul_assign_int q c = q\<lparr>xp := i32 (xp q * c), yp := i32 (yp q * c)\<rparr>"

definition QPoint_eq :: "qpoint \<Rightarrow> qpoint \<Rightarrow> bool" where
  "QPoint_eq p1 p2 \<longleftrightarrow> xp p1 = xp p2 \<and> yp p1 = yp p2"

definition QPoint_neq :: "qpoint \<Rightarrow> qpoint \<Rightarrow> bool" where
  "QPoint_neq p1 p2 \<longleftrightarrow> xp p1 \<noteq> xp p2 \<or> yp p1 \<noteq> yp p2"

definition QPoint_add :: "qpoint \<Rightarrow> qpoint \<Rightarrow> qpoint" where
  "QPoint_add p1 p2 = QPoint (i32 (xp p1 + xp p2)) (i32 (yp p1 + yp p2))"

definition QPoint_sub :: "qpoint \<Rightarrow> qpoint \<Rightarrow> qpoint" where
  "QPoint_sub p1 p2 = QPoint (i32 (xp p1 - xp p2)) (i32 (yp p1 - yp p2))"

definition QPoint_mul_int :: "qpoint \<Rightarrow> int32 \<Rightarrow> qpoint" where
  "QPoint_mul_int p c = QPoint (i32 (xp p * c)) (i32 (yp p * c))"

definition QPoint_int_mul :: "int32 \<Rightarrow> qpoint \<Rightarrow> qpoint" where
  "QPoint_int_mul c p = QPoint (i32 (xp p * c)) (i32 (yp p * c))"

definition QPoint_uminus :: "qpoint \<Rightarrow> qpoint" where
  "QPoint_uminus p = QPoint (i32 (- xp p)) (i32 (- yp p))"

definition qAbs32 :: "int32 \<Rightarrow> int32" where
  "qAbs32 t = (if t \<ge> 0 then t else i32 (- t))"

definition QPoint_manhattanLength :: "qpoint \<Rightarrow> int32" where
  "QPoint_manhattanLength p = i32 (qAbs32 (QPoint_x p) + qAbs32 (QPoint_y p))"

definition QPoint_ok :: "qpoint \<Rightarrow> bool" where
  "QPoint_ok p \<longleftrightarrow> in32 (xp p) \<and> in32 (yp p)"

lemma QPoint_sel [simp]: "xp (QPoint x y) = x" "yp (QPoint x y) = y"
  by (simp_all add: QPoint_def)

lemma QPoint_x_y [simp]: "QPoint_x p = xp p" "QPoint_y p = yp p"
  by (simp_all add: QPoint_x_def QPoint_y_def)

lemma QPoint_collapse [simp]: "QPoint (xp p) (yp p) = p"
  by (simp add: QPoint_def)

lemma QPoint_eq_iff: "QPoint_eq p q \<longleftrightarrow> p = q"
  by (auto simp: QPoint_eq_def)

lemma QPoint_neq_iff: "QPoint_neq p q \<longleftrightarrow> p \<noteq> q"
  by (auto simp: QPoint_neq_def)

text \<open>Addition of points modulo the 32-bit wrap is a commutative group.\<close>

lemma QPoint_add_commute: "QPoint_add p q = QPoint_add q p"
  by (simp add: QPoint_add_def add.commute)

lemma QPoint_add_assoc: "QPoint_add (QPoint_add p q) r = QPoint_add p (QPoint_add q r)"
  by (simp add: QPoint_add_def add.assoc)

lemma QPoint_sub_add_cancel: "QPoint_ok p \<Longrightarrow> QPoint_sub (QPoint_add p q) q = p"
  by (simp add: QPoint_add_def QPoint_sub_def QPoint_ok_def i32_id)

lemma QPoint_add_sub_cancel: "QPoint_ok p \<Longrightarrow> QPoint_add (QPoint_sub p q) q = p"
  by (simp add: QPoint_add_def QPoint_sub_def QPoint_ok_def i32_id)

lemma QPoint_add_ok [simp]: "QPoint_ok (QPoint_add p q)" "QPoint_ok (QPoint_sub p q)"
  by (simp_all add: QPoint_ok_def QPoint_add_def QPoint_sub_def)

lemma QPoint_add_assign_eq: "QPoint_add_assign p q = QPoint_add p q"
  by (simp add: QPoint_add_assign_def QPoint_add_def QPoint_def)

section \<open>QSize\<close>

record qsize =
  wd :: int32
  ht :: int32

datatype AspectRatioMode = IgnoreAspectRatio | KeepAspectRatio | KeepAspectRatioByExpanding

definition QSize0 :: qsize where
  "QSize0 = \<lparr>wd = -1, ht = -1\<rparr>"

definition QSize :: "int32 \<Rightarrow> int32 \<Rightarrow> qsize" where
  "QSize w h = \<lparr>wd = w, ht = h\<rparr>"

definition QSize_isNull :: "qsize \<Rightarrow> bool" where
  "QSize_isNull s \<longleftrightarrow> wd s = 0 \<and> ht s = 0"

definition QSize_isEmpty :: "qsize \<Rightarrow> bool" where
  "QSize_isEmpty s \<longleftrightarrow> wd s < 1 \<or> ht s < 1"

definition QSize_isValid :: "qsize \<Rightarrow> bool" where
  "QSize_isValid s \<longleftrightarrow> wd s \<ge> 0 \<and> ht s \<ge> 0"

definition QSize_width :: "qsize \<Rightarrow> int32" where
  "QSize_width s = wd s"

definition QSize_height :: "qsize \<Rightarrow> int32" where
  "QSize_height s = ht s"

definition QSize_setWidth :: "qsize \<Rightarrow> int32 \<Rightarrow> qsize" where
  "QSize_setWidth s w = s\<lparr>wd := w\<rparr>"

definition QSize_setHeight :: "qsize \<Rightarrow> int32 \<Rightarrow> qsize" where
  "QSize_setHeight s h = s\<lparr>ht := h\<rparr>"

definition QSize_add_assign :: "qsize \<Rightarrow> qsize \<Rightarrow> qsize" where
  "QSize_add_assign t s = t\<lparr>wd := i32 (wd t + wd s), ht := i32 (ht t + ht s)\<rparr>"

definition QSize_sub_assign :: "qsize \<Rightarrow> qsize \<Rightarrow> qsize" where
  "QSize_sub_assign t s = t\<lparr>wd := i32 (wd t - wd s), ht := i32 (ht t - ht s)\<rparr>"

definition QSize_eq :: "qsize \<Rightarrow> qsize \<Rightarrow> bool" where
  "QSize_eq s1 s2 \<longleftrightarrow> wd s1 = wd s2 \<and> ht s1 = ht s2"

definition QSize_neq :: "qsize \<Rightarrow> qsize \<Rightarrow> bool" where
  "QSize_neq s1 s2 \<longleftrightarrow> wd s1 \<noteq> wd s2 \<or> ht s1 \<noteq> ht s2"

definition QSize_add :: "qsize \<Rightarrow> qsize \<Rightarrow> qsize" where
  "QSize_add s1 s2 = QSize (i32 (wd s1 + wd s2)) (i32 (ht s1 + ht s2))"

definition QSize_sub :: "qsize \<Rightarrow> qsize \<Rightarrow> qsize" where
  "QSize_sub s1 s2 = QSize (i32 (wd s1 - wd s2)) (i32 (ht s1 - ht s2))"

definition QSize_expandedTo :: "qsize \<Rightarrow> qsize \<Rightarrow> qsize" where
  "QSize_expandedTo s otherSize = QSize (max (wd s) (wd otherSize)) (max (ht s) (ht otherSize))"

definition QSize_boundedTo :: "qsize \<Rightarrow> qsize \<Rightarrow> qsize" where
  "QSize_boundedTo s otherSize = QSize (min (wd s) (wd otherSize)) (min (ht s) (ht otherSize))"

definition QSize_transpose :: "qsize \<Rightarrow> qsize" where
  "QSize_transpose s = (let tmp = wd s; s = s\<lparr>wd := ht s\<rparr> in s\<lparr>ht := tmp\<rparr>)"

text \<open>
  \<open>QSize::scale\<close>.  The products are \<open>qint64\<close>: a product of two 32-bit values and its quotient
  always fit.  Storing \<open>rw\<close> in the field \<open>wd\<close> and the cast to \<open>qint32\<close> cut to 32 bits.
\<close>

definition QSize_scale :: "qsize \<Rightarrow> qsize \<Rightarrow> AspectRatioMode \<Rightarrow> qsize" where
  "QSize_scale t s mode =
    (if mode = IgnoreAspectRatio \<or> wd t = 0 \<or> ht t = 0
     then t\<lparr>wd := wd s, ht := ht s\<rparr>
     else
       let rw = (ht s * wd t) sdiv ht t;
           useHeight = (if mode = KeepAspectRatio then rw \<le> wd s else rw \<ge> wd s)
       in if useHeight then t\<lparr>wd := i32 rw, ht := ht s\<rparr>
          else t\<lparr>ht := i32 ((wd s * ht t) sdiv wd t), wd := wd s\<rparr>)"

definition QSize_scale_wh :: "qsize \<Rightarrow> int32 \<Rightarrow> int32 \<Rightarrow> AspectRatioMode \<Rightarrow> qsize" where
  "QSize_scale_wh t w h mode = QSize_scale t (QSize w h) mode"

definition QSize_ok :: "qsize \<Rightarrow> bool" where
  "QSize_ok s \<longleftrightarrow> in32 (wd s) \<and> in32 (ht s)"

lemma QSize_sel [simp]: "wd (QSize w h) = w" "ht (QSize w h) = h"
  by (simp_all add: QSize_def)

lemma QSize_width_height [simp]: "QSize_width s = wd s" "QSize_height s = ht s"
  by (simp_all add: QSize_width_def QSize_height_def)

lemma QSize_eq_iff: "QSize_eq s t \<longleftrightarrow> s = t"
  by (auto simp: QSize_eq_def)

lemma QSize_transpose_involutive: "QSize_transpose (QSize_transpose s) = s"
  by (simp add: QSize_transpose_def Let_def)

lemma QSize_bounded_expanded_absorb:
  "QSize_boundedTo s (QSize_expandedTo s t) = s" "QSize_expandedTo s (QSize_boundedTo s t) = s"
  by (auto simp: QSize_boundedTo_def QSize_expandedTo_def QSize_def min_def max_def)

text \<open>Cross products against quotients: the two facts behind both scaling modes.\<close>

lemma div_le_cross:
  fixes a b c d :: int
  assumes "0 < b" "0 < d" "c < (a * b) div d"
  shows "(c * d) div b \<le> a"
proof -
  have "c * d \<le> ((a * b) div d) * d"
    using assms by (intro mult_right_mono) auto
  also have "\<dots> \<le> a * b"
    using assms by (simp add: int_div_mult_le)
  finally have "(c * d) div b \<le> (a * b) div b"
    using assms by (intro zdiv_mono1) auto
  then show ?thesis using assms by simp
qed

lemma div_ge_cross:
  fixes a b c d :: int
  assumes "0 < b" "0 < d" "(a * b) div d < c"
  shows "a \<le> (c * d) div b"
proof -
  have "a * b < ((a * b) div d + 1) * d"
    using assms by (simp add: int_less_div_mult)
  also have "\<dots> \<le> c * d"
    using assms by (intro mult_right_mono) auto
  finally have "(a * b) div b \<le> (c * d) div b"
    using assms by (intro zdiv_mono1) auto
  then show ?thesis using assms by simp
qed

lemma QSize_scale_keep_fits:
  assumes "QSize_ok t" "QSize_ok s" "0 < wd t" "0 < ht t" "0 \<le> wd s" "0 \<le> ht s"
  defines "r \<equiv> QSize_scale t s KeepAspectRatio"
  shows "0 \<le> wd r" "wd r \<le> wd s" "0 \<le> ht r" "ht r \<le> ht s" "wd r = wd s \<or> ht r = ht s"
proof -
  let ?rw = "(ht s * wd t) div ht t" and ?rh = "(wd s * ht t) div wd t"
  have q: "(ht s * wd t) sdiv ht t = ?rw" "(wd s * ht t) sdiv wd t = ?rh"
    using assms by (simp_all add: sdiv_nonneg)
  have nn: "0 \<le> ?rw" "0 \<le> ?rh"
    using assms by (simp_all add: pos_imp_zdiv_nonneg_iff)
  have rh: "\<not> ?rw \<le> wd s \<Longrightarrow> ?rh \<le> ht s"
    using div_le_cross [of "wd t" "ht t" "wd s" "ht s"] assms by simp
  have w: "?rw \<le> wd s \<Longrightarrow> i32 ?rw = ?rw" "\<not> ?rw \<le> wd s \<Longrightarrow> i32 ?rh = ?rh"
    using nn rh assms(1,2) by (auto simp: QSize_ok_def in32_def intro!: i32_id)
  show "0 \<le> wd r" "wd r \<le> wd s" "0 \<le> ht r" "ht r \<le> ht s" "wd r = wd s \<or> ht r = ht s"
    using assms(3-6) nn rh w by (auto simp: r_def QSize_scale_def q Let_def)
qed

lemma QSize_scale_expand_covers:
  assumes "QSize_ok s" "0 < wd t" "0 < ht t" "0 \<le> wd s" "0 \<le> ht s"
    and "in32 ((ht s * wd t) div ht t)" "in32 ((wd s * ht t) div wd t)"
  defines "r \<equiv> QSize_scale t s KeepAspectRatioByExpanding"
  shows "wd s \<le> wd r" "ht s \<le> ht r" "wd r = wd s \<or> ht r = ht s"
proof -
  let ?rw = "(ht s * wd t) div ht t" and ?rh = "(wd s * ht t) div wd t"
  have q: "(ht s * wd t) sdiv ht t = ?rw" "(wd s * ht t) sdiv wd t = ?rh"
    using assms by (simp_all add: sdiv_nonneg)
  have rh: "\<not> wd s \<le> ?rw \<Longrightarrow> ht s \<le> ?rh"
    using div_ge_cross [of "wd t" "ht t" "ht s" "wd s"] assms by simp
  show "wd s \<le> wd r" "ht s \<le> ht r" "wd r = wd s \<or> ht r = ht s"
    using assms(2-7) rh by (auto simp: r_def QSize_scale_def q Let_def i32_id)
qed

section \<open>QMargins\<close>

record qmargins =
  m_left :: int32
  m_top :: int32
  m_right :: int32
  m_bottom :: int32

definition QMargins0 :: qmargins where
  "QMargins0 = \<lparr>m_left = 0, m_top = 0, m_right = 0, m_bottom = 0\<rparr>"

definition QMargins :: "int32 \<Rightarrow> int32 \<Rightarrow> int32 \<Rightarrow> int32 \<Rightarrow> qmargins" where
  "QMargins aleft atop aright abottom =
    \<lparr>m_left = aleft, m_top = atop, m_right = aright, m_bottom = abottom\<rparr>"

definition QMargins_isNull :: "qmargins \<Rightarrow> bool" where
  "QMargins_isNull m \<longleftrightarrow> m_left m = 0 \<and> m_top m = 0 \<and> m_right m = 0 \<and> m_bottom m = 0"

definition QMargins_setLeft :: "qmargins \<Rightarrow> int32 \<Rightarrow> qmargins" where
  "QMargins_setLeft m aleft = m\<lparr>m_left := aleft\<rparr>"

definition QMargins_setTop :: "qmargins \<Rightarrow> int32 \<Rightarrow> qmargins" where
  "QMargins_setTop m atop = m\<lparr>m_top := atop\<rparr>"

definition QMargins_setRight :: "qmargins \<Rightarrow> int32 \<Rightarrow> qmargins" where
  "QMargins_setRight m aright = m\<lparr>m_right := aright\<rparr>"

definition QMargins_setBottom :: "qmargins \<Rightarrow> int32 \<Rightarrow> qmargins" where
  "QMargins_setBottom m abottom = m\<lparr>m_bottom := abottom\<rparr>"

definition QMargins_eq :: "qmargins \<Rightarrow> qmargins \<Rightarrow> bool" where
  "QMargins_eq m other \<longleftrightarrow>
    m_left m = m_left other \<and> m_top m = m_top other \<and>
    m_right m = m_right other \<and> m_bottom m = m_bottom other"

lemma QMargins_eq_iff: "QMargins_eq m n \<longleftrightarrow> m = n"
  by (auto simp: QMargins_eq_def)

lemma QMargins_isNull_iff: "QMargins_isNull m \<longleftrightarrow> m = QMargins0"
  by (cases m) (auto simp: QMargins_isNull_def QMargins0_def)

section \<open>QLine\<close>

record qline =
  pt1 :: qpoint
  pt2 :: qpoint

definition QLine0 :: qline where
  "QLine0 = \<lparr>pt1 = QPoint0, pt2 = QPoint0\<rparr>"

definition QLine :: "qpoint \<Rightarrow> qpoint \<Rightarrow> qline" where
  "QLine p1 p2 = \<lparr>pt1 = p1, pt2 = p2\<rparr>"

definition QLine_coords :: "int32 \<Rightarrow> int32 \<Rightarrow> int32 \<Rightarrow> int32 \<Rightarrow> qline" where
  "QLine_coords a b c d = \<lparr>pt1 = QPoint a b, pt2 = QPoint c d\<rparr>"

definition QLine_isNull :: "qline \<Rightarrow> bool" where
  "QLine_isNull l \<longleftrightarrow> QPoint_eq (pt1 l) (pt2 l)"

definition QLine_x1 :: "qline \<Rightarrow> int32" where
  "QLine_x1 l = QPoint_x (pt1 l)"

definition QLine_y1 :: "qline \<Rightarrow> int32" where
  "QLine_y1 l = QPoint_y (pt1 l)"

definition QLine_x2 :: "qline \<Rightarrow> int32" where
  "QLine_x2 l = QPoint_x (pt2 l)"

definition QLine_y2 :: "qline \<Rightarrow> int32" where
  "QLine_y2 l = QPoint_y (pt2 l)"

definition QLine_p1 :: "qline \<Rightarrow> qpoint" where
  "QLine_p1 l = pt1 l"

definition QLine_p2 :: "qline \<Rightarrow> qpoint" where
  "QLine_p2 l = pt2 l"

definition QLine_dx :: "qline \<Rightarrow> int32" where
  "QLine_dx l = i32 (QPoint_x (pt2 l) - QPoint_x (pt1 l))"

definition QLine_dy :: "qline \<Rightarrow> int32" where
  "QLine_dy l = i32 (QPoint_y (pt2 l) - QPoint_y (pt1 l))"

definition QLine_translate :: "qline \<Rightarrow> qpoint \<Rightarrow> qline" where
  "QLine_translate l p =
    l\<lparr>pt1 := QPoint_add_assign (pt1 l) p, pt2 := QPoint_add_assign (pt2 l) p\<rparr>"

definition QLine_translate_xy :: "qline \<Rightarrow> int32 \<Rightarrow> int32 \<Rightarrow> qline" where
  "QLine_translate_xy l adx ady = QLine_translate l (QPoint adx ady)"

definition QLine_translated :: "qline \<Rightarrow> qpoint \<Rightarrow> qline" where
  "QLine_translated l p = QLine (QPoint_add (pt1 l) p) (QPoint_add (pt2 l) p)"

definition QLine_translated_xy :: "qline \<Rightarrow> int32 \<Rightarrow> int32 \<Rightarrow> qline" where
  "QLine_translated_xy l adx ady = QLine_translated l (QPoint adx ady)"

definition QLine_setP1 :: "qline \<Rightarrow> qpoint \<Rightarrow> qline" where
  "QLine_setP1 l p = l\<lparr>pt1 := p\<rparr>"

definition QLine_setP2 :: "qline \<Rightarrow> qpoint \<Rightarrow> qline" where
  "QLine_setP2 l p = l\<lparr>pt2 := p\<rparr>"

definition QLine_setPoints :: "qline \<Rightarrow> qpoint \<Rightarrow> qpoint \<Rightarrow> qline" where
  "QLine_setPoints l p q = l\<lparr>pt1 := p, pt2 := q\<rparr>"

definition QLine_setLine :: "qline \<Rightarrow> int32 \<Rightarrow> int32 \<Rightarrow> int32 \<Rightarrow> int32 \<Rightarrow> qline" where
  "QLine_setLine l a b c d = l\<lparr>pt1 := QPoint a b, pt2 := QPoint c d\<rparr>"

definition QLine_eq :: "qline \<Rightarrow> qline \<Rightarrow> bool" where
  "QLine_eq l d \<longleftrightarrow> QPoint_eq (pt1 l) (pt1 d) \<and> QPoint_eq (pt2 l) (pt2 d)"

lemma QLine_eq_iff: "QLine_eq l d \<longleftrightarrow> l = d"
  by (auto simp: QLine_eq_def QPoint_eq_iff)

lemma QLine_translate_eq: "QLine_translate l p = QLine_translated l p"
  by (simp add: QLine_translate_def QLine_translated_def QPoint_add_assign_eq QLine_def)

text \<open>Translation keeps the direction of a line, and of a line that is not null a non-null one.\<close>

lemma QLine_translated_dx_dy:
  "QLine_dx (QLine_translated l p) = QLine_dx l" "QLine_dy (QLine_translated l p) = QLine_dy l"
  by (simp_all add: QLine_dx_def QLine_dy_def QLine_translated_def QLine_def QPoint_add_def)

end
