(* ===== verification/Rect.thy ===== *)
theory Rect
  imports Geometry
begin

text \<open>
  \<open>QRect\<close> (src/src/core/tools/qrect.h and qrect.cpp): a rectangle with inclusive corner coordinates.
  The abstract value of a rectangle is the set of the points it contains, \<open>rect_points\<close>; the
  lemmas show that intersection, union and the containment tests are the set operations on it, for
  rectangles whose width and height do not overflow.  \<open>QRectF\<close> is floating point and not
  modelled.
\<close>

record qrect =
  x1 :: int32
  y1 :: int32
  x2 :: int32
  y2 :: int32

definition QRect0 :: qrect where
  "QRect0 = \<lparr>x1 = 0, y1 = 0, x2 = -1, y2 = -1\<rparr>"

definition QRect :: "int32 \<Rightarrow> int32 \<Rightarrow> int32 \<Rightarrow> int32 \<Rightarrow> qrect" where
  "QRect aleft atop awidth aheight =
    \<lparr>x1 = aleft, y1 = atop, x2 = i32 (aleft + awidth - 1), y2 = i32 (atop + aheight - 1)\<rparr>"

definition QRect_corners :: "qpoint \<Rightarrow> qpoint \<Rightarrow> qrect" where
  "QRect_corners atopLeft abottomRight =
    \<lparr>x1 = QPoint_x atopLeft, y1 = QPoint_y atopLeft,
     x2 = QPoint_x abottomRight, y2 = QPoint_y abottomRight\<rparr>"

definition QRect_point_size :: "qpoint \<Rightarrow> qsize \<Rightarrow> qrect" where
  "QRect_point_size atopLeft asize =
    \<lparr>x1 = QPoint_x atopLeft, y1 = QPoint_y atopLeft,
     x2 = i32 (QPoint_x atopLeft + QSize_width asize - 1),
     y2 = i32 (QPoint_y atopLeft + QSize_height asize - 1)\<rparr>"

definition QRect_isNull :: "qrect \<Rightarrow> bool" where
  "QRect_isNull r \<longleftrightarrow> x2 r = i32 (x1 r - 1) \<and> y2 r = i32 (y1 r - 1)"

definition QRect_isEmpty :: "qrect \<Rightarrow> bool" where
  "QRect_isEmpty r \<longleftrightarrow> x1 r > x2 r \<or> y1 r > y2 r"

definition QRect_isValid :: "qrect \<Rightarrow> bool" where
  "QRect_isValid r \<longleftrightarrow> x1 r \<le> x2 r \<and> y1 r \<le> y2 r"

definition QRect_left :: "qrect \<Rightarrow> int32" where
  "QRect_left r = x1 r"

definition QRect_top :: "qrect \<Rightarrow> int32" where
  "QRect_top r = y1 r"

definition QRect_right :: "qrect \<Rightarrow> int32" where
  "QRect_right r = x2 r"

definition QRect_bottom :: "qrect \<Rightarrow> int32" where
  "QRect_bottom r = y2 r"

definition QRect_x :: "qrect \<Rightarrow> int32" where
  "QRect_x r = x1 r"

definition QRect_y :: "qrect \<Rightarrow> int32" where
  "QRect_y r = y1 r"

definition QRect_setLeft :: "qrect \<Rightarrow> int32 \<Rightarrow> qrect" where
  "QRect_setLeft r pos = r\<lparr>x1 := pos\<rparr>"

definition QRect_setTop :: "qrect \<Rightarrow> int32 \<Rightarrow> qrect" where
  "QRect_setTop r pos = r\<lparr>y1 := pos\<rparr>"

definition QRect_setRight :: "qrect \<Rightarrow> int32 \<Rightarrow> qrect" where
  "QRect_setRight r pos = r\<lparr>x2 := pos\<rparr>"

definition QRect_setBottom :: "qrect \<Rightarrow> int32 \<Rightarrow> qrect" where
  "QRect_setBottom r pos = r\<lparr>y2 := pos\<rparr>"

definition QRect_setX :: "qrect \<Rightarrow> int32 \<Rightarrow> qrect" where
  "QRect_setX r ax = r\<lparr>x1 := ax\<rparr>"

definition QRect_setY :: "qrect \<Rightarrow> int32 \<Rightarrow> qrect" where
  "QRect_setY r ay = r\<lparr>y1 := ay\<rparr>"

definition QRect_setTopLeft :: "qrect \<Rightarrow> qpoint \<Rightarrow> qrect" where
  "QRect_setTopLeft r p = r\<lparr>x1 := QPoint_x p, y1 := QPoint_y p\<rparr>"

definition QRect_setBottomRight :: "qrect \<Rightarrow> qpoint \<Rightarrow> qrect" where
  "QRect_setBottomRight r p = r\<lparr>x2 := QPoint_x p, y2 := QPoint_y p\<rparr>"

definition QRect_setTopRight :: "qrect \<Rightarrow> qpoint \<Rightarrow> qrect" where
  "QRect_setTopRight r p = r\<lparr>x2 := QPoint_x p, y1 := QPoint_y p\<rparr>"

definition QRect_setBottomLeft :: "qrect \<Rightarrow> qpoint \<Rightarrow> qrect" where
  "QRect_setBottomLeft r p = r\<lparr>x1 := QPoint_x p, y2 := QPoint_y p\<rparr>"

definition QRect_topLeft :: "qrect \<Rightarrow> qpoint" where
  "QRect_topLeft r = QPoint (x1 r) (y1 r)"

definition QRect_bottomRight :: "qrect \<Rightarrow> qpoint" where
  "QRect_bottomRight r = QPoint (x2 r) (y2 r)"

definition QRect_topRight :: "qrect \<Rightarrow> qpoint" where
  "QRect_topRight r = QPoint (x2 r) (y1 r)"

definition QRect_bottomLeft :: "qrect \<Rightarrow> qpoint" where
  "QRect_bottomLeft r = QPoint (x1 r) (y2 r)"

definition QRect_center :: "qrect \<Rightarrow> qpoint" where
  "QRect_center r = QPoint (i32 (x1 r + x2 r) sdiv 2) (i32 (y1 r + y2 r) sdiv 2)"

definition QRect_width :: "qrect \<Rightarrow> int32" where
  "QRect_width r = i32 (x2 r - x1 r + 1)"

definition QRect_height :: "qrect \<Rightarrow> int32" where
  "QRect_height r = i32 (y2 r - y1 r + 1)"

definition QRect_size :: "qrect \<Rightarrow> qsize" where
  "QRect_size r = QSize (QRect_width r) (QRect_height r)"

definition QRect_translate :: "qrect \<Rightarrow> int32 \<Rightarrow> int32 \<Rightarrow> qrect" where
  "QRect_translate r dx dy =
    r\<lparr>x1 := i32 (x1 r + dx), y1 := i32 (y1 r + dy), x2 := i32 (x2 r + dx), y2 := i32 (y2 r + dy)\<rparr>"

definition QRect_translate_point :: "qrect \<Rightarrow> qpoint \<Rightarrow> qrect" where
  "QRect_translate_point r p =
    r\<lparr>x1 := i32 (x1 r + QPoint_x p), y1 := i32 (y1 r + QPoint_y p),
      x2 := i32 (x2 r + QPoint_x p), y2 := i32 (y2 r + QPoint_y p)\<rparr>"

definition QRect_translated :: "qrect \<Rightarrow> int32 \<Rightarrow> int32 \<Rightarrow> qrect" where
  "QRect_translated r dx dy =
    QRect_corners (QPoint (i32 (x1 r + dx)) (i32 (y1 r + dy)))
                  (QPoint (i32 (x2 r + dx)) (i32 (y2 r + dy)))"

definition QRect_translated_point :: "qrect \<Rightarrow> qpoint \<Rightarrow> qrect" where
  "QRect_translated_point r p =
    QRect_corners (QPoint (i32 (x1 r + QPoint_x p)) (i32 (y1 r + QPoint_y p)))
                  (QPoint (i32 (x2 r + QPoint_x p)) (i32 (y2 r + QPoint_y p)))"

definition QRect_moveTo :: "qrect \<Rightarrow> int32 \<Rightarrow> int32 \<Rightarrow> qrect" where
  "QRect_moveTo r ax ay =
    r\<lparr>x2 := i32 (x2 r + (ax - x1 r)), y2 := i32 (y2 r + (ay - y1 r)), x1 := ax, y1 := ay\<rparr>"

definition QRect_moveTo_point :: "qrect \<Rightarrow> qpoint \<Rightarrow> qrect" where
  "QRect_moveTo_point r p =
    r\<lparr>x2 := i32 (x2 r + (QPoint_x p - x1 r)), y2 := i32 (y2 r + (QPoint_y p - y1 r)),
      x1 := QPoint_x p, y1 := QPoint_y p\<rparr>"

definition QRect_moveLeft :: "qrect \<Rightarrow> int32 \<Rightarrow> qrect" where
  "QRect_moveLeft r pos = r\<lparr>x2 := i32 (x2 r + (pos - x1 r)), x1 := pos\<rparr>"

definition QRect_moveTop :: "qrect \<Rightarrow> int32 \<Rightarrow> qrect" where
  "QRect_moveTop r pos = r\<lparr>y2 := i32 (y2 r + (pos - y1 r)), y1 := pos\<rparr>"

definition QRect_moveRight :: "qrect \<Rightarrow> int32 \<Rightarrow> qrect" where
  "QRect_moveRight r pos = r\<lparr>x1 := i32 (x1 r + (pos - x2 r)), x2 := pos\<rparr>"

definition QRect_moveBottom :: "qrect \<Rightarrow> int32 \<Rightarrow> qrect" where
  "QRect_moveBottom r pos = r\<lparr>y1 := i32 (y1 r + (pos - y2 r)), y2 := pos\<rparr>"

definition QRect_moveTopLeft :: "qrect \<Rightarrow> qpoint \<Rightarrow> qrect" where
  "QRect_moveTopLeft r p = QRect_moveTop (QRect_moveLeft r (QPoint_x p)) (QPoint_y p)"

definition QRect_moveBottomRight :: "qrect \<Rightarrow> qpoint \<Rightarrow> qrect" where
  "QRect_moveBottomRight r p = QRect_moveBottom (QRect_moveRight r (QPoint_x p)) (QPoint_y p)"

definition QRect_moveTopRight :: "qrect \<Rightarrow> qpoint \<Rightarrow> qrect" where
  "QRect_moveTopRight r p = QRect_moveTop (QRect_moveRight r (QPoint_x p)) (QPoint_y p)"

definition QRect_moveBottomLeft :: "qrect \<Rightarrow> qpoint \<Rightarrow> qrect" where
  "QRect_moveBottomLeft r p = QRect_moveBottom (QRect_moveLeft r (QPoint_x p)) (QPoint_y p)"

definition QRect_moveCenter :: "qrect \<Rightarrow> qpoint \<Rightarrow> qrect" where
  "QRect_moveCenter r p =
    (let w = i32 (x2 r - x1 r);
         h = i32 (y2 r - y1 r);
         nx1 = i32 (QPoint_x p - w sdiv 2);
         ny1 = i32 (QPoint_y p - h sdiv 2)
     in r\<lparr>x1 := nx1, y1 := ny1, x2 := i32 (nx1 + w), y2 := i32 (ny1 + h)\<rparr>)"

definition QRect_getRect :: "qrect \<Rightarrow> int32 \<times> int32 \<times> int32 \<times> int32" where
  "QRect_getRect r = (x1 r, y1 r, i32 (x2 r - x1 r + 1), i32 (y2 r - y1 r + 1))"

definition QRect_setRect :: "qrect \<Rightarrow> int32 \<Rightarrow> int32 \<Rightarrow> int32 \<Rightarrow> int32 \<Rightarrow> qrect" where
  "QRect_setRect r ax ay aw ah =
    r\<lparr>x1 := ax, y1 := ay, x2 := i32 (ax + aw - 1), y2 := i32 (ay + ah - 1)\<rparr>"

definition QRect_getCoords :: "qrect \<Rightarrow> int32 \<times> int32 \<times> int32 \<times> int32" where
  "QRect_getCoords r = (x1 r, y1 r, x2 r, y2 r)"

definition QRect_setCoords :: "qrect \<Rightarrow> int32 \<Rightarrow> int32 \<Rightarrow> int32 \<Rightarrow> int32 \<Rightarrow> qrect" where
  "QRect_setCoords r xp1 yp1 xp2 yp2 = r\<lparr>x1 := xp1, y1 := yp1, x2 := xp2, y2 := yp2\<rparr>"

definition QRect_adjusted :: "qrect \<Rightarrow> int32 \<Rightarrow> int32 \<Rightarrow> int32 \<Rightarrow> int32 \<Rightarrow> qrect" where
  "QRect_adjusted r xp1 yp1 xp2 yp2 =
    QRect_corners (QPoint (i32 (x1 r + xp1)) (i32 (y1 r + yp1)))
                  (QPoint (i32 (x2 r + xp2)) (i32 (y2 r + yp2)))"

definition QRect_adjust :: "qrect \<Rightarrow> int32 \<Rightarrow> int32 \<Rightarrow> int32 \<Rightarrow> int32 \<Rightarrow> qrect" where
  "QRect_adjust r dx1 dy1 dx2 dy2 =
    r\<lparr>x1 := i32 (x1 r + dx1), y1 := i32 (y1 r + dy1),
      x2 := i32 (x2 r + dx2), y2 := i32 (y2 r + dy2)\<rparr>"

definition QRect_setWidth :: "qrect \<Rightarrow> int32 \<Rightarrow> qrect" where
  "QRect_setWidth r w = r\<lparr>x2 := i32 (x1 r + w - 1)\<rparr>"

definition QRect_setHeight :: "qrect \<Rightarrow> int32 \<Rightarrow> qrect" where
  "QRect_setHeight r h = r\<lparr>y2 := i32 (y1 r + h - 1)\<rparr>"

definition QRect_setSize :: "qrect \<Rightarrow> qsize \<Rightarrow> qrect" where
  "QRect_setSize r s =
    r\<lparr>x2 := i32 (QSize_width s + x1 r - 1), y2 := i32 (QSize_height s + y1 r - 1)\<rparr>"

definition QRect_normalized :: "qrect \<Rightarrow> qrect" where
  "QRect_normalized r =
    (let (rx1, rx2) = (if x2 r < i32 (x1 r - 1) then (x2 r, x1 r) else (x1 r, x2 r));
         (ry1, ry2) = (if y2 r < i32 (y1 r - 1) then (y2 r, y1 r) else (y1 r, y2 r))
     in \<lparr>x1 = rx1, y1 = ry1, x2 = rx2, y2 = ry2\<rparr>)"

definition QRect_contains_point :: "qrect \<Rightarrow> qpoint \<Rightarrow> bool \<Rightarrow> bool" where
  "QRect_contains_point q p proper =
    (let (l, r) = (if x2 q < i32 (x1 q - 1) then (x2 q, x1 q) else (x1 q, x2 q))
     in if (if proper then QPoint_x p \<le> l \<or> QPoint_x p \<ge> r
            else QPoint_x p < l \<or> QPoint_x p > r)
        then False
        else
          let (t, b) = (if y2 q < i32 (y1 q - 1) then (y2 q, y1 q) else (y1 q, y2 q))
          in if (if proper then QPoint_y p \<le> t \<or> QPoint_y p \<ge> b
                 else QPoint_y p < t \<or> QPoint_y p > b)
             then False
             else True)"

definition QRect_contains_xy_proper :: "qrect \<Rightarrow> int32 \<Rightarrow> int32 \<Rightarrow> bool \<Rightarrow> bool" where
  "QRect_contains_xy_proper r ax ay aproper = QRect_contains_point r (QPoint ax ay) aproper"

definition QRect_contains_xy :: "qrect \<Rightarrow> int32 \<Rightarrow> int32 \<Rightarrow> bool" where
  "QRect_contains_xy r ax ay = QRect_contains_point r (QPoint ax ay) False"

text \<open>
  The block \<open>l1 = x1; r1 = x1; if (x2 - x1 + 1 < 0) l1 = x2; else r1 = x2;\<close> that contains, the two
  operators and intersects repeat for both axes of both rectangles.
\<close>

definition ordered_edges :: "int32 \<Rightarrow> int32 \<Rightarrow> int32 \<times> int32" where
  "ordered_edges a b = (if i32 (b - a + 1) < 0 then (b, a) else (a, b))"

definition QRect_contains_rect :: "qrect \<Rightarrow> qrect \<Rightarrow> bool \<Rightarrow> bool" where
  "QRect_contains_rect q r proper =
    (if QRect_isNull q \<or> QRect_isNull r then False
     else
       let (l1, r1) = ordered_edges (x1 q) (x2 q);
           (l2, r2) = ordered_edges (x1 r) (x2 r)
       in if (if proper then l2 \<le> l1 \<or> r2 \<ge> r1 else l2 < l1 \<or> r2 > r1) then False
          else
            let (t1, b1) = ordered_edges (y1 q) (y2 q);
                (t2, b2) = ordered_edges (y1 r) (y2 r)
            in if (if proper then t2 \<le> t1 \<or> b2 \<ge> b1 else t2 < t1 \<or> b2 > b1) then False
               else True)"

definition QRect_or :: "qrect \<Rightarrow> qrect \<Rightarrow> qrect" where
  "QRect_or q r =
    (if QRect_isNull q then r
     else if QRect_isNull r then q
     else
       let (l1, r1) = ordered_edges (x1 q) (x2 q);
           (l2, r2) = ordered_edges (x1 r) (x2 r);
           (t1, b1) = ordered_edges (y1 q) (y2 q);
           (t2, b2) = ordered_edges (y1 r) (y2 r)
       in \<lparr>x1 = min l1 l2, y1 = min t1 t2, x2 = max r1 r2, y2 = max b1 b2\<rparr>)"

definition QRect_and :: "qrect \<Rightarrow> qrect \<Rightarrow> qrect" where
  "QRect_and q r =
    (if QRect_isNull q \<or> QRect_isNull r then QRect0
     else
       let (l1, r1) = ordered_edges (x1 q) (x2 q);
           (l2, r2) = ordered_edges (x1 r) (x2 r)
       in if l1 > r2 \<or> l2 > r1 then QRect0
          else
            let (t1, b1) = ordered_edges (y1 q) (y2 q);
                (t2, b2) = ordered_edges (y1 r) (y2 r)
            in if t1 > b2 \<or> t2 > b1 then QRect0
               else \<lparr>x1 = max l1 l2, y1 = max t1 t2, x2 = min r1 r2, y2 = min b1 b2\<rparr>)"

definition QRect_or_assign :: "qrect \<Rightarrow> qrect \<Rightarrow> qrect" where
  "QRect_or_assign q r = QRect_or q r"

definition QRect_and_assign :: "qrect \<Rightarrow> qrect \<Rightarrow> qrect" where
  "QRect_and_assign q r = QRect_and q r"

definition QRect_intersected :: "qrect \<Rightarrow> qrect \<Rightarrow> qrect" where
  "QRect_intersected q r = QRect_and q r"

definition QRect_united :: "qrect \<Rightarrow> qrect \<Rightarrow> qrect" where
  "QRect_united q r = QRect_or q r"

definition QRect_intersects :: "qrect \<Rightarrow> qrect \<Rightarrow> bool" where
  "QRect_intersects q r =
    (if QRect_isNull q \<or> QRect_isNull r then False
     else
       let (l1, r1) = ordered_edges (x1 q) (x2 q);
           (l2, r2) = ordered_edges (x1 r) (x2 r)
       in if l1 > r2 \<or> l2 > r1 then False
          else
            let (t1, b1) = ordered_edges (y1 q) (y2 q);
                (t2, b2) = ordered_edges (y1 r) (y2 r)
            in if t1 > b2 \<or> t2 > b1 then False
               else True)"

definition QRect_eq :: "qrect \<Rightarrow> qrect \<Rightarrow> bool" where
  "QRect_eq r other \<longleftrightarrow>
    x1 r = x1 other \<and> x2 r = x2 other \<and> y1 r = y1 other \<and> y2 r = y2 other"

section \<open>The points of a rectangle\<close>

definition rect_points :: "qrect \<Rightarrow> (int \<times> int) set" where
  "rect_points r = {(x, y). x1 r \<le> x \<and> x \<le> x2 r \<and> y1 r \<le> y \<and> y \<le> y2 r}"

text \<open>
  A rectangle fits when no coordinate is beyond half the 32-bit range; then no width, height or
  \<open>x1 - 1\<close> of the code overflows.
\<close>

definition coord_ok :: "int \<Rightarrow> bool" where
  "coord_ok c \<longleftrightarrow> -1073741824 < c \<and> c < 1073741824"

definition rect_fits :: "qrect \<Rightarrow> bool" where
  "rect_fits r \<longleftrightarrow> coord_ok (x1 r) \<and> coord_ok (y1 r) \<and> coord_ok (x2 r) \<and> coord_ok (y2 r)"

named_theorems rect_simps

lemma QRect0_sel [rect_simps]: "x1 QRect0 = 0" "y1 QRect0 = 0" "x2 QRect0 = -1" "y2 QRect0 = -1"
  by (simp_all add: QRect0_def)

lemma rect_fits_QRect0 [simp]: "rect_fits QRect0"
  by (simp add: rect_fits_def QRect0_def coord_ok_def)

lemma rect_points_QRect0 [simp]: "rect_points QRect0 = {}"
  by (auto simp: rect_points_def QRect0_def)

text \<open>
  The two ways the code orders an axis, by \<open>x2 < x1 - 1\<close> and by \<open>x2 - x1 + 1 < 0\<close>, agree when
  nothing overflows.
\<close>

lemma coord_ok_axis:
  assumes "coord_ok a" "coord_ok b"
  shows "ordered_edges a b = (if b < a - 1 then (b, a) else (a, b))" "i32 (a - 1) = a - 1"
proof -
  have "i32 (b - a + 1) = b - a + 1"
    using assms by (intro i32_id) (simp add: coord_ok_def in32_def)
  then show "ordered_edges a b = (if b < a - 1 then (b, a) else (a, b))"
    by (auto simp: ordered_edges_def)
  show "i32 (a - 1) = a - 1"
    using assms by (intro i32_id) (simp add: coord_ok_def in32_def)
qed

lemma rect_fits_axis:
  assumes "rect_fits r"
  shows "ordered_edges (x1 r) (x2 r) = (if x2 r < x1 r - 1 then (x2 r, x1 r) else (x1 r, x2 r))"
    and "ordered_edges (y1 r) (y2 r) = (if y2 r < y1 r - 1 then (y2 r, y1 r) else (y1 r, y2 r))"
    and "x2 r < i32 (x1 r - 1) \<longleftrightarrow> x2 r < x1 r - 1"
    and "y2 r < i32 (y1 r - 1) \<longleftrightarrow> y2 r < y1 r - 1"
    and "x2 r = i32 (x1 r - 1) \<longleftrightarrow> x2 r = x1 r - 1"
    and "y2 r = i32 (y1 r - 1) \<longleftrightarrow> y2 r = y1 r - 1"
  using assms by (auto simp: rect_fits_def coord_ok_axis)

lemma isNull_fits: "rect_fits r \<Longrightarrow> QRect_isNull r \<longleftrightarrow> x2 r = x1 r - 1 \<and> y2 r = y1 r - 1"
  by (simp add: QRect_isNull_def rect_fits_axis)

lemma isValid_not_null: "rect_fits r \<Longrightarrow> QRect_isValid r \<Longrightarrow> \<not> QRect_isNull r"
  by (auto simp: isNull_fits QRect_isValid_def)

lemma isValid_iff_not_isEmpty: "QRect_isValid r \<longleftrightarrow> \<not> QRect_isEmpty r"
  by (auto simp: QRect_isValid_def QRect_isEmpty_def)

lemma isValid_iff_points: "QRect_isValid r \<longleftrightarrow> rect_points r \<noteq> {}"
  by (auto simp: QRect_isValid_def rect_points_def)

lemma normalized_fits:
  assumes "rect_fits r"
  shows "QRect_normalized r =
    \<lparr>x1 = (if x2 r < x1 r - 1 then x2 r else x1 r), y1 = (if y2 r < y1 r - 1 then y2 r else y1 r),
     x2 = (if x2 r < x1 r - 1 then x1 r else x2 r), y2 = (if y2 r < y1 r - 1 then y1 r else y2 r)\<rparr>"
  using assms by (auto simp: QRect_normalized_def rect_fits_axis)

lemma valid_normalized: "rect_fits r \<Longrightarrow> QRect_isValid r \<Longrightarrow> QRect_normalized r = r"
  by (simp add: normalized_fits QRect_isValid_def)

text \<open>A rectangle and its normalized form contain the same points.\<close>

lemma contains_point_iff:
  assumes "rect_fits r"
  shows "QRect_contains_point r p False \<longleftrightarrow> (xp p, yp p) \<in> rect_points (QRect_normalized r)"
  using assms by (auto simp: QRect_contains_point_def rect_points_def normalized_fits rect_fits_axis)

lemma normalized_order:
  "rect_fits s \<Longrightarrow> x1 (QRect_normalized s) \<le> x2 (QRect_normalized s) + 1"
  "rect_fits s \<Longrightarrow> y1 (QRect_normalized s) \<le> y2 (QRect_normalized s) + 1"
  by (auto simp: normalized_fits)

lemma normalized_rect_fits: "rect_fits s \<Longrightarrow> rect_fits (QRect_normalized s)"
  by (auto simp: normalized_fits rect_fits_def)

lemma ordered_normalized:
  assumes "rect_fits s" "x1 s \<le> x2 s + 1" "y1 s \<le> y2 s + 1"
  shows "QRect_normalized s = s"
  using assms by (simp add: normalized_fits)

lemma and_eq_normalized:
  assumes "rect_fits q" "rect_fits r" "\<not> QRect_isNull q" "\<not> QRect_isNull r"
  shows "QRect_and q r =
    (let a = QRect_normalized q; b = QRect_normalized r
     in if x1 a > x2 b \<or> x1 b > x2 a \<or> y1 a > y2 b \<or> y1 b > y2 a then QRect0
        else \<lparr>x1 = max (x1 a) (x1 b), y1 = max (y1 a) (y1 b),
              x2 = min (x2 a) (x2 b), y2 = min (y2 a) (y2 b)\<rparr>)"
  using assms by (simp add: QRect_and_def normalized_fits rect_fits_axis Let_def)

lemma coord_ok_min_max [simp]:
  "coord_ok a \<Longrightarrow> coord_ok b \<Longrightarrow> coord_ok (min a b)" "coord_ok a \<Longrightarrow> coord_ok b \<Longrightarrow> coord_ok (max a b)"
  by (simp_all add: min_def max_def)

lemma and_fits:
  assumes "rect_fits q" "rect_fits r"
  shows "rect_fits (QRect_and q r)"
proof (cases "QRect_isNull q \<or> QRect_isNull r")
  case True
  then have "QRect_and q r = QRect0" by (auto simp: QRect_and_def)
  then show ?thesis by simp
next
  case False
  then show ?thesis
    using assms normalized_rect_fits [OF assms(1)] normalized_rect_fits [OF assms(2)]
    by (simp add: and_eq_normalized Let_def) (simp add: rect_fits_def)
qed

lemma points_and_ordered:
  assumes "x1 a \<le> x2 a + 1" "y1 a \<le> y2 a + 1" "x1 b \<le> x2 b + 1" "y1 b \<le> y2 b + 1"
    and "\<not> (x1 a > x2 b \<or> x1 b > x2 a \<or> y1 a > y2 b \<or> y1 b > y2 a)"
  defines "n \<equiv> \<lparr>x1 = max (x1 a) (x1 b), y1 = max (y1 a) (y1 b),
              x2 = min (x2 a) (x2 b), y2 = min (y2 a) (y2 b)\<rparr>"
  shows "x1 n \<le> x2 n + 1" "y1 n \<le> y2 n + 1" "rect_points n = rect_points a \<inter> rect_points b"
  using assms by (auto simp: rect_points_def)

lemma points_and:
  assumes "rect_fits q" "rect_fits r"
  shows "rect_points (QRect_normalized (QRect_and q r)) =
    rect_points (QRect_normalized q) \<inter> rect_points (QRect_normalized r)"
proof (cases "QRect_isNull q \<or> QRect_isNull r")
  case True
  then show ?thesis
    using assms by (auto simp: QRect_and_def normalized_fits isNull_fits rect_points_def QRect0_sel)
next
  case False
  let ?a = "QRect_normalized q" and ?b = "QRect_normalized r"
  show ?thesis
  proof (cases "x1 ?a > x2 ?b \<or> x1 ?b > x2 ?a \<or> y1 ?a > y2 ?b \<or> y1 ?b > y2 ?a")
    case True
    then have "QRect_and q r = QRect0"
      using False assms by (simp add: and_eq_normalized Let_def)
    then show ?thesis
      using True by (auto simp: rect_points_def ordered_normalized QRect0_sel)
  next
    case sep: False
    have n: "QRect_and q r = \<lparr>x1 = max (x1 ?a) (x1 ?b), y1 = max (y1 ?a) (y1 ?b),
              x2 = min (x2 ?a) (x2 ?b), y2 = min (y2 ?a) (y2 ?b)\<rparr>"
      using False assms sep by (simp add: and_eq_normalized Let_def)
    note po = points_and_ordered [OF normalized_order [OF assms(1)] normalized_order [OF assms(2)] sep]
    have "QRect_normalized (QRect_and q r) = QRect_and q r"
      using po(1,2) and_fits [OF assms] unfolding n by (intro ordered_normalized)
    then show ?thesis using po(3) n by simp
  qed
qed

text \<open>For valid rectangles the tests and operators are the set operations themselves.\<close>

lemma valid_and_points:
  assumes "rect_fits q" "rect_fits r" "QRect_isValid q" "QRect_isValid r"
  shows "rect_points (QRect_and q r) = rect_points q \<inter> rect_points r"
  using assms
  by (auto simp: QRect_and_def isValid_not_null rect_fits_axis QRect_isValid_def rect_points_def
      QRect0_sel Let_def)

lemma valid_intersects:
  assumes "rect_fits q" "rect_fits r" "QRect_isValid q" "QRect_isValid r"
  shows "QRect_intersects q r \<longleftrightarrow> rect_points q \<inter> rect_points r \<noteq> {}"
proof -
  have "QRect_intersects q r \<longleftrightarrow> QRect_isValid (QRect_and q r)"
    using assms by (auto simp: QRect_and_def QRect_intersects_def rect_fits_axis
        QRect_isValid_def QRect0_sel Let_def isNull_fits)
  then show ?thesis using assms by (simp add: isValid_iff_points valid_and_points)
qed

lemma rect_points_subset:
  assumes "QRect_isValid r"
  shows "rect_points r \<subseteq> rect_points q \<longleftrightarrow>
    x1 q \<le> x1 r \<and> x2 r \<le> x2 q \<and> y1 q \<le> y1 r \<and> y2 r \<le> y2 q"
proof
  assume "rect_points r \<subseteq> rect_points q"
  moreover have "(x1 r, y1 r) \<in> rect_points r" "(x2 r, y2 r) \<in> rect_points r"
    using assms by (auto simp: QRect_isValid_def rect_points_def)
  ultimately have "(x1 r, y1 r) \<in> rect_points q" "(x2 r, y2 r) \<in> rect_points q"
    by blast+
  then show "x1 q \<le> x1 r \<and> x2 r \<le> x2 q \<and> y1 q \<le> y1 r \<and> y2 r \<le> y2 q"
    by (simp add: rect_points_def)
qed (auto simp: rect_points_def)

lemma valid_contains_rect:
  assumes "rect_fits q" "rect_fits r" "QRect_isValid q" "QRect_isValid r"
  shows "QRect_contains_rect q r False \<longleftrightarrow> rect_points r \<subseteq> rect_points q"
  using assms
  by (auto simp: QRect_contains_rect_def isValid_not_null rect_fits_axis rect_points_subset
      QRect_isValid_def isNull_fits)

lemma valid_or_least:
  assumes "rect_fits q" "rect_fits r" "QRect_isValid q" "QRect_isValid r"
  shows "QRect_isValid (QRect_or q r)"
    and "rect_points (QRect_or q r) \<subseteq> rect_points s \<longleftrightarrow>
      rect_points q \<subseteq> rect_points s \<and> rect_points r \<subseteq> rect_points s"
proof -
  have u: "QRect_or q r =
      \<lparr>x1 = min (x1 q) (x1 r), y1 = min (y1 q) (y1 r), x2 = max (x2 q) (x2 r), y2 = max (y2 q) (y2 r)\<rparr>"
    using assms by (auto simp: QRect_or_def isNull_fits rect_fits_axis QRect_isValid_def)
  show v: "QRect_isValid (QRect_or q r)"
    using assms by (auto simp: u QRect_isValid_def)
  then show "rect_points (QRect_or q r) \<subseteq> rect_points s \<longleftrightarrow>
      rect_points q \<subseteq> rect_points s \<and> rect_points r \<subseteq> rect_points s"
    using assms by (auto simp: rect_points_subset u)
qed

section \<open>Moving and resizing\<close>

text \<open>
  The size is kept by every move, also when the coordinates wrap, because the code computes the
  moved edge from the difference.
\<close>

lemma moved_extent:
  "i32 (i32 (b + (p - a)) - p + 1) = i32 (b - a + 1)"
  "i32 (p - i32 (a + (p - b)) + 1) = i32 (b - a + 1)"
  "i32 (i32 (b + d) - i32 (a + d) + 1) = i32 (b - a + 1)"
  unfolding i32_eq_iff mod_eq_dvd_iff
  by (simp_all add: i32_def mod_eq_dvd_iff [symmetric] mod_simps algebra_simps)

lemma move_size:
  "QRect_size (QRect_moveLeft r a) = QRect_size r" "QRect_size (QRect_moveTop r a) = QRect_size r"
  "QRect_size (QRect_moveRight r a) = QRect_size r" "QRect_size (QRect_moveBottom r a) = QRect_size r"
  "QRect_size (QRect_moveTo r a b) = QRect_size r" "QRect_size (QRect_translate r a b) = QRect_size r"
  by (simp_all add: QRect_size_def QRect_width_def QRect_height_def QRect_moveLeft_def
      QRect_moveTop_def QRect_moveRight_def QRect_moveBottom_def QRect_moveTo_def
      QRect_translate_def moved_extent del: i32_add_wrap i32_diff_wrap)

lemma getRect_setRect:
  "in32 aw \<Longrightarrow> in32 ah \<Longrightarrow> QRect_getRect (QRect_setRect r ax ay aw ah) = (ax, ay, aw, ah)"
proof -
  have "i32 (i32 (c + d - 1) - c + 1) = d" if "in32 d" for c d
    using that i32_add_wrap(1) [of "c + d - 1" "1 - c"] by (simp add: i32_id algebra_simps)
  then show "in32 aw \<Longrightarrow> in32 ah \<Longrightarrow> QRect_getRect (QRect_setRect r ax ay aw ah) = (ax, ay, aw, ah)"
    by (simp add: QRect_getRect_def QRect_setRect_def del: i32_add_wrap i32_diff_wrap)
qed

text \<open>
  Where a coordinate of \<open>center\<close> lands after \<open>moveCenter\<close>: on the given one, unless the given
  one is negative and the extent \<open>w = x2 - x1\<close> is odd; there the truncating division of
  \<open>(x1 + x2) / 2\<close> rounds up and the centre is one to the right.
\<close>

lemma centre_axis:
  assumes "-1073741824 < p" "p < 1073741824" "0 \<le> w" "w < 1073741824"
  defines "a \<equiv> i32 (p - w sdiv 2)"
  shows "i32 (a + i32 (a + w)) sdiv 2 = (if p < 0 \<and> odd w then p + 1 else p)"
proof -
  have "in32 (p - w div 2)"
    unfolding in32_def using assms(1-4) by linarith
  then have a: "a = p - w div 2"
    unfolding a_def using assms(3) by (simp add: sdiv_nonneg i32_id)
  obtain h b where w: "w = 2 * h + b" "b = 0 \<or> b = 1" "w div 2 = h" "odd w \<longleftrightarrow> b = 1"
    by (metis add.right_neutral div_mult_mod_eq even_iff_mod_2_eq_zero mult.commute odd_iff_mod_2_eq_one)
  have "a + (a + w) = 2 * p + b"
    using a w(1,3) by simp
  then have "i32 (a + i32 (a + w)) = i32 (2 * p + b)"
    by (simp only: i32_add_wrap)
  moreover have "in32 (2 * p + b)"
    unfolding in32_def using assms(1,2) w(2) by auto
  ultimately have s: "i32 (a + i32 (a + w)) = 2 * p + b"
    by (simp only: i32_id)
  show ?thesis
  proof (cases "p < 0")
    case True
    then show ?thesis using w(2,4) unfolding s by (auto simp: sdiv_neg)
  next
    case False
    then show ?thesis using w(2,4) unfolding s by (auto simp: sdiv_nonneg)
  qed
qed

lemma moveCenter_center:
  assumes "rect_fits r" "QRect_isValid r" "coord_ok (xp p)" "coord_ok (yp p)"
    and "x2 r - x1 r < 1073741824" "y2 r - y1 r < 1073741824"
  shows "QRect_center (QRect_moveCenter r p) =
    QPoint (if xp p < 0 \<and> odd (x2 r - x1 r) then xp p + 1 else xp p)
           (if yp p < 0 \<and> odd (y2 r - y1 r) then yp p + 1 else yp p)"
proof -
  have d: "i32 (x2 r - x1 r) = x2 r - x1 r" "i32 (y2 r - y1 r) = y2 r - y1 r"
    using assms by (auto simp: rect_fits_def coord_ok_def in32_def intro!: i32_id)
  have x: "-1073741824 < xp p" "xp p < 1073741824" "0 \<le> x2 r - x1 r"
    and y: "-1073741824 < yp p" "yp p < 1073741824" "0 \<le> y2 r - y1 r"
    using assms by (auto simp: coord_ok_def QRect_isValid_def)
  show ?thesis
    using centre_axis [OF x assms(5)] centre_axis [OF y assms(6)]
    by (simp add: QRect_center_def QRect_moveCenter_def d Let_def del: i32_add_wrap)
qed

section \<open>Properties\<close>

text \<open>
  C1: \<open>operator&\<close> (and \<open>intersected\<close>) computes exactly the intersection of the point sets, for
  every pair of rectangles whose coordinates stay below 2^30, valid or not: the points of the
  result, normalized, are the common points of the normalized operands.
\<close>

theorem QRect_intersected_refines:
  assumes "rect_fits q" "rect_fits r"
  shows "rect_points (QRect_normalized (QRect_intersected q r)) =
    rect_points (QRect_normalized q) \<inter> rect_points (QRect_normalized r)"
  using assms by (simp add: QRect_intersected_def points_and)

theorem QRect_intersected_refines_witness:
  "rect_points (QRect_normalized (QRect_intersected (QRect 5 5 (-4) 4) (QRect 0 0 4 8))) =
    rect_points (QRect_normalized (QRect 5 5 (-4) 4)) \<inter> rect_points (QRect_normalized (QRect 0 0 4 8))"
  by (rule QRect_intersected_refines) (simp_all add: rect_fits_def coord_ok_def QRect_def i32_def)

text \<open>
  C2: \<open>operator|\<close> (and \<open>united\<close>) of valid rectangles is their bounding rectangle: it is valid, and
  it lies inside a rectangle s exactly when both operands do.
\<close>

theorem QRect_united_least:
  assumes "rect_fits q" "rect_fits r" "QRect_isValid q" "QRect_isValid r"
  shows "QRect_isValid (QRect_united q r) \<and>
    (rect_points (QRect_united q r) \<subseteq> rect_points s \<longleftrightarrow>
      rect_points q \<subseteq> rect_points s \<and> rect_points r \<subseteq> rect_points s)"
  using valid_or_least [OF assms] by (simp add: QRect_united_def)

theorem QRect_united_least_witness:
  "QRect_isValid (QRect_united (QRect 0 0 2 2) (QRect 10 10 3 3)) \<and>
    (rect_points (QRect_united (QRect 0 0 2 2) (QRect 10 10 3 3)) \<subseteq> rect_points (QRect 0 0 13 13) \<longleftrightarrow>
      rect_points (QRect 0 0 2 2) \<subseteq> rect_points (QRect 0 0 13 13) \<and>
      rect_points (QRect 10 10 3 3) \<subseteq> rect_points (QRect 0 0 13 13))"
  by (rule QRect_united_least)
     (simp_all add: rect_fits_def coord_ok_def QRect_def i32_def QRect_isValid_def)

text \<open>
  For valid rectangles \<open>contains(QRect)\<close> decides inclusion of the point sets, \<open>contains(QPoint)\<close>
  membership and \<open>intersects\<close> whether the sets meet.
\<close>

theorem QRect_tests_decide:
  assumes "rect_fits q" "rect_fits r" "QRect_isValid q" "QRect_isValid r"
  shows "(QRect_contains_rect q r False \<longleftrightarrow> rect_points r \<subseteq> rect_points q) \<and>
    (QRect_contains_point q p False \<longleftrightarrow> (xp p, yp p) \<in> rect_points q) \<and>
    (QRect_intersects q r \<longleftrightarrow> rect_points q \<inter> rect_points r \<noteq> {})"
  using assms by (simp add: valid_contains_rect contains_point_iff valid_normalized valid_intersects)

theorem QRect_tests_decide_witness:
  "(QRect_contains_rect (QRect 0 0 9 9) (QRect 2 2 3 3) False \<longleftrightarrow>
      rect_points (QRect 2 2 3 3) \<subseteq> rect_points (QRect 0 0 9 9)) \<and>
    (QRect_contains_point (QRect 0 0 9 9) (QPoint 4 5) False \<longleftrightarrow>
      (xp (QPoint 4 5), yp (QPoint 4 5)) \<in> rect_points (QRect 0 0 9 9)) \<and>
    (QRect_intersects (QRect 0 0 9 9) (QRect 2 2 3 3) \<longleftrightarrow>
      rect_points (QRect 0 0 9 9) \<inter> rect_points (QRect 2 2 3 3) \<noteq> {})"
  by (rule QRect_tests_decide)
     (simp_all add: rect_fits_def coord_ok_def QRect_def i32_def QRect_isValid_def)

text \<open>
  Where the centre is after \<open>moveCenter\<close>.  The documentation says the centre is left at the
  given position; that holds except on an axis where the position is negative and the rectangle
  has an even number of pixels, where \<open>center\<close> then reports one more.
\<close>

theorem QRect_moveCenter_exact:
  assumes "rect_fits r" "QRect_isValid r" "coord_ok (xp p)" "coord_ok (yp p)"
    and "x2 r - x1 r < 1073741824" "y2 r - y1 r < 1073741824"
  shows "QRect_center (QRect_moveCenter r p) =
    QPoint (if xp p < 0 \<and> odd (x2 r - x1 r) then xp p + 1 else xp p)
           (if yp p < 0 \<and> odd (y2 r - y1 r) then yp p + 1 else yp p)"
  using assms by (rule moveCenter_center)

theorem QRect_moveCenter_exact_witness:
  "QRect_center (QRect_moveCenter (QRect 0 0 2 3) (QPoint (-5) (-5))) = QPoint (-4) (-5)"
  using QRect_moveCenter_exact [of "QRect 0 0 2 3" "QPoint (-5) (-5)"]
  by (simp add: rect_fits_def coord_ok_def QRect_def i32_def QRect_isValid_def)

end
