(* ===== verification/Dates.thy ===== *)
theory Dates
  imports Prelude
begin

text \<open>
  \<open>QDate\<close> (src/src/core/tools/qdatetime.h and qdatetime.cpp): a date is its Julian day number, a
  \<open>uint\<close>; 0 is the null date.  Modelled: the conversions between a day number and year, month, day
  in the Gregorian and the Julian calendar, validity, the calendar queries, the arithmetic and the
  comparisons.  The text conversions use the locale tables and are not modelled here.

  The conversions are \<open>int\<close> and \<open>qulonglong\<close> expressions.  A product that can leave the 32-bit
  range is wrapped by \<open>i32\<close>; the 64-bit expressions of \<open>getDateFromJulianDay\<close> cannot overflow
  for a 32-bit day number, and its subtractions never go below zero there.
\<close>

datatype qdate = QDateJd (jd: uint32)

definition QDate0 :: qdate where
  "QDate0 = QDateJd 0"

definition julianDayFromGregorianDate :: "int32 \<Rightarrow> int32 \<Rightarrow> int32 \<Rightarrow> uint32" where
  "julianDayFromGregorianDate year month day =
    u32 (i32 (1461 * (year + 4800 + (month - 14) sdiv 12)) sdiv 4
         + i32 (367 * (month - 2 - 12 * ((month - 14) sdiv 12))) sdiv 12
         - i32 (3 * (i32 (year + 4900 + (month - 14) sdiv 12) sdiv 100)) sdiv 4
         + day - 32075)"

definition julianDayFromDate :: "int32 \<Rightarrow> int32 \<Rightarrow> int32 \<Rightarrow> uint32" where
  "julianDayFromDate year0 month day =
    (let year = (if year0 < 0 then year0 + 1 else year0) in
     if year > 1582 \<or> (year = 1582 \<and> (month > 10 \<or> (month = 10 \<and> day \<ge> 15))) then
       julianDayFromGregorianDate year month day
     else if year < 1582 \<or> (year = 1582 \<and> (month < 10 \<or> (month = 10 \<and> day \<le> 4))) then
       (let a = (14 - month) sdiv 12 in
        u32 (i32 (153 * (month + 12 * a - 3) + 2) sdiv 5
             + i32 (1461 * (year + 4800 - a)) sdiv 4
             + day - 32083))
     else 0)"

definition getDateFromJulianDay :: "uint32 \<Rightarrow> int32 \<times> int32 \<times> int32" where
  "getDateFromJulianDay julianDay =
    (if julianDay \<ge> 2299161 then
       (let ell = julianDay + 68569;
            n = (4 * ell) div 146097;
            ell = ell - (146097 * n + 3) div 4;
            i = (4000 * (ell + 1)) div 1461001;
            ell = ell - (1461 * i) div 4 + 31;
            j = (80 * ell) div 2447;
            d = ell - (2447 * j) div 80;
            ell = j div 11;
            m = j + 2 - (12 * ell);
            y = 100 * (n - 49) + i + ell
        in (y, m, d))
     else
       (let julianDay = julianDay + 32082;
            dd = (4 * julianDay + 3) div 1461;
            ee = julianDay - (1461 * dd) div 4;
            mm = (5 * ee + 2) div 153;
            d = ee - (153 * mm + 2) div 5 + 1;
            m = mm + 3 - 12 * (mm div 10);
            y = dd - 4800 + (mm div 10)
        in (if y \<le> 0 then y - 1 else y, m, d)))"

definition monthDays :: "int list" where
  "monthDays = [0, 31, 28, 31, 30, 31, 30, 31, 31, 30, 31, 30, 31]"

definition isLeapYear :: "int32 \<Rightarrow> bool" where
  "isLeapYear y =
    (if y < 1582 then (if y < 1 then y + 1 else y) smod 4 = 0
     else (y smod 4 = 0 \<and> y smod 100 \<noteq> 0) \<or> y smod 400 = 0)"

definition QDate_isValid_ymd :: "int32 \<Rightarrow> int32 \<Rightarrow> int32 \<Rightarrow> bool" where
  "QDate_isValid_ymd year month day =
    (if year < -4713
        \<or> (year = -4713 \<and> (month < 1 \<or> (month = 1 \<and> day < 2)))
        \<or> year = 0
     then False
     else if year = 1582 \<and> month = 10 \<and> day > 4 \<and> day < 15 then False
     else (day > 0 \<and> month > 0 \<and> month \<le> 12) \<and>
          (day \<le> monthDays ! nat month \<or> (day = 29 \<and> month = 2 \<and> isLeapYear year)))"

definition QDate_isNull :: "qdate \<Rightarrow> bool" where
  "QDate_isNull d \<longleftrightarrow> jd d = 0"

definition QDate_isValid :: "qdate \<Rightarrow> bool" where
  "QDate_isValid d \<longleftrightarrow> \<not> QDate_isNull d"

definition QDate_setDate :: "int32 \<Rightarrow> int32 \<Rightarrow> int32 \<Rightarrow> qdate \<times> bool" where
  "QDate_setDate year month day =
    (let njd = (if \<not> QDate_isValid_ymd year month day then 0 else julianDayFromDate year month day)
     in (QDateJd njd, njd \<noteq> 0))"

definition QDate :: "int32 \<Rightarrow> int32 \<Rightarrow> int32 \<Rightarrow> qdate" where
  "QDate y m d = fst (QDate_setDate y m d)"

definition QDate_setYMD :: "int32 \<Rightarrow> int32 \<Rightarrow> int32 \<Rightarrow> qdate \<times> bool" where
  "QDate_setYMD y m d = QDate_setDate (if y \<le> 99 then i32 (y + 1900) else y) m d"

definition QDate_getDate :: "qdate \<Rightarrow> int32 \<times> int32 \<times> int32" where
  "QDate_getDate d = getDateFromJulianDay (jd d)"

definition QDate_year :: "qdate \<Rightarrow> int32" where
  "QDate_year d = fst (getDateFromJulianDay (jd d))"

definition QDate_month :: "qdate \<Rightarrow> int32" where
  "QDate_month d = fst (snd (getDateFromJulianDay (jd d)))"

definition QDate_day :: "qdate \<Rightarrow> int32" where
  "QDate_day d = snd (snd (getDateFromJulianDay (jd d)))"

definition QDate_dayOfWeek :: "qdate \<Rightarrow> int32" where
  "QDate_dayOfWeek d = jd d mod 7 + 1"

definition QDate_dayOfYear :: "qdate \<Rightarrow> int32" where
  "QDate_dayOfYear d = i32 (jd d - julianDayFromDate (QDate_year d) 1 1 + 1)"

definition QDate_daysInMonth :: "qdate \<Rightarrow> int32" where
  "QDate_daysInMonth date =
    (let (y, m, d) = getDateFromJulianDay (jd date)
     in if m = 2 \<and> isLeapYear y then 29 else monthDays ! nat m)"

definition QDate_daysInYear :: "qdate \<Rightarrow> int32" where
  "QDate_daysInYear date =
    (let (y, m, d) = getDateFromJulianDay (jd date) in if isLeapYear y then 366 else 365)"

text \<open>The week number and, as \<open>*yearNumber\<close>, the year it belongs to; \<open>None\<close> is "not written".\<close>

definition QDate_weekNumber :: "qdate \<Rightarrow> int32 \<times> int32 option" where
  "QDate_weekNumber date =
    (if \<not> QDate_isValid date then (0, None)
     else
       let year = QDate_year date;
           yday = QDate_dayOfYear date;
           wday = QDate_dayOfWeek date;
           week = (yday - wday + 10) sdiv 7
       in if week = 0 then
            let year = year - 1;
                week = (yday + 365 + (if isLeapYear year then 1 else 0) - wday + 10) sdiv 7
            in (week, Some year)
          else if week = 53 then
            let w = (yday - 365 - (if isLeapYear (year + 1) then 1 else 0) - wday + 10) sdiv 7
            in if w > 0 then (w, Some (year + 1)) else (week, Some year)
          else (week, Some year))"

definition fixedDate :: "int32 \<Rightarrow> int32 \<Rightarrow> int32 \<Rightarrow> qdate" where
  "fixedDate y m d =
    (let result = QDate y m 1
     in fst (QDate_setDate y m (min d (QDate_daysInMonth result))))"

definition QDate_addDays :: "qdate \<Rightarrow> int32 \<Rightarrow> qdate" where
  "QDate_addDays d ndays =
    QDateJd (if ndays \<ge> 0 then (if u32 (jd d + ndays) \<ge> jd d then u32 (jd d + ndays) else 0)
             else (if u32 (jd d + ndays) < jd d then u32 (jd d + ndays) else 0))"

text \<open>
  The loop of \<open>addMonths\<close>.  Years stay within \<open>2^31 / 12\<close> steps of the year of a 32-bit day number,
  so nothing overflows.
\<close>

function addMonths_loop :: "int \<Rightarrow> int \<Rightarrow> int \<Rightarrow> int \<times> int" where
  "addMonths_loop y m nmonths =
    (if nmonths = 0 then (y, m)
     else if nmonths < 0 \<and> nmonths + 12 \<le> 0 then addMonths_loop (y - 1) m (nmonths + 12)
     else if nmonths < 0 then
       (let m = m + nmonths
        in if m \<le> 0 then addMonths_loop (y - 1) (m + 12) 0 else addMonths_loop y m 0)
     else if nmonths - 12 \<ge> 0 then addMonths_loop (y + 1) m (nmonths - 12)
     else if m = 12 then addMonths_loop (y + 1) 0 nmonths
     else
       (let m = m + nmonths
        in if m > 12 then addMonths_loop (y + 1) (m - 12) 0 else addMonths_loop y m 0))"
  by pat_completeness auto
termination
  by (relation "measures [\<lambda>(y, m, n). nat \<bar>n\<bar>, \<lambda>(y, m, n). if m = 12 then 1 else 0]")
     (auto simp: Let_def)

definition QDate_addMonths :: "qdate \<Rightarrow> int32 \<Rightarrow> qdate" where
  "QDate_addMonths date nmonths =
    (if \<not> QDate_isValid date then QDate0
     else if nmonths = 0 then date
     else
       let (old_y, m0, d) = getDateFromJulianDay (jd date);
           increasing = nmonths > 0;
           (y, m) = addMonths_loop old_y m0 nmonths;
           y = (if (old_y > 0 \<and> y \<le> 0) \<or> (old_y < 0 \<and> y \<ge> 0)
                then y + (if increasing then 1 else -1) else y);
           d = (if y = 1582 \<and> m = 10 \<and> d > 4 \<and> d < 15 then (if increasing then 15 else 4) else d)
       in fixedDate y m d)"

definition QDate_addYears :: "qdate \<Rightarrow> int32 \<Rightarrow> qdate" where
  "QDate_addYears date nyears =
    (if \<not> QDate_isValid date then QDate0
     else
       let (old_y, m, d) = getDateFromJulianDay (jd date);
           y = i32 (old_y + nyears);
           y = (if (old_y > 0 \<and> y \<le> 0) \<or> (old_y < 0 \<and> y \<ge> 0)
                then y + (if nyears > 0 then 1 else -1) else y)
       in fixedDate y m d)"

definition QDate_daysTo :: "qdate \<Rightarrow> qdate \<Rightarrow> int32" where
  "QDate_daysTo self d = i32 (jd d - jd self)"

definition QDate_eq :: "qdate \<Rightarrow> qdate \<Rightarrow> bool" where
  "QDate_eq d other \<longleftrightarrow> jd d = jd other"

definition QDate_less :: "qdate \<Rightarrow> qdate \<Rightarrow> bool" where
  "QDate_less d other \<longleftrightarrow> jd d < jd other"

definition QDate_less_eq :: "qdate \<Rightarrow> qdate \<Rightarrow> bool" where
  "QDate_less_eq d other \<longleftrightarrow> jd d \<le> jd other"

definition gregorianToJulian :: "int32 \<Rightarrow> int32 \<Rightarrow> int32 \<Rightarrow> uint32" where
  "gregorianToJulian y m d = julianDayFromDate y m d"

definition julianToGregorian :: "uint32 \<Rightarrow> int32 \<times> int32 \<times> int32" where
  "julianToGregorian n = getDateFromJulianDay n"

definition fromJulianDay :: "int32 \<Rightarrow> qdate" where
  "fromJulianDay n = QDateJd (u32 n)"

definition toJulianDay :: "qdate \<Rightarrow> int32" where
  "toJulianDay d = i32 (jd d)"

declare addMonths_loop.simps [simp del]

section \<open>Order\<close>

instantiation qdate :: linorder
begin
definition less_eq_qdate :: "qdate \<Rightarrow> qdate \<Rightarrow> bool" where
  "less_eq_qdate = QDate_less_eq"
definition less_qdate :: "qdate \<Rightarrow> qdate \<Rightarrow> bool" where
  "less_qdate = QDate_less"
instance
  by standard (auto simp: less_eq_qdate_def less_qdate_def QDate_less_eq_def QDate_less_def
      intro: qdate.expand)
end

section \<open>The calendar conversions\<close>

text \<open>
  Both algorithms count years from March: \<open>Y\<close> is the March-based year, \<open>M\<close> the month in it and \<open>t\<close>
  the day of that year, from 0.  The lemmas of this section recover \<open>Y\<close>, \<open>M\<close> and the day from
  the sum the code forms, one division of the code at a time.
\<close>

lemma month_cases:
  assumes "1 \<le> (m::int)" "m \<le> 12"
  shows "m = 1 \<or> m = 2 \<or> m = 3 \<or> m = 4 \<or> m = 5 \<or> m = 6 \<or> m = 7 \<or> m = 8 \<or> m = 9 \<or> m = 10 \<or> m = 11 \<or> m = 12"
  using assms by presburger

lemma greg_century:
  fixes C S :: int
  assumes "0 \<le> S" "S \<le> 36523 \<or> (S = 36524 \<and> C mod 4 = 0)"
  shows "(4 * (36525 * C - (3 * C) div 4 + S)) div 146097 = C"
    and "36525 * C - (3 * C) div 4 + S - (146097 * C + 3) div 4 = S"
proof -
  obtain e f where C: "C = 4 * e + f" "C mod 4 = f" "f = 0 \<or> f = 1 \<or> f = 2 \<or> f = 3"
    by (rule int_div4_cases)
  have q: "(3 * C) div 4 = 3 * e + (3 * f) div 4"
    "(146097 * C + 3) div 4 = 146097 * e + (146097 * f + 3) div 4"
    using div_mult_self1 [of 4 "3 * f" "3 * e"] div_mult_self1 [of 4 "146097 * f + 3" "146097 * e"]
    by (simp_all add: C(1) algebra_simps)
  show "36525 * C - (3 * C) div 4 + S - (146097 * C + 3) div 4 = S"
    using C(3) unfolding q unfolding C(1) by auto
  show "(4 * (36525 * C - (3 * C) div 4 + S)) div 146097 = C"
    using C(3) assms C(2) unfolding q unfolding C(1) by (intro int_div_eqI) auto
qed

lemma greg_year:
  fixes r t :: int
  assumes "0 \<le> r" "r < 100" "0 \<le> t" "t \<le> 364 \<or> (t = 365 \<and> r mod 4 = 3)"
  shows "(4000 * ((1461 * r) div 4 + t + 1)) div 1461001 = r"
proof -
  obtain a b where r: "r = 4 * a + b" "r mod 4 = b" "b = 0 \<or> b = 1 \<or> b = 2 \<or> b = 3"
    by (rule int_div4_cases)
  have a: "0 \<le> a" "a \<le> 24" using r assms by auto
  have "(1461 * r) div 4 = 1461 * a + (1461 * b) div 4"
    using div_mult_self1 [of 4 "1461 * b" "1461 * a"] by (simp add: r(1) algebra_simps)
  then show ?thesis using r a assms by (intro int_div_eqI) auto
qed

lemma greg_month:
  assumes "1 \<le> (M::int)" "M \<le> 12" "1 \<le> d"
    and "d \<le> (if M = 12 then 29 else if M \<in> {2, 4, 7, 9} then 30 else 31)"
  shows "(80 * ((367 * M) div 12 + d)) div 2447 = M" "(2447 * M) div 80 = (367 * M) div 12"
proof -
  show "(2447 * M) div 80 = (367 * M) div 12"
    using month_cases [OF assms(1,2)] by auto
  show "(80 * ((367 * M) div 12 + d)) div 2447 = M"
    using month_cases [OF assms(1,2)] assms(3,4) by auto
qed

text \<open>Days in the month \<open>M\<close> of the March-based year; February has its leap length.\<close>

definition march_days :: "int \<Rightarrow> int" where
  "march_days M = (if M = 12 then 29 else if M \<in> {2, 4, 7, 9} then 30 else 31)"

lemma march_day_bounds:
  assumes "1 \<le> (M::int)" "M \<le> 12" "1 \<le> d" "d \<le> march_days M"
  shows "0 \<le> (367 * M) div 12 + d - 31" "(367 * M) div 12 + d - 31 \<le> 365"
    "(367 * M) div 12 + d - 31 = 365 \<Longrightarrow> M = 12 \<and> d = 29"
  using month_cases [OF assms(1,2)] assms(3,4) by (auto simp: march_days_def)

lemma greg_decode:
  fixes C r M d :: int
  assumes "0 \<le> r" "r < 100" "1 \<le> M" "M \<le> 12" "1 \<le> d" "d \<le> march_days M"
    and leap: "M = 12 \<and> d = 29 \<longrightarrow> r mod 4 = 3 \<and> (r = 99 \<longrightarrow> C mod 4 = 0)"
    and n: "n = 36525 * C - (3 * C) div 4 + (1461 * r) div 4 + (367 * M) div 12 + d - 68600"
      "n \<ge> 2299161"
  shows "getDateFromJulianDay n = (100 * (C - 49) + r + M div 11, M + 2 - 12 * (M div 11), d)"
proof -
  define t where "t = (367 * M) div 12 + d - 31"
  define S where "S = (1461 * r) div 4 + t"
  have t: "0 \<le> t" "t \<le> 364 \<or> (t = 365 \<and> r mod 4 = 3)" "t = 365 \<longrightarrow> (r = 99 \<longrightarrow> C mod 4 = 0)"
    using march_day_bounds [OF assms(3-6)] leap unfolding t_def by linarith+
  have r4: "(1461 * r) div 4 \<le> 36159" "r < 99 \<Longrightarrow> (1461 * r) div 4 \<le> 35794" "0 \<le> (1461 * r) div 4"
    using assms(1,2) by linarith+
  have S: "0 \<le> S" "S \<le> 36523 \<or> (S = 36524 \<and> C mod 4 = 0)"
    using t r4 assms(2) unfolding S_def by linarith+
  have ell: "n + 68569 = 36525 * C - (3 * C) div 4 + S"
    unfolding n(1) S_def t_def by simp
  have i: "(4000 * (S + 1)) div 1461001 = r"
    using greg_year [OF assms(1,2) t(1,2)] unfolding S_def by (simp add: add.assoc)
  have m: "S - (1461 * r) div 4 + 31 = (367 * M) div 12 + d"
    unfolding S_def t_def by simp
  have j: "(80 * ((367 * M) div 12 + d)) div 2447 = M" "(2447 * M) div 80 = (367 * M) div 12"
    using greg_month [of M d] assms(3-6) by (simp_all add: march_days_def)
  show ?thesis
    by (simp only: getDateFromJulianDay_def Let_def n(2) if_True ell greg_century [OF S] i m j
        add_diff_cancel_left')
qed

text \<open>The same for the Julian calendar, with the month \<open>M\<close> from 0 and years of 365.25 days.\<close>

lemma julian_day_bounds:
  assumes "0 \<le> (M::int)" "M \<le> 11" "1 \<le> d" "d \<le> march_days (M + 1)"
  shows "0 \<le> (153 * M + 2) div 5 + d - 1" "(153 * M + 2) div 5 + d - 1 \<le> 365"
    "(153 * M + 2) div 5 + d - 1 = 365 \<Longrightarrow> M = 11 \<and> d = 29"
    "(5 * ((153 * M + 2) div 5 + d - 1) + 2) div 153 = M"
proof -
  have M': "M = 0 \<or> M = 1 \<or> M = 2 \<or> M = 3 \<or> M = 4 \<or> M = 5 \<or> M = 6 \<or> M = 7 \<or> M = 8
      \<or> M = 9 \<or> M = 10 \<or> M = 11"
    using assms(1,2) by presburger
  show "0 \<le> (153 * M + 2) div 5 + d - 1" "(153 * M + 2) div 5 + d - 1 \<le> 365"
    "(153 * M + 2) div 5 + d - 1 = 365 \<Longrightarrow> M = 11 \<and> d = 29"
    using M' assms(3,4) by (auto simp: march_days_def)
  show "(5 * ((153 * M + 2) div 5 + d - 1) + 2) div 153 = M"
    using M' assms(3,4) by (auto simp: march_days_def intro!: int_div_eqI)
qed

lemma julian_year:
  fixes Y t :: int
  assumes "0 \<le> t" "t \<le> 364 \<or> (t = 365 \<and> Y mod 4 = 3)"
  shows "(4 * ((1461 * Y) div 4 + t) + 3) div 1461 = Y"
proof -
  obtain a b where r: "Y = 4 * a + b" "Y mod 4 = b" "b = 0 \<or> b = 1 \<or> b = 2 \<or> b = 3"
    by (rule int_div4_cases)
  have "(1461 * Y) div 4 = 1461 * a + (1461 * b) div 4"
    using div_mult_self1 [of 4 "1461 * b" "1461 * a"] by (simp add: r(1) algebra_simps)
  then show ?thesis using r assms by (intro int_div_eqI) auto
qed

lemma julian_decode:
  fixes Y M d :: int
  assumes "0 \<le> M" "M \<le> 11" "1 \<le> d" "d \<le> march_days (M + 1)"
    and leap: "M = 11 \<and> d = 29 \<longrightarrow> Y mod 4 = 3"
    and n: "n = (1461 * Y) div 4 + (153 * M + 2) div 5 + d - 32083" "n < 2299161"
  shows "getDateFromJulianDay n =
    (let y = Y - 4800 + M div 10 in (if y \<le> 0 then y - 1 else y, M + 3 - 12 * (M div 10), d))"
proof -
  define t where "t = (153 * M + 2) div 5 + d - 1"
  have t: "0 \<le> t" "t \<le> 364 \<or> (t = 365 \<and> Y mod 4 = 3)"
    using julian_day_bounds [OF assms(1-4)] leap unfolding t_def by linarith+
  have N: "n + 32082 = (1461 * Y) div 4 + t"
    unfolding n(1) t_def by simp
  have mm: "(5 * t + 2) div 153 = M" "t - (153 * M + 2) div 5 + 1 = d"
    using julian_day_bounds(4) [OF assms(1-4)] unfolding t_def by simp_all
  have c: "(n \<ge> 2299161) = False" using n(2) by simp
  show ?thesis
    by (simp only: getDateFromJulianDay_def Let_def c if_False N julian_year [OF t]
        add_diff_cancel_left' mm)
qed

text \<open>
  The encoders.  \<open>march_year\<close> and \<open>march_month\<close> shift a year and month to the March-based ones.
\<close>

lemma march_shift:
  assumes "1 \<le> (m::int)" "m \<le> 12"
  shows "(month - 14) sdiv 12 = q \<Longrightarrow> month = m \<Longrightarrow> q = (if m \<le> 2 then -1 else 0)"
    "(14 - m) sdiv 12 = (if m \<le> 2 then 1 else 0)"
  using month_cases [OF assms] by (auto simp: cdiv_simps)

lemma greg_encode:
  assumes "1582 \<le> y" "y \<le> 1400000" "1 \<le> m" "m \<le> 12" "1 \<le> d" "d \<le> 31"
  defines "q \<equiv> (if m \<le> 2 then -1 else 0)"
  shows "julianDayFromGregorianDate y m d =
    (1461 * (y + 4800 + q)) div 4 + (367 * (m - 2 - 12 * q)) div 12
     - (3 * ((y + 4900 + q) div 100)) div 4 + d - 32075"
proof -
  have s: "(m - 14) sdiv 12 = q"
    using march_shift(1) [OF assms(3,4) _ refl] by (simp add: q_def)
  have q: "q = -1 \<or> q = 0" "1 \<le> m - 2 - 12 * q" "m - 2 - 12 * q \<le> 12"
    using assms by (auto simp: q_def)
  have w: "i32 (1461 * (y + 4800 + q)) = 1461 * (y + 4800 + q)"
    "i32 (367 * (m - 2 - 12 * q)) = 367 * (m - 2 - 12 * q)"
    "i32 (y + 4900 + q) = y + 4900 + q"
    using q assms(1-4) by (auto intro!: i32_id simp: in32_def)
  have d100: "(y + 4900 + q) sdiv 100 = (y + 4900 + q) div 100" "0 \<le> (y + 4900 + q) div 100"
      "(y + 4900 + q) div 100 \<le> 14049"
    using q assms(1,2) by (auto simp: sdiv_nonneg)
  have w3: "i32 (3 * ((y + 4900 + q) div 100)) = 3 * ((y + 4900 + q) div 100)"
    using d100 by (intro i32_id) (simp add: in32_def)
  let ?a = "(1461 * (y + 4800 + q)) div 4" and ?b = "(367 * (m - 2 - 12 * q)) div 12"
    and ?c = "(3 * ((y + 4900 + q) div 100)) div 4"
  have "(1461 * (y + 4800 + q)) sdiv 4 = ?a" "(367 * (m - 2 - 12 * q)) sdiv 12 = ?b"
      "(3 * ((y + 4900 + q) div 100)) sdiv 4 = ?c"
    using q assms(1,2) d100 by (auto simp: sdiv_nonneg)
  then have "julianDayFromGregorianDate y m d = u32 (?a + ?b - ?c + d - 32075)"
    by (simp only: julianDayFromGregorianDate_def s w d100(1) w3)
  also have "\<dots> = ?a + ?b - ?c + d - 32075"
  proof (rule u32_id)
    have "2330000 \<le> ?a" "0 \<le> ?b" "?b \<le> 367" "?c \<le> 10537" "0 \<le> ?c" "?a \<le> 513200000"
      using q assms(1,2) d100 by auto
    moreover have "?c \<le> (y + 4900 + q) div 100" using d100 by linarith
    moreover have "4 * ?a \<ge> 1461 * (y + 4800 + q) - 3" by linarith
    ultimately show "0 \<le> ?a + ?b - ?c + d - 32075" "?a + ?b - ?c + d - 32075 < 4294967296"
      using assms(5,6) by linarith+
  qed
  finally show ?thesis .
qed

lemma julian_encode:
  assumes "-4713 \<le> y" "y \<le> 1582" "1 \<le> m" "m \<le> 12" "1 \<le> d" "d \<le> 31" "y \<noteq> 0"
    and before: "y < 1582 \<or> m < 10 \<or> (m = 10 \<and> d \<le> 4)"
  defines "a \<equiv> (if m \<le> 2 then 1 else 0)" and "Y \<equiv> (if y < 0 then y + 1 else y)"
  assumes pos: "(y, m, d) \<noteq> (-4713, 1, 1)"
  defines "n \<equiv> (1461 * (Y + 4800 - a)) div 4 + (153 * (m + 12 * a - 3) + 2) div 5 + d - 32083"
  shows "julianDayFromDate y m d = n" and "1 \<le> n" "n < 2299161"
proof -
  have s: "(14 - m) sdiv 12 = a"
    using march_shift(2) [OF assms(3,4)] by (simp add: a_def)
  have a: "a = 1 \<or> a = 0" "0 \<le> m + 12 * a - 3" "m + 12 * a - 3 \<le> 11"
    using assms(3,4) by (auto simp: a_def)
  have Y: "-4712 \<le> Y" "Y \<le> 1582" "Y < 1582 \<or> Y = y"
    using assms(1,2,7) by (auto simp: Y_def)
  have w: "i32 (153 * (m + 12 * a - 3) + 2) = 153 * (m + 12 * a - 3) + 2"
    "i32 (1461 * (Y + 4800 - a)) = 1461 * (Y + 4800 - a)"
    using a Y assms(3,4) by (auto intro!: i32_id simp: in32_def)
  let ?b = "(1461 * (Y + 4800 - a)) div 4" and ?c = "(153 * (m + 12 * a - 3) + 2) div 5"
  have dv: "(1461 * (Y + 4800 - a)) sdiv 4 = ?b" "(153 * (m + 12 * a - 3) + 2) sdiv 5 = ?c"
    using a Y by (auto simp: sdiv_nonneg)
  have lo: "1 \<le> n"
  proof (cases "Y = -4712 \<and> m = 1")
    case True
    then have "y = -4713" using assms(7) by (auto simp: Y_def split: if_splits)
    then have "2 \<le> d" using True pos assms(5) by auto
    then show ?thesis using True by (simp add: a_def n_def)
  next
    case False
    have "0 \<le> 153 * (m + 12 * a - 3) + 2" using a(2) by simp
    then have c0: "0 \<le> ?c" by simp
    show ?thesis
    proof (cases "Y = -4712")
      case True
      then show ?thesis using False month_cases [OF assms(3,4)] assms(5) by (auto simp: a_def n_def)
    next
      case ne: False
      then have "-4711 \<le> Y" using Y(1) by simp
      then have "(1461 * (89 - a)) div 4 \<le> ?b" by (intro zdiv_mono1) auto
      then show ?thesis using c0 assms(5) month_cases [OF assms(3,4)] by (auto simp: a_def n_def)
    qed
  qed
  have hi: "n < 2299161"
  proof (cases "Y = 1582")
    case True
    then have "y = 1582" using Y by auto
    then show ?thesis using True before month_cases [OF assms(3,4)] assms(6) by (auto simp: a_def n_def)
  next
    case False
    then have "Y \<le> 1581" using Y by simp
    then have "?b \<le> (1461 * (6381 - a)) div 4" by (intro zdiv_mono1) auto
    then show ?thesis using month_cases [OF assms(3,4)] assms(6) by (auto simp: a_def n_def)
  qed
  have cond: "\<not> (Y > 1582 \<or> (Y = 1582 \<and> (m > 10 \<or> (m = 10 \<and> d \<ge> 15))))"
    "Y < 1582 \<or> (Y = 1582 \<and> (m < 10 \<or> (m = 10 \<and> d \<le> 4)))"
    using before Y by auto
  have "julianDayFromDate y m d = u32 (?c + ?b + d - 32083)"
    unfolding julianDayFromDate_def Let_def Y_def [symmetric]
    by (simp only: if_not_P [OF cond(1)] if_P [OF cond(2)] s w dv)
  also have "\<dots> = n"
    using lo hi by (simp add: u32_id n_def algebra_simps)
  finally show "julianDayFromDate y m d = n" .
  show "1 \<le> n" "n < 2299161" by (rule lo hi)+
qed

text \<open>What a valid date satisfies, in the terms of the two decoders.\<close>

lemma valid_ymd_bounds:
  assumes "QDate_isValid_ymd y m d"
  shows "-4713 \<le> y" "y \<noteq> 0" "1 \<le> m" "m \<le> 12" "1 \<le> d" "d \<le> 31" "(y, m, d) \<noteq> (-4713, 1, 1)"
    "m \<le> 2 \<Longrightarrow> d \<le> march_days (m + 10)" "m > 2 \<Longrightarrow> d \<le> march_days (m - 2)"
    "m = 2 \<Longrightarrow> d = 29 \<Longrightarrow> isLeapYear y"
    "\<not> (y = 1582 \<and> m = 10 \<and> d > 4 \<and> d < 15)"
proof -
  show b: "-4713 \<le> y" "y \<noteq> 0" "1 \<le> m" "m \<le> 12" "1 \<le> d" "(y, m, d) \<noteq> (-4713, 1, 1)"
    "\<not> (y = 1582 \<and> m = 10 \<and> d > 4 \<and> d < 15)"
    using assms by (auto simp: QDate_isValid_ymd_def split: if_splits)
  have d: "d \<le> monthDays ! nat m \<or> (d = 29 \<and> m = 2 \<and> isLeapYear y)"
    using assms by (auto simp: QDate_isValid_ymd_def split: if_splits)
  show "d \<le> 31" "m \<le> 2 \<Longrightarrow> d \<le> march_days (m + 10)" "m > 2 \<Longrightarrow> d \<le> march_days (m - 2)"
    "m = 2 \<Longrightarrow> d = 29 \<Longrightarrow> isLeapYear y"
    using d month_cases [OF b(3,4)] by (auto simp: monthDays_def march_days_def)
qed

lemma leap_greg:
  assumes "isLeapYear y" "1582 \<le> y"
  shows "(y + 4799) mod 100 mod 4 = 3"
    and "(y + 4799) mod 100 = 99 \<Longrightarrow> ((y + 4799) div 100 + 1) mod 4 = 0"
proof -
  have y: "y mod 4 = 0 \<or> y mod 400 = 0" "y mod 100 = 0 \<longrightarrow> y mod 400 = 0"
    using assms by (auto simp: isLeapYear_def smod_nonneg)
  have "y mod 400 mod 4 = y mod 4" by (rule mod_mod_cancel) simp
  then have "y mod 4 = 0" using y(1) by auto
  then obtain k where "y = 4 * k" by (auto simp: mod_eq_0_iff_dvd)
  then have "(y + 4799) mod 4 = 3"
    using mod_mult_self4 [of 4 "k + 1199" 3] by (simp add: algebra_simps)
  moreover have "(y + 4799) mod 100 mod 4 = (y + 4799) mod 4" by (rule mod_mod_cancel) simp
  ultimately show "(y + 4799) mod 100 mod 4 = 3" by simp
  show "((y + 4799) div 100 + 1) mod 4 = 0" if e: "(y + 4799) mod 100 = 99"
  proof -
    obtain q where "y + 4799 = 100 * q + 99" using e by (metis mult_div_mod_eq)
    then have "y = 100 * (q - 47)" by simp
    then have "y mod 100 = 0" by (metis mod_mult_self1_is_0)
    then have "y mod 400 = 0" using y(2) by simp
    then obtain k where "y = 400 * k" by (auto simp: mod_eq_0_iff_dvd)
    then have "(y + 4799) div 100 = 4 * k + 47" by (intro int_div_eqI) auto
    then have "(y + 4799) div 100 + 1 = 4 * (k + 12)" by simp
    then show ?thesis by (metis mod_mult_self1_is_0)
  qed
qed

lemma leap_julian:
  assumes "isLeapYear y" "y < 1582"
  shows "((if y < 1 then y + 1 else y) + 4799) mod 4 = 3"
proof -
  define x where "x = (if y < 1 then y + 1 else y)"
  have "x smod 4 = 0" using assms by (simp add: isLeapYear_def x_def)
  then have "4 dvd x"
    by (cases "0 \<le> x") (auto simp: smod_nonneg smod_neg mod_eq_0_iff_dvd)
  then obtain k where "x = 4 * k" by auto
  then show ?thesis
    using mod_mult_self4 [of 4 "k + 1199" 3] by (simp add: algebra_simps flip: x_def)
qed

section \<open>Round trips\<close>

text \<open>The day number of a valid Gregorian date, and what it decodes to.\<close>

lemma greg_year_low:
  fixes b c :: int
  assumes "1461 * Y - 3 \<le> 4 * b" "4 * c \<le> 3 * C" "100 * (C - 1) \<le> Y"
  shows "146097 * Y - 600 \<le> 400 * (b - c)"
  using assms by (simp add: algebra_simps)

lemma greg_late:
  fixes b c e :: int
  assumes "1461 * Y - 3 \<le> 4 * b" "4 * c \<le> 3 * C" "0 \<le> e" "6383 \<le> Y" "100 * (C - 1) \<le> Y"
  shows "2331235 \<le> b - c + e"
  using greg_year_low [OF assms(1,2,5)] assms(3,4) by simp

lemma greg_roundtrip:
  assumes v: "QDate_isValid_ymd y m d" "y \<le> 1400000"
    and g: "y > 1582 \<or> (y = 1582 \<and> (m > 10 \<or> (m = 10 \<and> d \<ge> 15)))"
  shows "getDateFromJulianDay (julianDayFromDate y m d) = (y, m, d)"
    "2299161 \<le> julianDayFromDate y m d"
    "365 * y \<le> julianDayFromDate y m d" "julianDayFromDate y m d \<le> 366 * y + 1757400"
proof -
  note b = valid_ymd_bounds [OF v(1)]
  define q where "q = (if m \<le> 2 then -1 else (0::int))"
  define M where "M = m - 2 - 12 * q"
  define Y where "Y = y + 4800 + q"
  define r where "r = Y mod 100"
  define C where "C = Y div 100 + 1"
  have y: "1582 \<le> y" "1582 < y \<or> 10 \<le> m" using g by auto
  have M: "1 \<le> M" "M \<le> 12" "d \<le> march_days M"
    using b(3,4,8,9) by (auto simp: M_def q_def add.commute)
  have r: "0 \<le> r" "r < 100" "Y = 100 * (C - 1) + r"
    by (simp_all add: r_def C_def)
  have C: "(y + 4900 + q) div 100 = C"
    using div_mult_self1 [of 100 Y 1] by (simp add: C_def Y_def algebra_simps)
  have yb: "(1461 * Y) div 4 = 36525 * (C - 1) + (1461 * r) div 4"
    using div_mult_self1 [of 4 "1461 * r" "36525 * (C - 1)"] by (simp add: r(3) algebra_simps)
  have leap: "M = 12 \<and> d = 29 \<longrightarrow> r mod 4 = 3 \<and> (r = 99 \<longrightarrow> C mod 4 = 0)"
  proof (intro impI)
    assume "M = 12 \<and> d = 29"
    then have "m = 2" "q = -1" "d = 29" using b(3,4) by (auto simp: M_def q_def split: if_splits)
    then have "Y = y + 4799" "isLeapYear y" using b(10) by (auto simp: Y_def)
    then show "r mod 4 = 3 \<and> (r = 99 \<longrightarrow> C mod 4 = 0)"
      using leap_greg [of y] y unfolding r_def C_def by simp
  qed
  have e: "julianDayFromDate y m d =
      36525 * C - (3 * C) div 4 + (1461 * r) div 4 + (367 * M) div 12 + d - 68600" (is "_ = ?n")
  proof -
    have "julianDayFromDate y m d = julianDayFromGregorianDate y m d"
      using g by (auto simp: julianDayFromDate_def)
    also have "\<dots> = (1461 * Y) div 4 + (367 * M) div 12 - (3 * C) div 4 + d - 32075"
      using greg_encode [OF y(1) v(2) b(3-6)] C unfolding q_def Y_def M_def by simp
    finally show ?thesis unfolding yb by simp
  qed
  have Y: "Y \<ge> 6383 \<or> (Y = 6382 \<and> M \<ge> 8 \<and> (M = 8 \<longrightarrow> d \<ge> 15))"
    using g b(3,4) by (auto simp: Y_def M_def q_def)
  have n: "2299161 \<le> ?n"
  proof (cases "Y = 6382")
    case True
    then show ?thesis using Y month_cases [OF M(1,2)] b(5) by (auto simp: r_def C_def)
  next
    case False
    have "1461 * Y - 3 \<le> 4 * ((1461 * Y) div 4)" "4 * ((3 * C) div 4) \<le> 3 * C" "0 \<le> (367 * M) div 12"
      using M(1) by linarith+
    moreover have "6383 \<le> Y" "100 * (C - 1) \<le> Y" using False Y r by auto
    ultimately have "2331235 \<le> (1461 * Y) div 4 - (3 * C) div 4 + (367 * M) div 12"
      by (rule greg_late)
    then show ?thesis using b(5) yb by simp
  qed
  show "2299161 \<le> julianDayFromDate y m d" using n e by simp
  have "146097 * Y - 600 \<le> 400 * ((1461 * Y) div 4 - (3 * C) div 4)"
    using r by (intro greg_year_low [where C = C]) linarith+
  moreover have "0 \<le> (367 * M) div 12" using M(1) by simp
  ultimately show "365 * y \<le> julianDayFromDate y m d"
    using e yb b(5) y by (simp add: Y_def q_def split: if_splits)
  show "julianDayFromDate y m d \<le> 366 * y + 1757400"
  proof -
    have "4 * ((1461 * Y) div 4) \<le> 1461 * Y" "0 \<le> (3 * C) div 4" "(367 * M) div 12 \<le> 367"
      using month_cases [OF M(1,2)] r Y by (auto simp: pos_imp_zdiv_nonneg_iff)
    then show ?thesis using e b(6) y yb by (auto simp: Y_def q_def split: if_splits)
  qed
  have "100 * (C - 49) + r + M div 11 = y" "M + 2 - 12 * (M div 11) = m"
    using b(3,4) r(3) by (auto simp: M_def q_def Y_def)
  then show "getDateFromJulianDay (julianDayFromDate y m d) = (y, m, d)"
    using greg_decode [OF r(1,2) M(1,2) b(5) M(3) leap _ ] n e by simp
qed

lemma julian_roundtrip:
  assumes v: "QDate_isValid_ymd y m d"
    and j: "\<not> (y > 1582 \<or> (y = 1582 \<and> (m > 10 \<or> (m = 10 \<and> d \<ge> 15))))"
  shows "getDateFromJulianDay (julianDayFromDate y m d) = (y, m, d)"
    "1 \<le> julianDayFromDate y m d" "julianDayFromDate y m d < 2299161"
proof -
  note b = valid_ymd_bounds [OF v]
  define a where "a = (if m \<le> 2 then 1 else (0::int))"
  define Z where "Z = (if y < 0 then y + 1 else y)"
  define M where "M = m + 12 * a - 3"
  define Y where "Y = Z + 4800 - a"
  have M: "0 \<le> M" "M \<le> 11" "d \<le> march_days (M + 1)"
    using b(3,4,8,9) by (auto simp: M_def a_def add.commute)
  have before: "y \<le> 1582" "y < 1582 \<or> m < 10 \<or> (m = 10 \<and> d \<le> 4)"
    using j b(11) by auto
  have leap: "M = 11 \<and> d = 29 \<longrightarrow> Y mod 4 = 3"
  proof (intro impI)
    assume "M = 11 \<and> d = 29"
    then have m: "m = 2" "isLeapYear y" using b(3,4,10) by (auto simp: M_def a_def split: if_splits)
    then have "y < 1582" using before by (auto simp: isLeapYear_def cdiv_simps split: if_splits)
    moreover have "Y = (if y < 1 then y + 1 else y) + 4799" using m b(2) by (auto simp: Y_def Z_def a_def)
    ultimately show "Y mod 4 = 3" using leap_julian [OF m(2)] by simp
  qed
  have e: "julianDayFromDate y m d = (1461 * Y) div 4 + (153 * M + 2) div 5 + d - 32083"
    "1 \<le> (1461 * Y) div 4 + (153 * M + 2) div 5 + d - 32083"
    "(1461 * Y) div 4 + (153 * M + 2) div 5 + d - 32083 < 2299161"
    using julian_encode [OF b(1) before(1) b(3-6) b(2) before(2) b(7)]
    unfolding a_def [symmetric] Z_def [symmetric] unfolding M_def [symmetric] Y_def [symmetric] .
  show "1 \<le> julianDayFromDate y m d" "julianDayFromDate y m d < 2299161"
    using e(2,3) unfolding e(1) by simp_all
  have "getDateFromJulianDay (julianDayFromDate y m d) =
      (let y = Y - 4800 + M div 10 in (if y \<le> 0 then y - 1 else y, M + 3 - 12 * (M div 10), d))"
    by (rule julian_decode [OF M(1,2) b(5) M(3) leap refl e(3), folded e(1)])
  also have "\<dots> = (y, m, d)"
    using b(2,3,4) by (auto simp: Y_def Z_def M_def a_def Let_def)
  finally show "getDateFromJulianDay (julianDayFromDate y m d) = (y, m, d)" .
qed

end
