(* ===== verification/Calendar.thy ===== *)
theory Calendar
  imports Dates
begin

text \<open>
  What the calendar functions of \<open>QDate\<close> promise: the specification of the day after a date, the
  bijection between day numbers and valid dates, and the arithmetic of \<open>addDays\<close>, \<open>addMonths\<close>,
  \<open>addYears\<close> and the calendar queries.
\<close>

section \<open>The next day\<close>

text \<open>
  The specification of the calendar: the day after a date.  The Gregorian calendar starts on
  15 October 1582, the day after 4 October 1582 of the Julian one, and there is no year 0.
\<close>

definition days_in_month :: "int \<Rightarrow> int \<Rightarrow> int" where
  "days_in_month y m = (if m = 2 \<and> isLeapYear y then 29 else monthDays ! nat m)"

definition next_ymd :: "int \<times> int \<times> int \<Rightarrow> int \<times> int \<times> int" where
  "next_ymd = (\<lambda>(y, m, d).
    if (y, m, d) = (1582, 10, 4) then (1582, 10, 15)
    else if d < days_in_month y m then (y, m, d + 1)
    else if m < 12 then (y, m + 1, 1)
    else (if y = -1 then 1 else y + 1, 1, 1))"

lemma days_in_month_bounds:
  assumes "1 \<le> m" "m \<le> 12"
  shows "28 \<le> days_in_month y m" "days_in_month y m \<le> 31" "days_in_month y 12 = 31"
    "m > 2 \<Longrightarrow> days_in_month y m = march_days (m - 2)" "days_in_month y 1 = 31"
    "days_in_month y 2 = (if isLeapYear y then 29 else 28)"
  using month_cases [OF assms] by (auto simp: days_in_month_def monthDays_def march_days_def)

lemma valid_ymd_iff:
  "QDate_isValid_ymd y m d \<longleftrightarrow>
    -4713 \<le> y \<and> y \<noteq> 0 \<and> (y, m, d) \<noteq> (-4713, 1, 1) \<and> 1 \<le> m \<and> m \<le> 12 \<and> 1 \<le> d \<and>
    d \<le> days_in_month y m \<and> \<not> (y = 1582 \<and> m = 10 \<and> 4 < d \<and> d < 15)"
proof (cases "m = 2")
  case True
  then show ?thesis
    by (auto simp: QDate_isValid_ymd_def days_in_month_def monthDays_def)
next
  case False
  then have "days_in_month y m = monthDays ! nat m" by (simp add: days_in_month_def)
  then show ?thesis using False by (auto simp: QDate_isValid_ymd_def)
qed

lemma next_ymd_cases:
  assumes "next_ymd (y, m, d) = n" "m \<le> 12"
  obtains (reform) "y = 1582" "m = 10" "d = 4" "n = (1582, 10, 15)"
    | (day) "d < days_in_month y m" "n = (y, m, d + 1)" "(y, m, d) \<noteq> (1582, 10, 4)"
    | (month) "m < 12" "n = (y, m + 1, 1)" "days_in_month y m \<le> d"
    | (year) "m = 12" "n = (if y = -1 then 1 else y + 1, 1, 1)" "days_in_month y m \<le> d"
proof (cases "(y, m, d) = (1582, 10, 4)")
  case True
  then show thesis using assms(1) by (intro reform) (simp_all add: next_ymd_def)
next
  case c1: False
  show thesis
  proof (cases "d < days_in_month y m")
    case True
    show thesis
      by (rule day [OF True _ c1])
        (use assms(1) True c1 in \<open>simp only: next_ymd_def case_prod_conv if_False if_True\<close>)
  next
    case c2: False
    show thesis
    proof (cases "m < 12")
      case True
      show thesis
        by (rule month [OF True])
          (use assms(1) True c1 c2 in
            \<open>simp_all only: next_ymd_def case_prod_conv if_False if_True not_less\<close>)
    next
      case False
      show thesis
        by (rule year)
          (use assms False c1 c2 in
            \<open>simp_all only: next_ymd_def case_prod_conv if_False not_less order_antisym_conv\<close>)
    qed
  qed
qed

lemma next_valid:
  assumes "QDate_isValid_ymd y m d" "next_ymd (y, m, d) = (y', m', d')"
  shows "QDate_isValid_ymd y' m' d'"
proof -
  have v: "-4713 \<le> y" "y \<noteq> 0" "1 \<le> m" "m \<le> 12" "1 \<le> d" "d \<le> days_in_month y m"
    "\<not> (y = 1582 \<and> m = 10 \<and> 4 < d \<and> d < 15)"
    using assms(1) by (auto simp: valid_ymd_iff)
  from assms(2) v(4) show ?thesis
  proof (cases rule: next_ymd_cases)
    case reform
    then show ?thesis by (auto simp: valid_ymd_iff days_in_month_def monthDays_def)
  next
    case day
    then show ?thesis using v assms(1) by (auto simp: valid_ymd_iff)
  next
    case month
    then show ?thesis using v days_in_month_bounds(1) [of "m + 1" y] by (auto simp: valid_ymd_iff)
  next
    case year
    then show ?thesis using v by (auto simp: valid_ymd_iff days_in_month_def monthDays_def)
  qed
qed

text \<open>The day numbers of the two calendars in closed form, by March-based year and month.\<close>

definition greg_jd :: "int \<Rightarrow> int \<Rightarrow> int \<Rightarrow> int" where
  "greg_jd Y M d = (1461 * Y) div 4 + (367 * M) div 12 - (3 * (Y div 100 + 1)) div 4 + d - 32075"

definition julian_jd :: "int \<Rightarrow> int \<Rightarrow> int \<Rightarrow> int" where
  "julian_jd Y M d = (1461 * Y) div 4 + (153 * M + 2) div 5 + d - 32083"

lemma jd_greg:
  assumes "QDate_isValid_ymd y m d" "y \<le> 1400000"
    and "y > 1582 \<or> (y = 1582 \<and> (m > 10 \<or> (m = 10 \<and> d \<ge> 15)))"
  shows "julianDayFromDate y m d =
    (if m \<le> 2 then greg_jd (y + 4799) (m + 10) d else greg_jd (y + 4800) (m - 2) d)"
proof -
  note b = valid_ymd_bounds [OF assms(1)]
  have j: "julianDayFromDate y m d = julianDayFromGregorianDate y m d"
    using assms(3) by (auto simp: julianDayFromDate_def)
  have y: "1582 \<le> y" using assms(3) by auto
  have c: "(y + 4900) div 100 = (y + 4800) div 100 + 1" "(y + 4899) div 100 = (y + 4799) div 100 + 1"
    using div_mult_self1 [of 100 "y + 4800" 1] div_mult_self1 [of 100 "y + 4799" 1]
    by (simp_all add: algebra_simps)
  note e = greg_encode [OF y assms(2) b(3-6)]
  show ?thesis
  proof (cases "m \<le> 2")
    case True
    have q: "y + 4800 + - 1 = y + 4799" "m - 2 - 12 * - 1 = m + 10" "y + 4900 + - 1 = y + 4899" by simp_all
    show ?thesis
      unfolding j greg_jd_def if_P [OF True] by (rule e [unfolded if_P [OF True] q c])
  next
    case False
    have q: "y + 4800 + 0 = y + 4800" "m - 2 - 12 * 0 = m - 2" "y + 4900 + 0 = y + 4900" by simp_all
    show ?thesis
      unfolding j greg_jd_def if_not_P [OF False] by (rule e [unfolded if_not_P [OF False] q c])
  qed
qed

lemma jd_julian:
  assumes "QDate_isValid_ymd y m d"
    and "\<not> (y > 1582 \<or> (y = 1582 \<and> (m > 10 \<or> (m = 10 \<and> d \<ge> 15))))"
  defines "Z \<equiv> (if y < 0 then y + 1 else y)"
  shows "julianDayFromDate y m d =
    (if m \<le> 2 then julian_jd (Z + 4799) (m + 9) d else julian_jd (Z + 4800) (m - 3) d)"
proof -
  note b = valid_ymd_bounds [OF assms(1)]
  have e: "y \<le> 1582" "y < 1582 \<or> m < 10 \<or> (m = 10 \<and> d \<le> 4)"
    using assms(2) b(11) by auto
  note j = julian_encode(1) [OF b(1) e(1) b(3-6) b(2) e(2) b(7), folded Z_def]
  show ?thesis
  proof (cases "m \<le> 2")
    case True
    have "Z + 4800 - 1 = Z + 4799" "m + 12 * 1 - 3 = m + 9" by simp_all
    then show ?thesis using j unfolding julian_jd_def if_P [OF True] by simp
  next
    case False
    have "Z + 4800 - 0 = Z + 4800" "m + 12 * 0 - 3 = m - 3" by simp_all
    then show ?thesis using j unfolding julian_jd_def if_not_P [OF False] by simp
  qed
qed

lemma greg_jd_month: "1 \<le> M \<Longrightarrow> M < 12 \<Longrightarrow> greg_jd Y (M + 1) 1 = greg_jd Y M (march_days M) + 1"
  using month_cases [of M] by (auto simp: greg_jd_def march_days_def)

lemma julian_jd_month: "0 \<le> M \<Longrightarrow> M < 11 \<Longrightarrow> julian_jd Y (M + 1) 1 = julian_jd Y M (march_days (M + 1)) + 1"
  using month_cases [of "M + 1"] by (auto simp: julian_jd_def march_days_def)

lemma year_quarters:
  fixes Y :: int
  shows "(1461 * (Y + 1)) div 4 = (1461 * Y) div 4 + (if Y mod 4 = 3 then 366 else 365)"
proof -
  obtain a b where r: "Y = 4 * a + b" "Y mod 4 = b" "b = 0 \<or> b = 1 \<or> b = 2 \<or> b = 3"
    by (rule int_div4_cases)
  have "(1461 * Y) div 4 = 1461 * a + (1461 * b) div 4"
    "(1461 * (Y + 1)) div 4 = 1461 * a + (1461 * (b + 1)) div 4"
    using div_mult_self1 [of 4 "1461 * b" "1461 * a"] div_mult_self1 [of 4 "1461 * (b + 1)" "1461 * a"]
    unfolding r(1) by (simp_all add: algebra_simps)
  then show ?thesis using r(2,3) by auto
qed

lemma century_quarters:
  fixes C :: int
  shows "(3 * (C + 1)) div 4 = (3 * C) div 4 + (if C mod 4 = 0 then 0 else 1)"
proof -
  obtain a b where r: "C = 4 * a + b" "C mod 4 = b" "b = 0 \<or> b = 1 \<or> b = 2 \<or> b = 3"
    by (rule int_div4_cases)
  have "(3 * C) div 4 = 3 * a + (3 * b) div 4" "(3 * (C + 1)) div 4 = 3 * a + (3 * (b + 1)) div 4"
    using div_mult_self1 [of 4 "3 * b" "3 * a"] div_mult_self1 [of 4 "3 * (b + 1)" "3 * a"]
    unfolding r(1) by (simp_all add: algebra_simps)
  then show ?thesis using r(2,3) by auto
qed

lemma greg_jd_year:
  "greg_jd (Y + 1) 1 1 =
    greg_jd Y 12 (if Y mod 4 = 3 \<and> (Y mod 100 = 99 \<longrightarrow> (Y div 100 + 1) mod 4 = 0) then 29 else 28) + 1"
proof -
  define c r where "c = Y div 100" and "r = Y mod 100"
  then have Y: "Y = c * 100 + r" "0 \<le> r" "r < 100" by simp_all
  have "(Y + 1) div 100 = (if r = 99 then c + 1 else c)"
    using Y by (intro int_div_eqI) (auto split: if_splits)
  then have c: "(Y + 1) div 100 = (if Y mod 100 = 99 then Y div 100 + 1 else Y div 100)"
    by (simp only: c_def r_def)
  have "Y mod 100 mod 4 = Y mod 4" by (rule mod_mod_cancel) simp
  then have i: "Y mod 100 = 99 \<longrightarrow> Y mod 4 = 3" by auto
  define A B where "A = (1461 * Y) div 4" and "B = (3 * (Y div 100 + 1)) div 4"
  have "(3 * ((Y + 1) div 100 + 1)) div 4 =
      (if Y mod 100 = 99 \<and> (Y div 100 + 1) mod 4 \<noteq> 0 then B + 1 else B)"
    using century_quarters [of "Y div 100 + 1"] unfolding c B_def by simp
  then show ?thesis
    unfolding greg_jd_def year_quarters A_def [symmetric] B_def [symmetric]
    using i by simp
qed

lemma julian_jd_year:
  "julian_jd (Y + 1) 0 1 = julian_jd Y 11 (if Y mod 4 = 3 then 29 else 28) + 1"
  unfolding julian_jd_def year_quarters by auto

lemma leap_greg_iff:
  assumes "1582 \<le> y"
  shows "isLeapYear y \<longleftrightarrow> (y + 4799) mod 4 = 3 \<and>
    ((y + 4799) mod 100 = 99 \<longrightarrow> ((y + 4799) div 100 + 1) mod 4 = 0)" (is "_ \<longleftrightarrow> ?P")
proof
  assume l: "isLeapYear y"
  have "(y + 4799) mod 100 mod 4 = (y + 4799) mod 4" by (rule mod_mod_cancel) simp
  then show ?P using leap_greg [OF l assms] by auto
next
  assume p: ?P
  have s: "y smod 4 = y mod 4" "y smod 100 = y mod 100" "y smod 400 = y mod 400"
    using assms by (simp_all add: smod_nonneg)
  obtain k where "y + 4799 = 4 * k + 3" using p by (metis mult_div_mod_eq)
  then have "y = 4 * (k - 1199)" by simp
  then have y4: "y mod 4 = 0" by (metis mod_mult_self1_is_0)
  show "isLeapYear y"
  proof (cases "y mod 100 = 0")
    case False
    then show ?thesis using y4 assms s by (simp add: isLeapYear_def)
  next
    case True
    then obtain k where k: "y = 100 * k" by (auto simp: mod_eq_0_iff_dvd)
    then have "(y + 4799) div 100 = k + 47" "(y + 4799) mod 100 = 99"
      using div_mult_self4 [of 100 k 4799] mod_mult_self4 [of 100 k 4799] by simp_all
    then have "(k + 48) mod 4 = 0" using p by (simp add: add.commute)
    then obtain j where "k + 48 = 4 * j" by (auto simp: mod_eq_0_iff_dvd)
    then have "y = 400 * (j - 12)" using k by simp
    then have "y mod 400 = 0" by (metis mod_mult_self1_is_0)
    then show ?thesis using assms s by (simp add: isLeapYear_def)
  qed
qed

lemma leap_julian_iff:
  assumes "y < 1582" "y \<noteq> 0"
  shows "isLeapYear y \<longleftrightarrow> ((if y < 0 then y + 1 else y) + 4799) mod 4 = 3"
proof
  assume "isLeapYear y"
  moreover have "(if y < 1 then y + 1 else y) = (if y < 0 then y + 1 else y)" using assms by simp
  ultimately show "((if y < 0 then y + 1 else y) + 4799) mod 4 = 3"
    using leap_julian [of y] assms(1) by simp
next
  define x where "x = (if y < 0 then y + 1 else y)"
  assume "((if y < 0 then y + 1 else y) + 4799) mod 4 = 3"
  then have "(x + 4799) mod 4 = 3" by (simp only: x_def)
  then obtain k where "x + 4799 = 4 * k + 3" by (metis mult_div_mod_eq)
  then have "x = 4 * (k - 1199)" by simp
  then have "4 dvd x" by simp
  then have "x smod 4 = 0" by (cases "0 \<le> x") (auto simp: smod_nonneg smod_neg)
  moreover have "(if y < 1 then y + 1 else y) = x" using assms(2) by (auto simp: x_def)
  ultimately show "isLeapYear y" using assms(1) by (simp add: isLeapYear_def)
qed

abbreviation reform_after :: "int \<Rightarrow> int \<Rightarrow> int \<Rightarrow> bool" where
  "reform_after y m d \<equiv> y > 1582 \<or> (y = 1582 \<and> (m > 10 \<or> (m = 10 \<and> d \<ge> 15)))"

lemma next_encode_greg:
  assumes v: "QDate_isValid_ymd y m d" "y < 1400000" and g: "reform_after y m d"
    and n: "next_ymd (y, m, d) = (y', m', d')"
  shows "julianDayFromDate y' m' d' = julianDayFromDate y m d + 1"
proof -
  note b = valid_ymd_bounds [OF v(1)]
  have vd: "d \<le> days_in_month y m" using v(1) by (simp add: valid_ymd_iff)
  have y: "1582 \<le> y" "y \<le> 1400000" using g v by auto
  note nv = next_valid [OF v(1) n]
  from n b(4) show ?thesis
  proof (cases rule: next_ymd_cases)
    case reform
    then show ?thesis using g by simp
  next
    case day
    then have e: "y' = y" "m' = m" "d' = d + 1" by simp_all
    have "reform_after y m (d + 1)" using g by linarith
    then show ?thesis
      using jd_greg [OF v(1) y(2) g] jd_greg [OF nv] y(2) unfolding e
      by (simp add: greg_jd_def)
  next
    case month
    then have e: "y' = y" "m' = m + 1" "d' = 1" "d = days_in_month y m" "reform_after y (m + 1) 1"
      using vd g by auto
    have j': "julianDayFromDate y' m' d' =
      (if m' \<le> 2 then greg_jd (y + 4799) (m' + 10) 1 else greg_jd (y + 4800) (m' - 2) 1)"
      using jd_greg [OF nv] e y by simp
    show ?thesis
    proof (cases "m = 2")
      case True
      have d: "d = (if isLeapYear y then 29 else 28)"
        using e(4) True by (simp add: days_in_month_def monthDays_def)
      have a: "julianDayFromDate y m d = greg_jd (y + 4799) 12 d"
        using jd_greg [OF v(1) y(2) g] True by simp
      have s: "y + 4799 + 1 = y + 4800" by simp
      have "julianDayFromDate y' m' d' = greg_jd (y + 4800) 1 1" using j' e(2) True by simp
      then show ?thesis
        unfolding a unfolding d using greg_jd_year [of "y + 4799"] unfolding leap_greg_iff [OF y(1)] s
        by (rule trans)
    next
      case False
      show ?thesis
      proof (cases "m = 1")
        case True
        then show ?thesis
          using jd_greg [OF v(1) y(2) g] j' e greg_jd_month [of 11 "y + 4799"]
          by (simp add: days_in_month_def monthDays_def march_days_def)
      next
        case ne: False
        then show ?thesis
          using jd_greg [OF v(1) y(2) g] j' e greg_jd_month [of "m - 2" "y + 4800"] False b(3) month(1)
            days_in_month_bounds(4) [of m y]
          by simp
      qed
    qed
  next
    case year
    then have e: "y' = y + 1" "m' = 1" "d' = 1" "d = days_in_month y 12" using vd y by auto
    then show ?thesis
      using jd_greg [OF v(1) y(2) g] jd_greg [OF nv] year y v(2) greg_jd_month [of 10 "y + 4800"]
      by (simp add: days_in_month_def monthDays_def march_days_def add.commute [of 4800 y])
  qed
qed

lemma next_encode_julian:
  assumes v: "QDate_isValid_ymd y m d" and g: "\<not> reform_after y m d"
    and n: "next_ymd (y, m, d) = (y', m', d')"
  shows "julianDayFromDate y' m' d' = julianDayFromDate y m d + 1"
proof (cases "(y, m, d) = (1582, 10, 4)")
  case True
  then have "y' = 1582" "m' = 10" "d' = 15" using n by (auto simp: next_ymd_def)
  then show ?thesis
    using True by (simp add: julianDayFromDate_def julianDayFromGregorianDate_def
      cdiv_simps wrap_simps in32_def)
next
  case nr: False
  note b = valid_ymd_bounds [OF v(1)]
  define Z where "Z = (if y < 0 then y + 1 else y)"
  have vd: "d \<le> days_in_month y m" using v(1) by (simp add: valid_ymd_iff)
  note nv = next_valid [OF v(1) n]
  have early: "y < 1582 \<or> y = 1582 \<and> (m < 10 \<or> m = 10 \<and> d < 4)"
    using g nr b(11) by auto
  note j = jd_julian [OF v(1) g, folded Z_def]
  from n b(4) show ?thesis
  proof (cases rule: next_ymd_cases)
    case reform
    then show ?thesis using nr by simp
  next
    case day
    then show ?thesis
      using j jd_julian [of y m "d + 1"] nv early unfolding Z_def [symmetric]
      by (auto simp: julian_jd_def)
  next
    case month
    then have e: "y' = y" "m' = m + 1" "d' = 1" "d = days_in_month y m" using vd by auto
    have "days_in_month 1582 10 = 31" by (simp add: days_in_month_def monthDays_def)
    then have "\<not> reform_after y (m + 1) 1" using early month by auto
    then have j': "julianDayFromDate y' m' d' =
      (if m' \<le> 2 then julian_jd (Z + 4799) (m' + 9) 1 else julian_jd (Z + 4800) (m' - 3) 1)"
      using jd_julian [OF nv] e by (simp add: Z_def)
    show ?thesis
    proof (cases "m = 2")
      case True
      have l: "isLeapYear y \<longleftrightarrow> (Z + 4799) mod 4 = 3"
      proof (cases "y = 1582")
        case True
        then show ?thesis by (simp add: isLeapYear_def cdiv_simps Z_def)
      next
        case False
        then show ?thesis using leap_julian_iff [of y] early b(2) by (simp add: Z_def)
      qed
      have d: "d = (if isLeapYear y then 29 else 28)"
        using e(4) True by (simp add: days_in_month_def monthDays_def)
      have a: "julianDayFromDate y m d = julian_jd (Z + 4799) 11 d" using j True by simp
      have s: "Z + 4799 + 1 = Z + 4800" by simp
      have "julianDayFromDate y' m' d' = julian_jd (Z + 4800) 0 1" using j' e(2) True by simp
      then show ?thesis
        unfolding a unfolding d using julian_jd_year [of "Z + 4799"] unfolding l s by (rule trans)
    next
      case False
      show ?thesis
      proof (cases "m = 1")
        case True
        then show ?thesis
          using j j' e julian_jd_month [of 10 "Z + 4799"]
          by (simp add: days_in_month_def monthDays_def march_days_def)
      next
        case ne: False
        then show ?thesis
          using j j' e julian_jd_month [of "m - 3" "Z + 4800"] False b(3) month(1)
            days_in_month_bounds(4) [of m y]
          by simp
      qed
    qed
  next
    case year
    then have e: "y' = (if y = -1 then 1 else y + 1)" "m' = 1" "d' = 1" "d = days_in_month y 12" "y < 1582"
      using vd early by auto
    have Z': "(if y' < 0 then y' + 1 else y') = Z + 1" using e b(2) by (auto simp: Z_def)
    have "\<not> reform_after y' m' d'" using e by auto
    then show ?thesis
      using j jd_julian [OF nv] year e julian_jd_month [of 9 "Z + 4800"] unfolding Z'
      by (simp add: days_in_month_def monthDays_def march_days_def add.commute [of 4800 Z])
  qed
qed

lemma next_encode:
  assumes "QDate_isValid_ymd y m d" "y < 1400000" "next_ymd (y, m, d) = (y', m', d')"
  shows "julianDayFromDate y' m' d' = julianDayFromDate y m d + 1"
  using next_encode_greg [OF assms(1,2) _ assms(3)] next_encode_julian [OF assms(1) _ assms(3)] by blast

lemma date_roundtrip:
  assumes "QDate_isValid_ymd y m d" "y \<le> 1400000"
  shows "getDateFromJulianDay (julianDayFromDate y m d) = (y, m, d)"
    "1 \<le> julianDayFromDate y m d" "365 * y \<le> julianDayFromDate y m d \<or> y \<le> 1582"
    "julianDayFromDate y m d < 514200000"
proof -
  show "getDateFromJulianDay (julianDayFromDate y m d) = (y, m, d)" "1 \<le> julianDayFromDate y m d"
    "365 * y \<le> julianDayFromDate y m d \<or> y \<le> 1582" "julianDayFromDate y m d < 514200000"
    using greg_roundtrip [OF assms] julian_roundtrip [OF assms(1)] assms(2)
    by (cases "reform_after y m d"; auto)+
qed

text \<open>Every day number up to 510,999,999 is the number of a valid date, by counting up from 1.\<close>

lemma jd_surjective:
  assumes "1 \<le> n" "n < 511000000"
  shows "\<exists>y m d. QDate_isValid_ymd y m d \<and> y < 1400000 \<and> julianDayFromDate y m d = n"
  using assms
proof (induction n rule: int_ge_induct)
  case base
  have "QDate_isValid_ymd (-4713) 1 2" "julianDayFromDate (-4713) 1 2 = 1"
    by (simp_all add: QDate_isValid_ymd_def monthDays_def julianDayFromDate_def cdiv_simps
        i32_def u32_def)
  then show ?case by force
next
  case (step n)
  then obtain y m d where d: "QDate_isValid_ymd y m d" "y < 1400000" "julianDayFromDate y m d = n"
    by auto
  obtain y' m' d' where n: "next_ymd (y, m, d) = (y', m', d')" by (metis prod_cases3)
  note nv = next_valid [OF d(1) n]
  have "y' \<le> y + 1 \<or> y' = 1" using n by (auto simp: next_ymd_def split: if_splits)
  then have "y' \<le> 1400000" using d(2) by auto
  moreover have j: "julianDayFromDate y' m' d' = n + 1" using next_encode [OF d(1,2) n] d(3) by simp
  ultimately have "365 * y' \<le> n + 1 \<or> y' \<le> 1582" using date_roundtrip(3) [OF nv] by simp
  then have "y' < 1400000" using step by auto
  then show ?case using nv j by blast
qed

text \<open>
  C3: \<open>getDateFromJulianDay\<close> and \<open>julianDayFromDate\<close> are inverse to each other between the day
  numbers 1 to 510,999,999 and the valid dates up to the year 1,399,999: each number in that range decodes to a
  valid date that encodes to it, and the next number decodes to the calendar's next day, across
  month ends, leap days of both calendars, the missing year 0 and the gap of October 1582.
\<close>

theorem julian_day_calendar:
  assumes "1 \<le> n" "n < 510999999"
  shows "case getDateFromJulianDay n of (y, m, d) \<Rightarrow>
      QDate_isValid_ymd y m d \<and> julianDayFromDate y m d = n \<and>
      getDateFromJulianDay (n + 1) = next_ymd (y, m, d)"
proof -
  obtain y m d where d: "QDate_isValid_ymd y m d" "y < 1400000" "julianDayFromDate y m d = n"
    using jd_surjective assms by force
  obtain y1 m1 d1 where d1: "QDate_isValid_ymd y1 m1 d1" "y1 < 1400000" "julianDayFromDate y1 m1 d1 = n + 1"
    using jd_surjective [of "n + 1"] assms by auto
  obtain y' m' d' where nx: "next_ymd (y, m, d) = (y', m', d')" by (metis prod_cases3)
  have y': "y' \<le> 1400000" using nx d(2) by (auto simp: next_ymd_def split: if_splits)
  have "getDateFromJulianDay (n + 1) = (y', m', d')"
    using date_roundtrip(1) [OF next_valid [OF d(1) nx] y'] next_encode [OF d(1,2) nx] d(3) by simp
  then show ?thesis using date_roundtrip(1) [of y m d] d nx by simp
qed

theorem julian_day_calendar_witness:
  "case getDateFromJulianDay 2299160 of (y, m, d) \<Rightarrow>
      QDate_isValid_ymd y m d \<and> julianDayFromDate y m d = 2299160 \<and>
      getDateFromJulianDay (2299160 + 1) = next_ymd (y, m, d)"
  by (rule julian_day_calendar) simp_all

end
