(* ===== verification/DateArith.thy ===== *)
theory DateArith
  imports Calendar
begin

text \<open>
  The arithmetic of \<open>QDate\<close>: \<open>addDays\<close>, \<open>addMonths\<close>, \<open>addYears\<close>, \<open>daysTo\<close>, \<open>weekNumber\<close> and
  \<open>dayOfYear\<close>, over the calendar of theory Calendar.
\<close>

section \<open>Dates built from year, month and day\<close>

lemma QDate_of_valid:
  assumes "QDate_isValid_ymd y m d" "y \<le> 1400000"
  shows "QDate y m d = QDateJd (julianDayFromDate y m d)"
    "getDateFromJulianDay (jd (QDate y m d)) = (y, m, d)"
    "QDate_isValid (QDate y m d)" "jd (QDate y m d) < 514200000" "1 \<le> jd (QDate y m d)"
  using assms date_roundtrip [OF assms]
  by (simp_all add: QDate_def QDate_setDate_def QDate_isValid_def QDate_isNull_def)

lemma QDate_of_invalid: "\<not> QDate_isValid_ymd y m d \<Longrightarrow> QDate y m d = QDate0"
  by (simp add: QDate_def QDate_setDate_def QDate0_def)

text \<open>\<open>fixedDate\<close> clips the day to the length of the month; in the gap of 1582 it gives the null date.\<close>

lemma fixedDate_clips:
  assumes "-4713 < y" "y \<noteq> 0" "y \<le> 1400000" "1 \<le> m" "m \<le> 12" "1 \<le> d"
  shows "fixedDate y m d = QDate y m (min d (days_in_month y m))"
    "QDate_isValid_ymd y m (min d (days_in_month y m)) \<longleftrightarrow> \<not> (y = 1582 \<and> m = 10 \<and> 4 < d \<and> d < 15)"
proof -
  have n: "28 \<le> days_in_month y m" using days_in_month_bounds(1) [OF assms(4,5)] .
  have v: "QDate_isValid_ymd y m 1" using assms n by (auto simp: valid_ymd_iff)
  have "QDate_daysInMonth (QDate y m 1) = days_in_month y m"
    using QDate_of_valid(2) [OF v assms(3)] by (simp add: QDate_daysInMonth_def days_in_month_def)
  then show "fixedDate y m d = QDate y m (min d (days_in_month y m))"
    by (simp add: fixedDate_def QDate_def)
  show "QDate_isValid_ymd y m (min d (days_in_month y m)) \<longleftrightarrow> \<not> (y = 1582 \<and> m = 10 \<and> 4 < d \<and> d < 15)"
    using assms n by (auto simp: valid_ymd_iff min_def)
qed

section \<open>Days\<close>

lemma addDays_sum:
  assumes "0 \<le> jd a" "jd a < 4294967296" "in32 k"
  shows "QDate_addDays a k = (if 0 \<le> jd a + k \<and> jd a + k < 4294967296 then QDateJd (jd a + k) else QDate0)"
proof (cases "0 \<le> jd a + k \<and> jd a + k < 4294967296")
  case True
  then show ?thesis using assms by (auto simp: QDate_addDays_def u32_id)
next
  case False
  have "u32 (jd a + k) = (if jd a + k < 0 then jd a + k + 4294967296 else jd a + k - 4294967296)"
  proof (cases "jd a + k < 0")
    case True
    have "u32 (jd a + k) = (jd a + k + 4294967296) mod 4294967296"
      unfolding u32_def by (rule mod_add_self2 [symmetric])
    also have "\<dots> = jd a + k + 4294967296"
      by (rule mod_pos_pos_trivial) (use True assms(1,3) in \<open>auto simp: in32_def\<close>)
    finally show ?thesis using True by simp
  next
    case pos: False
    have "u32 (jd a + k) = (jd a + k - 4294967296 + 4294967296) mod 4294967296"
      by (simp add: u32_def)
    also have "\<dots> = (jd a + k - 4294967296) mod 4294967296" by (rule mod_add_self2)
    also have "\<dots> = jd a + k - 4294967296"
      by (rule mod_pos_pos_trivial) (use pos False assms(2,3) in \<open>auto simp: in32_def\<close>)
    finally show ?thesis using pos by simp
  qed
  then show ?thesis
    using False assms by (auto simp: QDate_addDays_def QDate0_def in32_def)
qed

text \<open>
  C6: \<open>addDays\<close> adds exactly, and every sum that leaves the range of the day number gives the null
  date; \<open>addDays\<close> of \<open>daysTo\<close> reaches the other date.
\<close>

theorem QDate_addDays_exact:
  assumes "0 \<le> jd a" "jd a < 4294967296" "in32 n" "0 \<le> jd b" "jd b < 4294967296" "in32 (jd b - jd a)"
  shows "QDate_addDays a n = (if 0 \<le> jd a + n \<and> jd a + n < 4294967296 then QDateJd (jd a + n) else QDate0)
    \<and> QDate_addDays a (QDate_daysTo a b) = b \<and> (QDate_less a b \<longleftrightarrow> 0 < QDate_daysTo a b)"
proof -
  note s = addDays_sum [OF assms(1,2)]
  have d: "QDate_daysTo a b = jd b - jd a" using assms(6) by (simp add: QDate_daysTo_def i32_id)
  then show ?thesis
    using s [OF assms(3)] s [OF assms(6)] assms(4,5) by (simp add: QDate_less_def)
qed

theorem QDate_addDays_exact_witness:
  "QDate_addDays (QDateJd 2451545) (-2451546) =
     (if 0 \<le> jd (QDateJd 2451545) + -2451546 \<and> jd (QDateJd 2451545) + -2451546 < 4294967296
      then QDateJd (jd (QDateJd 2451545) + -2451546) else QDate0)
    \<and> QDate_addDays (QDateJd 2451545) (QDate_daysTo (QDateJd 2451545) (QDateJd 7)) = QDateJd 7
    \<and> (QDate_less (QDateJd 2451545) (QDateJd 7) \<longleftrightarrow> 0 < QDate_daysTo (QDateJd 2451545) (QDateJd 7))"
  by (rule QDate_addDays_exact) (simp_all add: in32_def)

section \<open>Months and years\<close>

text \<open>The loop keeps the number of months and ends in a month of the year.\<close>

lemma addMonths_loop_months:
  assumes "0 \<le> m" "m \<le> 12" "m = 0 \<longrightarrow> 0 < n \<and> n < 12"
  shows "case addMonths_loop y m n of (y', m') \<Rightarrow> 12 * y' + m' = 12 * y + m + n \<and> 1 \<le> m' \<and> m' \<le> 12"
  using assms
proof (induction y m n rule: addMonths_loop.induct)
  case (1 y m n)
  consider "n = 0" | "n < 0" "n + 12 \<le> 0" | "n < 0" "\<not> n + 12 \<le> 0" | "n > 0" "n - 12 \<ge> 0"
    | "n > 0" "\<not> n - 12 \<ge> 0" "m = 12" | "n > 0" "\<not> n - 12 \<ge> 0" "m \<noteq> 12" by linarith
  then show ?case
  proof cases
    case 1
    then show ?thesis using "1.prems" by (subst addMonths_loop.simps) auto
  next
    case 2
    then show ?thesis using "1.IH"(1) "1.prems" by (subst addMonths_loop.simps) auto
  next
    case 3
    then show ?thesis using "1.prems"
      by (auto simp: addMonths_loop.simps [of y m n] addMonths_loop.simps [of _ _ 0] Let_def)
  next
    case 4
    then show ?thesis using "1.IH"(4) "1.prems" by (subst addMonths_loop.simps) auto
  next
    case 5
    then show ?thesis using "1.IH"(5) "1.prems" by (subst addMonths_loop.simps) auto
  next
    case 6
    then show ?thesis using "1.prems"
      by (auto simp: addMonths_loop.simps [of y m n] addMonths_loop.simps [of _ _ 0] Let_def)
  qed
qed

text \<open>Years counted without the missing year 0, and months numbered on from them.\<close>

definition astro_year :: "int \<Rightarrow> int" where
  "astro_year y = (if y < 0 then y + 1 else y)"

lemma months_unique:
  fixes m m' :: int
  assumes "12 * y + m = 12 * y' + m'" "1 \<le> m" "m \<le> 12" "1 \<le> m'" "m' \<le> 12"
  shows "y = y' \<and> m = m'"
  using assms by presburger

lemma sign_change:
  assumes "y \<noteq> 0" "y' \<noteq> 0" "y2 - y = astro_year y' - astro_year y"
    and "y < y2 \<Longrightarrow> up" "y2 < y \<Longrightarrow> \<not> up"
  shows "(if (y > 0 \<and> y2 \<le> 0) \<or> (y < 0 \<and> y2 \<ge> 0) then y2 + (if up then 1 else -1) else y2) = y'"
proof (cases "y < y2")
  case True
  then show ?thesis using assms by (auto simp: astro_year_def split: if_splits)
next
  case False
  then show ?thesis using assms by (auto simp: astro_year_def split: if_splits)
qed

lemma QDate_addMonths_valid:
  assumes v: "QDate_isValid_ymd y m d" "y \<le> 1400000"
    and t: "12 * astro_year y' + m' = 12 * astro_year y + m + k"
    and r: "-4713 < y'" "y' \<noteq> 0" "y' \<le> 1400000" "1 \<le> m'" "m' \<le> 12"
  defines "day \<equiv> (if y' = 1582 \<and> m' = 10 \<and> d > 4 \<and> d < 15 then (if k > 0 then 15 else 4) else d)"
  shows "QDate_addMonths (QDate y m d) k = QDate y' m' (min day (days_in_month y' m'))"
    and "QDate_isValid_ymd y' m' (min day (days_in_month y' m'))"
proof -
  note b = valid_ymd_bounds [OF v(1)]
  have day: "1 \<le> day" "\<not> (y' = 1582 \<and> m' = 10 \<and> 4 < day \<and> day < 15)" using b(5) by (auto simp: day_def)
  show "QDate_isValid_ymd y' m' (min day (days_in_month y' m'))"
    using fixedDate_clips(2) [of y' m' day] r day by simp
  note clip = fixedDate_clips(1) [OF r(1-5) day(1)]
  show "QDate_addMonths (QDate y m d) k = QDate y' m' (min day (days_in_month y' m'))"
  proof (cases "k = 0")
    case True
    then have "12 * astro_year y' + m' = 12 * astro_year y + m" using t by simp
    then have "astro_year y' = astro_year y \<and> m' = m" by (rule months_unique) (fact r b)+
    then have e: "y' = y" "m' = m" using r(2) b(2) by (auto simp: astro_year_def split: if_splits)
    have "day = d" "d \<le> days_in_month y m" using v(1) e by (auto simp: day_def valid_ymd_iff)
    then show ?thesis
      using True QDate_of_valid(3) [OF v] e by (simp add: QDate_addMonths_def)
  next
    case False
    obtain y2 m2 where l: "addMonths_loop y m k = (y2, m2)" by fastforce
    have "12 * y2 + m2 = 12 * y + m + k" "1 \<le> m2" "m2 \<le> 12"
      using addMonths_loop_months [of m k y] b(3,4) l by auto
    moreover have "12 * (astro_year y' - astro_year y + y) + m' = 12 * y + m + k" using t by simp
    ultimately have e: "y2 = astro_year y' - astro_year y + y" "m2 = m'"
      using months_unique [of y2 m2 "astro_year y' - astro_year y + y" m'] r(4,5) by auto
    have k: "y2 - y > 0 \<Longrightarrow> k > 0" "y2 - y < 0 \<Longrightarrow> \<not> k > 0"
      using t e(1) b(3,4) r(4,5) by linarith+
    have s: "(if (y > 0 \<and> y2 \<le> 0) \<or> (y < 0 \<and> y2 \<ge> 0) then y2 + (if k > 0 then 1 else -1) else y2) = y'"
      by (rule sign_change) (use b(2) r(2) e k in auto)
    show ?thesis
      unfolding QDate_addMonths_def Let_def QDate_of_valid(2) [OF v]
      using QDate_of_valid(3) [OF v] False l s e(2) clip unfolding day_def
      by simp
  qed
qed

text \<open>
  C5: \<open>addMonths\<close>: for a valid date and a number of months that leads to the month \<open>m'\<close> of the year
  \<open>y'\<close> (counting over the missing year 0), the result is the valid date in that month whose day is the
  old one, clipped to the length of the month and moved out of the gap of October 1582 in the
  direction of the step.
\<close>

theorem QDate_addMonths_spec:
  assumes "QDate_isValid_ymd y m d" "y \<le> 1400000"
    and "12 * astro_year y' + m' = 12 * astro_year y + m + k"
    and "-4713 < y'" "y' \<noteq> 0" "y' \<le> 1400000" "1 \<le> m'" "m' \<le> 12"
  shows "QDate_isValid (QDate_addMonths (QDate y m d) k) \<and>
    QDate_getDate (QDate_addMonths (QDate y m d) k) =
      (y', m', min (if y' = 1582 \<and> m' = 10 \<and> d > 4 \<and> d < 15 then (if k > 0 then 15 else 4) else d)
        (days_in_month y' m'))"
  using QDate_addMonths_valid [OF assms] QDate_of_valid(2,3) [OF _ assms(6)]
  by (simp add: QDate_getDate_def)

theorem QDate_addMonths_spec_witness:
  "QDate_isValid (QDate_addMonths (QDate (-1) 8 31) 6) \<and>
    QDate_getDate (QDate_addMonths (QDate (-1) 8 31) 6) =
      (1, 2, min (if 1 = (1582::int) \<and> 2 = (10::int) \<and> 31 > (4::int) \<and> 31 < (15::int)
        then (if 6 > (0::int) then 15 else 4) else 31) (days_in_month 1 2))"
  by (rule QDate_addMonths_spec)
    (simp_all add: QDate_isValid_ymd_def monthDays_def astro_year_def)

text \<open>
  \<open>addYears\<close> keeps month and day, clipped to the length of the month, over the missing year 0;
  but a step that ends in the gap of October 1582 gives the null date, unlike \<open>addMonths\<close>.
\<close>

theorem QDate_addYears_spec:
  assumes "QDate_isValid_ymd y m d" "y \<le> 1400000" "in32 (y + k)"
    and "astro_year y' = astro_year y + k" "-4713 < y'" "y' \<noteq> 0" "y' \<le> 1400000"
  shows "if y' = 1582 \<and> m = 10 \<and> 4 < d \<and> d < 15 then QDate_addYears (QDate y m d) k = QDate0
    else QDate_isValid (QDate_addYears (QDate y m d) k) \<and>
      QDate_getDate (QDate_addYears (QDate y m d) k) = (y', m, min d (days_in_month y' m))"
proof -
  note b = valid_ymd_bounds [OF assms(1)]
  have s: "(if (y > 0 \<and> y + k \<le> 0) \<or> (y < 0 \<and> y + k \<ge> 0) then y + k + (if k > 0 then 1 else -1) else y + k) = y'"
    by (rule sign_change) (use assms(4,6) b(2) in auto)
  have "QDate_addYears (QDate y m d) k = fixedDate y' m d"
    by (simp only: QDate_addYears_def Let_def QDate_of_valid(2,3) [OF assms(1,2)] prod.case
        i32_id [OF assms(3)] s not_True_eq_False if_False)
  moreover note c = fixedDate_clips [OF assms(5-7) b(3-5)]
  ultimately show ?thesis
    using QDate_of_valid(2,3) [OF _ assms(7), of m "min d (days_in_month y' m)"]
      QDate_of_invalid [of y' m "min d (days_in_month y' m)"]
    unfolding QDate_getDate_def c(1) by (auto simp only: if_True if_False split: if_split)
qed

theorem QDate_addYears_spec_witness:
  "if 1582 = (1582::int) \<and> 10 = (10::int) \<and> 4 < (10::int) \<and> 10 < (15::int) then QDate_addYears (QDate 1581 10 10) 1 = QDate0
    else QDate_isValid (QDate_addYears (QDate 1581 10 10) 1) \<and>
      QDate_getDate (QDate_addYears (QDate 1581 10 10) 1) = (1582, 10, min 10 (days_in_month 1582 10))"
  by (rule QDate_addYears_spec)
    (simp_all add: QDate_isValid_ymd_def monthDays_def astro_year_def in32_def)

section \<open>Days of the year and weeks\<close>

definition year_days :: "int \<Rightarrow> int" where
  "year_days y = (if isLeapYear y then 366 else 365)"

lemma greg_jd_split: "greg_jd Y M d = greg_jd Y 1 1 + (367 * M) div 12 - 31 + d"
  by (simp add: greg_jd_def)

lemma march_first:
  assumes "1582 \<le> y"
  shows "greg_jd (y + 4800) 1 1 = greg_jd (y + 4799) 1 1 + year_days y"
proof -
  have s: "y + 4799 + 1 = y + 4800" by simp
  have "greg_jd (y + 4800) 1 1 = greg_jd (y + 4799) 12 (if isLeapYear y then 29 else 28) + 1"
    using greg_jd_year [of "y + 4799"] unfolding leap_greg_iff [OF assms] s .
  then show ?thesis using greg_jd_split [of "y + 4799" 12] by (simp add: year_days_def)
qed

lemma new_year_jd:
  assumes "1583 \<le> y" "y \<le> 1400000"
  shows "julianDayFromDate y 1 1 = greg_jd (y + 4799) 1 1 + 306"
proof -
  have "QDate_isValid_ymd y 1 1" using assms by (simp add: QDate_isValid_ymd_def monthDays_def)
  then have "julianDayFromDate y 1 1 = greg_jd (y + 4799) 11 1"
    using jd_greg [of y 1 1] assms by simp
  then show ?thesis using greg_jd_split [of "y + 4799" 11] by simp
qed

lemma year_span:
  assumes "QDate_isValid_ymd y m d" "1583 \<le> y" "y < 1400000"
  shows "julianDayFromDate y 1 1 \<le> julianDayFromDate y m d"
    "julianDayFromDate y m d < julianDayFromDate y 1 1 + year_days y"
    "julianDayFromDate (y + 1) 1 1 = julianDayFromDate y 1 1 + year_days y"
proof -
  note b = valid_ymd_bounds [OF assms(1)]
  have d: "1 \<le> d" "d \<le> days_in_month y m" using assms(1) by (auto simp: valid_ymd_iff)
  note ny = new_year_jd [OF assms(2)]
  have y: "1582 \<le> y" "y \<le> 1400000" using assms by auto
  show n: "julianDayFromDate (y + 1) 1 1 = julianDayFromDate y 1 1 + year_days y"
    using ny new_year_jd [of "y + 1"] march_first [OF y(1)] assms by (simp add: add.commute [of 4800 y])
  have e: "julianDayFromDate y m d =
      (if m \<le> 2 then greg_jd (y + 4799) 1 1 + (367 * (m + 10)) div 12 - 31 + d
       else greg_jd (y + 4799) 1 1 + year_days y + (367 * (m - 2)) div 12 - 31 + d)"
    using jd_greg [OF assms(1)] assms(2,3) march_first [OF y(1)]
      greg_jd_split [of "y + 4799" "m + 10" d] greg_jd_split [of "y + 4800" "m - 2" d]
    by simp
  have "306 \<le> (if m \<le> 2 then (367 * (m + 10)) div 12 - 31 + d else year_days y + (367 * (m - 2)) div 12 - 31 + d)
    \<and> (if m \<le> 2 then (367 * (m + 10)) div 12 - 31 + d else year_days y + (367 * (m - 2)) div 12 - 31 + d)
      < 306 + year_days y"
    using month_cases [OF b(3,4)] d by (auto simp: days_in_month_def monthDays_def year_days_def)
  then show "julianDayFromDate y 1 1 \<le> julianDayFromDate y m d"
    "julianDayFromDate y m d < julianDayFromDate y 1 1 + year_days y"
    using e ny y by (auto split: if_splits)
qed

text \<open>
  ISO 8601: a day belongs to the week \<open>w\<close> of the year \<open>Y\<close> when the Thursday of its week (Monday to
  Sunday) is one of the days 7(w-1) to 7w-1 of \<open>Y\<close>, counted from 0, and lies in \<open>Y\<close>.
\<close>

definition iso_week :: "int \<Rightarrow> int \<Rightarrow> int \<Rightarrow> bool" where
  "iso_week n w Y =
    (let thursday = n - n mod 7 + 3; start = julianDayFromDate Y 1 1
     in start + 7 * (w - 1) \<le> thursday \<and> thursday < start + 7 * w \<and> start \<le> thursday
        \<and> thursday < julianDayFromDate (Y + 1) 1 1)"

lemma QDate_dayOfYear_valid:
  assumes "QDate_isValid_ymd y m d" "1583 \<le> y" "y < 1400000"
  shows "QDate_dayOfYear (QDate y m d) = julianDayFromDate y m d - julianDayFromDate y 1 1 + 1"
    "1 \<le> QDate_dayOfYear (QDate y m d)" "QDate_dayOfYear (QDate y m d) \<le> year_days y"
proof -
  have "QDate_year (QDate y m d) = y" "jd (QDate y m d) = julianDayFromDate y m d"
    using QDate_of_valid(1,2) [OF assms(1)] assms(3) by (simp_all add: QDate_year_def)
  moreover have "in32 (julianDayFromDate y m d - julianDayFromDate y 1 1 + 1)"
    using year_span [OF assms] by (auto simp: in32_def year_days_def split: if_splits)
  ultimately show e: "QDate_dayOfYear (QDate y m d) = julianDayFromDate y m d - julianDayFromDate y 1 1 + 1"
    by (simp add: QDate_dayOfYear_def i32_id)
  show "1 \<le> QDate_dayOfYear (QDate y m d)" "QDate_dayOfYear (QDate y m d) \<le> year_days y"
    using e year_span [OF assms] by auto
qed

text \<open>What the function computes from the day of the year and the day of the week.\<close>

lemma week_arith:
  fixes k :: int
  assumes "-6 \<le> k" "k \<le> 365"
  defines "week \<equiv> (k + 10) sdiv 7"
  shows "week = 0 \<longleftrightarrow> k < -3" "week = 53 \<longleftrightarrow> 361 \<le> k"
    "\<not> k < -3 \<Longrightarrow> 7 * (week - 1) \<le> k + 3 \<and> k + 3 < 7 * week \<and> 1 \<le> week"
proof -
  have "week = (k + 10) div 7" using assms by (simp add: sdiv_nonneg)
  then have b: "7 * week \<le> k + 10" "k + 3 < 7 * week"
    using int_div_mult_le [of 7 "k + 10"] int_less_div_mult [of 7 "k + 10"]
    by (simp_all add: algebra_simps)
  then show "week = 0 \<longleftrightarrow> k < -3" "week = 53 \<longleftrightarrow> 361 \<le> k"
    using assms(1,2) by auto
  show "\<not> k < -3 \<Longrightarrow> 7 * (week - 1) \<le> k + 3 \<and> k + 3 < 7 * week \<and> 1 \<le> week"
    using b by auto
qed

lemma week_arith_prev:
  fixes k :: int
  assumes "-6 \<le> k" "k < -3" "len = 365 \<or> len = 366"
  defines "week \<equiv> (k + len + 10) sdiv 7"
  shows "7 * (week - 1) \<le> k + 3 + len" "k + 3 + len < 7 * week"
proof -
  have "week = (k + len + 10) div 7" using assms by (auto simp: sdiv_nonneg)
  then show "7 * (week - 1) \<le> k + 3 + len" "k + 3 + len < 7 * week"
    using int_div_mult_le [of 7 "k + len + 10"] int_less_div_mult [of 7 "k + len + 10"]
    by (simp_all add: algebra_simps)
qed

lemma week_arith_next:
  fixes k :: int
  assumes "361 \<le> k" "k \<le> 365" "len = 365 \<or> len = 366"
  shows "(k - len + 10) sdiv 7 = (if len \<le> k + 3 then 1 else 0)"
proof -
  have "0 \<le> k - len + 10" using assms by auto
  then have "(k - len + 10) sdiv 7 = (k - len + 10) div 7" by (simp add: sdiv_nonneg)
  also have "\<dots> = (if len \<le> k + 3 then 1 else 0)" using assms by auto
  finally show ?thesis .
qed

text \<open>
  C4: \<open>weekNumber\<close> returns the ISO 8601 week and year of every valid date of the years 1584 to
  1,399,998, with one exception, and there the week is wrong: when the Thursday of
  the week is 365 days after the 1st of January and exactly one of this year and the next is a leap year
  (the code tests the next year instead of this one), for example on 31 December 2020.
\<close>

theorem QDate_weekNumber_iso:
  assumes "QDate_isValid_ymd y m d" "1584 \<le> y" "y < 1399999"
  shows "case QDate_weekNumber (QDate y m d) of
      (w, None) \<Rightarrow> False
    | (w, Some Y) \<Rightarrow> iso_week (jd (QDate y m d)) w Y \<longleftrightarrow>
        \<not> (QDate_dayOfYear (QDate y m d) - QDate_dayOfWeek (QDate y m d) = 362 \<and>
           isLeapYear y \<noteq> isLeapYear (y + 1))"
proof -
  let ?D = "QDate y m d"
  have y: "y \<le> 1400000" "1583 \<le> y" "y < 1400000" using assms by auto
  define n where "n = jd ?D"
  define L where "L = julianDayFromDate y 1 1"
  define k where "k = QDate_dayOfYear ?D - QDate_dayOfWeek ?D"
  note q = QDate_of_valid [OF assms(1) y(1)]
  note doy = QDate_dayOfYear_valid [OF assms(1) y(2,3)]
  have n: "n = julianDayFromDate y m d" by (simp add: n_def q)
  have w: "1 \<le> QDate_dayOfWeek ?D" "QDate_dayOfWeek ?D \<le> 7" "QDate_dayOfWeek ?D = n mod 7 + 1"
    by (auto simp: QDate_dayOfWeek_def n_def)
  have k: "-6 \<le> k" "k \<le> year_days y - 1" "k \<le> 365" "n - n mod 7 + 3 = L + k + 3"
    using w doy n by (auto simp: k_def L_def year_days_def split: if_splits)
  have J: "julianDayFromDate (y + 1) 1 1 = L + year_days y"
    "julianDayFromDate (y - 1) 1 1 = L - year_days (y - 1)"
    "julianDayFromDate (y + 2) 1 1 = L + year_days y + year_days (y + 1)"
    using year_span(3) [of y 1 1] year_span(3) [of "y - 1" 1 1] year_span(3) [of "y + 1" 1 1] assms(2,3)
    by (simp_all add: L_def QDate_isValid_ymd_def monthDays_def add.commute [of 2 y])
  have yd: "year_days z = 365 \<or> year_days z = 366" for z by (simp add: year_days_def)
  have year: "QDate_year ?D = y" using q by (simp add: QDate_year_def)
  note ar = week_arith [OF k(1,3)]
  consider "k < -3" | "-3 \<le> k" "k < 361" | "361 \<le> k" by linarith
  then show ?thesis
  proof cases
    case 1
    let ?w = "(k + year_days (y - 1) + 10) sdiv 7"
    have "QDate_weekNumber ?D = (?w, Some (y - 1))"
      using 1 ar q(3) year
      by (simp add: QDate_weekNumber_def Let_def k_def year_days_def algebra_simps)
    moreover have "iso_week n ?w (y - 1)"
      unfolding iso_week_def Let_def k(4)
      using J(2) week_arith_prev [OF k(1) 1 yd [of "y - 1"]] 1 k(1) yd [of "y - 1"]
      by (auto simp: L_def)
    ultimately show ?thesis using 1 by (simp add: n_def k_def)
  next
    case 2
    let ?w = "(k + 10) sdiv 7"
    have "QDate_weekNumber ?D = (?w, Some y)"
      using 2 ar q(3) year by (simp add: QDate_weekNumber_def Let_def k_def algebra_simps)
    moreover have "iso_week n ?w y"
      unfolding iso_week_def Let_def k(4)
      using J(1) ar 2 yd [of y] by (auto simp: L_def)
    ultimately show ?thesis using 2 by (simp add: n_def k_def)
  next
    case 3
    let ?w = "(k - year_days (y + 1) + 10) sdiv 7"
    have w53: "(k + 10) sdiv 7 = 53" using ar(2) 3 by simp
    have r: "QDate_weekNumber ?D = (if ?w > 0 then (?w, Some (y + 1)) else (53, Some y))"
      using w53 q(3) year
      by (simp add: QDate_weekNumber_def Let_def k_def year_days_def algebra_simps)
    have v: "?w = (if year_days (y + 1) \<le> k + 3 then 1 else 0)"
      by (rule week_arith_next [OF 3 k(3) yd])
    have i: "iso_week n 53 y \<longleftrightarrow> k + 3 < year_days y" "iso_week n 1 (y + 1) \<longleftrightarrow> year_days y \<le> k + 3"
      unfolding iso_week_def Let_def k(4)
      using J 3 k(3) yd [of y] yd [of "y + 1"] by (auto simp: L_def add.commute [of 2 y])
    have "k + 3 \<le> year_days y + 2" using k(2) by simp
    then show ?thesis
      unfolding r v n_def [symmetric] k_def [symmetric]
      using i 3 k(2,3) by (auto simp: year_days_def split: if_splits)
  qed
qed

theorem QDate_weekNumber_iso_witness:
  "(case QDate_weekNumber (QDate 2020 12 31) of
      (w, None) \<Rightarrow> False
    | (w, Some Y) \<Rightarrow> iso_week (jd (QDate 2020 12 31)) w Y \<longleftrightarrow>
        \<not> (QDate_dayOfYear (QDate 2020 12 31) - QDate_dayOfWeek (QDate 2020 12 31) = 362 \<and>
           isLeapYear 2020 \<noteq> isLeapYear (2020 + 1)))"
  by (rule QDate_weekNumber_iso) (simp_all add: QDate_isValid_ymd_def monthDays_def)

lemma weekNumber_2020:
  "QDate_weekNumber (QDate 2020 12 31) = (1, Some 2021)" "QDate_weekNumber (QDate 2003 12 31) = (53, Some 2003)"
  by code_simp+

end
