(* ===== verification/UndoStack.thy ===== *)
theory UndoStack
  imports Prelude
begin

text \<open>
  \<open>QUndoCommand\<close> and \<open>QUndoStack\<close> (src/src/gui/util/qundostack.cpp, qundostack_p.h).  A command is a
  tree: its own list of children, its texts and, for a class derived from \<open>QUndoCommand\<close>, a value of
  the application's type \<open>'c\<close> whose overrides of \<open>redo\<close>, \<open>undo\<close>, \<open>id\<close> and \<open>mergeWith\<close> are the
  parameter \<open>ops\<close>; \<open>redo\<close> and \<open>undo\<close> receive the base class implementation, which runs the children.
  Commands act on a document of the application's type \<open>'d\<close>.

  The pointers of \<open>macro_stack\<close> are paths: the position in \<open>command_list\<close>, then the position in
  each \<open>child_list\<close>.  Every operation returns the new stack, the new document and the signals in the
  order they are emitted.  Warnings printed by \<open>qWarning\<close> are not modelled.
\<close>

section \<open>Commands\<close>

datatype 'c QUndoCommand =
  QUndoCommand (derived: "'c option") (cmd_text: string) (cmd_actionText: string)
    (child_list: "'c QUndoCommand list")

record ('c, 'd) command_class =
  op_redo :: "'c \<Rightarrow> ('d \<Rightarrow> 'd) \<Rightarrow> 'd \<Rightarrow> 'd"
  op_undo :: "'c \<Rightarrow> ('d \<Rightarrow> 'd) \<Rightarrow> 'd \<Rightarrow> 'd"
  op_id :: "'c \<Rightarrow> int"
  op_merge :: "'c QUndoCommand \<Rightarrow> 'c QUndoCommand \<Rightarrow> 'c QUndoCommand option"

fun first_newline :: "string \<Rightarrow> nat \<Rightarrow> int" where
  "first_newline [] i = -1"
| "first_newline (c # cs) i = (if c = CHR 0x0A then int i else first_newline cs (i + 1))"

definition QUndoCommand_setText :: "'c QUndoCommand \<Rightarrow> string \<Rightarrow> 'c QUndoCommand" where
  "QUndoCommand_setText cmd txt =
    (let cdpos = first_newline txt 0 in
     if cdpos > 0 then
       QUndoCommand (derived cmd) (take (nat cdpos) txt) (drop (nat cdpos + 1) txt) (child_list cmd)
     else QUndoCommand (derived cmd) txt txt (child_list cmd))"

definition new_QUndoCommand :: "'c option \<Rightarrow> 'c QUndoCommand" where
  "new_QUndoCommand c = QUndoCommand c [] [] []"

definition new_QUndoCommand_text :: "'c option \<Rightarrow> string \<Rightarrow> 'c QUndoCommand" where
  "new_QUndoCommand_text c txt = QUndoCommand_setText (new_QUndoCommand c) txt"

text \<open>The constructors with a parent append the command to the parent's children.\<close>

definition append_child :: "'c QUndoCommand \<Rightarrow> 'c QUndoCommand \<Rightarrow> 'c QUndoCommand" where
  "append_child parent cmd =
    QUndoCommand (derived parent) (cmd_text parent) (cmd_actionText parent) (child_list parent @ [cmd])"

fun QUndoCommand_redo :: "('c, 'd) command_class \<Rightarrow> 'c QUndoCommand \<Rightarrow> 'd \<Rightarrow> 'd"
  and redo_children :: "('c, 'd) command_class \<Rightarrow> 'c QUndoCommand list \<Rightarrow> 'd \<Rightarrow> 'd" where
  "QUndoCommand_redo ops (QUndoCommand c t a cs) doc =
    (case c of None \<Rightarrow> redo_children ops cs doc
     | Some c \<Rightarrow> op_redo ops c (redo_children ops cs) doc)"
| "redo_children ops [] doc = doc"
| "redo_children ops (x # xs) doc = redo_children ops xs (QUndoCommand_redo ops x doc)"

fun QUndoCommand_undo :: "('c, 'd) command_class \<Rightarrow> 'c QUndoCommand \<Rightarrow> 'd \<Rightarrow> 'd"
  and undo_children :: "('c, 'd) command_class \<Rightarrow> 'c QUndoCommand list \<Rightarrow> 'd \<Rightarrow> 'd" where
  "QUndoCommand_undo ops (QUndoCommand c t a cs) doc =
    (case c of None \<Rightarrow> undo_children ops cs doc
     | Some c \<Rightarrow> op_undo ops c (undo_children ops cs) doc)"
| "undo_children ops [] doc = doc"
| "undo_children ops (x # xs) doc = QUndoCommand_undo ops x (undo_children ops xs doc)"

definition QUndoCommand_id :: "('c, 'd) command_class \<Rightarrow> 'c QUndoCommand \<Rightarrow> int" where
  "QUndoCommand_id ops cmd = (case derived cmd of None \<Rightarrow> -1 | Some c \<Rightarrow> op_id ops c)"

text \<open>\<open>mergeWith\<close> changes the command it is called on; the base class returns false (\<open>None\<close>).\<close>

definition QUndoCommand_mergeWith ::
  "('c, 'd) command_class \<Rightarrow> 'c QUndoCommand \<Rightarrow> 'c QUndoCommand \<Rightarrow> 'c QUndoCommand option" where
  "QUndoCommand_mergeWith ops cmd other =
    (case derived cmd of None \<Rightarrow> None | Some c \<Rightarrow> op_merge ops cmd other)"

definition QUndoCommand_childCount :: "'c QUndoCommand \<Rightarrow> int" where
  "QUndoCommand_childCount cmd = int (length (child_list cmd))"

definition QUndoCommand_child :: "'c QUndoCommand \<Rightarrow> int \<Rightarrow> 'c QUndoCommand option" where
  "QUndoCommand_child cmd i =
    (if i < 0 \<or> i \<ge> int (length (child_list cmd)) then None else Some (child_list cmd ! nat i))"

section \<open>The stack\<close>

record 'c QUndoStack =
  command_list :: "'c QUndoCommand list"
  macro_stack :: "nat list list"
  index :: int
  clean_index :: int
  group :: "nat option"
  undo_limit :: int

datatype undo_signal =
    indexChanged int
  | cleanChanged bool
  | canUndoChanged bool
  | canRedoChanged bool
  | undoTextChanged string
  | redoTextChanged string

definition new_QUndoStack :: "'c QUndoStack" where
  "new_QUndoStack = \<lparr>command_list = [], macro_stack = [], index = 0, clean_index = 0, group = None,
    undo_limit = 0\<rparr>"

definition QUndoStack_isClean :: "'c QUndoStack \<Rightarrow> bool" where
  "QUndoStack_isClean s = (if macro_stack s \<noteq> [] then False else clean_index s = index s)"

definition QUndoStack_canUndo :: "'c QUndoStack \<Rightarrow> bool" where
  "QUndoStack_canUndo s = (if macro_stack s \<noteq> [] then False else index s > 0)"

definition QUndoStack_canRedo :: "'c QUndoStack \<Rightarrow> bool" where
  "QUndoStack_canRedo s =
    (if macro_stack s \<noteq> [] then False else index s < int (length (command_list s)))"

definition QUndoStack_undoText :: "'c QUndoStack \<Rightarrow> string" where
  "QUndoStack_undoText s =
    (if macro_stack s \<noteq> [] then []
     else if index s > 0 then cmd_actionText (command_list s ! nat (index s - 1)) else [])"

definition QUndoStack_redoText :: "'c QUndoStack \<Rightarrow> string" where
  "QUndoStack_redoText s =
    (if macro_stack s \<noteq> [] then []
     else if index s < int (length (command_list s)) then cmd_actionText (command_list s ! nat (index s))
     else [])"

definition QUndoStack_count :: "'c QUndoStack \<Rightarrow> int" where
  "QUndoStack_count s = int (length (command_list s))"

definition QUndoStack_command :: "'c QUndoStack \<Rightarrow> int \<Rightarrow> 'c QUndoCommand option" where
  "QUndoStack_command s i =
    (if i < 0 \<or> i \<ge> int (length (command_list s)) then None else Some (command_list s ! nat i))"

definition QUndoStack_text :: "'c QUndoStack \<Rightarrow> int \<Rightarrow> string" where
  "QUndoStack_text s i =
    (if i < 0 \<or> i \<ge> int (length (command_list s)) then [] else cmd_text (command_list s ! nat i))"

text \<open>The five signals that report the position, with the values of the stack.\<close>

definition position_signals :: "'c QUndoStack \<Rightarrow> undo_signal list" where
  "position_signals s =
    [indexChanged (index s), canUndoChanged (QUndoStack_canUndo s), undoTextChanged (QUndoStack_undoText s),
     canRedoChanged (QUndoStack_canRedo s), redoTextChanged (QUndoStack_redoText s)]"

text \<open>\<open>QUndoStackPrivate::setIndex\<close> and \<open>checkUndoLimit\<close>.\<close>

definition private_setIndex :: "'c QUndoStack \<Rightarrow> int \<Rightarrow> bool \<Rightarrow> 'c QUndoStack \<times> undo_signal list" where
  "private_setIndex s idx clean =
    (let was_clean = (index s = clean_index s);
         s1 = (if idx \<noteq> index s then s\<lparr>index := idx\<rparr> else s);
         signals = (if idx \<noteq> index s then position_signals s1 else []);
         s2 = (if clean then s1\<lparr>clean_index := index s1\<rparr> else s1);
         is_clean = (index s2 = clean_index s2)
     in (s2, signals @ (if is_clean \<noteq> was_clean then [cleanChanged is_clean] else [])))"

definition checkUndoLimit :: "'c QUndoStack \<Rightarrow> 'c QUndoStack \<times> bool" where
  "checkUndoLimit s =
    (if undo_limit s \<le> 0 \<or> macro_stack s \<noteq> [] \<or> undo_limit s \<ge> int (length (command_list s)) then (s, False)
     else
       let del_count = int (length (command_list s)) - undo_limit s
       in (s\<lparr>command_list := drop (nat del_count) (command_list s),
             index := index s - del_count,
             clean_index :=
               (if clean_index s \<noteq> -1 then
                  (if clean_index s < del_count then -1 else clean_index s - del_count)
                else clean_index s)\<rparr>, True))"

definition QUndoStack_clear :: "'c QUndoStack \<Rightarrow> 'c QUndoStack \<times> undo_signal list" where
  "QUndoStack_clear s =
    (if command_list s = [] then (s, [])
     else
       let was_clean = QUndoStack_isClean s
       in (s\<lparr>macro_stack := [], command_list := [], index := 0, clean_index := 0\<rparr>,
           [indexChanged 0, canUndoChanged False, undoTextChanged [], canRedoChanged False,
            redoTextChanged []] @ (if \<not> was_clean then [cleanChanged True] else [])))"

text \<open>Reading and changing the command at a path.\<close>

fun command_at :: "nat list \<Rightarrow> 'c QUndoCommand list \<Rightarrow> 'c QUndoCommand option" where
  "command_at [] xs = None"
| "command_at [i] xs = (if i < length xs then Some (xs ! i) else None)"
| "command_at (i # p) xs = (if i < length xs then command_at p (child_list (xs ! i)) else None)"

fun update_at ::
  "nat list \<Rightarrow> ('c QUndoCommand \<Rightarrow> 'c QUndoCommand) \<Rightarrow> 'c QUndoCommand list \<Rightarrow> 'c QUndoCommand list" where
  "update_at [] f xs = xs"
| "update_at [i] f xs = (if i < length xs then xs[i := f (xs ! i)] else xs)"
| "update_at (i # p) f xs =
    (if i < length xs then
       xs[i := QUndoCommand (derived (xs ! i)) (cmd_text (xs ! i)) (cmd_actionText (xs ! i))
                 (update_at p f (child_list (xs ! i)))]
     else xs)"

text \<open>
  Dropping the commands after the current index, as \<open>push\<close> and \<open>beginMacro\<close> do outside a macro.
\<close>

definition drop_redo_commands :: "'c QUndoStack \<Rightarrow> 'c QUndoStack" where
  "drop_redo_commands s =
    s\<lparr>command_list := take (nat (index s)) (command_list s),
      clean_index := (if clean_index s > index s then -1 else clean_index s)\<rparr>"

definition QUndoStack_push ::
  "('c, 'd) command_class \<Rightarrow> 'c QUndoCommand \<Rightarrow> 'c QUndoStack \<times> 'd \<Rightarrow>
   ('c QUndoStack \<times> 'd) \<times> undo_signal list" where
  "QUndoStack_push ops cmd = (\<lambda>(s, doc).
    (let doc = QUndoCommand_redo ops cmd doc;
         macro = (macro_stack s \<noteq> []);
         macro_path = last (macro_stack s);
         siblings = (case command_at macro_path (command_list s) of None \<Rightarrow> [] | Some m \<Rightarrow> child_list m);
         cur = (if macro then (if siblings \<noteq> [] then Some (last siblings) else None)
                else if index s > 0 then Some (command_list s ! nat (index s - 1)) else None);
         cur_path = (if macro then macro_path @ [length siblings - 1] else [nat (index s - 1)]);
         s = (if macro then s else drop_redo_commands s);
         merged =
           (case cur of None \<Rightarrow> None
            | Some c \<Rightarrow>
                if QUndoCommand_id ops c \<noteq> -1 \<and> QUndoCommand_id ops c = QUndoCommand_id ops cmd
                   \<and> (macro \<or> index s \<noteq> clean_index s)
                then QUndoCommand_mergeWith ops c cmd else None)
     in case merged of
          Some c \<Rightarrow>
            (let s = s\<lparr>command_list := update_at cur_path (\<lambda>_. c) (command_list s)\<rparr>
             in ((s, doc), if \<not> macro then position_signals s else []))
        | None \<Rightarrow>
            (if macro then
               ((s\<lparr>command_list := update_at macro_path (\<lambda>m. append_child m cmd) (command_list s)\<rparr>, doc), [])
             else
               (let s = s\<lparr>command_list := command_list s @ [cmd]\<rparr>;
                    s = fst (checkUndoLimit s);
                    (s, signals) = private_setIndex s (index s + 1) False
                in ((s, doc), signals)))))"

definition QUndoStack_setClean :: "'c QUndoStack \<Rightarrow> 'c QUndoStack \<times> undo_signal list" where
  "QUndoStack_setClean s =
    (if macro_stack s \<noteq> [] then (s, []) else private_setIndex s (index s) True)"

definition QUndoStack_undo ::
  "('c, 'd) command_class \<Rightarrow> 'c QUndoStack \<times> 'd \<Rightarrow> ('c QUndoStack \<times> 'd) \<times> undo_signal list" where
  "QUndoStack_undo ops = (\<lambda>(s, doc).
    (if index s = 0 then ((s, doc), [])
     else if macro_stack s \<noteq> [] then ((s, doc), [])
     else
       (let idx = index s - 1;
            doc = QUndoCommand_undo ops (command_list s ! nat idx) doc;
            (s, signals) = private_setIndex s idx False
        in ((s, doc), signals))))"

definition QUndoStack_redo ::
  "('c, 'd) command_class \<Rightarrow> 'c QUndoStack \<times> 'd \<Rightarrow> ('c QUndoStack \<times> 'd) \<times> undo_signal list" where
  "QUndoStack_redo ops = (\<lambda>(s, doc).
    (if index s = int (length (command_list s)) then ((s, doc), [])
     else if macro_stack s \<noteq> [] then ((s, doc), [])
     else
       (let doc = QUndoCommand_redo ops (command_list s ! nat (index s)) doc;
            (s, signals) = private_setIndex s (index s + 1) False
        in ((s, doc), signals))))"

text \<open>The two loops of the slot \<open>setIndex\<close>.\<close>

function redo_to :: "('c, 'd) command_class \<Rightarrow> 'c QUndoCommand list \<Rightarrow> int \<Rightarrow> int \<Rightarrow> 'd \<Rightarrow> int \<times> 'd" where
  "redo_to ops cmds i idx doc =
    (if i < idx then redo_to ops cmds (i + 1) idx (QUndoCommand_redo ops (cmds ! nat i) doc) else (i, doc))"
  by pat_completeness auto
termination by (relation "measure (\<lambda>(ops, cmds, i, idx, doc). nat (idx - i))") auto

function undo_to :: "('c, 'd) command_class \<Rightarrow> 'c QUndoCommand list \<Rightarrow> int \<Rightarrow> int \<Rightarrow> 'd \<Rightarrow> int \<times> 'd" where
  "undo_to ops cmds i idx doc =
    (if i > idx then undo_to ops cmds (i - 1) idx (QUndoCommand_undo ops (cmds ! nat (i - 1)) doc) else (i, doc))"
  by pat_completeness auto
termination by (relation "measure (\<lambda>(ops, cmds, i, idx, doc). nat (i - idx))") auto

declare redo_to.simps [simp del] undo_to.simps [simp del]

definition QUndoStack_setIndex ::
  "('c, 'd) command_class \<Rightarrow> int \<Rightarrow> 'c QUndoStack \<times> 'd \<Rightarrow> ('c QUndoStack \<times> 'd) \<times> undo_signal list" where
  "QUndoStack_setIndex ops idx = (\<lambda>(s, doc).
    (if macro_stack s \<noteq> [] then ((s, doc), [])
     else
       (let idx = (if idx < 0 then 0
                   else if idx > int (length (command_list s)) then int (length (command_list s)) else idx);
            (i, doc) = redo_to ops (command_list s) (index s) idx doc;
            (i, doc) = undo_to ops (command_list s) i idx doc;
            (s, signals) = private_setIndex s idx False
        in ((s, doc), signals))))"

definition QUndoStack_beginMacro :: "string \<Rightarrow> 'c QUndoStack \<Rightarrow> 'c QUndoStack \<times> undo_signal list" where
  "QUndoStack_beginMacro txt s =
    (let cmd = QUndoCommand_setText (new_QUndoCommand None) txt in
     if macro_stack s = [] then
       (let s = drop_redo_commands s;
            s = s\<lparr>command_list := command_list s @ [cmd]\<rparr>
        in (s\<lparr>macro_stack := [[length (command_list s) - 1]]\<rparr>,
            [canUndoChanged False, undoTextChanged [], canRedoChanged False, redoTextChanged []]))
     else
       (let path = last (macro_stack s);
            siblings = (case command_at path (command_list s) of None \<Rightarrow> [] | Some m \<Rightarrow> child_list m)
        in (s\<lparr>command_list := update_at path (\<lambda>m. append_child m cmd) (command_list s),
              macro_stack := macro_stack s @ [path @ [length siblings]]\<rparr>, [])))"

definition QUndoStack_endMacro :: "'c QUndoStack \<Rightarrow> 'c QUndoStack \<times> undo_signal list" where
  "QUndoStack_endMacro s =
    (if macro_stack s = [] then (s, [])
     else
       (let s = s\<lparr>macro_stack := butlast (macro_stack s)\<rparr> in
        if macro_stack s = [] then
          (let s = fst (checkUndoLimit s) in private_setIndex s (index s + 1) False)
        else (s, [])))"

definition QUndoStack_setUndoLimit :: "int \<Rightarrow> 'c QUndoStack \<Rightarrow> 'c QUndoStack" where
  "QUndoStack_setUndoLimit limit s =
    (if command_list s \<noteq> [] then s
     else if limit = undo_limit s then s
     else fst (checkUndoLimit (s\<lparr>undo_limit := limit\<rparr>)))"

section \<open>Runs of the stack\<close>

datatype 'c undo_op =
    Push "'c QUndoCommand"
  | Undo
  | Redo
  | SetIndex int
  | SetClean
  | BeginMacro string
  | EndMacro
  | Clear
  | SetUndoLimit int

fun undo_step ::
  "('c, 'd) command_class \<Rightarrow> 'c undo_op \<Rightarrow> 'c QUndoStack \<times> 'd \<Rightarrow>
   ('c QUndoStack \<times> 'd) \<times> undo_signal list" where
  "undo_step ops (Push cmd) sd = QUndoStack_push ops cmd sd"
| "undo_step ops Undo sd = QUndoStack_undo ops sd"
| "undo_step ops Redo sd = QUndoStack_redo ops sd"
| "undo_step ops (SetIndex i) sd = QUndoStack_setIndex ops i sd"
| "undo_step ops SetClean (s, doc) = (let (s, sig) = QUndoStack_setClean s in ((s, doc), sig))"
| "undo_step ops (BeginMacro txt) (s, doc) =
    (let (s, sig) = QUndoStack_beginMacro txt s in ((s, doc), sig))"
| "undo_step ops EndMacro (s, doc) = (let (s, sig) = QUndoStack_endMacro s in ((s, doc), sig))"
| "undo_step ops Clear (s, doc) = (let (s, sig) = QUndoStack_clear s in ((s, doc), sig))"
| "undo_step ops (SetUndoLimit n) (s, doc) = ((QUndoStack_setUndoLimit n s, doc), [])"

end
