(* ===== verification/UndoHistory.thy ===== *)
theory UndoHistory
  imports UndoStack
begin

text \<open>
  What an undo stack promises, for every sequence of its operations: the document is the one that
  redoing the commands below the index gives, the clean state is the document at the last
  \<open>setClean\<close>, and the signals report every change.  The laws of the application's commands are the
  documented ones: \<open>undo\<close> reverts \<open>redo\<close>, and a merged command does what the two commands do.
\<close>

section \<open>The interface of a reversible action\<close>

locale revertible =
  fixes redo :: "'x \<Rightarrow> 'd \<Rightarrow> 'd"
    and undo :: "'x \<Rightarrow> 'd \<Rightarrow> 'd"
    and lawful :: "'x \<Rightarrow> bool"
  assumes undo_redo: "lawful x \<Longrightarrow> undo x (redo x doc) = doc"
begin

lemma undo_redo_all: "list_all lawful xs \<Longrightarrow> foldr undo xs (fold redo xs doc) = doc"
  by (induction xs arbitrary: doc) (auto simp: undo_redo)

lemma undo_last:
  assumes "list_all lawful xs" "0 < i" "i \<le> length xs"
  shows "undo (xs ! (i - 1)) (fold redo (take i xs) doc) = fold redo (take (i - 1) xs) doc"
proof -
  have "take i xs = take (i - 1) xs @ [xs ! (i - 1)]"
    using assms take_Suc_conv_app_nth [of "i - 1" xs] by simp
  moreover have "lawful (xs ! (i - 1))" using assms by (simp add: list_all_length)
  ultimately show ?thesis using undo_redo by simp
qed

lemma redo_next:
  assumes "i < length xs"
  shows "redo (xs ! i) (fold redo (take i xs) doc) = fold redo (take (Suc i) xs) doc"
  using assms by (simp add: take_Suc_conv_app_nth)

end

text \<open>
  A command is lawful when the overrides of every derived command in its tree revert each other,
  given that the base implementation they may call does.
\<close>

fun lawful :: "('c, 'd) command_class \<Rightarrow> 'c QUndoCommand \<Rightarrow> bool" where
  "lawful ops (QUndoCommand c t a cs) \<longleftrightarrow>
    list_all (lawful ops) cs \<and>
    (\<forall>x. c = Some x \<longrightarrow> (\<forall>f g. (\<forall>s. g (f s) = s) \<longrightarrow>
      (\<forall>s. op_undo ops x g (op_redo ops x f s) = s)))"

definition lawful_merge :: "('c, 'd) command_class \<Rightarrow> bool" where
  "lawful_merge ops \<longleftrightarrow>
    (\<forall>cur cmd new. op_merge ops cur cmd = Some new \<longrightarrow> lawful ops cur \<longrightarrow> lawful ops cmd \<longrightarrow>
       lawful ops new \<and>
       (\<forall>doc. QUndoCommand_redo ops new doc = QUndoCommand_redo ops cmd (QUndoCommand_redo ops cur doc)))"

lemma redo_children_fold: "redo_children ops xs doc = fold (QUndoCommand_redo ops) xs doc"
  by (induction xs arbitrary: doc) simp_all

lemma undo_children_foldr: "undo_children ops xs doc = foldr (QUndoCommand_undo ops) xs doc"
  by (induction xs arbitrary: doc) simp_all

lemma command_undo_redo:
  "lawful ops cmd \<Longrightarrow> QUndoCommand_undo ops cmd (QUndoCommand_redo ops cmd doc) = doc"
  "list_all (lawful ops) cs \<Longrightarrow> undo_children ops cs (redo_children ops cs doc) = doc"
proof (induction ops cmd doc and ops cs doc rule: QUndoCommand_redo_redo_children.induct)
  case (1 ops c t a cs doc)
  then show ?case by (cases c) auto
qed simp_all

interpretation command: revertible "QUndoCommand_redo ops" "QUndoCommand_undo ops" "lawful ops"
  for ops :: "('c, 'd) command_class"
  by unfold_locales (rule command_undo_redo(1))

section \<open>Open macros\<close>

text \<open>
  The open macros are the last commands of their lists, each the last child of the one before, and
  are plain commands; \<open>last_path k\<close> is the path of the macro \<open>k\<close>.
\<close>

fun open_chain :: "nat \<Rightarrow> 'c QUndoCommand list \<Rightarrow> bool" where
  "open_chain 0 xs \<longleftrightarrow> True"
| "open_chain (Suc n) xs \<longleftrightarrow> xs \<noteq> [] \<and> derived (last xs) = None \<and> open_chain n (child_list (last xs))"

fun last_path :: "nat \<Rightarrow> 'c QUndoCommand list \<Rightarrow> nat list" where
  "last_path 0 xs = [length xs - 1]"
| "last_path (Suc n) xs = (length xs - 1) # last_path n (child_list (last xs))"

fun siblings_at :: "nat \<Rightarrow> 'c QUndoCommand list \<Rightarrow> 'c QUndoCommand list" where
  "siblings_at 0 xs = xs"
| "siblings_at (Suc n) xs = siblings_at n (child_list (last xs))"

text \<open>The list with the innermost list of children replaced.\<close>

fun with_siblings :: "nat \<Rightarrow> 'c QUndoCommand list \<Rightarrow> 'c QUndoCommand list \<Rightarrow> 'c QUndoCommand list" where
  "with_siblings 0 ys xs = ys"
| "with_siblings (Suc n) ys xs =
    butlast xs @ [QUndoCommand (derived (last xs)) (cmd_text (last xs)) (cmd_actionText (last xs))
      (with_siblings n ys (child_list (last xs)))]"

lemma last_path_not_Nil [simp]: "last_path n xs \<noteq> []"
  by (cases n) simp_all

lemma last_eq_nth: "xs \<noteq> [] \<Longrightarrow> xs ! (length xs - Suc 0) = last xs"
  by (simp add: last_conv_nth)

lemma update_last: "xs \<noteq> [] \<Longrightarrow> xs[length xs - Suc 0 := y] = butlast xs @ [y]"
  by (metis One_nat_def append_butlast_last_id length_butlast list_update_length)

lemma command_at_open:
  "open_chain (Suc n) xs \<Longrightarrow> \<exists>m. command_at (last_path n xs) xs = Some m \<and> child_list m = siblings_at (Suc n) xs"
proof (induction n arbitrary: xs)
  case 0
  then show ?case by (simp add: last_eq_nth)
next
  case (Suc n)
  obtain i p where p: "last_path n (child_list (last xs)) = i # p"
    by (metis last_path_not_Nil list.exhaust)
  show ?case using Suc.IH [of "child_list (last xs)"] Suc.prems p by (simp add: last_eq_nth)
qed

lemma update_at_append:
  "open_chain (Suc n) xs \<Longrightarrow>
    update_at (last_path n xs) (\<lambda>m. append_child m cmd) xs = with_siblings (Suc n) (siblings_at (Suc n) xs @ [cmd]) xs"
proof (induction n arbitrary: xs)
  case 0
  then show ?case by (simp add: last_eq_nth update_last append_child_def)
next
  case (Suc n)
  obtain i p where p: "last_path n (child_list (last xs)) = i # p"
    by (metis last_path_not_Nil list.exhaust)
  show ?case using Suc.IH [of "child_list (last xs)"] Suc.prems p by (simp add: last_eq_nth update_last)
qed

lemma update_at_merge:
  "open_chain (Suc n) xs \<Longrightarrow> siblings_at (Suc n) xs \<noteq> [] \<Longrightarrow>
    update_at (last_path n xs @ [length (siblings_at (Suc n) xs) - 1]) (\<lambda>_. c) xs =
    with_siblings (Suc n) (butlast (siblings_at (Suc n) xs) @ [c]) xs"
proof (induction n arbitrary: xs)
  case 0
  then show ?case by (simp add: last_eq_nth update_last)
next
  case (Suc n)
  obtain i p where p: "last_path n (child_list (last xs)) = i # p"
    by (metis last_path_not_Nil list.exhaust)
  show ?case using Suc.IH [of "child_list (last xs)"] Suc.prems p by (simp add: last_eq_nth update_last)
qed

lemma with_siblings_open:
  assumes "open_chain n xs"
  shows "open_chain n (with_siblings n ys xs)" "siblings_at n (with_siblings n ys xs) = ys"
    "k < n \<Longrightarrow> last_path k (with_siblings n ys xs) = last_path k xs"
    "n \<noteq> 0 \<Longrightarrow> butlast (with_siblings n ys xs) = butlast xs"
    "n \<noteq> 0 \<Longrightarrow> length (with_siblings n ys xs) = length xs"
  using assms
proof (induction n ys xs arbitrary: k rule: with_siblings.induct)
  case (2 n ys xs)
  { case 3
    then show ?case using 2 by (cases k) simp_all }
qed simp_all

lemma last_path_extend:
  assumes "open_chain (Suc n) xs"
  shows "last_path (Suc n) (with_siblings (Suc n) (siblings_at (Suc n) xs @ [cmd]) xs)
    = last_path n xs @ [length (siblings_at (Suc n) xs)]"
  using assms by (induction n arbitrary: xs) simp_all

lemma open_chain_extend:
  "open_chain n xs \<Longrightarrow> ys \<noteq> [] \<Longrightarrow> derived (last ys) = None \<Longrightarrow> open_chain (Suc n) (with_siblings n ys xs)"
  by (induction n arbitrary: xs) auto

lemma open_chain_less: "open_chain (Suc n) xs \<Longrightarrow> open_chain n xs"
  by (induction n arbitrary: xs) auto

text \<open>Appending to or merging into the innermost list acts on the document as one more command.\<close>

lemma redo_with_siblings:
  assumes "open_chain n xs" "\<And>d. redo_children ops ys d = f (redo_children ops (siblings_at n xs) d)"
  shows "redo_children ops (with_siblings n ys xs) d = f (redo_children ops xs d)"
  using assms
proof (induction n arbitrary: xs d)
  case (Suc n)
  have l: "xs = butlast xs @ [last xs]" and nn: "derived (last xs) = None" using Suc.prems by simp_all
  obtain t a cs where c: "last xs = QUndoCommand None t a cs" using nn by (cases "last xs") auto
  show ?case
    using Suc.IH [of cs] Suc.prems c
    by (subst (2) l) (simp add: redo_children_fold fold_append)
qed simp

lemma lawful_with_siblings:
  assumes "open_chain n xs" "list_all (lawful ops) xs" "list_all (lawful ops) ys"
  shows "list_all (lawful ops) (with_siblings n ys xs)"
  using assms
proof (induction n arbitrary: xs)
  case (Suc n)
  have l: "xs = butlast xs @ [last xs]" using Suc.prems by simp
  obtain t a cs where c: "last xs = QUndoCommand None t a cs"
    using Suc.prems by (cases "last xs") auto
  have "list_all (lawful ops) (butlast xs @ [last xs])" using Suc.prems(2) l by simp
  then show ?case using Suc.IH [of cs] Suc.prems c by simp
qed simp

lemma lawful_siblings:
  "open_chain n xs \<Longrightarrow> list_all (lawful ops) xs \<Longrightarrow> list_all (lawful ops) (siblings_at n xs)"
proof (induction n arbitrary: xs)
  case (Suc n)
  have "lawful ops (last xs)" using Suc.prems by (simp add: list_all_iff)
  moreover obtain t a cs where "last xs = QUndoCommand None t a cs"
    using Suc.prems by (cases "last xs") auto
  ultimately show ?case using Suc.IH [of cs] Suc.prems by simp
qed simp

declare open_chain.simps(2) [simp del] last_path.simps(2) [simp del]
  siblings_at.simps(2) [simp del] with_siblings.simps(2) [simp del]

section \<open>The invariant\<close>

definition stack_wf :: "'c QUndoStack \<Rightarrow> bool" where
  "stack_wf s \<longleftrightarrow>
    0 \<le> index s \<and> index s \<le> int (length (command_list s)) \<and>
    -1 \<le> clean_index s \<and> clean_index s \<le> int (length (command_list s)) \<and>
    (macro_stack s \<noteq> [] \<longrightarrow> int (length (command_list s)) = index s + 1 \<and> clean_index s \<le> index s) \<and>
    (undo_limit s > 0 \<longrightarrow>
      int (length (command_list s)) \<le> undo_limit s + (if macro_stack s = [] then 0 else 1)) \<and>
    macro_stack s = map (\<lambda>k. last_path k (command_list s)) [0..<length (macro_stack s)] \<and>
    open_chain (length (macro_stack s)) (command_list s)"

text \<open>
  \<open>history_ok\<close>: the document is the base document with the commands below the index redone (all of
  them while a macro is open), and \<open>saved\<close>, the document when the stack was last marked clean, is the
  base with the commands below the clean index redone.
\<close>

definition history_ok :: "('c, 'd) command_class \<Rightarrow> 'd \<Rightarrow> 'c QUndoStack \<Rightarrow> 'd \<Rightarrow> 'd \<Rightarrow> bool" where
  "history_ok ops base s doc saved \<longleftrightarrow>
    stack_wf s \<and> list_all (lawful ops) (command_list s) \<and>
    doc = redo_children ops
            (if macro_stack s = [] then take (nat (index s)) (command_list s) else command_list s) base \<and>
    (clean_index s \<noteq> -1 \<longrightarrow>
      saved = redo_children ops (take (nat (clean_index s)) (command_list s)) base)"

text \<open>The moves within the history, outside macros.\<close>

lemma redo_children_append: "redo_children ops (xs @ ys) d = redo_children ops ys (redo_children ops xs d)"
  by (simp add: redo_children_fold)

lemma undo_to_take:
  assumes "list_all (lawful ops) xs" "0 \<le> idx" "idx \<le> i" "i \<le> int (length xs)"
  shows "undo_to ops xs i idx (redo_children ops (take (nat i) xs) d) =
    (idx, redo_children ops (take (nat idx) xs) d)"
  using assms(3,4)
proof (induction i rule: int_ge_induct)
  case base
  then show ?case by (simp add: undo_to.simps)
next
  case (step i)
  have "nat (i + 1) - 1 = nat i" using step assms(2) by simp
  then have "QUndoCommand_undo ops (xs ! nat i) (redo_children ops (take (nat (i + 1)) xs) d) =
      redo_children ops (take (nat i) xs) d"
    using command.undo_last [OF assms(1), of "nat (i + 1)" d] step assms(2) by (simp add: redo_children_fold)
  then show ?case using step by (subst undo_to.simps) simp
qed

lemma redo_to_take:
  assumes "0 \<le> i" "i \<le> idx" "idx \<le> int (length xs)"
  shows "redo_to ops xs i idx (redo_children ops (take (nat i) xs) d) =
    (idx, redo_children ops (take (nat idx) xs) d)"
  using assms(2,1)
proof (induction i rule: int_le_induct)
  case base
  then show ?case by (simp add: redo_to.simps)
next
  case (step i)
  have "Suc (nat (i - 1)) = nat i" using step by simp
  then have "QUndoCommand_redo ops (xs ! nat (i - 1)) (redo_children ops (take (nat (i - 1)) xs) d) =
      redo_children ops (take (nat i) xs) d"
    using command.redo_next [of "nat (i - 1)" xs ops d] step assms(3) by (simp add: redo_children_fold)
  then show ?case using step by (subst redo_to.simps) simp
qed

lemma redo_to_stop: "idx \<le> i \<Longrightarrow> redo_to ops xs i idx d = (i, d)"
  by (simp add: redo_to.simps)

lemma undo_to_stop: "i \<le> idx \<Longrightarrow> undo_to ops xs i idx d = (i, d)"
  by (simp add: undo_to.simps)

lemma setIndex_moves:
  assumes "list_all (lawful ops) xs" "0 \<le> i" "i \<le> int (length xs)" "0 \<le> idx" "idx \<le> int (length xs)"
  shows "(case redo_to ops xs i idx (redo_children ops (take (nat i) xs) d) of
      (i, doc) \<Rightarrow> undo_to ops xs i idx doc) = (idx, redo_children ops (take (nat idx) xs) d)"
proof (cases "i \<le> idx")
  case True
  then show ?thesis using assms by (simp add: redo_to_take undo_to_stop)
next
  case False
  then show ?thesis using assms by (simp add: redo_to_stop undo_to_take)
qed

lemma private_setIndex_stack:
  "fst (private_setIndex s idx clean) = s\<lparr>index := idx, clean_index := (if clean then idx else clean_index s)\<rparr>"
  by (cases s) (auto simp: private_setIndex_def Let_def)

section \<open>Every operation keeps the history\<close>

text \<open>
  The end of \<open>push\<close> and of \<open>endMacro\<close>: the newest command is on the list above the index; the undo
  limit may drop the oldest one, which then belongs to the base document.
\<close>

lemma commit_top:
  assumes m: "macro_stack s = []" and i: "0 \<le> index s" "int (length (command_list s)) = index s + 1"
    and c: "-1 \<le> clean_index s" "clean_index s \<le> index s"
    and l: "undo_limit s > 0 \<longrightarrow> int (length (command_list s)) \<le> undo_limit s + 1"
    and law: "list_all (lawful ops) (command_list s)"
    and d: "doc = redo_children ops (command_list s) base"
    and sv: "clean_index s \<noteq> -1 \<longrightarrow> saved = redo_children ops (take (nat (clean_index s)) (command_list s)) base"
  defines "t \<equiv> fst (checkUndoLimit s)"
  shows "\<exists>base. history_ok ops base (fst (private_setIndex t (index t + 1) False)) doc saved"
proof (cases "undo_limit s \<le> 0 \<or> undo_limit s \<ge> int (length (command_list s))")
  case True
  then have "t = s" by (auto simp: t_def checkUndoLimit_def)
  then have "history_ok ops base (fst (private_setIndex t (index t + 1) False)) doc saved"
    using m i c l law d sv True by (auto simp: history_ok_def stack_wf_def private_setIndex_stack)
  then show ?thesis by blast
next
  case False
  then have del: "int (length (command_list s)) - undo_limit s = 1" using l by linarith
  let ?base = "redo_children ops (take 1 (command_list s)) base"
  let ?s = "fst (private_setIndex t (index t + 1) False)"
  obtain x xs where xs: "command_list s = x # xs" using i by (cases "command_list s") auto
  have t: "t = s\<lparr>command_list := xs, index := index s - 1,
      clean_index := (if clean_index s \<le> 0 then -1 else clean_index s - 1)\<rparr>"
    using False m del c xs by (auto simp: t_def checkUndoLimit_def Let_def)
  have "stack_wf ?s"
    using m i c l False del xs by (auto simp: t stack_wf_def private_setIndex_stack)
  moreover have "doc = redo_children ops xs ?base" using d xs by simp
  moreover have "clean_index s > 0 \<longrightarrow> saved = redo_children ops (take (nat (clean_index s - 1)) xs) ?base"
    using sv xs by (cases "nat (clean_index s)") (auto simp: nat_diff_distrib)
  ultimately have "history_ok ops ?base ?s doc saved"
    using law xs i m by (auto simp: history_ok_def t private_setIndex_stack)
  then show ?thesis by blast
qed

lemma position_kept:
  assumes "history_ok ops base s doc saved" "macro_stack s = []" "0 \<le> i" "i \<le> int (length (command_list s))"
  shows "history_ok ops base (fst (private_setIndex s i False))
    (redo_children ops (take (nat i) (command_list s)) base) saved"
  using assms by (auto simp: history_ok_def stack_wf_def private_setIndex_stack)

lemma history_undo:
  assumes "history_ok ops base s doc saved" "QUndoStack_undo ops (s, doc) = ((s', doc'), sig)"
  shows "history_ok ops base s' doc' saved"
proof (cases "index s = 0 \<or> macro_stack s \<noteq> []")
  case True
  then show ?thesis using assms by (auto simp: QUndoStack_undo_def split: if_splits)
next
  case False
  have h: "0 < index s" "index s \<le> int (length (command_list s))" "list_all (lawful ops) (command_list s)"
    "doc = redo_children ops (take (nat (index s)) (command_list s)) base"
    using assms(1) False by (auto simp: history_ok_def stack_wf_def)
  have "nat (index s) - 1 = nat (index s - 1)" using h(1) by simp
  then have "QUndoCommand_undo ops (command_list s ! nat (index s - 1)) doc
      = redo_children ops (take (nat (index s - 1)) (command_list s)) base"
    using command.undo_last [OF h(3), of "nat (index s)" base] h(1,2) unfolding h(4)
    by (simp add: redo_children_fold)
  then have "s' = fst (private_setIndex s (index s - 1) False)"
    "doc' = redo_children ops (take (nat (index s - 1)) (command_list s)) base"
    using assms(2) False by (auto simp: QUndoStack_undo_def Let_def split: prod.splits)
  then show ?thesis using position_kept [OF assms(1), of "index s - 1"] False h(1,2) by simp
qed

lemma history_redo:
  assumes "history_ok ops base s doc saved" "QUndoStack_redo ops (s, doc) = ((s', doc'), sig)"
  shows "history_ok ops base s' doc' saved"
proof (cases "index s = int (length (command_list s)) \<or> macro_stack s \<noteq> []")
  case True
  then show ?thesis using assms by (auto simp: QUndoStack_redo_def split: if_splits)
next
  case False
  have h: "0 \<le> index s" "index s < int (length (command_list s))"
    "doc = redo_children ops (take (nat (index s)) (command_list s)) base"
    using assms(1) False by (auto simp: history_ok_def stack_wf_def)
  have "nat (index s + 1) = Suc (nat (index s))" using h(1) by simp
  then have "QUndoCommand_redo ops (command_list s ! nat (index s)) doc
      = redo_children ops (take (nat (index s + 1)) (command_list s)) base"
    using command.redo_next [of "nat (index s)" "command_list s" ops base] h
    by (simp add: redo_children_fold)
  then have "s' = fst (private_setIndex s (index s + 1) False)"
    "doc' = redo_children ops (take (nat (index s + 1)) (command_list s)) base"
    using assms(2) False by (auto simp: QUndoStack_redo_def Let_def split: prod.splits)
  then show ?thesis using position_kept [OF assms(1), of "index s + 1"] False h(1,2) by simp
qed

lemma setIndex_result:
  assumes "history_ok ops base s doc saved" "macro_stack s = []"
    "QUndoStack_setIndex ops i (s, doc) = ((s', doc'), sig)"
  defines "idx \<equiv> (if i < 0 then 0 else if i > int (length (command_list s)) then int (length (command_list s)) else i)"
  shows "s' = fst (private_setIndex s idx False)"
    "doc' = redo_children ops (take (nat idx) (command_list s)) base"
proof -
  have h: "0 \<le> index s" "index s \<le> int (length (command_list s))" "list_all (lawful ops) (command_list s)"
    "doc = redo_children ops (take (nat (index s)) (command_list s)) base"
    using assms(1,2) by (auto simp: history_ok_def stack_wf_def)
  have "0 \<le> idx" "idx \<le> int (length (command_list s))" by (auto simp: idx_def)
  then have m: "(case redo_to ops (command_list s) (index s) idx doc of
      (i, doc) \<Rightarrow> undo_to ops (command_list s) i idx doc)
    = (idx, redo_children ops (take (nat idx) (command_list s)) base)"
    unfolding h(4) by (rule setIndex_moves [OF h(3,1,2)])
  have r: "QUndoStack_setIndex ops i (s, doc) =
    (case (case redo_to ops (command_list s) (index s) idx doc of
        (i, doc) \<Rightarrow> undo_to ops (command_list s) i idx doc) of
      (i, doc) \<Rightarrow> (case private_setIndex s idx False of (s, sig) \<Rightarrow> ((s, doc), sig)))"
    using assms(2) by (simp add: QUndoStack_setIndex_def Let_def idx_def case_prod_beta)
  show "s' = fst (private_setIndex s idx False)"
    "doc' = redo_children ops (take (nat idx) (command_list s)) base"
    using assms(3) unfolding r m by (auto split: prod.splits)
qed

lemma history_setIndex:
  assumes "history_ok ops base s doc saved" "QUndoStack_setIndex ops i (s, doc) = ((s', doc'), sig)"
  shows "history_ok ops base s' doc' saved"
proof (cases "macro_stack s = []")
  case True
  let ?idx = "if i < 0 then 0 else if i > int (length (command_list s)) then int (length (command_list s)) else i"
  have "0 \<le> ?idx" "?idx \<le> int (length (command_list s))" by auto
  from position_kept [OF assms(1) True this] show ?thesis
    using setIndex_result [OF assms(1) True assms(2)] by simp
next
  case False
  then show ?thesis using assms by (auto simp: QUndoStack_setIndex_def)
qed

lemma history_setClean:
  assumes "history_ok ops base s doc saved" "QUndoStack_setClean s = (s', sig)"
  shows "history_ok ops base s' doc (if macro_stack s = [] then doc else saved)"
proof (cases "macro_stack s = []")
  case True
  have "s' = fst (private_setIndex s (index s) True)"
    using assms(2) True by (simp add: QUndoStack_setClean_def)
  then show ?thesis
    using assms(1) True by (auto simp: history_ok_def stack_wf_def private_setIndex_stack)
qed (use assms in \<open>auto simp: QUndoStack_setClean_def\<close>)

lemma history_clear:
  assumes "history_ok ops base s doc saved" "QUndoStack_clear s = (s', sig)"
  shows "\<exists>base. history_ok ops base s' doc (if command_list s = [] then saved else doc)"
proof (cases "command_list s = []")
  case True
  then show ?thesis using assms by (auto simp: QUndoStack_clear_def)
next
  case False
  then have "s' = s\<lparr>macro_stack := [], command_list := [], index := 0, clean_index := 0\<rparr>"
    using assms(2) by (simp add: QUndoStack_clear_def Let_def)
  then have "history_ok ops doc s' doc doc" by (auto simp: history_ok_def stack_wf_def)
  then show ?thesis using False by auto
qed

lemma history_setUndoLimit:
  assumes "history_ok ops base s doc saved"
  shows "history_ok ops base (QUndoStack_setUndoLimit n s) doc saved"
  using assms
  by (auto simp: QUndoStack_setUndoLimit_def checkUndoLimit_def history_ok_def stack_wf_def)

lemma macro_last:
  assumes "stack_wf s" "macro_stack s \<noteq> []"
  obtains n where "length (macro_stack s) = Suc n" "last (macro_stack s) = last_path n (command_list s)"
    "open_chain (Suc n) (command_list s)"
    "(case command_at (last (macro_stack s)) (command_list s) of None \<Rightarrow> [] | Some m \<Rightarrow> child_list m)
      = siblings_at (Suc n) (command_list s)"
proof -
  obtain n where n: "length (macro_stack s) = Suc n" using assms(2) by (cases "macro_stack s") auto
  have m: "macro_stack s = map (\<lambda>k. last_path k (command_list s)) [0..<Suc n]"
    and o: "open_chain (Suc n) (command_list s)"
    using assms(1) n by (auto simp: stack_wf_def)
  have l: "last (macro_stack s) = last_path n (command_list s)" by (subst m) simp
  show thesis using command_at_open [OF o] by (intro that [OF n l o]) (auto simp: l)
qed

text \<open>A change of the innermost open list that acts on the document as \<open>f\<close>.\<close>

lemma macro_update:
  assumes h: "history_ok ops base s doc saved" and n: "length (macro_stack s) = Suc n"
    and y: "\<And>d. redo_children ops ys d = f (redo_children ops (siblings_at (Suc n) (command_list s)) d)"
      "list_all (lawful ops) ys"
  shows "history_ok ops base (s\<lparr>command_list := with_siblings (Suc n) ys (command_list s)\<rparr>) (f doc) saved"
proof -
  let ?xs = "command_list s" and ?ws = "with_siblings (Suc n) ys (command_list s)"
  have m: "macro_stack s = map (\<lambda>k. last_path k ?xs) [0..<Suc n]" "macro_stack s \<noteq> []"
    and o: "open_chain (Suc n) ?xs" and w: "stack_wf s" and law: "list_all (lawful ops) ?xs"
    and d: "doc = redo_children ops ?xs base"
    using h n by (auto simp: history_ok_def stack_wf_def)
  note ws = with_siblings_open [OF o, where ys = ys]
  have p: "map (\<lambda>k. last_path k ?ws) [0..<Suc n] = map (\<lambda>k. last_path k ?xs) [0..<Suc n]"
    using ws(3) by (intro map_cong) auto
  have c: "int (length ?xs) = index s + 1" "clean_index s \<le> index s" "0 \<le> index s" using w m(2) by (auto simp: stack_wf_def)
  have t: "take (nat (clean_index s)) ?ws = take (nat (clean_index s)) ?xs"
  proof -
    have "take k zs = take k (butlast zs)" if "k < length zs" for k and zs :: "'a QUndoCommand list"
      using that by (simp add: take_butlast)
    moreover have "nat (clean_index s) < length ?xs" using c by linarith
    ultimately show ?thesis using ws(4,5) by simp
  qed
  have "stack_wf (s\<lparr>command_list := ?ws\<rparr>)"
    using w m p ws(1,5) n c by (auto simp: stack_wf_def)
  moreover have "redo_children ops ?ws base = f doc"
    using redo_with_siblings [OF o y(1)] d by simp
  ultimately show ?thesis
    using h lawful_with_siblings [OF o law y(2)] t m(2) by (auto simp: history_ok_def)
qed

lemma macro_extend:
  assumes h: "history_ok ops base s doc saved" and n: "length (macro_stack s) = Suc n"
    and o: "open_chain (Suc (Suc n)) (command_list s)"
  shows "history_ok ops base
    (s\<lparr>macro_stack := macro_stack s @ [last_path (Suc n) (command_list s)]\<rparr>) doc saved"
proof -
  have m: "macro_stack s = map (\<lambda>k. last_path k (command_list s)) [0..<Suc n]" "macro_stack s \<noteq> []"
    using h n by (auto simp: history_ok_def stack_wf_def)
  have "macro_stack s @ [last_path (Suc n) (command_list s)]
      = map (\<lambda>k. last_path k (command_list s)) [0..<Suc (Suc n)]"
    by (subst m) simp
  then show ?thesis
    using h n o m(2) unfolding history_ok_def stack_wf_def by auto
qed

lemma setText_plain:
  "derived (QUndoCommand_setText (new_QUndoCommand None) txt) = None"
  "child_list (QUndoCommand_setText (new_QUndoCommand None) txt) = []"
  by (simp_all add: QUndoCommand_setText_def new_QUndoCommand_def Let_def)

lemma plain_empty:
  assumes "derived cmd = None" "child_list cmd = []"
  shows "QUndoCommand_redo ops cmd = id" "lawful ops cmd"
  using assms by (cases cmd; auto)+

lemma drop_redo_fields:
  "command_list (drop_redo_commands s) = take (nat (index s)) (command_list s)"
  "clean_index (drop_redo_commands s) = (if clean_index s > index s then -1 else clean_index s)"
  "macro_stack (drop_redo_commands s) = macro_stack s" "index (drop_redo_commands s) = index s"
  "undo_limit (drop_redo_commands s) = undo_limit s"
  by (simp_all add: drop_redo_commands_def)

lemma list_all_take: "list_all P xs \<Longrightarrow> list_all P (take n xs)"
  by (auto simp: list_all_iff dest: in_set_takeD)

lemma history_beginMacro:
  assumes h: "history_ok ops base s doc saved" and b: "QUndoStack_beginMacro txt s = (s', sig)"
  shows "history_ok ops base s' doc saved"
proof -
  let ?cmd = "QUndoCommand_setText (new_QUndoCommand None) txt :: 'a QUndoCommand"
  note plain = plain_empty [OF setText_plain [of "txt"], of ops]
  show ?thesis
  proof (cases "macro_stack s = []")
    case True
    then have s': "s' = (let s = drop_redo_commands s;
            s = s\<lparr>command_list := command_list s @ [?cmd]\<rparr>
        in s\<lparr>macro_stack := [[length (command_list s) - 1]]\<rparr>)"
      using b by (simp add: QUndoStack_beginMacro_def Let_def)
    have "list_all (lawful ops) (take (nat (index s)) (command_list s))"
      using h by (auto simp: history_ok_def list_all_take)
    then show ?thesis
      using h True plain setText_plain unfolding s' Let_def
      by (auto simp: history_ok_def stack_wf_def drop_redo_fields redo_children_append min_def
          open_chain.simps(2))
  next
    case False
    have "stack_wf s" using h by (simp add: history_ok_def)
    then obtain n where n: "length (macro_stack s) = Suc n"
      "last (macro_stack s) = last_path n (command_list s)" "open_chain (Suc n) (command_list s)"
      "(case command_at (last (macro_stack s)) (command_list s) of None \<Rightarrow> [] | Some m \<Rightarrow> child_list m)
        = siblings_at (Suc n) (command_list s)"
      using macro_last False by blast
    let ?ys = "siblings_at (Suc n) (command_list s) @ [?cmd]"
    let ?t = "s\<lparr>command_list := with_siblings (Suc n) ?ys (command_list s)\<rparr>"
    have law: "list_all (lawful ops) (command_list s)" using h by (simp add: history_ok_def)
    have "redo_children ops ?ys d = id (redo_children ops (siblings_at (Suc n) (command_list s)) d)" for d
      using plain(1) by (simp add: redo_children_append)
    moreover have "list_all (lawful ops) ?ys" using plain(2) lawful_siblings [OF n(3) law] by simp
    ultimately have t: "history_ok ops base ?t (id doc) saved" by (rule macro_update [OF h n(1)])
    have o: "open_chain (Suc (Suc n)) (command_list ?t)"
      using open_chain_extend [OF n(3), of ?ys] by (simp add: setText_plain)
    have "s' = ?t\<lparr>macro_stack := macro_stack ?t @ [last_path (Suc n) (command_list ?t)]\<rparr>"
      using b False n last_path_extend [OF n(3)]
      by (simp add: QUndoStack_beginMacro_def Let_def update_at_append)
    then show ?thesis using macro_extend [OF t _ o] n(1) by simp
  qed
qed

lemma history_endMacro:
  assumes h: "history_ok ops base s doc saved" and b: "QUndoStack_endMacro s = (s', sig)"
  shows "\<exists>base. history_ok ops base s' doc saved"
proof (cases "macro_stack s = []")
  case True
  then show ?thesis using h b by (auto simp: QUndoStack_endMacro_def)
next
  case ne: False
  have w: "stack_wf s" using h by (simp add: history_ok_def)
  then obtain n where n: "length (macro_stack s) = Suc n" "open_chain (Suc n) (command_list s)"
    using macro_last ne by metis
  let ?t = "s\<lparr>macro_stack := butlast (macro_stack s)\<rparr>"
  show ?thesis
  proof (cases "butlast (macro_stack s) = []")
    case True
    have "s' = fst (private_setIndex (fst (checkUndoLimit ?t)) (index (fst (checkUndoLimit ?t)) + 1) False)"
      using b ne True by (simp add: QUndoStack_endMacro_def Let_def)
    moreover have "\<exists>base. history_ok ops base
        (fst (private_setIndex (fst (checkUndoLimit ?t)) (index (fst (checkUndoLimit ?t)) + 1) False)) doc saved"
      by (rule commit_top) (use h w ne True in \<open>auto simp: history_ok_def stack_wf_def split: if_splits\<close>)
    ultimately show ?thesis by simp
  next
    case False
    have "s' = ?t" using b ne False by (simp add: QUndoStack_endMacro_def Let_def)
    have m: "macro_stack s = map (\<lambda>k. last_path k (command_list s)) [0..<Suc n]"
      using w n by (simp add: stack_wf_def)
    have "butlast (macro_stack s) = map (\<lambda>k. last_path k (command_list s)) [0..<n]"
      by (subst m) simp
    then have "history_ok ops base ?t doc saved"
      using h n open_chain_less [OF n(2)] False ne by (auto simp: history_ok_def stack_wf_def)
    then show ?thesis using \<open>s' = ?t\<close> by blast
  qed
qed

lemma merge_law:
  assumes "lawful_merge ops" "QUndoCommand_mergeWith ops cur cmd = Some c" "lawful ops cur" "lawful ops cmd"
  shows "lawful ops c" "QUndoCommand_redo ops c d = QUndoCommand_redo ops cmd (QUndoCommand_redo ops cur d)"
  using assms by (auto simp: lawful_merge_def QUndoCommand_mergeWith_def split: option.splits)

lemma push_macro:
  assumes h: "history_ok ops base s doc saved" and m: "macro_stack s \<noteq> []"
    and law: "lawful_merge ops" "lawful ops cmd"
    and b: "QUndoStack_push ops cmd (s, doc) = ((s', doc'), sig)"
  shows "history_ok ops base s' doc' saved"
proof -
  have w: "stack_wf s" and lc: "list_all (lawful ops) (command_list s)" using h by (auto simp: history_ok_def)
  obtain n where n: "length (macro_stack s) = Suc n"
    "last (macro_stack s) = last_path n (command_list s)" "open_chain (Suc n) (command_list s)"
    "(case command_at (last (macro_stack s)) (command_list s) of None \<Rightarrow> [] | Some m \<Rightarrow> child_list m)
      = siblings_at (Suc n) (command_list s)"
    using macro_last [OF w m] by blast
  let ?sib = "siblings_at (Suc n) (command_list s)"
  have ls: "list_all (lawful ops) ?sib" by (rule lawful_siblings [OF n(3) lc])
  let ?same_id = "QUndoCommand_id ops (last ?sib) \<noteq> -1 \<and> QUndoCommand_id ops (last ?sib) = QUndoCommand_id ops cmd"
  show ?thesis
  proof (cases "?sib \<noteq> [] \<and> ?same_id \<and> (\<exists>c. QUndoCommand_mergeWith ops (last ?sib) cmd = Some c)")
    case True
    then obtain c where c: "?sib \<noteq> []" "QUndoCommand_mergeWith ops (last ?sib) cmd = Some c" by blast
    let ?ys = "butlast ?sib @ [c]"
    have sib: "?sib = butlast ?sib @ [last ?sib]" using c(1) by simp
    have l: "lawful ops (last ?sib)" "list_all (lawful ops) (butlast ?sib)"
      using ls by (subst (asm) sib, simp)+
    note ml = merge_law [OF law(1) c(2) l(1) law(2)]
    have y: "redo_children ops ?ys d = QUndoCommand_redo ops cmd (redo_children ops ?sib d)" for d
      by (subst (2) sib) (simp add: redo_children_append ml(2))
    have "s' = s\<lparr>command_list := with_siblings (Suc n) ?ys (command_list s)\<rparr>"
      "doc' = QUndoCommand_redo ops cmd doc"
      using b m n c True update_at_merge [OF n(3) c(1), of c]
      by (simp_all add: QUndoStack_push_def Let_def)
    then show ?thesis using macro_update [OF h n(1) y] ml(1) l(2) by simp
  next
    case False
    have y: "redo_children ops (?sib @ [cmd]) d = QUndoCommand_redo ops cmd (redo_children ops ?sib d)" for d
      by (simp add: redo_children_append)
    have "s' = s\<lparr>command_list := with_siblings (Suc n) (?sib @ [cmd]) (command_list s)\<rparr>"
      "doc' = QUndoCommand_redo ops cmd doc"
      using b m n False update_at_append [OF n(3), of cmd]
      by (auto simp: QUndoStack_push_def Let_def split: if_splits option.splits)
    then show ?thesis using macro_update [OF h n(1) y] ls law(2) by simp
  qed
qed

lemma push_plain:
  assumes h: "history_ok ops base s doc saved" and m: "macro_stack s = []"
    and law: "lawful_merge ops" "lawful ops cmd"
    and b: "QUndoStack_push ops cmd (s, doc) = ((s', doc'), sig)"
  shows "\<exists>base. history_ok ops base s' doc' saved"
proof -
  define t where "t = drop_redo_commands s"
  define xs where "xs = take (nat (index s)) (command_list s)"
  have w: "0 \<le> index s" "index s \<le> int (length (command_list s))" "-1 \<le> clean_index s"
    "undo_limit s > 0 \<longrightarrow> int (length (command_list s)) \<le> undo_limit s"
    and d: "doc = redo_children ops xs base" and lx: "list_all (lawful ops) xs"
    using h m by (auto simp: history_ok_def stack_wf_def xs_def list_all_take)
  have tf: "command_list t = xs" "index t = index s" "macro_stack t = []" "undo_limit t = undo_limit s"
    "-1 \<le> clean_index t" "clean_index t \<le> index s" "int (length xs) = index s"
    using w m by (auto simp: t_def xs_def drop_redo_fields min_def)
  have sv: "clean_index t \<noteq> -1 \<longrightarrow> saved = redo_children ops (take (nat (clean_index t)) xs) base"
    using h w by (auto simp: t_def xs_def drop_redo_fields history_ok_def min_def)
  let ?cur = "command_list s ! nat (index s - 1)"
  show ?thesis
  proof (cases "index s > 0 \<and> QUndoCommand_id ops ?cur \<noteq> -1 \<and> QUndoCommand_id ops ?cur = QUndoCommand_id ops cmd
      \<and> index t \<noteq> clean_index t \<and> (\<exists>c. QUndoCommand_mergeWith ops ?cur cmd = Some c)")
    case True
    then obtain c where c: "index s > 0" "index t \<noteq> clean_index t" "QUndoCommand_mergeWith ops ?cur cmd = Some c"
      by blast
    let ?k = "nat (index s - 1)"
    have k: "?k < length xs" "length xs = Suc ?k" "xs ! ?k = ?cur" using c(1) tf(7) w(2) by (auto simp: xs_def)
    then have xe: "xs = take ?k xs @ [?cur]" using take_Suc_conv_app_nth [OF k(1)] by simp
    have lc: "lawful ops ?cur" "list_all (lawful ops) (take ?k xs)"
      using lx k by (auto simp: list_all_length list_all_take)
    note ml = merge_law [OF law(1) c(3) lc(1) law(2)]
    have r: "update_at [?k] (\<lambda>_. c) xs = take ?k xs @ [c]"
      using k by (simp add: upd_conv_take_nth_drop)
    define ys where "ys = take ?k xs @ [c]"
    have s': "s' = t\<lparr>command_list := ys\<rparr>" "doc' = QUndoCommand_redo ops cmd doc"
      using b m True c r
      by (auto simp: QUndoStack_push_def Let_def tf t_def [symmetric] ys_def split: option.splits)
    have "doc' = redo_children ops ys base"
      unfolding s'(2) d ys_def by (subst xe) (simp add: redo_children_append ml(2))
    moreover have "take (nat (clean_index t)) ys = take (nat (clean_index t)) xs"
      using c(2) tf(2,5,6) k by (simp add: min_def ys_def)
    moreover have ly: "length ys = length xs" "list_all (lawful ops) ys"
      using k lc(2) ml(1) by (auto simp: ys_def)
    moreover have "take (nat (index s)) ys = ys" using ly(1) tf(7) by simp
    moreover have "stack_wf (t\<lparr>command_list := ys\<rparr>)" using tf w ly(1) by (auto simp: stack_wf_def)
    ultimately have "history_ok ops base s' doc' saved"
      using tf(2,3) sv by (simp add: history_ok_def s'(1))
    then show ?thesis by blast
  next
    case False
    let ?t = "t\<lparr>command_list := xs @ [cmd]\<rparr>"
    have s': "s' = fst (private_setIndex (fst (checkUndoLimit ?t)) (index (fst (checkUndoLimit ?t)) + 1) False)"
      "doc' = QUndoCommand_redo ops cmd doc"
      using b m False
      by (auto simp: QUndoStack_push_def Let_def tf t_def [symmetric] split: option.splits if_splits prod.splits)
    show ?thesis
      unfolding s' by (rule commit_top) (use tf sv w lx law(2) d in \<open>auto simp: redo_children_append\<close>)
  qed
qed

section \<open>Reachable stacks\<close>

fun lawful_op :: "('c, 'd) command_class \<Rightarrow> 'c undo_op \<Rightarrow> bool" where
  "lawful_op ops (Push cmd) \<longleftrightarrow> lawful ops cmd"
| "lawful_op ops _ \<longleftrightarrow> True"

text \<open>The document at the last moment the stack was marked clean.\<close>

fun saved_after :: "'c undo_op \<Rightarrow> 'c QUndoStack \<Rightarrow> 'd \<Rightarrow> 'd \<Rightarrow> 'd" where
  "saved_after SetClean s doc saved = (if macro_stack s = [] then doc else saved)"
| "saved_after Clear s doc saved = (if command_list s = [] then saved else doc)"
| "saved_after _ s doc saved = saved"

text \<open>
  A stack, its document and the saved document, reached from the new stack on a document by any
  sequence of operations with lawful commands.
\<close>

inductive undo_reachable :: "('c, 'd) command_class \<Rightarrow> 'c QUndoStack \<Rightarrow> 'd \<Rightarrow> 'd \<Rightarrow> bool"
  for ops :: "('c, 'd) command_class" where
  start: "undo_reachable ops new_QUndoStack doc doc"
| step: "undo_reachable ops s doc saved \<Longrightarrow> lawful_op ops op \<Longrightarrow>
    undo_step ops op (s, doc) = ((s', doc'), sig) \<Longrightarrow>
    undo_reachable ops s' doc' (saved_after op s doc saved)"

lemma history_step:
  assumes h: "history_ok ops base s doc saved" and law: "lawful_merge ops" "lawful_op ops op"
    and b: "undo_step ops op (s, doc) = ((s', doc'), sig)"
  shows "\<exists>base. history_ok ops base s' doc' (saved_after op s doc saved)"
proof (cases op)
  case (Push cmd)
  then show ?thesis
    using push_macro [OF h _ law(1)] push_plain [OF h _ law(1)] law(2) b
    by (cases "macro_stack s = []") (auto, blast)
next
  case Undo
  then show ?thesis using history_undo [OF h] b by auto
next
  case Redo
  then show ?thesis using history_redo [OF h] b by auto
next
  case (SetIndex i)
  then have "QUndoStack_setIndex ops i (s, doc) = ((s', doc'), sig)" using b by simp
  from history_setIndex [OF h this] show ?thesis using SetIndex by auto
next
  case SetClean
  then show ?thesis using history_setClean [OF h] b by (auto split: prod.splits)
next
  case (BeginMacro t)
  then show ?thesis using history_beginMacro [OF h] b by (auto split: prod.splits)
next
  case EndMacro
  then show ?thesis using history_endMacro [OF h] b by (auto split: prod.splits)
next
  case Clear
  then show ?thesis using history_clear [OF h] b by (auto split: prod.splits)
next
  case (SetUndoLimit n)
  then show ?thesis using history_setUndoLimit [OF h] b by auto
qed

lemma history_reachable:
  assumes "undo_reachable ops s doc saved" "lawful_merge ops"
  shows "\<exists>base. history_ok ops base s doc saved"
  using assms(1)
proof (induction rule: undo_reachable.induct)
  case (start doc)
  have "history_ok ops doc new_QUndoStack doc doc"
    by (simp add: history_ok_def stack_wf_def new_QUndoStack_def)
  then show ?case by blast
next
  case (step s doc saved op s' doc' sig)
  then show ?case using history_step [OF _ assms(2)] by blast
qed

section \<open>What the stack promises\<close>

text \<open>A command class used by the witnesses: adding a number to a number, with compression.\<close>

definition add_class :: "(int, int) command_class" where
  "add_class = \<lparr>op_redo = (\<lambda>c base d. d + c), op_undo = (\<lambda>c base d. d - c), op_id = (\<lambda>c. 1),
    op_merge = (\<lambda>cur cmd. case (derived cur, derived cmd) of
      (Some a, Some b) \<Rightarrow> Some (QUndoCommand (Some (a + b)) (cmd_text cur) (cmd_actionText cur) [])
    | _ \<Rightarrow> None)\<rparr>"

definition add_command :: "int \<Rightarrow> int QUndoCommand" where
  "add_command n = QUndoCommand (Some n) ''add'' ''add'' []"

lemma add_class_ops:
  "op_redo add_class = (\<lambda>c base d. d + c)" "op_undo add_class = (\<lambda>c base d. d - c)"
  "op_id add_class = (\<lambda>c. 1)"
  "op_merge add_class = (\<lambda>cur cmd. case (derived cur, derived cmd) of
      (Some a, Some b) \<Rightarrow> Some (QUndoCommand (Some (a + b)) (cmd_text cur) (cmd_actionText cur) [])
    | _ \<Rightarrow> None)"
  by (simp_all add: add_class_def)

lemma add_class_merge:
  assumes "op_merge add_class cur cmd = Some new"
  shows "lawful add_class new" "QUndoCommand_redo add_class new doc =
    QUndoCommand_redo add_class cmd (QUndoCommand_redo add_class cur doc)"
  using assms by (cases cur; cases cmd; auto simp: add_class_ops split: option.splits)+

lemma add_class_lawful: "lawful_merge add_class" "lawful add_class (add_command n)"
  using add_class_merge by (auto simp: lawful_merge_def add_command_def add_class_ops)

text \<open>
  C9: in every reachable stack the index lies between 0 and the number of commands, the clean index is
  -1 or in the same range, while a macro is open it is the command right above the index and each open
  macro is the last child of the enclosing one, and an undo limit bounds the number of commands.
\<close>

theorem undo_stack_invariant:
  assumes "undo_reachable ops s doc saved" "lawful_merge ops"
  shows "0 \<le> index s \<and> index s \<le> QUndoStack_count s \<and> -1 \<le> clean_index s \<and> clean_index s \<le> QUndoStack_count s
    \<and> (macro_stack s \<noteq> [] \<longrightarrow> QUndoStack_count s = index s + 1)
    \<and> macro_stack s = map (\<lambda>k. last_path k (command_list s)) [0..<length (macro_stack s)]
    \<and> (undo_limit s > 0 \<and> macro_stack s = [] \<longrightarrow> QUndoStack_count s \<le> undo_limit s)"
  using history_reachable [OF assms] by (auto simp: history_ok_def stack_wf_def QUndoStack_count_def)

text \<open>
  C7: the clean state: whenever \<open>isClean\<close> returns true, the document is the one it was when the stack
  was last marked clean (by \<open>setClean\<close>, \<open>clear\<close> or at its creation), whatever was pushed, merged,
  undone, redone, grouped in macros or dropped by the undo limit since then.
\<close>

theorem undo_clean_document:
  assumes "undo_reachable ops s doc saved" "lawful_merge ops" "QUndoStack_isClean s"
  shows "doc = saved"
  using history_reachable [OF assms(1,2)] assms(3)
  by (auto simp: history_ok_def stack_wf_def QUndoStack_isClean_def split: if_splits)

text \<open>
  C8: the history: outside macros there is a base document from which redoing the first \<open>index\<close>
  commands gives the document, and \<open>setIndex(i)\<close> from anywhere leads to the base with the first \<open>i\<close>
  commands redone (\<open>i\<close> clipped to the range), so that the way taken does not matter.
\<close>

theorem undo_setIndex_history:
  assumes "undo_reachable ops s doc saved" "lawful_merge ops" "macro_stack s = []"
  shows "\<exists>base. doc = redo_children ops (take (nat (index s)) (command_list s)) base \<and>
    (\<forall>i. let idx = max 0 (min i (QUndoStack_count s)); r = fst (QUndoStack_setIndex ops i (s, doc)) in
       index (fst r) = idx \<and> command_list (fst r) = command_list s \<and>
       snd r = redo_children ops (take (nat idx) (command_list s)) base)"
proof -
  obtain base where h: "history_ok ops base s doc saved" using history_reachable [OF assms(1,2)] by blast
  have "let idx = max 0 (min i (QUndoStack_count s)); r = fst (QUndoStack_setIndex ops i (s, doc)) in
       index (fst r) = idx \<and> command_list (fst r) = command_list s \<and>
       snd r = redo_children ops (take (nat idx) (command_list s)) base" for i
  proof -
    have e: "(if i < 0 then 0 else if i > int (length (command_list s)) then int (length (command_list s)) else i)
      = max 0 (min i (QUndoStack_count s))"
      by (auto simp: QUndoStack_count_def)
    obtain s' doc' sig where r: "QUndoStack_setIndex ops i (s, doc) = ((s', doc'), sig)"
      by (metis prod.collapse)
    show ?thesis
      using setIndex_result [OF h assms(3) r] unfolding e r Let_def by (simp add: private_setIndex_stack)
  qed
  then show ?thesis using h assms(3) by (auto simp: history_ok_def)
qed

text \<open>The run of the witnesses: push 3, mark clean, push 4, push 5 (merged into 4), undo.\<close>

definition demo_stack :: "int QUndoStack" where
  "demo_stack = \<lparr>command_list = [add_command 3, add_command 9], macro_stack = [], index = 1,
    clean_index = 1, group = None, undo_limit = 0\<rparr>"

lemma run_step:
  assumes "undo_reachable ops s doc saved" "lawful_op ops op"
    "fst (undo_step ops op (s, doc)) = (s', doc')" "saved_after op s doc saved = saved'"
  shows "undo_reachable ops s' doc' saved'"
  using undo_reachable.step [OF assms(1,2), of s' doc' "snd (undo_step ops op (s, doc))"] assms(3,4)
  by (metis prod.collapse)

lemma demo_reachable: "undo_reachable add_class demo_stack (22 - 9) 13"
proof -
  note simps = QUndoStack_push_def Let_def add_command_def add_class_ops new_QUndoStack_def
    checkUndoLimit_def drop_redo_commands_def QUndoCommand_id_def QUndoCommand_mergeWith_def
    private_setIndex_def QUndoStack_setClean_def QUndoStack_undo_def demo_stack_def
  define s where "s xs i c = (new_QUndoStack\<lparr>command_list := map add_command xs, index := i, clean_index := c\<rparr>)"
    for xs i c
  have "undo_reachable add_class (s [] 0 0) (10::int) 10"
    using undo_reachable.start [of add_class "10::int"] by (simp add: s_def new_QUndoStack_def)
  then have "undo_reachable add_class (s [3] 1 0) 13 10"
    by (rule run_step [where op = "Push (add_command 3)"]) (simp add: add_class_lawful, simp_all add: simps s_def)
  then have "undo_reachable add_class (s [3] 1 1) 13 13"
    by (rule run_step [where op = SetClean]) (simp_all add: simps s_def)
  then have "undo_reachable add_class (s [3, 4] 2 1) 17 13"
    by (rule run_step [where op = "Push (add_command 4)"]) (simp add: add_class_lawful, simp_all add: simps s_def)
  then have "undo_reachable add_class (s [3, 9] 2 1) 22 13"
    by (rule run_step [where op = "Push (add_command 5)"]) (simp add: add_class_lawful, simp_all add: simps s_def)
  then have "undo_reachable add_class (s [3, 9] 1 1) (22 - 9) 13"
    by (rule run_step [where op = Undo]) (simp_all add: simps s_def)
  then show ?thesis by (simp add: s_def demo_stack_def new_QUndoStack_def)
qed

theorem undo_stack_invariant_witness:
  "0 \<le> index demo_stack \<and> index demo_stack \<le> QUndoStack_count demo_stack \<and> -1 \<le> clean_index demo_stack
    \<and> clean_index demo_stack \<le> QUndoStack_count demo_stack"
  using undo_stack_invariant [OF demo_reachable add_class_lawful(1)] by blast

theorem undo_clean_document_witness: "QUndoStack_isClean demo_stack \<and> (22 - 9 :: int) = 13"
  by (rule conjI, simp add: QUndoStack_isClean_def demo_stack_def,
      rule undo_clean_document [OF demo_reachable add_class_lawful(1)],
      simp add: QUndoStack_isClean_def demo_stack_def)

theorem undo_setIndex_history_witness:
  "\<exists>base. 22 - 9 = redo_children add_class (take (nat (index demo_stack)) (command_list demo_stack)) base \<and>
    (\<forall>i. let idx = max 0 (min i (QUndoStack_count demo_stack));
           r = fst (QUndoStack_setIndex add_class i (demo_stack, 22 - 9)) in
       index (fst r) = idx \<and> command_list (fst r) = command_list demo_stack \<and>
       snd r = redo_children add_class (take (nat idx) (command_list demo_stack)) base)"
  by (rule undo_setIndex_history [OF demo_reachable add_class_lawful(1)]) (simp add: demo_stack_def)

end
