(* ===== verification/UndoSignals.thy ===== *)
theory UndoSignals
  imports UndoHistory
begin

text \<open>
  The signals of \<open>QUndoStack\<close>: an observer (a view, the undo and redo actions) that starts from the
  values of the getters and only follows the signals always knows the current values.  Also here:
  \<open>QUndoAction\<close>, the action that shows the text.
\<close>

section \<open>An observer\<close>

record undo_observer =
  o_index :: int
  o_clean :: bool
  o_canUndo :: bool
  o_canRedo :: bool
  o_undoText :: string
  o_redoText :: string

fun observe :: "undo_signal \<Rightarrow> undo_observer \<Rightarrow> undo_observer" where
  "observe (indexChanged i) ob = ob\<lparr>o_index := i\<rparr>"
| "observe (cleanChanged b) ob = ob\<lparr>o_clean := b\<rparr>"
| "observe (canUndoChanged b) ob = ob\<lparr>o_canUndo := b\<rparr>"
| "observe (canRedoChanged b) ob = ob\<lparr>o_canRedo := b\<rparr>"
| "observe (undoTextChanged t) ob = ob\<lparr>o_undoText := t\<rparr>"
| "observe (redoTextChanged t) ob = ob\<lparr>o_redoText := t\<rparr>"

text \<open>
  The observer knows the stack.  The clean flag is the comparison of the two indices: \<open>isClean\<close> itself
  is also false while a macro is open, which no signal reports.
\<close>

definition knows :: "undo_observer \<Rightarrow> 'c QUndoStack \<Rightarrow> bool" where
  "knows ob s \<longleftrightarrow>
    o_index ob = index s \<and> o_clean ob = (clean_index s = index s) \<and>
    o_canUndo ob = QUndoStack_canUndo s \<and> o_canRedo ob = QUndoStack_canRedo s \<and>
    o_undoText ob = QUndoStack_undoText s \<and> o_redoText ob = QUndoStack_redoText s"

lemmas getter_defs = QUndoStack_canUndo_def QUndoStack_canRedo_def QUndoStack_undoText_def
  QUndoStack_redoText_def

lemma getters_clean_index [simp]:
  "QUndoStack_canUndo (s\<lparr>clean_index := c\<rparr>) = QUndoStack_canUndo s"
  "QUndoStack_canRedo (s\<lparr>clean_index := c\<rparr>) = QUndoStack_canRedo s"
  "QUndoStack_undoText (s\<lparr>clean_index := c\<rparr>) = QUndoStack_undoText s"
  "QUndoStack_redoText (s\<lparr>clean_index := c\<rparr>) = QUndoStack_redoText s"
  "QUndoStack_canUndo (s\<lparr>undo_limit := n\<rparr>) = QUndoStack_canUndo s"
  "QUndoStack_canRedo (s\<lparr>undo_limit := n\<rparr>) = QUndoStack_canRedo s"
  "QUndoStack_undoText (s\<lparr>undo_limit := n\<rparr>) = QUndoStack_undoText s"
  "QUndoStack_redoText (s\<lparr>undo_limit := n\<rparr>) = QUndoStack_redoText s"
  by (simp_all add: getter_defs)

lemma getters_macro [simp]:
  assumes "macro_stack s \<noteq> []"
  shows "QUndoStack_canUndo s = False" "QUndoStack_canRedo s = False" "QUndoStack_undoText s = []"
    "QUndoStack_redoText s = []"
  using assms by (simp_all add: getter_defs)

lemma getters_empty:
  assumes "command_list s = []" "index s = 0"
  shows "QUndoStack_canUndo s = False" "QUndoStack_canRedo s = False" "QUndoStack_undoText s = []"
    "QUndoStack_redoText s = []"
  using assms by (simp_all add: getter_defs)

lemma observe_position:
  "fold observe (position_signals s) ob =
    ob\<lparr>o_index := index s, o_canUndo := QUndoStack_canUndo s, o_canRedo := QUndoStack_canRedo s,
      o_undoText := QUndoStack_undoText s, o_redoText := QUndoStack_redoText s\<rparr>"
  by (simp add: position_signals_def)

lemma private_setIndex_move:
  assumes "idx \<noteq> index s"
  shows "private_setIndex s idx True = (s\<lparr>index := idx, clean_index := idx\<rparr>,
      position_signals (s\<lparr>index := idx\<rparr>) @ (if index s = clean_index s then [] else [cleanChanged True]))"
    "private_setIndex s idx False = (s\<lparr>index := idx\<rparr>,
      position_signals (s\<lparr>index := idx\<rparr>) @
        (if (idx = clean_index s) = (index s = clean_index s) then [] else [cleanChanged (idx = clean_index s)]))"
    "private_setIndex s (index s) True = (s\<lparr>clean_index := index s\<rparr>,
      if index s = clean_index s then [] else [cleanChanged True])"
    "private_setIndex s (index s) False = (s, [])"
  using assms by (simp_all add: private_setIndex_def Let_def)

lemma private_setIndex_signals:
  assumes b: "private_setIndex s idx clean = (s', sig)"
    and k: "idx = index s \<Longrightarrow> knows ob s"
    and c: "o_clean ob = (clean_index s = index s)"
  shows "knows (fold observe sig ob) s'"
proof (cases "idx = index s")
  case True
  have "private_setIndex s idx clean = (if clean then (s\<lparr>clean_index := index s\<rparr>,
      if index s = clean_index s then [] else [cleanChanged True]) else (s, []))"
    using True private_setIndex_move(3,4) [of "index s + 1" s] by simp
  then show ?thesis using b k [OF True] by (auto simp: knows_def split: if_splits)
next
  case False
  note m = private_setIndex_move(1,2) [OF False]
  show ?thesis
  proof (cases clean)
    case True
    then show ?thesis using b m(1) c
      by (cases "index s = clean_index s") (auto simp: knows_def observe_position)
  next
    case not_clean: False
    then show ?thesis using b m(2) c
      by (cases "idx = clean_index s"; cases "index s = clean_index s") (auto simp: knows_def observe_position)
  qed
qed

text \<open>Dropping the commands above the index does not change whether the two indices agree.\<close>

lemma commit_signals:
  assumes "private_setIndex (fst (checkUndoLimit s)) (index (fst (checkUndoLimit s)) + 1) False = (s', sig)"
    and "macro_stack s = []" "int (length (command_list s)) = index s + 1" "0 \<le> index s" "-1 \<le> clean_index s"
    and "undo_limit s > 0 \<longrightarrow> int (length (command_list s)) \<le> undo_limit s + 1"
    and "o_clean ob = (clean_index s = index s)"
  shows "knows (fold observe sig ob) s'"
proof (rule private_setIndex_signals [OF assms(1)])
  show "o_clean ob = (clean_index (fst (checkUndoLimit s)) = index (fst (checkUndoLimit s)))"
    using assms(2-7) by (auto simp: checkUndoLimit_def Let_def)
qed simp

lemma knows_unchanged:
  assumes "knows ob s" "macro_stack s \<noteq> []" "macro_stack s' \<noteq> []" "index s' = index s" "clean_index s' = clean_index s"
  shows "knows ob s'"
  using assms by (simp add: knows_def QUndoStack_canUndo_def QUndoStack_canRedo_def
      QUndoStack_undoText_def QUndoStack_redoText_def)

lemma push_signals:
  assumes w: "stack_wf s" and k: "knows ob s"
    and b: "QUndoStack_push ops cmd (s, doc) = ((s', doc'), sig)"
  shows "knows (fold observe sig ob) s'"
proof (cases "macro_stack s = []")
  case False
  then have "sig = []" "macro_stack s' \<noteq> []" "index s' = index s" "clean_index s' = clean_index s"
    using b by (auto simp: QUndoStack_push_def Let_def split: option.splits if_splits)
  then show ?thesis using knows_unchanged [OF k False] by simp
next
  case True
  define t where "t = drop_redo_commands s"
  have tf: "command_list t = take (nat (index s)) (command_list s)" "index t = index s" "macro_stack t = []"
    "undo_limit t = undo_limit s" "-1 \<le> clean_index t" "0 \<le> index s" "index s \<le> int (length (command_list s))"
    "(clean_index t = index t) = (clean_index s = index s)"
    "undo_limit s > 0 \<longrightarrow> int (length (command_list s)) \<le> undo_limit s"
    using w True by (auto simp: t_def drop_redo_fields stack_wf_def)
  have kc: "o_clean ob = (clean_index t = index t)" using k tf(8) by (simp add: knows_def)
  have "s' = t\<lparr>command_list := command_list s'\<rparr> \<and> sig = position_signals s' \<or>
      (let u = t\<lparr>command_list := command_list t @ [cmd]\<rparr> in
       private_setIndex (fst (checkUndoLimit u)) (index (fst (checkUndoLimit u)) + 1) False = (s', sig))"
    using b True
    by (auto simp: QUndoStack_push_def Let_def t_def [symmetric] split: option.splits if_splits prod.splits)
  then show ?thesis
  proof
    assume a: "s' = t\<lparr>command_list := command_list s'\<rparr> \<and> sig = position_signals s'"
    have "clean_index s' = clean_index t" "index s' = index t" by (subst conjunct1 [OF a], simp)+
    then show ?thesis using a kc by (simp add: knows_def observe_position)
  next
    assume a: "let u = t\<lparr>command_list := command_list t @ [cmd]\<rparr> in
       private_setIndex (fst (checkUndoLimit u)) (index (fst (checkUndoLimit u)) + 1) False = (s', sig)"
    show ?thesis
      by (rule commit_signals [OF a [unfolded Let_def]]) (use tf kc in \<open>auto simp: min_def\<close>)
  qed
qed

lemma step_signals:
  assumes w: "stack_wf s" and k: "knows ob s" and b: "undo_step ops op (s, doc) = ((s', doc'), sig)"
  shows "knows (fold observe sig ob) s'"
proof (cases op)
  case (Push cmd)
  then show ?thesis using push_signals [OF w k] b by auto
next
  case Undo
  then have "s' = s \<and> sig = [] \<or> private_setIndex s (index s - 1) False = (s', sig)"
    using b by (auto simp: QUndoStack_undo_def Let_def split: if_splits prod.splits)
  then show ?thesis using k private_setIndex_signals [of s "index s - 1" False s' sig ob] by (auto simp: knows_def)
next
  case Redo
  then have "s' = s \<and> sig = [] \<or> private_setIndex s (index s + 1) False = (s', sig)"
    using b by (auto simp: QUndoStack_redo_def Let_def split: if_splits prod.splits)
  then show ?thesis using k private_setIndex_signals [of s "index s + 1" False s' sig ob] by (auto simp: knows_def)
next
  case (SetIndex i)
  then have "s' = s \<and> sig = [] \<or> (\<exists>idx. private_setIndex s idx False = (s', sig))"
    using b by (auto simp: QUndoStack_setIndex_def Let_def split: if_splits prod.splits)
  then show ?thesis using k private_setIndex_signals [of s _ False s' sig ob] by (auto simp: knows_def)
next
  case SetClean
  then have "s' = s \<and> sig = [] \<or> private_setIndex s (index s) True = (s', sig)"
    using b by (auto simp: QUndoStack_setClean_def split: if_splits prod.splits)
  then show ?thesis using k private_setIndex_signals [of s "index s" True s' sig ob] by (auto simp: knows_def)
next
  case (BeginMacro t)
  show ?thesis
  proof (cases "macro_stack s = []")
    case True
    then have "macro_stack s' \<noteq> []" "index s' = index s"
      "clean_index s' = clean_index (drop_redo_commands s)"
      "sig = [canUndoChanged False, undoTextChanged [], canRedoChanged False, redoTextChanged []]"
      using b BeginMacro by (auto simp: QUndoStack_beginMacro_def Let_def drop_redo_fields)
    then show ?thesis
      using k w by (auto simp: knows_def drop_redo_fields stack_wf_def)
  next
    case False
    then have "macro_stack s' \<noteq> []" "index s' = index s" "clean_index s' = clean_index s" "sig = []"
      using b BeginMacro by (auto simp: QUndoStack_beginMacro_def Let_def)
    then show ?thesis using knows_unchanged [OF k False] by simp
  qed
next
  case EndMacro
  let ?t = "s\<lparr>macro_stack := butlast (macro_stack s)\<rparr>"
  have c: "o_clean ob = (clean_index s = index s)" using k by (simp add: knows_def)
  consider "macro_stack s = []" | "macro_stack s \<noteq> []" "butlast (macro_stack s) \<noteq> []"
    | "macro_stack s \<noteq> []" "butlast (macro_stack s) = []" by blast
  then show ?thesis
  proof cases
    case 1
    then show ?thesis using b EndMacro k by (auto simp: QUndoStack_endMacro_def)
  next
    case 2
    then have "s' = ?t" "sig = []" using b EndMacro by (auto simp: QUndoStack_endMacro_def Let_def)
    then show ?thesis using knows_unchanged [OF k 2(1), of s'] 2 by simp
  next
    case 3
    then have "private_setIndex (fst (checkUndoLimit ?t)) (index (fst (checkUndoLimit ?t)) + 1) False = (s', sig)"
      using b EndMacro by (auto simp: QUndoStack_endMacro_def Let_def split: prod.splits)
    then show ?thesis
      by (rule commit_signals) (use w 3 c in \<open>auto simp: stack_wf_def\<close>)
  qed
next
  case Clear
  show ?thesis
  proof (cases "command_list s = []")
    case True
    then show ?thesis using b k Clear by (auto simp: QUndoStack_clear_def)
  next
    case False
    then have s': "s' = s\<lparr>macro_stack := [], command_list := [], index := 0, clean_index := 0\<rparr>"
      "sig = [indexChanged 0, canUndoChanged False, undoTextChanged [], canRedoChanged False,
        redoTextChanged []] @ (if \<not> QUndoStack_isClean s then [cleanChanged True] else [])"
      using b Clear by (auto simp: QUndoStack_clear_def Let_def)
    have "QUndoStack_isClean s \<Longrightarrow> o_clean ob" using k by (auto simp: knows_def QUndoStack_isClean_def split: if_splits)
    then show ?thesis by (auto simp: s' knows_def getters_empty)
  qed
next
  case (SetUndoLimit n)
  then have s': "s' = QUndoStack_setUndoLimit n s" "sig = []" using b by auto
  have "s' = s \<or> s' = s\<lparr>undo_limit := n\<rparr>"
    unfolding s'(1) QUndoStack_setUndoLimit_def checkUndoLimit_def by auto
  then show ?thesis
    using k s'(2) by (auto simp: knows_def)
qed

text \<open>
  Opening a macro is the one operation with which the value of \<open>isClean\<close> changes unreported: it is false while a macro is
  open, and \<open>beginMacro\<close> emits no \<open>cleanChanged\<close>.
\<close>

lemma beginMacro_signals:
  "macro_stack (fst (QUndoStack_beginMacro t s)) \<noteq> []"
  "\<not> QUndoStack_isClean (fst (QUndoStack_beginMacro t s))"
  "cleanChanged c \<notin> set (snd (QUndoStack_beginMacro t s))"
  by (simp_all add: QUndoStack_isClean_def QUndoStack_beginMacro_def Let_def)

text \<open>
  C10: the signals are complete, but for the clean flag while a macro is open: an observer that knows a reachable stack
  and applies the signals an operation emits, in their order, knows the stack after the operation: its index, the
  two enabled flags, the two texts and whether the clean index is the index.  The last is the value of \<open>isClean\<close>
  whenever no macro is open; while one is open \<open>isClean\<close> is false, without a \<open>cleanChanged\<close> at \<open>beginMacro\<close>.
\<close>

theorem undo_signals_complete:
  assumes "undo_reachable ops s doc saved" "lawful_merge ops" "knows ob s"
    and "undo_step ops op (s, doc) = ((s', doc'), sig)"
  shows "knows (fold observe sig ob) s' \<and>
    QUndoStack_isClean s' = (macro_stack s' = [] \<and> o_clean (fold observe sig ob)) \<and>
    (op = BeginMacro t \<longrightarrow> \<not> QUndoStack_isClean s' \<and> cleanChanged c \<notin> set sig)"
proof -
  have "stack_wf s" using history_reachable [OF assms(1,2)] by (auto simp: history_ok_def)
  then have k: "knows (fold observe sig ob) s'" using assms(3,4) by (rule step_signals)
  moreover have "QUndoStack_isClean s' = (macro_stack s' = [] \<and> o_clean (fold observe sig ob))"
    using k by (simp add: knows_def QUndoStack_isClean_def)
  moreover have "op = BeginMacro t \<Longrightarrow> s' = fst (QUndoStack_beginMacro t s) \<and> sig = snd (QUndoStack_beginMacro t s)"
    using assms(4) by (auto split: prod.splits)
  ultimately show ?thesis using beginMacro_signals by metis
qed

lemma demo_observer:
  "knows \<lparr>o_index = 1, o_clean = True, o_canUndo = True, o_canRedo = True, o_undoText = ''add'',
    o_redoText = ''add''\<rparr> demo_stack"
  by (simp add: knows_def demo_stack_def add_command_def QUndoStack_canUndo_def QUndoStack_canRedo_def
      QUndoStack_undoText_def QUndoStack_redoText_def)

theorem undo_signals_complete_witness:
  "knows (fold observe (snd (undo_step add_class (BeginMacro ''m'') (demo_stack, 22 - 9)))
     \<lparr>o_index = 1, o_clean = True, o_canUndo = True, o_canRedo = True, o_undoText = ''add'',
      o_redoText = ''add''\<rparr>)
   (fst (fst (undo_step add_class (BeginMacro ''m'') (demo_stack, 22 - 9))))"
  by (rule conjunct1 [OF undo_signals_complete [OF demo_reachable add_class_lawful(1) demo_observer,
        where doc' = "snd (fst (undo_step add_class (BeginMacro ''m'') (demo_stack, 22 - 9)))"]])
    (simp only: prod.collapse)

section \<open>\<open>QUndoAction\<close>\<close>

record undo_action =
  m_prefix :: string
  m_defaultText :: string
  action_text :: string
  action_enabled :: bool

definition new_QUndoAction :: "string \<Rightarrow> undo_action" where
  "new_QUndoAction prefix =
    \<lparr>m_prefix = prefix, m_defaultText = [], action_text = [], action_enabled = True\<rparr>"

text \<open>\<open>QString::arg\<close> is the parameter \<open>arg\<close>.\<close>

definition QUndoAction_setPrefixedText ::
  "(string \<Rightarrow> string \<Rightarrow> string) \<Rightarrow> string \<Rightarrow> undo_action \<Rightarrow> undo_action" where
  "QUndoAction_setPrefixedText arg txt a =
    (if m_defaultText a = [] then
       (let s = m_prefix a;
            s = (if m_prefix a \<noteq> [] \<and> txt \<noteq> [] then s @ '' '' else s)
        in a\<lparr>action_text := s @ txt\<rparr>)
     else if txt = [] then a\<lparr>action_text := m_defaultText a\<rparr>
     else a\<lparr>action_text := arg (m_prefix a) txt\<rparr>)"

definition QUndoAction_setTextFormat :: "string \<Rightarrow> string \<Rightarrow> undo_action \<Rightarrow> undo_action" where
  "QUndoAction_setTextFormat textFormat defaultText a = a\<lparr>m_prefix := textFormat, m_defaultText := defaultText\<rparr>"

definition QUndoStack_createUndoAction ::
  "(string \<Rightarrow> string \<Rightarrow> string) \<Rightarrow> string \<Rightarrow> 'c QUndoStack \<Rightarrow> undo_action" where
  "QUndoStack_createUndoAction arg prefix s =
    (let result = new_QUndoAction prefix;
         result = (if prefix = [] then QUndoAction_setTextFormat ''Undo %1'' ''Undo'' result else result);
         result = result\<lparr>action_enabled := QUndoStack_canUndo s\<rparr>
     in QUndoAction_setPrefixedText arg (QUndoStack_undoText s) result)"

definition QUndoStack_createRedoAction ::
  "(string \<Rightarrow> string \<Rightarrow> string) \<Rightarrow> string \<Rightarrow> 'c QUndoStack \<Rightarrow> undo_action" where
  "QUndoStack_createRedoAction arg prefix s =
    (let result = new_QUndoAction prefix;
         result = (if prefix = [] then QUndoAction_setTextFormat ''Redo %1'' ''Redo'' result else result);
         result = result\<lparr>action_enabled := QUndoStack_canRedo s\<rparr>
     in QUndoAction_setPrefixedText arg (QUndoStack_redoText s) result)"

text \<open>The two slots each action has connected to the stack.\<close>

fun undo_action_slot :: "(string \<Rightarrow> string \<Rightarrow> string) \<Rightarrow> undo_signal \<Rightarrow> undo_action \<Rightarrow> undo_action" where
  "undo_action_slot arg (canUndoChanged b) a = a\<lparr>action_enabled := b\<rparr>"
| "undo_action_slot arg (undoTextChanged t) a = QUndoAction_setPrefixedText arg t a"
| "undo_action_slot arg _ a = a"

fun redo_action_slot :: "(string \<Rightarrow> string \<Rightarrow> string) \<Rightarrow> undo_signal \<Rightarrow> undo_action \<Rightarrow> undo_action" where
  "redo_action_slot arg (canRedoChanged b) a = a\<lparr>action_enabled := b\<rparr>"
| "redo_action_slot arg (redoTextChanged t) a = QUndoAction_setPrefixedText arg t a"
| "redo_action_slot arg _ a = a"

definition observer_of :: "'c QUndoStack \<Rightarrow> undo_observer" where
  "observer_of s = \<lparr>o_index = index s, o_clean = (clean_index s = index s), o_canUndo = QUndoStack_canUndo s,
    o_canRedo = QUndoStack_canRedo s, o_undoText = QUndoStack_undoText s, o_redoText = QUndoStack_redoText s\<rparr>"

lemma knows_iff: "knows ob s \<longleftrightarrow> ob = observer_of s"
  by (auto simp: knows_def observer_of_def)

lemma action_overwrite:
  "QUndoAction_setPrefixedText arg t (QUndoAction_setPrefixedText arg t' a) = QUndoAction_setPrefixedText arg t a"
  "(QUndoAction_setPrefixedText arg t a)\<lparr>action_enabled := b\<rparr>
    = QUndoAction_setPrefixedText arg t (a\<lparr>action_enabled := b\<rparr>)"
  by (simp_all add: QUndoAction_setPrefixedText_def Let_def)

lemma action_follows:
  fixes arg and label :: "undo_observer \<Rightarrow> string" and enabled :: "undo_observer \<Rightarrow> bool"
  defines "act \<equiv> \<lambda>a ob. QUndoAction_setPrefixedText arg (label ob) (a\<lparr>action_enabled := enabled ob\<rparr>)"
  assumes "\<And>sig a ob. slot sig (act a ob) = act a (observe sig ob)"
  shows "fold slot sigs (act a ob) = act a (fold observe sigs ob)"
  using assms(2) by (induction sigs arbitrary: ob) simp_all

lemma undo_slot: "undo_action_slot arg sig
    (QUndoAction_setPrefixedText arg (o_undoText ob) (a\<lparr>action_enabled := o_canUndo ob\<rparr>)) =
  QUndoAction_setPrefixedText arg (o_undoText (observe sig ob)) (a\<lparr>action_enabled := o_canUndo (observe sig ob)\<rparr>)"
  by (cases sig) (simp_all add: action_overwrite)

lemma redo_slot: "redo_action_slot arg sig
    (QUndoAction_setPrefixedText arg (o_redoText ob) (a\<lparr>action_enabled := o_canRedo ob\<rparr>)) =
  QUndoAction_setPrefixedText arg (o_redoText (observe sig ob)) (a\<lparr>action_enabled := o_canRedo (observe sig ob)\<rparr>)"
  by (cases sig) (simp_all add: action_overwrite)

text \<open>
  The undo and redo actions stay current: after any operation on a reachable stack, an action that
  was created before it and has received the signals is the action that would be created now.
\<close>

theorem undo_actions_follow:
  assumes "undo_reachable ops s doc saved" "lawful_merge ops"
    and "undo_step ops op (s, doc) = ((s', doc'), sig)"
  shows "fold (undo_action_slot arg) sig (QUndoStack_createUndoAction arg prefix s)
      = QUndoStack_createUndoAction arg prefix s' \<and>
    fold (redo_action_slot arg) sig (QUndoStack_createRedoAction arg prefix s)
      = QUndoStack_createRedoAction arg prefix s'"
proof -
  have "stack_wf s" using history_reachable [OF assms(1,2)] by (auto simp: history_ok_def)
  then have "knows (fold observe sig (observer_of s)) s'"
    by (rule step_signals [OF _ _ assms(3)]) (simp add: knows_iff)
  then have o: "fold observe sig (observer_of s) = observer_of s'" by (simp add: knows_iff)
  show ?thesis
    using action_follows [where slot = "undo_action_slot arg" and ob = "observer_of s" and sigs = sig, OF undo_slot]
      action_follows [where slot = "redo_action_slot arg" and ob = "observer_of s" and sigs = sig, OF redo_slot]
    unfolding o by (simp add: QUndoStack_createUndoAction_def QUndoStack_createRedoAction_def Let_def observer_of_def)
qed

theorem undo_actions_follow_witness:
  "fold (undo_action_slot (\<lambda>a b. a @ b)) (snd (QUndoStack_undo add_class (demo_stack, 22 - 9)))
      (QUndoStack_createUndoAction (\<lambda>a b. a @ b) [] demo_stack)
    = QUndoStack_createUndoAction (\<lambda>a b. a @ b) [] (fst (fst (QUndoStack_undo add_class (demo_stack, 22 - 9))))"
  by (rule conjunct1 [OF undo_actions_follow [OF demo_reachable add_class_lawful(1), where op = Undo
        and doc' = "snd (fst (QUndoStack_undo add_class (demo_stack, 22 - 9)))"]])
    (simp only: undo_step.simps prod.collapse)

end
