(* ===== verification/UndoGroup.thy ===== *)
theory UndoGroup
  imports UndoSignals
begin

text \<open>
  \<open>QUndoGroup\<close> (src/src/gui/util/qundogroup.cpp) and the members of \<open>QUndoStack\<close> that use it.  Stacks
  and groups are shared objects that point to each other, so they live in a world that maps
  addresses to objects.  A group is connected to the signals of exactly its active stack; it
  forwards them.
\<close>

record undo_group =
  stack_list :: "nat list"
  active :: "nat option"

record ('c, 'd) undo_world =
  stacks :: "nat \<Rightarrow> 'c QUndoStack"
  docs :: "nat \<Rightarrow> 'd"
  groups :: "nat \<Rightarrow> undo_group"

datatype group_signal =
    Forwarded undo_signal
  | activeStackChanged "nat option"

definition new_QUndoGroup :: undo_group where
  "new_QUndoGroup = \<lparr>stack_list = [], active = None\<rparr>"

definition set_group :: "nat \<Rightarrow> nat option \<Rightarrow> ('c, 'd) undo_world \<Rightarrow> ('c, 'd) undo_world" where
  "set_group st g w = w\<lparr>stacks := (stacks w)(st := (stacks w st)\<lparr>group := g\<rparr>)\<rparr>"

definition QUndoGroup_setActiveStack ::
  "nat \<Rightarrow> nat option \<Rightarrow> ('c, 'd) undo_world \<Rightarrow> ('c, 'd) undo_world \<times> group_signal list" where
  "QUndoGroup_setActiveStack g st w =
    (if active (groups w g) = st then (w, [])
     else
       (w\<lparr>groups := (groups w)(g := (groups w g)\<lparr>active := st\<rparr>)\<rparr>,
        map Forwarded
          (case st of
             None \<Rightarrow> [canUndoChanged False, undoTextChanged [], canRedoChanged False, redoTextChanged [],
                      cleanChanged True, indexChanged 0]
           | Some x \<Rightarrow>
               (let s = stacks w x in
                [canUndoChanged (QUndoStack_canUndo s), undoTextChanged (QUndoStack_undoText s),
                 canRedoChanged (QUndoStack_canRedo s), redoTextChanged (QUndoStack_redoText s),
                 cleanChanged (QUndoStack_isClean s), indexChanged (index s)]))
        @ [activeStackChanged st]))"

definition QUndoGroup_removeStack ::
  "nat \<Rightarrow> nat \<Rightarrow> ('c, 'd) undo_world \<Rightarrow> ('c, 'd) undo_world \<times> group_signal list" where
  "QUndoGroup_removeStack g st w =
    (if st \<notin> set (stack_list (groups w g)) then (w, [])
     else
       (let w = w\<lparr>groups := (groups w)(g := (groups w g)\<lparr>stack_list := removeAll st (stack_list (groups w g))\<rparr>)\<rparr>;
            (w, signals) =
              (if active (groups w g) = Some st then QUndoGroup_setActiveStack g None w else (w, []))
        in (set_group st None w, signals)))"

definition QUndoGroup_addStack ::
  "nat \<Rightarrow> nat \<Rightarrow> ('c, 'd) undo_world \<Rightarrow> ('c, 'd) undo_world" where
  "QUndoGroup_addStack g st w =
    (if st \<in> set (stack_list (groups w g)) then w
     else
       (let w = w\<lparr>groups := (groups w)(g := (groups w g)\<lparr>stack_list := stack_list (groups w g) @ [st]\<rparr>)\<rparr>;
            w = (case group (stacks w st) of None \<Rightarrow> w | Some other \<Rightarrow> fst (QUndoGroup_removeStack other st w))
        in set_group st (Some g) w))"

definition QUndoGroup_destroy :: "nat \<Rightarrow> ('c, 'd) undo_world \<Rightarrow> ('c, 'd) undo_world" where
  "QUndoGroup_destroy g w =
    (fold (\<lambda>st. set_group st None) (stack_list (groups w g)) w)\<lparr>groups := (groups w)(g := new_QUndoGroup)\<rparr>"

definition QUndoStack_destroy :: "nat \<Rightarrow> ('c, 'd) undo_world \<Rightarrow> ('c, 'd) undo_world" where
  "QUndoStack_destroy st w =
    (let w = (case group (stacks w st) of None \<Rightarrow> w | Some g \<Rightarrow> fst (QUndoGroup_removeStack g st w))
     in w\<lparr>stacks := (stacks w)(st := fst (QUndoStack_clear (stacks w st)))\<rparr>)"

definition QUndoGroup_undo ::
  "('c, 'd) command_class \<Rightarrow> nat \<Rightarrow> ('c, 'd) undo_world \<Rightarrow> ('c, 'd) undo_world \<times> group_signal list" where
  "QUndoGroup_undo ops g w =
    (case active (groups w g) of None \<Rightarrow> (w, [])
     | Some st \<Rightarrow>
         (let ((s, doc), signals) = QUndoStack_undo ops (stacks w st, docs w st)
          in (w\<lparr>stacks := (stacks w)(st := s), docs := (docs w)(st := doc)\<rparr>, map Forwarded signals)))"

definition QUndoGroup_redo ::
  "('c, 'd) command_class \<Rightarrow> nat \<Rightarrow> ('c, 'd) undo_world \<Rightarrow> ('c, 'd) undo_world \<times> group_signal list" where
  "QUndoGroup_redo ops g w =
    (case active (groups w g) of None \<Rightarrow> (w, [])
     | Some st \<Rightarrow>
         (let ((s, doc), signals) = QUndoStack_redo ops (stacks w st, docs w st)
          in (w\<lparr>stacks := (stacks w)(st := s), docs := (docs w)(st := doc)\<rparr>, map Forwarded signals)))"

definition QUndoGroup_canUndo :: "nat \<Rightarrow> ('c, 'd) undo_world \<Rightarrow> bool" where
  "QUndoGroup_canUndo g w = (case active (groups w g) of None \<Rightarrow> False | Some st \<Rightarrow> QUndoStack_canUndo (stacks w st))"

definition QUndoGroup_canRedo :: "nat \<Rightarrow> ('c, 'd) undo_world \<Rightarrow> bool" where
  "QUndoGroup_canRedo g w = (case active (groups w g) of None \<Rightarrow> False | Some st \<Rightarrow> QUndoStack_canRedo (stacks w st))"

definition QUndoGroup_undoText :: "nat \<Rightarrow> ('c, 'd) undo_world \<Rightarrow> string" where
  "QUndoGroup_undoText g w = (case active (groups w g) of None \<Rightarrow> [] | Some st \<Rightarrow> QUndoStack_undoText (stacks w st))"

definition QUndoGroup_redoText :: "nat \<Rightarrow> ('c, 'd) undo_world \<Rightarrow> string" where
  "QUndoGroup_redoText g w = (case active (groups w g) of None \<Rightarrow> [] | Some st \<Rightarrow> QUndoStack_redoText (stacks w st))"

definition QUndoGroup_isClean :: "nat \<Rightarrow> ('c, 'd) undo_world \<Rightarrow> bool" where
  "QUndoGroup_isClean g w = (case active (groups w g) of None \<Rightarrow> True | Some st \<Rightarrow> QUndoStack_isClean (stacks w st))"

definition QUndoGroup_createUndoAction ::
  "(string \<Rightarrow> string \<Rightarrow> string) \<Rightarrow> string \<Rightarrow> nat \<Rightarrow> ('c, 'd) undo_world \<Rightarrow> undo_action" where
  "QUndoGroup_createUndoAction arg prefix g w =
    (let result = new_QUndoAction prefix;
         result = (if prefix = [] then QUndoAction_setTextFormat ''Undo %1'' ''Undo'' result else result);
         result = result\<lparr>action_enabled := QUndoGroup_canUndo g w\<rparr>
     in QUndoAction_setPrefixedText arg (QUndoGroup_undoText g w) result)"

definition QUndoGroup_createRedoAction ::
  "(string \<Rightarrow> string \<Rightarrow> string) \<Rightarrow> string \<Rightarrow> nat \<Rightarrow> ('c, 'd) undo_world \<Rightarrow> undo_action" where
  "QUndoGroup_createRedoAction arg prefix g w =
    (let result = new_QUndoAction prefix;
         result = (if prefix = [] then QUndoAction_setTextFormat ''Redo %1'' ''Redo'' result else result);
         result = result\<lparr>action_enabled := QUndoGroup_canRedo g w\<rparr>
     in QUndoAction_setPrefixedText arg (QUndoGroup_redoText g w) result)"

definition QUndoStack_setActive ::
  "nat \<Rightarrow> bool \<Rightarrow> ('c, 'd) undo_world \<Rightarrow> ('c, 'd) undo_world \<times> group_signal list" where
  "QUndoStack_setActive st act w =
    (case group (stacks w st) of None \<Rightarrow> (w, [])
     | Some g \<Rightarrow>
         if act then QUndoGroup_setActiveStack g (Some st) w
         else if active (groups w g) = Some st then QUndoGroup_setActiveStack g None w
         else (w, []))"

definition QUndoStack_isActive :: "nat \<Rightarrow> ('c, 'd) undo_world \<Rightarrow> bool" where
  "QUndoStack_isActive st w =
    (case group (stacks w st) of None \<Rightarrow> True | Some g \<Rightarrow> active (groups w g) = Some st)"

section \<open>Membership\<close>

datatype group_op =
    AddStack nat nat
  | RemoveStack nat nat
  | SetActiveStack nat "nat option"
  | StackSetActive nat bool
  | GroupUndo nat
  | GroupRedo nat
  | DestroyGroup nat
  | DestroyStack nat

fun group_step ::
  "('c, 'd) command_class \<Rightarrow> group_op \<Rightarrow> ('c, 'd) undo_world \<Rightarrow> ('c, 'd) undo_world" where
  "group_step ops (AddStack g st) w = QUndoGroup_addStack g st w"
| "group_step ops (RemoveStack g st) w = fst (QUndoGroup_removeStack g st w)"
| "group_step ops (SetActiveStack g st) w = fst (QUndoGroup_setActiveStack g st w)"
| "group_step ops (StackSetActive st act) w = fst (QUndoStack_setActive st act w)"
| "group_step ops (GroupUndo g) w = fst (QUndoGroup_undo ops g w)"
| "group_step ops (GroupRedo g) w = fst (QUndoGroup_redo ops g w)"
| "group_step ops (DestroyGroup g) w = QUndoGroup_destroy g w"
| "group_step ops (DestroyStack st) w = QUndoStack_destroy st w"

text \<open>A caller that activates only members, as the documentation of \<open>setActiveStack\<close> supposes.\<close>

fun activates_member :: "group_op \<Rightarrow> ('c, 'd) undo_world \<Rightarrow> bool" where
  "activates_member (SetActiveStack g (Some st)) w \<longleftrightarrow> st \<in> set (stack_list (groups w g))"
| "activates_member _ w \<longleftrightarrow> True"

fun members_run :: "('c, 'd) command_class \<Rightarrow> group_op list \<Rightarrow> ('c, 'd) undo_world \<Rightarrow> bool" where
  "members_run ops [] w \<longleftrightarrow> True"
| "members_run ops (op # rest) w \<longleftrightarrow> activates_member op w \<and> members_run ops rest (group_step ops op w)"

text \<open>
  The invariant; that the active stack is a member is part of it when \<open>strict\<close> says so.
\<close>

definition group_inv :: "bool \<Rightarrow> ('c, 'd) undo_world \<Rightarrow> bool" where
  "group_inv strict w \<longleftrightarrow>
    (\<forall>g. distinct (stack_list (groups w g))) \<and>
    (\<forall>g st. st \<in> set (stack_list (groups w g)) \<longleftrightarrow> group (stacks w st) = Some g) \<and>
    (strict \<longrightarrow> (\<forall>g st. active (groups w g) = Some st \<longrightarrow> group (stacks w st) = Some g))"

lemma set_group_fields [simp]:
  "groups (set_group st g w) = groups w"
  "group (stacks (set_group st g w) x) = (if x = st then g else group (stacks w x))"
  by (simp_all add: set_group_def)

lemma setActive_fields:
  "stacks (fst (QUndoGroup_setActiveStack g st w)) = stacks w"
  "groups (fst (QUndoGroup_setActiveStack g st w)) = (groups w)(g := (groups w g)\<lparr>active := st\<rparr>)"
  by (auto simp: QUndoGroup_setActiveStack_def)

lemma removeStack_fields:
  assumes "st \<in> set (stack_list (groups w g))"
  shows "groups (fst (QUndoGroup_removeStack g st w)) = (groups w)(g := (groups w g)
      \<lparr>stack_list := removeAll st (stack_list (groups w g)),
       active := (if active (groups w g) = Some st then None else active (groups w g))\<rparr>)"
    "group (stacks (fst (QUndoGroup_removeStack g st w)) x) = (if x = st then None else group (stacks w x))"
  using assms
  by (auto simp: QUndoGroup_removeStack_def Let_def setActive_fields split: prod.splits
      dest!: arg_cong [where f = fst])

lemma inv_cong:
  assumes "group_inv strict w" "groups w' = groups w" "\<And>x. group (stacks w' x) = group (stacks w x)"
  shows "group_inv strict w'"
  using assms by (simp add: group_inv_def)

lemma inv_remove:
  assumes "group_inv strict w"
  shows "group_inv strict (fst (QUndoGroup_removeStack g st w))"
proof (cases "st \<in> set (stack_list (groups w g))")
  case True
  show ?thesis
    using assms True
    unfolding group_inv_def removeStack_fields(1) [OF True] removeStack_fields(2) [OF True]
    by (auto simp: distinct_removeAll)
qed (use assms in \<open>simp add: QUndoGroup_removeStack_def\<close>)

lemma addStack_fields:
  assumes "group_inv strict w" "st \<notin> set (stack_list (groups w g))"
  shows "groups (QUndoGroup_addStack g st w) = (\<lambda>h.
      if h = g then (groups w g)\<lparr>stack_list := stack_list (groups w g) @ [st]\<rparr>
      else if group (stacks w st) = Some h then (groups w h)
        \<lparr>stack_list := removeAll st (stack_list (groups w h)),
         active := (if active (groups w h) = Some st then None else active (groups w h))\<rparr>
      else groups w h)"
    "group (stacks (QUndoGroup_addStack g st w) x) = (if x = st then Some g else group (stacks w x))"
proof -
  let ?w = "w\<lparr>groups := (groups w)(g := (groups w g)\<lparr>stack_list := stack_list (groups w g) @ [st]\<rparr>)\<rparr>"
  have ne: "group (stacks w st) \<noteq> Some g" using assms by (auto simp: group_inv_def)
  have mem: "st \<in> set (stack_list (groups ?w other))" if "group (stacks w st) = Some other" for other
    using assms(1) that by (auto simp: group_inv_def)
  show "groups (QUndoGroup_addStack g st w) = (\<lambda>h.
      if h = g then (groups w g)\<lparr>stack_list := stack_list (groups w g) @ [st]\<rparr>
      else if group (stacks w st) = Some h then (groups w h)
        \<lparr>stack_list := removeAll st (stack_list (groups w h)),
         active := (if active (groups w h) = Some st then None else active (groups w h))\<rparr>
      else groups w h)"
    using assms(2) ne removeStack_fields(1) [OF mem]
    by (auto simp: QUndoGroup_addStack_def Let_def fun_eq_iff split: option.splits)
  show "group (stacks (QUndoGroup_addStack g st w) x) = (if x = st then Some g else group (stacks w x))"
    using assms(2) ne removeStack_fields(2) [OF mem]
    by (auto simp: QUndoGroup_addStack_def Let_def split: option.splits)
qed

lemma inv_add:
  assumes "group_inv strict w"
  shows "group_inv strict (QUndoGroup_addStack g st w)"
proof (cases "st \<in> set (stack_list (groups w g))")
  case True
  then show ?thesis using assms by (simp add: QUndoGroup_addStack_def)
next
  case False
  show ?thesis
    using assms False
    unfolding group_inv_def addStack_fields(1) [OF assms False] addStack_fields(2) [OF assms False]
    by (auto simp: distinct_removeAll)
qed

lemma inv_setActive:
  assumes "group_inv strict w" "strict \<Longrightarrow> st = None \<or> the st \<in> set (stack_list (groups w g))"
  shows "group_inv strict (fst (QUndoGroup_setActiveStack g st w))"
  using assms by (auto simp: group_inv_def setActive_fields)

lemma clear_group: "group (fst (QUndoStack_clear s)) = group s"
  by (simp add: QUndoStack_clear_def Let_def)

lemma private_setIndex_group: "group (fst (private_setIndex s i c)) = group s"
  by (simp add: private_setIndex_stack)

lemma undo_group_field: "QUndoStack_undo ops (s, doc) = ((s', doc'), sig) \<Longrightarrow> group s' = group s"
  using private_setIndex_group [of s "index s - 1" False]
  by (auto simp: QUndoStack_undo_def Let_def split: if_splits prod.splits)

lemma redo_group_field: "QUndoStack_redo ops (s, doc) = ((s', doc'), sig) \<Longrightarrow> group s' = group s"
  using private_setIndex_group [of s "index s + 1" False]
  by (auto simp: QUndoStack_redo_def Let_def split: if_splits prod.splits)

lemma fold_set_group:
  "groups (fold (\<lambda>st. set_group st None) xs w) = groups w"
  "group (stacks (fold (\<lambda>st. set_group st None) xs w) x) = (if x \<in> set xs then None else group (stacks w x))"
  by (induction xs arbitrary: w) auto

lemma group_step_inv:
  assumes "group_inv strict w" "strict \<Longrightarrow> activates_member op w"
  shows "group_inv strict (group_step ops op w)"
proof (cases op)
  case (AddStack g st)
  then show ?thesis using inv_add [OF assms(1)] by simp
next
  case (RemoveStack g st)
  then show ?thesis using inv_remove [OF assms(1)] by simp
next
  case (SetActiveStack g st)
  then show ?thesis using inv_setActive [OF assms(1)] assms(2) by (cases st) auto
next
  case (StackSetActive st act)
  have "group (stacks w st) = Some g \<Longrightarrow> st \<in> set (stack_list (groups w g))" for g
    using assms(1) by (simp add: group_inv_def)
  then show ?thesis
    using StackSetActive inv_setActive [OF assms(1)] assms(1)
    by (auto simp: QUndoStack_setActive_def split: option.splits)
next
  case (GroupUndo g)
  then show ?thesis
    using undo_group_field
    by (auto simp: QUndoGroup_undo_def split: option.splits prod.splits intro!: inv_cong [OF assms(1)] assms(1))
next
  case (GroupRedo g)
  then show ?thesis
    using redo_group_field
    by (auto simp: QUndoGroup_redo_def split: option.splits prod.splits intro!: inv_cong [OF assms(1)] assms(1))
next
  case (DestroyGroup g)
  then show ?thesis
    using assms(1) unfolding group_inv_def
    by (auto simp: QUndoGroup_destroy_def fold_set_group new_QUndoGroup_def)
next
  case (DestroyStack st)
  let ?w = "case group (stacks w st) of None \<Rightarrow> w | Some g \<Rightarrow> fst (QUndoGroup_removeStack g st w)"
  have "group_inv strict ?w" using assms(1) inv_remove by (auto split: option.splits)
  then show ?thesis
    unfolding DestroyStack group_step.simps QUndoStack_destroy_def Let_def
    by (rule inv_cong) (auto simp: clear_group)
qed

text \<open>
  C11: membership: after any sequence of operations on stacks and groups that starts without members, a stack
  is in the list of a group, once, exactly when its \<open>group\<close> pointer is that group - so that it belongs to at most
  one.  When the sequence calls \<open>setActiveStack\<close> only with members, the active stack of a group is one of its
  members; \<open>setActiveStack\<close> does not check that itself, and \<open>setActiveStack_non_member\<close> below shows what
  happens with another stack.
\<close>

theorem undo_group_membership:
  fixes w :: "('c, 'd) undo_world" and ops :: "('c, 'd) command_class" and run :: "group_op list"
  assumes "\<forall>st. group (stacks w st) = None" "\<forall>g. groups w g = new_QUndoGroup"
  defines "w' \<equiv> fold (group_step ops) run w"
  shows "distinct (stack_list (groups w' g)) \<and>
    (st \<in> set (stack_list (groups w' g)) \<longleftrightarrow> group (stacks w' st) = Some g) \<and>
    (members_run ops run w \<longrightarrow> active (groups w' g) = Some st \<longrightarrow> st \<in> set (stack_list (groups w' g)))"
proof -
  have run: "group_inv strict w \<Longrightarrow> (strict \<Longrightarrow> members_run ops run w) \<Longrightarrow> group_inv strict (fold (group_step ops) run w)" for strict
    by (induction run arbitrary: w) (auto simp: group_step_inv)
  have "group_inv strict w" for strict using assms(1,2) by (simp add: group_inv_def new_QUndoGroup_def)
  then have "group_inv (members_run ops run w) w'" unfolding w'_def by (rule run)
  then show ?thesis by (auto simp: group_inv_def)
qed

definition empty_world :: "(int, int) undo_world" where
  "empty_world = \<lparr>stacks = (\<lambda>_. new_QUndoStack), docs = (\<lambda>_. 0), groups = (\<lambda>_. new_QUndoGroup)\<rparr>"

theorem undo_group_membership_witness:
  "let w' = fold (group_step add_class) [AddStack 1 7, SetActiveStack 1 (Some 7), AddStack 2 7] empty_world in
    distinct (stack_list (groups w' 2)) \<and>
    (7 \<in> set (stack_list (groups w' 2)) \<longleftrightarrow> group (stacks w' 7) = Some 2)"
  unfolding Let_def
  by (rule conjI [OF conjunct1 conjunct1 [OF conjunct2]]; rule undo_group_membership)
    (simp_all add: empty_world_def new_QUndoStack_def QUndoGroup_addStack_def new_QUndoGroup_def
      set_group_def Let_def)

text \<open>
  \<open>setActiveStack\<close> does not check that the stack is a member: the group of the empty world activates a
  stack that it does not contain, and removing that stack does not deactivate it.
\<close>

lemma setActiveStack_non_member:
  "let w = fst (QUndoGroup_removeStack 1 7 (fst (QUndoGroup_setActiveStack 1 (Some 7) empty_world))) in
    active (groups w 1) = Some 7 \<and> stack_list (groups w 1) = []"
  by (simp add: QUndoGroup_setActiveStack_def QUndoGroup_removeStack_def empty_world_def new_QUndoGroup_def)

end
