(* ===== verification/ByteArray.thy ===== *)
theory ByteArray
  imports Prelude "HOL-Library.Word"
begin

text \<open>
  Bytes and the \<open>QByteArray\<close> operations the components build on.  \<open>QByteArray::resize\<close>
  (src/src/core/tools/qbytearray.cpp) leaves the bytes it adds uninitialised: the parameter \<open>junk\<close>
  gives what is found in the byte at each position.
\<close>

type_synonym byte = "8 word"

definition QByteArray_resize :: "(nat \<Rightarrow> byte) \<Rightarrow> byte list \<Rightarrow> nat \<Rightarrow> byte list" where
  "QByteArray_resize junk xs n = (if n = 0 then [] else take n xs @ map junk [length xs..<n])"

text \<open>Copying bytes into an array; outside of it, \<open>None\<close>.\<close>

definition memmove :: "nat \<Rightarrow> byte list \<Rightarrow> byte list \<Rightarrow> byte list option" where
  "memmove off data xs =
    (if off + length data \<le> length xs then Some (take off xs @ data @ drop (off + length data) xs) else None)"

lemma resize_bytes:
  "n \<noteq> 0 \<Longrightarrow> p < n \<Longrightarrow> QByteArray_resize junk xs n ! p = (if p < length xs then xs ! p else junk p)"
  "length (QByteArray_resize junk xs n) = n"
  by (auto simp: QByteArray_resize_def nth_append min_def)

lemma resize_shrink: "n \<le> length xs \<Longrightarrow> QByteArray_resize junk xs n = take n xs"
  by (simp add: QByteArray_resize_def)

lemma resize_take: "k \<le> n \<Longrightarrow> k \<le> length xs \<Longrightarrow> take k (QByteArray_resize junk xs n) = take k xs"
  by (auto simp: QByteArray_resize_def min_def)

end
