(* ===== verification/BitArray.thy ===== *)
theory BitArray
  imports ByteArray
begin

unbundle bit_operations_syntax

text \<open>
  \<open>QBitArray\<close> (src/src/core/tools/qbitarray.cpp and qbitarray.h): a byte array whose first byte holds
  the number of unused bits, 8 times the number of bytes minus the number of bits, and whose other
  bytes hold the bits, least significant first.  The empty bit array is the empty byte array.

  The parameter \<open>junk\<close> is the memory \<open>QByteArray::resize\<close> leaves uninitialised.  Sizes and indices are non-negative here, as the assertions of
  the code demand.
\<close>

datatype QBitArray = QBitArray (bytes: "byte list")

definition QBitArray_size :: "QBitArray \<Rightarrow> nat" where
  "QBitArray_size a =
    (if bytes a = [] then 0 else 8 * length (bytes a) - unat (hd (bytes a)))"

definition QBitArray_isEmpty :: "QBitArray \<Rightarrow> bool" where
  "QBitArray_isEmpty a \<longleftrightarrow> bytes a = []"

text \<open>The mask \<open>(1 << k) - 1\<close> and the header byte.\<close>

definition low_mask :: "nat \<Rightarrow> byte" where
  "low_mask k = push_bit k 1 - 1"

definition set_header :: "nat \<Rightarrow> byte list \<Rightarrow> byte list" where
  "set_header n c = c[0 := of_nat (8 * length c - n)]"

definition new_QBitArray :: "nat \<Rightarrow> bool \<Rightarrow> QBitArray" where
  "new_QBitArray n value =
    (if n = 0 then QBitArray []
     else
       let c = replicate (1 + (n + 7) div 8) (if value then 0xFF else 0);
           c = set_header n c;
           c = (if value \<and> n mod 8 \<noteq> 0 then c[1 + n div 8 := c ! (1 + n div 8) AND low_mask (n mod 8)]
                else c)
       in QBitArray c)"

definition QBitArray_testBit :: "QBitArray \<Rightarrow> nat \<Rightarrow> bool" where
  "QBitArray_testBit a i = ((bytes a ! (1 + i div 8)) AND push_bit (i mod 8) 1 \<noteq> 0)"

definition QBitArray_setBit :: "QBitArray \<Rightarrow> nat \<Rightarrow> QBitArray" where
  "QBitArray_setBit a i =
    QBitArray ((bytes a)[1 + i div 8 := (bytes a ! (1 + i div 8)) OR push_bit (i mod 8) 1])"

definition QBitArray_clearBit :: "QBitArray \<Rightarrow> nat \<Rightarrow> QBitArray" where
  "QBitArray_clearBit a i =
    QBitArray ((bytes a)[1 + i div 8 := (bytes a ! (1 + i div 8)) AND NOT (push_bit (i mod 8) 1)])"

definition QBitArray_setBit_value :: "QBitArray \<Rightarrow> nat \<Rightarrow> bool \<Rightarrow> QBitArray" where
  "QBitArray_setBit_value a i val = (if val then QBitArray_setBit a i else QBitArray_clearBit a i)"

definition QBitArray_toggleBit :: "QBitArray \<Rightarrow> nat \<Rightarrow> QBitArray \<times> bool" where
  "QBitArray_toggleBit a i =
    (let b = push_bit (i mod 8) 1;
         p = 1 + i div 8;
         c = (bytes a ! p) AND b
     in (QBitArray ((bytes a)[p := (bytes a ! p) XOR b]), c \<noteq> 0))"

definition QBitArray_count :: "QBitArray \<Rightarrow> bool \<Rightarrow> nat" where
  "QBitArray_count a on =
    (let len = QBitArray_size a;
         numBits = fold (\<lambda>i k. k + (if QBitArray_testBit a i then 1 else 0)) [0..<len] 0
     in if on then numBits else len - numBits)"

definition QBitArray_resize :: "(nat \<Rightarrow> byte) \<Rightarrow> QBitArray \<Rightarrow> nat \<Rightarrow> QBitArray" where
  "QBitArray_resize junk a n =
    (if n = 0 then QBitArray []
     else
       let s = length (bytes a);
           c = QByteArray_resize junk (bytes a) (1 + (n + 7) div 8);
           c = (if n > 8 * s then take s c @ replicate (length c - s) 0
                else if n mod 8 \<noteq> 0 then
                  c[1 + n div 8 := c ! (1 + n div 8) AND low_mask (n mod 8)]
                else c)
       in QBitArray (set_header n c))"

text \<open>The bit loops at the two ends of \<open>fill\<close>, and the \<open>memset\<close> between them.\<close>

function fill_to_byte :: "bool \<Rightarrow> nat \<Rightarrow> nat \<Rightarrow> QBitArray \<Rightarrow> nat \<times> QBitArray" where
  "fill_to_byte value begin end a =
    (if begin < end \<and> begin mod 8 \<noteq> 0 then
       fill_to_byte value (begin + 1) end (QBitArray_setBit_value a begin value)
     else (begin, a))"
  by pat_completeness auto
termination by (relation "measure (\<lambda>(value, begin, end, a). end - begin)") auto

function fill_rest :: "bool \<Rightarrow> nat \<Rightarrow> nat \<Rightarrow> QBitArray \<Rightarrow> QBitArray" where
  "fill_rest value begin end a =
    (if begin < end then fill_rest value (begin + 1) end (QBitArray_setBit_value a begin value) else a)"
  by pat_completeness auto
termination by (relation "measure (\<lambda>(value, begin, end, a). end - begin)") auto

declare fill_to_byte.simps [simp del] fill_rest.simps [simp del]

definition QBitArray_fill_range :: "QBitArray \<Rightarrow> bool \<Rightarrow> nat \<Rightarrow> nat \<Rightarrow> QBitArray" where
  "QBitArray_fill_range a value begin0 end =
    (let (begin, a) = fill_to_byte value begin0 end a in
     if end \<le> begin then a
     else
       let len = end - begin;
           s = len - len mod 8;
           p = begin div 8 + 1;
           c = bytes a;
           c = take p c @ replicate (s div 8) (if value then 0xFF else 0) @ drop (p + s div 8) c
       in fill_rest value (begin + s) end (QBitArray c))"

definition QBitArray_fill :: "QBitArray \<Rightarrow> bool \<Rightarrow> int \<Rightarrow> QBitArray" where
  "QBitArray_fill a value asize =
    new_QBitArray (if asize < 0 then QBitArray_size a else nat asize) value"

definition QBitArray_truncate :: "(nat \<Rightarrow> byte) \<Rightarrow> QBitArray \<Rightarrow> nat \<Rightarrow> QBitArray" where
  "QBitArray_truncate junk a pos =
    (if pos < QBitArray_size a then QBitArray_resize junk a pos else a)"

fun and_bytes :: "byte list \<Rightarrow> byte list \<Rightarrow> byte list" where
  "and_bytes [] ys = []"
| "and_bytes (x # xs) [] = 0 # and_bytes xs []"
| "and_bytes (x # xs) (y # ys) = (x AND y) # and_bytes xs ys"

fun merge_bytes :: "(byte \<Rightarrow> byte \<Rightarrow> byte) \<Rightarrow> byte list \<Rightarrow> byte list \<Rightarrow> byte list" where
  "merge_bytes f [] ys = []"
| "merge_bytes f (x # xs) [] = x # xs"
| "merge_bytes f (x # xs) (y # ys) = f x y # merge_bytes f xs ys"

definition QBitArray_and_assign :: "(nat \<Rightarrow> byte) \<Rightarrow> QBitArray \<Rightarrow> QBitArray \<Rightarrow> QBitArray" where
  "QBitArray_and_assign junk a other =
    (let a = QBitArray_resize junk a (max (QBitArray_size a) (QBitArray_size other))
     in QBitArray (take 1 (bytes a) @ and_bytes (tl (bytes a)) (tl (bytes other))))"

definition QBitArray_or_assign :: "(nat \<Rightarrow> byte) \<Rightarrow> QBitArray \<Rightarrow> QBitArray \<Rightarrow> QBitArray" where
  "QBitArray_or_assign junk a other =
    (let a = QBitArray_resize junk a (max (QBitArray_size a) (QBitArray_size other))
     in QBitArray (take 1 (bytes a) @ merge_bytes (OR) (tl (bytes a)) (tl (bytes other))))"

definition QBitArray_xor_assign :: "(nat \<Rightarrow> byte) \<Rightarrow> QBitArray \<Rightarrow> QBitArray \<Rightarrow> QBitArray" where
  "QBitArray_xor_assign junk a other =
    (let a = QBitArray_resize junk a (max (QBitArray_size a) (QBitArray_size other))
     in QBitArray (take 1 (bytes a) @ merge_bytes (XOR) (tl (bytes a)) (tl (bytes other))))"

definition QBitArray_not :: "QBitArray \<Rightarrow> QBitArray" where
  "QBitArray_not x =
    (let sz = QBitArray_size x;
         a = bytes (new_QBitArray sz False);
         a = take 1 a @ map NOT (tl (bytes x));
         n = length (bytes x) - 1
     in QBitArray (if sz mod 8 \<noteq> 0 then a[n := a ! n AND low_mask (sz mod 8)] else a))"

definition QBitArray_and :: "(nat \<Rightarrow> byte) \<Rightarrow> QBitArray \<Rightarrow> QBitArray \<Rightarrow> QBitArray" where
  "QBitArray_and junk a1 a2 = QBitArray_and_assign junk a1 a2"

definition QBitArray_or :: "(nat \<Rightarrow> byte) \<Rightarrow> QBitArray \<Rightarrow> QBitArray \<Rightarrow> QBitArray" where
  "QBitArray_or junk a1 a2 = QBitArray_or_assign junk a1 a2"

definition QBitArray_xor :: "(nat \<Rightarrow> byte) \<Rightarrow> QBitArray \<Rightarrow> QBitArray \<Rightarrow> QBitArray" where
  "QBitArray_xor junk a1 a2 = QBitArray_xor_assign junk a1 a2"

definition QBitArray_eq :: "QBitArray \<Rightarrow> QBitArray \<Rightarrow> bool" where
  "QBitArray_eq a b \<longleftrightarrow> bytes a = bytes b"

section \<open>Well-formed bit arrays\<close>

text \<open>Bits and bytes.\<close>

lemma byte_less: "j div 8 < k \<longleftrightarrow> j < 8 * (k::nat)"
  by (simp add: div_less_iff_less_mult mult.commute)

lemma ceil8: "(n + 7) div 8 = n div 8 + (if n mod 8 = 0 then 0 else (1::nat))"
  using div_add1_eq [of n 7 8] by auto

lemma ceil8_le: "(n + 7) div 8 \<le> k \<longleftrightarrow> n \<le> 8 * (k::nat)"
  using byte_less [of "n + 7" "k + 1"] by auto

lemma ceil8_less: "k < (n + 7) div 8 \<longleftrightarrow> 8 * k < (n::nat)"
  using ceil8_le [of n k] by linarith

lemma byte_inside: "j < n \<Longrightarrow> j div 8 < (n + 7) div (8::nat)"
  using ceil8_le [of n "(n + 7) div 8"] byte_less [of j "(n + 7) div 8"] by simp

definition raw_bit :: "byte list \<Rightarrow> nat \<Rightarrow> bool" where
  "raw_bit xs j = bit (xs ! (1 + j div 8)) (j mod 8)"

definition bits_wf :: "QBitArray \<Rightarrow> bool" where
  "bits_wf a \<longleftrightarrow> bytes a = [] \<or>
    (let n = QBitArray_size a in
     0 < n \<and> length (bytes a) = 1 + (n + 7) div 8 \<and> unat (hd (bytes a)) = 8 * length (bytes a) - n \<and>
     (\<forall>j. n \<le> j \<and> j < 8 * (length (bytes a) - 1) \<longrightarrow> \<not> raw_bit (bytes a) j))"

lemma bit_test: "((x :: byte) AND push_bit k 1 \<noteq> 0) = (k < 8 \<and> bit x k)"
proof -
  have "x AND push_bit k 1 = (if k < 8 \<and> bit x k then push_bit k 1 else 0)"
    by (rule bit_eqI) (auto simp: bit_simps)
  moreover have "k < 8 \<Longrightarrow> push_bit k (1 :: byte) \<noteq> 0"
    by (simp add: bit_eq_iff bit_simps) (metis bit_0 bit_push_bit_iff_nat diff_self_eq_0 le_refl)
  ultimately show ?thesis by auto
qed

lemma testBit_raw: "QBitArray_testBit a i = raw_bit (bytes a) i"
  unfolding QBitArray_testBit_def raw_bit_def bit_test by simp

lemma low_mask_bit: "k < 8 \<Longrightarrow> bit (low_mask k) j = (j < k)"
  by (auto simp: low_mask_def push_bit_eq_mult bit_simps simp flip: mask_eq_exp_minus_1)

lemma low_mask_and: "k < 8 \<Longrightarrow> bit (x AND low_mask k) j = (j < k \<and> bit x j)"
  by (auto simp: bit_and_iff low_mask_bit)

text \<open>The header holds the number of unused bits exactly.\<close>

lemma header_value:
  assumes "0 < n" "length c = 1 + (n + 7) div 8"
  shows "unat (of_nat (8 * length c - n) :: byte) = 8 * length c - n"
proof -
  have "8 * length c - n < 256" using assms ceil8_le [of n "(n + 7) div 8"] by (simp add: ceil8) (use mult_div_mod_eq [of 8 n] in linarith)
  then show ?thesis by (simp add: unat_of_nat)
qed

lemma set_header_props:
  assumes "0 < n" "length c = 1 + (n + 7) div 8"
  shows "QBitArray_size (QBitArray (set_header n c)) = n"
    "hd (set_header n c) = of_nat (8 * length c - n)" "length (set_header n c) = length c"
    "raw_bit (set_header n c) j = raw_bit c j" "set_header n c \<noteq> []" "tl (set_header n c) = tl c"
proof -
  have c: "c \<noteq> []" using assms(2) by auto
  show h: "hd (set_header n c) = of_nat (8 * length c - n)" using c by (cases c) (simp_all add: set_header_def)
  show "length (set_header n c) = length c" "set_header n c \<noteq> []" "tl (set_header n c) = tl c"
    using c by (cases c; simp add: set_header_def)+
  then show "QBitArray_size (QBitArray (set_header n c)) = n"
    using h header_value [OF assms] assms by (simp add: QBitArray_size_def)
  show "raw_bit (set_header n c) j = raw_bit c j" by (simp add: raw_bit_def set_header_def)
qed

lemma wf_set_header:
  assumes "0 < n" "length c = 1 + (n + 7) div 8" "\<And>j. n \<le> j \<Longrightarrow> j < 8 * ((n + 7) div 8) \<Longrightarrow> \<not> raw_bit c j"
  shows "bits_wf (QBitArray (set_header n c))"
  using assms set_header_props [OF assms(1,2)] header_value [OF assms(1,2)]
  by (simp add: bits_wf_def Let_def)

lemma raw_bit_update:
  "raw_bit (xs[p := y]) j = (if p = 1 + j div 8 \<and> p < length xs then bit y (j mod 8) else raw_bit xs j)"
  by (cases "p < length xs") (auto simp: raw_bit_def nth_list_update not_less list_update_beyond)

lemma last_byte:
  fixes n j :: nat
  assumes "n mod 8 \<noteq> 0" "n \<le> j" "j < 8 * ((n + 7) div 8)"
  shows "j div 8 = n div 8" "n mod 8 \<le> j mod 8" "(n + 7) div 8 = n div 8 + 1"
proof -
  show e: "(n + 7) div 8 = n div 8 + 1" using assms(1) by (simp add: ceil8)
  show d: "j div 8 = n div 8"
    using assms(2,3) e byte_less [of j "n div 8 + 1"] div_le_mono [of n j 8] by simp
  show "n mod 8 \<le> j mod 8"
    using d assms(2) mult_div_mod_eq [of 8 j] mult_div_mod_eq [of 8 n] by linarith
qed

lemma whole_bytes: "n mod 8 = 0 \<Longrightarrow> 8 * ((n + 7) div 8) = (n::nat)"
  using mult_div_mod_eq [of 8 n] by (simp add: ceil8)

text \<open>Masking the last byte clears the padding and nothing else.\<close>

lemma mask_last:
  assumes "0 < n" "length c = 1 + (n + 7) div 8"
  defines "m \<equiv> (if n mod 8 \<noteq> 0 then c[1 + n div 8 := c ! (1 + n div 8) AND low_mask (n mod 8)] else c)"
  shows "n \<le> j \<Longrightarrow> j < 8 * ((n + 7) div 8) \<Longrightarrow> \<not> raw_bit m j" "j < n \<Longrightarrow> raw_bit m j = raw_bit c j"
    "length m = length c"
proof -
  show "length m = length c" by (simp add: m_def)
  show "\<not> raw_bit m j" if "n \<le> j" "j < 8 * ((n + 7) div 8)"
  proof (cases "n mod 8 = 0")
    case True
    then show ?thesis using that whole_bytes [OF True] by simp
  next
    case False
    then show ?thesis
      using last_byte [OF False that] assms(2) by (simp add: m_def raw_bit_update low_mask_and)
  qed
  show "raw_bit m j = raw_bit c j" if "j < n"
  proof (cases "n mod 8 = 0")
    case False
    have "j mod 8 < n mod 8" if "j div 8 = n div 8"
    proof -
      show ?thesis
        using that \<open>j < n\<close> mult_div_mod_eq [of 8 j] mult_div_mod_eq [of 8 n] by linarith
    qed
    then show ?thesis
      using False assms(2) by (auto simp: m_def raw_bit_update low_mask_and) (auto simp: raw_bit_def)
  qed (simp add: m_def)
qed

lemma wf_length:
  assumes "bits_wf a" "bytes a \<noteq> []"
  shows "0 < QBitArray_size a" "length (bytes a) = 1 + (QBitArray_size a + 7) div 8"
    "\<And>j. QBitArray_size a \<le> j \<Longrightarrow> j < 8 * ((QBitArray_size a + 7) div 8) \<Longrightarrow> \<not> raw_bit (bytes a) j"
  using assms by (auto simp: bits_wf_def Let_def)

lemma wf_size_0: "bits_wf a \<Longrightarrow> bytes a = [] \<longleftrightarrow> QBitArray_size a = 0"
  by (cases "bytes a = []") (auto simp: QBitArray_size_def bits_wf_def Let_def)

lemma resize_result:
  fixes junk
  assumes w: "bits_wf a" and n: "0 < n"
  defines "r \<equiv> QBitArray_resize junk a n" and "s \<equiv> length (bytes a)"
  shows "QBitArray_size r = n" "bits_wf r" "length (bytes r) = 1 + (n + 7) div 8"
    "i < n \<Longrightarrow> raw_bit (bytes r) i =
      (if i < QBitArray_size a then raw_bit (bytes a) i
       else n \<le> 8 * s \<and> 1 + i div 8 = s \<and> bit (junk s) (i mod 8))"
proof -
  let ?N = "1 + (n + 7) div 8"
  define c where "c = QByteArray_resize junk (bytes a) ?N"
  have lc: "length c = ?N" by (simp add: c_def resize_bytes)
  have cn: "c ! p = (if p < s then bytes a ! p else junk p)" if "p < ?N" for p
    using that by (simp add: c_def s_def resize_bytes)
  have sw: "s = 0 \<and> QBitArray_size a = 0 \<or>
      s = 1 + (QBitArray_size a + 7) div 8 \<and> 0 < QBitArray_size a"
    using wf_length(1,2) [OF w] by (cases "bytes a = []") (simp_all add: s_def, simp add: QBitArray_size_def)
  have pad: "\<not> raw_bit (bytes a) j" if "QBitArray_size a \<le> j" "1 + j div 8 < s" for j
  proof -
    have "bytes a \<noteq> []" using that by (auto simp: s_def)
    moreover have "j < 8 * ((QBitArray_size a + 7) div 8)"
      using that(2) sw byte_less [of j "(QBitArray_size a + 7) div 8"] by auto
    ultimately show ?thesis using wf_length(3) [OF w] that(1) by blast
  qed
  have inside: "1 + i div 8 < ?N" if "i < n" for i using byte_inside [OF that] by simp
  have old: "1 + i div 8 < s" if "i < QBitArray_size a" for i using byte_inside [OF that] sw that by auto
  have main: "QBitArray_size r = n \<and> bits_wf r \<and> length (bytes r) = ?N \<and>
    (\<forall>i<n. raw_bit (bytes r) i = (if i < QBitArray_size a then raw_bit (bytes a) i
       else n \<le> 8 * s \<and> 1 + i div 8 = s \<and> bit (junk s) (i mod 8)))"
  proof (cases "n > 8 * s")
    case big: True
      define m where "m = take s c @ replicate (length c - s) 0"
      have lm: "length m = ?N" using lc big by (simp add: m_def)
      have r: "r = QBitArray (set_header n m)"
        using n big unfolding r_def QBitArray_resize_def c_def s_def m_def by (simp add: Let_def)
      have mb: "raw_bit m j = (1 + j div 8 < s \<and> raw_bit (bytes a) j)" if "1 + j div 8 < ?N" for j
        using that cn [OF that] lc by (auto simp: raw_bit_def m_def nth_append)
      have p: "QBitArray_size r = n" "length (bytes r) = ?N"
        using set_header_props [OF n lm] lm by (simp_all add: r)
      have wf: "bits_wf r"
        unfolding r
      proof (rule wf_set_header [OF n lm])
        fix j assume j: "n \<le> j" "j < 8 * ((n + 7) div 8)"
        have "QBitArray_size a \<le> j" using j big sw ceil8_le [of "QBitArray_size a" "s - 1"] by auto
        moreover have "1 + j div 8 < ?N" using j(2) by (simp add: byte_less)
        ultimately show "\<not> raw_bit m j" using pad mb by auto
      qed
      have "raw_bit (bytes r) i = (if i < QBitArray_size a then raw_bit (bytes a) i
       else n \<le> 8 * s \<and> 1 + i div 8 = s \<and> bit (junk s) (i mod 8))" if "i < n" for i
        using mb [OF inside [OF that]] old pad big by (auto simp: r set_header_props [OF n lm])
      then show ?thesis using p wf by blast
  next
    case small: False
      define m where "m = (if n mod 8 \<noteq> 0 then c[1 + n div 8 := c ! (1 + n div 8) AND low_mask (n mod 8)] else c)"
      note ml = mask_last [OF n lc, folded m_def]
      have lm: "length m = ?N" using ml(3) lc by simp
      have r: "r = QBitArray (set_header n m)"
        using n small unfolding r_def QBitArray_resize_def c_def s_def m_def by (simp add: Let_def)
      have p: "QBitArray_size r = n" "length (bytes r) = ?N"
        using set_header_props [OF n lm] lm by (simp_all add: r)
      have wf: "bits_wf r" unfolding r by (rule wf_set_header [OF n lm]) (rule ml(1))
      have "raw_bit (bytes r) i = (if i < QBitArray_size a then raw_bit (bytes a) i
       else n \<le> 8 * s \<and> 1 + i div 8 = s \<and> bit (junk s) (i mod 8))" if i: "i < n" for i
      proof -
        have "raw_bit (bytes r) i = raw_bit c i"
          using ml(2) [OF i] by (simp add: r set_header_props [OF n lm])
        also have "\<dots> = (if 1 + i div 8 < s then raw_bit (bytes a) i else bit (junk (1 + i div 8)) (i mod 8))"
          using cn [OF inside [OF i]] by (simp add: raw_bit_def)
        finally have e: "raw_bit (bytes r) i =
          (if 1 + i div 8 < s then raw_bit (bytes a) i else bit (junk (1 + i div 8)) (i mod 8))" .
        have "1 + i div 8 \<le> s" using i small byte_less [of i s] by simp
        then show ?thesis using e old [of i] pad [of i] small by (cases "1 + i div 8 = s") auto
      qed
      then show ?thesis using p wf by blast
  qed
  show "QBitArray_size r = n" "bits_wf r" "length (bytes r) = ?N"
    "i < n \<Longrightarrow> raw_bit (bytes r) i = (if i < QBitArray_size a then raw_bit (bytes a) i
       else n \<le> 8 * s \<and> 1 + i div 8 = s \<and> bit (junk s) (i mod 8))"
    using main by blast+
qed

section \<open>Construction and single bits\<close>

lemma all_ones: "k < 8 \<Longrightarrow> bit (0xFF :: byte) k"
proof -
  have "(0xFF :: byte) = - 1" by simp
  then show "k < 8 \<Longrightarrow> bit (0xFF :: byte) k" unfolding \<open>0xFF = - 1\<close> by (simp only: bit_minus_1_iff) simp
qed

lemma raw_bit_replicate:
  "j < 8 * (N - 1) \<Longrightarrow> raw_bit (replicate N (if v then 0xFF else 0)) j = v"
  using byte_less [of j "N - 1"] all_ones [of "j mod 8"] by (auto simp: raw_bit_def)

lemma new_QBitArray_result:
  "QBitArray_size (new_QBitArray n v) = n" "bits_wf (new_QBitArray n v)"
  "i < n \<Longrightarrow> raw_bit (bytes (new_QBitArray n v)) i = v"
  "length (bytes (new_QBitArray n v)) = (if n = 0 then 0 else 1 + (n + 7) div 8)"
proof -
  have main: "QBitArray_size (new_QBitArray n v) = n \<and> bits_wf (new_QBitArray n v) \<and>
    (\<forall>i<n. raw_bit (bytes (new_QBitArray n v)) i = v) \<and>
    length (bytes (new_QBitArray n v)) = 1 + (n + 7) div 8" if n: "0 < n"
  proof -
    define c :: "byte list" where "c = replicate (1 + (n + 7) div 8) (if v then 0xFF else 0)"
    define m where "m = (if n mod 8 \<noteq> 0 then c[1 + n div 8 := c ! (1 + n div 8) AND low_mask (n mod 8)] else c)"
    have lc: "length c = 1 + (n + 7) div 8" by (simp add: c_def)
    note ml = mask_last [OF n lc, folded m_def]
    have rc: "raw_bit c j = v" if "j < 8 * ((n + 7) div 8)" for j
      using raw_bit_replicate [of j "1 + (n + 7) div 8" v] that by (simp add: c_def)
    have inside: "j < 8 * ((n + 7) div 8)" if "j < n" for j
      using byte_inside [OF that] by (simp add: byte_less)
    show ?thesis
    proof (cases v)
      case True
      have lm: "length m = 1 + (n + 7) div 8" using ml(3) lc by simp
      have "new_QBitArray n v = QBitArray (set_header n m)"
        using n True unfolding new_QBitArray_def m_def c_def set_header_def
        by (auto simp: Let_def list_update_swap)
      then show ?thesis
        using set_header_props [OF n lm] lm wf_set_header [OF n lm ml(1)] ml(2) rc inside by simp
    next
      case False
      have "new_QBitArray n v = QBitArray (set_header n c)"
        using n False unfolding new_QBitArray_def c_def by (simp add: Let_def)
      then show ?thesis
        using set_header_props [OF n lc] lc wf_set_header [OF n lc] rc inside False by simp
    qed
  qed
  have "n = 0 \<Longrightarrow> new_QBitArray n v = QBitArray []" by (simp add: new_QBitArray_def)
  then show "QBitArray_size (new_QBitArray n v) = n" "bits_wf (new_QBitArray n v)"
    "i < n \<Longrightarrow> raw_bit (bytes (new_QBitArray n v)) i = v"
    "length (bytes (new_QBitArray n v)) = (if n = 0 then 0 else 1 + (n + 7) div 8)"
    using main by (cases "n = 0"; simp add: QBitArray_size_def bits_wf_def)+
qed

text \<open>A write to one data byte keeps the size, and the invariant when it leaves the padding alone.\<close>

lemma byte_update:
  assumes "bits_wf a" "i < QBitArray_size a"
    and "\<And>k. k < 8 \<Longrightarrow> k \<noteq> i mod 8 \<Longrightarrow> bit y k = bit (bytes a ! (1 + i div 8)) k"
  defines "r \<equiv> QBitArray ((bytes a)[1 + i div 8 := y])"
  shows "QBitArray_size r = QBitArray_size a" "bits_wf r" "length (bytes r) = length (bytes a)"
    "raw_bit (bytes r) j = (if j = i then bit y (i mod 8) else raw_bit (bytes a) j)"
proof -
  have ne: "bytes a \<noteq> []" using assms(2) by (auto simp: QBitArray_size_def)
  note w = wf_length [OF assms(1) ne]
  have p: "1 + i div 8 < length (bytes a)" using byte_inside [OF assms(2)] w(2) by simp
  have hd: "hd (bytes r) = hd (bytes a)" "bytes r \<noteq> []" using ne by (cases "bytes a"; simp add: r_def)+
  show sz: "QBitArray_size r = QBitArray_size a" and len: "length (bytes r) = length (bytes a)"
    using hd ne by (simp_all add: QBitArray_size_def, simp_all add: r_def)
  have same: "j = i" if "j div 8 = i div 8" "j mod 8 = i mod 8" for j
    using that by (metis mult_div_mod_eq)
  show rb: "raw_bit (bytes r) j = (if j = i then bit y (i mod 8) else raw_bit (bytes a) j)" for j
  proof (cases "j div 8 = i div 8")
    case True
    then have "raw_bit (bytes r) j = bit y (j mod 8)" using p by (simp add: r_def raw_bit_update)
    moreover have "j \<noteq> i \<Longrightarrow> bit y (j mod 8) = raw_bit (bytes a) j"
      using assms(3) [of "j mod 8"] same [of j] True by (auto simp: raw_bit_def)
    ultimately show ?thesis by auto
  next
    case False
    then show ?thesis by (auto simp: r_def raw_bit_update)
  qed
  show "bits_wf r"
    using assms(1,2) hd sz len rb ne by (auto simp: bits_wf_def Let_def)
qed

lemma setBit_value_result:
  assumes "bits_wf a" "i < QBitArray_size a"
  shows "QBitArray_size (QBitArray_setBit_value a i v) = QBitArray_size a"
    "bits_wf (QBitArray_setBit_value a i v)"
    "length (bytes (QBitArray_setBit_value a i v)) = length (bytes a)"
    "raw_bit (bytes (QBitArray_setBit_value a i v)) j = (if j = i then v else raw_bit (bytes a) j)"
proof -
  define y where "y = (if v then (bytes a ! (1 + i div 8)) OR push_bit (i mod 8) 1
    else (bytes a ! (1 + i div 8)) AND NOT (push_bit (i mod 8) 1))"
  have s: "QBitArray_setBit_value a i v = QBitArray ((bytes a)[1 + i div 8 := y])"
    by (simp add: QBitArray_setBit_value_def QBitArray_setBit_def QBitArray_clearBit_def y_def)
  have y: "bit y (i mod 8) = v" "\<And>k. k < 8 \<Longrightarrow> k \<noteq> i mod 8 \<Longrightarrow> bit y k = bit (bytes a ! (1 + i div 8)) k"
    by (auto simp: y_def bit_simps)
  show "QBitArray_size (QBitArray_setBit_value a i v) = QBitArray_size a"
    "bits_wf (QBitArray_setBit_value a i v)"
    "length (bytes (QBitArray_setBit_value a i v)) = length (bytes a)"
    "raw_bit (bytes (QBitArray_setBit_value a i v)) j = (if j = i then v else raw_bit (bytes a) j)"
    unfolding s using byte_update [OF assms y(2)] y(1) by simp_all
qed

lemma toggleBit_result:
  assumes "bits_wf a" "i < QBitArray_size a"
  defines "r \<equiv> fst (QBitArray_toggleBit a i)"
  shows "QBitArray_size r = QBitArray_size a" "bits_wf r"
    "raw_bit (bytes r) j = (if j = i then \<not> raw_bit (bytes a) i else raw_bit (bytes a) j)"
    "snd (QBitArray_toggleBit a i) = raw_bit (bytes a) i"
proof -
  define y where "y = (bytes a ! (1 + i div 8)) XOR push_bit (i mod 8) 1"
  have s: "r = QBitArray ((bytes a)[1 + i div 8 := y])"
    by (simp add: r_def QBitArray_toggleBit_def Let_def y_def)
  have y: "bit y (i mod 8) = (\<not> raw_bit (bytes a) i)"
    "\<And>k. k < 8 \<Longrightarrow> k \<noteq> i mod 8 \<Longrightarrow> bit y k = bit (bytes a ! (1 + i div 8)) k"
    by (auto simp: y_def bit_simps raw_bit_def)
  show "QBitArray_size r = QBitArray_size a" "bits_wf r"
    "raw_bit (bytes r) j = (if j = i then \<not> raw_bit (bytes a) i else raw_bit (bytes a) j)"
    unfolding s using byte_update [OF assms(1,2) y(2)] y(1) by simp_all
  show "snd (QBitArray_toggleBit a i) = raw_bit (bytes a) i"
    using testBit_raw [of a i] by (simp only: QBitArray_toggleBit_def Let_def snd_conv QBitArray_testBit_def)
qed

section \<open>Bitwise operations\<close>

text \<open>The bit of an array, false outside it; and the new sizes \<open>resize\<close> zero-fills correctly.\<close>

definition bit_at :: "QBitArray \<Rightarrow> nat \<Rightarrow> bool" where
  "bit_at a i \<longleftrightarrow> i < QBitArray_size a \<and> QBitArray_testBit a i"

definition grows_clean :: "QBitArray \<Rightarrow> nat \<Rightarrow> bool" where
  "grows_clean a n \<longleftrightarrow> n \<le> 8 * (length (bytes a) - 1) \<or> 8 * length (bytes a) < n"

lemma empty_array:
  "QBitArray_size (QBitArray []) = 0" "bits_wf (QBitArray [])" "bit_at (QBitArray []) i = False"
  by (simp_all add: QBitArray_size_def bits_wf_def bit_at_def)

lemma and_bytes_nth:
  "length (and_bytes xs ys) = length xs"
  "p < length xs \<Longrightarrow> and_bytes xs ys ! p = (if p < length ys then xs ! p AND ys ! p else 0)"
  by (induction xs ys arbitrary: p rule: and_bytes.induct) (auto simp: nth_Cons split: nat.split)

lemma merge_bytes_nth:
  "length (merge_bytes f xs ys) = length xs"
  "p < length xs \<Longrightarrow> merge_bytes f xs ys ! p = (if p < length ys then f (xs ! p) (ys ! p) else xs ! p)"
  by (induction f xs ys arbitrary: p rule: merge_bytes.induct) (auto simp: nth_Cons split: nat.split)

lemma raw_bit_at:
  assumes "bits_wf a" "j div 8 < length (bytes a) - 1"
  shows "bit (tl (bytes a) ! (j div 8)) (j mod 8) = bit_at a j"
proof -
  have ne: "bytes a \<noteq> []" using assms(2) by auto
  have "bit (tl (bytes a) ! (j div 8)) (j mod 8) = raw_bit (bytes a) j"
    using assms(2) by (simp add: raw_bit_def nth_tl)
  moreover have "\<not> raw_bit (bytes a) j" if "QBitArray_size a \<le> j"
    using wf_length(3) [OF assms(1) ne that] assms(2) wf_length(2) [OF assms(1) ne]
    by (simp add: byte_less)
  ultimately show ?thesis
    by (cases "j < QBitArray_size a") (auto simp: bit_at_def testBit_raw)
qed

lemma bit_at_beyond:
  assumes "bits_wf a" "\<not> j div 8 < length (bytes a) - 1"
  shows "\<not> bit_at a j"
proof (cases "bytes a = []")
  case True
  then show ?thesis by (simp add: bit_at_def QBitArray_size_def)
next
  case False
  then show ?thesis
    using byte_inside [of j "QBitArray_size a"] wf_length(2) [OF assms(1) False] assms(2)
    by (auto simp: bit_at_def)
qed

text \<open>A result that keeps the header and replaces the data bytes.\<close>

lemma replace_data:
  assumes "bits_wf a" "bytes a \<noteq> []" "length g = length (bytes a) - 1"
    and g: "\<And>j. j div 8 < length g \<Longrightarrow> bit (g ! (j div 8)) (j mod 8) = P j"
    and "\<And>j. QBitArray_size a \<le> j \<Longrightarrow> \<not> P j"
  defines "r \<equiv> QBitArray (take 1 (bytes a) @ g)"
  shows "QBitArray_size r = QBitArray_size a" "bits_wf r" "bit_at r j = P j"
proof -
  note w = wf_length [OF assms(1,2)]
  obtain h t where ht: "bytes a = h # t" using assms(2) by (cases "bytes a") auto
  have b: "bytes r = h # g" "length g = length t" using assms(3) by (simp_all add: r_def ht)
  show s: "QBitArray_size r = QBitArray_size a" using b by (simp add: QBitArray_size_def ht)
  have rb: "raw_bit (bytes r) j = P j" if "j div 8 < length g" for j
    using g [OF that] by (simp add: raw_bit_def b)
  have "hd (bytes r) = hd (bytes a)" "length (bytes r) = length (bytes a)" using b by (simp_all add: ht)
  then show wf: "bits_wf r"
    using assms(1,2,5) s rb b by (auto simp: bits_wf_def Let_def ht byte_less)
  have "j div 8 < length g" if "j < QBitArray_size a"
    using byte_inside [OF that] w(2) assms(3) by simp
  then show "bit_at r j = P j"
    using rb assms(5) [of j] s by (cases "j < QBitArray_size a") (auto simp: bit_at_def testBit_raw)
qed

lemma resize_bit_at:
  assumes "bits_wf a" "grows_clean a n" "0 < n" "QBitArray_size a \<le> n"
  shows "bit_at (QBitArray_resize junk a n) i = bit_at a i"
proof -
  note r = resize_result [OF assms(1,3), where junk = junk]
  have "n \<le> 8 * (length (bytes a) - 1) \<Longrightarrow> i < n \<Longrightarrow> 1 + i div 8 \<noteq> length (bytes a)"
    using byte_less [of i "length (bytes a) - 1"] by auto
  then show ?thesis
    using r(1,4) assms(2,4) by (auto simp: bit_at_def testBit_raw grows_clean_def split: if_splits)
qed

lemma bitwise_result:
  fixes junk and f :: "bool \<Rightarrow> bool \<Rightarrow> bool" and h
  assumes "bits_wf a" "bits_wf b" "grows_clean a n" "n = max (QBitArray_size a) (QBitArray_size b)"
  defines "a' \<equiv> QBitArray_resize junk a n"
  assumes "length (h (tl (bytes a')) (tl (bytes b))) = length (tl (bytes a'))"
    and "\<And>p k. p < length (tl (bytes a')) \<Longrightarrow> k < 8 \<Longrightarrow> bit (h (tl (bytes a')) (tl (bytes b)) ! p) k =
      f (bit (tl (bytes a') ! p) k) (p < length (tl (bytes b)) \<and> bit (tl (bytes b) ! p) k)"
    and "f False False = False"
  defines "r \<equiv> QBitArray (take 1 (bytes a') @ h (tl (bytes a')) (tl (bytes b)))"
  shows "QBitArray_size r = n" "bits_wf r" "bit_at r i = f (bit_at a i) (bit_at b i)"
proof -
  have "QBitArray_size r = n \<and> bits_wf r \<and> (\<forall>i. bit_at r i = f (bit_at a i) (bit_at b i))"
  proof (cases "n = 0")
    case True
    then have "bytes a' = []" by (simp add: a'_def QBitArray_resize_def)
    then have "r = QBitArray []" using assms(6) by (simp add: r_def)
    moreover have "bit_at a i = False" "bit_at b i = False" for i
      using True assms(4) by (auto simp: bit_at_def max_def split: if_splits)
    ultimately show ?thesis
      using True assms(8) empty_array by simp
  next
    case False
    have n: "0 < n" "QBitArray_size a \<le> n" "QBitArray_size b \<le> n" using False assms(4) by auto
    note ra = resize_result [OF assms(1) n(1), where junk = junk, folded a'_def]
    have ne: "bytes a' \<noteq> []" using ra(3) by auto
    have ba: "bit_at a' j = bit_at a j" for j
      unfolding a'_def by (rule resize_bit_at [OF assms(1,3) n(1,2)])
    have d: "bit (h (tl (bytes a')) (tl (bytes b)) ! (j div 8)) (j mod 8) = f (bit_at a j) (bit_at b j)"
      if "j div 8 < length (h (tl (bytes a')) (tl (bytes b)))" for j
    proof -
      have l: "j div 8 < length (tl (bytes a'))" using that assms(6) by simp
      have "bit (tl (bytes a') ! (j div 8)) (j mod 8) = bit_at a j"
        using raw_bit_at [OF ra(2)] l ba by simp
      moreover have "(j div 8 < length (tl (bytes b)) \<and> bit (tl (bytes b) ! (j div 8)) (j mod 8)) = bit_at b j"
        using raw_bit_at [OF assms(2), of j] bit_at_beyond [OF assms(2), of j] by auto
      ultimately show ?thesis using assms(7) [OF l, of "j mod 8"] by simp
    qed
    have z: "\<not> f (bit_at a j) (bit_at b j)" if "QBitArray_size a' \<le> j" for j
      using that n(2,3) ra(1) assms(8) by (simp add: bit_at_def)
    show ?thesis
      using replace_data [OF ra(2) ne _ d z] assms(6) ra(1) by (simp add: r_def)
  qed
  then show "QBitArray_size r = n" "bits_wf r" "bit_at r i = f (bit_at a i) (bit_at b i)" by auto
qed

lemma not_result:
  assumes "bits_wf a"
  shows "QBitArray_size (QBitArray_not a) = QBitArray_size a" "bits_wf (QBitArray_not a)"
    "bit_at (QBitArray_not a) i = (i < QBitArray_size a \<and> \<not> bit_at a i)"
proof -
  let ?n = "QBitArray_size a"
  let ?P = "\<lambda>j. j < ?n \<and> \<not> bit_at a j"
  have "QBitArray_size (QBitArray_not a) = ?n \<and> bits_wf (QBitArray_not a) \<and>
    (\<forall>i. bit_at (QBitArray_not a) i = ?P i)"
  proof (cases "bytes a = []")
    case True
    then have "?n = 0" by (simp add: QBitArray_size_def)
    then show ?thesis
      using True by (simp add: QBitArray_not_def Let_def new_QBitArray_def QBitArray_size_def bits_wf_def bit_at_def)
  next
    case ne: False
    note w = wf_length [OF assms ne]
    let ?z = "new_QBitArray ?n False"
    note nz = new_QBitArray_result [where n = ?n and v = False]
    have lz: "length (bytes ?z) = length (bytes a)" "bytes ?z \<noteq> []" using nz(4) w by auto
    define c where "c = take 1 (bytes ?z) @ map NOT (tl (bytes a))"
    have lc: "length c = 1 + (?n + 7) div 8" using lz w by (auto simp: c_def)
    define m where "m = (if ?n mod 8 \<noteq> 0 then c[1 + ?n div 8 := c ! (1 + ?n div 8) AND low_mask (?n mod 8)] else c)"
    have "1 + ?n div 8 = length (bytes a) - 1" if "?n mod 8 \<noteq> 0" using that w by (simp add: ceil8)
    then have r: "QBitArray_not a = QBitArray m"
      by (auto simp: QBitArray_not_def Let_def m_def c_def)
    note ml = mask_last [OF w(1) lc, folded m_def]
    have hc: "c = hd (bytes ?z) # map NOT (tl (bytes a))" using lz(2) by (cases "bytes ?z") (simp_all add: c_def)
    have hm: "m = hd (bytes ?z) # tl m" using hc by (auto simp: m_def split: if_splits)
    have rc: "raw_bit c j = (\<not> raw_bit (bytes a) j)" if "j < ?n" for j
    proof -
      have "j div 8 < length (tl (bytes a))" using byte_inside [OF that] w(2) by simp
      then show ?thesis by (simp add: raw_bit_def hc nth_tl bit_not_iff)
    qed
    have lm: "length (tl m) = length (bytes ?z) - 1" using ml(3) lc lz w by simp
    have mb: "bit (tl m ! (j div 8)) (j mod 8) = ?P j" if "j div 8 < length (tl m)" for j
    proof -
      have "bit (tl m ! (j div 8)) (j mod 8) = raw_bit m j" by (subst (2) hm) (simp add: raw_bit_def)
      moreover have "j < 8 * ((?n + 7) div 8)" using that lm lz w by (simp add: byte_less)
      ultimately show ?thesis
        using ml(1,2) [of j] rc [of j] by (cases "j < ?n") (auto simp: bit_at_def testBit_raw)
    qed
    have "m = take 1 (bytes ?z) @ tl m" using hm lz(2) by (cases "bytes ?z") auto
    then show ?thesis
      using replace_data [OF nz(2) lz(2) lm mb] nz(1) r by simp
  qed
  then show "QBitArray_size (QBitArray_not a) = ?n" "bits_wf (QBitArray_not a)"
    "bit_at (QBitArray_not a) i = (i < QBitArray_size a \<and> \<not> bit_at a i)" by auto
qed

section \<open>What the class promises\<close>

text \<open>
  C18: \<open>resize\<close> on a well-formed array gives a well-formed array of the new size with the old bits
  kept; every new bit is false unless the new size needs exactly one more byte than the array has:
  then the new bits of that byte are what the uninitialised memory held.
\<close>

theorem QBitArray_resize_exact:
  assumes "bits_wf a" "0 < n" "i < n"
  shows "QBitArray_size (QBitArray_resize junk a n) = n \<and> bits_wf (QBitArray_resize junk a n) \<and>
    (QBitArray_testBit (QBitArray_resize junk a n) i \<longleftrightarrow>
      (if i < QBitArray_size a then QBitArray_testBit a i
       else n \<le> 8 * length (bytes a) \<and> 1 + i div 8 = length (bytes a) \<and>
            bit (junk (length (bytes a))) (i mod 8)))"
  using resize_result [OF assms(1,2), where junk = junk] assms(3) by (simp add: testBit_raw)

theorem QBitArray_resize_exact_witness:
  "QBitArray_size (QBitArray_resize (\<lambda>_. 0xFF) (new_QBitArray 8 False) 12) = 12 \<and>
    bits_wf (QBitArray_resize (\<lambda>_. 0xFF) (new_QBitArray 8 False) 12) \<and>
    (QBitArray_testBit (QBitArray_resize (\<lambda>_. 0xFF) (new_QBitArray 8 False) 12) 9 \<longleftrightarrow>
      (if 9 < QBitArray_size (new_QBitArray 8 False) then QBitArray_testBit (new_QBitArray 8 False) 9
       else 12 \<le> 8 * length (bytes (new_QBitArray 8 False)) \<and>
            1 + 9 div 8 = length (bytes (new_QBitArray 8 False)) \<and>
            bit ((\<lambda>_. 0xFF :: byte) (length (bytes (new_QBitArray 8 False)))) (9 mod 8)))"
  by (rule QBitArray_resize_exact [OF new_QBitArray_result(2)]) simp_all

text \<open>The array of 8 clear bits, resized to 12: bit 9 is set when the new byte held ones.\<close>

lemma resize_keeps_junk: "QBitArray_testBit (QBitArray_resize (\<lambda>_. 0xFF) (new_QBitArray 8 False) 12) 9"
  by code_simp

text \<open>
  C19: the bitwise operators work bit by bit, missing bits counting as false, and give a well-formed
  array of the larger size, whenever \<open>resize\<close> to that size is clean; complement inverts exactly the
  bits of the array.
\<close>

theorem QBitArray_bitwise:
  assumes "bits_wf a" "bits_wf b" "grows_clean a (max (QBitArray_size a) (QBitArray_size b))"
  shows "QBitArray_size (QBitArray_and junk a b) = max (QBitArray_size a) (QBitArray_size b)
    \<and> QBitArray_size (QBitArray_or junk a b) = max (QBitArray_size a) (QBitArray_size b)
    \<and> QBitArray_size (QBitArray_xor junk a b) = max (QBitArray_size a) (QBitArray_size b)
    \<and> QBitArray_size (QBitArray_not a) = QBitArray_size a
    \<and> bit_at (QBitArray_and junk a b) i = (bit_at a i \<and> bit_at b i)
    \<and> bit_at (QBitArray_or junk a b) i = (bit_at a i \<or> bit_at b i)
    \<and> bit_at (QBitArray_xor junk a b) i = (bit_at a i \<noteq> bit_at b i)
    \<and> bit_at (QBitArray_not a) i = (i < QBitArray_size a \<and> \<not> bit_at a i)
    \<and> bits_wf (QBitArray_and junk a b) \<and> bits_wf (QBitArray_or junk a b)
    \<and> bits_wf (QBitArray_xor junk a b) \<and> bits_wf (QBitArray_not a)"
proof -
  note r = bitwise_result [OF assms refl, where junk = junk]
  note and_r = r [where h = and_bytes and f = "(\<and>)"]
    and or_r = r [where h = "merge_bytes (OR)" and f = "(\<or>)"]
    and xor_r = r [where h = "merge_bytes (XOR)" and f = "(\<noteq>)"]
  show ?thesis
    unfolding QBitArray_and_def QBitArray_or_def QBitArray_xor_def QBitArray_and_assign_def
      QBitArray_or_assign_def QBitArray_xor_assign_def Let_def
    by (intro conjI and_r or_r xor_r not_result [OF assms(1)])
      (auto simp: and_bytes_nth merge_bytes_nth bit_simps)
qed

theorem QBitArray_bitwise_witness:
  "QBitArray_size (QBitArray_and (\<lambda>_. 7) (new_QBitArray 5 True) (new_QBitArray 3 True)) =
      max (QBitArray_size (new_QBitArray 5 True)) (QBitArray_size (new_QBitArray 3 True))"
  by (rule conjunct1 [OF QBitArray_bitwise [OF new_QBitArray_result(2) new_QBitArray_result(2)]])
    (simp add: new_QBitArray_result grows_clean_def)

lemma count_fold: "fold (\<lambda>i k. k + (if P i then 1 else 0)) [0..<n] (c::nat) = c + card {i. i < n \<and> P i}"
proof (induction n)
  case (Suc n)
  have "{i. i < Suc n \<and> P i} = (if P n then insert n {i. i < n \<and> P i} else {i. i < n \<and> P i})"
    by (auto simp: less_Suc_eq)
  then show ?case using Suc by simp
qed simp

lemma wf_bytes_eq:
  assumes "bits_wf a" "bits_wf b" "QBitArray_size a = QBitArray_size b"
    "\<And>i. i < QBitArray_size a \<Longrightarrow> raw_bit (bytes a) i = raw_bit (bytes b) i"
  shows "bytes a = bytes b"
proof (cases "bytes a = []")
  case True
  then show ?thesis using wf_size_0 [OF assms(1)] wf_size_0 [OF assms(2)] assms(3) by simp
next
  case False
  then have nb: "bytes b \<noteq> []" using wf_size_0 [OF assms(1)] wf_size_0 [OF assms(2)] assms(3) by simp
  have same: "raw_bit (bytes a) j = raw_bit (bytes b) j" if "j < 8 * ((QBitArray_size a + 7) div 8)" for j
    using that assms(3,4) wf_length(3) [OF assms(1) False, of j] wf_length(3) [OF assms(2) nb, of j]
    by (cases "j < QBitArray_size a") auto
  have l: "length (bytes a) = length (bytes b)" "length (bytes a) = 1 + (QBitArray_size a + 7) div 8"
    using wf_length(2) [OF assms(1) False] wf_length(2) [OF assms(2) nb] assms(3) by simp_all
  show ?thesis
  proof (rule nth_equalityI [OF l(1)])
    fix p assume p: "p < length (bytes a)"
    show "bytes a ! p = bytes b ! p"
    proof (cases p)
      case 0
      have "hd (bytes a) = hd (bytes b)"
        using assms(1-3) False nb l(1) by (simp add: bits_wf_def Let_def word_unat_eq_iff)
      then show ?thesis using 0 False nb by (simp add: hd_conv_nth)
    next
      case (Suc q)
      show ?thesis
      proof (rule bit_word_eqI)
        fix k assume k: "k < LENGTH(8)"
        have "(8 * q + k) div 8 = q" "(8 * q + k) mod 8 = k" using k by auto
        moreover have "8 * q + k < 8 * ((QBitArray_size a + 7) div 8)" using p Suc l(2) k by simp
        ultimately show "bit (bytes a ! p) k = bit (bytes b ! p) k"
          using same [of "8 * q + k"] Suc by (simp add: raw_bit_def)
      qed
    qed
  qed
qed

text \<open>
  Two well-formed arrays compare equal, byte by byte, exactly when they have the same size and the
  same bits; \<open>count(true)\<close> and \<open>count(false)\<close> count the set and the clear bits.
\<close>

theorem QBitArray_eq_count:
  assumes "bits_wf a" "bits_wf b"
  shows "(QBitArray_eq a b \<longleftrightarrow> QBitArray_size a = QBitArray_size b \<and>
      (\<forall>i < QBitArray_size a. QBitArray_testBit a i = QBitArray_testBit b i))
    \<and> QBitArray_count a True = card {i. bit_at a i}
    \<and> QBitArray_count a True + QBitArray_count a False = QBitArray_size a"
proof -
  have "card {i. i < QBitArray_size a \<and> QBitArray_testBit a i} \<le> card {0..<QBitArray_size a}"
    by (rule card_mono) auto
  then have "QBitArray_count a True = card {i. bit_at a i}"
    "QBitArray_count a True + QBitArray_count a False = QBitArray_size a"
    by (simp_all add: QBitArray_count_def Let_def count_fold bit_at_def)
  moreover have "QBitArray_eq a b" if "QBitArray_size a = QBitArray_size b"
    "\<forall>i < QBitArray_size a. QBitArray_testBit a i = QBitArray_testBit b i"
    using wf_bytes_eq [OF assms] that by (simp add: QBitArray_eq_def testBit_raw)
  moreover have "QBitArray_size a = QBitArray_size b \<and>
      (\<forall>i < QBitArray_size a. QBitArray_testBit a i = QBitArray_testBit b i)" if "QBitArray_eq a b"
    using that by (simp add: QBitArray_eq_def QBitArray_size_def QBitArray_testBit_def)
  ultimately show ?thesis by blast
qed

theorem QBitArray_eq_count_witness:
  "QBitArray_count (new_QBitArray 3 True) True = card {i. bit_at (new_QBitArray 3 True) i}"
  by (rule conjunct1 [OF conjunct2 [OF QBitArray_eq_count [OF new_QBitArray_result(2) new_QBitArray_result(2)]]])

section \<open>Filling a range\<close>

lemma fill_rest_result:
  assumes "bits_wf a" "end \<le> QBitArray_size a"
  shows "QBitArray_size (fill_rest v b end a) = QBitArray_size a" "bits_wf (fill_rest v b end a)"
    "raw_bit (bytes (fill_rest v b end a)) j = (if b \<le> j \<and> j < end then v else raw_bit (bytes a) j)"
proof -
  have "QBitArray_size (fill_rest v b end a) = QBitArray_size a \<and> bits_wf (fill_rest v b end a) \<and>
    raw_bit (bytes (fill_rest v b end a)) j = (if b \<le> j \<and> j < end then v else raw_bit (bytes a) j)"
    using assms
  proof (induction v b "end" a rule: fill_rest.induct)
    case (1 v b "end" a)
    show ?case
    proof (cases "b < end")
      case True
      note s = setBit_value_result [OF "1.prems"(1), of b v]
      show ?thesis
        using "1.IH" [OF True] s "1.prems" True by (subst (1 2 3) fill_rest.simps) auto
    qed (auto simp: fill_rest.simps "1.prems")
  qed
  then show "QBitArray_size (fill_rest v b end a) = QBitArray_size a" "bits_wf (fill_rest v b end a)"
    "raw_bit (bytes (fill_rest v b end a)) j = (if b \<le> j \<and> j < end then v else raw_bit (bytes a) j)"
    by auto
qed

lemma fill_to_byte_result:
  assumes "bits_wf a" "end \<le> QBitArray_size a" "fill_to_byte v b end a = (b', a')"
  shows "QBitArray_size a' = QBitArray_size a \<and> bits_wf a' \<and> b \<le> b' \<and> (b \<le> end \<longrightarrow> b' \<le> end) \<and>
    (end \<le> b \<longrightarrow> b' = b) \<and> (b' < end \<longrightarrow> b' mod 8 = 0) \<and>
    (\<forall>j. raw_bit (bytes a') j = (if b \<le> j \<and> j < b' then v else raw_bit (bytes a) j))"
  using assms
proof (induction v b "end" a rule: fill_to_byte.induct)
  case (1 v b "end" a)
  show ?case
  proof (cases "b < end \<and> b mod 8 \<noteq> 0")
    case True
    then have s: "b < QBitArray_size a" using "1.prems"(2) by simp
    note sb = setBit_value_result [OF "1.prems"(1) s, of v]
    have "fill_to_byte v (b + 1) end (QBitArray_setBit_value a b v) = (b', a')"
      using "1.prems"(3) True by (subst (asm) fill_to_byte.simps) simp
    then have "QBitArray_size a' = QBitArray_size (QBitArray_setBit_value a b v) \<and> bits_wf a' \<and> b + 1 \<le> b' \<and>
      (b + 1 \<le> end \<longrightarrow> b' \<le> end) \<and> (b' < end \<longrightarrow> b' mod 8 = 0) \<and>
      (\<forall>j. raw_bit (bytes a') j = (if b + 1 \<le> j \<and> j < b' then v
        else raw_bit (bytes (QBitArray_setBit_value a b v)) j))"
      using "1.IH" [OF True sb(2)] sb(1) "1.prems"(2) by simp
    then show ?thesis using sb(1,4) True by auto
  next
    case False
    then have "b' = b" "a' = a" using "1.prems"(3) unfolding fill_to_byte.simps [of v b "end" a] by auto
    then show ?thesis using "1.prems"(1) False by auto
  qed
qed

lemma memset_result:
  fixes v :: bool
  assumes "bits_wf a" "b mod 8 = 0" "s mod 8 = 0" "b + s \<le> QBitArray_size a" "0 < s"
  defines "c \<equiv> take (b div 8 + 1) (bytes a) @ replicate (s div 8) (if v then 0xFF else 0)
    @ drop (b div 8 + 1 + s div 8) (bytes a)"
  shows "QBitArray_size (QBitArray c) = QBitArray_size a" "bits_wf (QBitArray c)"
    "j < QBitArray_size a \<Longrightarrow> raw_bit c j = (if b \<le> j \<and> j < b + s then v else raw_bit (bytes a) j)"
proof -
  have ne: "bytes a \<noteq> []" using assms(4,5) by (auto simp: QBitArray_size_def)
  note w = wf_length [OF assms(1) ne]
  obtain q r where qr: "b = 8 * q" "s = 8 * r" using assms(2,3) by (auto elim!: dvdE simp: mod_eq_0_iff_dvd)
  have "q + r \<le> (QBitArray_size a + 7) div 8" using assms(4) qr ceil8_less [of "q + r - 1" "QBitArray_size a"]
    by (cases "q + r") auto
  then have le: "q + 1 + r \<le> length (bytes a)" using w(2) by simp
  have cq: "c = take (q + 1) (bytes a) @ replicate r (if v then 0xFF else 0) @ drop (q + 1 + r) (bytes a)"
    by (simp add: c_def qr)
  have len: "length c = length (bytes a)" using le by (simp add: cq)
  have hd: "hd c = hd (bytes a)" "c \<noteq> []" using ne by (cases "bytes a"; simp add: cq)+
  show sz: "QBitArray_size (QBitArray c) = QBitArray_size a"
    using hd len ne by (simp add: QBitArray_size_def)
  have byte: "c ! (1 + p) = (if q \<le> p \<and> p < q + r then (if v then 0xFF else 0) else bytes a ! (1 + p))"
    if "1 + p < length (bytes a)" for p
    using le that by (auto simp: cq nth_append min_def)
  have range: "q \<le> j div 8 \<and> j div 8 < q + r \<longleftrightarrow> b \<le> j \<and> j < b + s" for j
    using byte_less [of j "q + r"] byte_less [of j q] by (auto simp: qr)
  have rb: "raw_bit c j = (if b \<le> j \<and> j < b + s then v else raw_bit (bytes a) j)"
    if "1 + j div 8 < length (bytes a)" for j
    unfolding raw_bit_def byte [OF that] using range [of j] all_ones [of "j mod 8"] by auto
  show "bits_wf (QBitArray c)"
    using assms(1,4) ne hd len sz rb by (auto simp: bits_wf_def Let_def byte_less)
  show "j < QBitArray_size a \<Longrightarrow> raw_bit c j = (if b \<le> j \<and> j < b + s then v else raw_bit (bytes a) j)"
    using rb [of j] byte_inside [of j "QBitArray_size a"] w(2) by simp
qed

text \<open>
  \<open>fill(value, begin, end)\<close> sets exactly the bits from \<open>begin\<close> up to \<open>end\<close>, through the bit loops
  and the \<open>memset\<close> of whole bytes, and keeps the size and the invariant; \<open>toggleBit\<close> inverts one bit
  and returns the old one.
\<close>

theorem QBitArray_fill_exact:
  assumes "bits_wf a" "end \<le> QBitArray_size a" "i < QBitArray_size a" "j < QBitArray_size a"
  shows "QBitArray_size (QBitArray_fill_range a v begin end) = QBitArray_size a
    \<and> bits_wf (QBitArray_fill_range a v begin end)
    \<and> QBitArray_testBit (QBitArray_fill_range a v begin end) j =
        (if begin \<le> j \<and> j < end then v else QBitArray_testBit a j)
    \<and> QBitArray_testBit (fst (QBitArray_toggleBit a i)) j =
        (if j = i then \<not> QBitArray_testBit a i else QBitArray_testBit a j)
    \<and> snd (QBitArray_toggleBit a i) = QBitArray_testBit a i"
proof -
  obtain b' a' where f: "fill_to_byte v begin end a = (b', a')" by fastforce
  note h = fill_to_byte_result [OF assms(1,2) f]
  have "QBitArray_size (QBitArray_fill_range a v begin end) = QBitArray_size a
    \<and> bits_wf (QBitArray_fill_range a v begin end)
    \<and> raw_bit (bytes (QBitArray_fill_range a v begin end)) j =
        (if begin \<le> j \<and> j < end then v else raw_bit (bytes a) j)"
  proof (cases "end \<le> b'")
    case True
    then have "QBitArray_fill_range a v begin end = a'" by (simp add: QBitArray_fill_range_def f)
    moreover have "begin \<le> j \<and> j < b' \<longleftrightarrow> begin \<le> j \<and> j < end" using h True by (cases "begin \<le> end") auto
    ultimately show ?thesis using h by simp
  next
    case False
    define s where "s = (end - b') - (end - b') mod 8"
    define c where "c = take (b' div 8 + 1) (bytes a') @ replicate (s div 8) (if v then 0xFF else 0)
      @ drop (b' div 8 + 1 + s div 8) (bytes a')"
    have r: "QBitArray_fill_range a v begin end = fill_rest v (b' + s) end (QBitArray c)"
      using False unfolding QBitArray_fill_range_def f Let_def by (simp add: c_def s_def)
    have s8: "s mod 8 = 0" "b' + s \<le> end" using False by (simp_all add: s_def minus_mod_eq_mult_div)
    have m: "QBitArray_size (QBitArray c) = QBitArray_size a \<and> bits_wf (QBitArray c) \<and>
      raw_bit c j = (if begin \<le> j \<and> j < b' + s then v else raw_bit (bytes a) j)"
    proof (cases "s = 0")
      case True
      then have "c = bytes a'" by (simp add: c_def)
      then show ?thesis using h True by simp
    next
      case nz: False
      have "b' + s \<le> QBitArray_size a'" using s8(2) assms(2) h by simp
      from memset_result [OF _ _ s8(1) this, where v = v, folded c_def]
      show ?thesis using h nz False assms(4) by auto
    qed
    have "begin \<le> b'" using h by simp
    then show ?thesis
      using fill_rest_result [of "QBitArray c" "end" v "b' + s"] m assms(2) s8(2) unfolding r by auto
  qed
  then show ?thesis using toggleBit_result [OF assms(1,3)] by (simp add: testBit_raw)
qed

theorem QBitArray_fill_exact_witness:
  "QBitArray_size (QBitArray_fill_range (new_QBitArray 40 False) True 3 37) = QBitArray_size (new_QBitArray 40 False)"
  by (rule conjunct1 [OF QBitArray_fill_exact [OF new_QBitArray_result(2), where i = 0 and j = 0]])
    (simp_all add: new_QBitArray_result)

end
