(* ===== verification/RingBuffer.thy ===== *)
theory RingBuffer
  imports ByteArray
begin

text \<open>
  \<open>QRingBuffer\<close> (src/src/core/tools/qringbuffer_p.h), the buffer of the I/O devices: a list of byte
  arrays of which the first is read from \<open>head\<close> on and the last is filled up to \<open>tail\<close>.

  Parameters: \<open>B\<close> is the constant \<open>QT_BUFFSIZE\<close>, the C library's \<open>BUFSIZ\<close>, and \<open>junk\<close> the memory that
  \<open>QByteArray::resize\<close> leaves uninitialised.  Numbers are natural numbers: the places where the
  code relies on a negative value are written as comparisons.  A pointer into the buffer is the
  position of the array in \<open>buffers\<close> and an offset; a write outside the array is undefined
  behaviour, the value \<open>None\<close>.
\<close>

record QRingBuffer =
  buffers :: "byte list list"
  head :: nat
  tail :: nat
  tailBuffer :: nat
  bufferSize :: nat

definition QRingBuffer_clear :: "QRingBuffer \<Rightarrow> QRingBuffer" where
  "QRingBuffer_clear r = r\<lparr>buffers := [[]], head := 0, tail := 0, tailBuffer := 0, bufferSize := 0\<rparr>"

definition new_QRingBuffer :: QRingBuffer where
  "new_QRingBuffer =
    QRingBuffer_clear \<lparr>buffers = [[]], head = 0, tail = 0, tailBuffer = 0, bufferSize = 0\<rparr>"

definition nextDataBlockSize :: "QRingBuffer \<Rightarrow> nat" where
  "nextDataBlockSize r = (if tailBuffer r = 0 then tail r else length (hd (buffers r))) - head r"

text \<open>The bytes at \<open>readPointer()\<close>, to the end of their array.\<close>

definition readPointer :: "QRingBuffer \<Rightarrow> byte list" where
  "readPointer r = (if buffers r = [] then [] else drop (head r) (hd (buffers r)))"

text \<open>
  \<open>readPointerAtPosition\<close>: the array and the offset in it, and \<open>length\<close>, which can be negative.
\<close>

fun position_in_middle :: "byte list list \<Rightarrow> nat \<Rightarrow> nat \<Rightarrow> (nat \<times> nat) \<times> int option" where
  "position_in_middle [] i pos = ((i, pos), None)"
| "position_in_middle (b # bs) i pos =
    (if pos \<ge> length b then position_in_middle bs (i + 1) (pos - length b)
     else ((i, pos), Some (int (length b) - int pos)))"

definition readPointerAtPosition :: "QRingBuffer \<Rightarrow> nat \<Rightarrow> (nat \<times> nat) option \<times> int" where
  "readPointerAtPosition r pos =
    (if buffers r = [] then (None, 0)
     else if pos \<ge> bufferSize r then (None, 0)
     else
       let next = nextDataBlockSize r in
       if int pos - int (head r) < int next then (Some (0, head r + pos), int next - int pos)
       else if length (buffers r) = 1 then (None, 0)
       else
         (case position_in_middle (take (tailBuffer r - 1) (drop 1 (buffers r))) 1 (pos - next) of
            (p, Some len) \<Rightarrow> (Some p, len)
          | (p, None) \<Rightarrow> (Some p, int (tail r) - int (snd p))))"

definition QRingBuffer_isEmpty :: "QRingBuffer \<Rightarrow> bool" where
  "QRingBuffer_isEmpty r \<longleftrightarrow> tailBuffer r = 0 \<and> tail r = 0"

function free_loop :: "nat \<Rightarrow> (nat \<Rightarrow> byte) \<Rightarrow> nat \<Rightarrow> QRingBuffer \<Rightarrow> QRingBuffer" where
  "free_loop B junk n r =
    (let nextBlockSize = nextDataBlockSize r in
     if n < nextBlockSize then
       (let r = r\<lparr>head := head r + n\<rparr>
        in if head r = tail r \<and> tailBuffer r = 0 then r\<lparr>head := 0, tail := 0\<rparr> else r)
     else if length (buffers r) \<le> 1 then
       r\<lparr>buffers := [if length (hd (buffers r)) \<noteq> B then QByteArray_resize junk (hd (buffers r)) B
                     else hd (buffers r)],
         head := 0, tail := 0, tailBuffer := 0\<rparr>
     else
       free_loop B junk (n - nextBlockSize)
         (r\<lparr>buffers := tl (buffers r), tailBuffer := tailBuffer r - 1, head := 0\<rparr>))"
  by pat_completeness auto
termination by (relation "measure (\<lambda>(B, junk, n, r). length (buffers r))") auto

declare free_loop.simps [simp del]

definition QRingBuffer_free :: "nat \<Rightarrow> (nat \<Rightarrow> byte) \<Rightarrow> nat \<Rightarrow> QRingBuffer \<Rightarrow> QRingBuffer" where
  "QRingBuffer_free B junk n r =
    (let r = free_loop B junk n (r\<lparr>bufferSize := bufferSize r - n\<rparr>)
     in if QRingBuffer_isEmpty r then QRingBuffer_clear r else r)"

text \<open>\<open>reserve\<close> returns the buffer and the write position.\<close>

definition resize_buffer :: "(nat \<Rightarrow> byte) \<Rightarrow> nat \<Rightarrow> nat \<Rightarrow> QRingBuffer \<Rightarrow> QRingBuffer" where
  "resize_buffer junk i n r = r\<lparr>buffers := (buffers r)[i := QByteArray_resize junk (buffers r ! i) n]\<rparr>"

definition QRingBuffer_reserve ::
  "nat \<Rightarrow> (nat \<Rightarrow> byte) \<Rightarrow> nat \<Rightarrow> QRingBuffer \<Rightarrow> QRingBuffer \<times> nat \<times> nat" where
  "QRingBuffer_reserve B junk n r =
    (if bufferSize r = 0 then
       (let r = resize_buffer junk 0 (max B n) r;
            r = r\<lparr>bufferSize := bufferSize r + n, tail := n\<rparr>
        in (r, tailBuffer r, 0))
     else
       let r = r\<lparr>bufferSize := bufferSize r + n\<rparr>;
           sz = length (buffers r ! tailBuffer r)
       in if tail r + n \<le> sz then (r\<lparr>tail := tail r + n\<rparr>, tailBuffer r, tail r)
          else if tail r < sz div 2 then
            ((resize_buffer junk (tailBuffer r) (tail r + n) r)\<lparr>tail := tail r + n\<rparr>, tailBuffer r, tail r)
          else
            (let r = resize_buffer junk (tailBuffer r) (tail r) r;
                 r = r\<lparr>buffers := buffers r @ [[]], tailBuffer := tailBuffer r + 1\<rparr>;
                 r = resize_buffer junk (tailBuffer r) (max B n) r
             in (r\<lparr>tail := n\<rparr>, tailBuffer r, 0)))"

definition write_at :: "nat \<Rightarrow> nat \<Rightarrow> byte list \<Rightarrow> QRingBuffer \<Rightarrow> QRingBuffer option" where
  "write_at i off data r =
    (if i < length (buffers r) \<and> off + length data \<le> length (buffers r ! i) then
       Some (r\<lparr>buffers := (buffers r)[i :=
         take off (buffers r ! i) @ data @ drop (off + length data) (buffers r ! i)]\<rparr>)
     else None)"

definition QRingBuffer_append ::
  "nat \<Rightarrow> (nat \<Rightarrow> byte) \<Rightarrow> byte list \<Rightarrow> QRingBuffer \<Rightarrow> QRingBuffer option" where
  "QRingBuffer_append B junk data r =
    (let (r, i, off) = QRingBuffer_reserve B junk (length data) r
     in if data = [] then Some r else write_at i off data r)"

definition QRingBuffer_append_array ::
  "(nat \<Rightarrow> byte) \<Rightarrow> byte list \<Rightarrow> QRingBuffer \<Rightarrow> QRingBuffer" where
  "QRingBuffer_append_array junk qba r =
    (let r = resize_buffer junk (tailBuffer r) (tail r) r
     in r\<lparr>buffers := buffers r @ [qba], tailBuffer := tailBuffer r + 1, tail := length qba,
          bufferSize := bufferSize r + length qba\<rparr>)"

function chop_loop :: "nat \<Rightarrow> QRingBuffer \<Rightarrow> QRingBuffer" where
  "chop_loop n r =
    (if tailBuffer r = 0 then
       (if tail r \<le> head r + n then r\<lparr>tail := 0, head := 0\<rparr> else r\<lparr>tail := tail r - n\<rparr>)
     else if n \<le> tail r then r\<lparr>tail := tail r - n\<rparr>
     else
       (let bs = take (tailBuffer r) (buffers r) @ drop (tailBuffer r + 1) (buffers r)
        in chop_loop (n - tail r)
             (r\<lparr>buffers := bs, tailBuffer := tailBuffer r - 1, tail := length (bs ! (tailBuffer r - 1))\<rparr>)))"
  by pat_completeness auto
termination by (relation "measure (\<lambda>(n, r). tailBuffer r)") auto

declare chop_loop.simps [simp del]

definition QRingBuffer_chop :: "nat \<Rightarrow> QRingBuffer \<Rightarrow> QRingBuffer" where
  "QRingBuffer_chop n r = chop_loop n (r\<lparr>bufferSize := bufferSize r - n\<rparr>)"

definition QRingBuffer_size :: "QRingBuffer \<Rightarrow> nat" where
  "QRingBuffer_size r = bufferSize r"

definition QRingBuffer_truncate :: "nat \<Rightarrow> QRingBuffer \<Rightarrow> QRingBuffer" where
  "QRingBuffer_truncate pos r =
    (if pos < QRingBuffer_size r then QRingBuffer_chop (QRingBuffer_size r - pos) r else r)"

text \<open>
  \<open>getChar\<close>: -1 or the byte.  With an empty first array, \<open>readPointer\<close> points at its terminating 0.
\<close>

definition QRingBuffer_getChar :: "nat \<Rightarrow> (nat \<Rightarrow> byte) \<Rightarrow> QRingBuffer \<Rightarrow> int \<times> QRingBuffer" where
  "QRingBuffer_getChar B junk r =
    (if QRingBuffer_isEmpty r then (-1, r)
     else
       (let c = (case readPointer r of [] \<Rightarrow> 0 | c # _ \<Rightarrow> c)
        in (uint c, QRingBuffer_free B junk 1 r)))"

definition QRingBuffer_putChar ::
  "nat \<Rightarrow> (nat \<Rightarrow> byte) \<Rightarrow> byte \<Rightarrow> QRingBuffer \<Rightarrow> QRingBuffer option" where
  "QRingBuffer_putChar B junk c r =
    (let (r, i, off) = QRingBuffer_reserve B junk 1 r in write_at i off [c] r)"

definition QRingBuffer_ungetChar ::
  "nat \<Rightarrow> (nat \<Rightarrow> byte) \<Rightarrow> byte \<Rightarrow> QRingBuffer \<Rightarrow> QRingBuffer" where
  "QRingBuffer_ungetChar B junk c r =
    (let r = (if head r = 0 then
                r\<lparr>buffers := map junk [0..<B] # buffers r, head := B - 1, tailBuffer := tailBuffer r + 1\<rparr>
              else r\<lparr>head := head r - 1\<rparr>)
     in r\<lparr>buffers := (buffers r)[0 := (hd (buffers r))[head r := c]], bufferSize := bufferSize r + 1\<rparr>)"

text \<open>
  \<open>indexOf\<close> and \<open>peek\<close> walk over the blocks: the part of array \<open>i\<close> that holds data.
\<close>

definition block :: "QRingBuffer \<Rightarrow> nat \<Rightarrow> byte list" where
  "block r i =
    (let start = (if i = 0 then head r else 0);
         stop = (if i = tailBuffer r then tail r else length (buffers r ! i))
     in drop start (take stop (buffers r ! i)))"

fun index_in_blocks :: "byte \<Rightarrow> nat \<Rightarrow> byte list list \<Rightarrow> int" where
  "index_in_blocks c i [] = -1"
| "index_in_blocks c i ([] # bs) = index_in_blocks c i bs"
| "index_in_blocks c i ((x # xs) # bs) = (if x = c then int i else index_in_blocks c (i + 1) (xs # bs))"

definition QRingBuffer_indexOf :: "byte \<Rightarrow> QRingBuffer \<Rightarrow> int" where
  "QRingBuffer_indexOf c r = index_in_blocks c 0 (map (block r) [0..<length (buffers r)])"

partial_function (option) read_loop ::
  "nat \<Rightarrow> (nat \<Rightarrow> byte) \<Rightarrow> nat \<Rightarrow> byte list \<Rightarrow> QRingBuffer \<Rightarrow> (byte list \<times> QRingBuffer) option" where
  "read_loop B junk bytesToRead data r =
    (if length data < bytesToRead then
       (let n = min (bytesToRead - length data) (nextDataBlockSize r)
        in read_loop B junk bytesToRead (data @ take n (readPointer r)) (QRingBuffer_free B junk n r))
     else Some (data, r))"

definition QRingBuffer_read ::
  "nat \<Rightarrow> (nat \<Rightarrow> byte) \<Rightarrow> nat \<Rightarrow> QRingBuffer \<Rightarrow> (byte list \<times> QRingBuffer) option" where
  "QRingBuffer_read B junk maxLength r = read_loop B junk (min (QRingBuffer_size r) maxLength) [] r"

definition QRingBuffer_readAll ::
  "nat \<Rightarrow> (nat \<Rightarrow> byte) \<Rightarrow> QRingBuffer \<Rightarrow> (byte list \<times> QRingBuffer) option" where
  "QRingBuffer_readAll B junk r = QRingBuffer_read B junk (QRingBuffer_size r) r"

definition QRingBuffer_skip ::
  "nat \<Rightarrow> (nat \<Rightarrow> byte) \<Rightarrow> nat \<Rightarrow> QRingBuffer \<Rightarrow> (nat \<times> QRingBuffer) option" where
  "QRingBuffer_skip B junk n r =
    map_option (\<lambda>(data, r). (length data, r)) (QRingBuffer_read B junk n r)"

definition QRingBuffer_read_block :: "QRingBuffer \<Rightarrow> byte list \<times> QRingBuffer" where
  "QRingBuffer_read_block r =
    (if bufferSize r = 0 then ([], r)
     else if head r = 0 \<and> tailBuffer r \<noteq> 0 then
       (let qba = hd (buffers r)
        in (qba, r\<lparr>buffers := tl (buffers r), tailBuffer := tailBuffer r - 1,
                  bufferSize := bufferSize r - length qba\<rparr>))
     else if head r = 0 \<and> tailBuffer r = 0 then
       (let qba = take (tail r) (hd (buffers r))
        in (qba, r\<lparr>buffers := tl (buffers r) @ [[]], bufferSize := 0, tail := 0\<rparr>))
     else
       (let qba = take (nextDataBlockSize r) (readPointer r);
            r = r\<lparr>buffers := tl (buffers r), head := 0\<rparr>;
            r = (if tailBuffer r = 0 then r\<lparr>buffers := buffers r @ [[]], tail := 0\<rparr>
                 else r\<lparr>tailBuffer := tailBuffer r - 1\<rparr>)
        in (qba, r\<lparr>bufferSize := bufferSize r - length qba\<rparr>)))"

fun peek_blocks :: "nat \<Rightarrow> byte list list \<Rightarrow> byte list" where
  "peek_blocks n [] = []"
| "peek_blocks n (b # bs) = (if n = 0 then [] else take n b @ peek_blocks (n - length b) bs)"

definition QRingBuffer_peek :: "nat \<Rightarrow> QRingBuffer \<Rightarrow> byte list" where
  "QRingBuffer_peek maxLength r =
    (if maxLength = 0 then []
     else peek_blocks (min (QRingBuffer_size r) maxLength) (map (block r) [0..<length (buffers r)]))"

definition newline :: byte where
  "newline = 0x0A"

text \<open>\<open>readLine\<close>: -1, or the bytes stored (a terminating 0 follows them) with their number.\<close>

definition QRingBuffer_readLine ::
  "nat \<Rightarrow> (nat \<Rightarrow> byte) \<Rightarrow> nat \<Rightarrow> QRingBuffer \<Rightarrow> (int \<times> byte list \<times> QRingBuffer) option" where
  "QRingBuffer_readLine B junk maxLength r =
    (let index = QRingBuffer_indexOf newline r in
     if index = -1 then
       map_option (\<lambda>(data, r). (int (length data), data, r)) (QRingBuffer_read B junk maxLength r)
     else if maxLength = 0 then Some (-1, [], r)
     else
       map_option (\<lambda>(data, r). (int (length data), data, r))
         (read_loop B junk (min (nat index + 1) (maxLength - 1)) [] r))"

definition QRingBuffer_canReadLine :: "QRingBuffer \<Rightarrow> bool" where
  "QRingBuffer_canReadLine r \<longleftrightarrow> QRingBuffer_indexOf newline r \<noteq> -1"

section \<open>The contents\<close>

definition content :: "QRingBuffer \<Rightarrow> byte list" where
  "content r = drop (head r) (concat (butlast (buffers r)) @ take (tail r) (last (buffers r)))"

definition ring_shape :: "QRingBuffer \<Rightarrow> bool" where
  "ring_shape r \<longleftrightarrow>
    buffers r \<noteq> [] \<and> tailBuffer r = length (buffers r) - 1 \<and> head r \<le> length (hd (buffers r)) \<and>
    tail r \<le> length (last (buffers r)) \<and> (tailBuffer r = 0 \<longrightarrow> head r \<le> tail r)"

definition ring_wf :: "QRingBuffer \<Rightarrow> bool" where
  "ring_wf r \<longleftrightarrow> ring_shape r \<and> bufferSize r = length (content r)"

text \<open>
  What \<open>reserve\<close> takes for granted (a buffer without data is in its fresh state), and what \<open>getChar\<close>
  takes for granted besides: the first of several arrays has a byte to read.
\<close>

definition ring_ok :: "QRingBuffer \<Rightarrow> bool" where
  "ring_ok r \<longleftrightarrow> ring_wf r \<and> (bufferSize r = 0 \<longrightarrow> QRingBuffer_isEmpty r)"

definition front :: "QRingBuffer \<Rightarrow> bool" where
  "front r \<longleftrightarrow> (tailBuffer r \<noteq> 0 \<longrightarrow> head r < length (hd (buffers r)))"

definition ring_ready :: "QRingBuffer \<Rightarrow> bool" where
  "ring_ready r \<longleftrightarrow> ring_ok r \<and> front r"

lemma shape_cases:
  assumes "ring_shape r"
  obtains (single) b where "buffers r = [b]" "tailBuffer r = 0" "head r \<le> tail r" "tail r \<le> length b"
      "content r = drop (head r) (take (tail r) b)"
    | (many) b bs c where "buffers r = b # bs @ [c]" "tailBuffer r = Suc (length bs)" "head r \<le> length b"
      "tail r \<le> length c" "content r = drop (head r) b @ concat bs @ take (tail r) c"
proof (cases "tl (buffers r) = []")
  case True
  then obtain b where "buffers r = [b]" using assms by (cases "buffers r") (auto simp: ring_shape_def)
  then show thesis using assms by (intro single) (auto simp: ring_shape_def content_def)
next
  case False
  then obtain b bs c where b: "buffers r = b # bs @ [c]"
    by (metis append_butlast_last_id list.collapse list.sel(2))
  then show thesis using assms by (intro many [OF b]) (auto simp: ring_shape_def content_def)
qed

lemma isEmpty_content: "ring_shape r \<Longrightarrow> QRingBuffer_isEmpty r \<Longrightarrow> content r = [] \<and> head r = 0"
  by (erule shape_cases) (auto simp: QRingBuffer_isEmpty_def)

lemma clear_ok [simp]: "ring_ok (QRingBuffer_clear r)" "front (QRingBuffer_clear r)" "content (QRingBuffer_clear r) = []"
  by (simp_all add: QRingBuffer_clear_def ring_ok_def ring_wf_def ring_shape_def content_def
      QRingBuffer_isEmpty_def front_def)

lemma new_ok: "ring_ready new_QRingBuffer" "content new_QRingBuffer = []"
  by (simp_all add: new_QRingBuffer_def ring_ready_def)

section \<open>Reading\<close>

lemma free_loop_bufferSize [simp]: "bufferSize (free_loop B junk n r) = bufferSize r"
  by (induction B junk n r rule: free_loop.induct) (subst free_loop.simps, simp add: Let_def)

lemma free_loop_within:
  "n < nextDataBlockSize r \<Longrightarrow> \<not> (tailBuffer r = 0 \<and> head r + n = tail r) \<Longrightarrow>
   free_loop B junk n r = r\<lparr>head := head r + n\<rparr>"
  by (subst free_loop.simps) (auto simp: Let_def)

lemma free_loop_last:
  "\<not> n < nextDataBlockSize r \<Longrightarrow> buffers r = [b] \<Longrightarrow>
   free_loop B junk n r = r\<lparr>buffers := [if length b \<noteq> B then QByteArray_resize junk b B else b],
     head := 0, tail := 0, tailBuffer := 0\<rparr>"
  by (subst free_loop.simps) (simp only: Let_def if_False list.sel list.size, simp)

lemma free_loop_next:
  "\<not> n < nextDataBlockSize r \<Longrightarrow> 1 < length (buffers r) \<Longrightarrow>
   free_loop B junk n r = free_loop B junk (n - nextDataBlockSize r)
     (r\<lparr>buffers := tl (buffers r), tailBuffer := tailBuffer r - 1, head := 0\<rparr>)"
  by (subst free_loop.simps) (simp add: Let_def)

lemma free_loop_content:
  assumes "ring_shape r"
  shows "ring_shape (free_loop B junk n r) \<and> content (free_loop B junk n r) = drop n (content r) \<and>
    (content (free_loop B junk n r) = [] \<longrightarrow> QRingBuffer_isEmpty (free_loop B junk n r)) \<and>
    front (free_loop B junk n r)"
  using assms
proof (induction B junk n r rule: free_loop.induct)
  case (1 B junk n r)
  from "1.prems" show ?case
  proof (cases rule: shape_cases)
    case (single b)
    show ?thesis
    proof (cases "n < tail r - head r")
      case True
      then have "free_loop B junk n r = r\<lparr>head := head r + n\<rparr>"
        using single by (intro free_loop_within) (auto simp: nextDataBlockSize_def)
      then show ?thesis
        using True single by (auto simp: ring_shape_def content_def front_def add.commute)
    next
      case False
      then have "free_loop B junk n r = r\<lparr>buffers := [if length b \<noteq> B then QByteArray_resize junk b B else b],
          head := 0, tail := 0, tailBuffer := 0\<rparr>"
        using single by (intro free_loop_last) (auto simp: nextDataBlockSize_def)
      then show ?thesis
        using False single by (simp add: ring_shape_def content_def QRingBuffer_isEmpty_def front_def)
    qed
  next
    case (many b bs c)
    show ?thesis
    proof (cases "n < length b - head r")
      case True
      then have "free_loop B junk n r = r\<lparr>head := head r + n\<rparr>"
        using many by (intro free_loop_within) (auto simp: nextDataBlockSize_def)
      then show ?thesis
        using True many by (auto simp: ring_shape_def content_def front_def add.commute)
    next
      case False
      define x where "x = r\<lparr>buffers := tl (buffers r), tailBuffer := tailBuffer r - 1, head := 0\<rparr>"
      define k where "k = n - (length b - head r)"
      have next_size: "nextDataBlockSize r = length b - head r"
        using many by (simp add: nextDataBlockSize_def)
      have e: "free_loop B junk n r = free_loop B junk k x"
        using many False free_loop_next [of n r B junk] by (simp add: next_size x_def k_def)
      have s: "ring_shape x" using many by (cases bs) (auto simp: ring_shape_def x_def)
      have c: "drop k (content x) = drop n (content r)"
        using many False by (simp add: content_def butlast_append x_def k_def)
      show ?thesis
        using "1.IH" [OF refl, unfolded next_size, OF False _ s [unfolded x_def]] many
        unfolding e c [symmetric] x_def [symmetric] k_def [symmetric] by simp
    qed
  qed
qed

lemma free_result:
  assumes "ring_wf r"
  shows "ring_ready (QRingBuffer_free B junk n r)"
    "content (QRingBuffer_free B junk n r) = drop n (content r)"
proof -
  define x where "x = r\<lparr>bufferSize := bufferSize r - n\<rparr>"
  define y where "y = free_loop B junk n x"
  have x: "ring_shape x" "content x = content r" "bufferSize x = length (content r) - n"
    using assms by (simp_all add: ring_wf_def ring_shape_def content_def x_def)
  have y: "ring_shape y" "content y = drop n (content r)" "content y = [] \<longrightarrow> QRingBuffer_isEmpty y"
    "bufferSize y = length (content y)" "front y"
    using free_loop_content [OF x(1), of B junk n] x by (auto simp: y_def)
  have f: "QRingBuffer_free B junk n r = (if QRingBuffer_isEmpty y then QRingBuffer_clear y else y)"
    by (simp add: QRingBuffer_free_def Let_def y_def x_def)
  have "ring_ok y" using y by (simp add: ring_ok_def ring_wf_def)
  with y(5) show "ring_ready (QRingBuffer_free B junk n r)" by (simp add: f ring_ready_def)
  show "content (QRingBuffer_free B junk n r) = drop n (content r)"
    using isEmpty_content [OF y(1)] y by (simp add: f)
qed

lemma readPointer_content:
  assumes "ring_shape r" "n \<le> nextDataBlockSize r"
  shows "take n (readPointer r) = take n (content r)"
  using assms by (cases rule: shape_cases) (auto simp: readPointer_def nextDataBlockSize_def drop_take min_def)

section \<open>Appending\<close>

lemma ring_shape_snoc:
  "buffers r = bs @ [c] \<Longrightarrow>
   ring_shape r \<longleftrightarrow> tailBuffer r = length bs \<and> tail r \<le> length c \<and>
     head r \<le> (if bs = [] then tail r else length (hd bs))"
  by (auto simp: ring_shape_def)

lemma content_snoc: "buffers r = bs @ [c] \<Longrightarrow> content r = drop (head r) (concat bs @ take (tail r) c)"
  by (simp add: content_def)

lemma shape_snoc:
  assumes "ring_shape r"
  obtains bs c where "buffers r = bs @ [c]" "tailBuffer r = length bs" "tail r \<le> length c"
    "head r \<le> (if bs = [] then tail r else length (hd bs))" "head r \<le> length (concat bs) + tail r"
proof -
  obtain bs c where b: "buffers r = bs @ [c]"
    using assms by (metis append_butlast_last_id ring_shape_def)
  then show thesis
    using assms that [OF b] by (cases bs) (auto simp: ring_shape_snoc [OF b])
qed

lemma write_in_last:
  assumes "buffers r = bs @ [c]" "ring_shape r" "tail r + length data \<le> length c"
  shows "\<exists>x. write_at (length bs) (tail r) data (r\<lparr>tail := tail r + length data\<rparr>) = Some x \<and>
    ring_shape x \<and> content x = content r @ data \<and> bufferSize x = bufferSize r \<and> (front r \<longrightarrow> front x)"
proof -
  let ?x = "r\<lparr>buffers := bs @ [take (tail r) c @ data @ drop (tail r + length data) c],
    tail := tail r + length data\<rparr>"
  have shape: "tailBuffer r = length bs" "tail r \<le> length c"
    "head r \<le> (if bs = [] then tail r else length (hd bs))"
    using assms(2) by (simp_all add: ring_shape_snoc [OF assms(1)])
  then have "head r \<le> length (concat bs) + tail r" by (cases bs) auto
  then have "content ?x = content r @ data"
    using shape assms(3) by (simp add: content_snoc [of _ bs] content_snoc [OF assms(1)])
  moreover have "front r \<longrightarrow> front ?x" using shape by (cases bs) (auto simp: front_def assms(1))
  moreover have "ring_shape ?x" using shape assms(3) by (subst ring_shape_snoc) auto
  moreover have "write_at (length bs) (tail r) data (r\<lparr>tail := tail r + length data\<rparr>) = Some ?x"
    using assms by (simp add: write_at_def)
  ultimately show ?thesis by simp
qed

text \<open>
  \<open>reserve\<close> gives \<open>length data\<close> bytes behind the last byte: writing the data there appends it.
\<close>

lemma reserve_write:
  assumes "ring_ok r"
  shows "\<exists>x i off y. QRingBuffer_reserve B junk (length data) r = (x, i, off) \<and>
    write_at i off data x = Some y \<and> ring_wf y \<and> content y = content r @ data \<and> (front r \<longrightarrow> front y)"
proof -
  have wf: "ring_shape r" "bufferSize r = length (content r)" using assms by (auto simp: ring_ok_def ring_wf_def)
  obtain bs c where r: "buffers r = bs @ [c]" "tailBuffer r = length bs" "tail r \<le> length c"
    "head r \<le> (if bs = [] then tail r else length (hd bs))"
    by (rule shape_snoc [OF wf(1)])
  define n where "n = length data"
  have goal: ?thesis
    if "buffers z = bs' @ [c']" "ring_shape z" "content z = content r" "bufferSize z = bufferSize r + n"
      "tail z + n \<le> length c'" "front r \<longrightarrow> front z"
      "QRingBuffer_reserve B junk (length data) r = (z\<lparr>tail := tail z + n\<rparr>, length bs', tail z)" for z bs' c'
    using write_in_last [OF that(1,2), of data] that wf by (auto simp: n_def ring_wf_def)
  let ?r = "r\<lparr>bufferSize := bufferSize r + n\<rparr>"
  let ?rz = "resize_buffer junk (length bs) (tail r + n) ?r"
  consider "bufferSize r = 0" | "bufferSize r \<noteq> 0" "tail r + n \<le> length c"
    | "bufferSize r \<noteq> 0" "\<not> tail r + n \<le> length c" "tail r < length c div 2"
    | "bufferSize r \<noteq> 0" "\<not> tail r + n \<le> length c" "\<not> tail r < length c div 2" by blast
  then show ?thesis
  proof cases
    case 1
    then have "QRingBuffer_isEmpty r" "head r = 0" "content r = []"
      using assms isEmpty_content [OF wf(1)] by (auto simp: ring_ok_def)
    then have e: "bs = []" "tail r = 0" "head r = 0" using r by (auto simp: QRingBuffer_isEmpty_def)
    show ?thesis
      by (rule goal [of "resize_buffer junk 0 (max B n) ?r" "[]" "QByteArray_resize junk c (max B n)"])
        (use 1 r e in \<open>auto simp: QRingBuffer_reserve_def resize_buffer_def Let_def n_def ring_shape_def
          content_def resize_bytes front_def\<close>)
  next
    case 2
    show ?thesis
      by (rule goal [of ?r bs c])
        (use 2 r wf in \<open>auto simp: QRingBuffer_reserve_def Let_def n_def ring_shape_def content_def
          front_def\<close>)
  next
    case 3
    show ?thesis
      by (rule goal [of ?rz bs "QByteArray_resize junk c (tail r + n)"])
        (use 3 r in \<open>auto simp: QRingBuffer_reserve_def Let_def n_def content_def resize_bytes resize_take
          resize_buffer_def ring_shape_snoc [of _ bs] front_def hd_append split: if_splits\<close>)
  next
    case 4
    then have first: "bs = [] \<longrightarrow> head r < tail r" using wf r by (auto simp: content_def)
    show ?thesis
      by (rule goal [of "(resize_buffer junk (length bs) (tail r) ?r)
          \<lparr>buffers := bs @ [take (tail r) c, QByteArray_resize junk [] (max B n)],
           tailBuffer := Suc (length bs), tail := 0\<rparr>" "bs @ [take (tail r) c]"
           "QByteArray_resize junk [] (max B n)"])
        (use 4 r first in \<open>auto simp: QRingBuffer_reserve_def Let_def n_def content_def resize_bytes resize_shrink
          resize_buffer_def ring_shape_snoc [of _ "bs @ [_]"] nth_append list_update_append butlast_append
          hd_append front_def split: if_splits\<close>)
  qed
qed

theorem append_ok:
  assumes "ring_ok r"
  shows "\<exists>y. QRingBuffer_append B junk data r = Some y \<and> ring_ok y \<and> content y = content r @ data \<and>
    (front r \<longrightarrow> front y)"
proof (cases "data = []")
  case False
  then show ?thesis
    using reserve_write [OF assms, of B junk data]
    by (auto simp: QRingBuffer_append_def ring_ok_def ring_wf_def)
next
  case True
  obtain x i off y where x: "QRingBuffer_reserve B junk (length data) r = (x, i, off)"
    "write_at i off data x = Some y" "ring_wf y" "content y = content r @ data" "front r \<longrightarrow> front y"
    using reserve_write [OF assms, of B junk data] by blast
  have y: "y = x" using x(2) True by (auto simp: write_at_def split: if_splits)
  have "bufferSize x = 0 \<longrightarrow> QRingBuffer_isEmpty x"
  proof
    assume "bufferSize x = 0"
    then have "content r = []" using x y True by (simp add: ring_wf_def)
    then have e: "bufferSize r = 0" "tailBuffer r = 0"
      using assms by (auto simp: ring_ok_def ring_wf_def QRingBuffer_isEmpty_def)
    show "QRingBuffer_isEmpty x"
      using x(1) e True by (auto simp: QRingBuffer_reserve_def Let_def QRingBuffer_isEmpty_def resize_buffer_def)
  qed
  then show ?thesis
    using x y True by (auto simp: QRingBuffer_append_def ring_ok_def)
qed

lemma putChar_ok:
  assumes "ring_ok r"
  shows "\<exists>y. QRingBuffer_putChar B junk c r = Some y \<and> ring_ok y \<and> content y = content r @ [c] \<and>
    (front r \<longrightarrow> front y)"
  using reserve_write [OF assms, of B junk "[c]"]
  by (auto simp: QRingBuffer_putChar_def ring_ok_def ring_wf_def)

lemma append_array_ok:
  assumes "ring_wf r"
  shows "ring_wf (QRingBuffer_append_array junk qba r)"
    "content (QRingBuffer_append_array junk qba r) = content r @ qba"
    "content r \<noteq> [] \<Longrightarrow> front r \<Longrightarrow> ring_ready (QRingBuffer_append_array junk qba r)"
proof -
  obtain bs c where r: "buffers r = bs @ [c]" "tailBuffer r = length bs" "tail r \<le> length c"
    "head r \<le> (if bs = [] then tail r else length (hd bs))" "head r \<le> length (concat bs) + tail r"
    using assms by (auto simp: ring_wf_def elim: shape_snoc)
  have x: "QRingBuffer_append_array junk qba r = r\<lparr>buffers := bs @ [take (tail r) c, qba],
      tailBuffer := tailBuffer r + 1, tail := length qba, bufferSize := bufferSize r + length qba\<rparr>"
    using r by (simp add: QRingBuffer_append_array_def resize_buffer_def Let_def resize_shrink)
  show c: "content (QRingBuffer_append_array junk qba r) = content r @ qba"
    using r by (simp add: x content_def butlast_append)
  show wf: "ring_wf (QRingBuffer_append_array junk qba r)"
    using r assms c by (auto simp: x ring_wf_def ring_shape_snoc [of _ "bs @ [_]"] hd_append split: if_splits)
  assume ne: "content r \<noteq> []" "front r"
  then have "bs = [] \<longrightarrow> head r < tail r" using r by (auto simp: content_def)
  then have "front (QRingBuffer_append_array junk qba r)"
    using ne r by (auto simp: x front_def hd_append split: if_splits)
  moreover have "bufferSize (QRingBuffer_append_array junk qba r) \<noteq> 0"
    using wf ne(1) c by (simp add: ring_wf_def)
  ultimately show "ring_ready (QRingBuffer_append_array junk qba r)"
    using wf by (simp add: ring_ready_def ring_ok_def)
qed

lemma drop_last_update:
  "0 < n \<Longrightarrow> length xs = n \<Longrightarrow> drop (n - Suc 0) (xs[n - Suc 0 := x]) = [x]"
  by (cases xs rule: rev_cases) auto

lemma ungetChar_ok:
  assumes "ring_wf r" "0 < B"
  shows "ring_ready (QRingBuffer_ungetChar B junk c r)"
    "content (QRingBuffer_ungetChar B junk c r) = c # content r"
proof -
  have "content (QRingBuffer_ungetChar B junk c r) = c # content r \<and>
      ring_shape (QRingBuffer_ungetChar B junk c r) \<and> front (QRingBuffer_ungetChar B junk c r)"
  proof (cases "head r = 0")
    case True
    then show ?thesis
      using assms
      by (auto simp: QRingBuffer_ungetChar_def ring_wf_def ring_shape_def content_def Let_def front_def drop_last_update)
  next
    case False
    have "ring_shape r" using assms by (simp add: ring_wf_def)
    then show ?thesis
    proof (cases rule: shape_cases)
      case (single b)
      then show ?thesis using False
        by (auto simp: QRingBuffer_ungetChar_def ring_shape_def content_def Let_def front_def Cons_nth_drop_Suc [symmetric]
            take_update_swap)
    next
      case (many b bs d)
      then show ?thesis using False
        by (auto simp: QRingBuffer_ungetChar_def ring_shape_def content_def Let_def front_def Cons_nth_drop_Suc [symmetric]
            take_update_swap
            butlast_append)
    qed
  qed
  moreover have "bufferSize (QRingBuffer_ungetChar B junk c r) = bufferSize r + 1"
    by (simp add: QRingBuffer_ungetChar_def Let_def)
  ultimately show "content (QRingBuffer_ungetChar B junk c r) = c # content r"
    "ring_ready (QRingBuffer_ungetChar B junk c r)"
    using assms by (auto simp: ring_ready_def ring_ok_def ring_wf_def)
qed

section \<open>Removing from the end\<close>

lemma chop_loop_content:
  assumes "ring_shape r"
  shows "ring_shape (chop_loop n r) \<and> content (chop_loop n r) = take (length (content r) - n) (content r) \<and>
    bufferSize (chop_loop n r) = bufferSize r \<and>
    (front r \<longrightarrow> front (chop_loop n r) \<and> (length (content r) \<le> n \<longrightarrow> QRingBuffer_isEmpty (chop_loop n r)))"
  using assms
proof (induction n r rule: chop_loop.induct)
  case (1 n r)
  obtain bs c where r: "buffers r = bs @ [c]" "tailBuffer r = length bs" "tail r \<le> length c"
    "head r \<le> (if bs = [] then tail r else length (hd bs))"
    using "1.prems" by (rule shape_snoc)
  show ?case
  proof (cases "n \<le> tail r \<or> bs = []")
    case True
    then have "chop_loop n r = (if bs = [] \<and> tail r \<le> head r + n then r\<lparr>tail := 0, head := 0\<rparr>
        else r\<lparr>tail := tail r - n\<rparr>)"
      using r by (subst chop_loop.simps) auto
    moreover have "min (length c - head r) (tail r - head r) = tail r - head r" using r(3) by simp
    ultimately show ?thesis
      using True r by (cases bs) (auto simp: ring_shape_def content_def drop_take add.commute front_def
          QRingBuffer_isEmpty_def)
  next
    case False
    then obtain as b where bs: "bs = as @ [b]" by (cases bs rule: rev_cases) auto
    define x where "x = r\<lparr>buffers := bs, tailBuffer := tailBuffer r - 1, tail := length b\<rparr>"
    have e: "chop_loop n r = chop_loop (n - tail r) x"
      using False r bs by (subst chop_loop.simps) (simp add: Let_def x_def)
    have s: "ring_shape x" using r bs by (simp add: x_def ring_shape_snoc [of _ as] hd_append split: if_splits)
    have c: "content r = content x @ take (tail r) c"
      using r bs by (cases as) (auto simp: content_def x_def butlast_append)
    have "ring_shape (chop_loop (n - tail r) x)"
      "content (chop_loop (n - tail r) x) = take (length (content x) - (n - tail r)) (content x)"
      "bufferSize (chop_loop (n - tail r) x) = bufferSize x"
      "front x \<longrightarrow> front (chop_loop (n - tail r) x) \<and>
        (length (content x) \<le> n - tail r \<longrightarrow> QRingBuffer_isEmpty (chop_loop (n - tail r) x))"
      using "1.IH" [OF _ _ refl] False r bs s by (auto simp: x_def)
    moreover have "front r \<longrightarrow> front x" using r bs by (cases as) (auto simp: front_def x_def)
    ultimately show ?thesis
      using False r by (auto simp: e c) (simp_all add: x_def)
  qed
qed

lemma chop_result:
  assumes "ring_wf r"
  shows "ring_wf (QRingBuffer_chop n r)"
    "content (QRingBuffer_chop n r) = take (length (content r) - n) (content r)"
    "ring_ready r \<Longrightarrow> ring_ready (QRingBuffer_chop n r)"
proof -
  define x where "x = r\<lparr>bufferSize := bufferSize r - n\<rparr>"
  have x: "ring_shape x" "content x = content r" "bufferSize x = length (content r) - n"
    using assms by (simp_all add: ring_wf_def ring_shape_def content_def x_def)
  have y: "QRingBuffer_chop n r = chop_loop n x" by (simp add: QRingBuffer_chop_def x_def)
  from x chop_loop_content [OF x(1), of n]
  show wf: "ring_wf (QRingBuffer_chop n r)"
    and "content (QRingBuffer_chop n r) = take (length (content r) - n) (content r)"
    by (simp_all add: y ring_wf_def)
  assume "ring_ready r"
  then have "front x" by (simp add: ring_ready_def front_def x_def)
  with x wf chop_loop_content [OF x(1), of n] show "ring_ready (QRingBuffer_chop n r)"
    by (auto simp: ring_ready_def ring_ok_def y)
qed

section \<open>Looking and reading\<close>

lemma free_loop_buffers: "buffers r \<noteq> [] \<Longrightarrow>
  buffers (free_loop B junk n r) \<noteq> [] \<and> length (buffers (free_loop B junk n r)) \<le> length (buffers r)"
proof (induction B junk n r rule: free_loop.induct)
  case (1 B junk n r)
  show ?case
  proof (cases "n < nextDataBlockSize r \<or> length (buffers r) \<le> 1")
    case True
    then show ?thesis using "1.prems" by (subst (1 2) free_loop.simps) (auto simp: Let_def Suc_le_eq)
  next
    case False
    then have "tl (buffers r) \<noteq> []" by (cases "buffers r") auto
    with "1.IH" [OF refl] False show ?thesis by (auto simp: free_loop_next)
  qed
qed

lemma free_buffers:
  assumes "ring_shape r"
  shows "length (buffers (QRingBuffer_free B junk n r)) \<le> length (buffers r)"
    "nextDataBlockSize r = 0 \<Longrightarrow> tailBuffer r \<noteq> 0 \<Longrightarrow>
     length (buffers (QRingBuffer_free B junk n r)) < length (buffers r)"
proof -
  define x where "x = r\<lparr>bufferSize := bufferSize r - n\<rparr>"
  have x: "buffers x = buffers r" "nextDataBlockSize x = nextDataBlockSize r" "buffers x \<noteq> []"
    using assms by (simp_all add: x_def nextDataBlockSize_def ring_shape_def)
  have 1: "length (buffers (QRingBuffer_free B junk n r)) \<le> length (buffers (free_loop B junk n x))"
    using free_loop_buffers [OF x(3), of B junk n]
    by (auto simp: QRingBuffer_free_def Let_def x_def [symmetric] QRingBuffer_clear_def Suc_le_eq)
  then show "length (buffers (QRingBuffer_free B junk n r)) \<le> length (buffers r)"
    using free_loop_buffers [OF x(3), of B junk n] x by simp
  assume "nextDataBlockSize r = 0" "tailBuffer r \<noteq> 0"
  with assms x have l: "\<not> n < nextDataBlockSize x" "1 < length (buffers x)" by (auto simp: ring_shape_def)
  define y where "y = x\<lparr>buffers := tl (buffers x), tailBuffer := tailBuffer x - 1, head := 0\<rparr>"
  have y: "buffers y \<noteq> []" "length (buffers y) < length (buffers x)"
    using l by (cases "buffers x"; auto simp: y_def)+
  have "length (buffers (free_loop B junk n x)) < length (buffers r)"
    using free_loop_buffers [OF y(1), of B junk "n - nextDataBlockSize x"] y x
      free_loop_next [OF l, of B junk, folded y_def] by simp
  with 1 show "length (buffers (QRingBuffer_free B junk n r)) < length (buffers r)" by simp
qed

lemma read_loop_ok:
  assumes "ring_wf r" "n \<le> length data + length (content r)"
  shows "\<exists>x. read_loop B junk n data r = Some (data @ take (n - length data) (content r), x) \<and>
    ring_wf x \<and> (ring_ready r \<longrightarrow> ring_ready x) \<and> content x = drop (n - length data) (content r)"
  using assms
proof (induction "n - length data + length (buffers r)" arbitrary: data r rule: less_induct)
  case less
  show ?case
  proof (cases "length data < n")
    case False
    then show ?thesis using less.prems by (subst read_loop.simps) simp
  next
    case True
    define k where "k = min (n - length data) (nextDataBlockSize r)"
    define x where "x = QRingBuffer_free B junk k r"
    define d where "d = data @ take k (content r)"
    have sh: "ring_shape r" using less.prems by (simp add: ring_wf_def)
    have x: "ring_ready x" "content x = drop k (content r)"
      using free_result [OF less.prems(1)] by (simp_all add: x_def)
    have k: "k \<le> n - length data" "k \<le> length (content r)"
      using less.prems(2) by (auto simp: k_def min_def)
    have e: "read_loop B junk n data r = read_loop B junk n d x"
      using True readPointer_content [OF sh, of k]
      by (subst read_loop.simps) (simp add: Let_def k_def [symmetric] x_def d_def, simp add: k_def)
    have t: "tailBuffer r \<noteq> 0" if "k = 0"
    proof
      assume "tailBuffer r = 0"
      with sh have "length (content r) = nextDataBlockSize r"
        by (auto simp: nextDataBlockSize_def elim: shape_cases)
      with that True less.prems(2) show False by (auto simp: k_def)
    qed
    have m: "n - length d + length (buffers x) < n - length data + length (buffers r)"
    proof (cases "k = 0")
      case True
      then have "nextDataBlockSize r = 0" using \<open>length data < n\<close> by (auto simp: k_def min_def split: if_splits)
      then show ?thesis using free_buffers(2) [OF sh _ t [OF True], of B junk k] True by (simp add: x_def d_def)
    next
      case False
      then show ?thesis using free_buffers(1) [OF sh, of B junk k] k True by (simp add: x_def d_def)
    qed
    have "ring_wf x" "n \<le> length d + length (content x)"
      using x k less.prems(2) by (simp_all add: ring_ready_def ring_ok_def d_def)
    from less.hyps [OF m this] obtain y where
      y: "read_loop B junk n d x = Some (d @ take (n - length d) (content x), y)" "ring_wf y"
        "ring_ready x \<longrightarrow> ring_ready y" "content y = drop (n - length d) (content x)" by blast
    have "d @ take (n - length d) (content x) = data @ take (n - length data) (content r)"
      "drop (n - length d) (content x) = drop (n - length data) (content r)"
      using k le_add_diff_inverse [OF k(1)] by (simp_all add: d_def x take_add [symmetric] add.commute)
    with y x e show ?thesis by auto
  qed
qed

lemma content_blocks:
  assumes "ring_shape r"
  shows "content r = concat (map (block r) [0..<length (buffers r)])"
  using assms
proof (cases rule: shape_cases)
  case (single b)
  then show ?thesis by (simp add: block_def)
next
  case (many b bs c)
  have "map (block r) [Suc 0..<Suc (length bs)] = bs"
    using many by (intro nth_equalityI) (auto simp: block_def nth_append nth_Cons' simp del: upt_Suc)
  moreover have "[0..<length (buffers r)] = 0 # [Suc 0..<Suc (length bs)] @ [Suc (length bs)]"
    using many(1) upt_conv_Cons [of 0 "Suc (length bs)"] by (simp add: upt_Suc_append del: upt_Suc)
  ultimately show ?thesis using many by (simp add: block_def nth_append del: upt_Suc)
qed

lemma peek_blocks_take: "peek_blocks n bs = take n (concat bs)"
  by (induction bs arbitrary: n) auto

lemma peek_ok: "ring_wf r \<Longrightarrow> QRingBuffer_peek n r = take n (content r)"
  by (auto simp: QRingBuffer_peek_def peek_blocks_take content_blocks ring_wf_def QRingBuffer_size_def min_def)

definition index_of :: "byte \<Rightarrow> byte list \<Rightarrow> int" where
  "index_of c xs = (if c \<in> set xs then int (length (takeWhile (\<lambda>x. x \<noteq> c) xs)) else -1)"

lemma index_in_blocks_concat:
  "index_in_blocks c i bs = (if c \<in> set (concat bs) then int i + index_of c (concat bs) else -1)"
  by (induction c i bs rule: index_in_blocks.induct) (auto simp: index_of_def)

lemma indexOf_ok: "ring_wf r \<Longrightarrow> QRingBuffer_indexOf c r = index_of c (content r)"
  by (simp only: QRingBuffer_indexOf_def index_in_blocks_concat ring_wf_def content_blocks [symmetric])
    (simp add: index_of_def)

theorem read_ok:
  assumes "ring_wf r"
  shows "\<exists>x. QRingBuffer_read B junk n r = Some (take n (content r), x) \<and> ring_wf x \<and>
    (ring_ready r \<longrightarrow> ring_ready x) \<and> content x = drop n (content r)"
proof -
  have "min (bufferSize r) n \<le> length ([] :: byte list) + length (content r)"
    using assms by (simp add: ring_wf_def)
  from read_loop_ok [OF assms this, of B junk] show ?thesis
    using assms by (cases "n \<le> bufferSize r")
      (auto simp: QRingBuffer_read_def QRingBuffer_size_def ring_wf_def min_def)
qed

lemma getChar_ok:
  assumes "ring_ready r"
  shows "QRingBuffer_getChar B junk r =
    (case content r of [] \<Rightarrow> (-1, r) | c # _ \<Rightarrow> (uint c, QRingBuffer_free B junk 1 r))"
proof (cases "content r")
  case Nil
  then show ?thesis using assms by (simp add: QRingBuffer_getChar_def ring_ready_def ring_ok_def ring_wf_def)
next
  case (Cons c cs)
  have sh: "ring_shape r" using assms by (simp add: ring_ready_def ring_ok_def ring_wf_def)
  moreover have "content r \<noteq> []" using Cons by simp
  ultimately have "0 < nextDataBlockSize r"
    using assms by (cases rule: shape_cases) (simp_all add: nextDataBlockSize_def ring_ready_def front_def)
  then have "take 1 (readPointer r) = [c]" using readPointer_content [OF sh, of 1] Cons by simp
  then have "\<exists>xs. readPointer r = c # xs" by (cases "readPointer r") auto
  moreover have "\<not> QRingBuffer_isEmpty r" using isEmpty_content [OF sh] Cons by auto
  ultimately show ?thesis using Cons by (auto simp: QRingBuffer_getChar_def Let_def)
qed

text \<open>\<open>read()\<close> without a length returns the first array: some of the bytes at the front.\<close>

lemma read_block_ok:
  assumes "ring_wf r"
  shows "ring_wf (snd (QRingBuffer_read_block r))"
    "content r = fst (QRingBuffer_read_block r) @ content (snd (QRingBuffer_read_block r))"
proof -
  have sh: "ring_shape r" and b: "bufferSize r = length (content r)" using assms by (auto simp: ring_wf_def)
  have "ring_wf (snd (QRingBuffer_read_block r)) \<and>
    content r = fst (QRingBuffer_read_block r) @ content (snd (QRingBuffer_read_block r))"
  proof (cases "bufferSize r = 0")
    case True
    then show ?thesis using assms by (simp add: QRingBuffer_read_block_def ring_wf_def)
  next
    case False
    from sh show ?thesis
    proof (cases rule: shape_cases)
      case (single c)
      then show ?thesis
        using False b by (auto simp: QRingBuffer_read_block_def Let_def ring_wf_def ring_shape_def content_def
            readPointer_def nextDataBlockSize_def drop_take)
    next
      case (many c bs d)
      then show ?thesis
        using False b by (cases bs) (auto simp: QRingBuffer_read_block_def Let_def ring_wf_def ring_shape_def
            content_def readPointer_def nextDataBlockSize_def butlast_append)
    qed
  qed
  then show "ring_wf (snd (QRingBuffer_read_block r))"
    "content r = fst (QRingBuffer_read_block r) @ content (snd (QRingBuffer_read_block r))" by auto
qed

text \<open>\<open>readLine\<close>: everything asked for if there is no newline, else the line and at most \<open>maxLength - 1\<close>.\<close>

lemma take_line:
  assumes "c \<in> set xs"
  shows "take (Suc (length (takeWhile (\<lambda>x. x \<noteq> c) xs))) xs = takeWhile (\<lambda>x. x \<noteq> c) xs @ [c]"
    "length (takeWhile (\<lambda>x. x \<noteq> c) xs) < length xs"
  using assms by (induction xs) auto

definition read_line :: "nat \<Rightarrow> byte list \<Rightarrow> (int \<times> byte list) \<times> byte list" where
  "read_line n xs =
    (if newline \<notin> set xs then ((int (min n (length xs)), take n xs), drop n xs)
     else if n = 0 then ((-1, []), xs)
     else let line = take (n - 1) (takeWhile (\<lambda>c. c \<noteq> newline) xs @ [newline])
          in ((int (length line), line), drop (length line) xs))"

lemma readLine_ok:
  assumes "ring_wf r" "read_line maxLength (content r) = ((k, line), rest)"
  shows "\<exists>x. QRingBuffer_readLine B junk maxLength r = Some (k, line, x) \<and> ring_wf x \<and>
    (ring_ready r \<longrightarrow> ring_ready x) \<and> content x = rest"
proof (cases "newline \<in> set (content r)")
  case False
  then show ?thesis
    using read_ok [OF assms(1), of B junk maxLength] assms(2)
    by (auto simp: QRingBuffer_readLine_def indexOf_ok [OF assms(1)] index_of_def min.commute read_line_def)
next
  case True
  define m where "m = length (takeWhile (\<lambda>c. c \<noteq> newline) (content r))"
  define n where "n = min (Suc m) (maxLength - 1)"
  have i: "QRingBuffer_indexOf newline r = int m"
    using True by (simp add: indexOf_ok [OF assms(1)] index_of_def m_def)
  have n: "n \<le> length ([] :: byte list) + length (content r)"
    using take_line(2) [OF True] by (simp add: n_def m_def)
  define l where "l = take (maxLength - 1) (takeWhile (\<lambda>c. c \<noteq> newline) (content r) @ [newline])"
  have line: "take n (content r) = l"
    unfolding n_def l_def take_line(1) [OF True, symmetric] m_def by (simp add: min.commute)
  have len: "length l = n" unfolding line [symmetric] using n by simp
  have res: "k = (if maxLength = 0 then -1 else int n)" "line = (if maxLength = 0 then [] else l)"
    "rest = (if maxLength = 0 then content r else drop n (content r))"
    using assms(2) True unfolding read_line_def l_def [symmetric] by (auto simp: len split: if_splits)
  obtain x where "read_loop B junk n [] r = Some (take n (content r), x)" "ring_wf x"
    "ring_ready r \<longrightarrow> ring_ready x" "content x = drop n (content r)"
    using read_loop_ok [OF assms(1) n, of B junk] by auto
  moreover have "QRingBuffer_readLine B junk maxLength r = (if maxLength = 0 then Some (-1, [], r)
      else map_option (\<lambda>(data, r). (int (length data), data, r)) (read_loop B junk n [] r))"
    by (simp add: QRingBuffer_readLine_def i n_def)
  ultimately show ?thesis using assms(1) len by (auto simp: res line)
qed

text \<open>\<open>readPointerAtPosition\<close> finds the byte at a position, when nothing of the first array is read yet.\<close>

lemma position_in_middle_found:
  "pos < length (concat bs) \<Longrightarrow>
   \<exists>j off. position_in_middle bs i pos = ((i + j, off), Some (int (length (bs ! j)) - int off)) \<and>
     j < length bs \<and> off < length (bs ! j) \<and> drop pos (concat bs) = drop off (bs ! j) @ concat (drop (Suc j) bs)"
proof (induction bs i pos rule: position_in_middle.induct)
  case (2 b bs i pos)
  show ?case
  proof (cases "pos < length b")
    case True
    then show ?thesis by (intro exI [of _ 0] exI [of _ pos]) simp
  next
    case False
    with "2.prems" have "pos - length b < length (concat bs)" by simp
    from "2.IH" [OF _ this] False obtain j off where
      "position_in_middle bs (i + 1) (pos - length b) = ((i + 1 + j, off), Some (int (length (bs ! j)) - int off))"
      "j < length bs" "off < length (bs ! j)"
      "drop (pos - length b) (concat bs) = drop off (bs ! j) @ concat (drop (Suc j) bs)" by auto
    then show ?thesis using False by (intro exI [of _ "Suc j"] exI [of _ off]) simp
  qed
qed simp

lemma position_in_middle_behind:
  "length (concat bs) \<le> pos \<Longrightarrow>
   position_in_middle bs i pos = ((i + length bs, pos - length (concat bs)), None)"
  by (induction bs i pos rule: position_in_middle.induct) auto

lemma readPointerAtPosition_ok:
  assumes "ring_wf r" "head r = 0" "pos < bufferSize r"
  shows "\<exists>i off len. readPointerAtPosition r pos = (Some (i, off), len) \<and> 0 < len \<and> i < length (buffers r) \<and>
    nat len \<le> length (content r) - pos \<and>
    take (nat len) (drop off (buffers r ! i)) = take (nat len) (drop pos (content r))"
proof -
  have sh: "ring_shape r" and size: "bufferSize r = length (content r)" using assms by (auto simp: ring_wf_def)
  from sh show ?thesis
  proof (cases rule: shape_cases)
    case (single b)
    then show ?thesis
      using assms size
      by (intro exI [of _ 0] exI [of _ pos] exI [of _ "int (tail r) - int pos"])
        (auto simp: readPointerAtPosition_def nextDataBlockSize_def drop_take nat_diff_distrib')
  next
    case (many b bs c)
    have rp: "readPointerAtPosition r pos = (if pos < length b then (Some (0, pos), int (length b) - int pos)
       else case position_in_middle bs 1 (pos - length b) of
            (p, Some len) \<Rightarrow> (Some p, len) | (p, None) \<Rightarrow> (Some p, int (tail r) - int (snd p)))"
      using many assms size by (simp add: readPointerAtPosition_def nextDataBlockSize_def Let_def)
    consider "pos < length b" | "length b \<le> pos" "pos - length b < length (concat bs)"
      | "length b \<le> pos" "length (concat bs) \<le> pos - length b" by linarith
    then show ?thesis
    proof cases
      case 1
      then show ?thesis using many assms rp
        by (intro exI [of _ 0] exI [of _ pos] exI [of _ "int (length b) - int pos"])
          (auto simp: nat_diff_distrib')
    next
      case 2
      from position_in_middle_found [OF 2(2), of 1] obtain j off where
        j: "position_in_middle bs 1 (pos - length b) = ((1 + j, off), Some (int (length (bs ! j)) - int off))"
          "j < length bs" "off < length (bs ! j)"
          "drop (pos - length b) (concat bs) = drop off (bs ! j) @ concat (drop (Suc j) bs)" by auto
      have "drop pos (content r) = drop off (bs ! j) @ concat (drop (Suc j) bs) @ take (tail r) c"
        using many assms 2 j(4) by simp
      moreover from arg_cong [OF this, of length]
      have "length (bs ! j) - off \<le> length (content r) - pos" by simp
      ultimately show ?thesis using 2 j many rp
        by (intro exI [of _ "1 + j"] exI [of _ off] exI [of _ "int (length (bs ! j)) - int off"])
          (auto simp: nat_diff_distrib' nth_append)
    next
      case 3
      then show ?thesis using many assms rp position_in_middle_behind [OF 3(2), of 1] size
        by (intro exI [of _ "1 + length bs"] exI [of _ "pos - length b - length (concat bs)"]
            exI [of _ "int (tail r) - int (pos - length b - length (concat bs))"])
          (auto simp: nat_diff_distrib' nth_append drop_take)
    qed
  qed
qed

text \<open>Once some of the first array is read, the positions just behind it give no bytes.\<close>

lemma readPointerAtPosition_after_read:
  "readPointerAtPosition
     \<lparr>buffers = [[1, 2, 3], [4, 5]], head = 1, tail = 2, tailBuffer = 1, bufferSize = 4\<rparr> 2 = (Some (0, 3), 0)"
  by (simp add: readPointerAtPosition_def nextDataBlockSize_def)

end
