(* ===== verification/Refinement.thy ===== *)
theory Refinement
  imports Prelude
begin

text \<open>
  Refinement of an abstract machine: every operation of the code returns (\<open>Some\<close>), with the result of
  the abstract operation, and leaves a state that stands for the abstract one.  \<open>pre\<close> says when an
  operation may be called.  The lemma carries this over to every sequence of operations.
\<close>

fun run_steps :: "('op \<Rightarrow> 's \<Rightarrow> ('out \<times> 's) option) \<Rightarrow> 'op list \<Rightarrow> 's \<Rightarrow> ('out list \<times> 's) option" where
  "run_steps step [] s = Some ([], s)"
| "run_steps step (op # ops) s =
    (case step op s of
       None \<Rightarrow> None
     | Some (out, t) \<Rightarrow> map_option (\<lambda>(outs, u). (out # outs, u)) (run_steps step ops t))"

fun run_spec :: "('op \<Rightarrow> 'a \<Rightarrow> 'out \<times> 'a) \<Rightarrow> 'op list \<Rightarrow> 'a \<Rightarrow> 'out list \<times> 'a" where
  "run_spec spec [] a = ([], a)"
| "run_spec spec (op # ops) a =
    (let (out, b) = spec op a; (outs, c) = run_spec spec ops b in (out # outs, c))"

fun admissible :: "('op \<Rightarrow> 'a \<Rightarrow> bool) \<Rightarrow> ('op \<Rightarrow> 'a \<Rightarrow> 'out \<times> 'a) \<Rightarrow> 'op list \<Rightarrow> 'a \<Rightarrow> bool" where
  "admissible pre spec [] a = True"
| "admissible pre spec (op # ops) a = (pre op a \<and> admissible pre spec ops (snd (spec op a)))"

locale refinement =
  fixes step :: "'op \<Rightarrow> 's \<Rightarrow> ('out \<times> 's) option"
    and spec :: "'op \<Rightarrow> 'a \<Rightarrow> 'out \<times> 'a"
    and pre :: "'op \<Rightarrow> 'a \<Rightarrow> bool"
    and inv :: "'s \<Rightarrow> bool"
    and abstract :: "'s \<Rightarrow> 'a"
  assumes step_refines:
    "inv s \<Longrightarrow> pre op (abstract s) \<Longrightarrow> spec op (abstract s) = (out, a) \<Longrightarrow>
     \<exists>t. step op s = Some (out, t) \<and> inv t \<and> abstract t = a"
begin

lemma run_refines:
  "inv s \<Longrightarrow> admissible pre spec ops (abstract s) \<Longrightarrow> run_spec spec ops (abstract s) = (outs, a) \<Longrightarrow>
   \<exists>t. run_steps step ops s = Some (outs, t) \<and> inv t \<and> abstract t = a"
proof (induction ops arbitrary: s outs)
  case (Cons op ops)
  obtain out b where b: "spec op (abstract s) = (out, b)" by (cases "spec op (abstract s)")
  from step_refines [OF Cons.prems(1) _ b] Cons.prems(2)
  obtain t where t: "step op s = Some (out, t)" "inv t" "abstract t = b" by auto
  obtain outs' where o: "run_spec spec ops b = (outs', a)" "outs = out # outs'"
    using Cons.prems(3) b by (auto simp: Let_def split: prod.splits)
  show ?case using Cons.IH [OF t(2), of outs'] Cons.prems(2) b t o by auto
qed simp

end

end
