(* ===== verification/RingFifo.thy ===== *)
theory RingFifo
  imports RingBuffer Refinement
begin

text \<open>
  \<open>QRingBuffer\<close> as a queue of bytes: every sequence of its operations gives the results of the same
  operations on a plain list of bytes; and the states in which the code breaks this.
\<close>

datatype ring_op = Clear | Append "byte list" | AppendArray "byte list" | PutChar byte | UngetChar byte |
  GetChar | Free nat | Read nat | ReadAll | Skip nat | ReadLine nat | CanReadLine | Peek nat | IndexOf byte |
  Chop nat | Truncate nat | RingSize

text \<open>The list of bytes: the result is a number and the bytes returned.\<close>

fun bytes_step :: "ring_op \<Rightarrow> byte list \<Rightarrow> (int \<times> byte list) \<times> byte list" where
  "bytes_step Clear xs = ((0, []), [])"
| "bytes_step (Append data) xs = ((0, []), xs @ data)"
| "bytes_step (AppendArray data) xs = ((0, []), xs @ data)"
| "bytes_step (PutChar c) xs = ((0, []), xs @ [c])"
| "bytes_step (UngetChar c) xs = ((0, []), c # xs)"
| "bytes_step GetChar xs = (case xs of [] \<Rightarrow> ((-1, []), []) | x # ys \<Rightarrow> ((uint x, []), ys))"
| "bytes_step (Free n) xs = ((0, []), drop n xs)"
| "bytes_step (Read n) xs = ((0, take n xs), drop n xs)"
| "bytes_step ReadAll xs = ((0, xs), [])"
| "bytes_step (Skip n) xs = ((int (min n (length xs)), []), drop n xs)"
| "bytes_step (ReadLine n) xs = read_line n xs"
| "bytes_step CanReadLine xs = ((of_bool (newline \<in> set xs), []), xs)"
| "bytes_step (Peek n) xs = ((0, take n xs), xs)"
| "bytes_step (IndexOf c) xs = ((index_of c xs, []), xs)"
| "bytes_step (Chop n) xs = ((0, []), take (length xs - n) xs)"
| "bytes_step (Truncate n) xs = ((0, []), take n xs)"
| "bytes_step RingSize xs = ((int (length xs), []), xs)"

fun ring_step :: "nat \<Rightarrow> (nat \<Rightarrow> byte) \<Rightarrow> ring_op \<Rightarrow> QRingBuffer \<Rightarrow> ((int \<times> byte list) \<times> QRingBuffer) option" where
  "ring_step B junk Clear r = Some ((0, []), QRingBuffer_clear r)"
| "ring_step B junk (Append data) r = map_option (Pair (0, [])) (QRingBuffer_append B junk data r)"
| "ring_step B junk (AppendArray data) r = Some ((0, []), QRingBuffer_append_array junk data r)"
| "ring_step B junk (PutChar c) r = map_option (Pair (0, [])) (QRingBuffer_putChar B junk c r)"
| "ring_step B junk (UngetChar c) r = Some ((0, []), QRingBuffer_ungetChar B junk c r)"
| "ring_step B junk GetChar r = (let (c, r) = QRingBuffer_getChar B junk r in Some ((c, []), r))"
| "ring_step B junk (Free n) r = Some ((0, []), QRingBuffer_free B junk n r)"
| "ring_step B junk (Read n) r = map_option (\<lambda>(xs, r). ((0, xs), r)) (QRingBuffer_read B junk n r)"
| "ring_step B junk ReadAll r = map_option (\<lambda>(xs, r). ((0, xs), r)) (QRingBuffer_readAll B junk r)"
| "ring_step B junk (Skip n) r = map_option (\<lambda>(k, r). ((int k, []), r)) (QRingBuffer_skip B junk n r)"
| "ring_step B junk (ReadLine n) r = map_option (\<lambda>(k, xs, r). ((k, xs), r)) (QRingBuffer_readLine B junk n r)"
| "ring_step B junk CanReadLine r = Some ((of_bool (QRingBuffer_canReadLine r), []), r)"
| "ring_step B junk (Peek n) r = Some ((0, QRingBuffer_peek n r), r)"
| "ring_step B junk (IndexOf c) r = Some ((QRingBuffer_indexOf c r, []), r)"
| "ring_step B junk (Chop n) r = Some ((0, []), QRingBuffer_chop n r)"
| "ring_step B junk (Truncate n) r = Some ((0, []), QRingBuffer_truncate n r)"
| "ring_step B junk RingSize r = Some ((int (QRingBuffer_size r), []), r)"

text \<open>\<open>append(QByteArray)\<close> must not be the first thing put into an empty buffer: see below.\<close>

definition ring_pre :: "ring_op \<Rightarrow> byte list \<Rightarrow> bool" where
  "ring_pre op xs \<longleftrightarrow> (case op of AppendArray data \<Rightarrow> xs \<noteq> [] | _ \<Rightarrow> True)"

lemma ready_wf: "ring_ready r \<Longrightarrow> ring_wf r" "ring_ready r \<Longrightarrow> ring_ok r" "ring_ready r \<Longrightarrow> front r"
  "ring_ready r \<Longrightarrow> bufferSize r = length (content r)"
  by (simp_all add: ring_ready_def ring_ok_def ring_wf_def)

lemma getChar_step:
  assumes "ring_ready r" "QRingBuffer_getChar B junk r = (c, x)"
  shows "ring_ready x \<and> bytes_step GetChar (content r) = ((c, []), content x)"
  using assms free_result [OF ready_wf(1) [OF assms(1)], of B junk 1] getChar_ok [OF assms(1), of B junk]
  by (cases "content r") auto

lemma readLine_step:
  assumes "ring_ready r" "bytes_step (ReadLine n) (content r) = (out, a)"
  shows "\<exists>x. ring_step B junk (ReadLine n) r = Some (out, x) \<and> ring_ready x \<and> content x = a"
  using assms readLine_ok [OF ready_wf(1) [OF assms(1)], of n _ _ _ B junk] by (cases out) fastforce

lemma clear_ready: "ring_ready (QRingBuffer_clear r)"
  by (simp add: ring_ready_def)

lemma ring_step_refines:
  assumes "0 < B" "ring_ready r" "ring_pre op (content r)" "bytes_step op (content r) = (out, a)"
  shows "\<exists>x. ring_step B junk op r = Some (out, x) \<and> ring_ready x \<and> content x = a"
proof (cases op)
  case (ReadLine n)
  show ?thesis using readLine_step assms(2,4) unfolding ReadLine by blast
next
  case (Read n)
  show ?thesis using read_ok [OF ready_wf(1) [OF assms(2)], of B junk n] assms unfolding Read by auto
next
  case ReadAll
  show ?thesis using read_ok [OF ready_wf(1) [OF assms(2)], of B junk "bufferSize r"] assms unfolding ReadAll
    by (auto simp: QRingBuffer_readAll_def QRingBuffer_size_def ready_wf)
next
  case (Skip n)
  show ?thesis using read_ok [OF ready_wf(1) [OF assms(2)], of B junk n] assms unfolding Skip
    by (auto simp: QRingBuffer_skip_def min.commute)
next
  case GetChar
  obtain c x where "QRingBuffer_getChar B junk r = (c, x)" by fastforce
  with getChar_step [OF assms(2) this] assms show ?thesis unfolding GetChar by auto
next
  case (Append data)
  show ?thesis using append_ok [OF ready_wf(2) [OF assms(2)], of B junk data] assms unfolding Append
    by (auto simp: ring_ready_def)
next
  case (PutChar c)
  show ?thesis using putChar_ok [OF ready_wf(2) [OF assms(2)], of B junk c] assms unfolding PutChar
    by (auto simp: ring_ready_def)
next
  case (Truncate n)
  show ?thesis using chop_result [OF ready_wf(1) [OF assms(2)], of "length (content r) - n"] assms unfolding Truncate
    by (auto simp: QRingBuffer_truncate_def QRingBuffer_size_def ready_wf)
qed (use assms ready_wf [OF assms(2)] in \<open>auto simp: ring_pre_def free_result chop_result append_array_ok
  ungetChar_ok peek_ok indexOf_ok QRingBuffer_canReadLine_def index_of_def QRingBuffer_size_def clear_ready\<close>)

interpretation ring: refinement "ring_step (Suc b) junk" bytes_step ring_pre ring_ready content for b junk
  by unfold_locales (rule ring_step_refines, simp_all)

text \<open>
  C20: \<open>QRingBuffer\<close> refines the list of bytes: every sequence of its operations in which \<open>append(QByteArray)\<close> is called only
  when there is something in the buffer returns (no read loop runs for ever, no byte is written outside its array) with the
  results that the same operations give on the list, and ends with the same contents.  On an empty buffer that operation
  leaves an empty array in front, which the others are not prepared for: \<open>QRingBuffer_append_array_when_empty\<close> below.
\<close>
theorem QRingBuffer_refines_bytes:
  assumes "0 < B" "admissible ring_pre bytes_step ops []" "run_spec bytes_step ops [] = (outs, xs)"
  shows "\<exists>r. run_steps (ring_step B junk) ops new_QRingBuffer = Some (outs, r) \<and> content r = xs \<and> ring_ready r"
proof -
  obtain b where B: "B = Suc b" using assms(1) by (cases B) auto
  show ?thesis
    using ring.run_refines [OF new_ok(1), of ops outs xs b junk] assms(2,3) unfolding new_ok(2) B by auto
qed

theorem QRingBuffer_refines_bytes_witness:
  "\<exists>r. run_steps (ring_step 4 (\<lambda>i. 0xCD))
      [Append [1, 2, 10, 3, 4], AppendArray [5, 6], GetChar, UngetChar 9, ReadLine 80, Chop 2, RingSize, ReadAll, GetChar]
      new_QRingBuffer =
    Some ([(0, []), (0, []), (1, []), (0, []), (3, [9, 2, 10]), (0, []), (2, []), (0, [3, 4]), (-1, [])], r) \<and>
    content r = [] \<and> ring_ready r"
  by (rule QRingBuffer_refines_bytes) (simp_all add: ring_pre_def read_line_def newline_def Let_def)

text \<open>
  C21: The loops of \<open>read\<close> and \<open>readLine\<close> end, also when some of the arrays are empty, and \<open>read(data, n)\<close>
  returns the next \<open>n\<close> bytes (all of them if there are less), which are then gone from the buffer.
\<close>
theorem QRingBuffer_read_returns:
  assumes "ring_wf r"
  shows "(\<exists>x. QRingBuffer_read B junk n r = Some (take n (content r), x) \<and> content x = drop n (content r) \<and>
      ring_wf x) \<and>
    (\<exists>k line x. QRingBuffer_readLine B junk n r = Some (k, line, x) \<and>
      read_line n (content r) = ((k, line), content x) \<and> ring_wf x)"
proof -
  have 1: "\<exists>x. QRingBuffer_read B junk n r = Some (take n (content r), x) \<and> content x = drop n (content r) \<and>
      ring_wf x"
    using read_ok [OF assms, of B junk n] by blast
  obtain k line rest where "read_line n (content r) = ((k, line), rest)"
    by (metis prod.exhaust)
  with readLine_ok [OF assms this, of B junk] 1 show ?thesis by blast
qed

definition gaps :: QRingBuffer where
  "gaps = \<lparr>buffers = [[], [1, 2], [], [], [3, 10, 4]], head = 0, tail = 2, tailBuffer = 4, bufferSize = 4\<rparr>"

theorem QRingBuffer_read_returns_witness:
  "\<exists>x. QRingBuffer_read 4 (\<lambda>i. 0) 3 gaps = Some ([1, 2, 3], x) \<and> content x = [10] \<and> ring_wf x"
proof -
  have g: "ring_wf gaps" "content gaps = [1, 2, 3, 10]"
    by (simp_all add: ring_wf_def ring_shape_def content_def gaps_def)
  show ?thesis using QRingBuffer_read_returns [OF g(1), of 4 "\<lambda>i. 0" 3] unfolding g(2) by simp
qed

text \<open>
  \<open>append(QByteArray)\<close> on an empty buffer leaves the empty first array in front of the new one.
  \<open>getChar\<close> then returns the 0 behind that empty array in place of the first byte, which is lost; and
  if the array appended is empty the buffer counts as fresh, \<open>reserve\<close> makes room in the first array
  and \<open>append(data, size)\<close> writes outside of the last one.
\<close>
theorem QRingBuffer_append_array_when_empty:
  "fst (QRingBuffer_getChar B junk (QRingBuffer_append_array junk (c # cs) new_QRingBuffer)) = 0 \<and>
   content (snd (QRingBuffer_getChar B junk (QRingBuffer_append_array junk (c # cs) new_QRingBuffer))) = cs \<and>
   QRingBuffer_append B junk (d # data) (QRingBuffer_append_array junk [] new_QRingBuffer) = None"
proof -
  define r where "r = QRingBuffer_append_array junk (c # cs) new_QRingBuffer"
  have r: "r = \<lparr>buffers = [[], c # cs], head = 0, tail = Suc (length cs), tailBuffer = 1, bufferSize = Suc (length cs)\<rparr>"
    by (simp add: r_def QRingBuffer_append_array_def new_QRingBuffer_def QRingBuffer_clear_def resize_buffer_def
        Let_def QByteArray_resize_def)
  have "ring_wf r" "content r = c # cs" using append_array_ok [of new_QRingBuffer junk "c # cs"] new_ok
    by (simp_all add: r_def ready_wf)
  with free_result(2) [OF this(1), of B junk 1]
  have 1: "fst (QRingBuffer_getChar B junk r) = 0" "content (snd (QRingBuffer_getChar B junk r)) = cs"
    by (simp_all add: QRingBuffer_getChar_def Let_def QRingBuffer_isEmpty_def readPointer_def) (simp_all add: r)
  have "QRingBuffer_append_array junk [] new_QRingBuffer =
      \<lparr>buffers = [[], []], head = 0, tail = 0, tailBuffer = 1, bufferSize = 0\<rparr>"
    by (simp add: QRingBuffer_append_array_def new_QRingBuffer_def QRingBuffer_clear_def resize_buffer_def
        Let_def QByteArray_resize_def)
  then show ?thesis using 1 unfolding r_def
    by (simp add: QRingBuffer_append_def QRingBuffer_reserve_def Let_def resize_buffer_def write_at_def)
qed

end
