(* ===== verification/LayoutEngine.thy ===== *)
theory LayoutEngine
  imports Geometry "HOL-Library.Word"
begin

text \<open>
  The layout engine (src/src/gui/kernel/qlayoutengine.cpp and qlayoutengine\_p.h): \<open>qGeomCalc\<close> gives
  each item of a row or column its position and size, in fixed point with a factor of 256.  The
  loops over the chain are recursive functions on the slice of the vector they range over, the
  local variables they update are their accumulators.

  A signed overflow is undefined in C++: the numbers are exact here, which is what the code computes
  as long as its sums stay within \<open>int\<close> (sizes are at most \<open>QLAYOUTSIZE_MAX\<close>, 524287) and \<open>qint64\<close>.
\<close>

section \<open>Items\<close>

definition QLAYOUTSIZE_MAX :: int where
  "QLAYOUTSIZE_MAX = 2147483647 sdiv 256 sdiv 16"

text \<open>The fields \<open>done\<close>, \<open>pos\<close> and \<open>size\<close> are \<open>settled\<close>, \<open>place\<close> and \<open>extent\<close>.\<close>

record QLayoutStruct =
  stretch :: int
  sizeHint :: int
  maximumSize :: int
  minimumSize :: int
  expansive :: bool
  empty :: bool
  spacing :: int
  settled :: bool
  place :: int
  extent :: int

definition QLayoutStruct_init :: "int \<Rightarrow> int \<Rightarrow> QLayoutStruct \<Rightarrow> QLayoutStruct" where
  "QLayoutStruct_init stretchFactor minSize d =
    d\<lparr>stretch := stretchFactor, minimumSize := minSize, sizeHint := minSize, maximumSize := QLAYOUTSIZE_MAX,
      expansive := False, empty := True, spacing := 0\<rparr>"

definition smartSizeHint :: "QLayoutStruct \<Rightarrow> int" where
  "smartSizeHint d = (if stretch d > 0 then minimumSize d else sizeHint d)"

definition effectiveSpacer :: "int \<Rightarrow> QLayoutStruct \<Rightarrow> int" where
  "effectiveSpacer uniformSpacer d = (if uniformSpacer \<ge> 0 then uniformSpacer else spacing d)"

definition toFixed :: "int \<Rightarrow> int64" where
  "toFixed i = i * 256"

definition fRound :: "int64 \<Rightarrow> int" where
  "fRound i = (if i smod 256 < 128 then i sdiv 256 else 1 + i sdiv 256)"

section \<open>The totals of a chain\<close>

record LayoutTotals =
  cHint :: int
  cMin :: int
  cMax :: int
  sumStretch :: int
  sumSpacing :: int
  expandingCount :: int
  allEmptyNonstretch :: bool
  pendingSpacing :: int
  spacerCount :: int

definition no_totals :: LayoutTotals where
  "no_totals = \<lparr>cHint = 0, cMin = 0, cMax = 0, sumStretch = 0, sumSpacing = 0, expandingCount = 0,
    allEmptyNonstretch = True, pendingSpacing = -1, spacerCount = 0\<rparr>"

definition add_item :: "int \<Rightarrow> QLayoutStruct \<Rightarrow> LayoutTotals \<Rightarrow> LayoutTotals" where
  "add_item spacer d t =
    (let t = t\<lparr>cHint := cHint t + smartSizeHint d, cMin := cMin t + minimumSize d,
               cMax := cMax t + maximumSize d, sumStretch := sumStretch t + stretch d\<rparr>;
         t = (if \<not> empty d then
                (let t = (if pendingSpacing t \<ge> 0 then
                            t\<lparr>sumSpacing := sumSpacing t + pendingSpacing t, spacerCount := spacerCount t + 1\<rparr>
                          else t)
                 in t\<lparr>pendingSpacing := effectiveSpacer spacer d\<rparr>)
              else t);
         t = (if expansive d then t\<lparr>expandingCount := expandingCount t + 1\<rparr> else t)
     in t\<lparr>allEmptyNonstretch := allEmptyNonstretch t \<and> empty d \<and> \<not> expansive d \<and> stretch d \<le> 0\<rparr>)"

definition chain_totals :: "int \<Rightarrow> QLayoutStruct list \<Rightarrow> LayoutTotals" where
  "chain_totals spacer chain = fold (add_item spacer) chain no_totals"

section \<open>Less space than the minimum sizes\<close>

text \<open>The loop over the sorted minimum sizes: \<open>idx\<close>, \<open>sum\<close>, \<open>space_used\<close>, \<open>current\<close>.\<close>

fun find_level :: "int \<Rightarrow> int \<Rightarrow> int list \<Rightarrow> int \<Rightarrow> int \<Rightarrow> int \<Rightarrow> int \<Rightarrow> int \<times> int \<times> int" where
  "find_level count space_left [] idx summed space_used current = (idx, space_used, current)"
| "find_level count space_left (m # ms) idx summed space_used current =
    (if space_used < space_left then
       find_level count space_left ms (idx + 1) (summed + m) (summed + m * (count - idx)) m
     else (idx, space_used, current))"

fun truncate_items :: "int \<Rightarrow> int \<Rightarrow> int \<Rightarrow> int \<Rightarrow> QLayoutStruct list \<Rightarrow> QLayoutStruct list" where
  "truncate_items maxval remainder items rest [] = []"
| "truncate_items maxval remainder items rest (d # ds) =
    (let maxv = maxval;
         rest = rest + remainder;
         (maxv, rest) = (if rest \<ge> items then (maxv - 1, rest - items) else (maxv, rest))
     in d\<lparr>extent := min (minimumSize d) maxv, settled := True\<rparr>
        # truncate_items maxval remainder items rest ds)"

definition shrink_spacer :: "LayoutTotals \<Rightarrow> int \<Rightarrow> int \<Rightarrow> int \<times> int" where
  "shrink_spacer t space spacer =
    (let minSize = cMin t + sumSpacing t in
     if spacer \<ge> 0 then
       (let spacer = (if minSize > 0 then (spacer * space) sdiv minSize else 0)
        in (spacer, spacer * spacerCount t))
     else (spacer, sumSpacing t))"

definition below_minimum :: "QLayoutStruct list \<Rightarrow> int \<Rightarrow> QLayoutStruct list" where
  "below_minimum chain space_left =
    (let count = int (length chain);
         list = sort (map minimumSize chain);
         (idx, space_used, current) = find_level count space_left list 0 0 0 0;
         idx = idx - 1;
         deficit = space_used - space_left;
         items = count - idx;
         deficitPerItem = deficit sdiv items;
         remainder = deficit smod items;
         maxval = current - deficitPerItem
     in truncate_items maxval remainder items 0 chain)"

section \<open>Less space than the size hints\<close>

definition settle_minimum :: "QLayoutStruct \<Rightarrow> QLayoutStruct" where
  "settle_minimum d =
    (if \<not> settled d \<and> minimumSize d \<ge> smartSizeHint d then d\<lparr>extent := smartSizeHint d, settled := True\<rparr> else d)"

text \<open>One pass over the items that are not settled; it stops at an item that would get too small.\<close>

fun overdraft_pass :: "int64 \<Rightarrow> int \<Rightarrow> int64 \<Rightarrow> QLayoutStruct list \<Rightarrow> QLayoutStruct list \<times> int option" where
  "overdraft_pass fp_over n fp_w [] = ([], None)"
| "overdraft_pass fp_over n fp_w (d # ds) =
    (if settled d then (let (r, c) = overdraft_pass fp_over n fp_w ds in (d # r, c))
     else
       (let fp_w = fp_w + fp_over sdiv n;
            w = fRound fp_w;
            d = d\<lparr>extent := smartSizeHint d - w\<rparr>;
            fp_w = fp_w - toFixed w
        in if extent d < minimumSize d then
             (d\<lparr>settled := True, extent := minimumSize d\<rparr> # ds, Some (smartSizeHint d - minimumSize d))
           else (let (r, c) = overdraft_pass fp_over n fp_w ds in (d # r, c))))"

abbreviation open_items :: "QLayoutStruct list \<Rightarrow> QLayoutStruct list" where
  "open_items \<equiv> filter (\<lambda>d. \<not> settled d)"

lemma overdraft_pass_open:
  "overdraft_pass fp_over n fp_w ds = (r, Some k) \<Longrightarrow> length (open_items r) < length (open_items ds)"
  by (induction fp_over n fp_w ds arbitrary: r rule: overdraft_pass.induct)
    (auto simp: Let_def split: if_splits prod.splits)

function overdraft_loop :: "QLayoutStruct list \<Rightarrow> int \<Rightarrow> int \<Rightarrow> QLayoutStruct list" where
  "overdraft_loop chain overdraft n =
    (case overdraft_pass (toFixed overdraft) n 0 chain of
       (chain, None) \<Rightarrow> chain
     | (chain, Some k) \<Rightarrow> overdraft_loop chain (overdraft - k) (n - 1))"
  by pat_completeness auto
termination
  by (relation "measure (\<lambda>(chain, overdraft, n). length (open_items chain))") (auto dest: overdraft_pass_open [OF sym])

declare overdraft_loop.simps [simp del]

definition below_hint :: "LayoutTotals \<Rightarrow> QLayoutStruct list \<Rightarrow> int \<Rightarrow> QLayoutStruct list" where
  "below_hint t chain space =
    (let space_left = space - sumSpacing t;
         overdraft = cHint t - space_left;
         chain = map settle_minimum chain;
         n = int (length (open_items chain))
     in if n = 0 then chain else overdraft_loop chain overdraft n)"

section \<open>Extra space\<close>

record GeomState =
  items :: "QLayoutStruct list"
  count_left :: int
  space_left :: int
  stretch_left :: int
  expanding_left :: int

text \<open>The three loops that settle items: those that satisfy \<open>p\<close> get the size \<open>v\<close>.\<close>

fun settle :: "(QLayoutStruct \<Rightarrow> bool) \<Rightarrow> (QLayoutStruct \<Rightarrow> int) \<Rightarrow> QLayoutStruct list \<Rightarrow> GeomState \<Rightarrow> GeomState" where
  "settle p v [] g = g"
| "settle p v (d # ds) g =
    (if \<not> settled d \<and> p d then
       settle p v ds (g\<lparr>items := items g @ [d\<lparr>extent := v d, settled := True\<rparr>],
         space_left := space_left g - v d, stretch_left := stretch_left g - stretch d,
         expanding_left := (if expansive d then expanding_left g - 1 else expanding_left g),
         count_left := count_left g - 1\<rparr>)
     else settle p v ds (g\<lparr>items := items g @ [d]\<rparr>))"

definition settle_items :: "(QLayoutStruct \<Rightarrow> bool) \<Rightarrow> (QLayoutStruct \<Rightarrow> int) \<Rightarrow> GeomState \<Rightarrow> GeomState" where
  "settle_items p v g = settle p v (items g) (g\<lparr>items := []\<rparr>)"

definition share :: "GeomState \<Rightarrow> int64 \<Rightarrow> QLayoutStruct \<Rightarrow> int64" where
  "share g fp_space d =
    (if stretch_left g > 0 then (fp_space * stretch d) sdiv stretch_left g
     else if expanding_left g > 0 then (fp_space * (if expansive d then 1 else 0)) sdiv expanding_left g
     else (fp_space * 1) sdiv count_left g)"

text \<open>The trial distribution, with the sums \<open>surplus\<close> and \<open>deficit\<close>.\<close>

fun trial :: "GeomState \<Rightarrow> int64 \<Rightarrow> int64 \<Rightarrow> QLayoutStruct list \<Rightarrow> int \<Rightarrow> int \<Rightarrow> QLayoutStruct list \<times> int \<times> int" where
  "trial g fp_space fp_w [] surplus deficit = ([], surplus, deficit)"
| "trial g fp_space fp_w (d # ds) surplus deficit =
    (if settled d then (let (r, sd) = trial g fp_space fp_w ds surplus deficit in (d # r, sd))
     else
       (let fp_w = fp_w + share g fp_space d;
            w = fRound fp_w;
            d = d\<lparr>extent := w\<rparr>;
            fp_w = fp_w - toFixed w;
            (surplus, deficit) =
              (if w < smartSizeHint d then (surplus, deficit + (smartSizeHint d - w))
               else if w > maximumSize d then (surplus + (w - maximumSize d), deficit)
               else (surplus, deficit));
            (r, sd) = trial g fp_space fp_w ds surplus deficit
        in (d # r, sd)))"

definition too_little :: "QLayoutStruct \<Rightarrow> bool" where
  "too_little d \<longleftrightarrow> extent d < smartSizeHint d"

definition too_much :: "QLayoutStruct \<Rightarrow> bool" where
  "too_much d \<longleftrightarrow> extent d > maximumSize d"

text \<open>One round of the \<open>do\<close> loop.\<close>

definition extra_round :: "GeomState \<Rightarrow> GeomState \<times> int \<times> int" where
  "extra_round g =
    (let (ds, surplus, deficit) = trial g (toFixed (space_left g)) 0 (items g) 0 0;
         g = g\<lparr>items := ds\<rparr>;
         g = (if deficit > 0 \<and> surplus \<le> deficit then settle_items too_little smartSizeHint g else g);
         g = (if surplus > 0 \<and> surplus \<ge> deficit then settle_items too_much maximumSize g else g)
     in (g, surplus, deficit))"

lemma settle_items_eq:
  "items (settle_items p v g) =
    map (\<lambda>d. if \<not> settled d \<and> p d then d\<lparr>extent := v d, settled := True\<rparr> else d) (items g)"
proof -
  have "items (settle p v ds g) =
      items g @ map (\<lambda>d. if \<not> settled d \<and> p d then d\<lparr>extent := v d, settled := True\<rparr> else d) ds" for ds g
    by (induction ds arbitrary: g) auto
  then show ?thesis by (simp add: settle_items_def)
qed

lemma open_settle: "open_items (items (settle_items p v g)) = filter (\<lambda>d. \<not> p d) (open_items (items g))"
proof -
  have "open_items (map (\<lambda>d. if \<not> settled d \<and> p d then d\<lparr>extent := v d, settled := True\<rparr> else d) ds) =
      filter (\<lambda>d. \<not> p d) (open_items ds)" for ds :: "QLayoutStruct list"
    by (induction ds) auto
  then show ?thesis by (simp add: settle_items_eq)
qed

definition lack :: "QLayoutStruct \<Rightarrow> int" where
  "lack d = (if extent d < smartSizeHint d then smartSizeHint d - extent d else 0)"

definition excess :: "QLayoutStruct \<Rightarrow> int" where
  "excess d = (if extent d < smartSizeHint d then 0 else if extent d > maximumSize d then extent d - maximumSize d
    else 0)"

lemma hint_extent [simp]: "smartSizeHint (d\<lparr>extent := w\<rparr>) = smartSizeHint d"
  "smartSizeHint (d\<lparr>settled := b\<rparr>) = smartSizeHint d"
  by (simp_all add: smartSizeHint_def)

lemma trial_sums:
  "trial g fp_space fp_w ds s f = (r, s', f') \<Longrightarrow>
   s' = s + (\<Sum>d\<leftarrow>open_items r. excess d) \<and> f' = f + (\<Sum>d\<leftarrow>open_items r. lack d) \<and>
   length (open_items r) = length (open_items ds)"
proof (induction ds arbitrary: fp_w s f r)
  case (Cons d ds)
  show ?case
  proof (cases "settled d")
    case True
    with Cons show ?thesis by (auto split: prod.splits)
  next
    case False
    define w where "w = fRound (fp_w + share g fp_space d)"
    define x where "x = d\<lparr>extent := w\<rparr>"
    obtain q where q: "trial g fp_space (fp_w + share g fp_space d - toFixed w) ds (s + excess x) (f + lack x) = (q, s', f')"
      "r = x # q"
      using Cons.prems False
      by (auto simp: Let_def w_def [symmetric] x_def excess_def lack_def split: prod.splits if_splits)
    from Cons.IH [OF q(1)] q(2) False show ?thesis by (simp add: x_def)
  qed
qed auto

lemma lack_pos: "0 < (\<Sum>d\<leftarrow>ds. lack d) \<Longrightarrow> \<exists>d \<in> set ds. too_little d"
  by (induction ds) (auto simp: lack_def too_little_def split: if_splits)

lemma excess_pos: "0 < (\<Sum>d\<leftarrow>ds. excess d) \<Longrightarrow> \<exists>d \<in> set ds. too_much d"
  by (induction ds) (auto simp: excess_def too_much_def split: if_splits)

lemma sums_nonneg: "0 \<le> (\<Sum>d\<leftarrow>ds. lack d)" "0 \<le> (\<Sum>d\<leftarrow>ds. excess d)"
  by (auto intro!: sum_list_nonneg simp: lack_def excess_def)

lemma trial_nonneg:
  assumes "trial g fp_space fp_w ds 0 0 = (r, s, f)"
  shows "0 \<le> s" "0 \<le> f"
  using trial_sums [OF assms] sums_nonneg by auto

lemma extra_round_cases:
  assumes "trial g (toFixed (space_left g)) 0 (items g) 0 0 = (r, s, f)"
  shows "s < f \<Longrightarrow> extra_round g = (settle_items too_little smartSizeHint (g\<lparr>items := r\<rparr>), s, f)"
    "f < s \<Longrightarrow> extra_round g = (settle_items too_much maximumSize (g\<lparr>items := r\<rparr>), s, f)"
    "s = f \<Longrightarrow> extra_round g = (if s = 0 then g\<lparr>items := r\<rparr> else
       settle_items too_much maximumSize (settle_items too_little smartSizeHint (g\<lparr>items := r\<rparr>)), s, f)"
  using trial_nonneg [OF assms] by (auto simp: extra_round_def assms Let_def)

lemma extra_round_open:
  assumes "extra_round g = (h, s, f)" "s \<noteq> f"
  shows "length (open_items (items h)) < length (open_items (items g))"
proof -
  obtain r where r: "trial g (toFixed (space_left g)) 0 (items g) 0 0 = (r, s, f)"
    using assms(1) by (auto simp: extra_round_def Let_def split: prod.splits)
  have n: "length (open_items r) = length (open_items (items g))" "s = (\<Sum>d\<leftarrow>open_items r. excess d)"
    "f = (\<Sum>d\<leftarrow>open_items r. lack d)" using trial_sums [OF r] by auto
  have less: "length (filter (\<lambda>d. \<not> p d) ds) < length ds" if "\<exists>d\<in>set ds. p d" for p and ds :: "QLayoutStruct list"
    using that by (auto intro: length_filter_less)
  show ?thesis
  proof (cases "s < f")
    case True
    then have "\<exists>d\<in>set (open_items r). too_little d"
      using sums_nonneg(2) [of "open_items r"] n by (intro lack_pos) simp
    from less [OF this] n(1) extra_round_cases(1) [OF r True] assms(1) show ?thesis
      by (auto simp: open_settle simp del: filter_filter)
  next
    case False
    with assms(2) have "f < s" by simp
    then have "\<exists>d\<in>set (open_items r). too_much d"
      using sums_nonneg(1) [of "open_items r"] n by (intro excess_pos) simp
    from less [OF this] n(1) extra_round_cases(2) [OF r \<open>f < s\<close>] assms(1) show ?thesis
      by (auto simp: open_settle simp del: filter_filter)
  qed
qed

function extra_loop :: "GeomState \<Rightarrow> GeomState" where
  "extra_loop g =
    (case extra_round g of
       (g, surplus, deficit) \<Rightarrow> if count_left g > 0 \<and> surplus \<noteq> deficit then extra_loop g else g)"
  by pat_completeness auto
termination
  by (relation "measure (\<lambda>g. length (open_items (items g)))") (auto dest: extra_round_open [OF sym])

declare extra_loop.simps [simp del]

definition first_settled :: "LayoutTotals \<Rightarrow> QLayoutStruct \<Rightarrow> bool" where
  "first_settled t d \<longleftrightarrow> maximumSize d \<le> smartSizeHint d \<or>
    (\<not> allEmptyNonstretch t \<and> empty d \<and> \<not> expansive d \<and> stretch d = 0)"

text \<open>The third case: the items and \<open>extraspace\<close>.\<close>

definition above_hint :: "LayoutTotals \<Rightarrow> QLayoutStruct list \<Rightarrow> int \<Rightarrow> QLayoutStruct list \<times> int" where
  "above_hint t chain space =
    (let g = settle_items (first_settled t) smartSizeHint
               \<lparr>items = chain, count_left = int (length chain), space_left = space - sumSpacing t,
                stretch_left = sumStretch t, expanding_left = expandingCount t\<rparr>;
         extraspace = (if open_items (items g) = [] then space_left g else 0);
         g = extra_loop g
     in (items g, if count_left g = 0 then space_left g else extraspace))"

section \<open>Positions\<close>

fun put_items :: "int \<Rightarrow> int \<Rightarrow> int \<Rightarrow> QLayoutStruct list \<Rightarrow> QLayoutStruct list" where
  "put_items spacer extra p [] = []"
| "put_items spacer extra p (d # ds) =
    d\<lparr>place := p\<rparr> # put_items spacer extra
      (p + extent d + (if \<not> empty d then effectiveSpacer spacer d + extra else 0)) ds"

definition calc_sizes :: "QLayoutStruct list \<Rightarrow> int \<Rightarrow> int \<Rightarrow> QLayoutStruct list \<times> int \<times> int" where
  "calc_sizes chain space spacer =
    (let chain = map (\<lambda>d. d\<lparr>settled := False\<rparr>) chain;
         t = chain_totals spacer chain
     in if space < cMin t + sumSpacing t then
          (let (spacer, sumSpacing) = shrink_spacer t space spacer
           in (below_minimum chain (space - sumSpacing), spacer, 0))
        else if space < cHint t + sumSpacing t then (below_hint t chain space, spacer, 0)
        else (let (ds, extraspace) = above_hint t chain space in (ds, spacer, extraspace)))"

definition qGeomCalc :: "QLayoutStruct list \<Rightarrow> nat \<Rightarrow> nat \<Rightarrow> int \<Rightarrow> int \<Rightarrow> int \<Rightarrow> QLayoutStruct list" where
  "qGeomCalc chain start count pos space spacer =
    (let slice = take count (drop start chain);
         t = chain_totals spacer slice;
         (ds, spacer, extraspace) = calc_sizes slice space spacer;
         extra = extraspace sdiv (spacerCount t + 2)
     in take start chain @ put_items spacer extra (pos + extra) ds @ drop (start + count) chain)"

end
