(* ===== verification/LayoutSums.thy ===== *)
theory LayoutSums
  imports LayoutEngine
begin

text \<open>
  The fixed-point arithmetic of the layout engine: distributing a number of pixels over at most 128
  items by rounded shares, each rounding error being carried to the next item, loses no pixel.
\<close>

section \<open>Rounding\<close>

lemma fRound_eq: "-128 \<le> i \<Longrightarrow> fRound i = (i + 128) div 256"
proof (cases "0 \<le> i")
  case True
  define q m where "q = i div 256" "m = i mod 256"
  have "i = 256 * q + m" "0 \<le> m" "m < 256" by (simp_all add: q_m_def)
  then have "(i + 128) div 256 = (if m < 128 then q else 1 + q)"
    by (intro int_div_eqI) (auto split: if_splits)
  then have "(i + 128) div 256 = (if i mod 256 < 128 then i div 256 else 1 + i div 256)"
    by (simp add: q_m_def)
  with True show ?thesis by (simp add: fRound_def cdiv_simps)
next
  case False
  moreover assume "-128 \<le> i"
  ultimately have "- i div 256 = 0" "- i mod 256 = - i" "(i + 128) div 256 = 0" by simp_all
  with False show ?thesis by (simp add: fRound_def cdiv_simps)
qed

lemma fRound_carry:
  assumes "-128 \<le> i"
  shows "0 \<le> fRound i" "-128 \<le> i - toFixed (fRound i)" "i - toFixed (fRound i) < 128"
proof -
  define q m where "q = (i + 128) div 256" "m = (i + 128) mod 256"
  have "i + 128 = 256 * q + m" "0 \<le> m" "m < 256" by (simp_all add: q_m_def)
  moreover have "0 \<le> q" using assms by (simp add: q_m_def)
  moreover have "fRound i = q" using assms by (simp add: fRound_eq q_m_def)
  ultimately show "0 \<le> fRound i" "-128 \<le> i - toFixed (fRound i)" "i - toFixed (fRound i) < 128"
    by (simp_all add: toFixed_def)
qed

lemma exact_pixels:
  fixes x y e r :: int
  assumes "256 * x = 256 * y - r - e" "0 \<le> r" "r \<le> 127" "-128 \<le> e" "e < 128"
  shows "x = y"
proof -
  have "x - y < 1" "-1 < x - y" using assms by linarith+
  then show ?thesis by simp
qed

lemma sum_div_bounds:
  fixes f :: "'a \<Rightarrow> int"
  assumes "0 < T"
  shows "T * (\<Sum>x\<leftarrow>xs. f x div T) \<le> (\<Sum>x\<leftarrow>xs. f x) \<and>
    (\<Sum>x\<leftarrow>xs. f x) \<le> T * (\<Sum>x\<leftarrow>xs. f x div T) + int (length xs) * (T - 1)"
proof (induction xs)
  case (Cons x xs)
  define a m where "a = f x div T" "m = f x mod T"
  have "f x = T * a + m" "0 \<le> m" "m < T" using assms by (simp_all add: a_m_def)
  moreover have "int (length (x # xs)) * (T - 1) = (T - 1) + int (length xs) * (T - 1)"
    by (simp add: distrib_right)
  ultimately show ?case
    using Cons unfolding list.map sum_list.Cons a_m_def(1) [symmetric] distrib_left by linarith
qed simp

lemma shares_sum:
  fixes f :: "'a \<Rightarrow> int"
  assumes "0 < T" "(\<Sum>x\<leftarrow>xs. f x) = fp * T" "xs \<noteq> []"
  shows "fp - (int (length xs) - 1) \<le> (\<Sum>x\<leftarrow>xs. f x div T)" "(\<Sum>x\<leftarrow>xs. f x div T) \<le> fp"
proof -
  let ?s = "\<Sum>x\<leftarrow>xs. f x div T"
  have 1: "T * ?s \<le> T * fp" and 2: "T * fp \<le> T * ?s + int (length xs) * (T - 1)"
    using sum_div_bounds [OF assms(1), of f xs] assms(2) by (simp_all add: mult.commute)
  from 1 assms(1) show "?s \<le> fp" by simp
  have "int (length xs) * (T - 1) < int (length xs) * T" using assms(3) by simp
  with 2 have "T * fp < T * (?s + int (length xs))" by (simp add: distrib_left mult.commute)
  with assms(1) show "fp - (int (length xs) - 1) \<le> ?s" by simp
qed

section \<open>The passes over the chain\<close>

lemma trial_carry:
  assumes "trial g fp fp_w ds s f = (r, s', f')" "-128 \<le> fp_w" "fp_w < 128"
    "\<And>d. d \<in> set (open_items ds) \<Longrightarrow> 0 \<le> share g fp d"
  shows "\<exists>e. 256 * (\<Sum>d\<leftarrow>open_items r. extent d) = fp_w + (\<Sum>d\<leftarrow>open_items ds. share g fp d) - e \<and>
    -128 \<le> e \<and> e < 128 \<and> (\<forall>d\<in>set (open_items r). 0 \<le> extent d)"
  using assms
proof (induction ds arbitrary: fp_w s f r)
  case (Cons d ds)
  show ?case
  proof (cases "settled d")
    case True
    then obtain q where q: "trial g fp fp_w ds s f = (q, s', f')" "r = d # q"
      using Cons.prems(1) by (auto split: prod.splits)
    have "\<And>x. x \<in> set (open_items ds) \<Longrightarrow> 0 \<le> share g fp x" using Cons.prems(4) by simp
    from Cons.IH [OF q(1) Cons.prems(2,3) this] show ?thesis using True q(2) by simp
  next
    case False
    define w where "w = fRound (fp_w + share g fp d)"
    define x where "x = d\<lparr>extent := w\<rparr>"
    obtain q s1 f1 where q: "trial g fp (fp_w + share g fp d - toFixed w) ds s1 f1 = (q, s', f')" "r = x # q"
      using Cons.prems(1) False by (auto simp: Let_def w_def [symmetric] x_def split: prod.splits)
    have "-128 \<le> fp_w + share g fp d" using Cons.prems(2) Cons.prems(4) [of d] False by simp
    note c = fRound_carry [OF this, folded w_def]
    from Cons.IH [OF q(1) c(2,3)] Cons.prems(4) False obtain e where
      "256 * (\<Sum>d\<leftarrow>open_items q. extent d) =
        fp_w + share g fp d - toFixed w + (\<Sum>d\<leftarrow>open_items ds. share g fp d) - e"
      "-128 \<le> e" "e < 128" "\<forall>d\<in>set (open_items q). 0 \<le> extent d" by auto
    with q(2) False c(1) show ?thesis by (intro exI [of _ e]) (auto simp: x_def toFixed_def)
  qed
qed auto

lemma overdraft_carry:
  assumes "overdraft_pass fp n fp_w ds = (r, None)" "-128 \<le> fp_w" "fp_w < 128" "0 \<le> fp sdiv n"
  shows "\<exists>e. 256 * (\<Sum>d\<leftarrow>open_items r. smartSizeHint d - extent d) =
      fp_w + int (length (open_items ds)) * (fp sdiv n) - e \<and> -128 \<le> e \<and> e < 128 \<and>
    (\<forall>d\<in>set (open_items r). minimumSize d \<le> extent d \<and> extent d \<le> smartSizeHint d)"
  using assms
proof (induction ds arbitrary: fp_w r)
  case (Cons d ds)
  show ?case
  proof (cases "settled d")
    case True
    then obtain q where q: "overdraft_pass fp n fp_w ds = (q, None)" "r = d # q"
      using Cons.prems(1) by (auto split: prod.splits)
    from Cons.IH [OF q(1) Cons.prems(2-4)] show ?thesis using True q(2) by simp
  next
    case False
    define w where "w = fRound (fp_w + fp sdiv n)"
    define x where "x = d\<lparr>extent := smartSizeHint d - w\<rparr>"
    have q: "minimumSize d \<le> smartSizeHint d - w" and
      "\<exists>q. overdraft_pass fp n (fp_w + fp sdiv n - toFixed w) ds = (q, None) \<and> r = x # q"
      using Cons.prems(1) False by (auto simp: Let_def w_def [symmetric] x_def split: prod.splits if_splits)
    then obtain q where q': "overdraft_pass fp n (fp_w + fp sdiv n - toFixed w) ds = (q, None)" "r = x # q" by auto
    have "-128 \<le> fp_w + fp sdiv n" using Cons.prems(2,4) by simp
    note c = fRound_carry [OF this, folded w_def]
    from Cons.IH [OF q'(1) c(2,3) Cons.prems(4)] obtain e where
      "256 * (\<Sum>d\<leftarrow>open_items q. smartSizeHint d - extent d) =
        fp_w + fp sdiv n - toFixed w + int (length (open_items ds)) * (fp sdiv n) - e"
      "-128 \<le> e" "e < 128" "\<forall>d\<in>set (open_items q). minimumSize d \<le> extent d \<and> extent d \<le> smartSizeHint d"
      by auto
    with q q'(2) False c(1) show ?thesis
      by (intro exI [of _ e]) (auto simp: x_def toFixed_def distrib_right)
  qed
qed auto

end
