(* ===== verification/LayoutSpec.thy ===== *)
theory LayoutSpec
  imports LayoutSums "HOL-Library.Multiset"
begin

text \<open>
  What \<open>qGeomCalc\<close> promises: with enough space every item gets a size between its hint and its
  maximum and the space is used up to the last pixel (what the items cannot take goes into the
  spacing); with less, no item gets less than its minimum; below that the items are cut to a level.
\<close>

section \<open>Settling items\<close>

definition balanced :: "GeomState \<Rightarrow> bool" where
  "balanced g \<longleftrightarrow> count_left g = int (length (open_items (items g))) \<and>
    stretch_left g = (\<Sum>d\<leftarrow>open_items (items g). stretch d) \<and>
    expanding_left g = (\<Sum>d\<leftarrow>open_items (items g). if expansive d then 1 else 0)"

definition pixels :: "GeomState \<Rightarrow> int" where
  "pixels g = space_left g + (\<Sum>d\<leftarrow>filter settled (items g). extent d)"

lemma settle_balance:
  "balanced (g\<lparr>items := items g @ ds\<rparr>) \<Longrightarrow> balanced (settle p v ds g)"
  "pixels (settle p v ds g) = pixels (g\<lparr>items := items g @ ds\<rparr>)"
  "space_left (settle p v ds g) = space_left g - (\<Sum>d\<leftarrow>filter p (open_items ds). v d)"
  by (induction ds arbitrary: g) (auto simp: balanced_def pixels_def)

lemma settle_items_balance:
  "balanced g \<Longrightarrow> balanced (settle_items p v g)"
  "pixels (settle_items p v g) = pixels g"
  "space_left (settle_items p v g) = space_left g - (\<Sum>d\<leftarrow>filter p (open_items (items g)). v d)"
  by (simp_all add: settle_items_def settle_balance)

lemma settle_items_settled:
  "filter settled (items (settle_items p v g)) =
   map (\<lambda>d. if \<not> settled d \<and> p d then d\<lparr>extent := v d, settled := True\<rparr> else d)
     (filter (\<lambda>d. settled d \<or> p d) (items g))"
  by (simp add: settle_items_eq filter_map o_def) (rule arg_cong [where f = "map _"], rule filter_cong, auto)

lemma trial_same:
  "trial g fp fp_w ds s f = (r, s', f') \<Longrightarrow>
   map (\<lambda>d. d\<lparr>extent := 0\<rparr>) (open_items r) = map (\<lambda>d. d\<lparr>extent := 0\<rparr>) (open_items ds) \<and>
   filter settled r = filter settled ds"
proof (induction ds arbitrary: fp_w s f r)
  case (Cons d ds)
  then show ?case by (cases "settled d") (auto simp: Let_def split: prod.splits if_splits)
qed auto

lemma trial_items:
  "trial g fp fp_w ds s f = (r, s', f') \<Longrightarrow>
   length r = length ds \<and> (\<forall>x\<in>set r. \<exists>d\<in>set ds. x\<lparr>extent := 0\<rparr> = d\<lparr>extent := 0\<rparr> \<and> (settled x \<longrightarrow> x = d))"
proof (induction ds arbitrary: fp_w s f r)
  case (Cons d ds)
  show ?case
  proof (cases "settled d")
    case True
    then obtain q where q: "trial g fp fp_w ds s f = (q, s', f')" "r = d # q"
      using Cons.prems by (auto split: prod.splits)
    from Cons.IH [OF q(1)] q(2) show ?thesis by auto
  next
    case False
    then obtain q w f1 s1 f2 where q: "trial g fp f1 ds s1 f2 = (q, s', f')" "r = d\<lparr>extent := w\<rparr> # q"
      using Cons.prems by (auto simp: Let_def split: prod.splits)
    from Cons.IH [OF q(1)] q(2) False show ?thesis by auto
  qed
qed auto

lemma trial_map:
  assumes "trial g fp fp_w ds s f = (r, s', f')" "\<And>d. h (d\<lparr>extent := 0\<rparr>) = h d"
  shows "map h (open_items r) = map h (open_items ds)"
proof -
  have "map h xs = map h (map (\<lambda>d. d\<lparr>extent := 0\<rparr>) xs)" for xs using assms(2) by simp
  then show ?thesis using trial_same [OF assms(1)] by metis
qed

text \<open>The trial distribution uses the space up to the pixel.\<close>

lemma trial_exact:
  assumes "trial g (toFixed (space_left g)) 0 (items g) 0 0 = (r, s, f)"
    "balanced g" "open_items (items g) \<noteq> []" "length (items g) \<le> 128" "0 \<le> space_left g"
    "\<And>d. d \<in> set (items g) \<Longrightarrow> 0 \<le> stretch d"
  shows "(\<Sum>d\<leftarrow>open_items r. extent d) = space_left g"
proof -
  define ds fp where "ds = open_items (items g)" "fp = toFixed (space_left g)"
  define n where "n = int (length ds)"
  have "length ds \<le> 128" unfolding ds_fp_def by (rule order_trans [OF length_filter_le assms(4)])
  then have n: "0 < n" "n \<le> 128" "0 \<le> fp"
    using assms(3,5) by (auto simp: n_def ds_fp_def toFixed_def)
  define T where "T = (if stretch_left g > 0 then stretch_left g else if expanding_left g > 0 then expanding_left g
    else count_left g)"
  define wt where "wt d = (if stretch_left g > 0 then stretch d else if expanding_left g > 0
    then (if expansive d then 1 else 0) else 1)" for d :: QLayoutStruct
  have T: "0 < T" using assms(2) n by (simp add: T_def balanced_def n_def ds_fp_def)
  have wt: "0 \<le> wt d" if "d \<in> set ds" for d using that assms(6) by (simp add: wt_def ds_fp_def)
  have share: "share g fp d = (fp * wt d) div T" if "d \<in> set ds" for d
    using wt [OF that] T n by (auto simp: share_def T_def wt_def cdiv_simps)
  have "(\<Sum>d\<leftarrow>ds. wt d) = T"
    using assms(2) by (simp add: T_def wt_def [abs_def] balanced_def ds_fp_def sum_list_triv)
  then have w: "(\<Sum>d\<leftarrow>ds. fp * wt d) = fp * T" by (simp add: sum_list_const_mult)
  have "(\<Sum>d\<leftarrow>ds. share g fp d) = (\<Sum>d\<leftarrow>ds. (fp * wt d) div T)"
    using share by (simp cong: map_cong)
  with shares_sum [OF T w] n have b: "fp - (n - 1) \<le> (\<Sum>d\<leftarrow>ds. share g fp d)" "(\<Sum>d\<leftarrow>ds. share g fp d) \<le> fp"
    by (auto simp: n_def)
  have "0 \<le> share g fp d" if "d \<in> set (open_items (items g))" for d
    using share wt that T n by (simp add: ds_fp_def pos_imp_zdiv_nonneg_iff)
  from trial_carry [OF assms(1) [folded ds_fp_def(2)] _ _ this] obtain e where
    e: "256 * (\<Sum>d\<leftarrow>open_items r. extent d) = (\<Sum>d\<leftarrow>ds. share g fp d) - e" "-128 \<le> e" "e < 128"
    by (auto simp: ds_fp_def(1))
  have fp: "fp = 256 * space_left g" by (simp add: ds_fp_def(2) toFixed_def)
  show ?thesis
    by (rule exact_pixels [of _ _ "fp - (\<Sum>d\<leftarrow>ds. share g fp d)" e]) (use b n(2) e fp in linarith)+
qed

section \<open>Enough space\<close>

definition geom_ok :: "int \<Rightarrow> GeomState \<Rightarrow> bool" where
  "geom_ok space g \<longleftrightarrow> balanced g \<and> pixels g = space \<and> length (items g) \<le> 128 \<and>
    (\<Sum>d\<leftarrow>open_items (items g). smartSizeHint d) \<le> space_left g \<and>
    (\<forall>d\<in>set (items g). 0 \<le> stretch d \<and> 0 \<le> smartSizeHint d \<and>
       (if settled d then extent d = smartSizeHint d \<or> smartSizeHint d < maximumSize d \<and> extent d = maximumSize d
        else smartSizeHint d < maximumSize d))"

text \<open>What the loop leaves: \<open>left\<close> is the space no item can take.\<close>

definition geom_done :: "int \<Rightarrow> GeomState \<Rightarrow> bool" where
  "geom_done space g \<longleftrightarrow> balanced g \<and>
    (\<forall>d\<in>set (items g). extent d = smartSizeHint d \<or>
       smartSizeHint d \<le> extent d \<and> extent d \<le> maximumSize d \<and> (count_left g = 0 \<longrightarrow> extent d = maximumSize d)) \<and>
    (\<Sum>d\<leftarrow>items g. extent d) + (if count_left g = 0 then space_left g else 0) = space \<and>
    (count_left g = 0 \<longrightarrow> 0 \<le> space_left g)"

lemma sum_open_settled:
  "(\<Sum>d\<leftarrow>ds. f d) = (\<Sum>d\<leftarrow>open_items ds. f d) + (\<Sum>d\<leftarrow>filter settled ds. (f d :: int))"
  by (induction ds) auto

lemma sum_filter_split:
  "(\<Sum>d\<leftarrow>ds. f d) = (\<Sum>d\<leftarrow>filter p ds. f d) + (\<Sum>d\<leftarrow>filter (\<lambda>d. \<not> p d) ds. (f d :: int))"
  by (induction ds) auto

lemma all_settled_done:
  assumes "geom_ok space g" "count_left g = 0"
  shows "geom_done space g"
proof -
  have b: "balanced g" "pixels g = space" and h: "(\<Sum>d\<leftarrow>open_items (items g). smartSizeHint d) \<le> space_left g"
    and e: "\<forall>d\<in>set (items g). settled d \<longrightarrow>
      extent d = smartSizeHint d \<or> smartSizeHint d < maximumSize d \<and> extent d = maximumSize d"
    using assms(1) unfolding geom_ok_def by simp_all
  have o: "open_items (items g) = []" using assms(2) b by (simp add: balanced_def)
  then have s: "\<forall>d\<in>set (items g). settled d" by (simp add: filter_empty_conv)
  then have "filter settled (items g) = items g" by simp
  with b(2) have "(\<Sum>d\<leftarrow>items g. extent d) + space_left g = space" by (simp add: pixels_def)
  moreover have "0 \<le> space_left g" using h o by simp
  moreover have "\<forall>d\<in>set (items g). extent d = smartSizeHint d \<or>
       smartSizeHint d \<le> extent d \<and> extent d \<le> maximumSize d \<and> (count_left g = 0 \<longrightarrow> extent d = maximumSize d)"
    using e s by force
  ultimately show ?thesis using b(1) assms(2) by (simp add: geom_done_def)
qed

text \<open>The items after a trial: the extents of the open ones are new and add up to the space left.\<close>

lemma trial_ok:
  assumes "geom_ok space g" "open_items (items g) \<noteq> []"
    "trial g (toFixed (space_left g)) 0 (items g) 0 0 = (r, s, f)"
  shows "geom_ok space (g\<lparr>items := r\<rparr>)" "(\<Sum>d\<leftarrow>open_items r. extent d) = space_left g"
    "s = (\<Sum>d\<leftarrow>open_items r. excess d)" "f = (\<Sum>d\<leftarrow>open_items r. lack d)" "open_items r \<noteq> []"
proof -
  have hints: "0 \<le> (\<Sum>d\<leftarrow>open_items (items g). smartSizeHint d)"
    using assms(1) by (auto intro!: sum_list_nonneg simp: geom_ok_def)
  show "(\<Sum>d\<leftarrow>open_items r. extent d) = space_left g"
    by (rule trial_exact [OF assms(3)]) (use assms hints in \<open>auto simp: geom_ok_def\<close>)
  show "s = (\<Sum>d\<leftarrow>open_items r. excess d)" "f = (\<Sum>d\<leftarrow>open_items r. lack d)"
    using trial_sums [OF assms(3)] by auto
  show "open_items r \<noteq> []" using trial_sums [OF assms(3)] assms(2) by (metis length_0_conv)
  note m = trial_map [OF assms(3)]
  have eqs: "map smartSizeHint (open_items r) = map smartSizeHint (open_items (items g))"
    "map stretch (open_items r) = map stretch (open_items (items g))"
    "map (\<lambda>d. if expansive d then 1 else 0) (open_items r) = map (\<lambda>d. if expansive d then 1::int else 0) (open_items (items g))"
    by (rule m; simp)+
  have item: "0 \<le> stretch x \<and> 0 \<le> smartSizeHint x \<and>
      (if settled x then extent x = smartSizeHint x \<or> smartSizeHint x < maximumSize x \<and> extent x = maximumSize x
       else smartSizeHint x < maximumSize x)" if "x \<in> set r" for x
  proof -
    obtain d where d: "d \<in> set (items g)" "x\<lparr>extent := 0\<rparr> = d\<lparr>extent := 0\<rparr>" "settled x \<longrightarrow> x = d"
      using trial_items [OF assms(3)] \<open>x \<in> set r\<close> by blast
    have "smartSizeHint x = smartSizeHint d" "stretch x = stretch d" "maximumSize x = maximumSize d"
      "settled x = settled d"
      using arg_cong [OF d(2), of smartSizeHint] arg_cong [OF d(2), of stretch]
        arg_cong [OF d(2), of maximumSize] arg_cong [OF d(2), of settled] by simp_all
    with assms(1) d(1,3) show ?thesis by (auto simp: geom_ok_def)
  qed
  have "length (open_items r) = length (open_items (items g))" "filter settled r = filter settled (items g)"
    "length r = length (items g)"
    using trial_sums [OF assms(3)] trial_same [OF assms(3)] trial_items [OF assms(3)] by blast+
  then show "geom_ok space (g\<lparr>items := r\<rparr>)"
    using assms(1) eqs item unfolding geom_ok_def balanced_def pixels_def by (simp del: set_filter)
qed

lemma settle_ok:
  assumes "geom_ok space g" "\<forall>d. p d \<longrightarrow> v d = smartSizeHint d \<or> v d = maximumSize d"
    "(\<Sum>d\<leftarrow>filter (\<lambda>d. \<not> p d) (open_items (items g)). smartSizeHint d) \<le>
     space_left g - (\<Sum>d\<leftarrow>filter p (open_items (items g)). v d)"
  shows "geom_ok space (settle_items p v g)"
proof -
  have b: "balanced g" "pixels g = space" "length (items g) \<le> 128" using assms(1) unfolding geom_ok_def by simp_all
  have "(\<Sum>d\<leftarrow>open_items (items (settle_items p v g)). smartSizeHint d) \<le> space_left (settle_items p v g)"
    using assms(3) by (simp add: open_settle settle_items_balance del: filter_filter)
  moreover have "\<forall>d\<in>set (items (settle_items p v g)). 0 \<le> stretch d \<and> 0 \<le> smartSizeHint d \<and>
       (if settled d then extent d = smartSizeHint d \<or> smartSizeHint d < maximumSize d \<and> extent d = maximumSize d
        else smartSizeHint d < maximumSize d)"
    using assms(1,2) unfolding geom_ok_def settle_items_eq by (auto split: if_splits)
  moreover have "length (items (settle_items p v g)) \<le> 128" using b(3) by (simp add: settle_items_eq)
  ultimately show ?thesis using b settle_items_balance(1) [of g p v] settle_items_balance(2) [of p v g] unfolding geom_ok_def by simp
qed

lemma clamp_sums:
  "(\<Sum>d\<leftarrow>ds. extent d) + (\<Sum>d\<leftarrow>ds. lack d) - (\<Sum>d\<leftarrow>ds. excess d) =
   (\<Sum>d\<leftarrow>filter too_little ds. smartSizeHint d) +
   (\<Sum>d\<leftarrow>filter too_much (filter (\<lambda>d. \<not> too_little d) ds). maximumSize d) +
   (\<Sum>d\<leftarrow>filter (\<lambda>d. \<not> too_much d) (filter (\<lambda>d. \<not> too_little d) ds). extent d)"
  by (induction ds) (auto simp: lack_def excess_def too_little_def too_much_def)

lemma take_sums:
  "\<forall>d\<in>set ds. smartSizeHint d < maximumSize d \<Longrightarrow>
   (\<Sum>d\<leftarrow>filter (\<lambda>d. \<not> too_much d) ds. smartSizeHint d) + (\<Sum>d\<leftarrow>filter too_much ds. maximumSize d)
   \<le> (\<Sum>d\<leftarrow>ds. extent d) + (\<Sum>d\<leftarrow>ds. lack d) - (\<Sum>d\<leftarrow>ds. excess d)"
  by (induction ds) (auto simp: lack_def excess_def too_much_def)

text \<open>One round that is not the last keeps the invariant.\<close>

lemma round_ok:
  assumes "geom_ok space g" "open_items (items g) \<noteq> []" "extra_round g = (h, s, f)" "s \<noteq> f"
  shows "geom_ok space h"
proof -
  obtain r where r: "trial g (toFixed (space_left g)) 0 (items g) 0 0 = (r, s, f)"
    using assms(3) by (auto simp: extra_round_def Let_def split: prod.splits)
  note t = trial_ok [OF assms(1,2) r]
  have o: "(\<Sum>d\<leftarrow>open_items r. smartSizeHint d) \<le> space_left g"
    "\<forall>d\<in>set (open_items r). smartSizeHint d < maximumSize d"
    using t(1) unfolding geom_ok_def by auto
  show ?thesis
  proof (cases "s < f")
    case True
    have "geom_ok space (settle_items too_little smartSizeHint (g\<lparr>items := r\<rparr>))"
      by (rule settle_ok [OF t(1)])
        (use o(1) sum_filter_split [of smartSizeHint "open_items r" too_little] in simp_all)
    then show ?thesis using extra_round_cases(1) [OF r True] assms(3) by simp
  next
    case False
    with assms(4) have less: "f < s" by simp
    have "geom_ok space (settle_items too_much maximumSize (g\<lparr>items := r\<rparr>))"
      by (rule settle_ok [OF t(1)]) (use take_sums [OF o(2)] less t in simp_all)
    then show ?thesis using extra_round_cases(2) [OF r less] assms(3) by simp
  qed
qed

lemma exact_done:
  assumes "balanced h" "pixels h = space" "(\<Sum>d\<leftarrow>open_items (items h). extent d) = space_left h"
    "\<forall>d\<in>set (items h). if settled d
       then extent d = smartSizeHint d \<or> smartSizeHint d < maximumSize d \<and> extent d = maximumSize d
       else \<not> too_little d \<and> \<not> too_much d"
  shows "geom_done space h"
proof -
  have "(\<Sum>d\<leftarrow>items h. extent d) = space"
    using assms(2,3) sum_open_settled [of extent "items h"] by (simp add: pixels_def)
  moreover have z: "space_left h = 0" "\<forall>d\<in>set (items h). settled d" if "count_left h = 0"
  proof -
    have "open_items (items h) = []" using that assms(1) by (simp add: balanced_def)
    then show "space_left h = 0" "\<forall>d\<in>set (items h). settled d"
      using assms(3) by (simp_all add: filter_empty_conv)
  qed
  moreover have "extent d = smartSizeHint d \<or> smartSizeHint d \<le> extent d \<and> extent d \<le> maximumSize d \<and>
      (count_left h = 0 \<longrightarrow> extent d = maximumSize d)" if "d \<in> set (items h)" for d
    using bspec [OF assms(4) that] z that
    by (cases "settled d") (auto simp: too_little_def too_much_def)
  ultimately show ?thesis
    using assms(1) unfolding geom_done_def by simp
qed

lemma sums_zero:
  "d \<in> set ds \<Longrightarrow> (\<Sum>d\<leftarrow>ds. lack d) = 0 \<Longrightarrow> lack d = 0"
  "d \<in> set ds \<Longrightarrow> (\<Sum>d\<leftarrow>ds. excess d) = 0 \<Longrightarrow> excess d = 0"
proof (induction ds)
  case (Cons x xs)
  have "0 \<le> lack x" "0 \<le> excess x" by (simp_all add: lack_def excess_def)
  moreover note sums_nonneg [of xs]
  moreover case 1
  ultimately show ?case using Cons.IH by (auto simp: add_nonneg_eq_0_iff)
next
  case (Cons x xs)
  have "0 \<le> lack x" "0 \<le> excess x" by (simp_all add: lack_def excess_def)
  moreover note sums_nonneg [of xs]
  moreover case 2
  ultimately show ?case using Cons.IH by (auto simp: add_nonneg_eq_0_iff)
qed simp_all

lemma last_round_done:
  assumes "geom_ok space g" "open_items (items g) \<noteq> []" "extra_round g = (h, s, s)"
  shows "geom_done space h"
proof -
  obtain r where r: "trial g (toFixed (space_left g)) 0 (items g) 0 0 = (r, s, s)"
    using assms(3) by (auto simp: extra_round_def Let_def split: prod.splits)
  note t = trial_ok [OF assms(1,2) r]
  have ok: "balanced (g\<lparr>items := r\<rparr>)" "pixels (g\<lparr>items := r\<rparr>) = space"
    and item: "\<forall>d\<in>set r. if settled d
      then extent d = smartSizeHint d \<or> smartSizeHint d < maximumSize d \<and> extent d = maximumSize d
      else smartSizeHint d < maximumSize d"
    using t(1) unfolding geom_ok_def by auto
  show ?thesis
  proof (cases "s = 0")
    case True
    have "\<not> too_little d \<and> \<not> too_much d" if "d \<in> set r" "\<not> settled d" for d
      using sums_zero [of d "open_items r"] t(3,4) True bspec [OF item that(1)] that
      by (auto simp: lack_def excess_def too_little_def too_much_def split: if_splits)
    then have "geom_done space (g\<lparr>items := r\<rparr>)" using ok t(2) item by (intro exact_done) auto
    then show ?thesis using extra_round_cases(3) [OF r] assms(3) True by simp
  next
    case False
    define g1 where "g1 = settle_items too_little smartSizeHint (g\<lparr>items := r\<rparr>)"
    define g2 where "g2 = settle_items too_much maximumSize g1"
    have "balanced g2" "pixels g2 = space" using ok by (simp_all add: g1_def g2_def settle_items_balance)
    moreover have "(\<Sum>d\<leftarrow>open_items (items g2). extent d) = space_left g2"
      using clamp_sums [of "open_items r"] t(2-4)
      by (simp add: g1_def g2_def settle_items_balance open_settle del: filter_filter)
    moreover have "if settled d
       then extent d = smartSizeHint d \<or> smartSizeHint d < maximumSize d \<and> extent d = maximumSize d
       else \<not> too_little d \<and> \<not> too_much d" if "d \<in> set (items g2)" for d
      using that item unfolding g1_def g2_def settle_items_eq
      by (auto simp: too_little_def too_much_def split: if_splits)
    ultimately have "geom_done space g2" by (intro exact_done) auto
    then show ?thesis using extra_round_cases(3) [OF r] assms(3) False by (simp add: g1_def g2_def)
  qed
qed

theorem extra_loop_done: "geom_ok space g \<Longrightarrow> open_items (items g) \<noteq> [] \<Longrightarrow> geom_done space (extra_loop g)"
proof (induction g rule: extra_loop.induct)
  case (1 g)
  obtain h s f where h: "extra_round g = (h, s, f)" by (cases "extra_round g")
  show ?case
  proof (cases "s = f")
    case True
    then have "extra_loop g = h" using h by (subst extra_loop.simps) simp
    with last_round_done [OF "1.prems"] h True show ?thesis by simp
  next
    case False
    note ok = round_ok [OF "1.prems" h False]
    show ?thesis
    proof (cases "count_left h > 0")
      case True
      with ok have "open_items (items h) \<noteq> []" by (auto simp: geom_ok_def balanced_def)
      with "1.IH" [OF h [symmetric] refl] True False ok have "geom_done space (extra_loop h)" by simp
      moreover have "extra_loop g = extra_loop h" using h True False by (subst extra_loop.simps) simp
      ultimately show ?thesis by simp
    next
      case n: False
      with ok have "count_left h = 0" by (auto simp: geom_ok_def balanced_def)
      moreover have "extra_loop g = h" using h n by (subst extra_loop.simps) simp
      ultimately show ?thesis using all_settled_done [OF ok] by simp
    qed
  qed
qed

text \<open>
  Which items the extra space has passed by.  The items that satisfy \<open>P\<close> have been given their hint before the loop.  Of
  the others, either all that are settled have their maximum, or an item has been given its hint because
  it had too little, and then what is left can be taken by the open items.
\<close>

definition extra_inv :: "(QLayoutStruct \<Rightarrow> bool) \<Rightarrow> GeomState \<Rightarrow> bool" where
  "extra_inv P g \<longleftrightarrow> (\<forall>d\<in>set (items g). P d \<longrightarrow> settled d \<and> extent d = smartSizeHint d) \<and>
    ((\<forall>d\<in>set (items g). settled d \<longrightarrow> P d \<or> extent d = maximumSize d) \<or>
     space_left g \<le> (\<Sum>d\<leftarrow>open_items (items g). maximumSize d))"

lemma settle_max_inv:
  assumes "extra_inv P g" "\<And>d w b. P (d\<lparr>extent := w, settled := b\<rparr>) = P d"
  shows "extra_inv P (settle_items too_much maximumSize g)"
proof -
  have fixed: "\<forall>d\<in>set (items (settle_items too_much maximumSize g)). P d \<longrightarrow> settled d \<and> extent d = smartSizeHint d"
    using assms by (auto simp: extra_inv_def settle_items_eq)
  consider "\<forall>d\<in>set (items g). settled d \<longrightarrow> P d \<or> extent d = maximumSize d"
    | "space_left g \<le> (\<Sum>d\<leftarrow>open_items (items g). maximumSize d)"
    using assms(1) by (auto simp: extra_inv_def)
  then show ?thesis
  proof cases
    case 1
    then have "\<forall>d\<in>set (items (settle_items too_much maximumSize g)). settled d \<longrightarrow> P d \<or> extent d = maximumSize d"
      by (auto simp: settle_items_eq)
    with fixed show ?thesis by (simp add: extra_inv_def)
  next
    case 2
    then have "space_left (settle_items too_much maximumSize g) \<le>
        (\<Sum>d\<leftarrow>open_items (items (settle_items too_much maximumSize g)). maximumSize d)"
      using sum_filter_split [of maximumSize "open_items (items g)" too_much]
      by (simp add: settle_items_balance open_settle del: filter_filter)
    with fixed show ?thesis by (simp add: extra_inv_def)
  qed
qed

lemma clamp_max:
  "(\<Sum>d\<leftarrow>ds. extent d) - (\<Sum>d\<leftarrow>filter too_little ds. smartSizeHint d) \<le>
   (\<Sum>d\<leftarrow>filter (\<lambda>d. \<not> too_little d) ds. maximumSize d) + (\<Sum>d\<leftarrow>ds. excess d) - (\<Sum>d\<leftarrow>ds. lack d)"
  by (induction ds) (auto simp: lack_def excess_def too_little_def)

lemma settle_hint_inv:
  assumes "extra_inv P g" "\<And>d w b. P (d\<lparr>extent := w, settled := b\<rparr>) = P d"
    "(\<Sum>d\<leftarrow>open_items (items g). extent d) = space_left g"
    "(\<Sum>d\<leftarrow>open_items (items g). excess d) \<le> (\<Sum>d\<leftarrow>open_items (items g). lack d)"
  shows "extra_inv P (settle_items too_little smartSizeHint g)"
proof -
  have "\<forall>d\<in>set (items (settle_items too_little smartSizeHint g)). P d \<longrightarrow> settled d \<and> extent d = smartSizeHint d"
    using assms(1,2) by (auto simp: extra_inv_def settle_items_eq)
  moreover have "space_left (settle_items too_little smartSizeHint g) \<le>
      (\<Sum>d\<leftarrow>open_items (items (settle_items too_little smartSizeHint g)). maximumSize d)"
    using clamp_max [of "open_items (items g)"] assms(3,4)
    by (simp add: settle_items_balance open_settle del: filter_filter)
  ultimately show ?thesis by (simp add: extra_inv_def)
qed

lemma trial_inv:
  assumes "extra_inv P g" "\<And>d w. P (d\<lparr>extent := w\<rparr>) = P d"
    "trial g fp fp_w (items g) s f = (r, s', f')"
  shows "extra_inv P (g\<lparr>items := r\<rparr>)"
proof -
  have item: "\<exists>d\<in>set (items g). P x = P d \<and> settled x = settled d \<and> (settled x \<longrightarrow> x = d)" if "x \<in> set r" for x
  proof -
    from bspec [OF conjunct2 [OF trial_items [OF assms(3)]] that] obtain d where
      d: "d \<in> set (items g)" "x\<lparr>extent := 0\<rparr> = d\<lparr>extent := 0\<rparr>" "settled x \<longrightarrow> x = d"
      by (elim bexE conjE) 
    have "P x = P d" using arg_cong [OF d(2), of P] assms(2) by simp
    moreover have "settled x = settled d" using arg_cong [OF d(2), of settled] by simp
    ultimately show ?thesis using d(1,3) by blast
  qed
  have "(\<Sum>d\<leftarrow>open_items r. maximumSize d) = (\<Sum>d\<leftarrow>open_items (items g). maximumSize d)"
    using trial_map [OF assms(3), of maximumSize] by simp
  note total = this
  have kept: "settled x \<and> extent x = smartSizeHint x" if x: "x \<in> set r" "P x" for x
  proof -
    from item [OF x(1)] obtain d where d: "d \<in> set (items g)" "P x = P d" "settled x = settled d" "settled x \<longrightarrow> x = d" by blast
    have "settled d \<and> extent d = smartSizeHint d"
      using assms(1) d(1) x(2) unfolding d(2) extra_inv_def by blast
    moreover from this d(3,4) have "x = d" by blast
    ultimately show ?thesis by simp
  qed
  have grown: "P x \<or> extent x = maximumSize x"
    if "\<forall>d\<in>set (items g). settled d \<longrightarrow> P d \<or> extent d = maximumSize d" and x: "x \<in> set r" "settled x" for x
  proof -
    from item [OF x(1)] x(2) have "x \<in> set (items g)" by blast
    with that(1) x(2) show ?thesis by blast
  qed
  have "(\<forall>x\<in>set r. P x \<longrightarrow> settled x \<and> extent x = smartSizeHint x) \<and>
      ((\<forall>x\<in>set r. settled x \<longrightarrow> P x \<or> extent x = maximumSize x) \<or>
       space_left g \<le> (\<Sum>d\<leftarrow>open_items r. maximumSize d))"
  proof (intro conjI)
    show "\<forall>x\<in>set r. P x \<longrightarrow> settled x \<and> extent x = smartSizeHint x" using kept by blast
    from assms(1) have "(\<forall>d\<in>set (items g). settled d \<longrightarrow> P d \<or> extent d = maximumSize d) \<or>
        space_left g \<le> (\<Sum>d\<leftarrow>open_items (items g). maximumSize d)" unfolding extra_inv_def by blast
    then show "(\<forall>x\<in>set r. settled x \<longrightarrow> P x \<or> extent x = maximumSize x) \<or>
        space_left g \<le> (\<Sum>d\<leftarrow>open_items r. maximumSize d)"
      unfolding total by (elim disjE) (use grown in blast)+
  qed
  then show ?thesis by (simp add: extra_inv_def del: set_filter)
qed

lemma extra_round_inv:
  assumes "geom_ok space g" "open_items (items g) \<noteq> []" "extra_round g = (h, s, f)" "extra_inv P g"
    "\<And>d w b. P (d\<lparr>extent := w, settled := b\<rparr>) = P d" "\<And>d w. P (d\<lparr>extent := w\<rparr>) = P d"
  shows "extra_inv P h"
proof -
  obtain r where r: "trial g (toFixed (space_left g)) 0 (items g) 0 0 = (r, s, f)"
    using assms(3) by (auto simp: extra_round_def Let_def split: prod.splits)
  note t = trial_ok [OF assms(1,2) r]
  note i = trial_inv [OF assms(4,6) r]
  have hint: "extra_inv P (settle_items too_little smartSizeHint (g\<lparr>items := r\<rparr>))" if "s \<le> f"
    by (rule settle_hint_inv [OF i assms(5)]) (use t that in simp_all)
  consider "s < f" | "f < s" | "s = f" by linarith
  then show ?thesis
  proof cases
    case 1
    then show ?thesis using extra_round_cases(1) [OF r] assms(3) hint by simp
  next
    case 2
    then show ?thesis using extra_round_cases(2) [OF r] assms(3) settle_max_inv [OF i assms(5)] by simp
  next
    case 3
    then show ?thesis using extra_round_cases(3) [OF r] assms(3) i settle_max_inv [OF hint assms(5)]
      by (auto split: if_splits)
  qed
qed

lemma extra_loop_inv:
  assumes "\<And>d w b. P (d\<lparr>extent := w, settled := b\<rparr>) = P d" "\<And>d w. P (d\<lparr>extent := w\<rparr>) = P d"
  shows "geom_ok space g \<Longrightarrow> open_items (items g) \<noteq> [] \<Longrightarrow> extra_inv P g \<Longrightarrow> extra_inv P (extra_loop g)"
proof (induction g rule: extra_loop.induct)
  case (1 g)
  obtain h s f where h: "extra_round g = (h, s, f)" by (cases "extra_round g")
  note inv = extra_round_inv [OF "1.prems"(1,2) h "1.prems"(3) assms]
  show ?case
  proof (cases "count_left h > 0 \<and> s \<noteq> f")
    case True
    then have ok: "geom_ok space h" using round_ok [OF "1.prems"(1,2) h] by simp
    with True have "open_items (items h) \<noteq> []" by (auto simp: geom_ok_def balanced_def)
    with "1.IH" [OF h [symmetric] refl] True ok inv have "extra_inv P (extra_loop h)" by simp
    moreover have "extra_loop g = extra_loop h" using h True by (subst extra_loop.simps) simp
    ultimately show ?thesis by simp
  next
    case False
    then have "extra_loop g = h" using h by (subst extra_loop.simps) auto
    with inv show ?thesis by simp
  qed
qed

lemma add_item_totals:
  "cHint (add_item spacer d t) = cHint t + smartSizeHint d" "cMin (add_item spacer d t) = cMin t + minimumSize d"
  "sumStretch (add_item spacer d t) = sumStretch t + stretch d"
  "expandingCount (add_item spacer d t) = expandingCount t + (if expansive d then 1 else 0)"
  by (simp_all add: add_item_def Let_def)

lemma fold_totals:
  "cHint (fold (add_item spacer) ds t) = cHint t + (\<Sum>d\<leftarrow>ds. smartSizeHint d) \<and>
   cMin (fold (add_item spacer) ds t) = cMin t + (\<Sum>d\<leftarrow>ds. minimumSize d) \<and>
   sumStretch (fold (add_item spacer) ds t) = sumStretch t + (\<Sum>d\<leftarrow>ds. stretch d) \<and>
   expandingCount (fold (add_item spacer) ds t) = expandingCount t + (\<Sum>d\<leftarrow>ds. if expansive d then 1 else 0)"
  by (induction ds arbitrary: t) (simp_all add: add_item_totals)

lemma chain_totals_sums:
  "cHint (chain_totals spacer ds) = (\<Sum>d\<leftarrow>ds. smartSizeHint d)"
  "cMin (chain_totals spacer ds) = (\<Sum>d\<leftarrow>ds. minimumSize d)"
  "sumStretch (chain_totals spacer ds) = (\<Sum>d\<leftarrow>ds. stretch d)"
  "expandingCount (chain_totals spacer ds) = (\<Sum>d\<leftarrow>ds. if expansive d then 1 else 0)"
  using fold_totals [of spacer ds no_totals] by (simp_all add: chain_totals_def no_totals_def)

lemma trial_settled: "open_items ds = [] \<Longrightarrow> trial g fp fp_w ds s f = (ds, s, f)"
  by (induction ds) (auto split: if_splits)

lemma above_hint_sizes:
  assumes "t = chain_totals spacer chain" "length chain \<le> 128"
    "\<forall>d\<in>set chain. \<not> settled d \<and> 0 \<le> stretch d \<and> 0 \<le> smartSizeHint d"
    "cHint t + sumSpacing t \<le> space" "above_hint t chain space = (ds, extraspace)"
  shows "(\<Sum>d\<leftarrow>ds. extent d) + sumSpacing t + extraspace = space" "0 \<le> extraspace"
    "\<forall>d\<in>set ds. if first_settled t d then extent d = smartSizeHint d
      else smartSizeHint d \<le> extent d \<and> extent d \<le> maximumSize d \<and> (0 < extraspace \<longrightarrow> extent d = maximumSize d)"
proof -
  define g0 where "g0 = \<lparr>items = chain, count_left = int (length chain), space_left = space - sumSpacing t,
    stretch_left = sumStretch t, expanding_left = expandingCount t\<rparr>"
  define g where "g = settle_items (first_settled t) smartSizeHint g0"
  have open0: "open_items chain = chain" "filter settled chain = []"
    using assms(3) by (auto simp: filter_empty_conv)
  then have b: "balanced g0" "pixels g0 = space - sumSpacing t"
    by (simp_all add: g0_def balanced_def pixels_def assms(1) chain_totals_sums)
  have "(\<Sum>d\<leftarrow>open_items (items g). smartSizeHint d) \<le> space_left g"
    using assms(1,4) sum_filter_split [of smartSizeHint chain "first_settled t"]
    by (simp add: g_def open_settle settle_items_balance g0_def open0 chain_totals_sums del: filter_filter)
  moreover have "length (items g) \<le> 128" using assms(2) by (simp add: g_def settle_items_eq g0_def)
  moreover have "\<forall>d\<in>set (items g). 0 \<le> stretch d \<and> 0 \<le> smartSizeHint d \<and>
       (if settled d then extent d = smartSizeHint d \<or> smartSizeHint d < maximumSize d \<and> extent d = maximumSize d
        else smartSizeHint d < maximumSize d)"
    using assms(3) by (auto simp: g_def settle_items_eq g0_def first_settled_def)
  ultimately have ok: "geom_ok (space - sumSpacing t) g"
    using b settle_items_balance(1) [of g0 "first_settled t" smartSizeHint]
      settle_items_balance(2) [of "first_settled t" smartSizeHint g0]
    unfolding geom_ok_def g_def by simp
  have res: "ds = items (extra_loop g)" "extraspace = (if count_left (extra_loop g) = 0 then space_left (extra_loop g)
      else if open_items (items g) = [] then space_left g else 0)"
    using assms(5) by (auto simp: above_hint_def g0_def [symmetric] g_def [symmetric] Let_def)
  have fin: "geom_done (space - sumSpacing t) (extra_loop g) \<and>
      (open_items (items g) = [] \<longrightarrow> count_left (extra_loop g) = 0)"
  proof (cases "open_items (items g) = []")
    case True
    have c: "count_left g = 0" using ok True by (simp add: geom_ok_def balanced_def)
    have "extra_loop g = g" by (subst extra_loop.simps) (simp add: extra_round_def trial_settled [OF True])
    then show ?thesis using all_settled_done [OF ok c] c by simp
  next
    case False
    then show ?thesis using extra_loop_done [OF ok] by simp
  qed
  then show "(\<Sum>d\<leftarrow>ds. extent d) + sumSpacing t + extraspace = space" "0 \<le> extraspace"
    unfolding res geom_done_def by (auto split: if_splits)
  have same: "first_settled t (d\<lparr>extent := w, settled := b\<rparr>) = first_settled t d" "first_settled t (d\<lparr>extent := w\<rparr>) = first_settled t d"
    for d w b by (simp_all add: first_settled_def)
  have "extra_inv (first_settled t) g"
    using assms(3) same by (auto simp: extra_inv_def g_def settle_items_eq g0_def)
  then have inv: "extra_inv (first_settled t) (extra_loop g)"
    using extra_loop_inv [OF same ok] by (cases "open_items (items g) = []")
      (auto simp: extra_loop.simps [of g] extra_round_def trial_settled)
  have full: "extent d = maximumSize d" if "d \<in> set ds" "\<not> first_settled t d" "0 < extraspace" for d
  proof -
    have left: "count_left (extra_loop g) = 0" "0 < space_left (extra_loop g)"
      using that(3) fin unfolding res by (auto split: if_splits)
    have "balanced (extra_loop g)" using fin by (simp add: geom_done_def)
    then have all: "open_items (items (extra_loop g)) = []" using left(1) by (simp add: balanced_def)
    then have "settled d" using that(1) unfolding res by (auto simp: filter_empty_conv)
    moreover have "\<not> space_left (extra_loop g) \<le> (\<Sum>d\<leftarrow>open_items (items (extra_loop g)). maximumSize d)"
      using left(2) unfolding all by simp
    ultimately show ?thesis using inv that(1,2) unfolding extra_inv_def res by blast
  qed
  have "extent d = smartSizeHint d \<or> smartSizeHint d \<le> extent d \<and> extent d \<le> maximumSize d" if "d \<in> set ds" for d
    using fin that unfolding res geom_done_def by blast
  moreover have "first_settled t d \<Longrightarrow> extent d = smartSizeHint d" if "d \<in> set ds" for d
    using inv that unfolding extra_inv_def res by blast
  moreover have "\<not> first_settled t d \<Longrightarrow> smartSizeHint d < maximumSize d" for d by (auto simp: first_settled_def)
  ultimately show "\<forall>d\<in>set ds. if first_settled t d then extent d = smartSizeHint d
      else smartSizeHint d \<le> extent d \<and> extent d \<le> maximumSize d \<and> (0 < extraspace \<longrightarrow> extent d = maximumSize d)"
    using full by (metis order_refl less_imp_le)
qed

section \<open>Less than the hints\<close>

definition between :: "QLayoutStruct \<Rightarrow> bool" where
  "between d \<longleftrightarrow> (if smartSizeHint d \<le> minimumSize d then extent d = smartSizeHint d
    else minimumSize d \<le> extent d \<and> extent d \<le> smartSizeHint d)"

definition overdraft_ok :: "int \<Rightarrow> QLayoutStruct list \<Rightarrow> int \<Rightarrow> int \<Rightarrow> bool" where
  "overdraft_ok space ds overdraft n \<longleftrightarrow> n = int (length (open_items ds)) \<and> n \<le> 128 \<and> 0 \<le> overdraft \<and>
    overdraft \<le> (\<Sum>d\<leftarrow>open_items ds. smartSizeHint d - minimumSize d) \<and>
    (\<Sum>d\<leftarrow>filter settled ds. extent d) + (\<Sum>d\<leftarrow>open_items ds. smartSizeHint d) - overdraft = space \<and>
    (\<forall>d\<in>set ds. if settled d then between d else minimumSize d < smartSizeHint d)"

lemma overdraft_clamp:
  assumes "overdraft_pass fp n fp_w ds = (r, Some k)" "-128 \<le> fp_w" "fp_w < 128" "0 \<le> fp sdiv n"
    "\<forall>d\<in>set ds. if settled d then between d else minimumSize d < smartSizeHint d"
  shows "length (open_items ds) = Suc (length (open_items r)) \<and> 256 * (k + 1) \<le> 255 + fp sdiv n \<and>
    (\<Sum>d\<leftarrow>open_items ds. smartSizeHint d - minimumSize d) =
      k + (\<Sum>d\<leftarrow>open_items r. smartSizeHint d - minimumSize d) \<and>
    (\<Sum>d\<leftarrow>filter settled r. extent d) + (\<Sum>d\<leftarrow>open_items r. smartSizeHint d) =
      (\<Sum>d\<leftarrow>filter settled ds. extent d) + (\<Sum>d\<leftarrow>open_items ds. smartSizeHint d) - k \<and>
    (\<forall>d\<in>set r. if settled d then between d else minimumSize d < smartSizeHint d)"
  using assms
proof (induction ds arbitrary: fp_w r)
  case (Cons d ds)
  have rest: "\<forall>d\<in>set ds. if settled d then between d else minimumSize d < smartSizeHint d"
    using Cons.prems(5) by simp
  show ?case
  proof (cases "settled d")
    case True
    then obtain q where q: "overdraft_pass fp n fp_w ds = (q, Some k)" "r = d # q"
      using Cons.prems(1) by (auto split: prod.splits)
    from Cons.IH [OF q(1) Cons.prems(2-4) rest] show ?thesis using True q(2) Cons.prems(5) by simp
  next
    case False
    define w where "w = fRound (fp_w + fp sdiv n)"
    have "-128 \<le> fp_w + fp sdiv n" using Cons.prems(2,4) by simp
    note c = fRound_carry [OF this, folded w_def]
    have d: "minimumSize d < smartSizeHint d" using Cons.prems(5) False by simp
    show ?thesis
    proof (cases "smartSizeHint d - w < minimumSize d")
      case True
      then have r: "r = d\<lparr>settled := True, extent := minimumSize d\<rparr> # ds" "k = smartSizeHint d - minimumSize d"
        using Cons.prems(1) False by (auto simp: Let_def w_def [symmetric])
      have "256 * (k + 1) \<le> 256 * w" using True r(2) by simp
      also have "\<dots> \<le> 255 + fp sdiv n" using c(2) Cons.prems(3) by (simp add: toFixed_def)
      finally show ?thesis using False d rest by (simp add: r between_def)
    next
      case f: False
      then obtain q where q: "overdraft_pass fp n (fp_w + fp sdiv n - toFixed w) ds = (q, Some k)"
        "r = d\<lparr>extent := smartSizeHint d - w\<rparr> # q"
        using Cons.prems(1) False by (auto simp: Let_def w_def [symmetric] split: prod.splits)
      from Cons.IH [OF q(1) c(2,3) Cons.prems(4) rest] show ?thesis using False q(2) d by simp
    qed
  qed
qed simp

lemma overdraft_same:
  "overdraft_pass fp n fp_w ds = (r, None) \<Longrightarrow>
   map (\<lambda>d. d\<lparr>extent := 0\<rparr>) (open_items r) = map (\<lambda>d. d\<lparr>extent := 0\<rparr>) (open_items ds) \<and>
   filter settled r = filter settled ds"
proof (induction ds arbitrary: fp_w r)
  case (Cons d ds)
  then show ?case by (cases "settled d") (auto simp: Let_def split: prod.splits if_splits)
qed simp

lemma overdraft_last:
  assumes "overdraft_ok space ds overdraft n" "overdraft_pass (toFixed overdraft) n 0 ds = (r, None)"
  shows "(\<Sum>d\<leftarrow>r. extent d) = space \<and> (\<forall>d\<in>set r. between d)"
proof -
  have n: "n = int (length (open_items ds))" "n \<le> 128" "0 \<le> overdraft"
    using assms(1) unfolding overdraft_ok_def by simp_all
  have fp: "0 \<le> toFixed overdraft sdiv n"
    using n by (cases "n = 0") (simp_all add: toFixed_def cdiv_simps pos_imp_zdiv_nonneg_iff)
  obtain e where e: "256 * (\<Sum>d\<leftarrow>open_items r. smartSizeHint d - extent d) = n * (toFixed overdraft sdiv n) - e"
      "-128 \<le> e" "e < 128" "\<forall>d\<in>set (open_items r). minimumSize d \<le> extent d \<and> extent d \<le> smartSizeHint d"
    using overdraft_carry [OF assms(2) _ _ fp] n(1) by auto
  have same: "map (\<lambda>d. d\<lparr>extent := 0\<rparr>) (open_items r) = map (\<lambda>d. d\<lparr>extent := 0\<rparr>) (open_items ds)"
    "filter settled r = filter settled ds" using overdraft_same [OF assms(2)] by auto
  have "map smartSizeHint xs = map smartSizeHint (map (\<lambda>d. d\<lparr>extent := 0\<rparr>) xs)"
    "map minimumSize xs = map minimumSize (map (\<lambda>d. d\<lparr>extent := 0\<rparr>) xs)" for xs by simp_all
  with same(1) have maps: "map smartSizeHint (open_items r) = map smartSizeHint (open_items ds)"
    by metis
  have len: "length (open_items r) = length (open_items ds)" using arg_cong [OF same(1), of length] by simp
  have "(\<Sum>d\<leftarrow>open_items r. smartSizeHint d - extent d) = overdraft"
  proof (cases "n = 0")
    case True
    then have "open_items ds = []" "open_items r = []" using n len by auto
    then show ?thesis using assms(1) unfolding overdraft_ok_def by simp
  next
    case False
    with n have pos: "0 < n" by simp
    have q: "toFixed overdraft sdiv n = toFixed overdraft div n" using n pos by (simp add: cdiv_simps toFixed_def)
    have "n * (toFixed overdraft div n) = toFixed overdraft - toFixed overdraft mod n"
      by (simp add: minus_mod_eq_mult_div)
    then have "256 * (\<Sum>d\<leftarrow>open_items r. smartSizeHint d - extent d) =
        256 * overdraft - toFixed overdraft mod n - e"
      using e(1) unfolding q by (simp add: toFixed_def)
    from this _ _ e(2,3) show ?thesis
    proof (rule exact_pixels)
      show "0 \<le> toFixed overdraft mod n" using pos by simp
      have "toFixed overdraft mod n < n" using pos by simp
      with n(2) show "toFixed overdraft mod n \<le> 127" by linarith
    qed
  qed
  then have "(\<Sum>d\<leftarrow>open_items r. extent d) = (\<Sum>d\<leftarrow>open_items ds. smartSizeHint d) - overdraft"
    using arg_cong [OF maps, of sum_list] by (simp add: sum_list_subtractf)
  then have "(\<Sum>d\<leftarrow>r. extent d) = space"
    using assms(1) same(2) sum_open_settled [of extent r] unfolding overdraft_ok_def by simp
  moreover have "between d" if "d \<in> set r" for d
  proof (cases "settled d")
    case True
    with that have "d \<in> set (filter settled r)" by simp
    then have "d \<in> set ds" unfolding same(2) by simp
    with True assms(1) show ?thesis by (auto simp: overdraft_ok_def)
  next
    case False
    with that have d: "d \<in> set (open_items r)" by simp
    then have "d\<lparr>extent := 0\<rparr> \<in> set (map (\<lambda>d. d\<lparr>extent := 0\<rparr>) (open_items ds))"
      unfolding same(1) [symmetric] by (simp del: set_filter)
    then obtain x where x: "x \<in> set ds" "\<not> settled x" "d\<lparr>extent := 0\<rparr> = x\<lparr>extent := 0\<rparr>" by auto
    have "smartSizeHint d = smartSizeHint x" "minimumSize d = minimumSize x"
      using arg_cong [OF x(3), of smartSizeHint] arg_cong [OF x(3), of minimumSize] by simp_all
    moreover have "minimumSize x < smartSizeHint x" using x(1,2) assms(1) by (auto simp: overdraft_ok_def)
    ultimately show ?thesis using bspec [OF e(4) d] by (simp add: between_def)
  qed
  ultimately show ?thesis by blast
qed

lemma overdraft_loop_sizes:
  "overdraft_ok space ds overdraft n \<Longrightarrow>
   (\<Sum>d\<leftarrow>overdraft_loop ds overdraft n. extent d) = space \<and> (\<forall>d\<in>set (overdraft_loop ds overdraft n). between d)"
proof (induction ds overdraft n rule: overdraft_loop.induct)
  case (1 ds overdraft n)
  obtain r c where r: "overdraft_pass (toFixed overdraft) n 0 ds = (r, c)" by fastforce
  show ?case
  proof (cases c)
    case None
    then have "overdraft_loop ds overdraft n = r" using r by (subst overdraft_loop.simps) simp
    with overdraft_last [OF "1.prems" r [unfolded None]] show ?thesis by simp
  next
    case (Some k)
    have n: "n = int (length (open_items ds))" "n \<le> 128" "0 \<le> overdraft"
      and items: "\<forall>d\<in>set ds. if settled d then between d else minimumSize d < smartSizeHint d"
      using "1.prems" unfolding overdraft_ok_def by simp_all
    have fp: "0 \<le> toFixed overdraft sdiv n" "toFixed overdraft sdiv n \<le> 256 * overdraft"
    proof -
      have "toFixed overdraft div n \<le> toFixed overdraft" if "n \<noteq> 0"
      proof -
        have "1 \<le> n" using n(1) that by linarith
        with n(3) zdiv_mono2 [of "toFixed overdraft" 1 n] show ?thesis by (simp add: toFixed_def)
      qed
      with n show "0 \<le> toFixed overdraft sdiv n" "toFixed overdraft sdiv n \<le> 256 * overdraft"
        by (cases "n = 0"; simp add: toFixed_def cdiv_simps pos_imp_zdiv_nonneg_iff)+
    qed
    note c = overdraft_clamp [OF r [unfolded Some] _ _ fp(1) items]
    then have "overdraft_ok space r (overdraft - k) (n - 1)"
      using "1.prems" fp(2) unfolding overdraft_ok_def by auto
    moreover have "overdraft_loop ds overdraft n = overdraft_loop r (overdraft - k) (n - 1)"
      using r Some by (subst overdraft_loop.simps) simp
    ultimately show ?thesis using "1.IH" [OF r [symmetric] Some] by simp
  qed
qed

lemma below_hint_sizes:
  assumes "t = chain_totals spacer chain" "length chain \<le> 128" "\<forall>d\<in>set chain. \<not> settled d"
    "cMin t + sumSpacing t \<le> space" "space < cHint t + sumSpacing t"
  shows "(\<Sum>d\<leftarrow>below_hint t chain space. extent d) + sumSpacing t = space"
    "\<forall>d\<in>set (below_hint t chain space). between d"
proof -
  define ds where "ds = map settle_minimum chain"
  define overdraft where "overdraft = cHint t - (space - sumSpacing t)"
  define n where "n = int (length (open_items ds))"
  have "(\<Sum>d\<leftarrow>filter settled (map settle_minimum xs). extent d) + (\<Sum>d\<leftarrow>open_items (map settle_minimum xs). smartSizeHint d) =
      (\<Sum>d\<leftarrow>xs. smartSizeHint d) \<and>
    (\<Sum>d\<leftarrow>xs. smartSizeHint d - minimumSize d) \<le> (\<Sum>d\<leftarrow>open_items (map settle_minimum xs). smartSizeHint d - minimumSize d)"
    if "\<forall>d\<in>set xs. \<not> settled d" for xs
    using that by (induction xs) (auto simp: settle_minimum_def)
  from this [OF assms(3)] have sums: "(\<Sum>d\<leftarrow>filter settled ds. extent d) + (\<Sum>d\<leftarrow>open_items ds. smartSizeHint d) = cHint t"
    "cHint t - cMin t \<le> (\<Sum>d\<leftarrow>open_items ds. smartSizeHint d - minimumSize d)"
    by (simp_all add: ds_def assms(1) chain_totals_sums sum_list_subtractf)
  have "length (open_items ds) \<le> 128"
    by (rule order_trans [OF length_filter_le]) (use assms(2) in \<open>simp add: ds_def\<close>)
  moreover have "if settled d then between d else minimumSize d < smartSizeHint d" if "d \<in> set ds" for d
    using that assms(3) by (auto simp: ds_def settle_minimum_def between_def split: if_splits)
  ultimately have ok: "overdraft_ok (space - sumSpacing t) ds overdraft n"
    using assms(4,5) sums unfolding overdraft_ok_def n_def overdraft_def by auto
  have "n \<noteq> 0"
  proof
    assume "n = 0"
    then have "open_items ds = []" by (simp add: n_def)
    with sums(2) assms(4,5) show False by simp
  qed
  then have "below_hint t chain space = overdraft_loop ds overdraft n"
    unfolding below_hint_def Let_def ds_def [symmetric] overdraft_def [symmetric] n_def [symmetric] by simp
  with overdraft_loop_sizes [OF ok] show "(\<Sum>d\<leftarrow>below_hint t chain space. extent d) + sumSpacing t = space"
    "\<forall>d\<in>set (below_hint t chain space). between d" by auto
qed

section \<open>Less than the minimum sizes\<close>

text \<open>The level found: the items below it fit in whole, giving \<open>current\<close> to the others is enough.\<close>

lemma find_level_spec:
  assumes "find_level cnt space (drop k ms) (int k) (sum_list (take k ms)) used current = (idx, used', current')"
    "cnt = int (length ms)" "k \<le> length ms"
    "0 < k \<Longrightarrow> current = ms ! (k - 1) \<and> used = sum_list (take (k - 1) ms) + current * (cnt - int (k - 1)) \<and>
      (1 < k \<longrightarrow> sum_list (take (k - 2) ms) + ms ! (k - 2) * (cnt - int (k - 2)) < space)"
    "k = 0 \<Longrightarrow> used < space \<and> ms \<noteq> []"
  shows "\<exists>i. idx = int (Suc i) \<and> i < length ms \<and> current' = ms ! i \<and>
    used' = sum_list (take i ms) + current' * (cnt - int i) \<and>
    (0 < i \<longrightarrow> sum_list (take (i - 1) ms) + ms ! (i - 1) * (cnt - int (i - 1)) < space) \<and>
    (space \<le> used' \<or> Suc i = length ms)"
  using assms
proof (induction "length ms - k" arbitrary: k used current)
  case 0
  then have "k = length ms" by simp
  with 0 show ?case by (intro exI [of _ "k - 1"]) (cases k; auto simp: numeral_2_eq_2)
next
  case (Suc n)
  then have k: "k < length ms" by simp
  then have d: "drop k ms = ms ! k # drop (Suc k) ms" by (simp add: Cons_nth_drop_Suc)
  show ?case
  proof (cases "used < space")
    case True
    have s: "sum_list (take (Suc k) ms) = sum_list (take k ms) + ms ! k"
      using k by (simp add: take_Suc_conv_app_nth)
    have "find_level cnt space (drop (Suc k) ms) (int (Suc k)) (sum_list (take (Suc k) ms))
        (sum_list (take k ms) + ms ! k * (cnt - int k)) (ms ! k) = (idx, used', current')"
      using Suc.prems(1) True unfolding d s by (simp add: add.commute)
    from Suc.hyps(1) [OF _ this Suc.prems(2)] k True Suc.hyps(2) Suc.prems(4) show ?thesis
      by (cases k) (auto simp: numeral_2_eq_2)
  next
    case False
    then obtain j where j: "k = Suc j" using Suc.prems(5) by (cases k) auto
    from Suc.prems(1) False have "idx = int k" "used' = used" "current' = current" unfolding d by simp_all
    with False Suc.prems(4) k show ?thesis unfolding j
      by (intro exI [of _ j]) (auto simp: numeral_2_eq_2)
  qed
qed

lemma truncate_items_sizes:
  "(\<Sum>d\<leftarrow>ds. min (minimumSize d) (maxval - 1)) \<le> (\<Sum>d\<leftarrow>truncate_items maxval remainder m rest ds. extent d) \<and>
   (\<Sum>d\<leftarrow>truncate_items maxval remainder m rest ds. extent d) \<le> (\<Sum>d\<leftarrow>ds. min (minimumSize d) maxval) \<and>
   (\<forall>d\<in>set (truncate_items maxval remainder m rest ds).
      extent d = min (minimumSize d) maxval \<or> extent d = min (minimumSize d) (maxval - 1))"
proof (induction ds arbitrary: rest)
  case (Cons d ds)
  define b where "b \<longleftrightarrow> rest + remainder \<ge> m"
  have e: "truncate_items maxval remainder m rest (d # ds) =
      d\<lparr>extent := min (minimumSize d) (if b then maxval - 1 else maxval), settled := True\<rparr>
      # truncate_items maxval remainder m (if b then rest + remainder - m else rest + remainder) ds"
    by (simp add: b_def)
  have "min (minimumSize d) (maxval - 1) \<le> min (minimumSize d) maxval" by simp
  then show ?case
    using Cons.IH [of "if b then rest + remainder - m else rest + remainder"] unfolding e by (cases b) auto
qed simp

lemma truncate_items_exact:
  "0 \<le> rest \<Longrightarrow> rest < m \<Longrightarrow>
   (\<Sum>d\<leftarrow>truncate_items maxval 0 m rest ds. extent d) = (\<Sum>d\<leftarrow>ds. min (minimumSize d) maxval)"
  by (induction ds) auto

lemma sum_sorted: "(\<Sum>x\<leftarrow>sort xs. f x) = (\<Sum>x\<leftarrow>xs. f x :: int)"
  by (metis mset_map mset_sort sum_mset_sum_list)

lemma sum_cut:
  fixes m :: int
  assumes "\<forall>x\<in>set (take i xs). x \<le> m" "\<forall>x\<in>set (drop i xs). m \<le> x" "i \<le> length xs"
  shows "(\<Sum>x\<leftarrow>xs. min x m) = sum_list (take i xs) + m * (int (length xs) - int i)"
proof -
  have "(\<Sum>x\<leftarrow>xs. min x m) = (\<Sum>x\<leftarrow>take i xs. min x m) + (\<Sum>x\<leftarrow>drop i xs. min x m)"
    by (metis append_take_drop_id map_append sum_list_append)
  also have "(\<Sum>x\<leftarrow>take i xs. min x m) = sum_list (take i xs)"
    by (rule arg_cong [where f = sum_list], rule map_idI) (use assms(1) in auto)
  also have "map (\<lambda>x. min x m) (drop i xs) = map (\<lambda>x. m) (drop i xs)"
    by (rule map_cong) (use assms(2) in auto)
  also have "sum_list (map (\<lambda>x. m) (drop i xs)) = m * (int (length xs) - int i)"
    using assms(3) by (simp add: sum_list_triv mult.commute)
  finally show ?thesis .
qed

theorem below_minimum_sizes:
  assumes "0 < space" "space \<le> (\<Sum>d\<leftarrow>chain. minimumSize d)"
  shows "\<exists>level. \<forall>d\<in>set (below_minimum chain space).
      extent d = min (minimumSize d) level \<or> extent d = min (minimumSize d) (level - 1)"
    "\<bar>(\<Sum>d\<leftarrow>below_minimum chain space. extent d) - space\<bar> < int (length chain)"
proof -
  define ms where "ms = sort (map minimumSize chain)"
  define n where "n = int (length chain)"
  have ms: "length ms = length chain" "sum_list ms = (\<Sum>d\<leftarrow>chain. minimumSize d)" "sorted ms"
    "(\<Sum>x\<leftarrow>ms. min x m) = (\<Sum>d\<leftarrow>chain. min (minimumSize d) m)" for m
    using sum_sorted [of "\<lambda>x. x" "map minimumSize chain"] sum_sorted [of "\<lambda>x. min x m" "map minimumSize chain"]
    by (simp_all add: ms_def o_def)
  obtain idx used current where f: "find_level n space ms 0 0 0 0 = (idx, used, current)"
    by (cases "find_level n space ms 0 0 0 0") auto
  have "ms \<noteq> []" using assms ms(2) by auto
  then obtain i where i: "idx = int (Suc i)" "i < length ms" "current = ms ! i"
    "used = sum_list (take i ms) + current * (n - int i)"
    "0 < i \<Longrightarrow> sum_list (take (i - 1) ms) + ms ! (i - 1) * (n - int (i - 1)) < space"
    "space \<le> used \<or> Suc i = length ms"
    using find_level_spec [of n space 0 ms 0 0 idx used current] f assms(1) ms(1) by (auto simp: n_def)
  define k where "k = n - int i"
  define q r where "q = (used - space) div k" "r = (used - space) mod k"
  have k: "0 < k" "k \<le> n" using i(2) ms(1) by (auto simp: k_def n_def)
  have "space \<le> used"
  proof (cases "Suc i = length ms")
    case True
    then have "k = 1" using ms(1) by (simp add: k_def n_def)
    moreover have "sum_list (take (Suc i) ms) = sum_list (take i ms) + current"
      using i(2,3) by (simp add: take_Suc_conv_app_nth)
    ultimately show ?thesis using True using i(4) assms(2) ms(2) by (simp add: k_def)
  qed (use i(6) in simp)
  then have q: "0 \<le> q" "0 \<le> r" "r < k" "used - space = k * q + r" using k by (simp_all add: q_r_def pos_imp_zdiv_nonneg_iff)
  have trunc: "below_minimum chain space = truncate_items (current - q) r k 0 chain"
    using f k i(1) \<open>space \<le> used\<close>
    by (simp add: below_minimum_def Let_def ms_def [symmetric] n_def [symmetric] cdiv_simps k_def q_r_def)
  show "\<exists>level. \<forall>d\<in>set (below_minimum chain space).
      extent d = min (minimumSize d) level \<or> extent d = min (minimumSize d) (level - 1)"
    unfolding trunc using truncate_items_sizes [where ds = chain and maxval = "current - q" and remainder = r and m = k and rest = 0] by blast
  have low: "x \<le> current - q - 1" if x: "x \<in> set (take i ms)" for x
  proof -
    from x obtain j where j: "j < i" "x = ms ! j" using i(2) by (auto simp: in_set_conv_nth)
    then obtain h where h: "i = Suc h" by (cases i) auto
    have "x \<le> ms ! h" using j h i(2) ms(3) by (auto intro: sorted_nth_mono)
    have "sum_list (take i ms) = sum_list (take h ms) + ms ! h"
      using i(2) h by (simp add: take_Suc_conv_app_nth)
    moreover have "sum_list (take h ms) + ms ! h * (k + 1) < space" using i(5) h by (simp add: k_def)
    ultimately have "ms ! h * k < (current - q) * k"
      using q(2,4) i(4) by (simp add: k_def [symmetric] algebra_simps)
    then have "ms ! h < current - q" using k(1) by (simp add: mult_less_cancel_right)
    with \<open>x \<le> ms ! h\<close> show ?thesis by simp
  qed
  have high: "current \<le> x" if "x \<in> set (drop i ms)" for x
    using that i(2,3) ms(3) by (auto simp: in_set_conv_nth intro: sorted_nth_mono)
  have cut: "(\<Sum>d\<leftarrow>chain. min (minimumSize d) m) = sum_list (take i ms) + m * k"
    if "current - q - 1 \<le> m" "m \<le> current - q" for m
    unfolding ms(4) [symmetric] k_def n_def ms(1) [symmetric]
    by (rule sum_cut) (use low high that q(1) i(2) in force)+
  have full: "(\<Sum>d\<leftarrow>chain. min (minimumSize d) (current - q)) = space + r"
    "(\<Sum>d\<leftarrow>chain. min (minimumSize d) (current - q - 1)) = space + r - k"
    using cut [of "current - q"] cut [of "current - q - 1"] q(4) i(4) by (simp_all add: k_def [symmetric] algebra_simps)
  show "\<bar>(\<Sum>d\<leftarrow>below_minimum chain space. extent d) - space\<bar> < int (length chain)"
  proof (cases "r = 0")
    case True
    then show ?thesis using truncate_items_exact [where ds = chain and maxval = "current - q" and m = k and rest = 0] full k
      by (auto simp: trunc n_def)
  next
    case False
    then show ?thesis using truncate_items_sizes [where ds = chain and maxval = "current - q" and remainder = r and m = k and rest = 0] full q(2,3) k unfolding trunc n_def
      by linarith
  qed
qed

section \<open>The layout of a chain\<close>

definition chain_slice :: "nat \<Rightarrow> nat \<Rightarrow> 'a list \<Rightarrow> 'a list" where
  "chain_slice start n xs = take n (drop start xs)"

text \<open>The parameters of an item: what the calculation must not change.\<close>

definition params :: "QLayoutStruct \<Rightarrow> QLayoutStruct" where
  "params d = d\<lparr>settled := False, place := 0, extent := 0\<rparr>"

lemma params_upd [simp]: "params (d\<lparr>extent := w\<rparr>) = params d" "params (d\<lparr>settled := b\<rparr>) = params d"
  "params (d\<lparr>place := p\<rparr>) = params d"
  by (simp_all add: params_def)

lemma params_fields:
  "params d = params x \<Longrightarrow> smartSizeHint d = smartSizeHint x \<and> minimumSize d = minimumSize x \<and>
   maximumSize d = maximumSize x \<and> empty d = empty x \<and> spacing d = spacing x \<and>
   expansive d = expansive x \<and> stretch d = stretch x"
  by (cases d; cases x; simp add: params_def smartSizeHint_def)

lemma put_items_same:
  "map extent (put_items spacer extra p ds) = map extent ds" "map params (put_items spacer extra p ds) = map params ds"
  by (induction ds arbitrary: p) auto

lemma truncate_params: "map params (truncate_items maxval remainder m rest ds) = map params ds"
  by (induction ds arbitrary: rest) (auto simp: Let_def)

lemma below_minimum_params: "map params (below_minimum chain space) = map params chain"
  by (simp add: below_minimum_def truncate_params Let_def split: prod.split)

lemma settle_items_params: "map params (items (settle_items p v g)) = map params (items g)"
  by (simp add: settle_items_eq)

lemma trial_params: "trial g fp fp_w ds s f = (r, s', f') \<Longrightarrow> map params r = map params ds"
proof (induction ds arbitrary: fp_w s f r)
  case (Cons d ds)
  then show ?case by (cases "settled d") (auto simp: Let_def split: prod.splits if_splits)
qed auto

lemma extra_round_params: "extra_round g = (h, s, f) \<Longrightarrow> map params (items h) = map params (items g)"
  by (auto simp: extra_round_def Let_def settle_items_params trial_params split: prod.splits if_splits)

lemma extra_loop_params: "map params (items (extra_loop g)) = map params (items g)"
proof (induction g rule: extra_loop.induct)
  case (1 g)
  obtain h s f where h: "extra_round g = (h, s, f)" by (cases "extra_round g")
  then show ?case using "1.IH" [OF h [symmetric] refl] extra_round_params [OF h]
    by (subst extra_loop.simps) auto
qed

lemma overdraft_pass_params: "overdraft_pass fp n fp_w ds = (r, c) \<Longrightarrow> map params r = map params ds"
proof (induction ds arbitrary: fp_w r)
  case (Cons d ds)
  then show ?case by (cases "settled d") (auto simp: Let_def split: prod.splits if_splits)
qed simp

lemma overdraft_loop_params: "map params (overdraft_loop ds overdraft n) = map params ds"
proof (induction ds overdraft n rule: overdraft_loop.induct)
  case (1 ds overdraft n)
  obtain r c where r: "overdraft_pass (toFixed overdraft) n 0 ds = (r, c)" by fastforce
  show ?case using overdraft_pass_params [OF r] "1.IH" [OF r [symmetric]] r
    by (subst overdraft_loop.simps) (auto split: option.split)
qed

lemma calc_sizes_params:
  "calc_sizes chain space spacer = (ds, sp, ex) \<Longrightarrow> map params ds = map params chain"
  by (auto simp: calc_sizes_def Let_def below_minimum_params below_hint_def overdraft_loop_params above_hint_def
      extra_loop_params settle_items_params settle_minimum_def o_def split: prod.splits if_splits)

lemma qGeomCalc_slice:
  assumes "start + n \<le> length chain" "calc_sizes (chain_slice start n chain) space spacer = (ds, sp, ex)"
  shows "qGeomCalc chain start n pos space spacer = take start chain @
      put_items sp (ex sdiv (spacerCount (chain_totals spacer (chain_slice start n chain)) + 2))
        (pos + ex sdiv (spacerCount (chain_totals spacer (chain_slice start n chain)) + 2)) ds @
      drop (start + n) chain"
    "chain_slice start n (qGeomCalc chain start n pos space spacer) =
      put_items sp (ex sdiv (spacerCount (chain_totals spacer (chain_slice start n chain)) + 2))
        (pos + ex sdiv (spacerCount (chain_totals spacer (chain_slice start n chain)) + 2)) ds"
proof -
  have "length ds = n"
    using calc_sizes_params [OF assms(2)] assms(1) by (metis chain_slice_def length_drop length_map length_take
        add_le_imp_le_diff add.commute min.absorb2)
  then show "qGeomCalc chain start n pos space spacer = take start chain @
      put_items sp (ex sdiv (spacerCount (chain_totals spacer (chain_slice start n chain)) + 2))
        (pos + ex sdiv (spacerCount (chain_totals spacer (chain_slice start n chain)) + 2)) ds @
      drop (start + n) chain"
    "chain_slice start n (qGeomCalc chain start n pos space spacer) =
      put_items sp (ex sdiv (spacerCount (chain_totals spacer (chain_slice start n chain)) + 2))
        (pos + ex sdiv (spacerCount (chain_totals spacer (chain_slice start n chain)) + 2)) ds"
    using assms put_items_same(1) [THEN arg_cong [where f = length]]
    by (simp_all add: qGeomCalc_def chain_slice_def Let_def)
qed

lemma totals_unsettle [simp]:
  "chain_totals spacer (map (\<lambda>d. d\<lparr>settled := b\<rparr>) chain) = chain_totals spacer chain"
proof -
  have "add_item spacer (d\<lparr>settled := b\<rparr>) = add_item spacer d" for d
    by (rule ext) (simp add: add_item_def effectiveSpacer_def Let_def)
  then show ?thesis by (simp add: chain_totals_def fold_map o_def)
qed

lemma calc_sizes_cases:
  assumes "t = chain_totals spacer chain" "c = map (\<lambda>d. d\<lparr>settled := False\<rparr>) chain"
  shows "space < cMin t + sumSpacing t \<Longrightarrow> calc_sizes chain space spacer =
      (below_minimum c (space - snd (shrink_spacer t space spacer)), fst (shrink_spacer t space spacer), 0)"
    "cMin t + sumSpacing t \<le> space \<Longrightarrow> space < cHint t + sumSpacing t \<Longrightarrow>
      calc_sizes chain space spacer = (below_hint t c space, spacer, 0)"
    "cMin t + sumSpacing t \<le> space \<Longrightarrow> cHint t + sumSpacing t \<le> space \<Longrightarrow>
      calc_sizes chain space spacer = (fst (above_hint t c space), spacer, snd (above_hint t c space))"
  using assms by (simp_all add: calc_sizes_def Let_def case_prod_beta)

lemma below_minimum_level:
  "\<exists>level. \<forall>d\<in>set (below_minimum chain space).
     extent d = min (minimumSize d) level \<or> extent d = min (minimumSize d) (level - 1)"
proof -
  obtain idx used current where
    f: "find_level (int (length chain)) space (sort (map minimumSize chain)) 0 0 0 0 = (idx, used, current)"
    by (cases "find_level (int (length chain)) space (sort (map minimumSize chain)) 0 0 0 0") auto
  define k where "k = int (length chain) - (idx - 1)"
  have "below_minimum chain space = truncate_items (current - (used - space) sdiv k) ((used - space) smod k) k 0 chain"
    unfolding below_minimum_def Let_def f prod.case k_def ..
  then show ?thesis
    using truncate_items_sizes [where ds = chain and maxval = "current - (used - space) sdiv k"
        and remainder = "(used - space) smod k" and m = k and rest = 0] by auto
qed

text \<open>Without space for the items the level is not above zero; with more than all the minimum sizes nothing is cut.\<close>

lemma below_minimum_negative:
  assumes "space \<le> 0" "d \<in> set (below_minimum chain space)"
  shows "extent d \<le> - (- space div (int (length chain) + 1))"
proof -
  have f: "find_level cnt space ms 0 0 0 0 = (0, 0, 0)" for cnt ms using assms(1) by (cases ms) auto
  define k where "k = int (length chain) + 1"
  have k: "int (length chain) - (0 - 1) = k" "0 - (0 - space) sdiv k = - (- space div k)"
    using sdiv_nonneg [of "- space" k] assms(1) by (simp_all add: k_def)
  have "below_minimum chain space = truncate_items (- (- space div k)) ((0 - space) smod k) k 0 chain"
    unfolding below_minimum_def Let_def f prod.case k ..
  then show ?thesis unfolding k_def [symmetric]
    using truncate_items_sizes [where ds = chain and maxval = "- (- space div k)"
        and remainder = "(0 - space) smod k" and m = k and rest = 0] assms(2) by auto
qed

lemma below_minimum_enough:
  assumes "0 < space" "(\<Sum>d\<leftarrow>chain. minimumSize d) < space" "d \<in> set (below_minimum chain space)"
  shows "extent d = minimumSize d"
proof -
  define ms where "ms = sort (map minimumSize chain)"
  define n where "n = int (length chain)"
  have ms: "length ms = length chain" "sum_list ms = (\<Sum>d\<leftarrow>chain. minimumSize d)" "sorted ms" "set ms = minimumSize ` set chain"
    using sum_sorted [of "\<lambda>x. x" "map minimumSize chain"] by (simp_all add: ms_def)
  obtain idx used current where f: "find_level n space ms 0 0 0 0 = (idx, used, current)"
    by (cases "find_level n space ms 0 0 0 0") auto
  have "chain \<noteq> []" using assms(3) by (auto simp: below_minimum_def Let_def split: prod.splits)
  then have "ms \<noteq> []" using ms(1) by auto
  then obtain i where i: "idx = int (Suc i)" "i < length ms" "current = ms ! i"
    "used = sum_list (take i ms) + current * (n - int i)" "space \<le> used \<or> Suc i = length ms"
    using find_level_spec [of n space 0 ms 0 0 idx used current] f assms(1) ms(1) by (auto simp: n_def)
  have le: "current * (n - int i) \<le> sum_list (drop i ms)"
  proof -
    have "(\<Sum>x\<leftarrow>drop i ms. current) \<le> (\<Sum>x\<leftarrow>drop i ms. x)"
      using i(2,3) ms(3) by (intro sum_list_mono) (auto simp: in_set_conv_nth intro: sorted_nth_mono)
    then show ?thesis using i(2) ms(1) by (simp add: sum_list_triv n_def mult.commute)
  qed
  have "sum_list ms = sum_list (take i ms) + sum_list (drop i ms)" by (metis append_take_drop_id sum_list_append)
  then have "used \<le> sum_list ms" using le i(4) by simp
  then have used: "used < space" using assms(2) ms(2) by simp
  with i(5) have last: "Suc i = length ms" by simp
  then have k: "n - (idx - 1) = 1" using i(1) ms(1) by (simp add: n_def)
  have "below_minimum chain space = truncate_items (current - (used - space) sdiv 1) ((used - space) smod 1) 1 0 chain"
    unfolding below_minimum_def Let_def ms_def [symmetric] n_def [symmetric] f prod.case k ..
  moreover have "(used - space) sdiv 1 = used - space" using used by (simp add: cdiv_simps)
  ultimately have t: "extent d = min (minimumSize d) (current - (used - space)) \<or>
      extent d = min (minimumSize d) (current - (used - space) - 1)"
    using truncate_items_sizes [where ds = chain and maxval = "current - (used - space)"
        and remainder = "(used - space) smod 1" and m = 1 and rest = 0] assms(3) by auto
  have "map params (below_minimum chain space) = map params chain" by (rule below_minimum_params)
  then have "params d \<in> params ` set chain" using assms(3) by (metis image_eqI list.set_map)
  then obtain c where c: "c \<in> set chain" "params d = params c" by auto
  then have "minimumSize d \<in> set ms" using params_fields [OF c(2)] ms(4) by auto
  then obtain j where "j < length ms" "minimumSize d = ms ! j" by (auto simp: in_set_conv_nth)
  then have "minimumSize d \<le> current" using last i(3) ms(3) by (auto intro: sorted_nth_mono)
  then show ?thesis using t used by auto
qed

text \<open>
  The items that may grow beyond their hint: those with a greater maximum, but for empty items without stretch that
  are not expansive when there are others.
\<close>

definition can_grow :: "LayoutTotals \<Rightarrow> QLayoutStruct \<Rightarrow> bool" where
  "can_grow t d \<longleftrightarrow> smartSizeHint d < maximumSize d \<and>
    (allEmptyNonstretch t \<or> \<not> empty d \<or> expansive d \<or> stretch d \<noteq> 0)"

definition expected_size :: "LayoutTotals \<Rightarrow> int \<Rightarrow> int \<Rightarrow> QLayoutStruct \<Rightarrow> bool" where
  "expected_size t space extra d \<longleftrightarrow>
    (if space < cHint t + sumSpacing t then between d \<and> extra = 0
     else if can_grow t d then
       smartSizeHint d \<le> extent d \<and> extent d \<le> maximumSize d \<and> (0 < extra \<longrightarrow> extent d = maximumSize d)
     else extent d = smartSizeHint d)"

lemma expected_size_same:
  assumes "params d = params x" "extent d = extent x"
  shows "expected_size t space extra d = expected_size t space extra x"
proof -
  note f = params_fields [OF assms(1)]
  have "can_grow t d = can_grow t x" "between d = between x" using f assms(2) by (simp_all add: between_def can_grow_def)
  with f assms(2) show ?thesis by (simp only: expected_size_def)
qed

text \<open>
  C22: When the chain of at most 128 items, with stretches and hints that are not negative, has at least the space of its
  minimum sizes, \<open>qGeomCalc\<close> uses it up to the pixel: sizes, spacing and the extra space add up to \<open>space\<close>.
  With less than the hints, every item gets between its minimum and its hint (its hint, if that is not greater than
  the minimum) and there is no extra space.  With at least the hints, an item that cannot grow gets its hint and one that can
  between its hint and its maximum, and extra space (which goes into the spacing) is left only when every item
  that can grow has its maximum.
\<close>
theorem qGeomCalc_fills:
  assumes "start + n \<le> length chain" "n \<le> 128"
    "\<forall>d\<in>set (chain_slice start n chain). 0 \<le> stretch d \<and> 0 \<le> smartSizeHint d"
    "t = chain_totals spacer (chain_slice start n chain)" "cMin t + sumSpacing t \<le> space"
  shows "\<exists>extra\<ge>0. (\<Sum>d\<leftarrow>chain_slice start n (qGeomCalc chain start n pos space spacer). extent d) +
      sumSpacing t + extra = space \<and>
    (\<forall>d\<in>set (chain_slice start n (qGeomCalc chain start n pos space spacer)). expected_size t space extra d)"
proof -
  define c where "c = map (\<lambda>d. d\<lparr>settled := False\<rparr>) (chain_slice start n chain)"
  have c: "t = chain_totals spacer c" "length c \<le> 128"
    "\<forall>d\<in>set c. \<not> settled d \<and> 0 \<le> stretch d \<and> 0 \<le> smartSizeHint d"
    using assms by (auto simp: c_def chain_slice_def)
  obtain ds sp ex where r: "calc_sizes (chain_slice start n chain) space spacer = (ds, sp, ex)"
    by (cases "calc_sizes (chain_slice start n chain) space spacer") auto
  have calc: "(\<Sum>d\<leftarrow>ds. extent d) + sumSpacing t + ex = space \<and> 0 \<le> ex \<and> (\<forall>d\<in>set ds. expected_size t space ex d)"
  proof (cases "space < cHint t + sumSpacing t")
    case True
    then have "ds = below_hint t c space" "ex = 0"
      using r calc_sizes_cases(2) [OF assms(4) c_def assms(5)] by auto
    then show ?thesis using below_hint_sizes [OF c(1,2) _ assms(5) True] c(3) True by (auto simp: expected_size_def)
  next
    case False
    then have a: "above_hint t c space = (ds, ex)"
      using r calc_sizes_cases(3) [OF assms(4) c_def assms(5)] by (auto simp: prod_eq_iff)
    have "can_grow t d \<longleftrightarrow> \<not> first_settled t d" for d by (auto simp: can_grow_def first_settled_def)
    then show ?thesis using above_hint_sizes [OF c _ a] False by (auto simp: expected_size_def)
  qed
  define s where "s = chain_slice start n (qGeomCalc chain start n pos space spacer)"
  have s: "map extent s = map extent ds" "map params s = map params ds"
    unfolding s_def qGeomCalc_slice(2) [OF assms(1) r] by (rule put_items_same)+
  have "expected_size t space ex d" if d: "d \<in> set s" for d
  proof -
    from d obtain i where i: "i < length s" "d = s ! i" by (auto simp: in_set_conv_nth)
    have len: "length s = length ds" using s(1) by (metis length_map)
    then have x: "ds ! i \<in> set ds" "extent d = extent (ds ! i)" "params d = params (ds ! i)"
      using i s by (auto simp: list_eq_iff_nth_eq)
    from x(1) calc have "expected_size t space ex (ds ! i)" by blast
    then show ?thesis using expected_size_same [OF x(3,2)] by simp
  qed
  with calc s(1) show ?thesis unfolding s_def [symmetric] by metis
qed

definition demo_item :: "int \<Rightarrow> int \<Rightarrow> int \<Rightarrow> int \<Rightarrow> QLayoutStruct" where
  "demo_item s mn hint mx = \<lparr>stretch = s, sizeHint = hint, maximumSize = mx, minimumSize = mn, expansive = False,
    empty = False, spacing = 0, settled = False, place = 0, extent = 0\<rparr>"

theorem qGeomCalc_fills_witness:
  "\<exists>extra\<ge>0. (\<Sum>d\<leftarrow>chain_slice 0 2 (qGeomCalc [demo_item 0 20 50 60, demo_item 1 30 30 400] 0 2 7 200 6). extent d) +
      6 + extra = 200 \<and>
    (\<forall>d\<in>set (chain_slice 0 2 (qGeomCalc [demo_item 0 20 50 60, demo_item 1 30 30 400] 0 2 7 200 6)).
      expected_size (chain_totals 6 [demo_item 0 20 50 60, demo_item 1 30 30 400]) 200 extra d)"
proof -
  define ch where "ch = [demo_item 0 20 50 60, demo_item 1 30 30 400]"
  have ch: "chain_slice 0 2 ch = ch" by (simp add: ch_def chain_slice_def)
  have t: "sumSpacing (chain_totals 6 ch) = 6" "cMin (chain_totals 6 ch) = 50"
    by (simp_all add: ch_def chain_totals_def add_item_def demo_item_def no_totals_def effectiveSpacer_def)
  show ?thesis
    using qGeomCalc_fills [of 0 2 ch "chain_totals 6 ch" 6 200 7] t unfolding ch_def [symmetric] ch
    by (auto simp: ch_def demo_item_def smartSizeHint_def)
qed

text \<open>
  C23: With less space than the minimum sizes, \<open>qGeomCalc\<close> first scales the spacing down and then cuts the
  items to a common level: every item gets its minimum, or the level or one less when that is smaller.  When
  the space behind the spacing is positive and not more than the minimum sizes, the sizes add up to it but for fewer
  pixels than there are items; when it is more (by rounding of the spacing), every item gets its minimum.  When nothing
  is left behind the spacing (the spacings of single items are not scaled), no item gets more than zero, and all get less
  when more pixels are missing than there are items.
\<close>
theorem qGeomCalc_cuts:
  assumes "start + n \<le> length chain" "t = chain_totals spacer (chain_slice start n chain)"
    "space < cMin t + sumSpacing t" "left = space - snd (shrink_spacer t space spacer)"
    "result = chain_slice start n (qGeomCalc chain start n pos space spacer)"
  shows "(\<exists>level. \<forall>d\<in>set result. extent d = min (minimumSize d) level \<or> extent d = min (minimumSize d) (level - 1)) \<and>
    (0 < left \<and> left \<le> cMin t \<longrightarrow> \<bar>(\<Sum>d\<leftarrow>result. extent d) - left\<bar> < int n) \<and>
    (0 < left \<and> cMin t < left \<longrightarrow> (\<forall>d\<in>set result. extent d = minimumSize d)) \<and>
    (left \<le> 0 \<longrightarrow> (\<forall>d\<in>set result. extent d \<le> - (- left div (int n + 1))))"
proof -
  define c where "c = map (\<lambda>d. d\<lparr>settled := False\<rparr>) (chain_slice start n chain)"
  define ds where "ds = below_minimum c left"
  have r: "calc_sizes (chain_slice start n chain) space spacer = (ds, fst (shrink_spacer t space spacer), 0)"
    using calc_sizes_cases(1) [OF assms(2) c_def assms(3)] by (simp add: ds_def assms(4))
  have s: "map extent result = map extent ds" "map params result = map params ds"
    unfolding assms(5) qGeomCalc_slice(2) [OF assms(1) r] by (rule put_items_same)+
  have len: "length c = n" using assms(1) by (simp add: c_def chain_slice_def)
  have cMin: "cMin t = (\<Sum>d\<leftarrow>c. minimumSize d)" using assms(2) by (simp add: chain_totals_sums c_def o_def)
  have same: "\<exists>x\<in>set ds. extent d = extent x \<and> minimumSize d = minimumSize x" if d: "d \<in> set result" for d
  proof -
    from d obtain i where i: "i < length result" "d = result ! i" by (auto simp: in_set_conv_nth)
    have "length result = length ds" using s(1) by (metis length_map)
    then have x: "ds ! i \<in> set ds" "extent d = extent (ds ! i)" "params d = params (ds ! i)"
      using i s by (auto simp: list_eq_iff_nth_eq)
    with params_fields [OF x(3)] show ?thesis by blast
  qed
  have "\<exists>level. \<forall>d\<in>set ds. extent d = min (minimumSize d) level \<or> extent d = min (minimumSize d) (level - 1)"
    unfolding ds_def by (rule below_minimum_level)
  then have 1: "\<exists>level. \<forall>d\<in>set result. extent d = min (minimumSize d) level \<or> extent d = min (minimumSize d) (level - 1)"
    using same by metis
  have 2: "\<bar>(\<Sum>d\<leftarrow>result. extent d) - left\<bar> < int n" if "0 < left \<and> left \<le> cMin t"
    using below_minimum_sizes(2) [of left c] that cMin len s(1) by (simp add: ds_def [symmetric])
  have 3: "extent d = minimumSize d" if "0 < left \<and> cMin t < left" "d \<in> set result" for d
    using same [OF that(2)] below_minimum_enough [of left c] that(1) cMin by (auto simp: ds_def [symmetric])
  have 4: "extent d \<le> - (- left div (int n + 1))" if "left \<le> 0" "d \<in> set result" for d
    using same [OF that(2)] below_minimum_negative [OF that(1)] len by (auto simp: ds_def [symmetric])
  show ?thesis using 1 2 3 4 by blast
qed

theorem qGeomCalc_cuts_witness:
  "(\<exists>level. \<forall>d\<in>set (chain_slice 0 2 (qGeomCalc [demo_item 0 20 50 60, demo_item 0 30 30 400] 0 2 7 40 6)).
      extent d = min (minimumSize d) level \<or> extent d = min (minimumSize d) (level - 1)) \<and>
    \<bar>(\<Sum>d\<leftarrow>chain_slice 0 2 (qGeomCalc [demo_item 0 20 50 60, demo_item 0 30 30 400] 0 2 7 40 6). extent d) - 36\<bar> < int 2"
proof -
  define ch where "ch = [demo_item 0 20 50 60, demo_item 0 30 30 400]"
  have ch: "chain_slice 0 2 ch = ch" by (simp add: ch_def chain_slice_def)
  have t: "sumSpacing (chain_totals 6 ch) = 6" "cMin (chain_totals 6 ch) = 50" "spacerCount (chain_totals 6 ch) = 1"
    by (simp_all add: ch_def chain_totals_def add_item_def demo_item_def no_totals_def effectiveSpacer_def)
  have l: "36 = 40 - snd (shrink_spacer (chain_totals 6 ch) 40 6)"
    by (simp add: shrink_spacer_def t cdiv_simps)
  have fits: "0 + 2 \<le> length ch" by (simp add: ch_def)
  have slice: "chain_totals 6 ch = chain_totals 6 (chain_slice 0 2 ch)" by (simp only: ch)
  have less: "40 < cMin (chain_totals 6 ch) + sumSpacing (chain_totals 6 ch)" by (simp add: t)
  note q = qGeomCalc_cuts [OF fits slice less l refl, of 7]
  have "0 < (36::int) \<and> 36 \<le> cMin (chain_totals 6 ch)" by (simp add: t)
  with q show ?thesis unfolding ch_def [symmetric] by blast
qed

text \<open>
  Two items of 20 and 30 pixels with a spacing of 100 of their own, in 10 pixels: both get -30.
\<close>

lemma qGeomCalc_negative:
  "map extent (qGeomCalc [(demo_item 0 20 20 500)\<lparr>spacing := 100\<rparr>, (demo_item 0 30 30 500)\<lparr>spacing := 100\<rparr>] 0 2 0 10 (-1)) = [-30, -30]"
  by code_simp

text \<open>The rounding is spread over all items, not over those that are cut: the sum can miss the space.\<close>

lemma qGeomCalc_overflow:
  "map extent (qGeomCalc (map (\<lambda>m. demo_item 0 m m 500) [20, 10, 20, 10]) 0 4 0 53 0) = [17, 10, 17, 10]"
  "map extent (qGeomCalc (map (\<lambda>m. demo_item 0 m m 500) [10, 20, 10, 20]) 0 4 0 53 0) = [10, 16, 10, 16]"
  by code_simp+

lemma put_items_places:
  "(0 < length ds \<longrightarrow> place (put_items spacer extra p ds ! 0) = p) \<and>
   (\<forall>i. Suc i < length ds \<longrightarrow> place (put_items spacer extra p ds ! Suc i) =
      place (put_items spacer extra p ds ! i) + extent (put_items spacer extra p ds ! i) +
      (if empty (put_items spacer extra p ds ! i) then 0
       else effectiveSpacer spacer (put_items spacer extra p ds ! i) + extra))"
proof (induction ds arbitrary: p)
  case (Cons d ds)
  define q where "q = p + extent d + (if \<not> empty d then effectiveSpacer spacer d + extra else 0)"
  have e: "put_items spacer extra p (d # ds) = d\<lparr>place := p\<rparr> # put_items spacer extra q ds" by (simp add: q_def)
  show ?case
  proof (intro conjI impI allI)
    fix i
    assume i: "Suc i < length (d # ds)"
    show "place (put_items spacer extra p (d # ds) ! Suc i) =
      place (put_items spacer extra p (d # ds) ! i) + extent (put_items spacer extra p (d # ds) ! i) +
      (if empty (put_items spacer extra p (d # ds) ! i) then 0
       else effectiveSpacer spacer (put_items spacer extra p (d # ds) ! i) + extra)"
      using Cons.IH [of q] i unfolding e by (cases i) (auto simp: q_def effectiveSpacer_def)
  qed (simp add: e)
qed simp

text \<open>
  \<open>qGeomCalc\<close> lays the items out one behind the other: the first one extra space behind \<open>pos\<close>, the next
  one where the one before ends, after the spacing and the extra space if that is not empty.
  Nothing but the result fields of the items of the slice changes.
\<close>
theorem qGeomCalc_places:
  assumes "start + n \<le> length chain" "r = qGeomCalc chain start n pos space spacer"
  shows "map params r = map params chain \<and> take start r = take start chain \<and> drop (start + n) r = drop (start + n) chain \<and>
    (\<exists>sp extra. (0 < n \<longrightarrow> place (r ! start) = pos + extra) \<and>
      (\<forall>i. start \<le> i \<and> Suc i < start + n \<longrightarrow> place (r ! Suc i) =
         place (r ! i) + extent (r ! i) + (if empty (r ! i) then 0 else effectiveSpacer sp (r ! i) + extra)))"
proof -
  obtain ds sp ex where c: "calc_sizes (chain_slice start n chain) space spacer = (ds, sp, ex)"
    by (cases "calc_sizes (chain_slice start n chain) space spacer") auto
  define extra where "extra = ex sdiv (spacerCount (chain_totals spacer (chain_slice start n chain)) + 2)"
  define ps where "ps = put_items sp extra (pos + extra) ds"
  have params: "map params ps = map params (chain_slice start n chain)"
    using calc_sizes_params [OF c] by (simp add: ps_def put_items_same)
  from arg_cong [OF this, of length] have len: "length ps = n" "length ds = n"
    using assms(1) put_items_same(1) [of sp extra "pos + extra" ds, THEN arg_cong [where f = length]]
    by (simp_all add: chain_slice_def ps_def)
  have r: "r = take start chain @ ps @ drop (start + n) chain"
    using qGeomCalc_slice(1) [OF assms(1) c] by (simp add: assms(2) ps_def extra_def)
  have nth: "r ! i = ps ! (i - start)" if "start \<le> i" "i < start + n" for i
    using that assms(1) len by (simp add: r nth_append)
  have "chain = take start chain @ chain_slice start n chain @ drop (start + n) chain"
    by (metis append_take_drop_id chain_slice_def drop_drop add.commute)
  then have "map params r = map params chain"
    by (metis params r map_append)
  moreover have "(0 < n \<longrightarrow> place (r ! start) = pos + extra) \<and>
      (\<forall>i. start \<le> i \<and> Suc i < start + n \<longrightarrow> place (r ! Suc i) =
         place (r ! i) + extent (r ! i) + (if empty (r ! i) then 0 else effectiveSpacer sp (r ! i) + extra))"
  proof (intro conjI impI allI)
    show "place (r ! start) = pos + extra" if "0 < n"
      using that nth put_items_places [of ds sp extra "pos + extra"] len by (simp add: ps_def)
    fix i
    assume i: "start \<le> i \<and> Suc i < start + n"
    then have "Suc (i - start) < length ds" "Suc i - start = Suc (i - start)" using len by auto
    with i show "place (r ! Suc i) =
         place (r ! i) + extent (r ! i) + (if empty (r ! i) then 0 else effectiveSpacer sp (r ! i) + extra)"
      using nth [of i] nth [of "Suc i"] put_items_places [of ds sp extra "pos + extra"] by (simp add: ps_def)
  qed
  ultimately show ?thesis using assms(1) len by (auto simp: r)
qed

theorem qGeomCalc_places_witness:
  "\<exists>sp extra. place (qGeomCalc [demo_item 0 20 50 60, demo_item 1 30 30 400] 0 2 7 200 6 ! 1) =
    7 + extra + extent (qGeomCalc [demo_item 0 20 50 60, demo_item 1 30 30 400] 0 2 7 200 6 ! 0) +
    (if empty (qGeomCalc [demo_item 0 20 50 60, demo_item 1 30 30 400] 0 2 7 200 6 ! 0) then 0
     else effectiveSpacer sp (qGeomCalc [demo_item 0 20 50 60, demo_item 1 30 30 400] 0 2 7 200 6 ! 0) + extra)"
proof -
  define chain where "chain = [demo_item 0 20 50 60, demo_item 1 30 30 400]"
  define r where "r = qGeomCalc chain 0 2 7 200 6"
  have "0 + 2 \<le> length chain" by (simp add: chain_def)
  from qGeomCalc_places [OF this r_def] obtain sp extra where "place (r ! 0) = 7 + extra"
    "\<forall>i. 0 \<le> i \<and> Suc i < 0 + 2 \<longrightarrow> place (r ! Suc i) =
      place (r ! i) + extent (r ! i) + (if empty (r ! i) then 0 else effectiveSpacer sp (r ! i) + extra)"
    by auto
  from this(1) this(2) [rule_format, of 0] show ?thesis
    unfolding chain_def [symmetric] r_def [symmetric] by (intro exI [of _ sp] exI [of _ extra]) simp
qed

end
