(* ===== verification/SizePolicy.thy ===== *)
theory SizePolicy
  imports LayoutEngine
begin

text \<open>
  \<open>QSizePolicy\<close> (src/src/gui/kernel/qsizepolicy.h and qlayout.cpp), the policies, control type, flags and
  stretch factors of a widget packed into one \<open>quint32\<close>, and the functions of the layout engine
  that turn a widget's sizes and policy into the minimum and maximum of its item
  (\<open>qSmartMinSize\<close>, \<open>qSmartMaxSize\<close>, \<open>qMaxExpCalc\<close> of qlayoutengine).
\<close>

unbundle bit_operations_syntax

type_synonym QSizePolicy = "32 word"
type_synonym Policy = "32 word"

definition HSize :: nat where "HSize = 4"
definition HMask :: "32 word" where "HMask = 0x0f"
definition VMask :: "32 word" where "VMask = push_bit HSize HMask"
definition CTShift :: nat where "CTShift = 9"
definition CTSize :: nat where "CTSize = 5"
definition CTMask :: "32 word" where "CTMask = push_bit CTShift (push_bit CTSize 1 - 1)"
definition WFHShift :: nat where "WFHShift = CTShift + CTSize"

definition ExpandFlag :: Policy where "ExpandFlag = 2"


definition horizontalPolicy :: "QSizePolicy \<Rightarrow> Policy" where
  "horizontalPolicy p = p AND HMask"

definition verticalPolicy :: "QSizePolicy \<Rightarrow> Policy" where
  "verticalPolicy p = drop_bit HSize (p AND VMask)"

definition setHorizontalPolicy :: "Policy \<Rightarrow> QSizePolicy \<Rightarrow> QSizePolicy" where
  "setHorizontalPolicy d p = (p AND NOT HMask) OR d"

definition setVerticalPolicy :: "Policy \<Rightarrow> QSizePolicy \<Rightarrow> QSizePolicy" where
  "setVerticalPolicy d p = (p AND NOT (push_bit HSize HMask)) OR push_bit HSize d"

text \<open>
  \<open>setControlType\<close> looks for the first bit of the type; without one it would shift by 32 and more,
  which is undefined: \<open>None\<close>.
\<close>

function control_index :: "32 word \<Rightarrow> nat \<Rightarrow> nat option" where
  "control_index type i =
    (if i \<ge> 32 then None else if type AND push_bit i 1 \<noteq> 0 then Some i else control_index type (i + 1))"
  by pat_completeness auto
termination by (relation "measure (\<lambda>(type, i). 32 - i)") auto

declare control_index.simps [simp del]

definition setControlType :: "32 word \<Rightarrow> QSizePolicy \<Rightarrow> QSizePolicy option" where
  "setControlType type p =
    map_option (\<lambda>i. (p AND NOT CTMask) OR push_bit CTShift (of_nat i)) (control_index type 0)"

definition controlType :: "QSizePolicy \<Rightarrow> 32 word" where
  "controlType p = push_bit (unat (drop_bit CTShift (p AND CTMask))) 1"

definition new_QSizePolicy :: QSizePolicy where
  "new_QSizePolicy = 0"

definition QSizePolicy :: "Policy \<Rightarrow> Policy \<Rightarrow> 32 word \<Rightarrow> QSizePolicy option" where
  "QSizePolicy horizontal vertical type = setControlType type (horizontal OR push_bit HSize vertical)"

text \<open>\<open>expandingDirections\<close>: the flags \<open>Qt::Vertical\<close> and \<open>Qt::Horizontal\<close>.\<close>

definition expandingDirections :: "QSizePolicy \<Rightarrow> bool \<times> bool" where
  "expandingDirections p = (verticalPolicy p AND ExpandFlag \<noteq> 0, horizontalPolicy p AND ExpandFlag \<noteq> 0)"

definition setHeightForWidth :: "bool \<Rightarrow> QSizePolicy \<Rightarrow> QSizePolicy" where
  "setHeightForWidth b p = (if b then p OR push_bit (2 * HSize) 1 else p AND NOT (push_bit (2 * HSize) 1))"

definition hasHeightForWidth :: "QSizePolicy \<Rightarrow> bool" where
  "hasHeightForWidth p \<longleftrightarrow> p AND push_bit (2 * HSize) 1 \<noteq> 0"

definition setWidthForHeight :: "bool \<Rightarrow> QSizePolicy \<Rightarrow> QSizePolicy" where
  "setWidthForHeight b p = (if b then p OR push_bit WFHShift 1 else p AND NOT (push_bit WFHShift 1))"

definition hasWidthForHeight :: "QSizePolicy \<Rightarrow> bool" where
  "hasWidthForHeight p \<longleftrightarrow> p AND push_bit WFHShift 1 \<noteq> 0"

definition QSizePolicy_eq :: "QSizePolicy \<Rightarrow> QSizePolicy \<Rightarrow> bool" where
  "QSizePolicy_eq p s \<longleftrightarrow> p = s"

definition horizontalStretch :: "QSizePolicy \<Rightarrow> int" where
  "horizontalStretch p = uint (drop_bit 24 p)"

definition verticalStretch :: "QSizePolicy \<Rightarrow> int" where
  "verticalStretch p = uint (drop_bit 16 p AND 0xff)"

definition setHorizontalStretch :: "8 word \<Rightarrow> QSizePolicy \<Rightarrow> QSizePolicy" where
  "setHorizontalStretch stretchFactor p = (p AND 0x00ffffff) OR push_bit 24 (ucast stretchFactor)"

definition setVerticalStretch :: "8 word \<Rightarrow> QSizePolicy \<Rightarrow> QSizePolicy" where
  "setVerticalStretch stretchFactor p = (p AND 0xff00ffff) OR push_bit 16 (ucast stretchFactor)"

definition QSizePolicy_transpose :: "QSizePolicy \<Rightarrow> QSizePolicy" where
  "QSizePolicy_transpose p =
    (let hData = horizontalPolicy p; vData = verticalPolicy p;
         hStretch = word_of_int (horizontalStretch p); vStretch = word_of_int (verticalStretch p)
     in setVerticalStretch hStretch (setHorizontalStretch vStretch
          (setVerticalPolicy hData (setHorizontalPolicy vData p))))"

section \<open>Minimum and maximum of an item\<close>






definition qMaxExpCalc :: "int \<times> bool \<times> bool \<Rightarrow> int \<Rightarrow> bool \<Rightarrow> bool \<Rightarrow> int \<times> bool \<times> bool" where
  "qMaxExpCalc = (\<lambda>(mx, expd, emp) boxmax boxexp boxempty.
    (let mx = (if expd then (if boxexp then max mx boxmax else mx)
               else if boxexp \<or> (emp \<and> (\<not> boxempty \<or> mx = 0)) then boxmax
               else if emp = boxempty then min mx boxmax else mx)
     in (mx, expd \<or> boxexp, emp \<and> boxempty)))"

section \<open>The fields of the packed word\<close>

lemma masks: "HMask = mask 4" "VMask = push_bit 4 (mask 4)" "CTMask = push_bit 9 (mask 5)"
  "(0xff :: 32 word) = mask 8" "(0x00ffffff :: 32 word) = mask 24" "(0xff00ffff :: 32 word) = NOT (push_bit 16 (mask 8))"
  by (simp_all add: HMask_def VMask_def CTMask_def HSize_def CTShift_def CTSize_def mask_eq_exp_minus_1 push_bit_eq_mult)

lemma small_bits: "d < 16 \<Longrightarrow> bit (d :: 32 word) n \<Longrightarrow> n < 4"
proof (rule ccontr)
  assume d: "d < 16" "bit d n" "\<not> n < 4"
  have "unat d < 16" using d(1) by (simp add: word_less_nat_alt)
  also have "(16 :: nat) = 2 ^ 4" by simp
  also have "\<dots> \<le> 2 ^ n" using d(3) by (intro power_increasing) auto
  finally have "unat d div 2 ^ n = 0" by simp
  then have "\<not> bit (unat d) n" by (simp add: bit_iff_odd)
  with d(2) show False by (simp add: bit_unsigned_iff bit_imp_le_length)
qed

lemma policy_bits:
  "bit (horizontalPolicy p) n \<longleftrightarrow> n < 4 \<and> bit p n"
  "bit (verticalPolicy p) n \<longleftrightarrow> n < 4 \<and> bit p (n + 4)"
  by (auto simp: horizontalPolicy_def verticalPolicy_def masks bit_simps HSize_def add.commute)

lemma set_policy_bits:
  "d < 16 \<Longrightarrow> n < 32 \<Longrightarrow> bit (setHorizontalPolicy d p) n \<longleftrightarrow> (if n < 4 then bit d n else bit p n)"
  "d < 16 \<Longrightarrow> n < 32 \<Longrightarrow>
    bit (setVerticalPolicy d p) n \<longleftrightarrow> (if 4 \<le> n \<and> n < 8 then bit d (n - 4) else bit p n)"
  by (auto simp: setHorizontalPolicy_def setVerticalPolicy_def masks bit_simps HSize_def HMask_def dest: small_bits)

lemma set_stretch_bits:
  "n < 32 \<Longrightarrow> bit (setHorizontalStretch s p) n \<longleftrightarrow> (if 24 \<le> n then bit s (n - 24) else bit p n)"
  "n < 32 \<Longrightarrow> bit (setVerticalStretch s p) n \<longleftrightarrow> (if 16 \<le> n \<and> n < 24 then bit s (n - 16) else bit p n)"
  by (auto simp: setHorizontalStretch_def setVerticalStretch_def masks bit_simps dest: bit_imp_le_length)

lemma flag_bits:
  "hasHeightForWidth p \<longleftrightarrow> bit p 8" "hasWidthForHeight p \<longleftrightarrow> bit p 14"
  by (simp_all only: hasHeightForWidth_def hasWidthForHeight_def WFHShift_def CTShift_def CTSize_def HSize_def
      push_bit_of_1 and_exp_eq_0_iff_not_bit) simp_all

lemma set_flag_bits:
  "n < 32 \<Longrightarrow> bit (setHeightForWidth b p) n \<longleftrightarrow> (if n = 8 then b else bit p n)"
  "n < 32 \<Longrightarrow> bit (setWidthForHeight b p) n \<longleftrightarrow> (if n = 14 then b else bit p n)"
  unfolding setHeightForWidth_def setWidthForHeight_def WFHShift_def CTShift_def CTSize_def HSize_def
    set_bit_eq_or [symmetric] unset_bit_eq_and_not [symmetric]
  by (simp_all add: bit_simps)

text \<open>Each field depends on its own bits only.\<close>

lemma field_cong:
  "(\<And>n. n < 4 \<Longrightarrow> bit p n = bit q n) \<Longrightarrow> horizontalPolicy p = horizontalPolicy q"
  "(\<And>n. 4 \<le> n \<Longrightarrow> n < 8 \<Longrightarrow> bit p n = bit q n) \<Longrightarrow> verticalPolicy p = verticalPolicy q"
  "(\<And>n. 9 \<le> n \<Longrightarrow> n < 14 \<Longrightarrow> bit p n = bit q n) \<Longrightarrow> controlType p = controlType q"
  "(\<And>n. 24 \<le> n \<Longrightarrow> n < 32 \<Longrightarrow> bit p n = bit q n) \<Longrightarrow> horizontalStretch p = horizontalStretch q"
  "(\<And>n. 16 \<le> n \<Longrightarrow> n < 24 \<Longrightarrow> bit p n = bit q n) \<Longrightarrow> verticalStretch p = verticalStretch q"
proof -
  show "horizontalPolicy p = horizontalPolicy q" if "\<And>n. n < 4 \<Longrightarrow> bit p n = bit q n"
    by (rule bit_eqI) (use that in \<open>auto simp: policy_bits\<close>)
  show "verticalPolicy p = verticalPolicy q" if "\<And>n. 4 \<le> n \<Longrightarrow> n < 8 \<Longrightarrow> bit p n = bit q n"
    by (rule bit_eqI) (use that in \<open>auto simp: policy_bits\<close>)
  show "controlType p = controlType q" if "\<And>n. 9 \<le> n \<Longrightarrow> n < 14 \<Longrightarrow> bit p n = bit q n"
  proof -
    have "p AND CTMask = q AND CTMask"
      by (rule bit_eqI) (use that in \<open>auto simp: masks bit_simps\<close>)
    then show ?thesis by (simp add: controlType_def)
  qed
  show "horizontalStretch p = horizontalStretch q" if "\<And>n. 24 \<le> n \<Longrightarrow> n < 32 \<Longrightarrow> bit p n = bit q n"
  proof -
    have "drop_bit 24 p = drop_bit 24 q"
    proof (rule bit_eqI)
      fix n
      show "bit (drop_bit 24 p) n = bit (drop_bit 24 q) n"
        using that [of "24 + n"] by (cases "24 + n < 32") (auto simp: bit_simps dest: bit_imp_le_length)
    qed
    then show ?thesis by (simp add: horizontalStretch_def)
  qed
  show "verticalStretch p = verticalStretch q" if "\<And>n. 16 \<le> n \<Longrightarrow> n < 24 \<Longrightarrow> bit p n = bit q n"
  proof -
    have "drop_bit 16 p AND 0xff = drop_bit 16 q AND 0xff"
      unfolding masks by (rule bit_eqI) (use that in \<open>auto simp: bit_simps\<close>)
    then show ?thesis by (simp add: verticalStretch_def)
  qed
qed

lemma uint_ucast8: "uint (ucast (s :: 8 word) :: 32 word) = uint s"
proof -
  have "uint s < 2 ^ 8" using uint_lt2p [of s] by simp
  then show ?thesis by (simp add: unsigned_ucast_eq take_bit_int_eq_self)
qed

lemma stretch_range: "uint (word_of_int (horizontalStretch p) :: 8 word) = horizontalStretch p"
  "uint (word_of_int (verticalStretch p) :: 8 word) = verticalStretch p"
proof -
  have "horizontalStretch p = uint p div 16777216"
    by (simp add: horizontalStretch_def drop_bit_eq_div uint_div)
  moreover have "0 \<le> uint p" "uint p < 4294967296" using uint_lt2p [of p] by simp_all
  ultimately have "0 \<le> horizontalStretch p" "horizontalStretch p < 256" by linarith+
  moreover have "0 \<le> verticalStretch p" "verticalStretch p < 256"
    using and_mask_lt_2p [of "drop_bit 16 p" 8] by (simp_all add: verticalStretch_def masks)
  ultimately show "uint (word_of_int (horizontalStretch p) :: 8 word) = horizontalStretch p"
    "uint (word_of_int (verticalStretch p) :: 8 word) = verticalStretch p"
    by (simp_all add: unsigned_of_int take_bit_int_eq_self)
qed

lemma set_get:
  "d < 16 \<Longrightarrow> horizontalPolicy (setHorizontalPolicy d p) = d"
  "d < 16 \<Longrightarrow> verticalPolicy (setVerticalPolicy d p) = d"
  "horizontalStretch (setHorizontalStretch s p) = uint s"
  "verticalStretch (setVerticalStretch s p) = uint s"
proof -
  show "horizontalPolicy (setHorizontalPolicy d p) = d" if "d < 16"
    by (rule bit_eqI) (use that small_bits in \<open>auto simp: policy_bits set_policy_bits\<close>)
  show "verticalPolicy (setVerticalPolicy d p) = d" if "d < 16"
  proof (rule bit_eqI)
    fix n
    show "bit (verticalPolicy (setVerticalPolicy d p)) n = bit d n"
      using that small_bits [OF that, of n] by (cases "n < 4") (auto simp: policy_bits set_policy_bits)
  qed
  have "drop_bit 24 (setHorizontalStretch s p) = ucast s"
  proof (rule bit_eqI)
    fix n
    show "bit (drop_bit 24 (setHorizontalStretch s p)) n = bit (ucast s :: 32 word) n"
      by (cases "24 + n < 32") (auto simp: bit_simps set_stretch_bits dest: bit_imp_le_length)
  qed
  then show "horizontalStretch (setHorizontalStretch s p) = uint s"
    by (simp add: horizontalStretch_def uint_ucast8)
  have "drop_bit 16 (setVerticalStretch s p) AND 0xff = ucast s"
    unfolding masks
  proof (rule bit_eqI)
    fix n
    show "bit (drop_bit 16 (setVerticalStretch s p) AND mask 8) n = bit (ucast s :: 32 word) n"
      by (cases "n < 8") (auto simp: bit_simps set_stretch_bits dest: bit_imp_le_length)
  qed
  then show "verticalStretch (setVerticalStretch s p) = uint s"
    by (simp add: verticalStretch_def uint_ucast8)
qed

lemma control_index_flag: "k < 32 \<Longrightarrow> i \<le> k \<Longrightarrow> control_index (push_bit k 1) i = Some k"
proof (induction "k - i" arbitrary: i)
  case 0
  then show ?case by (subst control_index.simps) (simp add: push_bit_of_1 and_exp_eq_0_iff_not_bit bit_simps)
next
  case (Suc n)
  then have "\<not> bit (push_bit k 1 :: 32 word) i" "i < 32" by (auto simp: bit_simps)
  with Suc show ?case
    by (subst control_index.simps) (simp add: push_bit_of_1 and_exp_eq_0_iff_not_bit)
qed

lemma control_bits:
  assumes "k < 32" "setControlType (push_bit k 1) p = Some q"
  shows "controlType q = push_bit k 1" "\<And>n. n < 9 \<or> 14 \<le> n \<Longrightarrow> bit q n = bit p n"
proof -
  have q: "q = (p AND NOT CTMask) OR push_bit CTShift (of_nat k)"
    using assms control_index_flag [OF assms(1), of 0] by (simp add: setControlType_def)
  have small: "n < 5" if "bit (of_nat k :: 32 word) n" for n
  proof (rule ccontr)
    assume "\<not> n < 5"
    then have "(32 :: nat) \<le> 2 ^ n" using power_increasing [of 5 n "2 :: nat"] by simp
    with assms(1) have "k div 2 ^ n = 0" by simp
    then have "\<not> bit k n" by (simp add: bit_iff_odd)
    with that show False by (simp add: bit_of_nat_iff)
  qed
  show "bit q n = bit p n" if "n < 9 \<or> 14 \<le> n" for n
    using that small [of "n - 9"] by (auto simp: q masks CTShift_def bit_simps dest: bit_imp_le_length)
  have "drop_bit CTShift (q AND CTMask) = of_nat k"
  proof (rule bit_eqI)
    fix n
    show "bit (drop_bit CTShift (q AND CTMask)) n = bit (of_nat k :: 32 word) n"
      using small [of n] by (cases "n < 5") (auto simp: q masks CTShift_def bit_simps)
  qed
  moreover have "unat (of_nat k :: 32 word) = k" using assms(1) by (simp add: unat_of_nat)
  ultimately show "controlType q = push_bit k 1" by (simp add: controlType_def)
qed

definition policy_fields :: "QSizePolicy \<Rightarrow> (Policy \<times> Policy) \<times> 32 word \<times> (bool \<times> bool) \<times> int \<times> int" where
  "policy_fields p = ((horizontalPolicy p, verticalPolicy p), controlType p,
    (hasHeightForWidth p, hasWidthForHeight p), horizontalStretch p, verticalStretch p)"

lemma policy_fields_set:
  "d < 16 \<Longrightarrow> policy_fields (setHorizontalPolicy d p) = ((d, verticalPolicy p), snd (policy_fields p))"
  "d < 16 \<Longrightarrow> policy_fields (setVerticalPolicy d p) = ((horizontalPolicy p, d), snd (policy_fields p))"
  "policy_fields (setHorizontalStretch s p) = ((horizontalPolicy p, verticalPolicy p), controlType p,
     (hasHeightForWidth p, hasWidthForHeight p), uint s, verticalStretch p)"
  "policy_fields (setVerticalStretch s p) = ((horizontalPolicy p, verticalPolicy p), controlType p,
     (hasHeightForWidth p, hasWidthForHeight p), horizontalStretch p, uint s)"
  by (auto simp: policy_fields_def set_get flag_bits set_policy_bits set_stretch_bits intro: field_cong)

lemmas policy_field_simps = policy_fields_set [unfolded policy_fields_def, simplified]

text \<open>
  The fields packed into a \<open>QSizePolicy\<close> are independent: each setter makes its getter return the value
  (a policy below 16, a control type with one bit, any stretch factor) and changes no other field;
  \<open>transpose\<close> exchanges the horizontal and vertical policies and stretch factors.
\<close>
theorem QSizePolicy_fields:
  assumes "d < 16" "k < 32" "setControlType (push_bit k 1) p = Some q"
  shows "policy_fields (setHorizontalPolicy d p) = ((d, verticalPolicy p), snd (policy_fields p)) \<and>
    policy_fields (setVerticalPolicy d p) = ((horizontalPolicy p, d), snd (policy_fields p)) \<and>
    policy_fields q = (fst (policy_fields p), push_bit k 1, snd (snd (policy_fields p))) \<and>
    policy_fields (setHeightForWidth b p) = (fst (policy_fields p), controlType p,
      (b, hasWidthForHeight p), horizontalStretch p, verticalStretch p) \<and>
    policy_fields (setWidthForHeight b p) = (fst (policy_fields p), controlType p,
      (hasHeightForWidth p, b), horizontalStretch p, verticalStretch p) \<and>
    policy_fields (setHorizontalStretch s p) = (fst (policy_fields p), controlType p,
      (hasHeightForWidth p, hasWidthForHeight p), uint s, verticalStretch p) \<and>
    policy_fields (setVerticalStretch s p) = (fst (policy_fields p), controlType p,
      (hasHeightForWidth p, hasWidthForHeight p), horizontalStretch p, uint s) \<and>
    policy_fields (QSizePolicy_transpose p) = ((verticalPolicy p, horizontalPolicy p), controlType p,
      (hasHeightForWidth p, hasWidthForHeight p), verticalStretch p, horizontalStretch p)"
proof (intro conjI)
  have "verticalPolicy x = drop_bit 4 x AND mask 4" for x
    by (rule bit_eqI) (auto simp: policy_bits bit_simps add.commute)
  then have small: "horizontalPolicy x < 16" "verticalPolicy x < 16" for x
    using and_mask_less' [of 4 x] and_mask_less' [of 4 "drop_bit 4 x"] by (simp_all add: horizontalPolicy_def masks)
  show "policy_fields (QSizePolicy_transpose p) = ((verticalPolicy p, horizontalPolicy p), controlType p,
      (hasHeightForWidth p, hasWidthForHeight p), verticalStretch p, horizontalStretch p)"
    using small by (simp add: QSizePolicy_transpose_def Let_def policy_fields_def policy_field_simps stretch_range)
qed (use assms control_bits [OF assms(2,3)] in
  \<open>auto simp: policy_fields_set, auto simp: policy_fields_def flag_bits set_flag_bits intro: field_cong\<close>)

theorem QSizePolicy_fields_witness:
  "\<exists>q. setControlType (push_bit 3 1) 0x12345 = Some q \<and>
    policy_fields q = (fst (policy_fields 0x12345), push_bit 3 1, snd (snd (policy_fields 0x12345)))"
proof -
  obtain q where q: "setControlType (push_bit 3 1) 0x12345 = Some q"
    using control_index_flag [of 3 0] by (auto simp: setControlType_def)
  with QSizePolicy_fields [of 7 3 "0x12345" q] show ?thesis by auto
qed

section \<open>Minimum and maximum fit together\<close>







text \<open>\<open>qMaxExpCalc\<close>: combining an expansive box keeps the chain expansive, its maximum is one of the two.\<close>

lemma qMaxExpCalc_result:
  "qMaxExpCalc (mx, expd, emp) boxmax boxexp boxempty = (m, e, p) \<Longrightarrow>
   (e \<longleftrightarrow> expd \<or> boxexp) \<and> (p \<longleftrightarrow> emp \<and> boxempty) \<and> (m = mx \<or> m = boxmax) \<and>
   (expd \<and> boxexp \<longrightarrow> m = max mx boxmax) \<and> (expd \<noteq> boxexp \<longrightarrow> m = (if expd then mx else boxmax))"
  by (auto simp: qMaxExpCalc_def Let_def max_def min_def split: if_splits)

end
