(* ===== verification/LinearBuffer.thy ===== *)
theory LinearBuffer
  imports ByteArray Refinement
begin

text \<open>
  \<open>QIODevicePrivateLinearBuffer\<close> (src/src/core/io/qiodevice\_p.h), the read buffer of \<open>QIODevice\<close>: the unread
  bytes lie in the allocated array \<open>buf\<close> from the offset \<open>first\<close> on, so that bytes can be put back in
  front of them.  \<open>B\<close> is \<open>QIODEVICE_BUFFERSIZE\<close>, a positive constant of the C library, \<open>junk\<close> the contents of
  newly allocated memory; a copy outside of the array is \<open>None\<close>.
\<close>

record LinearBuffer =
  len :: nat
  first :: nat
  buf :: "byte list"

definition new_LinearBuffer :: LinearBuffer where
  "new_LinearBuffer = \<lparr>len = 0, first = 0, buf = []\<rparr>"

definition lb_clear :: "LinearBuffer \<Rightarrow> LinearBuffer" where
  "lb_clear b = b\<lparr>first := 0, len := 0\<rparr>"

definition lb_size :: "LinearBuffer \<Rightarrow> nat" where
  "lb_size b = len b"

definition lb_isEmpty :: "LinearBuffer \<Rightarrow> bool" where
  "lb_isEmpty b \<longleftrightarrow> len b = 0"

definition lb_skip :: "nat \<Rightarrow> LinearBuffer \<Rightarrow> LinearBuffer" where
  "lb_skip n b = (if n \<ge> len b then lb_clear b else b\<lparr>len := len b - n, first := first b + n\<rparr>)"

definition lb_getChar :: "LinearBuffer \<Rightarrow> int \<times> LinearBuffer" where
  "lb_getChar b =
    (if len b = 0 then (-1, b) else (uint (buf b ! first b), b\<lparr>len := len b - 1, first := first b + 1\<rparr>))"

definition lb_read :: "nat \<Rightarrow> LinearBuffer \<Rightarrow> byte list \<times> LinearBuffer" where
  "lb_read n b =
    (let r = min n (len b) in (take r (drop (first b) (buf b)), b\<lparr>len := len b - r, first := first b + r\<rparr>))"

definition lb_peek :: "nat \<Rightarrow> LinearBuffer \<Rightarrow> byte list" where
  "lb_peek n b = take (min n (len b)) (drop (first b) (buf b))"

definition lb_chop :: "nat \<Rightarrow> LinearBuffer \<Rightarrow> LinearBuffer" where
  "lb_chop n b = (if n \<ge> len b then lb_clear b else b\<lparr>len := len b - n\<rparr>)"

definition lb_readAll :: "LinearBuffer \<Rightarrow> byte list \<times> LinearBuffer" where
  "lb_readAll b = (let f = first b; l = len b in (take l (drop f (buf b)), lb_clear b))"

definition lb_newline :: byte where
  "lb_newline = 0x0A"

definition lb_readLine :: "nat \<Rightarrow> LinearBuffer \<Rightarrow> byte list \<times> LinearBuffer" where
  "lb_readLine n b =
    (let r = min n (len b);
         before = takeWhile (\<lambda>c. c \<noteq> lb_newline) (take r (drop (first b) (buf b)));
         r = (if length before < r then 1 + length before else r)
     in (take r (drop (first b) (buf b)), b\<lparr>len := len b - r, first := first b + r\<rparr>))"

definition lb_canReadLine :: "LinearBuffer \<Rightarrow> bool" where
  "lb_canReadLine b \<longleftrightarrow> lb_newline \<in> set (take (len b) (drop (first b) (buf b)))"

datatype FreeSpacePos = freeSpaceAtStart | freeSpaceAtEnd

function new_capacity :: "nat \<Rightarrow> nat \<Rightarrow> nat" where
  "new_capacity required newCapacity =
    (if newCapacity < required \<and> 0 < newCapacity then new_capacity required (newCapacity * 2) else newCapacity)"
  by pat_completeness auto
termination by (relation "measure (\<lambda>(required, newCapacity). required - newCapacity)") auto

declare new_capacity.simps [simp del]

definition makeSpace ::
  "nat \<Rightarrow> (nat \<Rightarrow> byte) \<Rightarrow> nat \<Rightarrow> FreeSpacePos \<Rightarrow> LinearBuffer \<Rightarrow> LinearBuffer option" where
  "makeSpace B junk required pos b =
    (let capacity = length (buf b);
         newCapacity = new_capacity required (max capacity B);
         moveOffset = (if pos = freeSpaceAtEnd then 0 else newCapacity - len b);
         data = take (len b) (drop (first b) (buf b));
         target = (if newCapacity > capacity then map junk [0..<newCapacity] else buf b)
     in map_option (\<lambda>xs. b\<lparr>buf := xs, first := moveOffset\<rparr>) (memmove moveOffset data target))"

text \<open>\<open>reserve\<close> and the copy of the caller to the returned pointer.\<close>

definition lb_reserve :: "nat \<Rightarrow> (nat \<Rightarrow> byte) \<Rightarrow> nat \<Rightarrow> LinearBuffer \<Rightarrow> (LinearBuffer \<times> nat) option" where
  "lb_reserve B junk n b =
    map_option (\<lambda>b. (b\<lparr>len := len b + n\<rparr>, first b + len b)) (makeSpace B junk (n + len b) freeSpaceAtEnd b)"

definition lb_append :: "nat \<Rightarrow> (nat \<Rightarrow> byte) \<Rightarrow> byte list \<Rightarrow> LinearBuffer \<Rightarrow> LinearBuffer option" where
  "lb_append B junk data b =
    (case lb_reserve B junk (length data) b of
       None \<Rightarrow> None
     | Some (b, writePtr) \<Rightarrow> map_option (\<lambda>xs. b\<lparr>buf := xs\<rparr>) (memmove writePtr data (buf b)))"

definition lb_ungetChar :: "nat \<Rightarrow> (nat \<Rightarrow> byte) \<Rightarrow> byte \<Rightarrow> LinearBuffer \<Rightarrow> LinearBuffer option" where
  "lb_ungetChar B junk c b =
    (case (if first b = 0 then makeSpace B junk (len b + 1) freeSpaceAtStart b else Some b) of
       None \<Rightarrow> None
     | Some b \<Rightarrow>
        (if first b = 0 then None
         else Some (b\<lparr>first := first b - 1, len := len b + 1, buf := (buf b)[first b - 1 := c]\<rparr>)))"

definition lb_ungetBlock :: "nat \<Rightarrow> (nat \<Rightarrow> byte) \<Rightarrow> byte list \<Rightarrow> LinearBuffer \<Rightarrow> LinearBuffer option" where
  "lb_ungetBlock B junk block b =
    (case (if first b < length block then makeSpace B junk (len b + length block) freeSpaceAtStart b else Some b) of
       None \<Rightarrow> None
     | Some b \<Rightarrow>
        (if first b < length block then None
         else map_option (\<lambda>xs. b\<lparr>first := first b - length block, len := len b + length block, buf := xs\<rparr>)
                (memmove (first b - length block) block (buf b))))"

section \<open>The unread bytes\<close>

definition unread :: "LinearBuffer \<Rightarrow> byte list" where
  "unread b = take (len b) (drop (first b) (buf b))"

definition lb_wf :: "LinearBuffer \<Rightarrow> bool" where
  "lb_wf b \<longleftrightarrow> first b + len b \<le> length (buf b)"

lemma length_unread: "lb_wf b \<Longrightarrow> length (unread b) = len b"
  by (simp add: unread_def lb_wf_def)

lemma new_lb: "lb_wf new_LinearBuffer" "unread new_LinearBuffer = []"
  by (simp_all add: new_LinearBuffer_def lb_wf_def unread_def)

lemma lb_clear_ok [simp]: "lb_wf (lb_clear b)" "unread (lb_clear b) = []"
  by (simp_all add: lb_clear_def lb_wf_def unread_def)

lemma lb_skip_ok: "lb_wf b \<Longrightarrow> lb_wf (lb_skip n b) \<and> unread (lb_skip n b) = drop n (unread b)"
  by (auto simp: lb_skip_def lb_clear_def lb_wf_def unread_def drop_take add.commute)

lemma lb_read_ok:
  "lb_wf b \<Longrightarrow> lb_read n b = (xs, c) \<Longrightarrow> lb_wf c \<and> xs = take n (unread b) \<and> unread c = drop n (unread b)"
  by (auto simp: lb_read_def lb_wf_def unread_def drop_take min_def Let_def add.commute)

lemma lb_getChar_ok:
  "lb_wf b \<Longrightarrow> lb_getChar b = (c, d) \<Longrightarrow> lb_wf d \<and>
   (case unread b of [] \<Rightarrow> c = -1 \<and> d = b | x # xs \<Rightarrow> c = uint x \<and> unread d = xs)"
  by (cases "len b") (auto simp: lb_getChar_def lb_wf_def unread_def Cons_nth_drop_Suc [symmetric])

lemma lb_peek_ok: "lb_wf b \<Longrightarrow> lb_peek n b = take n (unread b)"
  by (simp add: lb_peek_def unread_def min.commute)

lemma lb_chop_ok: "lb_wf b \<Longrightarrow> lb_wf (lb_chop n b) \<and> unread (lb_chop n b) = take (length (unread b) - n) (unread b)"
  using length_unread [of b] by (auto simp: lb_chop_def lb_clear_def lb_wf_def) (simp_all add: unread_def)

lemma new_capacity_ok:
  "0 < cap \<Longrightarrow> required \<le> new_capacity required cap \<and> cap \<le> new_capacity required cap"
proof (induction required cap rule: new_capacity.induct)
  case (1 required cap)
  then show ?case by (subst (1 2) new_capacity.simps) auto
qed

text \<open>\<open>makeSpace\<close> keeps the unread bytes and leaves the free space where it is asked for.\<close>

lemma makeSpace_ok:
  assumes "lb_wf b" "0 < B" "len b \<le> required"
  shows "\<exists>c. makeSpace B junk required pos b = Some c \<and> lb_wf c \<and> unread c = unread b \<and> len c = len b \<and>
    required \<le> length (buf c) \<and> first c = (if pos = freeSpaceAtEnd then 0 else length (buf c) - len b)"
proof -
  define n where "n = new_capacity required (max (length (buf b)) B)"
  have n: "required \<le> n" "length (buf b) \<le> n"
    using new_capacity_ok [of "max (length (buf b)) B" required] assms(2) by (auto simp: n_def)
  define m where "m = (if pos = freeSpaceAtEnd then 0 else n - len b)"
  define target where "target = (if n > length (buf b) then map junk [0..<n] else buf b)"
  have t: "length target = n" using n by (auto simp: target_def)
  have l: "length (unread b) = len b" by (rule length_unread [OF assms(1)])
  have fits: "m + len b \<le> n" using n(1) assms(3) by (simp add: m_def)
  define c where "c = b\<lparr>buf := take m target @ unread b @ drop (m + len b) target, first := m\<rparr>"
  have "makeSpace B junk required pos b = Some c"
    unfolding makeSpace_def Let_def n_def [symmetric] m_def [symmetric] target_def [symmetric] unread_def [symmetric]
    using fits l t by (simp add: memmove_def c_def)
  moreover have b: "length (buf c) = n" using fits l t by (simp add: c_def)
  moreover have "unread c = unread b" using fits l t unfolding unread_def [of c] by (simp add: c_def)
  moreover have "lb_wf c" using fits b by (simp add: lb_wf_def c_def)
  moreover have "first c = m" "len c = len b" by (simp_all add: c_def)
  ultimately show ?thesis using n(1) by (simp add: m_def)
qed

lemma lb_append_ok:
  assumes "lb_wf b" "0 < B"
  shows "\<exists>c. lb_append B junk data b = Some c \<and> lb_wf c \<and> unread c = unread b @ data"
proof -
  obtain c where c: "makeSpace B junk (length data + len b) freeSpaceAtEnd b = Some c" "lb_wf c"
    "unread c = unread b" "len c = len b" "length data + len b \<le> length (buf c)" "first c = 0"
    using makeSpace_ok [OF assms, of "length data + len b" junk freeSpaceAtEnd] by auto
  define d where "d = c\<lparr>len := len c + length data, buf := take (len c) (buf c) @ data @ drop (len c + length data) (buf c)\<rparr>"
  have "lb_append B junk data b = Some d"
    using c(1,4,5,6) by (simp add: lb_append_def lb_reserve_def memmove_def d_def)
  moreover have "lb_wf d" "unread d = unread c @ data" using c(4-6) by (simp_all add: d_def lb_wf_def unread_def)
  ultimately show ?thesis using c(3) by simp
qed

lemma lb_ungetBlock_ok:
  assumes "lb_wf b" "0 < B"
  shows "\<exists>c. lb_ungetBlock B junk block b = Some c \<and> lb_wf c \<and> unread c = block @ unread b"
proof -
  obtain c where c: "(if first b < length block then makeSpace B junk (len b + length block) freeSpaceAtStart b
      else Some b) = Some c" "lb_wf c" "unread c = unread b" "len c = len b" "length block \<le> first c"
    using makeSpace_ok [OF assms, of "len b + length block" junk freeSpaceAtStart] assms(1)
    by (cases "first b < length block") auto
  define f where "f = first c - length block"
  have f: "first c = f + length block" using c(5) by (simp add: f_def)
  define d where "d = c\<lparr>first := f, len := len c + length block, buf := take f (buf c) @ block @ drop (first c) (buf c)\<rparr>"
  have "lb_ungetBlock B junk block b = Some d"
    using c(1,2) f unfolding lb_ungetBlock_def by (simp add: memmove_def d_def lb_wf_def)
  moreover have "lb_wf d" "unread d = block @ unread c" using c(2) f by (simp_all add: d_def lb_wf_def unread_def)
  ultimately show ?thesis using c(3) by simp
qed

lemma lb_ungetChar_ok:
  assumes "lb_wf b" "0 < B"
  shows "\<exists>c. lb_ungetChar B junk x b = Some c \<and> lb_wf c \<and> unread c = x # unread b"
proof -
  obtain c where c: "(if first b = 0 then makeSpace B junk (len b + 1) freeSpaceAtStart b else Some b) = Some c"
    "lb_wf c" "unread c = unread b" "len c = len b" "0 < first c"
    using makeSpace_ok [OF assms, of "len b + 1" junk freeSpaceAtStart] assms(1)
    by (cases "first b = 0") auto
  then obtain f where f: "first c = Suc f" by (cases "first c") auto
  have "drop f ((buf c)[f := x]) = x # drop (Suc f) (buf c)"
    using c(2) f by (simp add: lb_wf_def Cons_nth_drop_Suc [symmetric])
  moreover define d where "d = c\<lparr>first := f, len := len c + 1, buf := (buf c)[f := x]\<rparr>"
  moreover have "lb_ungetChar B junk x b = Some d"
    using c(1) f unfolding lb_ungetChar_def by (simp add: d_def)
  ultimately have "lb_ungetChar B junk x b = Some d" "lb_wf d" "unread d = x # unread c"
    using c(2) f by (simp_all add: lb_wf_def unread_def)
  with c(3) show ?thesis by simp
qed

text \<open>A line: up to and with the first newline of the next \<open>n\<close> bytes, or all of them.\<close>

definition first_line :: "nat \<Rightarrow> byte list \<Rightarrow> byte list" where
  "first_line n xs =
    (if lb_newline \<in> set (take n xs) then takeWhile (\<lambda>c. c \<noteq> lb_newline) (take n xs) @ [lb_newline] else take n xs)"

lemma takeWhile_line:
  "(length (takeWhile (\<lambda>c. c \<noteq> x) xs) < length xs \<longleftrightarrow> x \<in> set xs) \<and>
   (x \<in> set xs \<longrightarrow> take (Suc (length (takeWhile (\<lambda>c. c \<noteq> x) xs))) xs = takeWhile (\<lambda>c. c \<noteq> x) xs @ [x])"
  by (induction xs) auto

lemma lb_readLine_ok:
  assumes "lb_wf b" "lb_readLine n b = (xs, c)"
  shows "lb_wf c" "xs = first_line n (unread b)" "unread c = drop (length xs) (unread b)"
proof -
  define r where "r = min n (len b)"
  define chunk where "chunk = take r (drop (first b) (buf b))"
  have chunk: "chunk = take n (unread b)" "length chunk = r" "r \<le> len b"
    using assms(1) by (simp_all add: chunk_def unread_def r_def lb_wf_def)
  define before where "before = takeWhile (\<lambda>c. c \<noteq> lb_newline) chunk"
  define k where "k = (if length before < r then 1 + length before else r)"
  have x: "xs = take k (drop (first b) (buf b))" "c = b\<lparr>len := len b - k, first := first b + k\<rparr>"
    using assms(2) unfolding lb_readLine_def Let_def r_def [symmetric] chunk_def [symmetric]
      before_def [symmetric] k_def [symmetric] by auto
  have k: "k \<le> r" by (simp add: k_def)
  show "lb_wf c" using assms(1) k chunk(3) by (simp add: x(2) lb_wf_def)
  have "xs = take k chunk" using k by (simp add: x(1) chunk_def)
  then show "xs = first_line n (unread b)"
    using takeWhile_line [of lb_newline chunk] chunk(2)
    unfolding first_line_def chunk(1) [symmetric] k_def before_def by auto
  have "length xs = k" using \<open>xs = take k chunk\<close> k chunk(2) by simp
  then show "unread c = drop (length xs) (unread b)"
    by (simp add: x(2) unread_def drop_take add.commute)
qed

section \<open>A list of bytes\<close>

datatype lb_op = LClear | LSkip nat | LGetChar | LRead nat | LPeek nat | LReadAll | LReadLine nat | LCanReadLine |
  LAppend "byte list" | LChop nat | LUngetChar byte | LUngetBlock "byte list" | LSize | LIsEmpty

fun unread_step :: "lb_op \<Rightarrow> byte list \<Rightarrow> (int \<times> byte list) \<times> byte list" where
  "unread_step LClear xs = ((0, []), [])"
| "unread_step (LSkip n) xs = ((0, []), drop n xs)"
| "unread_step LGetChar xs = (case xs of [] \<Rightarrow> ((-1, []), []) | x # ys \<Rightarrow> ((uint x, []), ys))"
| "unread_step (LRead n) xs = ((0, take n xs), drop n xs)"
| "unread_step (LPeek n) xs = ((0, take n xs), xs)"
| "unread_step LReadAll xs = ((0, xs), [])"
| "unread_step (LReadLine n) xs = ((0, first_line n xs), drop (length (first_line n xs)) xs)"
| "unread_step LCanReadLine xs = ((of_bool (lb_newline \<in> set xs), []), xs)"
| "unread_step (LAppend data) xs = ((0, []), xs @ data)"
| "unread_step (LChop n) xs = ((0, []), take (length xs - n) xs)"
| "unread_step (LUngetChar c) xs = ((0, []), c # xs)"
| "unread_step (LUngetBlock cs) xs = ((0, []), cs @ xs)"
| "unread_step LSize xs = ((int (length xs), []), xs)"
| "unread_step LIsEmpty xs = ((of_bool (xs = []), []), xs)"

fun lb_step :: "nat \<Rightarrow> (nat \<Rightarrow> byte) \<Rightarrow> lb_op \<Rightarrow> LinearBuffer \<Rightarrow> ((int \<times> byte list) \<times> LinearBuffer) option" where
  "lb_step B junk LClear b = Some ((0, []), lb_clear b)"
| "lb_step B junk (LSkip n) b = Some ((0, []), lb_skip n b)"
| "lb_step B junk LGetChar b = (let (c, b) = lb_getChar b in Some ((c, []), b))"
| "lb_step B junk (LRead n) b = (let (xs, b) = lb_read n b in Some ((0, xs), b))"
| "lb_step B junk (LPeek n) b = Some ((0, lb_peek n b), b)"
| "lb_step B junk LReadAll b = (let (xs, b) = lb_readAll b in Some ((0, xs), b))"
| "lb_step B junk (LReadLine n) b = (let (xs, b) = lb_readLine n b in Some ((0, xs), b))"
| "lb_step B junk LCanReadLine b = Some ((of_bool (lb_canReadLine b), []), b)"
| "lb_step B junk (LAppend data) b = map_option (Pair (0, [])) (lb_append B junk data b)"
| "lb_step B junk (LChop n) b = Some ((0, []), lb_chop n b)"
| "lb_step B junk (LUngetChar c) b = map_option (Pair (0, [])) (lb_ungetChar B junk c b)"
| "lb_step B junk (LUngetBlock cs) b = map_option (Pair (0, [])) (lb_ungetBlock B junk cs b)"
| "lb_step B junk LSize b = Some ((int (lb_size b), []), b)"
| "lb_step B junk LIsEmpty b = Some ((of_bool (lb_isEmpty b), []), b)"

lemma unread_Nil: "lb_wf b \<Longrightarrow> unread b = [] \<longleftrightarrow> len b = 0"
  by (metis length_unread length_0_conv)

lemma lb_step_refines:
  assumes "0 < B" "lb_wf b" "unread_step op (unread b) = (out, xs)"
  shows "\<exists>c. lb_step B junk op b = Some (out, c) \<and> lb_wf c \<and> unread c = xs"
proof (cases op)
  case LGetChar
  then show ?thesis using assms lb_getChar_ok [OF assms(2)] by (cases "lb_getChar b") (fastforce split: list.splits)
next
  case (LRead n)
  then show ?thesis using assms lb_read_ok [OF assms(2), of n] by (cases "lb_read n b") auto
next
  case (LReadLine n)
  then show ?thesis using assms lb_readLine_ok [OF assms(2), of n] by (cases "lb_readLine n b") auto
next
  case (LAppend data)
  then show ?thesis using assms lb_append_ok [OF assms(2,1), of junk data] by auto
next
  case (LUngetChar c)
  then show ?thesis using assms lb_ungetChar_ok [OF assms(2,1), of junk c] by auto
next
  case (LUngetBlock cs)
  then show ?thesis using assms lb_ungetBlock_ok [OF assms(2,1), of junk cs] by auto
next
  case LReadAll
  then show ?thesis using assms by (auto simp: lb_readAll_def unread_def [symmetric])
qed (use assms lb_skip_ok lb_chop_ok in \<open>auto simp: lb_peek_ok lb_size_def length_unread lb_isEmpty_def
  unread_Nil lb_canReadLine_def unread_def [symmetric]\<close>)

interpretation linear_buffer: refinement "lb_step (Suc k) junk" unread_step "\<lambda>op xs. True" lb_wf unread for k junk
  by unfold_locales (rule lb_step_refines, simp_all)

lemma always_admissible: "admissible (\<lambda>op a. True) spec ops a"
  by (induction ops arbitrary: a) auto

text \<open>
  The linear buffer behind \<open>QIODevice\<close> refines the list of its unread bytes: every sequence of its
  operations, those that put bytes back in front included, copies within the allocated memory and
  gives the results of the same operations on the list.
\<close>
theorem LinearBuffer_refines_bytes:
  assumes "0 < B" "run_spec unread_step ops [] = (outs, xs)"
  shows "\<exists>b. run_steps (lb_step B junk) ops new_LinearBuffer = Some (outs, b) \<and> lb_wf b \<and> unread b = xs"
proof -
  obtain k where B: "B = Suc k" using assms(1) by (cases B) auto
  show ?thesis
    using linear_buffer.run_refines [OF new_lb(1), of ops outs xs k junk] always_admissible [of unread_step ops "[]"] assms(2)
    unfolding new_lb(2) B by blast
qed

theorem LinearBuffer_refines_bytes_witness:
  "\<exists>b. run_steps (lb_step 4 (\<lambda>i. 0xCD))
      [LAppend [1, 2, 3, 4, 5], LGetChar, LUngetChar 9, LUngetBlock [7, 10, 8], LReadLine 5, LRead 2, LChop 1, LReadAll]
      new_LinearBuffer =
    Some ([(0, []), (1, []), (0, []), (0, []), (0, [7, 10]), (0, [8, 9]), (0, []), (0, [2, 3, 4])], b) \<and>
    lb_wf b \<and> unread b = []"
  by (rule LinearBuffer_refines_bytes) (simp_all add: first_line_def lb_newline_def Let_def)

end
