(* ===== verification/IODevice.thy ===== *)
theory IODevice
  imports LinearBuffer
begin

text \<open>
  \<open>QIODevice\<close> (src/src/core/io/qiodevice.cpp) on a \<open>QBuffer\<close> (qbuffer.cpp), the random-access device that
  reads and writes a \<open>QByteArray\<close>.  The virtual functions are those of \<open>QBuffer\<close>; \<open>QBuffer::seek\<close>, which
  \<open>read\<close> and \<open>write\<close> of the base class call and which itself calls \<open>write\<close>, is their parameter \<open>seekf\<close>.

  Results: \<open>None\<close> where the code copies outside of the array, else the value returned, the bytes
  stored at the caller's pointer and the device.  Numbers are \<open>int\<close> (\<open>qint64\<close>); memory allocation
  succeeds.  The signals of \<open>QBuffer\<close> and the warnings are not part of the state.
\<close>

unbundle bit_operations_syntax

type_synonym OpenMode = "32 word"

definition NotOpen :: OpenMode where "NotOpen = 0x0000"
definition ReadOnly :: OpenMode where "ReadOnly = 0x0001"
definition WriteOnly :: OpenMode where "WriteOnly = 0x0002"
definition ReadWrite :: OpenMode where "ReadWrite = ReadOnly OR WriteOnly"
definition AppendMode :: OpenMode where "AppendMode = 0x0004"
definition TruncateMode :: OpenMode where "TruncateMode = 0x0008"
definition TextMode :: OpenMode where "TextMode = 0x0010"

record QIODevice =
  openMode :: OpenMode
  buffer :: LinearBuffer
  dpos :: int
  devicePos :: int
  baseReadLineDataCalled :: bool
  contents :: "byte list"

definition new_QBuffer :: "byte list \<Rightarrow> QIODevice" where
  "new_QBuffer data = \<lparr>openMode = NotOpen, buffer = new_LinearBuffer, dpos = 0, devicePos = 0,
    baseReadLineDataCalled = False, contents = data\<rparr>"

definition isOpen :: "QIODevice \<Rightarrow> bool" where
  "isOpen d \<longleftrightarrow> openMode d \<noteq> NotOpen"

definition isReadable :: "QIODevice \<Rightarrow> bool" where
  "isReadable d \<longleftrightarrow> openMode d AND ReadOnly \<noteq> 0"

definition isWritable :: "QIODevice \<Rightarrow> bool" where
  "isWritable d \<longleftrightarrow> openMode d AND WriteOnly \<noteq> 0"

definition isTextModeEnabled :: "QIODevice \<Rightarrow> bool" where
  "isTextModeEnabled d \<longleftrightarrow> openMode d AND TextMode \<noteq> 0"

definition setOpenMode :: "OpenMode \<Rightarrow> QIODevice \<Rightarrow> QIODevice" where
  "setOpenMode mode d =
    (let d = d\<lparr>openMode := mode\<rparr> in if \<not> isReadable d then d\<lparr>buffer := lb_clear (buffer d)\<rparr> else d)"

definition setTextModeEnabled :: "bool \<Rightarrow> QIODevice \<Rightarrow> QIODevice" where
  "setTextModeEnabled enabled d =
    (if \<not> isOpen d then d
     else if enabled then d\<lparr>openMode := openMode d OR TextMode\<rparr>
     else d\<lparr>openMode := openMode d AND NOT TextMode\<rparr>)"

definition QBuffer_size :: "QIODevice \<Rightarrow> int" where
  "QBuffer_size d = int (length (contents d))"

definition QIODevice_open :: "OpenMode \<Rightarrow> QIODevice \<Rightarrow> bool \<times> QIODevice" where
  "QIODevice_open mode d =
    (let d = d\<lparr>openMode := mode\<rparr>;
         d = d\<lparr>dpos := (if mode AND AppendMode \<noteq> 0 then QBuffer_size d else 0)\<rparr>
     in (True, d\<lparr>buffer := lb_clear (buffer d)\<rparr>))"

definition QBuffer_open :: "OpenMode \<Rightarrow> QIODevice \<Rightarrow> bool \<times> QIODevice" where
  "QBuffer_open flags d =
    (let flags = (if flags AND (AppendMode OR TruncateMode) \<noteq> 0 then flags OR WriteOnly else flags) in
     if flags AND (ReadOnly OR WriteOnly) = 0 then (False, d)
     else
       (let d = (if flags AND TruncateMode = TruncateMode then d\<lparr>contents := []\<rparr> else d)
        in QIODevice_open flags d))"

definition QIODevice_close :: "QIODevice \<Rightarrow> QIODevice" where
  "QIODevice_close d =
    (if openMode d = NotOpen then d else d\<lparr>openMode := NotOpen, dpos := 0, buffer := lb_clear (buffer d)\<rparr>)"

definition QIODevice_pos :: "QIODevice \<Rightarrow> int" where
  "QIODevice_pos d = dpos d"

definition bytesAvailable :: "QIODevice \<Rightarrow> int" where
  "bytesAvailable d = max (QBuffer_size d - dpos d) 0"

definition QIODevice_atEnd :: "QIODevice \<Rightarrow> bool" where
  "QIODevice_atEnd d \<longleftrightarrow> openMode d = NotOpen \<or> (lb_isEmpty (buffer d) \<and> bytesAvailable d = 0)"

definition QBuffer_setData :: "byte list \<Rightarrow> QIODevice \<Rightarrow> QIODevice" where
  "QBuffer_setData data d = (if isOpen d then d else d\<lparr>contents := data\<rparr>)"

definition QBuffer_setBuffer :: "byte list option \<Rightarrow> QIODevice \<Rightarrow> QIODevice" where
  "QBuffer_setBuffer byteArray d =
    (if isOpen d then d
     else (case byteArray of Some data \<Rightarrow> d\<lparr>contents := data\<rparr> | None \<Rightarrow> d\<lparr>contents := []\<rparr>))"

section \<open>The data of the buffer\<close>

definition QBuffer_readData :: "int \<Rightarrow> QIODevice \<Rightarrow> (int \<times> byte list) option" where
  "QBuffer_readData maxlen d =
    (let n = min maxlen (QBuffer_size d - dpos d) in
     if n \<le> 0 then Some (0, [])
     else if dpos d < 0 then None
     else Some (n, take (nat n) (drop (nat (dpos d)) (contents d))))"

definition QBuffer_writeData :: "(nat \<Rightarrow> byte) \<Rightarrow> byte list \<Rightarrow> QIODevice \<Rightarrow> (int \<times> QIODevice) option" where
  "QBuffer_writeData junk data d =
    (let extraBytes = dpos d + int (length data) - QBuffer_size d;
         d = (if extraBytes > 0 then
                d\<lparr>contents := QByteArray_resize junk (contents d) (nat (QBuffer_size d + extraBytes))\<rparr>
              else d)
     in if dpos d < 0 then None
        else map_option (\<lambda>xs. (int (length data), d\<lparr>contents := xs\<rparr>)) (memmove (nat (dpos d)) data (contents d)))"

section \<open>Position\<close>

definition QIODevice_seek :: "int \<Rightarrow> QIODevice \<Rightarrow> bool \<times> QIODevice" where
  "QIODevice_seek pos d =
    (if openMode d = NotOpen then (False, d)
     else if pos < 0 then (False, d)
     else
       (let offset = pos - dpos d;
            d = d\<lparr>dpos := pos, devicePos := pos\<rparr>
        in if offset < 0 \<or> offset \<ge> int (lb_size (buffer d)) then (True, d\<lparr>buffer := lb_clear (buffer d)\<rparr>)
           else if \<not> lb_isEmpty (buffer d) then (True, d\<lparr>buffer := lb_skip (nat offset) (buffer d)\<rparr>)
           else (True, d)))"

definition QIODevice_write ::
  "(int \<Rightarrow> QIODevice \<Rightarrow> (bool \<times> QIODevice) option) \<Rightarrow> (nat \<Rightarrow> byte) \<Rightarrow> byte list \<Rightarrow> QIODevice \<Rightarrow>
    (int \<times> QIODevice) option" where
  "QIODevice_write seekf junk data d =
    (if openMode d AND WriteOnly = 0 then Some (-1, d)
     else
       (case (if dpos d \<noteq> devicePos d then seekf (dpos d) d else Some (True, d)) of
          None \<Rightarrow> None
        | Some (False, d) \<Rightarrow> Some (-1, d)
        | Some (True, d) \<Rightarrow>
            (case QBuffer_writeData junk data d of
               None \<Rightarrow> None
             | Some (written, d) \<Rightarrow>
                 Some (written,
                   if written > 0 then
                     (let d = d\<lparr>dpos := dpos d + written, devicePos := devicePos d + written\<rparr>
                      in if \<not> lb_isEmpty (buffer d) then d\<lparr>buffer := lb_skip (nat written) (buffer d)\<rparr> else d)
                   else d))))"

text \<open>
  \<open>QBuffer::seek\<close>: the calls it makes itself go to a position within the data, the first definition.
\<close>

definition QBuffer_seek_within :: "int \<Rightarrow> QIODevice \<Rightarrow> (bool \<times> QIODevice) option" where
  "QBuffer_seek_within pos d =
    (if pos > QBuffer_size d \<or> pos < 0 then Some (False, d) else Some (QIODevice_seek pos d))"

definition QBuffer_seek :: "(nat \<Rightarrow> byte) \<Rightarrow> int \<Rightarrow> QIODevice \<Rightarrow> (bool \<times> QIODevice) option" where
  "QBuffer_seek junk pos d =
    (if pos > QBuffer_size d \<and> isWritable d then
       (case QBuffer_seek_within (QBuffer_size d) d of
          None \<Rightarrow> None
        | Some (False, d) \<Rightarrow> Some (False, d)
        | Some (True, d) \<Rightarrow>
            (let gapSize = pos - QBuffer_size d in
             case QIODevice_write QBuffer_seek_within junk (replicate (nat gapSize) 0) d of
               None \<Rightarrow> None
             | Some (written, d) \<Rightarrow>
                 if written \<noteq> gapSize then Some (False, d) else Some (QIODevice_seek pos d)))
     else QBuffer_seek_within pos d)"

definition QBuffer_write :: "(nat \<Rightarrow> byte) \<Rightarrow> byte list \<Rightarrow> QIODevice \<Rightarrow> (int \<times> QIODevice) option" where
  "QBuffer_write junk = QIODevice_write (QBuffer_seek junk) junk"

definition QIODevice_putChar :: "(nat \<Rightarrow> byte) \<Rightarrow> byte \<Rightarrow> QIODevice \<Rightarrow> (bool \<times> QIODevice) option" where
  "QIODevice_putChar junk c d = map_option (\<lambda>(n, d). (n = 1, d)) (QBuffer_write junk [c] d)"

section \<open>Reading\<close>

definition carriage_return :: byte where
  "carriage_return = 0x0D"

text \<open>The loop for one character: \<open>Some c\<close> when the buffer has one.\<close>

function buffered_char :: "QIODevice \<Rightarrow> byte option \<times> QIODevice" where
  "buffered_char d =
    (if lb_isEmpty (buffer d) then (None, d)
     else
       (let (chint, b) = lb_getChar (buffer d);
            d = d\<lparr>buffer := b, dpos := dpos d + 1\<rparr>;
            c = (word_of_int chint :: byte)
        in if c = carriage_return \<and> isTextModeEnabled d then buffered_char d else (Some c, d)))"
  by pat_completeness auto
termination
  by (relation "measure (\<lambda>d. len (buffer d))") (auto simp: lb_isEmpty_def lb_getChar_def split: if_splits)

declare buffered_char.simps [simp del]

text \<open>What a round of \<open>read\<close> takes from the device, with the two flags.\<close>

definition device_round ::
  "(int \<Rightarrow> QIODevice \<Rightarrow> (bool \<times> QIODevice) option) \<Rightarrow> int \<Rightarrow> bool \<Rightarrow> bool \<Rightarrow> QIODevice \<Rightarrow>
    (int \<times> byte list \<times> bool \<times> bool \<times> QIODevice) option" where
  "device_round seekf maxSize madeBufferReadsOnly deviceAtEof d =
    (if maxSize > 0 \<and> \<not> deviceAtEof then
       (case (if dpos d = devicePos d then Some (True, d) else seekf (dpos d) d) of
          None \<Rightarrow> None
        | Some (False, d) \<Rightarrow> Some (-1, [], madeBufferReadsOnly, deviceAtEof, d)
        | Some (True, d) \<Rightarrow>
            map_option (\<lambda>(n, bytes). (n, bytes, False, n \<noteq> maxSize,
                d\<lparr>dpos := dpos d + n, devicePos := devicePos d + n\<rparr>))
              (QBuffer_readData maxSize d))
     else Some (0, [], madeBufferReadsOnly, deviceAtEof, d))"

text \<open>
  The loop of \<open>read\<close>: \<open>acc\<close> are the bytes stored so far, \<open>chunk\<close> those of the current round, from which the
  text mode takes the carriage returns.
\<close>

partial_function (option) read_rounds ::
  "(int \<Rightarrow> QIODevice \<Rightarrow> (bool \<times> QIODevice) option) \<Rightarrow> int \<Rightarrow> byte list \<Rightarrow> bool \<Rightarrow> bool \<Rightarrow> QIODevice \<Rightarrow>
    (int \<times> byte list \<times> bool \<times> QIODevice) option" where
  "read_rounds seekf maxSize acc madeBufferReadsOnly deviceAtEof d =
    (let (chunk, b) = lb_read (nat maxSize) (buffer d);
         d = d\<lparr>buffer := b\<rparr>;
         d = d\<lparr>dpos := dpos d + int (length chunk)\<rparr>;
         maxSize = maxSize - int (length chunk)
     in if chunk = [] \<and> openMode d AND ReadOnly = 0 then Some (-1, acc, False, d)
     else
       (case device_round seekf maxSize madeBufferReadsOnly deviceAtEof d of
          None \<Rightarrow> None
        | Some (readFromDevice, bytes, madeBufferReadsOnly, deviceAtEof, d) \<Rightarrow>
            if readFromDevice < 0 \<and> acc @ chunk = [] then Some (-1, [], False, d)
            else
              (let chunk = chunk @ bytes;
                   maxSize = maxSize - int (length bytes)
               in if isTextModeEnabled d \<and> chunk \<noteq> [] then
                    (let kept = filter (\<lambda>c. c \<noteq> carriage_return) chunk
                     in read_rounds seekf (maxSize + int (length chunk - length kept)) (acc @ kept)
                          madeBufferReadsOnly deviceAtEof d)
                  else
                    Some (int (length (acc @ chunk)), acc @ chunk, madeBufferReadsOnly, d))))"

definition QIODevice_read ::
  "(int \<Rightarrow> QIODevice \<Rightarrow> (bool \<times> QIODevice) option) \<Rightarrow> int \<Rightarrow> QIODevice \<Rightarrow> (int \<times> byte list \<times> QIODevice) option" where
  "QIODevice_read seekf maxSize d =
    (case (if maxSize = 1 then buffered_char d else (None, d)) of
       (Some c, d) \<Rightarrow> Some (1, [c], d)
     | (None, d) \<Rightarrow>
        if maxSize < 0 then Some (-1, [], d)
        else
          (case read_rounds seekf maxSize [] True False d of
             None \<Rightarrow> None
           | Some (n, bytes, madeBufferReadsOnly, d) \<Rightarrow>
               Some (n, bytes,
                 if madeBufferReadsOnly \<and> lb_isEmpty (buffer d) then d\<lparr>buffer := lb_clear (buffer d)\<rparr> else d)))"

definition QBuffer_read :: "(nat \<Rightarrow> byte) \<Rightarrow> int \<Rightarrow> QIODevice \<Rightarrow> (int \<times> byte list \<times> QIODevice) option" where
  "QBuffer_read junk = QIODevice_read (QBuffer_seek junk)"

definition QIODevice_getChar :: "(nat \<Rightarrow> byte) \<Rightarrow> QIODevice \<Rightarrow> (bool \<times> byte list \<times> QIODevice) option" where
  "QIODevice_getChar junk d = map_option (\<lambda>(n, bytes, d). (n = 1, bytes, d)) (QBuffer_read junk 1 d)"

definition QIODevice_ungetChar :: "nat \<Rightarrow> (nat \<Rightarrow> byte) \<Rightarrow> byte \<Rightarrow> QIODevice \<Rightarrow> QIODevice option" where
  "QIODevice_ungetChar B junk c d =
    (if openMode d AND ReadOnly = 0 then Some d
     else map_option (\<lambda>b. d\<lparr>buffer := b, dpos := dpos d - 1\<rparr>) (lb_ungetChar B junk c (buffer d)))"

definition QBYTEARRAY_MAX :: int where
  "QBYTEARRAY_MAX = 2147483647"

definition QIODevice_read_array :: "(nat \<Rightarrow> byte) \<Rightarrow> int \<Rightarrow> QIODevice \<Rightarrow> (byte list \<times> QIODevice) option" where
  "QIODevice_read_array junk maxSize d =
    (if maxSize < 0 then Some ([], d)
     else
       (let maxSize = (if maxSize \<ge> QBYTEARRAY_MAX then QBYTEARRAY_MAX - 1 else maxSize) in
        case (if maxSize \<noteq> 0 then QBuffer_read junk maxSize d else Some (0, [], d)) of
          None \<Rightarrow> None
        | Some (readBytes, bytes, d) \<Rightarrow> Some (if readBytes \<le> 0 then [] else take (nat readBytes) bytes, d)))"

partial_function (option) read_increments ::
  "nat \<Rightarrow> (nat \<Rightarrow> byte) \<Rightarrow> byte list \<Rightarrow> QIODevice \<Rightarrow> (byte list \<times> QIODevice) option" where
  "read_increments B junk acc d =
    (if int (length acc) + int B \<ge> QBYTEARRAY_MAX then Some (acc, d)
     else
       (case QBuffer_read junk (int B) d of
          None \<Rightarrow> None
        | Some (readResult, bytes, d) \<Rightarrow>
            if readResult > 0 then read_increments B junk (acc @ bytes) d else Some (acc, d)))"

definition QIODevice_readAll :: "nat \<Rightarrow> (nat \<Rightarrow> byte) \<Rightarrow> QIODevice \<Rightarrow> (byte list \<times> QIODevice) option" where
  "QIODevice_readAll B junk d =
    (let flush = \<not> isTextModeEnabled d \<and> \<not> lb_isEmpty (buffer d) in
     if flush \<and> int (lb_size (buffer d)) \<ge> QBYTEARRAY_MAX then Some ([], d)
     else
       (let (result, b) = (if flush then lb_readAll (buffer d) else ([], buffer d));
            d = d\<lparr>buffer := b, dpos := dpos d + int (length result)\<rparr>;
            theSize = QBuffer_size d
        in if theSize = 0 then read_increments B junk result d
           else
             (let newSize = int (length result) + theSize - dpos d in
              if newSize \<ge> QBYTEARRAY_MAX then Some ([], d)
              else
                (case QBuffer_read junk (max newSize 0 - int (length result)) d of
                   None \<Rightarrow> None
                 | Some (n, bytes, d) \<Rightarrow>
                     (let readBytes = int (length result) + n
                      in Some (if readBytes \<le> 0 then []
                               else QByteArray_resize junk (take (nat newSize) result @ bytes) (nat readBytes),
                               d))))))"

text \<open>\<open>readLineData\<close>: at most \<open>n\<close> more characters; with the value of the last \<open>read\<close>.\<close>

fun line_loop :: "(nat \<Rightarrow> byte) \<Rightarrow> nat \<Rightarrow> byte list \<Rightarrow> int \<Rightarrow> QIODevice \<Rightarrow> (byte list \<times> int \<times> QIODevice) option" where
  "line_loop junk 0 acc lastReadReturn d = Some (acc, lastReadReturn, d)"
| "line_loop junk (Suc n) acc lastReadReturn d =
    (case QBuffer_read junk 1 d of
       None \<Rightarrow> None
     | Some (r, bytes, d) \<Rightarrow>
         if r = 1 then
           (if bytes = [lb_newline] then Some (acc @ bytes, r, d) else line_loop junk n (acc @ bytes) r d)
         else Some (acc, r, d))"

definition readLineData :: "(nat \<Rightarrow> byte) \<Rightarrow> int \<Rightarrow> QIODevice \<Rightarrow> (int \<times> byte list \<times> QIODevice) option" where
  "readLineData junk maxSize d =
    map_option (\<lambda>(bytes, lastReadReturn, d).
        (if lastReadReturn \<noteq> 1 \<and> bytes = [] then -1 else int (length bytes), bytes, d))
      (line_loop junk (nat maxSize) [] 0 (d\<lparr>baseReadLineDataCalled := True\<rparr>))"

text \<open>In text mode a line that ends with a carriage return and a newline loses the carriage return.\<close>

definition text_line :: "bool \<Rightarrow> byte list \<Rightarrow> byte list" where
  "text_line textMode line =
    (if textMode \<and> length line > 1 \<and> last line = lb_newline \<and> last (butlast line) = carriage_return
     then butlast (butlast line) @ [lb_newline] else line)"

definition QIODevice_readLine :: "(nat \<Rightarrow> byte) \<Rightarrow> int \<Rightarrow> QIODevice \<Rightarrow> (int \<times> byte list \<times> QIODevice) option" where
  "QIODevice_readLine junk maxSize d =
    (if maxSize < 2 then Some (-1, [], d)
     else
       (let maxSize = maxSize - 1;
            buffered = \<not> lb_isEmpty (buffer d);
            (line, b) = (if buffered then lb_readLine (nat maxSize) (buffer d) else ([], buffer d));
            d = d\<lparr>buffer := b, dpos := dpos d + int (length line)\<rparr>
        in if buffered \<and> line \<noteq> [] \<and> last line = lb_newline then
             (let line = text_line (isTextModeEnabled d) line in Some (int (length line), line, d))
           else
             (case (if dpos d \<noteq> devicePos d then QBuffer_seek junk (dpos d) d else Some (True, d)) of
                None \<Rightarrow> None
              | Some (False, d) \<Rightarrow> Some (-1, line, d)
              | Some (True, d) \<Rightarrow>
                  (case readLineData junk (maxSize - int (length line)) (d\<lparr>baseReadLineDataCalled := False\<rparr>) of
                     None \<Rightarrow> None
                   | Some (readBytes, bytes, d) \<Rightarrow>
                       if readBytes < 0 then Some (if line \<noteq> [] then int (length line) else -1, line, d)
                       else
                         (let d = (if \<not> baseReadLineDataCalled d
                                   then d\<lparr>dpos := dpos d + readBytes, devicePos := -1\<rparr> else d);
                              line = text_line (isTextModeEnabled d) (line @ bytes)
                          in Some (int (length line), line, d))))))"

definition QBuffer_canReadLine :: "QIODevice \<Rightarrow> bool" where
  "QBuffer_canReadLine d \<longleftrightarrow>
    (if \<not> isOpen d then False
     else
       (let start = (if dpos d < 0 then max (dpos d + QBuffer_size d) 0 else dpos d)
        in lb_newline \<in> set (drop (nat start) (contents d)) \<or> lb_canReadLine (buffer d)))"

definition QBuffer_peek :: "int \<Rightarrow> QIODevice \<Rightarrow> (int \<times> byte list) option" where
  "QBuffer_peek maxSize d =
    (let readBytes = min maxSize (QBuffer_size d - dpos d) in
     if readBytes < 0 \<or> dpos d < 0 then None
     else Some (readBytes, take (nat readBytes) (drop (nat (dpos d)) (contents d))))"

definition QBuffer_peek_array :: "int \<Rightarrow> QIODevice \<Rightarrow> byte list option" where
  "QBuffer_peek_array maxSize d =
    (let readBytes = min maxSize (QBuffer_size d - dpos d) in
     if dpos d = 0 \<and> maxSize \<ge> QBuffer_size d then Some (contents d)
     else if readBytes \<le> 0 then Some []
     else if dpos d < 0 then None
     else Some (take (nat readBytes) (drop (nat (dpos d)) (contents d))))"

end
