(* ===== verification/IOFile.thy ===== *)
theory IOFile
  imports IODevice
begin

text \<open>
  \<open>QIODevice\<close> on a \<open>QBuffer\<close> as a file: the bytes, a position and the characters put back in front of it.
\<close>

section \<open>The file\<close>

text \<open>\<open>front d\<close> is the position in the data behind the characters that were put back.\<close>

definition front :: "QIODevice \<Rightarrow> int" where
  "front d = dpos d + int (len (buffer d))"

definition dev_ok :: "QIODevice \<Rightarrow> bool" where
  "dev_ok d \<longleftrightarrow> lb_wf (buffer d) \<and> (isReadable d \<or> isWritable d) \<and> 0 \<le> devicePos d \<and> 0 \<le> front d \<and>
    front d \<le> QBuffer_size d"

type_synonym file_state = "byte list \<times> nat \<times> byte list"

definition file_of :: "QIODevice \<Rightarrow> file_state" where
  "file_of d = (contents d, nat (front d), unread (buffer d))"

fun upcoming :: "file_state \<Rightarrow> byte list" where
  "upcoming (data, p, pushed) = pushed @ drop p data"

fun advance :: "nat \<Rightarrow> file_state \<Rightarrow> file_state" where
  "advance k (data, p, pushed) = (data, p + (k - length pushed), drop k pushed)"

fun overwrite :: "nat \<Rightarrow> byte list \<Rightarrow> byte list \<Rightarrow> byte list" where
  "overwrite q xs data = take q data @ xs @ drop (q + length xs) data"

lemma open_mode: "dev_ok d \<Longrightarrow> openMode d \<noteq> NotOpen" "isReadable d \<Longrightarrow> openMode d AND ReadOnly \<noteq> 0"
  "isWritable d \<Longrightarrow> openMode d AND WriteOnly \<noteq> 0"
  by (auto simp: dev_ok_def isReadable_def isWritable_def NotOpen_def)

lemma lb_empty: "lb_isEmpty (lb_clear b)" "len (lb_clear b) = 0" "lb_wf b \<Longrightarrow> len b = 0 \<Longrightarrow> unread b = []"
  by (simp_all add: lb_isEmpty_def lb_clear_def unread_Nil)

section \<open>Positioning\<close>

text \<open>Within the data, \<open>seek\<close> drops the put-back characters it passes, or all of them.\<close>

lemma seek_device:
  assumes "dev_ok d" "0 \<le> pos" "pos \<le> QBuffer_size d"
  shows "\<exists>e. QIODevice_seek pos d = (True, e) \<and> dev_ok e \<and> dpos e = pos \<and> devicePos e = pos \<and> contents e = contents d \<and>
    openMode e = openMode d \<and>
    (if dpos d \<le> pos \<and> pos < front d then front e = front d \<and> unread (buffer e) = drop (nat (pos - dpos d)) (unread (buffer d))
     else front e = pos \<and> unread (buffer e) = [])"
proof -
  note o = open_mode(1) [OF assms(1)]
  have wf: "lb_wf (buffer d)" using assms(1) by (simp add: dev_ok_def)
  have sk: "lb_wf (lb_skip n (buffer d))" "unread (lb_skip n (buffer d)) = drop n (unread (buffer d))" for n
    using lb_skip_ok [OF wf] by simp_all
  have len: "int (len (lb_skip n (buffer d))) = int (len (buffer d)) - int n" if "n \<le> len (buffer d)" for n
    using that by (auto simp: lb_skip_def lb_clear_def)
  show ?thesis
  proof (cases "dpos d \<le> pos \<and> pos < front d")
    case True
    define e where "e = d\<lparr>dpos := pos, devicePos := pos, buffer := lb_skip (nat (pos - dpos d)) (buffer d)\<rparr>"
    have "QIODevice_seek pos d = (True, e)"
      using o assms(2) True by (auto simp: QIODevice_seek_def Let_def e_def front_def lb_size_def lb_isEmpty_def)
    moreover have "nat (pos - dpos d) \<le> len (buffer d)" using True by (simp add: front_def nat_le_iff)
    from len [OF this] have "front e = front d" using True by (simp add: e_def front_def)
    ultimately show ?thesis
      using True assms sk by (auto simp: e_def dev_ok_def isReadable_def isWritable_def QBuffer_size_def)
  next
    case False
    define e where "e = d\<lparr>dpos := pos, devicePos := pos, buffer := lb_clear (buffer d)\<rparr>"
    have "QIODevice_seek pos d = (True, e)"
      using o assms(2) False by (auto simp: QIODevice_seek_def Let_def e_def front_def lb_size_def)
    moreover have "front e = pos" by (simp add: e_def front_def lb_empty)
    ultimately show ?thesis
      using False assms by (auto simp: e_def dev_ok_def isReadable_def isWritable_def QBuffer_size_def)
  qed
qed

lemma seek_here:
  assumes "dev_ok d" "0 \<le> dpos d"
  shows "\<exists>e. QBuffer_seek junk (dpos d) d = Some (True, e) \<and> QBuffer_seek_within (dpos d) d = Some (True, e) \<and> dev_ok e \<and>
    dpos e = dpos d \<and> devicePos e = dpos d \<and> openMode e = openMode d \<and> file_of e = file_of d"
proof -
  have le: "dpos d \<le> front d" "front d \<le> QBuffer_size d" using assms(1) by (auto simp: dev_ok_def front_def)
  from seek_device [OF assms] le obtain e where e: "QIODevice_seek (dpos d) d = (True, e)" "dev_ok e" "dpos e = dpos d"
    "devicePos e = dpos d" "contents e = contents d" "openMode e = openMode d"
    "if dpos d < front d then front e = front d \<and> unread (buffer e) = unread (buffer d)
     else front e = dpos d \<and> unread (buffer e) = []" by auto
  have "unread (buffer d) = []" if "\<not> dpos d < front d"
    using that assms(1) by (auto simp: front_def dev_ok_def lb_empty)
  then have "file_of e = file_of d" using e(5,7) le by (auto simp: file_of_def split: if_splits)
  with e le assms show ?thesis by (auto simp: QBuffer_seek_def QBuffer_seek_within_def)
qed

section \<open>Reading\<close>

lemma device_round_ok:
  assumes "dev_ok d" "len (buffer d) = 0" "0 \<le> n"
  shows "\<exists>xs mb eof e. device_round (QBuffer_seek junk) n b f d = Some (int (length xs), xs, mb, eof, e) \<and> dev_ok e \<and>
    len (buffer e) = 0 \<and> openMode e = openMode d \<and>
    xs = (if f then [] else take (nat n) (drop (nat (dpos d)) (contents d))) \<and> contents e = contents d \<and>
    dpos e = dpos d + int (length xs) \<and> (eof \<longrightarrow> f \<or> length xs < nat n) \<and> (f \<longrightarrow> eof)"
proof (cases "n > 0 \<and> \<not> f")
  case False
  then show ?thesis using assms by (intro exI [of _ "[]"]) (auto simp: device_round_def)
next
  case True
  have pos: "0 \<le> dpos d" "dpos d \<le> QBuffer_size d" using assms(1,2) by (auto simp: dev_ok_def front_def)
  obtain e where e: "(if dpos d = devicePos d then Some (True, d) else QBuffer_seek junk (dpos d) d) = Some (True, e)"
    "dev_ok e" "dpos e = dpos d" "devicePos e = dpos d" "openMode e = openMode d" "file_of e = file_of d"
    using seek_here [OF assms(1) pos(1), of junk] assms(1) by (cases "dpos d = devicePos d") auto
  then have c: "contents e = contents d" "len (buffer e) = 0"
    using assms(1,2) length_unread [of "buffer e"] length_unread [of "buffer d"] by (auto simp: file_of_def dev_ok_def)
  define xs where "xs = take (nat n) (drop (nat (dpos d)) (contents d))"
  have len: "int (length xs) = min n (QBuffer_size d - dpos d)"
    using pos True by (simp add: xs_def QBuffer_size_def min_def) linarith
  have "QBuffer_readData n e = Some (int (length xs), xs)"
  proof (cases "QBuffer_size d - dpos d = 0")
    case True
    then have "xs = []" using len \<open>n > 0 \<and> \<not> f\<close> by simp
    with True \<open>n > 0 \<and> \<not> f\<close> show ?thesis by (simp add: QBuffer_readData_def Let_def e(3) c QBuffer_size_def)
  next
    case False
    then have "0 < int (length xs)" using len pos True by simp
    moreover have "take (nat (int (length xs))) (drop (nat (dpos d)) (contents d)) = xs"
      unfolding xs_def nat_int by (metis append_take_drop_id append_eq_conv_conj)
    moreover have "QBuffer_size e = QBuffer_size d" by (simp add: QBuffer_size_def c)
    ultimately show ?thesis using pos unfolding QBuffer_readData_def Let_def e(3) by (simp add: len [symmetric] c)
  qed
  then have "device_round (QBuffer_seek junk) n b f d = Some (int (length xs), xs, False, int (length xs) \<noteq> n,
      e\<lparr>dpos := dpos e + int (length xs), devicePos := devicePos e + int (length xs)\<rparr>)"
    using True e(1) by (simp add: device_round_def)
  moreover have "dev_ok (e\<lparr>dpos := dpos e + int (length xs), devicePos := devicePos e + int (length xs)\<rparr>)"
    using e c len pos unfolding dev_ok_def by (simp add: isReadable_def isWritable_def front_def QBuffer_size_def)
  ultimately show ?thesis using True e c len by (auto simp: xs_def [symmetric])
qed

text \<open>One round of \<open>read\<close>: what was put back, then the data.\<close>

lemma read_round:
  assumes "dev_ok d" "0 \<le> n" "isReadable d"
  shows "\<exists>chunk mb eof e. dev_ok e \<and> openMode e = openMode d \<and>
    chunk = (if f then take (nat n) (unread (buffer d)) else take (nat n) (upcoming (file_of d))) \<and>
    file_of e = advance (length chunk) (file_of d) \<and> (eof \<longrightarrow> f \<or> length chunk < nat n) \<and> (f \<longrightarrow> eof) \<and>
    read_rounds (QBuffer_seek junk) n acc b f d =
      (if isTextModeEnabled d \<and> chunk \<noteq> [] then
         read_rounds (QBuffer_seek junk) (n - int (length (filter (\<lambda>c. c \<noteq> carriage_return) chunk)))
           (acc @ filter (\<lambda>c. c \<noteq> carriage_return) chunk) mb eof e
       else Some (int (length (acc @ chunk)), acc @ chunk, mb, e))"
proof -
  have wf: "lb_wf (buffer d)" using assms(1) by (simp add: dev_ok_def)
  obtain ys c where r: "lb_read (nat n) (buffer d) = (ys, c)" by fastforce
  from lb_read_ok [OF wf r] have ys: "ys = take (nat n) (unread (buffer d))" "lb_wf c"
    "unread c = drop (nat n) (unread (buffer d))" by auto
  have lc: "len c = len (buffer d) - nat n" "length ys = min (nat n) (len (buffer d))"
    using length_unread [OF wf] length_unread [OF ys(2)] ys by simp_all
  define d1 where "d1 = d\<lparr>buffer := c, dpos := dpos d + int (length ys)\<rparr>"
  have front1: "front d1 = front d" using lc assms(2) by (auto simp: front_def d1_def min_def of_nat_diff)
  have d1: "dev_ok d1" using assms(1) front1 ys(2)
    by (simp add: dev_ok_def d1_def isReadable_def isWritable_def QBuffer_size_def front_def)
  define m where "m = n - int (length ys)"
  have m: "0 \<le> m" "m > 0 \<Longrightarrow> len (buffer d1) = 0" using lc assms(2) by (auto simp: m_def d1_def)
  obtain xs mb eof e where e: "device_round (QBuffer_seek junk) m b f d1 = Some (int (length xs), xs, mb, eof, e)"
    "dev_ok e" "openMode e = openMode d1" "contents e = contents d1" "dpos e = dpos d1 + int (length xs)"
    "xs = (if f then [] else take (nat m) (drop (nat (dpos d1)) (contents d1)))"
    "unread (buffer e) = unread (buffer d1)" "len (buffer e) = len (buffer d1)" "eof \<longrightarrow> f \<or> length xs < nat m" "f \<longrightarrow> eof"
  proof (cases "m > 0")
    case True
    from device_round_ok [OF d1 m(2) [OF True] m(1), of junk b f] obtain xs mb eof e where
      "device_round (QBuffer_seek junk) m b f d1 = Some (int (length xs), xs, mb, eof, e)" "dev_ok e" "len (buffer e) = 0"
      "openMode e = openMode d1" "xs = (if f then [] else take (nat m) (drop (nat (dpos d1)) (contents d1)))"
      "contents e = contents d1" "dpos e = dpos d1 + int (length xs)" "eof \<longrightarrow> f \<or> length xs < nat m" "f \<longrightarrow> eof" by blast
    moreover from this have "unread (buffer e) = unread (buffer d1)"
      using m(2) [OF True] d1 by (simp add: dev_ok_def lb_empty)
    ultimately show ?thesis using m(2) [OF True] by (intro that) auto
  next
    case False
    then show ?thesis using d1 m(1) by (intro that [of "[]" b f d1]) (auto simp: device_round_def)
  qed
  define chunk where "chunk = ys @ xs"
  have l: "length (unread (buffer d)) = len (buffer d)" by (rule length_unread [OF wf])
  have pos: "dpos d1 = front d" "0 \<le> front d" if "m > 0"
    using m(2) [OF that] front1 assms(1) by (auto simp: front_def dev_ok_def)
  have split: "length ys = len (buffer d) \<and> len (buffer d) \<le> nat n \<and> nat m = nat n - length ys \<or>
      m = 0 \<and> xs = [] \<and> nat n = length ys \<and> length ys \<le> len (buffer d)"
    using lc m(1) e(6) assms(2) by (auto simp: m_def min_def)
  have up: "upcoming (file_of d) = unread (buffer d) @ drop (nat (front d)) (contents d)" by (simp add: file_of_def)
  have chunk: "chunk = (if f then take (nat n) (unread (buffer d)) else take (nat n) (upcoming (file_of d)))"
  proof (cases "m > 0")
    case True
    then have "length ys < nat n" by (simp add: m_def)
    then have "length ys = len (buffer d)" "nat m = nat n - length ys" using lc by (auto simp: m_def min_def nat_diff_distrib')
    moreover have "contents d1 = contents d" by (simp add: d1_def)
    ultimately show ?thesis using e(6) pos(1) [OF True] l ys(1) by (auto simp: chunk_def up)
  next
    case False
    then have "xs = []" "nat n \<le> len (buffer d)" using e(6) m(1) lc assms(2) by (auto simp: m_def min_def split: if_splits)
    then show ?thesis using ys(1) l by (simp add: chunk_def up)
  qed
  have "front e = front d + int (length xs)" using e(5,8) front1 by (simp add: front_def)
  moreover have "contents e = contents d" using e(4) by (simp add: d1_def)
  moreover have "unread (buffer e) = drop (nat n) (unread (buffer d))" using e(7) ys(3) by (simp add: d1_def)
  ultimately have "file_of e = advance (length chunk) (file_of d)"
    using split l assms(1) by (auto simp: file_of_def chunk_def dev_ok_def nat_add_distrib)
  moreover have "openMode e = openMode d" using e(3) by (simp add: d1_def)
  moreover have "eof \<longrightarrow> f \<or> length chunk < nat n" using e(9) split by (auto simp: chunk_def)
  moreover have "read_rounds (QBuffer_seek junk) n acc b f d =
      (if isTextModeEnabled d \<and> chunk \<noteq> [] then
         read_rounds (QBuffer_seek junk) (n - int (length (filter (\<lambda>c. c \<noteq> carriage_return) chunk)))
           (acc @ filter (\<lambda>c. c \<noteq> carriage_return) chunk) mb eof e
       else Some (int (length (acc @ chunk)), acc @ chunk, mb, e))"
  proof -
    have t: "isTextModeEnabled e = isTextModeEnabled d" using \<open>openMode e = openMode d\<close> by (simp add: isTextModeEnabled_def)
    have k: "length (filter (\<lambda>c. c \<noteq> carriage_return) chunk) \<le> length chunk" by (rule length_filter_le)
    have ar: "m - int (length xs) + (int (length chunk) - j) = n - j" for j
      by (simp add: m_def chunk_def)
    show ?thesis
      using open_mode(2) [OF assms(3)] e(1) t unfolding d1_def
      by (subst read_rounds.simps) (simp add: Let_def r m_def [symmetric] chunk_def [symmetric] ar of_nat_diff [OF k]
          del: filter_append append_is_Nil_conv length_append)
  qed
  ultimately show ?thesis using e(2,10) chunk by blast
qed

lemma buffered_char_binary:
  assumes "dev_ok d" "\<not> isTextModeEnabled d" "buffered_char d = (c, e)"
  shows "dev_ok e \<and> openMode e = openMode d \<and>
    (case unread (buffer d) of [] \<Rightarrow> c = None \<and> e = d | x # xs \<Rightarrow> c = Some x \<and> file_of e = advance 1 (file_of d))"
proof -
  have wf: "lb_wf (buffer d)" using assms(1) by (simp add: dev_ok_def)
  obtain k b where g: "lb_getChar (buffer d) = (k, b)" by fastforce
  note ok = lb_getChar_ok [OF wf g]
  show ?thesis
  proof (cases "unread (buffer d)")
    case Nil
    then have "e = d" "c = None" using assms(3) unread_Nil [OF wf]
      by (simp_all add: buffered_char.simps lb_isEmpty_def)
    then show ?thesis using assms(1) Nil by simp
  next
    case (Cons x xs)
    then have l: "len (buffer d) = Suc (length xs)" using length_unread [OF wf] by simp
    have lb: "len b = length xs" using ok Cons length_unread [of b] by simp
    have e: "c = Some x" "e = d\<lparr>buffer := b, dpos := dpos d + 1\<rparr>"
      using assms(2,3) g l ok Cons
      by (subst (asm) buffered_char.simps, simp add: lb_isEmpty_def isTextModeEnabled_def)+
    have "front e = front d" using e(2) l lb by (simp add: front_def)
    then show ?thesis
      using assms(1) e ok Cons by (auto simp: dev_ok_def file_of_def isReadable_def isWritable_def QBuffer_size_def)
  qed
qed

text \<open>In binary mode \<open>read\<close> returns the next bytes.\<close>

lemma read_binary:
  assumes "dev_ok d" "\<not> isTextModeEnabled d" "0 \<le> n" "xs = take (nat n) (upcoming (file_of d))" "isReadable d"
  shows "\<exists>e. QBuffer_read junk n d = Some (int (length xs), xs, e) \<and> dev_ok e \<and> openMode e = openMode d \<and>
    file_of e = advance (length xs) (file_of d)"
proof (cases "n = 1 \<and> unread (buffer d) \<noteq> []")
  case True
  then obtain x ys where u: "unread (buffer d) = x # ys" by (cases "unread (buffer d)") auto
  obtain c e where c: "buffered_char d = (c, e)" by fastforce
  have "xs = [x]" using True u by (simp add: assms(4) file_of_def)
  then show ?thesis using buffered_char_binary [OF assms(1,2) c] u c True
    by (simp add: QBuffer_read_def QIODevice_read_def)
next
  case False
  have b: "(if n = 1 then buffered_char d else (None, d)) = (None, d)"
    using False buffered_char_binary [OF assms(1,2)] by (cases "buffered_char d") auto
  from read_round [OF assms(1,3,5), of False junk "[]" True] assms(2,4) obtain mb e where
    e: "dev_ok e" "openMode e = openMode d" "file_of e = advance (length xs) (file_of d)"
    "read_rounds (QBuffer_seek junk) n [] True False d = Some (int (length xs), xs, mb, e)" by auto
  define h where "h = (if mb \<and> lb_isEmpty (buffer e) then e\<lparr>buffer := lb_clear (buffer e)\<rparr> else e)"
  have "QBuffer_read junk n d = Some (int (length xs), xs, h)"
    using assms(3) e(4) by (simp add: QBuffer_read_def QIODevice_read_def b h_def)
  moreover have "dev_ok h \<and> openMode h = openMode d \<and> file_of h = file_of e"
    using e(1,2) by (auto simp: h_def dev_ok_def isReadable_def isWritable_def QBuffer_size_def front_def file_of_def
        lb_isEmpty_def lb_empty)
  ultimately show ?thesis using e(3) by auto
qed

lemma upcoming_advance: "upcoming (advance k f) = drop k (upcoming f)"
  by (cases f) (simp add: add.commute)

lemma advance_advance: "advance j (advance k f) = advance (k + j) f"
  by (cases f) (auto simp: add.commute)

text \<open>
  Text mode: the bytes taken from the file until \<open>n\<close> of them are not carriage returns.
\<close>

fun take_text :: "nat \<Rightarrow> byte list \<Rightarrow> byte list" where
  "take_text 0 xs = []"
| "take_text (Suc n) [] = []"
| "take_text (Suc n) (x # xs) = x # take_text (if x = carriage_return then Suc n else n) xs"

abbreviation kept :: "byte list \<Rightarrow> byte list" where
  "kept \<equiv> filter (\<lambda>c. c \<noteq> carriage_return)"

lemma take_text_Nil [simp]: "take_text n [] = []"
  by (cases n) auto

lemma take_text_split:
  "k \<le> n \<Longrightarrow> take_text n xs = take k xs @ take_text (n - length (kept (take k xs))) (drop k xs)"
proof (induction k arbitrary: n xs)
  case (Suc k)
  then obtain m where m: "n = Suc m" by (cases n) auto
  show ?case
  proof (cases xs)
    case (Cons x ys)
    show ?thesis
    proof (cases "x = carriage_return")
      case True
      then show ?thesis using Suc.IH [of n ys] Suc.prems Cons m by simp
    next
      case False
      then show ?thesis using Suc.IH [of m ys] Suc.prems Cons m by simp
    qed
  qed simp
qed simp

lemma read_rounds_text:
  assumes "dev_ok d" "isTextModeEnabled d" "0 \<le> n" "f \<longrightarrow> upcoming (file_of d) = []"
    "c = take_text (nat n) (upcoming (file_of d))" "isReadable d"
  shows "\<exists>mb e. read_rounds (QBuffer_seek junk) n acc b f d = Some (int (length (acc @ kept c)), acc @ kept c, mb, e) \<and>
    dev_ok e \<and> openMode e = openMode d \<and> file_of e = advance (length c) (file_of d)"
  using assms
proof (induction "length (upcoming (file_of d))" arbitrary: d n acc b f c rule: less_induct)
  case less
  obtain chunk mb eof e where r: "dev_ok e" "openMode e = openMode d"
    "chunk = (if f then take (nat n) (unread (buffer d)) else take (nat n) (upcoming (file_of d)))"
    "file_of e = advance (length chunk) (file_of d)" "eof \<longrightarrow> f \<or> length chunk < nat n"
    "read_rounds (QBuffer_seek junk) n acc b f d =
      (if isTextModeEnabled d \<and> chunk \<noteq> [] then
         read_rounds (QBuffer_seek junk) (n - int (length (kept chunk))) (acc @ kept chunk) mb eof e
       else Some (int (length (acc @ chunk)), acc @ chunk, mb, e))"
    using read_round [OF less.prems(1,3,6), of f junk acc b] by blast
  define up where "up = upcoming (file_of d)"
  have "f \<longrightarrow> unread (buffer d) = []" using less.prems(4) by (simp add: file_of_def)
  then have chunk: "chunk = take (nat n) up" using r(3) less.prems(4) by (auto simp: up_def)
  have up_e: "upcoming (file_of e) = drop (nat n) up"
    unfolding r(4) upcoming_advance chunk up_def [symmetric] by (cases "nat n \<le> length up") auto
  have split: "c = chunk @ take_text (nat n - length (kept chunk)) (drop (nat n) up)"
    using take_text_split [of "nat n" "nat n" up] less.prems(5) by (simp add: chunk up_def)
  show ?case
  proof (cases "chunk = []")
    case True
    then have "drop (nat n) up = [] \<or> nat n = 0" "up = [] \<or> nat n = 0" using chunk by auto
    then have "c = []" using less.prems(5) by (auto simp: up_def [symmetric])
    with True r less.prems(2) show ?thesis by auto
  next
    case False
    have k: "length (kept chunk) \<le> nat n" by (rule order_trans [OF length_filter_le]) (simp add: chunk)
    define c' where "c' = take_text (nat (n - int (length (kept chunk)))) (upcoming (file_of e))"
    have "nat (n - int (length (kept chunk))) = nat n - length (kept chunk)" by arith
    then have c': "c = chunk @ c'" using split by (simp add: c'_def up_e)
    have "length (upcoming (file_of e)) < length (upcoming (file_of d))"
      using False chunk by (auto simp: up_e up_def)
    moreover have "isTextModeEnabled e" "isReadable e"
      using r(2) less.prems(2,6) by (simp_all add: isTextModeEnabled_def isReadable_def)
    moreover have "0 \<le> n - int (length (kept chunk))" using k less.prems(3) by linarith
    moreover have "eof \<longrightarrow> upcoming (file_of e) = []" using r(5) less.prems(4) chunk by (auto simp: up_e up_def)
    ultimately obtain mb' e' where "read_rounds (QBuffer_seek junk) (n - int (length (kept chunk))) (acc @ kept chunk) mb eof e =
        Some (int (length ((acc @ kept chunk) @ kept c')), (acc @ kept chunk) @ kept c', mb', e')" "dev_ok e'"
      "openMode e' = openMode e" "file_of e' = advance (length c') (file_of e)"
      using less.hyps [of e "n - int (length (kept chunk))" eof c' "acc @ kept chunk" mb] r(1) c'_def by blast
    with r(2,4,6) False less.prems(2) c' show ?thesis by (simp add: advance_advance)
  qed
qed

lemma buffered_char_text:
  assumes "dev_ok d" "isTextModeEnabled d" "buffered_char d = (c, e)"
  shows "dev_ok e \<and> openMode e = openMode d \<and>
    (\<exists>k. file_of e = advance k (file_of d) \<and> k \<le> length (unread (buffer d)) \<and>
      (case c of
         None \<Rightarrow> k = length (unread (buffer d)) \<and> kept (unread (buffer d)) = []
       | Some x \<Rightarrow> take k (unread (buffer d)) = take_text 1 (upcoming (file_of d)) \<and> kept (take k (unread (buffer d))) = [x]))"
  using assms
proof (induction d arbitrary: c e rule: buffered_char.induct)
  case (1 d)
  have wf: "lb_wf (buffer d)" using "1.prems"(1) by (simp add: dev_ok_def)
  show ?case
  proof (cases "unread (buffer d)")
    case Nil
    then have "e = d" "c = None" using "1.prems"(3) unread_Nil [OF wf]
      by (simp_all add: buffered_char.simps lb_isEmpty_def)
    then show ?thesis using "1.prems"(1) Nil by (auto simp: file_of_def intro: exI [of _ 0])
  next
    case (Cons x xs)
    obtain k b where g: "lb_getChar (buffer d) = (k, b)" by fastforce
    from lb_getChar_ok [OF wf g] Cons have kb: "k = uint x" "lb_wf b" "unread b = xs" by auto
    have l: "len (buffer d) = Suc (length xs)" "len b = length xs"
      using length_unread [OF wf] length_unread [OF kb(2)] Cons kb(3) by simp_all
    define h where "h = d\<lparr>buffer := b, dpos := dpos d + 1\<rparr>"
    have h: "dev_ok h" "isTextModeEnabled h" "file_of h = advance 1 (file_of d)" "openMode h = openMode d"
      using "1.prems"(1,2) kb l Cons
      by (auto simp: h_def dev_ok_def file_of_def isReadable_def isWritable_def isTextModeEnabled_def
          QBuffer_size_def front_def)
    have step: "buffered_char d = (if x = carriage_return then buffered_char h else (Some x, h))"
      using g kb(1) l(1) "1.prems"(2) by (subst buffered_char.simps) (simp add: lb_isEmpty_def h_def isTextModeEnabled_def)
    have tt: "take_text 1 (upcoming (file_of d)) = x # (if x = carriage_return then take_text 1 (upcoming (file_of h)) else [])"
      using Cons kb(3) unfolding h(3) upcoming_advance by (simp add: file_of_def)
    show ?thesis
    proof (cases "x = carriage_return")
      case False
      then show ?thesis using step "1.prems"(3) h tt Cons by (auto intro!: exI [of _ 1])
    next
      case True
      have "\<not> lb_isEmpty (buffer d)" using l by (simp add: lb_isEmpty_def)
      moreover have ub: "unread (buffer h) = xs" by (simp add: h_def kb(3))
      moreover have "(word_of_int k :: byte) = carriage_return \<and> isTextModeEnabled h" using True kb(1) h(2) by simp
      moreover have "buffered_char h = (c, e)" using step True "1.prems"(3) by simp
      ultimately have ih: "dev_ok e \<and> openMode e = openMode h \<and>
        (\<exists>k. file_of e = advance k (file_of h) \<and> k \<le> length (unread (buffer h)) \<and>
          (case c of
             None \<Rightarrow> k = length (unread (buffer h)) \<and> kept (unread (buffer h)) = []
           | Some x \<Rightarrow> take k (unread (buffer h)) = take_text 1 (upcoming (file_of h)) \<and>
               kept (take k (unread (buffer h))) = [x]))"
        using "1.IH" [OF _ refl g [symmetric] h_def refl _ h(1,2)] by blast
      then obtain j where j: "file_of e = advance (Suc j) (file_of d)" "j \<le> length xs" "case c of
             None \<Rightarrow> j = length xs \<and> kept xs = []
           | Some x \<Rightarrow> take j xs = take_text 1 (upcoming (file_of h)) \<and> kept (take j xs) = [x]"
        unfolding h(3) advance_advance ub by auto
      then show ?thesis using ih h(4) Cons True tt by (intro conjI exI [of _ "Suc j"]) (auto split: option.splits)
    qed
  qed
qed

lemma read_text:
  assumes "dev_ok d" "isTextModeEnabled d" "0 \<le> n" "c = take_text (nat n) (upcoming (file_of d))" "isReadable d"
  shows "\<exists>e. QBuffer_read junk n d = Some (int (length (kept c)), kept c, e) \<and> dev_ok e \<and> openMode e = openMode d \<and>
    file_of e = advance (length c) (file_of d)"
proof -
  have general: "\<exists>e. (case read_rounds (QBuffer_seek junk) n [] True False h of None \<Rightarrow> None
           | Some (m, bytes, madeBufferReadsOnly, d) \<Rightarrow> Some (m, bytes,
               if madeBufferReadsOnly \<and> lb_isEmpty (buffer d) then d\<lparr>buffer := lb_clear (buffer d)\<rparr> else d)) =
        Some (int (length (kept c)), kept c, e) \<and> dev_ok e \<and> openMode e = openMode h \<and>
      file_of e = advance (length c) (file_of h)"
    if "dev_ok h" "isTextModeEnabled h" "c = take_text (nat n) (upcoming (file_of h))" "isReadable h" for h c
  proof -
    from read_rounds_text [OF that(1,2) assms(3) _ that(3,4), of False junk "[]" True] obtain mb e where
      e: "read_rounds (QBuffer_seek junk) n [] True False h = Some (int (length (kept c)), kept c, mb, e)" "dev_ok e"
      "openMode e = openMode h" "file_of e = advance (length c) (file_of h)" by auto
    define x where "x = (if mb \<and> lb_isEmpty (buffer e) then e\<lparr>buffer := lb_clear (buffer e)\<rparr> else e)"
    have "dev_ok x \<and> openMode x = openMode h \<and> file_of x = file_of e"
      using e(2,3) by (auto simp: x_def dev_ok_def isReadable_def isWritable_def QBuffer_size_def front_def file_of_def
          lb_isEmpty_def lb_empty)
    with e show ?thesis by (simp add: x_def [symmetric])
  qed
  show ?thesis
  proof (cases "n = 1")
    case False
    with general [OF assms(1,2,4,5)] assms(3) show ?thesis by (simp add: QBuffer_read_def QIODevice_read_def)
  next
    case True
    obtain r h where h: "buffered_char d = (r, h)" by fastforce
    from buffered_char_text [OF assms(1,2) h] obtain k where k: "dev_ok h" "openMode h = openMode d"
      "file_of h = advance k (file_of d)" "k \<le> length (unread (buffer d))" "case r of
         None \<Rightarrow> k = length (unread (buffer d)) \<and> kept (unread (buffer d)) = []
       | Some x \<Rightarrow> take k (unread (buffer d)) = take_text 1 (upcoming (file_of d)) \<and> kept (take k (unread (buffer d))) = [x]"
      by blast
    show ?thesis
    proof (cases r)
      case (Some x)
      then have ck: "c = take k (unread (buffer d))" using k(5) assms(4) True by simp
      from k(5) Some have "kept c = [x]" unfolding ck by (auto simp only: option.case)
      moreover have "length c = k" using ck k(4) by simp
      ultimately show ?thesis using Some h k(1-3) True by (simp add: QBuffer_read_def QIODevice_read_def)
    next
      case None
      define u where "u = unread (buffer d)"
      have u: "kept u = []" "k = length u" using None k(5) by (simp_all add: u_def)
      have h_text: "isTextModeEnabled h" "isReadable h"
        using k(2) assms(2,5) by (simp_all add: isTextModeEnabled_def isReadable_def)
      define c' where "c' = take_text (nat n) (upcoming (file_of h))"
      have "take_text 1 (u @ ys) = u @ take_text 1 ys" for ys
        using u(1) by (induction u) (auto split: if_splits)
      moreover have "upcoming (file_of d) = u @ upcoming (file_of h)"
        unfolding k(3) upcoming_advance u(2) by (simp add: file_of_def u_def)
      ultimately have c: "c = u @ c'" using assms(4) True by (simp add: c'_def)
      from general [OF k(1) h_text(1) c'_def h_text(2)] None h True k(2,3) c u show ?thesis
        by (simp add: QBuffer_read_def QIODevice_read_def advance_advance)
    qed
  qed
qed

section \<open>Writing\<close>

lemma writeData_ok:
  assumes "0 \<le> dpos d" "dpos d \<le> QBuffer_size d"
  shows "QBuffer_writeData junk xs d =
    Some (int (length xs), d\<lparr>contents := overwrite (nat (dpos d)) xs (contents d)\<rparr>)"
proof -
  define q where "q = nat (dpos d)"
  have q: "dpos d = int q" "q \<le> length (contents d)" using assms by (auto simp: q_def QBuffer_size_def)
  define ys where "ys = (if length (contents d) < q + length xs
    then QByteArray_resize junk (contents d) (q + length xs) else contents d)"
  have ys: "length ys = max (length (contents d)) (q + length xs)" "take q ys = take q (contents d)"
    "drop (q + length xs) ys = drop (q + length xs) (contents d)"
    using q(2) by (auto simp: ys_def resize_bytes(2) resize_take)
  have "(if dpos d + int (length xs) - QBuffer_size d > 0
      then d\<lparr>contents := QByteArray_resize junk (contents d) (nat (QBuffer_size d + (dpos d + int (length xs) - QBuffer_size d)))\<rparr>
      else d) = d\<lparr>contents := ys\<rparr>"
    by (auto simp: ys_def q(1) QBuffer_size_def nat_int_add)
  then show ?thesis
    unfolding QBuffer_writeData_def Let_def using q ys by (simp add: memmove_def)
qed

lemma write_ok:
  assumes "dev_ok d" "0 \<le> dpos d" "dpos d \<noteq> devicePos d \<Longrightarrow> seekf = QBuffer_seek junk" "isWritable d"
  shows "\<exists>e. QIODevice_write seekf junk xs d = Some (int (length xs), e) \<and> dev_ok e \<and> openMode e = openMode d \<and>
    dpos e = dpos d + int (length xs) \<and>
    file_of e = (overwrite (nat (dpos d)) xs (contents d), nat (max (front d) (dpos d + int (length xs))),
      drop (length xs) (unread (buffer d)))"
proof -
  obtain h where h: "(if dpos d \<noteq> devicePos d then seekf (dpos d) d else Some (True, d)) = Some (True, h)"
    "dev_ok h" "dpos h = dpos d" "openMode h = openMode d" "file_of h = file_of d"
    using seek_here [OF assms(1,2), of junk] assms(1,3) by (cases "dpos d = devicePos d") auto
  have eqs: "contents h = contents d" "front h = front d" "unread (buffer h) = unread (buffer d)"
    using h(2,5) assms(1) by (auto simp: file_of_def dev_ok_def)
  have le: "dpos h \<le> front h" "front h \<le> QBuffer_size h" "0 \<le> dpos h"
    using h(2,3) assms(2) by (auto simp: dev_ok_def front_def)
  define b where "b = (if \<not> lb_isEmpty (buffer h) then lb_skip (length xs) (buffer h) else buffer h)"
  define e where "e = (if xs \<noteq> [] then h\<lparr>contents := overwrite (nat (dpos h)) xs (contents h), buffer := b,
      dpos := dpos h + int (length xs), devicePos := devicePos h + int (length xs)\<rparr> else h)"
  have "nat (dpos h) \<le> length (contents h)" using le by (simp add: QBuffer_size_def nat_le_iff)
  then have same: "overwrite (nat (dpos h)) [] (contents h) = contents h" by simp
  have "QIODevice_write seekf junk xs d = Some (int (length xs), e)"
    using h(1) open_mode(3) [OF assms(4)] writeData_ok [of h junk xs] le same
    by (auto simp: QIODevice_write_def e_def b_def Let_def)
  moreover have b: "lb_wf b" "unread b = drop (length xs) (unread (buffer h))"
    using lb_skip_ok [of "buffer h" "length xs"] h(2) by (auto simp: b_def dev_ok_def lb_isEmpty_def lb_empty)
  then have "int (len b) = max (int (len (buffer h)) - int (length xs)) 0"
    using length_unread [of b] length_unread [of "buffer h"] h(2) by (auto simp: dev_ok_def)
  then have front: "front e = max (front h) (dpos h + int (length xs))"
    using le by (auto simp: e_def front_def)
  moreover have size: "QBuffer_size e = max (QBuffer_size h) (dpos h + int (length xs))"
    using le by (auto simp: e_def QBuffer_size_def)
  moreover have "lb_wf (buffer e)" "unread (buffer e) = drop (length xs) (unread (buffer h))"
    using b h(2) by (auto simp: e_def dev_ok_def)
  moreover have "contents e = overwrite (nat (dpos h)) xs (contents h)" using same by (simp add: e_def)
  moreover have "openMode e = openMode h" "dpos e = dpos h + int (length xs)" "0 \<le> devicePos e"
    using h(2) by (auto simp: e_def dev_ok_def)
  ultimately show ?thesis
    using h le eqs unfolding dev_ok_def file_of_def by (auto simp: isReadable_def isWritable_def)
qed

lemma write_before_start:
  assumes "dev_ok d" "dpos d < 0" "isWritable d"
  shows "QBuffer_write junk xs d = Some (-1, d)"
  using assms open_mode(3) [OF assms(3)]
  by (auto simp: QBuffer_write_def QIODevice_write_def QBuffer_seek_def QBuffer_seek_within_def dev_ok_def QBuffer_size_def)


section \<open>The other operations\<close>

fun offset :: "file_state \<Rightarrow> int" where
  "offset (data, p, pushed) = int p - int (length pushed)"

lemma offset_of: "dev_ok d \<Longrightarrow> offset (file_of d) = dpos d"
  using length_unread [of "buffer d"] by (auto simp: dev_ok_def file_of_def front_def)

lemma length_upcoming:
  assumes "dev_ok d"
  shows "int (length (upcoming (file_of d))) = QBuffer_size d - dpos d"
proof -
  have "length (unread (buffer d)) = len (buffer d)" using assms length_unread by (auto simp: dev_ok_def)
  then show ?thesis using assms by (auto simp: file_of_def front_def dev_ok_def QBuffer_size_def)
qed

lemma bytesAvailable_ok: "dev_ok d \<Longrightarrow> bytesAvailable d = int (length (upcoming (file_of d)))"
  using length_upcoming [of d] by (simp add: bytesAvailable_def)

lemma atEnd_ok: "dev_ok d \<Longrightarrow> QIODevice_atEnd d \<longleftrightarrow> upcoming (file_of d) = []"
  using bytesAvailable_ok [of d] open_mode(1) [of d] length_unread [of "buffer d"]
  by (auto simp: QIODevice_atEnd_def lb_isEmpty_def dev_ok_def file_of_def)

text \<open>\<open>QBuffer::seek\<close> on a file: past the end it appends zero bytes.\<close>

fun file_seek :: "int \<Rightarrow> file_state \<Rightarrow> file_state" where
  "file_seek pos (data, p, pushed) =
    (if pos < 0 then (data, p, pushed)
     else if pos > int (length data) then (data @ replicate (nat pos - length data) 0, nat pos, [])
     else if int p - int (length pushed) \<le> pos \<and> pos < int p
       then (data, p, drop (nat (pos - (int p - int (length pushed)))) pushed)
     else (data, nat pos, []))"

lemma seek_ok:
  assumes "dev_ok d" "isWritable d"
  shows "\<exists>e. QBuffer_seek junk pos d = Some (0 \<le> pos, e) \<and> dev_ok e \<and> openMode e = openMode d \<and>
    file_of e = file_seek pos (file_of d)"
proof (cases "pos \<le> QBuffer_size d")
  case True
  then have q: "QBuffer_seek junk pos d = (if pos < 0 then Some (False, d) else Some (QIODevice_seek pos d))"
    by (auto simp: QBuffer_seek_def QBuffer_seek_within_def)
  show ?thesis
  proof (cases "pos < 0")
    case False
    with seek_device [OF assms(1), of pos] True obtain e where "QIODevice_seek pos d = (True, e)" "dev_ok e" "dpos e = pos"
      "contents e = contents d" "openMode e = openMode d"
      "if dpos d \<le> pos \<and> pos < front d then front e = front d \<and> unread (buffer e) = drop (nat (pos - dpos d)) (unread (buffer d))
       else front e = pos \<and> unread (buffer e) = []" by auto
    with q False True assms(1) offset_of [OF assms(1)] show ?thesis
      by (auto simp: file_of_def QBuffer_size_def dev_ok_def split: if_splits)
  qed (use q assms in \<open>simp add: file_of_def\<close>)
next
  case False
  define size where "size = QBuffer_size d"
  have size: "0 \<le> size" "size < pos" using False by (simp_all add: size_def QBuffer_size_def)
  have w: "isWritable d" "front d \<le> size" using assms by (simp_all add: dev_ok_def size_def)
  from seek_device [OF assms(1) size(1)] w(2) obtain e where e: "QIODevice_seek size d = (True, e)" "dev_ok e" "dpos e = size"
    "devicePos e = size" "contents e = contents d" "openMode e = openMode d" "front e = size" "unread (buffer e) = []"
    by (auto simp: size_def)
  define zs where "zs = (replicate (nat (pos - size)) 0 :: byte list)"
  have zs: "int (length zs) = pos - size" using size by (simp add: zs_def)
  have size_e: "QBuffer_size e = size" "nat size = length (contents e)"
    using e(5) by (simp_all add: size_def QBuffer_size_def)
  have "isWritable e" using w(1) e(6) by (simp add: isWritable_def)
  have p0: "0 \<le> dpos e" using e(3) size(1) by simp
  from write_ok [OF e(2) p0 _ \<open>isWritable e\<close>, of QBuffer_seek_within junk zs] e(3,4) obtain g where
    g: "QIODevice_write QBuffer_seek_within junk zs e = Some (int (length zs), g)" "dev_ok g"
    "openMode g = openMode e" "dpos g = dpos e + int (length zs)"
    "file_of g = (overwrite (nat (dpos e)) zs (contents e), nat (max (front e) (dpos e + int (length zs))), drop (length zs) (unread (buffer e)))"
    by auto
  have file_g: "file_of g = (contents d @ zs, nat pos, [])"
    using g(5) e(3,5,7,8) zs size size_e by (simp add: max_def)
  then have c: "contents g = contents d @ zs" "nat (front g) = nat pos" by (simp_all add: file_of_def)
  have f: "front g = pos" using c(2) g(2) size by (simp add: dev_ok_def)
  have "pos \<le> QBuffer_size g" using f g(2) by (simp add: dev_ok_def)
  with seek_device [OF g(2), of pos] size f obtain h where
    h: "QIODevice_seek pos g = (True, h)" "dev_ok h" "contents h = contents g" "openMode h = openMode g" "front h = pos"
    "unread (buffer h) = []" by auto
  have "QBuffer_seek junk pos d = Some (True, h)"
    using False w e(1) size g(1) h(1) zs
    by (simp add: QBuffer_seek_def QBuffer_seek_within_def size_def [symmetric] size_e zs_def [symmetric])
  moreover have "nat (pos - size) = nat pos - length (contents d)" using size_e e(5) size by (simp add: nat_diff_distrib')
  then have "file_of h = file_seek pos (file_of d)"
    using h c(1) False size by (simp add: file_of_def zs_def QBuffer_size_def)
  ultimately show ?thesis using h g(3) e(6) size by auto
qed


text \<open>In binary mode, \<open>read\<close> for every size.\<close>

definition binary_ok :: "QIODevice \<Rightarrow> bool" where
  "binary_ok d \<longleftrightarrow> dev_ok d \<and> isReadable d \<and> isWritable d \<and> \<not> isTextModeEnabled d"

lemma binary_okI: "dev_ok e \<Longrightarrow> openMode e = openMode d \<Longrightarrow> binary_ok d \<Longrightarrow> binary_ok e"
  by (simp add: binary_ok_def isTextModeEnabled_def isReadable_def isWritable_def)

lemma dev_read_ok:
  assumes "binary_ok d" "0 \<le> n" "xs = take (nat n) (upcoming (file_of d))"
  shows "\<exists>e. QBuffer_read junk n d = Some (int (length xs), xs, e) \<and> binary_ok e \<and> file_of e = advance (length xs) (file_of d)"
  using read_binary [OF _ _ assms(2,3), of junk] assms(1) binary_okI
  by (auto simp: binary_ok_def isTextModeEnabled_def isReadable_def isWritable_def)

lemma read_negative: "n < 0 \<Longrightarrow> QBuffer_read junk n d = Some (-1, [], d)"
  by (simp add: QBuffer_read_def QIODevice_read_def)

lemma read_array_ok:
  assumes "binary_ok d" "xs = take (nat (min n (QBYTEARRAY_MAX - 1))) (upcoming (file_of d))"
  shows "\<exists>e. QIODevice_read_array junk n d = Some (xs, e) \<and> binary_ok e \<and> file_of e = advance (length xs) (file_of d)"
proof (cases "n \<le> 0")
  case True
  then have "xs = []" using assms(2) by (simp add: QBYTEARRAY_MAX_def)
  moreover have "advance 0 (file_of d) = file_of d" by (cases "file_of d") simp
  ultimately show ?thesis using True assms(1) by (auto simp: QIODevice_read_array_def QBYTEARRAY_MAX_def)
next
  case False
  have m: "(if n \<ge> QBYTEARRAY_MAX then QBYTEARRAY_MAX - 1 else n) = min n (QBYTEARRAY_MAX - 1)" by auto
  have "0 < min n (QBYTEARRAY_MAX - 1)" using False by (simp add: QBYTEARRAY_MAX_def)
  with dev_read_ok [OF assms(1) _ assms(2), of junk] False m show ?thesis
    by (auto simp: QIODevice_read_array_def Let_def)
qed

lemma dev_unget_ok:
  assumes "binary_ok d" "0 < B"
  shows "\<exists>e. QIODevice_ungetChar B junk c d = Some e \<and> binary_ok e \<and>
    file_of e = (case file_of d of (data, p, pushed) \<Rightarrow> (data, p, c # pushed))"
proof -
  have d: "dev_ok d" "isReadable d" using assms(1) by (simp_all add: binary_ok_def)
  then have wf: "lb_wf (buffer d)" by (simp add: dev_ok_def)
  from lb_ungetChar_ok [OF wf assms(2)] obtain b where b: "lb_ungetChar B junk c (buffer d) = Some b" "lb_wf b"
    "unread b = c # unread (buffer d)" by blast
  define e where "e = d\<lparr>buffer := b, dpos := dpos d - 1\<rparr>"
  have "len b = Suc (len (buffer d))" using length_unread [OF b(2)] length_unread [OF wf] b(3) by simp
  then have "front e = front d" by (simp add: e_def front_def)
  then have "dev_ok e" "file_of e = (contents d, nat (front d), c # unread (buffer d))"
    using d b(2,3) unfolding dev_ok_def file_of_def by (auto simp: e_def isReadable_def isWritable_def QBuffer_size_def)
  moreover have "QIODevice_ungetChar B junk c d = Some e"
    using open_mode(2) [OF d(2)] b(1) by (simp add: QIODevice_ungetChar_def e_def)
  moreover have "openMode e = openMode d" by (simp add: e_def)
  ultimately show ?thesis using binary_okI [OF _ _ assms(1)] by (auto simp: file_of_def)
qed

text \<open>Reading the whole rest, when an array can hold it.\<close>

lemma readAll_ok:
  assumes "binary_ok d" "xs = upcoming (file_of d)" "int (length xs) < QBYTEARRAY_MAX"
  shows "\<exists>e. QIODevice_readAll B junk d = Some (xs, e) \<and> binary_ok e \<and> file_of e = advance (length xs) (file_of d)"
proof -
  have d: "dev_ok d" "\<not> isTextModeEnabled d" "lb_wf (buffer d)" "isReadable d" "isWritable d"
    using assms(1) by (auto simp: binary_ok_def dev_ok_def)
  define u where "u = unread (buffer d)"
  have len: "length u = len (buffer d)" using length_unread [OF d(3)] by (simp add: u_def)
  define flush where "flush = (\<not> lb_isEmpty (buffer d))"
  define b where "b = (if flush then lb_clear (buffer d) else buffer d)"
  define e where "e = d\<lparr>buffer := b, dpos := dpos d + int (length u)\<rparr>"
  have r: "(if flush then lb_readAll (buffer d) else ([], buffer d)) = (u, b)"
    using len by (auto simp: flush_def b_def lb_isEmpty_def lb_readAll_def u_def unread_def)
  have b: "len b = 0" "lb_wf b" "unread b = []" using d(3) by (auto simp: b_def flush_def lb_isEmpty_def lb_empty)
  have fe: "front e = front d" "dpos e = front d" using b(1) len by (simp_all add: e_def front_def)
  have e: "binary_ok e" "file_of e = advance (length u) (file_of d)"
    using d b fe(1) unfolding binary_ok_def dev_ok_def file_of_def
    by (simp_all add: e_def isReadable_def isWritable_def QBuffer_size_def isTextModeEnabled_def u_def)
  define size where "size = QBuffer_size e"
  have size: "size = QBuffer_size d" by (simp add: size_def e_def QBuffer_size_def)
  have n: "int (length xs) = int (length u) + size - front d" "front d \<le> size" "0 \<le> front d"
    using length_upcoming [OF d(1)] assms(2) len d(1) by (auto simp: size front_def dev_ok_def)
  have up: "upcoming (file_of e) = drop (length u) xs" "xs = u @ drop (length u) xs"
    unfolding e(2) upcoming_advance assms(2) by (simp_all add: file_of_def u_def)
  have full: "\<not> (flush \<and> int (lb_size (buffer d)) \<ge> QBYTEARRAY_MAX)"
    using n len assms(3) by (auto simp: lb_size_def)
  have fl: "(\<not> isTextModeEnabled d \<and> \<not> lb_isEmpty (buffer d)) = flush" using d(2) by (simp add: flush_def)
  have max_int: "max (int k) 0 = int k" for k by simp
  have start: "QIODevice_readAll B junk d =
    (if size = 0 then read_increments B junk u e
     else if int (length xs) \<ge> QBYTEARRAY_MAX then Some ([], e)
     else (case QBuffer_read junk (int (length xs) - int (length u)) e of
             None \<Rightarrow> None
           | Some (k, bytes, d) \<Rightarrow> Some (if int (length u) + k \<le> 0 then []
               else QByteArray_resize junk (take (length xs) u @ bytes) (nat (int (length u) + k)), d)))"
    by (simp only: QIODevice_readAll_def Let_def fl if_not_P [OF full] r prod.case e_def [symmetric]
        size_def [symmetric] fe(2) n(1) [symmetric] nat_int max_int)
  show ?thesis
  proof (cases "size = 0")
    case True
    then have "xs = u" using n up by (simp add: front_def)
    from dev_read_ok [OF e(1), of "int B" "[]" junk] up \<open>xs = u\<close> obtain h where
      h: "QBuffer_read junk (int B) e = Some (0, [], h)" "binary_ok h" "file_of h = advance 0 (file_of e)" by auto
    then have "read_increments B junk u e = Some (u, e) \<or> read_increments B junk u e = Some (u, h)"
      by (subst (1 2) read_increments.simps) simp
    with start True e h \<open>xs = u\<close> show ?thesis by (auto simp: advance_advance)
  next
    case False
    from dev_read_ok [OF e(1), of "int (length xs) - int (length u)" "drop (length u) xs" junk] up n obtain h where
      h: "QBuffer_read junk (int (length xs) - int (length u)) e = Some (int (length (drop (length u) xs)), drop (length u) xs, h)"
      "binary_ok h" "file_of h = advance (length (drop (length u) xs)) (file_of e)" by auto
    have "length u \<le> length xs" using n by linarith
    then have k: "int (length u) + int (length (drop (length u) xs)) = int (length xs)" "take (length xs) u = u" by simp_all
    have "file_of h = advance (length xs) (file_of d)" using h(3) e(2) k(1) by (simp add: advance_advance)
    moreover have "QByteArray_resize junk xs (length xs) = xs" by (simp add: QByteArray_resize_def)
    ultimately show ?thesis using start False assms(3) h(1,2) k up(2) by auto
  qed
qed

end
