(* ===== verification/IOLine.thy ===== *)
theory IOLine
  imports IOFile
begin

text \<open>
  Lines, and the refinement of the file by \<open>QIODevice\<close> on a \<open>QBuffer\<close> (IODevice, IOFile).
\<close>

lemma first_line_Nil [simp]: "first_line n [] = []"
  by (simp add: first_line_def)

lemma first_line_0 [simp]: "first_line 0 xs = []"
  by (simp add: first_line_def)

lemma first_line_Cons [simp]:
  "first_line (Suc n) (x # xs) = x # (if x = lb_newline then [] else first_line n xs)"
  by (simp add: first_line_def)

text \<open>A line that ends in the put-back characters, and one that goes on behind them.\<close>

lemma first_line_append:
  "lb_newline \<in> set (first_line n us) \<Longrightarrow> first_line n (us @ xs) = first_line n us"
  "lb_newline \<notin> set (first_line n us) \<Longrightarrow> first_line n (us @ xs) = take n us @ first_line (n - length us) xs"
proof (induction us arbitrary: n)
  case (Cons u us)
  { case 1 then show ?case using Cons.IH(1) by (cases n) auto }
  { case 2 then show ?case using Cons.IH(2) by (cases n) (auto split: if_splits) }
qed simp_all

lemma newline_last: "lb_newline \<in> set (first_line n xs) \<longleftrightarrow> first_line n xs \<noteq> [] \<and> last (first_line n xs) = lb_newline"
proof (induction n arbitrary: xs)
  case (Suc n)
  then show ?case by (cases xs) auto
qed simp

lemma length_first_line: "length (first_line n xs) \<le> length xs" "length (first_line n xs) \<le> n"
proof (induction n arbitrary: xs)
  case (Suc n)
  { case 1 then show ?case using Suc.IH(1) by (cases xs) auto }
  { case 2 then show ?case using Suc.IH(2) by (cases xs) auto }
qed simp_all

lemma first_line_take: "lb_newline \<notin> set (first_line n xs) \<Longrightarrow> first_line n xs = take n xs"
  by (auto simp: first_line_def split: if_splits)

lemma line_loop_ok:
  assumes "binary_ok d" "line = first_line n (upcoming (file_of d))"
  shows "\<exists>r e. line_loop junk n acc k d = Some (acc @ line, r, e) \<and> binary_ok e \<and>
    file_of e = advance (length line) (file_of d) \<and> (line \<noteq> [] \<or> r \<noteq> 1 \<or> r = k)"
  using assms
proof (induction n arbitrary: acc k d line)
  case 0
  then show ?case by (cases "file_of d") simp
next
  case (Suc n)
  define xs where "xs = take 1 (upcoming (file_of d))"
  from dev_read_ok [OF Suc.prems(1), of 1 xs junk] obtain e where e: "QBuffer_read junk 1 d = Some (int (length xs), xs, e)"
    "binary_ok e" "file_of e = advance (length xs) (file_of d)" by (auto simp: xs_def)
  show ?case
  proof (cases "upcoming (file_of d)")
    case Nil
    with e Suc.prems(2) show ?thesis by (simp add: xs_def)
  next
    case (Cons x ys)
    then have xs: "xs = [x]" "upcoming (file_of e) = ys" unfolding e(3) upcoming_advance by (simp_all add: xs_def)
    show ?thesis
    proof (cases "x = lb_newline")
      case True
      with e xs Suc.prems(2) Cons show ?thesis by simp
    next
      case False
      from Suc.IH [OF e(2) refl, of "acc @ [x]" 1] obtain r f where
        "line_loop junk n (acc @ [x]) 1 e = Some ((acc @ [x]) @ first_line n ys, r, f)" "binary_ok f"
        "file_of f = advance (length (first_line n ys)) (file_of e)" unfolding xs(2) by blast
      with e xs Suc.prems(2) Cons False show ?thesis by (simp add: advance_advance)
    qed
  qed
qed

text \<open>\<open>read\<close> and \<open>seek\<close> leave the mark of \<open>readLineData\<close> alone.\<close>

abbreviation marked :: "QIODevice \<Rightarrow> bool" where
  "marked \<equiv> baseReadLineDataCalled"

lemma seek_marked: "QBuffer_seek junk pos d = Some (r, e) \<Longrightarrow> marked e = marked d"
proof -
  have s: "marked (snd (QIODevice_seek pos d)) = marked d" for pos d
    by (simp add: QIODevice_seek_def Let_def)
  have w: "marked e = marked d" if "QBuffer_seek_within pos d = Some (r, e)" for pos d r e
    using that s [of pos d] by (auto simp: QBuffer_seek_within_def split: if_splits)
  have "marked e = marked d" if "QIODevice_write QBuffer_seek_within junk xs d = Some (n, e)" for xs d n e
    using that by (auto simp: QIODevice_write_def QBuffer_writeData_def Let_def dest!: w
        split: if_splits option.splits bool.splits)
  then show "QBuffer_seek junk pos d = Some (r, e) \<Longrightarrow> marked e = marked d"
    using s by (auto simp: QBuffer_seek_def Let_def dest!: w split: if_splits option.splits bool.splits)
      (metis snd_conv)+
qed

lemma round_marked:
  "(\<And>pos d r e. seekf pos d = Some (r, e) \<Longrightarrow> marked e = marked d) \<Longrightarrow>
   device_round seekf n b f d = Some (k, xs, b', f', e) \<Longrightarrow> marked e = marked d"
  by (auto simp: device_round_def split: if_splits option.splits bool.splits)

lemmas rounds_induct = read_rounds.raw_induct [rotated, consumes 1, case_names round]

lemma rounds_marked:
  assumes "read_rounds seekf n acc b f d = Some y" "\<And>pos d r e. seekf pos d = Some (r, e) \<Longrightarrow> marked e = marked d"
  shows "marked (snd (snd (snd y))) = marked d"
  using assms
proof (induction seekf n acc b f d y rule: rounds_induct)
  case (round rec seekf n acc b f d y)
  obtain ys c where r: "lb_read (nat n) (buffer d) = (ys, c)" by fastforce
  define h where "h = (d\<lparr>buffer := c\<rparr>)\<lparr>dpos := dpos (d\<lparr>buffer := c\<rparr>) + int (length ys)\<rparr>"
  have h: "marked h = marked d" by (simp add: h_def)
  note body = round(2) [unfolded Let_def r prod.case, folded h_def]
  show ?case
  proof (cases "ys = [] \<and> openMode h AND ReadOnly = 0")
    case True
    then show ?thesis using body h by (auto simp del: length_0_conv)
  next
    case False
    then obtain m bytes b' f' g where g: "device_round seekf (n - int (length ys)) b f h = Some (m, bytes, b', f', g)"
      using body by (cases "device_round seekf (n - int (length ys)) b f h") auto
    then have mg: "marked g = marked d" using round_marked [OF round(3)] h by simp
    have "snd (snd (snd y)) = g \<or> (\<exists>n acc b. rec seekf n acc b f' g = Some y)"
      using body g False by (auto split: if_splits)
    then show ?thesis
    proof
      assume "\<exists>n acc b. rec seekf n acc b f' g = Some y"
      then obtain n acc b where "rec seekf n acc b f' g = Some y" by blast
      from round(1) [OF this round(3)] mg show ?thesis by simp
    qed (simp add: mg)
  qed
qed

lemma char_marked: "buffered_char d = (c, e) \<Longrightarrow> marked e = marked d"
proof (induction d arbitrary: c e rule: buffered_char.induct)
  case (1 d)
  obtain k b where g: "lb_getChar (buffer d) = (k, b)" by fastforce
  define h where "h = d\<lparr>buffer := b, dpos := dpos d + 1\<rparr>"
  have "buffered_char d = (if lb_isEmpty (buffer d) then (None, d)
      else if word_of_int k = carriage_return \<and> isTextModeEnabled h then buffered_char h else (Some (word_of_int k), h))"
    by (simp add: buffered_char.simps [of d] g h_def Let_def)
  moreover have "marked h = marked d" by (simp add: h_def)
  ultimately show ?case
    using "1.IH" [OF _ g [symmetric] refl h_def refl, of c e] "1.prems" by (simp split: if_splits)
qed

lemma read_marked: "QBuffer_read junk n d = Some (k, xs, e) \<Longrightarrow> marked e = marked d"
  by (auto simp: QBuffer_read_def QIODevice_read_def dest!: char_marked rounds_marked [OF _ seek_marked]
      split: if_splits option.splits prod.splits)

lemma line_loop_marked: "line_loop junk n acc k d = Some (xs, r, e) \<Longrightarrow> marked e = marked d"
  by (induction n arbitrary: acc k d) (auto dest!: read_marked split: if_splits option.splits)

lemma readLineData_ok:
  assumes "binary_ok d" "line = first_line (nat n) (upcoming (file_of d))"
  shows "\<exists>e. readLineData junk n d = Some (if line = [] then -1 else int (length line), line, e) \<and> binary_ok e \<and>
    marked e \<and> file_of e = advance (length line) (file_of d)"
proof -
  have d: "binary_ok (d\<lparr>baseReadLineDataCalled := True\<rparr>)" "file_of (d\<lparr>baseReadLineDataCalled := True\<rparr>) = file_of d"
    using assms(1) by (simp_all add: binary_ok_def dev_ok_def isReadable_def isWritable_def isTextModeEnabled_def
        front_def QBuffer_size_def file_of_def)
  from line_loop_ok [OF d(1) assms(2) [folded d(2)], of junk "[]" 0] obtain r e where
    e: "line_loop junk (nat n) [] 0 (d\<lparr>baseReadLineDataCalled := True\<rparr>) = Some (line, r, e)" "binary_ok e"
    "file_of e = advance (length line) (file_of d)" "line \<noteq> [] \<or> r \<noteq> 1" unfolding d(2) by auto
  from line_loop_marked [OF e(1)] e show ?thesis by (auto simp: readLineData_def)
qed

lemma text_line_binary: "\<not> isTextModeEnabled d \<Longrightarrow> text_line (isTextModeEnabled d) line = line"
  by (simp add: text_line_def)

lemma dev_readLine_ok:
  assumes "binary_ok d" "0 \<le> offset (file_of d)" "2 \<le> n" "line = first_line (nat (n - 1)) (upcoming (file_of d))"
  shows "\<exists>e. QIODevice_readLine junk n d = Some (if line = [] then -1 else int (length line), line, e) \<and> binary_ok e \<and>
    file_of e = advance (length line) (file_of d)"
proof -
  have d: "dev_ok d" "\<not> isTextModeEnabled d" "lb_wf (buffer d)" "isReadable d" "isWritable d"
    using assms(1) by (auto simp: binary_ok_def dev_ok_def)
  define us where "us = unread (buffer d)"
  have len: "length us = len (buffer d)" using length_unread [OF d(3)] by (simp add: us_def)
  define start where "start = first_line (nat (n - 1)) us"
  obtain b where b: "(if \<not> lb_isEmpty (buffer d) then lb_readLine (nat (n - 1)) (buffer d) else ([], buffer d)) = (start, b)"
    "lb_wf b" "unread b = drop (length start) us"
  proof (cases "lb_isEmpty (buffer d)")
    case True
    then have "us = []" using d(3) by (simp add: us_def lb_isEmpty_def unread_Nil)
    then show ?thesis using that [of "buffer d"] True d(3) by (simp add: start_def us_def)
  next
    case False
    obtain xs c where r: "lb_readLine (nat (n - 1)) (buffer d) = (xs, c)" by fastforce
    from lb_readLine_ok [OF d(3) r] r False show ?thesis by (intro that [of c]) (auto simp: start_def us_def)
  qed
  define h where "h = d\<lparr>buffer := b, dpos := dpos d + int (length start)\<rparr>"
  have le: "length start \<le> length us" by (simp add: start_def length_first_line)
  have "int (len b) = int (len (buffer d)) - int (length start)"
    using length_unread [OF b(2)] b(3) len le by simp
  then have front: "front h = front d" by (simp add: h_def front_def)
  have h: "binary_ok h" "file_of h = advance (length start) (file_of d)" "dev_ok h" "openMode h = openMode d" "0 \<le> dpos h"
    using d b(2,3) front le offset_of [OF d(1)] assms(2) unfolding binary_ok_def dev_ok_def file_of_def
    by (simp_all add: h_def isReadable_def isWritable_def QBuffer_size_def isTextModeEnabled_def us_def)
  define whole where "whole \<longleftrightarrow> \<not> lb_isEmpty (buffer d) \<and> start \<noteq> [] \<and> last start = lb_newline"
  have whole: "whole \<longleftrightarrow> lb_newline \<in> set start"
    using newline_last [of "nat (n - 1)" us] len le by (cases start) (auto simp: whole_def start_def [symmetric] lb_isEmpty_def)
  have up: "upcoming (file_of d) = us @ drop (nat (front d)) (contents d)" by (simp add: file_of_def us_def)
  show ?thesis
  proof (cases whole)
    case True
    then have "line = start" using first_line_append(1) whole assms(4) by (simp add: up start_def)
    moreover have "QIODevice_readLine junk n d = Some (int (length start), start, h)"
      using True assms(3) b(1) h(4) d(2) whole unfolding QIODevice_readLine_def
      by (simp add: Let_def h_def [symmetric] whole_def [symmetric] text_line_def isTextModeEnabled_def)
    moreover have "start \<noteq> []" using True by (simp add: whole_def)
    ultimately show ?thesis using h(1,2) by simp
  next
    case False
    then have nl: "lb_newline \<notin> set start" using whole by simp
    have st: "start = take (nat (n - 1)) us" using first_line_take nl unfolding start_def by blast
    define rest where "rest = first_line (nat (n - 1) - length us) (drop (nat (front d)) (contents d))"
    have line: "line = start @ rest" using first_line_append(2) [OF nl [unfolded start_def]] st assms(4)
      by (simp add: up rest_def)
    have rest: "rest = first_line (nat (n - 1 - int (length start))) (upcoming (file_of h))"
    proof (cases "nat (n - 1) \<le> length us")
      case True
      then have "length start = nat (n - 1)" by (simp add: st)
      then have "nat (n - 1 - int (length start)) = 0" using assms(3) by simp
      then show ?thesis using True by (simp add: rest_def)
    next
      case False
      then have "start = us" by (simp add: st)
      moreover have "nat (n - 1 - int k) = nat (n - 1) - k" for k by arith
      ultimately show ?thesis unfolding h(2) upcoming_advance by (simp only: rest_def up append_eq_conv_conj) simp
    qed
    obtain g where g: "(if dpos h \<noteq> devicePos h then QBuffer_seek junk (dpos h) h else Some (True, h)) = Some (True, g)"
      "dev_ok g" "openMode g = openMode h" "file_of g = file_of h"
      using seek_here [OF h(3,5), of junk] h(3) by (cases "dpos h = devicePos h") auto
    define g' where "g' = g\<lparr>baseReadLineDataCalled := False\<rparr>"
    have g': "binary_ok g'" "file_of g' = file_of h"
      using binary_okI [OF g(2,3) h(1)] g(4) by (simp_all add: g'_def binary_ok_def dev_ok_def isReadable_def
          isWritable_def isTextModeEnabled_def front_def QBuffer_size_def file_of_def)
    from readLineData_ok [OF g'(1) rest [folded g'(2)], of junk] obtain e where
      e: "readLineData junk (n - 1 - int (length start)) g' = Some (if rest = [] then -1 else int (length rest), rest, e)"
      "binary_ok e" "marked e" "file_of e = advance (length rest) (file_of h)" unfolding g'(2) by blast
    have t: "\<not> isTextModeEnabled e" using e(2) by (simp add: binary_ok_def)
    have "QIODevice_readLine junk n d = Some (if line = [] then -1 else int (length line), line, e)"
    proof -
      have not_whole: "\<not> (\<not> lb_isEmpty (buffer d) \<and> start \<noteq> [] \<and> last start = lb_newline)"
        using False by (simp add: whole_def)
      have n: "\<not> n < 2" using assms(3) by simp
      show ?thesis using e(3) t line
        by (simp only: QIODevice_readLine_def Let_def b(1) prod.case h_def [symmetric] if_not_P [OF n]
            if_not_P [OF not_whole] g(1) option.case bool.case g'_def [symmetric] e(1))
          (simp add: text_line_def)
    qed
    then show ?thesis using e(2,4) h(2) line by (simp add: advance_advance)
  qed
qed

end
