(* ===== verification/IOSpec.thy ===== *)
theory IOSpec
  imports IOLine
begin













section \<open>An open buffer\<close>

lemma flag_disj: "(f OR WriteOnly) AND (m :: OpenMode) = (f AND m) OR (WriteOnly AND m)"
  by (simp add: word_bw_lcs word_ao_dist)

lemma flags_apart: "WriteOnly AND ReadOnly = 0" "WriteOnly AND TextMode = 0" "WriteOnly AND AppendMode = 0"
  "WriteOnly AND TruncateMode = 0" "WriteOnly AND (ReadOnly OR WriteOnly) \<noteq> 0" "WriteOnly AND WriteOnly \<noteq> 0" "TruncateMode \<noteq> 0"
  by (simp_all add: WriteOnly_def ReadOnly_def TextMode_def AppendMode_def TruncateMode_def)

definition opened_file :: "OpenMode \<Rightarrow> byte list \<Rightarrow> file_state" where
  "opened_file flags data =
    (let data = (if flags AND TruncateMode = TruncateMode then [] else data)
     in (data, if flags AND AppendMode \<noteq> 0 then length data else 0, []))"

lemma QBuffer_open_ok:
  assumes "flags AND (ReadOnly OR WriteOnly OR AppendMode OR TruncateMode) \<noteq> 0"
  shows "\<exists>d. QBuffer_open flags (new_QBuffer data) = (True, d) \<and> dev_ok d \<and> file_of d = opened_file flags data \<and>
    (isReadable d \<longleftrightarrow> flags AND ReadOnly \<noteq> 0) \<and>
    (isWritable d \<longleftrightarrow> flags AND (WriteOnly OR AppendMode OR TruncateMode) \<noteq> 0) \<and>
    (isTextModeEnabled d \<longleftrightarrow> flags AND TextMode \<noteq> 0)"
proof -
  define m where "m = (if flags AND (AppendMode OR TruncateMode) \<noteq> 0 then flags OR WriteOnly else flags)"
  have w: "m AND WriteOnly \<noteq> 0 \<longleftrightarrow> flags AND (WriteOnly OR AppendMode OR TruncateMode) \<noteq> 0"
    using flags_apart(6) by (auto simp: m_def flag_disj word_ao_dist2 or_eq_0_iff)
  have m: "m AND ReadOnly = flags AND ReadOnly" "m AND TextMode = flags AND TextMode" "m AND AppendMode = flags AND AppendMode"
    "m AND TruncateMode = flags AND TruncateMode"
    using flags_apart by (simp_all add: m_def flag_disj)
  have rw: "m AND (ReadOnly OR WriteOnly) \<noteq> 0" "m AND ReadOnly \<noteq> 0 \<or> m AND WriteOnly \<noteq> 0"
    using assms w m(1) by (auto simp: word_ao_dist2 or_eq_0_iff)
  define d where "d = (let d = new_QBuffer (if flags AND TruncateMode = TruncateMode then [] else data)
    in d\<lparr>openMode := m, dpos := if flags AND AppendMode \<noteq> 0 then QBuffer_size d else 0, buffer := lb_clear (buffer d)\<rparr>)"
  have "QBuffer_open flags (new_QBuffer data) = (True, d)"
    unfolding QBuffer_open_def m_def [symmetric] Let_def using rw m
    by (simp add: QIODevice_open_def d_def Let_def new_QBuffer_def QBuffer_size_def)
  moreover have "openMode d = m" by (simp add: d_def Let_def)
  moreover have "dev_ok d" "file_of d = opened_file flags data"
    using rw(2) by (auto simp: d_def Let_def dev_ok_def isReadable_def isWritable_def new_QBuffer_def front_def
        QBuffer_size_def file_of_def opened_file_def lb_empty)
  ultimately show ?thesis using w m by (auto simp: isReadable_def isWritable_def isTextModeEnabled_def)
qed



text \<open>What is kept of a text: the first bytes that are not carriage returns.\<close>

lemma kept_take_text: "kept (take_text n xs) = take n (kept xs)"
proof (induction n xs rule: take_text.induct)
  case (3 n x xs)
  then show ?case by (cases "x = carriage_return") auto
qed auto

lemma take_text_prefix: "take (length (take_text n xs)) xs = take_text n xs"
  by (induction n xs rule: take_text.induct) auto

text \<open>
  C26: In text mode, \<open>read\<close> returns the next bytes without carriage returns: as many as asked for when the
  file has them, whatever was put back and however the carriage returns lie, and leaves the file behind
  exactly what it took.
\<close>
theorem QIODevice_read_text:
  assumes "dev_ok d" "isTextModeEnabled d" "0 \<le> n" "isReadable d"
  shows "\<exists>e k. QBuffer_read junk n d =
      Some (int (length (take (nat n) (kept (upcoming (file_of d))))), take (nat n) (kept (upcoming (file_of d))), e) \<and>
    dev_ok e \<and> isTextModeEnabled e \<and> file_of e = advance k (file_of d) \<and>
    kept (take k (upcoming (file_of d))) = take (nat n) (kept (upcoming (file_of d)))"
proof -
  define c where "c = take_text (nat n) (upcoming (file_of d))"
  have "kept c = take (nat n) (kept (upcoming (file_of d)))" "take (length c) (upcoming (file_of d)) = c"
    by (simp_all add: c_def kept_take_text take_text_prefix)
  moreover obtain e where "QBuffer_read junk n d = Some (int (length (kept c)), kept c, e)" "dev_ok e"
    "openMode e = openMode d" "file_of e = advance (length c) (file_of d)" using read_text [OF assms(1-3) c_def assms(4), of junk] by blast
  ultimately show ?thesis using assms(2) by (intro exI [of _ e] exI [of _ "length c"]) (simp add: isTextModeEnabled_def)
qed

theorem QIODevice_read_text_witness:
  "\<exists>e k. QBuffer_read (\<lambda>i. 0xCD) 3 (snd (QBuffer_open (ReadWrite OR TextMode) (new_QBuffer [1, 13, 10, 13, 13, 2, 3]))) =
      Some (3, [1, 10, 2], e) \<and> dev_ok e \<and> isTextModeEnabled e \<and>
    file_of e = advance k ([1, 13, 10, 13, 13, 2, 3], 0, []) \<and> kept (take k [1, 13, 10, 13, 13, 2, 3]) = [1, 10, 2]"
proof -
  define d where "d = snd (QBuffer_open (ReadWrite OR TextMode) (new_QBuffer [1, 13, 10, 13, 13, 2, 3]))"
  have "dev_ok d" "isTextModeEnabled d" "isReadable d" "file_of d = ([1, 13, 10, 13, 13, 2, 3], 0, [])"
    using QBuffer_open_ok [of "ReadWrite OR TextMode" "[1, 13, 10, 13, 13, 2, 3]"]
    by (auto simp: d_def ReadWrite_def ReadOnly_def WriteOnly_def TextMode_def AppendMode_def TruncateMode_def opened_file_def)
  with QIODevice_read_text [of d 3 "\<lambda>i. 0xCD"] show ?thesis by (simp add: d_def [symmetric] carriage_return_def)
qed

section \<open>Put-back characters that operations overlook\<close>

text \<open>\<open>peek\<close> reads the data at the position, not the characters that were put back.\<close>

lemma peek_overlooks:
  assumes "dev_ok d" "file_of d = (data, p, pushed)" "length pushed \<le> p"
  shows "QBuffer_peek (int n) d = Some (int (length (take n (drop (p - length pushed) data))), take n (drop (p - length pushed) data))"
proof -
  have d: "data = contents d" "dpos d = int (p - length pushed)" "p - length pushed \<le> length data"
    using assms offset_of [OF assms(1)] by (auto simp: file_of_def dev_ok_def QBuffer_size_def)
  show ?thesis
    using d(3) unfolding QBuffer_peek_def Let_def d(1,2) QBuffer_size_def by (auto simp: min_def nat_diff_distrib')
qed

text \<open>
  At the start of the data \<open>ungetChar\<close> makes the position negative; \<open>readLine\<close> then takes characters, cannot
  seek to what is left of them and reports an error.
\<close>

lemma readLine_loses:
  assumes "dev_ok d" "file_of d = (data, p, pushed)" "2 \<le> n" "int p + (n - 1) < int (length pushed)"
    "lb_newline \<notin> set pushed"
  shows "\<exists>e. QIODevice_readLine junk n d = Some (-1, take (nat (n - 1)) pushed, e) \<and>
    unread (buffer e) = drop (nat (n - 1)) pushed"
proof -
  have d: "lb_wf (buffer d)" "unread (buffer d) = pushed" "dpos d = int p - int (length pushed)" "0 \<le> devicePos d"
    "\<not> lb_isEmpty (buffer d)"
    using assms offset_of [OF assms(1)] length_unread [of "buffer d"]
    by (auto simp: dev_ok_def file_of_def lb_isEmpty_def)
  obtain line b where r: "lb_readLine (nat (n - 1)) (buffer d) = (line, b)" by fastforce
  have "lb_newline \<notin> set (take (nat (n - 1)) pushed)" using assms(5) by (meson in_set_takeD)
  then have line: "line = take (nat (n - 1)) pushed" "unread b = drop (nat (n - 1)) pushed"
    using lb_readLine_ok [OF d(1) r] d(2) assms(4) by (auto simp: first_line_def)
  define h where "h = d\<lparr>buffer := b, dpos := dpos d + int (length line)\<rparr>"
  have rules: "\<not> (True \<and> line \<noteq> [] \<and> last line = lb_newline)"
    using \<open>lb_newline \<notin> set (take (nat (n - 1)) pushed)\<close> line(1) last_in_set by metis
  have "int (length line) \<le> n - 1" using assms(3) by (simp add: line(1))
  then have "dpos h < 0" using assms(4) d(3) by (simp add: h_def)
  then have s: "(if dpos h \<noteq> devicePos h then QBuffer_seek junk (dpos h) h else Some (True, h)) = Some (False, h)"
    using d(4) by (auto simp: h_def QBuffer_seek_def QBuffer_seek_within_def QBuffer_size_def)
  have n: "\<not> n < 2" using assms(3) by simp
  have "QIODevice_readLine junk n d = Some (-1, line, h)"
    by (simp only: QIODevice_readLine_def Let_def d(5) not_False_eq_True if_True r prod.case h_def [symmetric]
        if_not_P [OF n] if_not_P [OF rules] s option.case bool.case)
  then show ?thesis using line by (simp add: h_def)
qed

end
