(* ===== verification/ByteMatcher.thy ===== *)
theory ByteMatcher
  imports ByteArray
begin

text \<open>
  \<open>QByteArrayMatcher\<close> and \<open>qFindByteArray\<close> (src/src/core/tools/qbytearraymatcher.cpp): searching a sequence of bytes
  by Boyer-Moore, by a rolling hash, or for a single byte.  A pointer and a length are the list of the bytes; a
  read outside of it is \<open>None\<close>.
\<close>

definition byte_at :: "byte list \<Rightarrow> int \<Rightarrow> byte option" where
  "byte_at xs i = (if 0 \<le> i \<and> i < int (length xs) then Some (xs ! nat i) else None)"

lemma unat_byte: "unat (x :: byte) < 256"
  using unsigned_less [of x] by simp

section \<open>Boyer-Moore\<close>

fun fill_skiptable :: "byte list \<Rightarrow> byte list \<Rightarrow> byte list" where
  "fill_skiptable [] skiptable = skiptable"
| "fill_skiptable (c # cc) skiptable = fill_skiptable cc (skiptable[unat c := of_nat (length cc)])"

definition bm_init_skiptable :: "byte list \<Rightarrow> byte list" where
  "bm_init_skiptable cc =
    (let l = min (length cc) 255 in fill_skiptable (drop (length cc - l) cc) (replicate 256 (of_nat l)))"

text \<open>The inner loop of \<open>bm_find\<close>: how many bytes agree, from the end of the pattern.\<close>

function bm_compare :: "byte list \<Rightarrow> byte list \<Rightarrow> nat \<Rightarrow> nat \<Rightarrow> nat option" where
  "bm_compare cc puc current skip =
    (if skip < length puc then
       (case byte_at cc (int current - int skip) of
          None \<Rightarrow> None
        | Some c \<Rightarrow>
            if c \<noteq> puc ! (length puc - 1 - skip) then Some skip
            else bm_compare cc puc current (skip + 1))
     else Some skip)"
  by pat_completeness auto
termination by (relation "measure (\<lambda>(cc, puc, current, skip). length puc - skip)") auto

declare bm_compare.simps [simp del]

definition table_at :: "byte list \<Rightarrow> byte \<Rightarrow> nat" where
  "table_at skiptable c = unat (skiptable ! unat c)"

text \<open>The pattern is not empty here: \<open>skip > pl_minus_one\<close> is \<open>skip \<ge> length puc\<close>.\<close>

text \<open>What the loop of \<open>bm_find\<close> does at a position: the index of a match, or how far to go on.\<close>

definition bm_step :: "byte list \<Rightarrow> byte list \<Rightarrow> byte list \<Rightarrow> nat \<Rightarrow> (int + nat) option" where
  "bm_step cc puc skiptable current =
    (case byte_at cc (int current) of
       None \<Rightarrow> None
     | Some c \<Rightarrow>
         let skip = table_at skiptable c in
         if skip \<noteq> 0 then Some (Inr skip)
         else
           (case bm_compare cc puc current skip of
              None \<Rightarrow> None
            | Some skip \<Rightarrow>
                if skip \<ge> length puc then Some (Inl (int current - int skip + 1))
                else
                  (case byte_at cc (int current - int skip) of
                     None \<Rightarrow> None
                   | Some c \<Rightarrow>
                       Some (Inr (if table_at skiptable c = length puc then length puc - skip else 1)))))"

function bm_loop :: "byte list \<Rightarrow> byte list \<Rightarrow> byte list \<Rightarrow> nat \<Rightarrow> int option" where
  "bm_loop cc puc skiptable current =
    (if current < length cc then
       (case bm_step cc puc skiptable current of
          None \<Rightarrow> None
        | Some (Inl index) \<Rightarrow> Some index
        | Some (Inr skip) \<Rightarrow>
            if int current > int (length cc) - int skip then Some (-1)
            else bm_loop cc puc skiptable (current + skip))
     else Some (-1))"
  by pat_completeness auto
termination
  by (relation "measure (\<lambda>(cc, puc, skiptable, current). length cc - current)")
    (auto simp: bm_step_def Let_def split: option.splits if_splits)

declare bm_loop.simps [simp del]

definition bm_find :: "byte list \<Rightarrow> nat \<Rightarrow> byte list \<Rightarrow> byte list \<Rightarrow> int option" where
  "bm_find cc index puc skiptable =
    (if length puc = 0 then Some (if index > length cc then -1 else int index)
     else bm_loop cc puc skiptable (index + (length puc - 1)))"

record QByteArrayMatcher =
  q_pattern :: "byte list"
  q_skiptable :: "byte list"

definition new_QByteArrayMatcher0 :: QByteArrayMatcher where
  "new_QByteArrayMatcher0 = \<lparr>q_pattern = [], q_skiptable = replicate 256 0\<rparr>"

definition new_QByteArrayMatcher :: "byte list \<Rightarrow> QByteArrayMatcher" where
  "new_QByteArrayMatcher pattern = \<lparr>q_pattern = pattern, q_skiptable = bm_init_skiptable pattern\<rparr>"

definition matcher_assign :: "QByteArrayMatcher \<Rightarrow> QByteArrayMatcher \<Rightarrow> QByteArrayMatcher" where
  "matcher_assign m other = m\<lparr>q_pattern := q_pattern other, q_skiptable := q_skiptable other\<rparr>"

definition matcher_setPattern :: "byte list \<Rightarrow> QByteArrayMatcher \<Rightarrow> QByteArrayMatcher" where
  "matcher_setPattern pattern m = m\<lparr>q_pattern := pattern, q_skiptable := bm_init_skiptable pattern\<rparr>"

definition matcher_indexIn :: "QByteArrayMatcher \<Rightarrow> byte list \<Rightarrow> int \<Rightarrow> int option" where
  "matcher_indexIn m ba from =
    (let from = (if from < 0 then 0 else from) in bm_find ba (nat from) (q_pattern m) (q_skiptable m))"

section \<open>The first occurrence\<close>

definition occurs_at :: "byte list \<Rightarrow> byte list \<Rightarrow> nat \<Rightarrow> bool" where
  "occurs_at needle hay i \<longleftrightarrow> i + length needle \<le> length hay \<and> take (length needle) (drop i hay) = needle"

definition first_occurrence :: "byte list \<Rightarrow> byte list \<Rightarrow> nat \<Rightarrow> int" where
  "first_occurrence needle hay i =
    (case List.find (occurs_at needle hay) [i..<Suc (length hay)] of None \<Rightarrow> -1 | Some j \<Rightarrow> int j)"

lemma first_occurrence_step:
  "first_occurrence needle hay i =
    (if length hay < i + length needle then -1
     else if occurs_at needle hay i then int i else first_occurrence needle hay (Suc i))"
proof (cases "length hay < i + length needle")
  case True
  then have "List.find (occurs_at needle hay) [i..<Suc (length hay)] = None"
    by (auto simp: find_None_iff occurs_at_def)
  with True show ?thesis by (simp add: first_occurrence_def)
next
  case False
  then have "[i..<Suc (length hay)] = i # [Suc i..<Suc (length hay)]" by (simp add: upt_rec)
  with False show ?thesis by (simp add: first_occurrence_def)
qed

lemma first_occurrence_skip:
  "(\<And>j. j < k \<Longrightarrow> \<not> occurs_at needle hay (i + j)) \<Longrightarrow>
   first_occurrence needle hay i = first_occurrence needle hay (i + k)"
proof (induction k)
  case (Suc k)
  have "first_occurrence needle hay (i + k) = first_occurrence needle hay (Suc (i + k))"
    using Suc.prems [of k] first_occurrence_step [of needle hay "i + k"]
    by (cases "length hay < i + k + length needle") (auto simp: first_occurrence_step [of needle hay "Suc (i + k)"])
  then show ?case using Suc by simp
qed simp

lemma first_occurrence_end: "length hay < i + length needle \<Longrightarrow> first_occurrence needle hay i = -1"
  by (simp add: first_occurrence_step [of needle hay i])

lemma occurs_at_nth:
  "occurs_at needle hay i \<longleftrightarrow>
    i + length needle \<le> length hay \<and> (\<forall>j < length needle. hay ! (i + j) = needle ! j)"
  by (auto simp: occurs_at_def list_eq_iff_nth_eq)

section \<open>The skip table\<close>

lemma length_fill [simp]: "length (fill_skiptable cc t) = length t"
  by (induction cc t rule: fill_skiptable.induct) auto

lemma fill_skiptable_at:
  "length t = 256 \<Longrightarrow> length cc < 256 \<Longrightarrow> table_at (fill_skiptable cc t) c =
    (if c \<in> set cc then length (takeWhile (\<lambda>x. x \<noteq> c) (rev cc)) else table_at t c)"
proof (induction cc t rule: fill_skiptable.induct)
  case (2 x cc t)
  show ?case
  proof (cases "c \<in> set cc")
    case True
    then have "takeWhile (\<lambda>x. x \<noteq> c) (rev (x # cc)) = takeWhile (\<lambda>x. x \<noteq> c) (rev cc)"
      by (auto simp: takeWhile_append)
    with 2 True show ?thesis by simp
  next
    case False
    then have "takeWhile (\<lambda>y. y \<noteq> c) (rev cc) = rev cc" by auto
    moreover have "unat x = unat c \<longleftrightarrow> x = c" by (auto intro: unsigned_word_eqI)
    ultimately show ?thesis using 2 False unat_byte [of x] unat_byte [of c]
      by (auto simp: table_at_def unat_of_nat takeWhile_append nth_list_update)
  qed
qed simp

text \<open>A byte of the text cannot match the pattern at a distance from its end below the table's entry.\<close>

lemma skiptable_sound:
  assumes "j < table_at (bm_init_skiptable cc) c"
  shows "j < length cc" "rev cc ! j \<noteq> c"
proof -
  define l where "l = min (length cc) 255"
  define xs where "xs = drop (length cc - l) cc"
  have xs: "length xs = l" "l < 256" "l \<le> length cc" by (simp_all add: xs_def l_def)
  have rev: "rev xs = take l (rev cc)" by (simp add: xs_def take_rev)
  have t: "table_at (bm_init_skiptable cc) c =
      (if c \<in> set xs then length (takeWhile (\<lambda>x. x \<noteq> c) (rev xs)) else l)"
    using fill_skiptable_at [of "replicate 256 (of_nat l)" xs c] xs unat_byte [of c]
    by (simp add: bm_init_skiptable_def l_def [symmetric] xs_def [symmetric] table_at_def unat_of_nat)
  have le: "length (takeWhile (\<lambda>x. x \<noteq> c) (rev xs)) \<le> l" using length_takeWhile_le [of _ "rev xs"] xs by simp
  then have jl: "j < l" using assms t by (auto split: if_splits)
  then show "j < length cc" using xs by simp
  have "rev xs ! j \<noteq> c"
  proof (cases "c \<in> set xs")
    case True
    then have j: "j < length (takeWhile (\<lambda>x. x \<noteq> c) (rev xs))" using assms t by simp
    from nth_mem [OF j] show ?thesis using takeWhile_nth [OF j] by (auto dest: set_takeWhileD)
  next
    case False
    then show ?thesis using jl xs nth_mem [of j "rev xs"] by auto
  qed
  then show "rev cc ! j \<noteq> c" using jl by (simp add: rev)
qed

section \<open>The search\<close>

lemma bm_compare_ok:
  assumes "Suc current = i + length puc" "current < length cc" "skip \<le> length puc"
    "\<And>j. j < skip \<Longrightarrow> cc ! (current - j) = rev puc ! j"
  shows "\<exists>k \<le> length puc. bm_compare cc puc current skip = Some k \<and> (\<forall>j < k. cc ! (current - j) = rev puc ! j) \<and>
    (k < length puc \<longrightarrow> cc ! (current - k) \<noteq> rev puc ! k)"
  using assms
proof (induction cc puc current skip rule: bm_compare.induct)
  case (1 cc puc current skip)
  show ?case
  proof (cases "skip < length puc")
    case False
    with 1 show ?thesis by (subst bm_compare.simps) auto
  next
    case True
    have at: "byte_at cc (int current - int skip) = Some (cc ! (current - skip))"
      using 1 True by (auto simp: byte_at_def nat_diff_distrib)
    have r: "puc ! (length puc - 1 - skip) = rev puc ! skip" using True by (simp add: rev_nth)
    show ?thesis
    proof (cases "cc ! (current - skip) = rev puc ! skip")
      case False
      with 1 True at r show ?thesis by (intro exI [of _ skip]) (simp add: bm_compare.simps [of cc puc current skip])
    next
      case eq: True
      have "\<exists>k\<le>length puc. bm_compare cc puc current (skip + 1) = Some k \<and>
         (\<forall>j<k. cc ! (current - j) = rev puc ! j) \<and> (k < length puc \<longrightarrow> cc ! (current - k) \<noteq> rev puc ! k)"
        using 1 True at eq r by (intro "1.IH") (auto simp: less_Suc_eq)
      with True at eq r show ?thesis by (simp add: bm_compare.simps [of cc puc current skip])
    qed
  qed
qed

text \<open>A step of the search finds the occurrence or skips only positions without one.\<close>

lemma bm_step_ok:
  assumes "puc \<noteq> []" "Suc current = i + length puc" "current < length cc"
  shows "bm_step cc puc (bm_init_skiptable puc) current = Some (Inl (int i)) \<and> occurs_at puc cc i \<or>
    (\<exists>k > 0. bm_step cc puc (bm_init_skiptable puc) current = Some (Inr k) \<and> (\<forall>j < k. \<not> occurs_at puc cc (i + j)))"
proof -
  define t where "t = bm_init_skiptable puc"
  define k where "k = table_at t (cc ! current)"
  have at: "byte_at cc (int current) = Some (cc ! current)" using assms(3) by (simp add: byte_at_def)
  text \<open>An occurrence \<open>j\<close> further on has its byte \<open>d + j\<close> from the end at \<open>current - d\<close>.\<close>
  have shifted: "cc ! (current - d) = rev puc ! (d + j)" if "occurs_at puc cc (i + j)" "d + j < length puc" for d j
  proof -
    have e: "i + j + (length puc - Suc (d + j)) = current - d" using that(2) assms(2) by simp
    have "cc ! (i + j + (length puc - Suc (d + j))) = puc ! (length puc - Suc (d + j))"
      using that by (simp add: occurs_at_nth del: add_diff_assoc)
    then show ?thesis unfolding e using that(2) by (simp add: rev_nth)
  qed
  show ?thesis
  proof (cases "k = 0")
    case False
    have "\<not> occurs_at puc cc (i + j)" if "j < k" for j
      using skiptable_sound [of j puc "cc ! current"] that shifted [of j 0] by (auto simp: k_def t_def)
    with False at show ?thesis by (auto simp: bm_step_def k_def t_def Let_def)
  next
    case True
    from bm_compare_ok [OF assms(2,3), of 0] obtain s where s: "s \<le> length puc" "bm_compare cc puc current 0 = Some s"
      "\<And>j. j < s \<Longrightarrow> cc ! (current - j) = rev puc ! j" "s < length puc \<Longrightarrow> cc ! (current - s) \<noteq> rev puc ! s" by auto
    show ?thesis
    proof (cases "s = length puc")
      case eq: True
      have "cc ! (i + j) = puc ! j" if "j < length puc" for j
      proof -
        have "current - (length puc - 1 - j) = i + j" "length puc - Suc (length puc - 1 - j) = j"
          using that assms(2) by simp_all
        with s(3) [of "length puc - 1 - j"] that eq show ?thesis by (simp add: rev_nth)
      qed
      then have "occurs_at puc cc i" using assms(2,3) by (auto simp: occurs_at_nth)
      moreover have "int current - int s + 1 = int i" using assms(2) eq by simp
      ultimately show ?thesis using at s(2) eq True assms(1) by (simp add: bm_step_def k_def t_def Let_def)
    next
      case False
      then have less: "s < length puc" using s(1) by simp
      have at_s: "byte_at cc (int current - int s) = Some (cc ! (current - s))"
        using less assms(2,3) by (auto simp: byte_at_def nat_diff_distrib)
      define n where "n = (if table_at t (cc ! (current - s)) = length puc then length puc - s else 1)"
      have step: "bm_step cc puc t current = Some (Inr n)"
        using at at_s s(2) less True by (simp add: bm_step_def k_def n_def Let_def)
      have "\<not> occurs_at puc cc (i + j)" if "j < n" for j
      proof (cases "table_at t (cc ! (current - s)) = length puc")
        case True
        then have j: "s + j < length puc" using that by (simp add: n_def)
        have "rev puc ! (s + j) \<noteq> cc ! (current - s)"
          using skiptable_sound(2) [of "s + j" puc "cc ! (current - s)"] True j by (simp add: t_def)
        with shifted [of j s] j show ?thesis by auto
      next
        case False
        then have "j = 0" using that by (simp add: n_def)
        with shifted [of 0 s] s(4) less show ?thesis by auto
      qed
      moreover have "n > 0" using less by (simp add: n_def)
      ultimately show ?thesis using step by (auto simp: t_def)
    qed
  qed
qed

lemma bm_loop_ok:
  assumes "puc \<noteq> []" "Suc current = i + length puc"
  shows "bm_loop cc puc (bm_init_skiptable puc) current = Some (first_occurrence puc cc i)"
  using assms
proof (induction "length cc - current" arbitrary: current i rule: less_induct)
  case less
  show ?case
  proof (cases "current < length cc")
    case False
    then have "length cc < i + length puc" using less.prems by simp
    with False show ?thesis by (simp add: bm_loop.simps [of cc] first_occurrence_end)
  next
    case True
    from bm_step_ok [OF less.prems True] show ?thesis
    proof (elim disjE conjE exE)
      assume "bm_step cc puc (bm_init_skiptable puc) current = Some (Inl (int i))" "occurs_at puc cc i"
      with True show ?thesis
        by (simp add: bm_loop.simps [of cc puc _ current] first_occurrence_step [of puc cc i] occurs_at_def)
    next
      fix k assume k: "0 < k" "bm_step cc puc (bm_init_skiptable puc) current = Some (Inr k)"
        "\<forall>j<k. \<not> occurs_at puc cc (i + j)"
      then have f: "first_occurrence puc cc i = first_occurrence puc cc (i + k)"
        by (intro first_occurrence_skip) auto
      show ?thesis
      proof (cases "int current > int (length cc) - int k")
        case far: True
        then have "length cc < i + k + length puc" using less.prems(2) by simp
        with far True k(2) f show ?thesis by (simp add: bm_loop.simps [of cc puc _ current] first_occurrence_end)
      next
        case False
        have "bm_loop cc puc (bm_init_skiptable puc) (current + k) = Some (first_occurrence puc cc (i + k))"
          using less.prems k(1) True by (intro less.hyps) auto
        with False True k(2) f show ?thesis by (simp add: bm_loop.simps [of cc puc _ current])
      qed
    qed
  qed
qed

lemma first_occurrence_empty: "first_occurrence [] hay i = (if i > length hay then -1 else int i)"
  by (simp add: first_occurrence_step [of "[]" hay i] occurs_at_def)

lemma bm_find_ok: "bm_find cc i puc (bm_init_skiptable puc) = Some (first_occurrence puc cc i)"
  using bm_loop_ok [of puc "i + (length puc - 1)" i cc] by (auto simp: bm_find_def first_occurrence_empty)

end
