(* ===== verification/ByteSearch.thy ===== *)
theory ByteSearch
  imports ByteMatcher
begin

text \<open>
  Searching by a rolling hash: \<open>qFindByteArray\<close> (src/src/core/tools/qbytearraymatcher.cpp) and \<open>indexOf\<close>, \<open>lastIndexOf\<close>,
  \<open>count\<close>, \<open>contains\<close>, \<open>startsWith\<close> and \<open>endsWith\<close> of \<open>QByteArray\<close> (qbytearray.cpp).  Where these read the
  data of a \<open>QByteArray\<close>, its zero byte behind the end can be read too.
\<close>

unbundle bit_operations_syntax

type_synonym uint = "32 word"

text \<open>The loop over the characters, from the index \<open>i\<close> on.\<close>

fun scan_char :: "byte \<Rightarrow> nat \<Rightarrow> byte list \<Rightarrow> int" where
  "scan_char c i [] = -1"
| "scan_char c i (x # xs) = (if x = c then int i else scan_char c (Suc i) xs)"

definition findChar :: "byte list \<Rightarrow> byte \<Rightarrow> int \<Rightarrow> int" where
  "findChar str ch from =
    (let from = (if from < 0 then max (from + int (length str)) 0 else from) in
     if from < int (length str) then scan_char ch (nat from) (drop (nat from) str) else -1)"

definition bytes_at :: "byte list \<Rightarrow> int \<Rightarrow> nat \<Rightarrow> byte list option" where
  "bytes_at xs i n = (if 0 \<le> i \<and> i + int n \<le> int (length xs) then Some (take n (drop (nat i) xs)) else None)"

text \<open>The hash of the first loops, and the macro \<open>REHASH\<close>.\<close>

definition hash_bytes :: "byte list \<Rightarrow> uint" where
  "hash_bytes xs = foldl (\<lambda>hash c. push_bit 1 hash + scast c) 0 xs"

definition REHASH :: "nat \<Rightarrow> byte \<Rightarrow> uint \<Rightarrow> uint" where
  "REHASH sl a hash = push_bit 1 (if sl - 1 < 32 then hash - push_bit (sl - 1) (scast a) else hash)"

function hash_loop :: "byte list \<Rightarrow> byte list \<Rightarrow> uint \<Rightarrow> int \<Rightarrow> uint \<Rightarrow> int option" where
  "hash_loop hay needle hashNeedle i hash =
    (if i \<le> int (length hay) - int (length needle) then
       (case (byte_at hay (i + int (length needle) - 1), byte_at hay i) of
          (Some c, Some first) \<Rightarrow>
            let hash = hash + scast c in
            if hash = hashNeedle \<and> hd needle = first \<and> bytes_at hay i (length needle) = Some needle then Some i
            else hash_loop hay needle hashNeedle (i + 1) (REHASH (length needle) first hash)
        | _ \<Rightarrow> None)
     else Some (-1))"
  by pat_completeness auto
termination
  by (relation "measure (\<lambda>(hay, needle, h, i, k). nat (int (length hay) - int (length needle) + 1 - i))") auto

declare hash_loop.simps [simp del]

definition qFindByteArrayBoyerMoore :: "byte list \<Rightarrow> int \<Rightarrow> byte list \<Rightarrow> int option" where
  "qFindByteArrayBoyerMoore haystack haystackOffset needle =
    (let skiptable = bm_init_skiptable needle;
         haystackOffset = (if haystackOffset < 0 then 0 else haystackOffset)
     in bm_find haystack (nat haystackOffset) needle skiptable)"

definition qFindByteArray :: "byte list \<Rightarrow> int \<Rightarrow> byte list \<Rightarrow> int option" where
  "qFindByteArray haystack0 from needle =
    (let l = int (length haystack0);
         sl = int (length needle);
         from = (if from < 0 then from + l else from)
     in if u32 (sl + from) > u32 l then Some (-1)
        else if sl = 0 then Some from
        else if l = 0 then Some (-1)
        else if sl = 1 then Some (findChar haystack0 (hd needle) from)
        else if l > 500 \<and> sl > 5 then qFindByteArrayBoyerMoore haystack0 from needle
        else
          (case bytes_at haystack0 from (length needle) of
             None \<Rightarrow> None
           | Some window \<Rightarrow>
               hash_loop haystack0 needle (hash_bytes needle) from (hash_bytes window - scast (last window))))"

section \<open>QByteArray\<close>

definition indexOf_char :: "byte list \<Rightarrow> byte \<Rightarrow> int \<Rightarrow> int" where
  "indexOf_char d ch from =
    (let from = (if from < 0 then max (from + int (length d)) 0 else from) in
     if from < int (length d) then scan_char ch (nat from) (drop (nat from) d) else -1)"

definition indexOf_ba :: "byte list \<Rightarrow> byte list \<Rightarrow> int \<Rightarrow> int option" where
  "indexOf_ba d ba from =
    (let ol = int (length ba); l = int (length d) in
     if ol = 0 then Some from
     else if ol = 1 then Some (indexOf_char d (hd ba) from)
     else if from > l \<or> i32 (ol + from) > l then Some (-1)
     else qFindByteArray d from ba)"

text \<open>With a zero-terminated string, \<open>c\<close> up to its zero byte.\<close>

definition indexOf_str :: "byte list \<Rightarrow> byte list \<Rightarrow> int \<Rightarrow> int option" where
  "indexOf_str d c from =
    (let ol = int (length c); l = int (length d) in
     if ol = 1 then Some (indexOf_char d (hd c) from)
     else if from > l \<or> i32 (ol + from) > l then Some (-1)
     else if ol = 0 then Some from
     else qFindByteArray d from c)"

definition contains_char :: "byte list \<Rightarrow> byte \<Rightarrow> bool" where
  "contains_char d c \<longleftrightarrow> indexOf_char d c 0 \<noteq> -1"

definition contains_ba :: "byte list \<Rightarrow> byte list \<Rightarrow> bool option" where
  "contains_ba d a = map_option (\<lambda>i. i \<noteq> -1) (indexOf_ba d a 0)"

text \<open>The loop of \<open>lastIndexOf\<close>; \<open>mem\<close> is the array with its zero byte.\<close>

function hash_loop_back :: "byte list \<Rightarrow> byte list \<Rightarrow> uint \<Rightarrow> int \<Rightarrow> uint \<Rightarrow> int option" where
  "hash_loop_back mem needle hashNeedle i hash =
    (if i \<ge> 0 then
       (case byte_at mem i of
          None \<Rightarrow> None
        | Some c \<Rightarrow>
            let hash = hash + scast c in
            if hash = hashNeedle \<and> bytes_at mem i (length needle) = Some needle then Some i
            else
              (case byte_at mem (i - 1 + int (length needle)) of
                 None \<Rightarrow> None
               | Some a \<Rightarrow> hash_loop_back mem needle hashNeedle (i - 1) (REHASH (length needle) a hash)))
     else Some (-1))"
  by pat_completeness auto
termination by (relation "measure (\<lambda>(mem, needle, h, i, k). nat (i + 1))") auto

declare hash_loop_back.simps [simp del]

definition lastIndexOfHelper :: "byte list \<Rightarrow> byte list \<Rightarrow> int \<Rightarrow> int option" where
  "lastIndexOfHelper haystack needle from =
    (let l = int (length haystack);
         ol = length needle;
         mem = haystack @ [0];
         delta = l - int ol;
         from = (if from < 0 then delta else from)
     in if from < 0 \<or> from > l then Some (-1)
        else
          (let from = (if from > delta then delta else from) in
           case (bytes_at mem from ol, byte_at mem from) of
             (Some window, Some c) \<Rightarrow>
               hash_loop_back mem needle (hash_bytes (rev needle)) from (hash_bytes (rev window) - scast c)
           | _ \<Rightarrow> None))"

fun scan_back :: "byte list \<Rightarrow> byte \<Rightarrow> nat \<Rightarrow> int option" where
  "scan_back mem ch 0 = Some (-1)"
| "scan_back mem ch (Suc n) =
    (case byte_at mem (int n) of None \<Rightarrow> None | Some x \<Rightarrow> if x = ch then Some (int n) else scan_back mem ch n)"

definition lastIndexOf_char :: "byte list \<Rightarrow> byte \<Rightarrow> int \<Rightarrow> int option" where
  "lastIndexOf_char d ch from =
    (let size = int (length d);
         from = (if from < 0 then from + size else if from > size then size - 1 else from)
     in if from \<ge> 0 then scan_back (d @ [0]) ch (nat (from + 1)) else Some (-1))"

definition lastIndexOf_ba :: "byte list \<Rightarrow> byte list \<Rightarrow> int \<Rightarrow> int option" where
  "lastIndexOf_ba d ba from =
    (if length ba = 1 then lastIndexOf_char d (hd ba) from else lastIndexOfHelper d ba from)"

text \<open>The loop of \<open>count\<close>, with the search it uses; \<open>i\<close> and \<open>num\<close> are of type \<open>int\<close>.\<close>

partial_function (option) count_loop :: "(int \<Rightarrow> int option) \<Rightarrow> int \<Rightarrow> int \<Rightarrow> int option" where
  "count_loop search num i =
    (case search (i32 (i + 1)) of
       None \<Rightarrow> None
     | Some i \<Rightarrow> if i \<noteq> -1 then count_loop search (i32 (num + 1)) i else Some num)"

definition count_ba :: "byte list \<Rightarrow> byte list \<Rightarrow> int option" where
  "count_ba d ba =
    (if length d > 500 \<and> length ba > 5 then count_loop (matcher_indexIn (new_QByteArrayMatcher ba) d) 0 (-1)
     else count_loop (indexOf_ba d ba) 0 (-1))"

fun count_back :: "byte list \<Rightarrow> byte \<Rightarrow> nat \<Rightarrow> int \<Rightarrow> int" where
  "count_back d ch 0 num = num"
| "count_back d ch (Suc i) num = count_back d ch i (if d ! i = ch then num + 1 else num)"

definition count_char :: "byte list \<Rightarrow> byte \<Rightarrow> int" where
  "count_char d ch = count_back d ch (length d) 0"

definition startsWith_ba :: "byte list \<Rightarrow> byte list \<Rightarrow> bool" where
  "startsWith_ba d ba \<longleftrightarrow>
    (if ba = [] then True else if length d < length ba then False else take (length ba) d = ba)"

definition startsWith_char :: "byte list \<Rightarrow> byte \<Rightarrow> bool" where
  "startsWith_char d ch \<longleftrightarrow> (if length d = 0 then False else d ! 0 = ch)"

definition endsWith_ba :: "byte list \<Rightarrow> byte list \<Rightarrow> bool" where
  "endsWith_ba d ba \<longleftrightarrow>
    (if ba = [] then True else if length d < length ba then False
     else take (length ba) (drop (length d - length ba) d) = ba)"

definition endsWith_char :: "byte list \<Rightarrow> byte \<Rightarrow> bool" where
  "endsWith_char d ch \<longleftrightarrow> (if length d = 0 then False else d ! (length d - 1) = ch)"

definition QByteArray_left :: "byte list \<Rightarrow> int \<Rightarrow> byte list" where
  "QByteArray_left d len = (if len \<ge> int (length d) then d else take (nat (if len < 0 then 0 else len)) d)"

definition QByteArray_right :: "byte list \<Rightarrow> int \<Rightarrow> byte list" where
  "QByteArray_right d len =
    (if len \<ge> int (length d) then d
     else (let len = (if len < 0 then 0 else len) in take (nat len) (drop (length d - nat len) d)))"

definition QByteArray_mid :: "byte list \<Rightarrow> int \<Rightarrow> int \<Rightarrow> byte list" where
  "QByteArray_mid d pos len =
    (let size = int (length d) in
     if d = [] \<or> pos \<ge> size then []
     else
       (let len = (if len < 0 then size - pos else len);
            (len, pos) = (if pos < 0 then (len + pos, 0) else (len, pos));
            len = (if len + pos > size then size - pos else len)
        in if pos = 0 \<and> len = size then d else take (nat len) (drop (nat pos) d)))"

end
