(* ===== verification/ByteSearchSpec.thy ===== *)
theory ByteSearchSpec
  imports ByteSearch
begin

text \<open>
  The searches find the first and the last occurrence, the count counts all of them (that of the empty pattern runs until its
  position wraps around), and the starts for which the searches read outside of the array or find its terminator.
\<close>

section \<open>Integers\<close>

lemma int_mod_below: "- m \<le> x \<Longrightarrow> x < 0 \<Longrightarrow> x mod m = x + (m :: int)"
  using mod_pos_pos_trivial [of "x + m" m] by simp

lemma i32_nat: "n < 2147483648 \<Longrightarrow> i32 (int n) = int n"
  by (simp add: i32_id in32_def)

lemma i32_high: "2147483648 \<le> x \<Longrightarrow> x < 4294967296 \<Longrightarrow> i32 x = x - 4294967296"
  using int_mod_below [of 4294967296 "x - 2147483648 - 4294967296"] mod_add_self2 [of "x - 2147483648" 4294967296]
  unfolding i32_def by (simp add: algebra_simps mod_pos_pos_trivial)

section \<open>Single characters\<close>

lemma occurs_at_single: "occurs_at [c] hay i \<longleftrightarrow> i < length hay \<and> hay ! i = c"
  by (auto simp: occurs_at_nth)

lemma scan_char_ok: "i \<le> length hay \<Longrightarrow> scan_char c i (drop i hay) = first_occurrence [c] hay i"
proof (induction "length hay - i" arbitrary: i)
  case 0
  then show ?case by (simp add: first_occurrence_end)
next
  case (Suc n)
  then have "i < length hay" "drop i hay = hay ! i # drop (Suc i) hay" by (simp_all add: Cons_nth_drop_Suc)
  with Suc show ?case by (simp add: first_occurrence_step [of "[c]" hay i] occurs_at_single)
qed

text \<open>Where a search starts: a negative index counts from the end.\<close>

definition start_index :: "int \<Rightarrow> nat \<Rightarrow> nat" where
  "start_index from n = nat (if from < 0 then max (from + int n) 0 else from)"

lemma indexOf_char_ok: "indexOf_char d c from = first_occurrence [c] d (start_index from (length d))"
  unfolding indexOf_char_def Let_def start_index_def [symmetric]
  using scan_char_ok [of "start_index from (length d)" d c]
  by (auto simp: start_index_def first_occurrence_end split: if_splits)

lemma findChar_ok: "findChar d c from = first_occurrence [c] d (start_index from (length d))"
  using indexOf_char_ok [of d c "from"] by (simp add: findChar_def indexOf_char_def)

section \<open>The rolling hash\<close>

lemma hash_snoc: "hash_bytes (xs @ [c]) = push_bit 1 (hash_bytes xs) + scast c"
  by (simp add: hash_bytes_def)

lemma hash_Cons: "hash_bytes (c # xs) = push_bit (length xs) (scast c) + hash_bytes xs"
proof (induction xs rule: rev_induct)
  case (snoc x xs)
  then show ?case using hash_snoc [of "c # xs" x] hash_snoc [of xs x]
    by (simp add: push_bit_add ac_simps)
qed (simp add: hash_bytes_def)

lemma push_bit_vanishes: "32 \<le> n \<Longrightarrow> push_bit n (w :: uint) = 0"
  by (simp add: push_bit_word_beyond)

lemma REHASH_ok:
  "xs \<noteq> [] \<Longrightarrow> REHASH (length xs) (hd xs) (hash_bytes xs) = push_bit 1 (hash_bytes (tl xs))"
  by (cases xs) (auto simp: REHASH_def hash_Cons push_bit_vanishes)


lemma bytes_at_nat: "bytes_at xs (int i) n = (if i + n \<le> length xs then Some (take n (drop i xs)) else None)"
  by (auto simp: bytes_at_def)

lemma byte_at_nat: "byte_at xs (int i) = (if i < length xs then Some (xs ! i) else None)"
  by (auto simp: byte_at_def)

lemma window_snoc: "0 < n \<Longrightarrow> i + n \<le> length xs \<Longrightarrow> take n (drop i xs) = take (n - 1) (drop i xs) @ [xs ! (i + n - 1)]"
  by (cases n) (simp_all add: take_Suc_conv_app_nth)

lemma window_Cons: "0 < n \<Longrightarrow> i + n \<le> length xs \<Longrightarrow> take n (drop i xs) = xs ! i # take (n - 1) (drop (Suc i) xs)"
  by (cases n) (simp_all add: Cons_nth_drop_Suc [symmetric])

lemma hash_loop_ok:
  assumes "needle \<noteq> []" "i + length needle \<le> length hay \<Longrightarrow>
    hash = push_bit 1 (hash_bytes (take (length needle - 1) (drop i hay)))"
  shows "hash_loop hay needle (hash_bytes needle) (int i) hash = Some (first_occurrence needle hay i)"
  using assms
proof (induction "length hay - i" arbitrary: i hash rule: less_induct)
  case less
  define n where "n = length needle"
  have n: "0 < n" using less.prems(1) by (simp add: n_def)
  show ?case
  proof (cases "i + n \<le> length hay")
    case False
    then have "\<not> int i \<le> int (length hay) - int n" by simp
    with False show ?thesis by (simp add: hash_loop.simps [of hay] first_occurrence_end n_def)
  next
    case True
    define w where "w = take n (drop i hay)"
    define z where "z = hay ! (i + n - 1)"
    have reads: "byte_at hay (int i + int n - 1) = Some z" "byte_at hay (int i) = Some (hay ! i)"
      "bytes_at hay (int i) n = Some w"
      using byte_at_nat [of hay "i + n - 1"] True n by (auto simp: byte_at_nat bytes_at_nat w_def z_def of_nat_diff)
    have w: "hash + scast z = hash_bytes w" "length w = n" "hd w = hay ! i"
    proof -
      have "w = take (n - 1) (drop i hay) @ [z]" using window_snoc [OF n True] by (simp add: w_def z_def)
      then show "hash + scast z = hash_bytes w"
        using less.prems(2) True unfolding n_def [symmetric] by (simp only: hash_snoc)
      show "length w = n" using True by (simp add: w_def)
      show "hd w = hay ! i" using window_Cons [OF n True] by (simp add: w_def)
    qed
    have occ: "occurs_at needle hay i \<longleftrightarrow> w = needle" using True by (simp add: occurs_at_def w_def n_def)
    have head: "w = needle \<Longrightarrow> hash_bytes w = hash_bytes needle \<and> hd needle = hay ! i" using w(3) by auto
    have step: "hash_loop hay needle (hash_bytes needle) (int i) hash = (if w = needle then Some (int i)
        else hash_loop hay needle (hash_bytes needle) (int (Suc i)) (REHASH n (hay ! i) (hash_bytes w)))"
      using True reads head unfolding hash_loop.simps [of hay _ _ _ hash]
      by (simp add: n_def [symmetric] w(1) Let_def add.commute)
    have smaller: "length hay - Suc i < length hay - i" using True n by linarith
    have "w \<noteq> []" using w(2) n by auto
    then have "REHASH n (hay ! i) (hash_bytes w) = push_bit 1 (hash_bytes (tl w))" using REHASH_ok w by metis
    moreover have "tl w = take (n - 1) (drop (Suc i) hay)" using window_Cons [OF n True] by (simp add: w_def)
    ultimately have "hash_loop hay needle (hash_bytes needle) (int (Suc i)) (REHASH n (hay ! i) (hash_bytes w)) =
        Some (first_occurrence needle hay (Suc i))"
      using less.prems(1) smaller by (intro less.hyps) (simp_all add: n_def)
    with step occ True show ?thesis by (simp add: first_occurrence_step [of needle hay i] n_def)
  qed
qed

text \<open>\<open>qFindByteArray\<close> from an index of the array, for arrays whose size is an \<open>int\<close>.\<close>

lemma qFindByteArray_ok:
  assumes "length hay < 2147483648" "length needle < 2147483648" "- int (length hay) \<le> from" "from < 2147483648"
    "needle \<noteq> []"
  shows "qFindByteArray hay from needle = Some (first_occurrence needle hay (start_index from (length hay)))"
proof -
  define i where "i = start_index from (length hay)"
  define sl where "sl = length needle"
  have i: "(if from < 0 then from + int (length hay) else from) = int i" using assms(3) by (auto simp: i_def start_index_def)
  have ib: "int sl + int i < 4294967296" using assms i by (auto simp: sl_def split: if_splits)
  have u: "u32 (int sl + int i) = int sl + int i" "u32 (int (length hay)) = int (length hay)"
    using ib assms(1) by (simp_all add: u32_def)
  show ?thesis
  proof (cases "length hay < sl + i")
    case True
    then show ?thesis unfolding qFindByteArray_def Let_def i sl_def [symmetric] u
      by (simp add: first_occurrence_end i_def [symmetric] sl_def add.commute)
  next
    case False
    have single: "qFindByteArray hay from needle = Some (findChar hay (hd needle) (int i))" if "sl = 1"
      using that False unfolding qFindByteArray_def Let_def i sl_def [symmetric] u by auto
    have one: "sl = 1 \<Longrightarrow> needle = [hd needle]" by (cases needle) (auto simp: sl_def)
    have bm: "qFindByteArray hay from needle = bm_find hay i needle (bm_init_skiptable needle)"
      if "sl > 5" "length hay > 500"
      using that False unfolding qFindByteArray_def qFindByteArrayBoyerMoore_def Let_def i sl_def [symmetric] u by auto
    define w where "w = take sl (drop i hay)"
    have hash: "qFindByteArray hay from needle =
        hash_loop hay needle (hash_bytes needle) (int i) (hash_bytes w - scast (last w))"
      if "1 < sl" "\<not> (sl > 5 \<and> length hay > 500)"
      using that False bytes_at_nat [of hay i sl]
      unfolding qFindByteArray_def Let_def i sl_def [symmetric] u w_def by auto
    have "0 < sl" using assms(5) by (simp add: sl_def)
    then have w: "hash_bytes w - scast (last w) = push_bit 1 (hash_bytes (take (sl - 1) (drop i hay)))"
      using window_snoc [of sl i hay] False by (simp add: w_def hash_snoc add.commute)
    consider "sl = 1" | "sl > 5 \<and> length hay > 500" | "1 < sl" "\<not> (sl > 5 \<and> length hay > 500)"
      using \<open>0 < sl\<close> by linarith
    then show ?thesis
    proof cases
      case 1
      with single one findChar_ok [of hay "hd needle" "int i"] show ?thesis
        by (simp add: start_index_def [of "int i"] i_def [symmetric])
    next
      case 2
      with bm bm_find_ok show ?thesis by (simp add: i_def)
    next
      case 3
      with hash hash_loop_ok [OF assms(5), of i hay, OF w [unfolded sl_def]] show ?thesis by (simp add: i_def)
    qed
  qed
qed


section \<open>The last occurrence\<close>

definition last_occurrence :: "byte list \<Rightarrow> byte list \<Rightarrow> nat \<Rightarrow> int" where
  "last_occurrence needle hay n = (case List.find (occurs_at needle hay) (rev [0..<n]) of None \<Rightarrow> -1 | Some j \<Rightarrow> int j)"

lemma last_occurrence_0 [simp]: "last_occurrence needle hay 0 = -1"
  by (simp add: last_occurrence_def)

lemma last_occurrence_Suc [simp]:
  "last_occurrence needle hay (Suc n) = (if occurs_at needle hay n then int n else last_occurrence needle hay n)"
  by (simp add: last_occurrence_def)

lemma scan_back_ok:
  assumes "n \<le> length hay"
  shows "scan_back (hay @ [0]) c n = Some (last_occurrence [c] hay n)"
  using assms
proof (induction n)
  case (Suc n)
  then show ?case using byte_at_nat [of "hay @ [0]" n] by (simp add: occurs_at_single nth_append)
qed simp

lemma rev_hash_Cons: "hash_bytes (rev (c # xs)) = push_bit 1 (hash_bytes (rev xs)) + scast c"
  using hash_snoc [of "rev xs" c] by simp

lemma hash_loop_back_ok:
  assumes "n \<le> length hay" "i + n \<le> Suc (length hay)" "n = length needle"
    "hash = (if n = 0 then - scast ((hay @ [0]) ! (i - 1)) else push_bit 1 (hash_bytes (rev (tl (take n (drop (i - 1) hay))))))"
    "n = 0 \<Longrightarrow> i \<noteq> 0"
  shows "hash_loop_back (hay @ [0]) needle (hash_bytes (rev needle)) (int i - 1) hash = Some (last_occurrence needle hay i)"
  using assms
proof (induction i arbitrary: hash)
  case 0
  then show ?case by (simp add: hash_loop_back.simps [of "hay @ [0]"])
next
  case (Suc i)
  define w where "w = take n (drop i hay)"
  have le: "i + n \<le> length hay" using Suc.prems by simp
  have w: "bytes_at (hay @ [0]) (int i) n = Some w" "length w = n"
    using le bytes_at_nat [of "hay @ [0]" i n] by (simp_all add: w_def)
  define c where "c = (hay @ [0]) ! i"
  have c: "byte_at (hay @ [0]) (int i) = Some c" using byte_at_nat [of "hay @ [0]" i] le by (simp add: c_def)
  have hash: "hash + scast c = hash_bytes (rev w)"
  proof (cases "n = 0")
    case True
    then show ?thesis using Suc.prems(4) by (simp add: w_def c_def hash_bytes_def)
  next
    case False
    then have "w = c # tl w" using window_Cons [of n i hay] le by (simp add: w_def c_def nth_append)
    then have "hash_bytes (rev w) = push_bit 1 (hash_bytes (rev (tl w))) + scast c" using rev_hash_Cons by metis
    then show ?thesis using False Suc.prems(4) by (simp add: w_def)
  qed
  have occ: "occurs_at needle hay i \<longleftrightarrow> w = needle" using le Suc.prems(3) by (simp add: occurs_at_def w_def)
  show ?case
  proof (cases "w = needle")
    case True
    then show ?thesis using w c hash occ Suc.prems(3) by (simp add: hash_loop_back.simps [of "hay @ [0]" _ _ "int i"])
  next
    case False
    then have n: "0 < n" using w(2) Suc.prems(3) by auto
    define a where "a = (hay @ [0]) ! (i + n - 1)"
    have before: "i + n - 1 < length hay" using n le by linarith
    then have "a = hay ! (i + n - 1)" by (simp only: a_def nth_append if_True)
    then have a: "byte_at (hay @ [0]) (int i - 1 + int n) = Some a" "w = butlast w @ [a]"
      using byte_at_nat [of "hay @ [0]" "i + n - 1"] window_snoc [OF n le] n le before
      by (simp_all add: w_def nth_append of_nat_diff algebra_simps)
    then have rw: "rev w = a # rev (butlast w)" by (metis rev.simps(2) rev_rev_ident rev_append append_Cons append_Nil)
    then have "length (a # rev (butlast w)) = n" using w(2) by (metis length_rev)
    then have "REHASH n a (hash_bytes (rev w)) = push_bit 1 (hash_bytes (rev (butlast w)))"
      using REHASH_ok [of "a # rev (butlast w)"] by (simp add: rw)
    moreover have "i \<noteq> 0 \<Longrightarrow> butlast w = tl (take n (drop (i - 1) hay))"
      using window_snoc [OF n le] window_Cons [of n "i - 1" hay] n le by (simp add: w_def)
    ultimately have h: "i \<noteq> 0 \<Longrightarrow> REHASH n a (hash_bytes (rev w)) = push_bit 1 (hash_bytes (rev (tl (take n (drop (i - 1) hay)))))"
      by simp
    have "hash_loop_back (hay @ [0]) needle (hash_bytes (rev needle)) (int i - 1) (REHASH n a (hash_bytes (rev w))) =
        Some (last_occurrence needle hay i)"
    proof (cases "i = 0")
      case True
      then show ?thesis by (simp add: hash_loop_back.simps [of "hay @ [0]"])
    next
      case False
      with h n le Suc.prems show ?thesis by (intro Suc.IH) simp_all
    qed
    then show ?thesis using w c a hash occ False Suc.prems(3)
      by (simp add: hash_loop_back.simps [of "hay @ [0]" _ _ "int i"])
  qed
qed

text \<open>Where a backward search starts.\<close>

definition last_start :: "int \<Rightarrow> nat \<Rightarrow> nat \<Rightarrow> nat" where
  "last_start from l n = Suc (if from < 0 then l - n else min (nat from) (l - n))"

lemma lastIndexOfHelper_ok:
  assumes "length needle \<le> length hay" "from \<le> int (length hay)"
  shows "lastIndexOfHelper hay needle from = Some (last_occurrence needle hay (last_start from (length hay) (length needle)))"
proof -
  define n where "n = length needle"
  define i where "i = (if from < 0 then length hay - n else min (nat from) (length hay - n))"
  have i: "i + n \<le> length hay" using assms(1) by (auto simp: i_def n_def)
  define f where "f = (if from < 0 then int (length hay) - int n else from)"
  have f: "\<not> (f < 0 \<or> f > int (length hay))" "(if f > int (length hay) - int n then int (length hay) - int n else f) = int i"
    using assms by (auto simp: f_def i_def n_def)
  define w where "w = take n (drop i hay)"
  define c where "c = (hay @ [0]) ! i"
  have reads: "bytes_at (hay @ [0]) (int i) n = Some w" "byte_at (hay @ [0]) (int i) = Some c"
    using i bytes_at_nat [of "hay @ [0]" i n] byte_at_nat [of "hay @ [0]" i] by (simp_all add: w_def c_def)
  have h: "hash_bytes (rev w) - scast c = (if n = 0 then - scast c else push_bit 1 (hash_bytes (rev (tl w))))"
  proof (cases "n = 0")
    case False
    then have "w = c # tl w" using window_Cons [of n i hay] i by (simp add: w_def c_def nth_append)
    then have "hash_bytes (rev w) = push_bit 1 (hash_bytes (rev (tl w))) + scast c" using rev_hash_Cons by metis
    with False show ?thesis by simp
  qed (simp add: w_def hash_bytes_def)
  have "lastIndexOfHelper hay needle from =
      hash_loop_back (hay @ [0]) needle (hash_bytes (rev needle)) (int i) (hash_bytes (rev w) - scast c)"
    unfolding lastIndexOfHelper_def Let_def n_def [symmetric] f_def [symmetric] f(2) if_not_P [OF f(1)] reads by simp
  also have "\<dots> = hash_loop_back (hay @ [0]) needle (hash_bytes (rev needle)) (int (Suc i) - 1) (hash_bytes (rev w) - scast c)"
    by simp
  also have "\<dots> = Some (last_occurrence needle hay (Suc i))"
    using assms(1) i h by (intro hash_loop_back_ok [of n]) (simp_all add: n_def w_def c_def)
  finally show ?thesis by (simp add: i_def n_def last_start_def)
qed


section \<open>The searches of QByteArray\<close>

lemma QByteArrayMatcher_finds:
  "matcher_indexIn (new_QByteArrayMatcher pattern) ba from = Some (first_occurrence pattern ba (nat (max from 0)))"
  by (auto simp: matcher_indexIn_def new_QByteArrayMatcher_def bm_find_ok max_def)

text \<open>
  C27: \<open>QByteArrayMatcher\<close>, that is, the Boyer-Moore search with its table of at most 255 for patterns of any
  length, stays within the text and finds exactly the first occurrence of the pattern at or behind the
  index, -1 when there is none; setting or copying a pattern is like a matcher made for it.
\<close>
theorem QByteArrayMatcher_finds_first:
  "matcher_indexIn (new_QByteArrayMatcher pattern) ba from = Some (first_occurrence pattern ba (nat (max from 0))) \<and>
   matcher_setPattern pattern m = new_QByteArrayMatcher pattern \<and>
   matcher_assign m (new_QByteArrayMatcher pattern) = new_QByteArrayMatcher pattern"
proof -
  have "matcher_setPattern pattern m = new_QByteArrayMatcher pattern"
    "matcher_assign m (new_QByteArrayMatcher pattern) = new_QByteArrayMatcher pattern"
    by (simp_all add: matcher_setPattern_def matcher_assign_def new_QByteArrayMatcher_def)
  then show ?thesis by (simp add: QByteArrayMatcher_finds)
qed

lemma indexOf_ba_ok:
  assumes "length d < 2147483648" "length ba < 2147483648" "- int (length d) \<le> from" "from < 2147483648" "ba \<noteq> []"
  shows "indexOf_ba d ba from = Some (first_occurrence ba d (start_index from (length d)))"
proof -
  have one: "length ba = 1 \<Longrightarrow> ba = [hd ba]" by (cases ba) auto
  have far: "first_occurrence ba d (start_index from (length d)) = -1" if "i32 (int (length ba) + from) > int (length d)"
  proof -
    have "int (length ba) + from > int (length d)"
      using that assms(1-4) by (cases "in32 (int (length ba) + from)") (auto simp: i32_id in32_def)
    then show ?thesis by (intro first_occurrence_end) (auto simp: start_index_def split: if_splits)
  qed
  have gt: "first_occurrence ba d (start_index from (length d)) = -1" if "from > int (length d)"
    using that by (intro first_occurrence_end) (auto simp: start_index_def)
  show ?thesis
    using qFindByteArray_ok [OF assms] indexOf_char_ok [of d "hd ba" "from"] one assms(5) far gt
    by (cases "length ba = 1") (auto simp: indexOf_ba_def Let_def)
qed

lemma lastIndexOf_char_ok:
  assumes "- int (length d) \<le> from" "from < int (length d)"
  shows "lastIndexOf_char d c from =
    Some (last_occurrence [c] d (nat (if from < 0 then from + int (length d) + 1 else from + 1)))"
proof -
  define n where "n = nat (if from < 0 then from + int (length d) + 1 else from + 1)"
  have "n \<le> length d" using assms by (auto simp: n_def)
  moreover have "lastIndexOf_char d c from = scan_back (d @ [0]) c n"
    using assms by (auto simp: lastIndexOf_char_def n_def Let_def add.commute)
  ultimately show ?thesis using scan_back_ok by (simp add: n_def)
qed

text \<open>
  Where a search for the last occurrence starts: from a negative index, a single byte is searched from that index counted
  from the end, a longer pattern from the last index it can be at.
\<close>

definition last_index_start :: "int \<Rightarrow> nat \<Rightarrow> nat \<Rightarrow> nat" where
  "last_index_start from l n = (if from < 0 \<and> n = 1 then Suc (nat (from + int l)) else last_start from l n)"

lemma lastIndexOf_ba_ok:
  assumes "ba \<noteq> []" "length ba \<le> length d" "- int (length d) \<le> from" "from \<le> int (length d)"
  shows "lastIndexOf_ba d ba from =
    Some (if ba = [0] \<and> from = int (length d) then int (length d)
          else last_occurrence ba d (last_index_start from (length d) (length ba)))"
proof (cases "length ba = 1")
  case True
  then obtain c where ba: "ba = [c]" by (auto simp: length_Suc_conv)
  show ?thesis
  proof (cases "from < int (length d)")
    case less: True
    have "nat (if from < 0 then from + int (length d) + 1 else from + 1) = last_index_start from (length d) 1"
      using assms(3) less by (auto simp: last_index_start_def last_start_def)
    then show ?thesis using lastIndexOf_char_ok [OF assms(3) less, of c] less by (simp add: lastIndexOf_ba_def ba)
  next
    case False
    define n where "n = length d"
    have n: "0 < n" "from = int n" using False assms(2,4) ba by (auto simp: n_def)
    have "lastIndexOf_char d c from = scan_back (d @ [0]) c (Suc n)"
      unfolding lastIndexOf_char_def Let_def n_def [symmetric] n(2) by (simp add: nat_add_distrib)
    also have "\<dots> = (if c = 0 then Some (int n) else scan_back (d @ [0]) c n)"
      using byte_at_nat [of "d @ [0]" n] by (auto simp: n_def)
    also have "scan_back (d @ [0]) c n = Some (last_occurrence [c] d n)" by (rule scan_back_ok) (simp add: n_def)
    finally have "lastIndexOf_char d c from = Some (if c = 0 then int n else last_occurrence [c] d n)" by simp
    moreover have "last_index_start from n 1 = n" using n by (simp add: last_index_start_def last_start_def)
    ultimately show ?thesis using n(2) by (simp add: lastIndexOf_ba_def ba n_def)
  qed
next
  case False
  then show ?thesis using lastIndexOfHelper_ok [OF assms(2,4)] by (auto simp: lastIndexOf_ba_def last_index_start_def)
qed

text \<open>
  C28: \<open>indexOf\<close> and \<open>lastIndexOf\<close> of \<open>QByteArray\<close>, whichever of the loop over single characters, the rolling hash and
  Boyer-Moore they choose, stay within the array with its zero byte, for a pattern of at least one byte, not longer than the
  array, and a start from minus the size to the size: \<open>indexOf\<close> returns the first occurrence at or behind the start (a negative
  start counts from the end), \<open>lastIndexOf\<close> the last one at or before it (a negative start counts from the end for
  a pattern of one byte and stands for the end for a longer one), or -1; only \<open>lastIndexOf\<close> of the pattern of
  one zero byte from the size of the array returns the size, where the terminator is.  \<open>contains\<close> says whether there
  is an occurrence.
\<close>
theorem QByteArray_indexOf_first:
  assumes "length d < 2147483648" "ba \<noteq> []" "length ba \<le> length d" "- int (length d) \<le> from" "from \<le> int (length d)"
  shows "indexOf_ba d ba from = Some (first_occurrence ba d (start_index from (length d))) \<and>
    lastIndexOf_ba d ba from =
      Some (if ba = [0] \<and> from = int (length d) then int (length d)
            else last_occurrence ba d (last_index_start from (length d) (length ba))) \<and>
    contains_ba d ba = Some (\<exists>i. occurs_at ba d i)"
proof (intro conjI)
  have len: "length ba < 2147483648" "from < 2147483648" using assms by simp_all
  show "indexOf_ba d ba from = Some (first_occurrence ba d (start_index from (length d)))"
    by (rule indexOf_ba_ok [OF assms(1) len(1) assms(4) len(2) assms(2)])
  show "lastIndexOf_ba d ba from = Some (if ba = [0] \<and> from = int (length d) then int (length d)
      else last_occurrence ba d (last_index_start from (length d) (length ba)))"
    by (rule lastIndexOf_ba_ok [OF assms(2-5)])
  have "(first_occurrence ba d 0 \<noteq> -1) = (\<exists>i. occurs_at ba d i)"
  proof (cases "List.find (occurs_at ba d) [0..<Suc (length d)]")
    case None
    then have "\<not> occurs_at ba d i" if "i \<le> length d" for i using that by (simp add: find_None_iff del: upt_Suc)
    then show ?thesis using None by (auto simp: first_occurrence_def occurs_at_def simp del: upt_Suc)
  next
    case (Some i)
    then have "occurs_at ba d i" by (auto simp: find_Some_iff simp del: upt_Suc)
    with Some show ?thesis by (auto simp: first_occurrence_def simp del: upt_Suc)
  qed
  then show "contains_ba d ba = Some (\<exists>i. occurs_at ba d i)"
    using indexOf_ba_ok [OF assms(1) len(1) _ _ assms(2), of 0] by (simp add: contains_ba_def start_index_def)
qed

theorem QByteArray_indexOf_first_witness:
  "indexOf_ba [1, 2, 3, 1, 2, 3, 4] [2, 3] (-5) = Some 4 \<and> lastIndexOf_ba [1, 2, 3, 1, 2, 3, 4] [2, 3] (-5) = Some 4 \<and>
   contains_ba [1, 2, 3, 1, 2, 3, 4] [2, 3] = Some True \<and> lastIndexOf_ba [1, 0, 2] [0] 3 = Some 3"
proof -
  note t = QByteArray_indexOf_first [of "[1, 2, 3, 1, 2, 3, 4]" "[2, 3]" "-5"]
  have "occurs_at [2, 3] [1, 2, 3, 1, 2, 3, 4] 1" by (simp add: occurs_at_def)
  then have "contains_ba [1, 2, 3, 1, 2, 3, 4] [2, 3] = Some True" using t by auto
  moreover have "indexOf_ba [1, 2, 3, 1, 2, 3, 4] [2, 3] (-5) = Some 4" "lastIndexOf_ba [1, 2, 3, 1, 2, 3, 4] [2, 3] (-5) = Some 4"
    using t by (simp_all add: first_occurrence_def last_occurrence_def last_index_start_def last_start_def start_index_def occurs_at_def)
  moreover have "lastIndexOf_ba [1, 0, 2] [0] 3 = Some 3" using QByteArray_indexOf_first [of "[1, 0, 2]" "[0]" 3] by simp
  ultimately show ?thesis by simp
qed

section \<open>Counting\<close>

lemma first_occurrence_cases:
  "first_occurrence ba d i = -1 \<and> filter (occurs_at ba d) [i..<Suc (length d)] = [] \<or>
   (\<exists>j. first_occurrence ba d i = int j \<and> i \<le> j \<and> j \<le> length d \<and>
     filter (occurs_at ba d) [i..<Suc (length d)] = j # filter (occurs_at ba d) [Suc j..<Suc (length d)])"
proof (induction "Suc (length d) - i" arbitrary: i)
  case 0
  then show ?case by (simp add: first_occurrence_def)
next
  case (Suc n)
  then have u: "[i..<Suc (length d)] = i # [Suc i..<Suc (length d)]"
    using Suc(2) by (intro upt_conv_Cons) simp
  show ?case
  proof (cases "occurs_at ba d i")
    case True
    then have "first_occurrence ba d i = int i" by (simp add: first_occurrence_def u del: upt_Suc)
    then show ?thesis using True Suc(2) by (intro disjI2 exI [of _ i]) (simp add: u del: upt_Suc)
  next
    case False
    then have "first_occurrence ba d i = first_occurrence ba d (Suc i)"
      by (simp add: first_occurrence_def u del: upt_Suc)
    moreover have "filter (occurs_at ba d) [i..<Suc (length d)] = filter (occurs_at ba d) [Suc i..<Suc (length d)]"
      using False by (simp add: u del: upt_Suc)
    moreover have "n = Suc (length d) - Suc i" using Suc(2) by simp
    ultimately show ?thesis using Suc(1) [of "Suc i"] by (auto simp del: upt_Suc dest: Suc_leD)
  qed
qed

lemma count_loop_ok:
  assumes "\<And>i. i \<le> Suc (length d) \<Longrightarrow> search (int i) = Some (first_occurrence ba d i)" "i \<le> Suc (length d)"
    "length d < 2147483647" "0 \<le> num" "num \<le> int i"
  shows "count_loop search num (int i - 1) =
    Some (num + int (length (filter (occurs_at ba d) [i..<Suc (length d)])))"
  using assms(2,4,5)
proof (induction "Suc (length d) - i" arbitrary: i num rule: less_induct)
  case less
  have wraps: "i32 (int i - 1 + 1) = int i" using less.prems assms(3) by (simp add: i32_id in32_def)
  have s: "search (i32 (int i - 1 + 1)) = Some (first_occurrence ba d i)" using assms(1) [OF less.prems(1)] by (simp only: wraps)
  from first_occurrence_cases [of ba d i] show ?case
  proof (elim disjE conjE exE)
    fix j assume j: "first_occurrence ba d i = int j" "i \<le> j" "j \<le> length d"
      "filter (occurs_at ba d) [i..<Suc (length d)] = j # filter (occurs_at ba d) [Suc j..<Suc (length d)]"
    have "i32 (num + 1) = num + 1" using less.prems j(2,3) assms(3) by (simp add: i32_id in32_def)
    note wraps = wraps this
    have "count_loop search (num + 1) (int (Suc j) - 1) =
        Some (num + 1 + int (length (filter (occurs_at ba d) [Suc j..<Suc (length d)])))"
      using j less.prems by (intro less.hyps) auto
    then show ?thesis using s j(1) by (subst count_loop.simps) (simp add: j(4) wraps del: upt_Suc)
  next
    assume "first_occurrence ba d i = -1" "filter (occurs_at ba d) [i..<Suc (length d)] = []"
    then show ?thesis using s by (subst count_loop.simps) (simp del: upt_Suc)
  qed
qed

text \<open>
  For the empty pattern \<open>indexOf\<close> returns its start, whatever that is, so the loop goes on behind the end of the array until
  the index, an \<open>int\<close>, has wrapped around to -1; the count, an \<open>int\<close> too, has wrapped around then.
\<close>

lemma count_loop_wraps:
  assumes "\<And>i. search i = Some i" "in32 num" "in32 i"
  shows "count_loop search num i = Some (i32 (num - i - 2))"
  using assms(2,3)
proof (induction "nat (if i \<le> -2 then - 2 - i else 4294967294 - i)" arbitrary: num i rule: less_induct)
  case less
  show ?case
  proof (cases "i = -2")
    case True
    then show ?thesis using less.prems by (subst count_loop.simps) (simp add: assms(1) i32_id)
  next
    case False
    define j where "j = i32 (i + 1)"
    have "j = (if i = 2147483647 then -2147483648 else i + 1)"
      using less.prems(2) by (auto simp: j_def i32_id in32_def i32_def)
    then have j: "j \<noteq> -1" "in32 j"
      "nat (if j \<le> -2 then - 2 - j else 4294967294 - j) < nat (if i \<le> -2 then - 2 - i else 4294967294 - i)"
      using False less.prems(2) by (auto simp: in32_def)
    from less.hyps [OF j(3), of "i32 (num + 1)"] j(2)
    have "count_loop search (i32 (num + 1)) j = Some (i32 (i32 (num + 1) - j - 2))" by simp
    moreover have "i32 (i32 (num + 1) - j - 2) = i32 (num - i - 2)"
    proof -
      have "j mod 4294967296 = (i + 1) mod 4294967296" unfolding j_def by (rule i32_mod)
      from mod_diff_cong [OF mod_diff_cong [OF i32_mod this] refl, of "num + 1" 2]
      show ?thesis unfolding i32_eq_iff by simp
    qed
    ultimately show ?thesis using j(1) by (subst count_loop.simps) (simp add: assms(1) j_def)
  qed
qed

text \<open>
  C29: \<open>count\<close> terminates and returns the number of occurrences, the overlapping ones included, by either search and for
  every pattern but the empty one; for that one \<open>indexOf\<close> finds every index, beyond the end of the array too, and the
  loop ends only when the index has gone through all values of \<open>int\<close>, with the result -1.
\<close>
theorem QByteArray_count_returns:
  assumes "length d < 2147483647" "length ba < 2147483648"
  shows "count_ba d ba =
    Some (if ba = [] then -1 else int (length (filter (occurs_at ba d) [0..<Suc (length d)])))"
proof (cases "ba = []")
  case True
  have "indexOf_ba d [] i = Some i" for i by (simp add: indexOf_ba_def)
  with True count_loop_wraps [of "indexOf_ba d []" 0 "-1"] show ?thesis by (simp add: count_ba_def i32_def)
next
  case False
  have m: "matcher_indexIn (new_QByteArrayMatcher ba) d (int i) = Some (first_occurrence ba d i)" for i
    by (simp add: QByteArrayMatcher_finds)
  have s: "indexOf_ba d ba (int i) = Some (first_occurrence ba d i)" if "i \<le> Suc (length d)" for i
    using indexOf_ba_ok [of d ba "int i"] assms that False by (simp add: start_index_def)
  show ?thesis
    using count_loop_ok [of d "indexOf_ba d ba" ba 0 0, OF s] count_loop_ok [of d _ ba 0 0, OF m] False assms(1)
    by (simp add: count_ba_def del: upt_Suc)
qed

theorem QByteArray_count_returns_witness:
  "count_ba [1, 1, 1, 2] [1, 1] = Some 2 \<and> count_ba [1, 1] [] = Some (-1)"
  using QByteArray_count_returns [of "[1, 1, 1, 2]" "[1, 1]"] QByteArray_count_returns [of "[1, 1]" "[]"]
  by (simp add: occurs_at_def)

section \<open>Reads outside of the array\<close>

text \<open>A search that is given up because the pattern does not fit behind the start.\<close>

lemma indexOf_ba_front:
  assumes "length d < 2147483648" "length ba < 2147483648" "-2147483648 \<le> from" "from < - int (length d)"
  shows "indexOf_ba d ba from = None \<longleftrightarrow>
    2 \<le> length ba \<and> d \<noteq> [] \<and> 0 \<le> int (length ba) + from + int (length d) \<and> int (length ba) + from \<le> 0 \<and>
    \<not> (500 < length d \<and> 5 < length ba)"
proof -
  define l where "l = int (length d)"
  define ol where "ol = int (length ba)"
  define f where "f = from + l"
  have l: "0 \<le> l" "l < 2147483648" "d \<noteq> [] \<longleftrightarrow> l \<noteq> 0" and ol: "0 \<le> ol" "ol < 2147483648" "ba = [] \<longleftrightarrow> ol = 0"
    using assms(1,2) by (auto simp: l_def ol_def)
  have f: "f < 0" "from < 0" "\<not> from > l" "-2147483648 \<le> f" using assms(3,4) l(1) by (simp_all add: f_def l_def)
  have sum: "i32 (ol + from) = ol + from" using assms(3) ol f(2) by (simp add: i32_id in32_def)
  have u: "u32 (ol + f) > u32 l \<longleftrightarrow> ol + f < 0 \<or> ol + f > l"
  proof (cases "ol + f < 0")
    case True
    have "u32 (ol + f) = ol + f + 4294967296"
      unfolding u32_def using True f(4) ol(1) by (intro int_mod_below) simp_all
    then show ?thesis using True f(4) ol(1) l by (simp add: u32_def)
  next
    case False
    then show ?thesis using f(1) ol(2) l by (simp add: u32_def)
  qed
  have "bytes_at d f (length ba) = None" using f(1) by (simp add: bytes_at_def)
  then have "indexOf_ba d ba from = None \<longleftrightarrow>
      ol \<noteq> 0 \<and> ol \<noteq> 1 \<and> \<not> ol + from > l \<and> \<not> (ol + f < 0 \<or> ol + f > l) \<and> l \<noteq> 0 \<and> \<not> (l > 500 \<and> ol > 5)"
    unfolding indexOf_ba_def qFindByteArray_def Let_def l_def [symmetric] ol_def [symmetric] sum
      if_P [OF f(2)] f_def [symmetric] u qFindByteArrayBoyerMoore_def bm_find_ok
    using f(3) by simp
  moreover have "2 \<le> length ba \<longleftrightarrow> 2 \<le> ol" "500 < length d \<longleftrightarrow> l > 500" "5 < length ba \<longleftrightarrow> ol > 5"
    by (auto simp: ol_def l_def)
  ultimately show ?thesis unfolding l(3) l_def [symmetric] ol_def [symmetric] f_def using l(1) ol(1) by auto
qed

lemma last_occurrence_less: "last_occurrence needle hay n < int n \<or> n = 0 \<and> last_occurrence needle hay n = -1"
  by (induction n) auto

lemma lastIndexOf_char_size: "lastIndexOf_char d c from = Some (int (length d)) \<longleftrightarrow> from = int (length d) \<and> c = 0"
proof -
  have less: "scan_back (d @ [0]) c n \<noteq> Some (int (length d))" if "n \<le> length d" for n
    using scan_back_ok [OF that, of c] last_occurrence_less [of "[c]" d n] that by auto
  consider "from = int (length d)" | "from \<noteq> int (length d)" by blast
  then show ?thesis
  proof cases
    case 1
    have "lastIndexOf_char d c from = scan_back (d @ [0]) c (Suc (length d))"
      by (simp add: lastIndexOf_char_def 1 nat_add_distrib Let_def)
    then show ?thesis using 1 less [of "length d"] byte_at_nat [of "d @ [0]" "length d"] by auto
  next
    case 2
    define f where "f = (if from < 0 then from + int (length d) else if from > int (length d) then int (length d) - 1 else from)"
    have "nat (f + 1) \<le> length d" using 2 by (auto simp: f_def)
    then have "lastIndexOf_char d c from \<noteq> Some (int (length d))"
      using less [of "nat (f + 1)"] unfolding lastIndexOf_char_def Let_def f_def [symmetric] by auto
    with 2 show ?thesis by simp
  qed
qed

lemma lastIndexOf_ba_none:
  assumes "-2147483648 \<le> from" "from < 2147483648"
  shows "lastIndexOf_ba d ba from = None \<longleftrightarrow>
    length d < length ba \<and> length ba \<noteq> 1 \<and> 0 \<le> from \<and> from \<le> int (length d)"
proof (cases "length ba = 1")
  case True
  have "scan_back (d @ [0]) c n \<noteq> None" if "n \<le> Suc (length d)" for c n
    using that byte_at_nat [of "d @ [0]"] by (induction n) (auto split: option.splits)
  then have "lastIndexOf_char d c from \<noteq> None" for c
    by (auto simp: lastIndexOf_char_def Let_def)
  with True show ?thesis by (simp add: lastIndexOf_ba_def)
next
  case False
  show ?thesis
  proof (cases "length ba \<le> length d")
    case True
    then show ?thesis using False lastIndexOfHelper_ok [OF True, of "from"]
      by (cases "from \<le> int (length d)") (auto simp: lastIndexOf_ba_def lastIndexOfHelper_def Let_def)
  next
    case longer: False
    have "bytes_at (d @ [0]) (int (length d) - int (length ba)) (length ba) = None"
      using longer by (simp add: bytes_at_def)
    then show ?thesis using longer False by (auto simp: lastIndexOf_ba_def lastIndexOfHelper_def Let_def)
  qed
qed

text \<open>
  C30: Exactly the calls for which the searches read outside of the array, for every start of type \<open>int\<close>: \<open>indexOf\<close>, when
  the start is more than the size before the end but the pattern, of at least two bytes, reaches from there to
  between the first byte and the end of an array that is not empty (and Boyer-Moore is not taken); \<open>lastIndexOf\<close>, when
  the pattern is longer than the array, not of one byte, and the start is an index of the array or its size.
  \<open>lastIndexOf\<close> of a character returns the size of the array, which is no index of it, exactly for the zero byte from there.
\<close>
theorem QByteArray_search_outside:
  assumes "length d < 2147483648" "length ba < 2147483648" "-2147483648 \<le> from" "from < 2147483648"
  shows "(indexOf_ba d ba from = None \<longleftrightarrow>
      from < - int (length d) \<and> 2 \<le> length ba \<and> d \<noteq> [] \<and> 0 \<le> int (length ba) + from + int (length d) \<and>
      int (length ba) + from \<le> 0 \<and> \<not> (500 < length d \<and> 5 < length ba)) \<and>
    (lastIndexOf_ba d ba from = None \<longleftrightarrow>
      length d < length ba \<and> length ba \<noteq> 1 \<and> 0 \<le> from \<and> from \<le> int (length d)) \<and>
    (lastIndexOf_char d c from = Some (int (length d)) \<longleftrightarrow> from = int (length d) \<and> c = 0)"
proof (intro conjI)
  show "indexOf_ba d ba from = None \<longleftrightarrow>
      from < - int (length d) \<and> 2 \<le> length ba \<and> d \<noteq> [] \<and> 0 \<le> int (length ba) + from + int (length d) \<and>
      int (length ba) + from \<le> 0 \<and> \<not> (500 < length d \<and> 5 < length ba)"
  proof (cases "from < - int (length d)")
    case False
    have "indexOf_ba d [] from \<noteq> None" by (simp add: indexOf_ba_def)
    moreover have "ba \<noteq> [] \<Longrightarrow> indexOf_ba d ba from \<noteq> None"
      using indexOf_ba_ok [OF assms(1,2) _ assms(4)] False by simp
    ultimately show ?thesis using False by (cases "ba = []") auto
  qed (use indexOf_ba_front [OF assms(1-3)] in simp)
  show "lastIndexOf_ba d ba from = None \<longleftrightarrow>
      length d < length ba \<and> length ba \<noteq> 1 \<and> 0 \<le> from \<and> from \<le> int (length d)"
    by (rule lastIndexOf_ba_none [OF assms(3,4)])
  show "lastIndexOf_char d c from = Some (int (length d)) \<longleftrightarrow> from = int (length d) \<and> c = 0"
    by (rule lastIndexOf_char_size)
qed

theorem QByteArray_search_outside_witness:
  "indexOf_ba [1, 2, 3] [1, 2] (-4) = None \<and> lastIndexOf_ba [1, 2, 3] [1, 2, 3, 4] 0 = None \<and>
   lastIndexOf_char [1, 2, 3] 0 3 = Some 3 \<and> indexOf_ba [1, 2, 3] [1, 2] (-100) \<noteq> None"
  using QByteArray_search_outside [of "[1, 2, 3]" "[1, 2]" "-4" 0] QByteArray_search_outside [of "[1, 2, 3]" "[1, 2, 3, 4]" 0 0]
    QByteArray_search_outside [of "[1, 2, 3]" "[1]" 3 0] QByteArray_search_outside [of "[1, 2, 3]" "[1, 2]" "-100" 0] by simp

end
