(* ===== verification/ByteReplace.thy ===== *)
theory ByteReplace
  imports ByteSearchSpec
begin

text \<open>
  \<open>insert\<close>, \<open>remove\<close>, \<open>replace\<close>, \<open>split\<close> and \<open>repeated\<close> of \<open>QByteArray\<close> (src/src/core/tools/qbytearray.cpp).  Replacing a
  pattern works in place, in one of three loops for a replacement as long as the pattern, a shorter one, or a
  longer one; the last collects up to 4095 matches and then moves the bytes between them from the back.
\<close>

definition QByteArray_insert :: "(nat \<Rightarrow> byte) \<Rightarrow> int \<Rightarrow> byte list \<Rightarrow> byte list \<Rightarrow> byte list option" where
  "QByteArray_insert junk i str d =
    (if i < 0 \<or> str = [] then Some d
     else
       (let oldsize = length d;
            dst = QByteArray_resize junk d (max (nat i) oldsize + length str)
        in case (if i > int oldsize then memmove oldsize (replicate (nat i - oldsize) 0x20) dst
                 else memmove (nat i + length str) (take (oldsize - nat i) (drop (nat i) dst)) dst) of
             None \<Rightarrow> None
           | Some dst \<Rightarrow> memmove (nat i) str dst))"

definition QByteArray_remove :: "(nat \<Rightarrow> byte) \<Rightarrow> int \<Rightarrow> int \<Rightarrow> byte list \<Rightarrow> byte list option" where
  "QByteArray_remove junk pos len d =
    (let size = int (length d) in
     if len \<le> 0 \<or> pos \<ge> size \<or> pos < 0 then Some d
     else if pos + len \<ge> size then Some (QByteArray_resize junk d (nat pos))
     else map_option (\<lambda>d. QByteArray_resize junk d (nat (size - len)))
            (memmove (nat pos) (take (nat (size - pos - len)) (drop (nat (pos + len)) d)) d))"

definition replace_at :: "(nat \<Rightarrow> byte) \<Rightarrow> int \<Rightarrow> int \<Rightarrow> byte list \<Rightarrow> byte list \<Rightarrow> byte list option" where
  "replace_at junk pos len after d =
    (if len = int (length after) \<and> pos + len \<le> int (length d) then
       (if pos < 0 then None else memmove (nat pos) (take (nat len) after) d)
     else
       (case QByteArray_remove junk pos len d of
          None \<Rightarrow> None
        | Some d \<Rightarrow> QByteArray_insert junk pos after d))"

section \<open>Replacing a pattern\<close>

text \<open>The loops; \<open>matcher\<close> is that of the pattern, \<open>bsize\<close> its length.\<close>

partial_function (option) replace_same :: "QByteArrayMatcher \<Rightarrow> nat \<Rightarrow> byte list \<Rightarrow> int \<Rightarrow> byte list \<Rightarrow> byte list option" where
  "replace_same matcher bsize after index d =
    (case matcher_indexIn matcher d index of
       None \<Rightarrow> None
     | Some index \<Rightarrow>
         if index \<noteq> -1 then
           (case memmove (nat index) after d of
              None \<Rightarrow> None
            | Some d \<Rightarrow> replace_same matcher bsize after (index + int bsize) d)
         else Some d)"

text \<open>The move of \<open>msize\<close> bytes within the array.\<close>

definition move_within :: "nat \<Rightarrow> nat \<Rightarrow> int \<Rightarrow> byte list \<Rightarrow> byte list option" where
  "move_within moveto movestart msize d =
    (if msize > 0 then
       (if movestart + nat msize \<le> length d then memmove moveto (take (nat msize) (drop movestart d)) d else None)
     else Some d)"

partial_function (option) replace_shorter ::
  "QByteArrayMatcher \<Rightarrow> nat \<Rightarrow> byte list \<Rightarrow> nat \<Rightarrow> nat \<Rightarrow> nat \<Rightarrow> int \<Rightarrow> byte list \<Rightarrow> (nat \<times> nat \<times> nat \<times> byte list) option" where
  "replace_shorter matcher bsize after to movestart num index d =
    (case matcher_indexIn matcher d index of
       None \<Rightarrow> None
     | Some index \<Rightarrow>
         if index \<noteq> -1 then
           (let msize = index - int movestart in
            case (if num \<noteq> 0 then move_within to movestart msize d else Some d) of
              None \<Rightarrow> None
            | Some d \<Rightarrow>
                (let to = (if num \<noteq> 0 then (if msize > 0 then to + nat msize else to) else nat index) in
                 case (if after \<noteq> [] then memmove to after d else Some d) of
                   None \<Rightarrow> None
                 | Some d \<Rightarrow>
                     (let to = to + length after;
                          index = index + int bsize
                      in replace_shorter matcher bsize after to (nat index) (num + 1) index d)))
         else Some (to, movestart, num, d))"

text \<open>Collecting at most \<open>n\<close> further matches: the indices, and where the search ended.\<close>

fun collect_matches :: "QByteArrayMatcher \<Rightarrow> nat \<Rightarrow> byte list \<Rightarrow> nat \<Rightarrow> int \<Rightarrow> (nat list \<times> int) option" where
  "collect_matches matcher bsize d 0 index = Some ([], index)"
| "collect_matches matcher bsize d (Suc n) index =
    (case matcher_indexIn matcher d index of
       None \<Rightarrow> None
     | Some index \<Rightarrow>
         if index = -1 then Some ([], index)
         else map_option (\<lambda>(indices, last). (nat index # indices, last))
                (collect_matches matcher bsize d n (index + int bsize)))"

text \<open>Moving the bytes behind the matches, the last match first: \<open>rev_indices\<close> are the matches still to be done.\<close>

definition move_range :: "int \<Rightarrow> int \<Rightarrow> int \<Rightarrow> byte list \<Rightarrow> byte list option" where
  "move_range moveto movestart msize d =
    (if msize = 0 then Some d
     else if moveto < 0 \<or> movestart < 0 \<or> msize < 0 then None
     else move_within (nat moveto) (nat movestart) msize d)"

fun move_matches :: "nat \<Rightarrow> byte list \<Rightarrow> nat list \<Rightarrow> int \<Rightarrow> byte list \<Rightarrow> byte list option" where
  "move_matches bsize after [] moveend d = Some d"
| "move_matches bsize after (index # rev_indices) moveend d =
    (let pos = int (length rev_indices);
         movestart = i32 (int index + int bsize);
         insertstart = i32 (int index + pos * (int (length after) - int bsize));
         moveto = i32 (insertstart + int (length after))
     in case move_range moveto movestart (moveend - movestart) d of
          None \<Rightarrow> None
        | Some d \<Rightarrow>
            (case (if after \<noteq> [] then (if insertstart < 0 then None else memmove (nat insertstart) after d) else Some d) of
               None \<Rightarrow> None
             | Some d \<Rightarrow> move_matches bsize after rev_indices (movestart - int bsize) d))"

partial_function (option) replace_longer ::
  "(nat \<Rightarrow> byte) \<Rightarrow> QByteArrayMatcher \<Rightarrow> nat \<Rightarrow> byte list \<Rightarrow> int \<Rightarrow> byte list \<Rightarrow> byte list option" where
  "replace_longer junk matcher bsize after index d =
    (if index = -1 then Some d
     else
       (case collect_matches matcher bsize d 4095 index of
          None \<Rightarrow> None
        | Some (indices, index) \<Rightarrow>
            if indices = [] then Some d
            else
              (let adjust = i32 (int (length indices) * (int (length after) - int bsize));
                   index = (if index \<noteq> -1 then i32 (index + adjust) else index);
                   newlen = i32 (int (length d) + adjust);
                   moveend = int (length d);
                   d = (if newlen > int (length d) then QByteArray_resize junk d (nat newlen) else d)
               in case move_matches bsize after (rev indices) moveend d of
                    None \<Rightarrow> None
                  | Some d \<Rightarrow> replace_longer junk matcher bsize after index d)))"

text \<open>\<open>same\<close> says whether \<open>before\<close> and \<open>after\<close> are the same pointer.\<close>

definition QByteArray_replace ::
  "(nat \<Rightarrow> byte) \<Rightarrow> bool \<Rightarrow> byte list \<Rightarrow> byte list \<Rightarrow> byte list \<Rightarrow> byte list option" where
  "QByteArray_replace junk same before after d =
    (let bsize = length before; asize = length after in
     if d = [] \<or> bsize = 0 \<or> (same \<and> bsize = asize) then Some d
     else
       (let matcher = new_QByteArrayMatcher before in
        if bsize = asize then replace_same matcher bsize after 0 d
        else if asize < bsize then
          (case replace_shorter matcher bsize after 0 0 0 0 d of
             None \<Rightarrow> None
           | Some (to, movestart, num, e) \<Rightarrow>
               if num \<noteq> 0 then
                 map_option (\<lambda>e. QByteArray_resize junk e (length d - num * (bsize - asize)))
                   (move_within to movestart (int (length d) - int movestart) e)
               else Some e)
        else replace_longer junk matcher bsize after 0 d))"

fun replace_chars :: "byte \<Rightarrow> byte \<Rightarrow> byte list \<Rightarrow> byte list" where
  "replace_chars before after [] = []"
| "replace_chars before after (i # d) = (if i = before then after else i) # replace_chars before after d"

lemma indexOf_char_bounds: "indexOf_char d c (int s) = int i \<Longrightarrow> s \<le> i \<and> i < length d"
  using first_occurrence_cases [of "[c]" d s]
  by (auto simp: indexOf_char_ok start_index_def occurs_at_single filter_eq_Cons_iff)

text \<open>\<open>split\<close>: the loop over the separators from \<open>start\<close> on.\<close>

function split_loop :: "byte list \<Rightarrow> byte \<Rightarrow> nat \<Rightarrow> byte list list" where
  "split_loop d sep start =
    (let i = indexOf_char d sep (int start) in
     if i \<ge> 0 then QByteArray_mid d (int start) (i - int start) # split_loop d sep (nat i + 1)
     else [QByteArray_mid d (int start) (-1)])"
  by pat_completeness auto
termination
proof (relation "measure (\<lambda>(d, sep, start). Suc (length d) - start)")
  fix d sep start and i :: int
  assume "i = indexOf_char d sep (int start)" "0 \<le> i"
  then have "indexOf_char d sep (int start) = int (nat i)" by simp
  from indexOf_char_bounds [OF this] show "((d, sep, nat i + 1), d, sep, start) \<in> measure (\<lambda>(d, sep, start). Suc (length d) - start)"
    by auto
qed simp

declare split_loop.simps [simp del]

definition QByteArray_split :: "byte \<Rightarrow> byte list \<Rightarrow> byte list list" where
  "QByteArray_split sep d = split_loop d sep 0"

definition QByteArray_repeated :: "int \<Rightarrow> byte list \<Rightarrow> byte list" where
  "QByteArray_repeated n d =
    (if length d = 0 \<or> n = 1 then d else if n < 1 then [] else concat (replicate (nat n) d))"

section \<open>The replacement\<close>

function replace_all :: "byte list \<Rightarrow> byte list \<Rightarrow> byte list \<Rightarrow> byte list" where
  "replace_all before after xs =
    (if before \<noteq> [] \<and> length before \<le> length xs then
       (if take (length before) xs = before then after @ replace_all before after (drop (length before) xs)
        else hd xs # replace_all before after (tl xs))
     else xs)"
  by pat_completeness auto
termination
  by (relation "measure (\<lambda>(before, after, xs). length xs)") (auto simp: Suc_le_eq length_greater_0_conv [symmetric] simp del: length_greater_0_conv)

declare replace_all.simps [simp del]

lemma replace_all_skip:
  "before \<noteq> [] \<Longrightarrow> length before \<le> length xs \<Longrightarrow> take (length before) xs \<noteq> before \<Longrightarrow>
   replace_all before after xs = hd xs # replace_all before after (tl xs)"
  by (subst replace_all.simps) simp

text \<open>Up to the first occurrence nothing changes.\<close>

lemma replace_all_first:
  assumes "before \<noteq> []" "i \<le> length d"
  shows "first_occurrence before d i = -1 \<and> replace_all before after (drop i d) = drop i d \<or>
    (\<exists>j. first_occurrence before d i = int j \<and> i \<le> j \<and> j + length before \<le> length d \<and>
      replace_all before after (drop i d) =
        take (j - i) (drop i d) @ after @ replace_all before after (drop (j + length before) d))"
  using assms(2)
proof (induction "length d - i" arbitrary: i)
  case 0
  then show ?case using assms(1) by (simp add: first_occurrence_end replace_all.simps [of _ _ "[]"])
next
  case (Suc n)
  show ?case
  proof (cases "length d < i + length before")
    case True
    then have "\<not> length before \<le> length (drop i d)" using Suc(2) by auto
    with True show ?thesis by (subst replace_all.simps) (simp add: first_occurrence_end)
  next
    case fits: False
    then have room: "length before \<le> length d - i" by linarith
    show ?thesis
    proof (cases "occurs_at before d i")
      case True
      then have "replace_all before after (drop i d) = after @ replace_all before after (drop (i + length before) d)"
        using assms(1) by (subst replace_all.simps) (simp add: occurs_at_def add.commute room)
      then show ?thesis using True fits by (intro disjI2 exI [of _ i]) (simp add: first_occurrence_step [of before d i])
    next
      case False
      have less: "i < length d" using Suc(2) by simp
      have hd: "drop i d = d ! i # drop (Suc i) d" using less by (simp add: Cons_nth_drop_Suc)
      have r: "replace_all before after (drop i d) = d ! i # replace_all before after (drop (Suc i) d)"
      proof -
        have "take (length before) (drop i d) \<noteq> before" using False fits by (simp add: occurs_at_def)
        from replace_all_skip [OF assms(1) _ this, of after] room show ?thesis by (simp add: hd)
      qed
      have f: "first_occurrence before d i = first_occurrence before d (Suc i)"
        using False fits by (simp add: first_occurrence_step [of before d i])
      from Suc(1) [of "Suc i"] Suc(2) less have "first_occurrence before d (Suc i) = -1 \<and>
          replace_all before after (drop (Suc i) d) = drop (Suc i) d \<or>
        (\<exists>j. first_occurrence before d (Suc i) = int j \<and> Suc i \<le> j \<and> j + length before \<le> length d \<and>
          replace_all before after (drop (Suc i) d) =
            take (j - Suc i) (drop (Suc i) d) @ after @ replace_all before after (drop (j + length before) d))" by simp
      then show ?thesis
      proof (elim disjE conjE exE)
        fix j assume j: "first_occurrence before d (Suc i) = int j" "Suc i \<le> j" "j + length before \<le> length d"
          "replace_all before after (drop (Suc i) d) =
            take (j - Suc i) (drop (Suc i) d) @ after @ replace_all before after (drop (j + length before) d)"
        have "take (j - i) (drop i d) = d ! i # take (j - Suc i) (drop (Suc i) d)"
          using j(2) by (simp add: hd take_Cons' Suc_diff_le)
        with j f r show ?thesis by (intro disjI2 exI [of _ j]) simp
      qed (use r [unfolded hd] in \<open>simp add: f hd\<close>)
    qed
  qed
qed

lemma matcher_finds:
  "matcher_indexIn (new_QByteArrayMatcher before) d (int i) = Some (first_occurrence before d i)"
  by (simp add: QByteArrayMatcher_finds)

subsection \<open>A replacement as long as the pattern\<close>

lemma replace_same_ok:
  assumes "before \<noteq> []" "length after = length before" "i \<le> length d"
  shows "replace_same (new_QByteArrayMatcher before) (length before) after (int i) d =
    Some (take i d @ replace_all before after (drop i d))"
  using assms(3)
proof (induction "length d - i" arbitrary: i d rule: less_induct)
  case less
  from replace_all_first [OF assms(1) less.prems, of after] show ?case
  proof (elim disjE conjE exE)
    assume "first_occurrence before d i = -1" "replace_all before after (drop i d) = drop i d"
    then show ?thesis by (subst replace_same.simps) (simp add: matcher_finds)
  next
    fix j assume j: "first_occurrence before d i = int j" "i \<le> j" "j + length before \<le> length d"
      "replace_all before after (drop i d) =
        take (j - i) (drop i d) @ after @ replace_all before after (drop (j + length before) d)"
    define e where "e = take j d @ after @ drop (j + length before) d"
    have e: "memmove j after d = Some e" using j(3) assms(2) by (simp add: memmove_def e_def)
    have le: "j + length before \<le> length e" "length e = length d" using j(3) assms(2) by (simp_all add: e_def)
    have "length e - (j + length before) < length d - i" using le j assms(1) by (cases before) auto
    from less.hyps [OF this le(1)] have
      "replace_same (new_QByteArrayMatcher before) (length before) after (int (j + length before)) e =
        Some (take j d @ after @ replace_all before after (drop (j + length before) d))"
      using j(3) assms(2) by (simp add: e_def)
    moreover have "take j d = take i d @ take (j - i) (drop i d)" using j(2) by (metis le_add_diff_inverse take_add)
    ultimately show ?thesis using j(1,4) e by (subst replace_same.simps) (simp add: matcher_finds)
  qed
qed

subsection \<open>A shorter replacement\<close>

lemma move_within_ok:
  assumes "to \<le> movestart" "movestart + n \<le> length d"
  shows "\<exists>e. move_within to movestart (int n) d = Some e \<and> length e = length d \<and>
    take (to + n) e = take to d @ take n (drop movestart d) \<and> drop (movestart + n) e = drop (movestart + n) d"
proof (cases "n = 0")
  case False
  define e where "e = take to d @ take n (drop movestart d) @ drop (to + n) d"
  have "move_within to movestart (int n) d = Some e" "length e = length d"
    using False assms by (simp_all add: move_within_def memmove_def e_def)
  moreover have "take (to + n) e = take to d @ take n (drop movestart d)" using assms by (simp add: e_def)
  moreover have "drop (movestart + n) e = drop (movestart + n) d" using assms by (simp add: e_def)
  ultimately show ?thesis by blast
qed (simp add: move_within_def)

text \<open>
  Behind the first match: \<open>to\<close> bytes are done, the bytes from \<open>i\<close> on have not been touched.
\<close>

lemma replace_shorter_loop:
  assumes "length after < length before" "to \<le> i" "i \<le> length d" "0 < num"
  shows "\<exists>to' ms num' e. replace_shorter (new_QByteArrayMatcher before) (length before) after to i num (int i) d =
      Some (to', ms, num', e) \<and> 0 < num' \<and> length e = length d \<and> to' \<le> ms \<and> ms \<le> length d \<and>
    take to' e @ drop ms e = take to d @ replace_all before after (drop i d) \<and>
    ms - to' = i - to + (num' - num) * (length before - length after) \<and> num \<le> num'"
  using assms(2-)
proof (induction "length d - i" arbitrary: i d to num rule: less_induct)
  case less
  define k where "k = length before - length after"
  have ne: "before \<noteq> []" using assms(1) by auto
  from replace_all_first [OF ne less.prems(2), of after] show ?case
  proof (elim disjE conjE exE)
    assume "first_occurrence before d i = -1" "replace_all before after (drop i d) = drop i d"
    with less.prems show ?thesis by (subst replace_shorter.simps) (simp add: matcher_finds)
  next
    fix j assume j: "first_occurrence before d i = int j" "i \<le> j" "j + length before \<le> length d"
      "replace_all before after (drop i d) =
        take (j - i) (drop i d) @ after @ replace_all before after (drop (j + length before) d)"
    have msize: "int j - int i = int (j - i)" "i + (j - i) = j" using j(2) by simp_all
    from move_within_ok [of to i "j - i" d] less.prems(1) j(2,3) obtain e where
      e: "move_within to i (int (j - i)) d = Some e" "length e = length d"
      "take (to + (j - i)) e = take to d @ take (j - i) (drop i d)" "drop j e = drop j d" by auto
    define to1 where "to1 = to + (j - i)"
    have to1: "(if 0 < int (j - i) then to + nat (int (j - i)) else to) = to1" "to1 + length after \<le> j + length before" "to1 \<le> j"
      using less.prems(1) j(2) assms(1) by (auto simp: to1_def)
    define f where "f = take to1 e @ after @ drop (to1 + length after) e"
    have f: "(if after \<noteq> [] then memmove to1 after e else Some e) = Some f" "length f = length d"
      using to1 j(3) e(2) by (auto simp: memmove_def f_def)
    have "take (to1 + length after) f = take to1 e @ after" using to1 j(3) e(2) by (simp add: f_def)
    then have fin: "take (to1 + length after) f = take to d @ take (j - i) (drop i d) @ after" using e(3) by (simp add: to1_def)
    have "drop (j + length before) f = drop (j + length before) e"
      using to1 j(3) e(2) by (simp add: f_def)
    also have "\<dots> = drop (j + length before) d" using e(4) by (metis add.commute drop_drop)
    finally have rest: "drop (j + length before) f = drop (j + length before) d" .
    have smaller: "length f - (j + length before) < length d - i" using f(2) j ne by (cases before) auto
    from less.hyps [OF smaller to1(2), of "num + 1"] j(3) f(2) obtain to' ms num' g where
      g: "replace_shorter (new_QByteArrayMatcher before) (length before) after (to1 + length after) (j + length before) (num + 1)
          (int (j + length before)) f = Some (to', ms, num', g)" "0 < num'" "length g = length d" "to' \<le> ms" "ms \<le> length d"
        "take to' g @ drop ms g = take (to1 + length after) f @ replace_all before after (drop (j + length before) f)"
        "ms - to' = j + length before - (to1 + length after) + (num' - (num + 1)) * k" "num + 1 \<le> num'"
      by (auto simp: k_def)
    have "replace_shorter (new_QByteArrayMatcher before) (length before) after to i num (int i) d = Some (to', ms, num', g)"
      using less.prems(3) e(1) f(1) g(1) j(1) to1(1)
      by (subst replace_shorter.simps) (simp add: matcher_finds Let_def msize nat_add_distrib)
    moreover have "take to' g @ drop ms g = take to d @ replace_all before after (drop i d)"
      unfolding g(6) fin rest j(4) by simp
    moreover have "num' - num = Suc (num' - (num + 1))" using g(8) by simp
    then have "ms - to' = i - to + (num' - num) * k"
      using g(7) less.prems(1) j(2) assms(1) by (simp add: to1_def k_def ac_simps)
    ultimately show ?thesis using g by (auto simp: k_def)
  qed
qed

lemma replace_shorter_ok:
  assumes "length after < length before"
  shows "\<exists>to ms num e. replace_shorter (new_QByteArrayMatcher before) (length before) after 0 0 0 0 d = Some (to, ms, num, e) \<and>
    (if num = 0 then e = replace_all before after d
     else map_option (\<lambda>e. QByteArray_resize junk e (length d - num * (length before - length after)))
            (move_within to ms (int (length d) - int ms) e) = Some (replace_all before after d))"
proof -
  have ne: "before \<noteq> []" using assms by auto
  have "0 \<le> length d" by simp
  from replace_all_first [OF ne this, of after] show ?thesis
  proof (elim disjE conjE exE)
    assume "first_occurrence before d 0 = -1" "replace_all before after (drop 0 d) = drop 0 d"
    then show ?thesis using matcher_finds [of before d 0] by (subst replace_shorter.simps) simp
  next
    fix j assume j: "first_occurrence before d 0 = int j" "j + length before \<le> length d"
      "replace_all before after (drop 0 d) = take (j - 0) (drop 0 d) @ after @ replace_all before after (drop (j + length before) d)"
    define f where "f = take j d @ after @ drop (j + length after) d"
    have f: "(if after \<noteq> [] then memmove j after d else Some d) = Some f" "length f = length d"
      using assms j(2) by (auto simp: memmove_def f_def)
    have le: "j + length after \<le> j + length before" "j + length before \<le> length f" using assms j(2) f(2) by simp_all
    have parts: "take (j + length after) f = take j d @ after" "drop (j + length before) f = drop (j + length before) d"
      using assms j(2) by (simp_all add: f_def add.commute)
    from replace_shorter_loop [OF assms le, of 1] obtain to ms num e where
      e: "replace_shorter (new_QByteArrayMatcher before) (length before) after (j + length after) (j + length before) 1
        (int (j + length before)) f = Some (to, ms, num, e)" "0 < num" "length e = length d" "to \<le> ms" "ms \<le> length d"
      "take to e @ drop ms e = take (j + length after) f @ replace_all before after (drop (j + length before) f)"
      "ms - to = j + length before - (j + length after) + (num - 1) * (length before - length after)" using f(2) by auto
    have run: "replace_shorter (new_QByteArrayMatcher before) (length before) after 0 0 0 0 d = Some (to, ms, num, e)"
      using matcher_finds [of before d 0] f(1) e(1) j(1)
      by (subst replace_shorter.simps) (simp add: Let_def nat_add_distrib)
    obtain m where m: "num = Suc m" using e(2) by (cases num) auto
    then have size: "length d - num * (length before - length after) = to + (length d - ms)"
      using e(4,5,7) by simp
    have len: "int (length d) - int ms = int (length d - ms)" using e(5) by simp
    obtain g where g: "move_within to ms (int (length d - ms)) e = Some g" "length g = length d"
      "take (to + (length d - ms)) g = take to e @ take (length d - ms) (drop ms e)"
      using move_within_ok [OF e(4), of "length d - ms" e] e(3,5) by auto
    have "to + (length d - ms) \<le> length g" using e(4,5) g(2) by simp
    then have "QByteArray_resize junk g (to + (length d - ms)) = take to e @ drop ms e"
      using g(3) e(3) by (simp add: resize_shrink)
    also have "\<dots> = replace_all before after d" using e(6) parts j(3) by simp
    finally show ?thesis using run e(2) g(1) by (simp add: size len)
  qed
qed

subsection \<open>A longer replacement\<close>

text \<open>The text from \<open>i\<close> on up to and with the last of the matches \<open>ms\<close>, each of them replaced.\<close>

fun segments :: "nat \<Rightarrow> byte list \<Rightarrow> byte list \<Rightarrow> nat \<Rightarrow> nat list \<Rightarrow> byte list" where
  "segments b after d i [] = []"
| "segments b after d i (m # ms) = take (m - i) (drop i d) @ after @ segments b after d (m + b) ms"

fun segments_end :: "nat \<Rightarrow> nat \<Rightarrow> nat list \<Rightarrow> nat" where
  "segments_end b i [] = i"
| "segments_end b i (m # ms) = segments_end b (m + b) ms"

fun apart :: "nat \<Rightarrow> nat \<Rightarrow> nat list \<Rightarrow> bool" where
  "apart b i [] = True"
| "apart b i (m # ms) = (i \<le> m \<and> apart b (m + b) ms)"

lemma segments_snoc:
  "segments b after d i (ms @ [m]) =
    segments b after d i ms @ take (m - segments_end b i ms) (drop (segments_end b i ms) d) @ after"
  "segments_end b i (ms @ [m]) = m + b"
  "apart b i (ms @ [m]) \<longleftrightarrow> apart b i ms \<and> segments_end b i ms \<le> m"
  by (induction ms arbitrary: i) auto

lemma segments_end_ge: "apart b i ms \<Longrightarrow> i \<le> segments_end b i ms"
  by (induction ms arbitrary: i) fastforce+

lemma collect_matches_ok:
  assumes "before \<noteq> []" "i \<le> length d"
  shows "\<exists>ms last. collect_matches (new_QByteArrayMatcher before) (length before) d n (int i) = Some (ms, last) \<and>
    apart (length before) i ms \<and> segments_end (length before) i ms \<le> length d \<and>
    replace_all before after (drop i d) = segments (length before) after d i ms @
      (let e = segments_end (length before) i ms in if last = -1 then drop e d else replace_all before after (drop e d)) \<and>
    (last = -1 \<or> last = int (segments_end (length before) i ms)) \<and> (ms = [] \<longrightarrow> n = 0 \<or> last = -1)"
  using assms(2)
proof (induction n arbitrary: i)
  case (Suc n)
  from replace_all_first [OF assms(1) Suc.prems, of after] show ?case
  proof (elim disjE conjE exE)
    fix j assume j: "first_occurrence before d i = int j" "i \<le> j" "j + length before \<le> length d"
      "replace_all before after (drop i d) =
        take (j - i) (drop i d) @ after @ replace_all before after (drop (j + length before) d)"
    from Suc.IH [OF j(3)] obtain ms "last" where
      c: "collect_matches (new_QByteArrayMatcher before) (length before) d n (int (j + length before)) = Some (ms, last)"
      "apart (length before) (j + length before) ms" "segments_end (length before) (j + length before) ms \<le> length d"
      "replace_all before after (drop (j + length before) d) = segments (length before) after d (j + length before) ms @
        (let e = segments_end (length before) (j + length before) ms in
         if last = -1 then drop e d else replace_all before after (drop e d))"
      "last = -1 \<or> last = int (segments_end (length before) (j + length before) ms)" by blast
    then show ?thesis using j
      by (intro exI [of _ "j # ms"] exI [of _ "last"]) (simp add: matcher_finds)
  qed (simp add: matcher_finds Suc.prems)
qed simp

lemma length_segments:
  "apart b i ms \<Longrightarrow> i \<le> length d \<Longrightarrow> segments_end b i ms \<le> length d \<Longrightarrow> length after = b + k \<Longrightarrow>
   i + length (segments b after d i ms) = segments_end b i ms + length ms * k"
proof (induction ms arbitrary: i)
  case (Cons m ms)
  have "m + b \<le> segments_end b (m + b) ms" using Cons.prems by (simp add: segments_end_ge)
  with Cons.IH [of "m + b"] Cons.prems show ?case by simp
qed simp

lemma move_matches_ok:
  assumes "b < length after" "apart b i ms" "segments_end b i ms \<le> E" "E \<le> length a"
    "length G = length ms * (length after - b)" "E + length G < 2147483648"
  shows "move_matches b after (rev ms) (int E) (take E a @ G @ S) =
    Some (take i a @ segments b after a i ms @ drop (segments_end b i ms) (take E a) @ S)"
  using assms(2-)
proof (induction ms arbitrary: E G S rule: rev_induct)
  case Nil
  then show ?case by simp (metis append_assoc append_take_drop_id min.absorb1 take_take)
next
  case (snoc m ms)
  define k where "k = length after - b"
  define p where "p = length ms"
  have le: "segments_end b i ms \<le> m" "apart b i ms" "m + b \<le> E" "E \<le> length a" "length G = p * k + k"
    using snoc.prems by (simp_all add: segments_snoc k_def p_def)
  have after: "length after = b + k" "0 < k" using assms(1) by (simp_all add: k_def)
  define d where "d = take E a @ G @ S"
  define seg where "seg = drop (m + b) (take E a)"
  define moveto where "moveto = m + p * k + length after"
  have lens: "length seg = E - (m + b)" "length d = E + (p * k + k) + length S" "moveto + length seg = E + (p * k + k)"
    using le after by (simp_all add: seg_def d_def moveto_def)
  have msize: "int E - int (m + b) = int (length seg)" using le(3) lens(1) by simp
  define d1 where "d1 = take moveto d @ seg @ S"
  have "take (length seg) (drop (m + b) d) = seg" using le by (simp add: d_def seg_def)
  moreover have "drop (moveto + length seg) d = S" using le lens(3) by (simp add: d_def)
  moreover have "length seg = 0 \<Longrightarrow> take moveto d @ S = d" using lens(3) le by (simp add: d_def)
  moreover have "m + b + length seg \<le> length d" "moveto + length seg \<le> length d" using lens le by simp_all
  ultimately have d1: "move_within moveto (m + b) (int E - int (m + b)) d = Some d1"
    unfolding msize move_within_def memmove_def d1_def by (cases "length seg = 0") simp_all
  have fits: "m + b < 2147483648" "m + p * k < 2147483648" "moveto < 2147483648"
    using le after snoc.prems(5) by (simp_all add: moveto_def)
  have wraps: "i32 (int m + int b) = int (m + b)" "i32 (int m + int p * int k) = int (m + p * k)"
    "i32 (int (m + p * k) + int (length after)) = int moveto"
    using i32_nat [OF fits(1)] i32_nat [OF fits(2)] i32_nat [OF fits(3)] by (simp_all add: moveto_def)
  have "move_range (int moveto) (int (m + b)) (int E - int (m + b)) d = Some d1"
    using d1 unfolding msize move_range_def nat_int by (auto simp: move_within_def split: if_splits)
  note d1 = this
  define G' where "G' = drop m (take (m + p * k) d)"
  have "m \<le> length a" "take m d = take m a" using le by (simp_all add: d_def min_def)
  moreover have "take (m + p * k) d = take m (take (m + p * k) d) @ G'"
    unfolding G'_def by (rule append_take_drop_id [symmetric])
  ultimately have start: "take (m + p * k) d = take m a @ G'" by simp
  have "m + p * k + length after \<le> length d" using lens le after by simp
  then have G': "length G' = p * k" by (simp add: G'_def)
  define d2 where "d2 = take m a @ G' @ after @ seg @ S"
  have "(if after \<noteq> [] then memmove (m + p * k) after d1 else Some d1) = Some d2"
  proof -
    have "take (m + p * k) d1 = take (m + p * k) d" "drop (m + p * k + length after) d1 = seg @ S"
      using lens le after by (simp_all add: d1_def moveto_def)
    moreover have "m + p * k + length after \<le> length d1" using lens le after by (simp add: d1_def moveto_def)
    ultimately show ?thesis using after start by (auto simp: memmove_def d2_def)
  qed
  note d2 = this
  have ka: "int (length after) - int b = int k" using assms(1) by (simp add: k_def)
  have nn: "\<not> int (m + p * k) < 0" "int (m + b) - int b = int m" "nat (int (m + p * k)) = m + p * k"
    by (simp_all only: of_nat_less_0_iff nat_int of_nat_add)
  have step: "move_matches b after (rev (ms @ [m])) (int E) d = move_matches b after (rev ms) (int m) d2"
    unfolding rev_append rev.simps append_Nil append_Cons move_matches.simps Let_def length_rev p_def [symmetric]
      ka wraps d1 option.case if_not_P [OF nn(1)] nn d2 ..
  have "move_matches b after (rev ms) (int m) (take m a @ G' @ (after @ seg @ S)) =
      Some (take i a @ segments b after a i ms @ drop (segments_end b i ms) (take m a) @ after @ seg @ S)"
    using le G' snoc.prems(5) by (intro snoc.IH) (simp_all add: p_def k_def)
  then show ?case
    unfolding d_def [symmetric] step by (simp add: d2_def segments_snoc seg_def drop_take)
qed

lemma replace_all_longer: "length before \<le> length after \<Longrightarrow> length xs \<le> length (replace_all before after xs)"
proof (induction before after xs rule: replace_all.induct)
  case (1 before after xs)
  show ?case
  proof (cases "before \<noteq> [] \<and> length before \<le> length xs")
    case True
    then have "xs \<noteq> []" by auto
    with True 1 show ?thesis by (subst replace_all.simps) (auto simp: Let_def)
  next
    case False
    then show ?thesis by (subst replace_all.simps) auto
  qed
qed

text \<open>The sizes are of type \<open>int\<close>: the result has to fit in one.\<close>

lemma replace_longer_ok:
  assumes "before \<noteq> []" "length before < length after" "i \<le> length d"
    "length (take i d @ replace_all before after (drop i d)) < 2147483648"
  shows "replace_longer junk (new_QByteArrayMatcher before) (length before) after (int i) d =
    Some (take i d @ replace_all before after (drop i d))"
  using assms(3-)
proof (induction "length d - i" arbitrary: i d rule: less_induct)
  case less
  define b where "b = length before"
  from collect_matches_ok [OF assms(1) less.prems(1), of 4095 after] obtain ms "last" where
    c: "collect_matches (new_QByteArrayMatcher before) b d 4095 (int i) = Some (ms, last)" "apart b i ms"
    "segments_end b i ms \<le> length d"
    "replace_all before after (drop i d) = segments b after d i ms @
      (let e = segments_end b i ms in if last = -1 then drop e d else replace_all before after (drop e d))"
    "last = -1 \<or> last = int (segments_end b i ms)" "ms = [] \<longrightarrow> last = -1"
    unfolding b_def by auto
  show ?case
  proof (cases "ms = []")
    case True
    with c less.prems show ?thesis by (subst replace_longer.simps) (simp add: b_def)
  next
    case False
    define k where "k = length after - b"
    define n where "n = length ms"
    have k: "0 < k" "int (length after) - int b = int k" using assms(2) by (simp_all add: k_def b_def)
    have n: "0 < n" using False by (simp add: n_def)
    define G where "G = map junk [length d..<length d + n * k]"
    have resize: "QByteArray_resize junk d (nat (int (length d) + int n * int k)) = take (length d) d @ G @ []"
      using n k less.prems by (simp add: QByteArray_resize_def G_def nat_add_distrib nat_mult_distrib)
    define e where "e = segments_end b i ms"
    define out where "out = take i d @ segments b after d i ms"
    have len: "length out = e + n * k"
      using length_segments [OF c(2) less.prems(1) c(3), of after k] less.prems(1) assms(2)
      by (simp add: out_def e_def n_def k_def b_def)
    have "length (drop e d) \<le> length (if last = -1 then drop e d else replace_all before after (drop e d))"
      using replace_all_longer [of before after "drop e d"] assms(2) by simp
    moreover have "take i d @ replace_all before after (drop i d) =
        out @ (if last = -1 then drop e d else replace_all before after (drop e d))"
      unfolding c(4) by (simp add: out_def e_def)
    ultimately have "length out + length (drop e d) \<le> length (take i d @ replace_all before after (drop i d))"
      by (metis add_le_cancel_left length_append)
    moreover have "e \<le> length d" using c(3) by (simp add: e_def)
    ultimately have fits: "length d + n * k < 2147483648" using less.prems(2) len by simp
    have wraps: "i32 (int n * int k) = int n * int k" "i32 (int (length d) + int n * int k) = int (length d) + int n * int k"
      using fits by (simp_all add: i32_id in32_def flip: of_nat_mult)
    have moved: "move_matches b after (rev ms) (int (length d)) (take (length d) d @ G @ []) = Some (out @ drop e d)"
      using move_matches_ok [of b after i ms "length d" d G "[]"] c(2,3) k assms(2) fits
      by (simp add: out_def e_def G_def n_def k_def b_def)
    have index_back: "(if last \<noteq> -1 then i32 (last + int n * int k) else last) = (if last \<noteq> -1 then last + int n * int k else last)"
      using c(5) fits \<open>e \<le> length d\<close> by (auto simp: e_def [symmetric] i32_id in32_def simp flip: of_nat_mult)
    have run: "replace_longer junk (new_QByteArrayMatcher before) b after (int i) d =
        replace_longer junk (new_QByteArrayMatcher before) b after
          (if last \<noteq> -1 then last + int n * int k else last) (out @ drop e d)"
      using c(1) False n k moved resize
      by (subst replace_longer.simps) (simp add: Let_def n_def [symmetric] b_def [symmetric] wraps index_back)
    show ?thesis
    proof (cases "last = -1")
      case True
      have "replace_longer junk (new_QByteArrayMatcher before) b after (int i) d = Some (out @ drop e d)"
        unfolding run using True by (subst replace_longer.simps) simp
      with True c(4) show ?thesis by (simp add: out_def e_def b_def)
    next
      case more: False
      then have "last = int e" using c(5) by (simp add: e_def)
      from len have at: "(if last \<noteq> -1 then last + int n * int k else last) = int (length out)"
        using more \<open>last = int e\<close> by simp
      obtain m ms' where "ms = m # ms'" using False by (cases ms) auto
      then have "i + b \<le> e" using c(2) segments_end_ge [of b "m + b" ms'] by (simp add: e_def)
      moreover have "0 < b" using assms(1) by (simp add: b_def)
      ultimately have "length (out @ drop e d) - length out < length d - i" using c(3) by (simp add: e_def [symmetric])
      note less.hyps [OF this]
      moreover have "take i d @ replace_all before after (drop i d) = out @ replace_all before after (drop e d)"
        using more c(4) by (simp add: out_def e_def)
      then have "length (out @ replace_all before after (drop e d)) < 2147483648" using less.prems(2) by simp
      ultimately have "replace_longer junk (new_QByteArrayMatcher before) b after (int (length out)) (out @ drop e d) =
          Some (out @ replace_all before after (drop e d))" by (simp add: b_def)
      then show ?thesis unfolding b_def [symmetric] run at using more c(4) by (simp add: out_def e_def)
    qed
  qed
qed

subsection \<open>The whole replacement\<close>

lemma replace_all_same: "replace_all before before d = d"
proof (induction "length d" arbitrary: d rule: less_induct)
  case less
  show ?case
  proof (cases "before \<noteq> [] \<and> length before \<le> length d")
    case True
    then have ne: "d \<noteq> []" "0 < length before" by auto
    then have "length (drop (length before) d) < length d" "length (tl d) < length d" by auto
    note rest = less [OF this(1)] less [OF this(2)]
    have "before @ drop (length before) d = d" if "take (length before) d = before"
      using append_take_drop_id [of "length before" d] that by simp
    with True ne(1) rest show ?thesis by (subst replace_all.simps) simp
  next
    case False
    then show ?thesis by (subst replace_all.simps) auto
  qed
qed

text \<open>
  C31: \<open>replace\<close> of a pattern, which works in place in one of three loops, terminates, stays within the array and replaces
  exactly the leftmost non-overlapping occurrences, whatever the lengths of pattern and replacement and however
  many batches of 4095 matches it takes, provided that the size of the result fits in an \<open>int\<close>; without that
  the size wraps around and the moves leave the array (\<open>replace_overflow\<close> below).
\<close>
theorem QByteArray_replace_ok:
  assumes "same \<Longrightarrow> before = after" "length (replace_all before after d) < 2147483648"
  shows "QByteArray_replace junk same before after d = Some (if before = [] then d else replace_all before after d)"
proof -
  consider "d = [] \<or> before = [] \<or> same" | "d \<noteq> []" "before \<noteq> []" "\<not> same" "length before = length after"
    | "d \<noteq> []" "before \<noteq> []" "\<not> same" "length after < length before"
    | "d \<noteq> []" "before \<noteq> []" "\<not> same" "length before < length after" by linarith
  then show ?thesis
  proof cases
    case 1
    then show ?thesis
      using assms replace_all_same [of before d] replace_all.simps [of before after "[]"] by (auto simp: QByteArray_replace_def)
  next
    case 2
    then show ?thesis using replace_same_ok [of before after 0 d] by (auto simp: QByteArray_replace_def Let_def)
  next
    case 3
    from replace_shorter_ok [OF 3(4), of d junk] obtain to ms num e where
      "replace_shorter (new_QByteArrayMatcher before) (length before) after 0 0 0 0 d = Some (to, ms, num, e)"
      "if num = 0 then e = replace_all before after d
       else map_option (\<lambda>e. QByteArray_resize junk e (length d - num * (length before - length after)))
              (move_within to ms (int (length d) - int ms) e) = Some (replace_all before after d)" by blast
    then show ?thesis using 3 by (simp add: QByteArray_replace_def split: if_splits)
  next
    case 4
    then show ?thesis using replace_longer_ok [of before after 0 d junk] assms(2) by (simp add: QByteArray_replace_def)
  qed
qed

theorem QByteArray_replace_ok_witness:
  "QByteArray_replace (\<lambda>i. 0xCD) False [1, 1] [7, 8, 9] [1, 1, 1, 2, 1, 1] = Some [7, 8, 9, 1, 2, 7, 8, 9]"
  using QByteArray_replace_ok [of False "[1, 1]" "[7, 8, 9]" "[1, 1, 1, 2, 1, 1]" "\<lambda>i. 0xCD"]
  by (simp add: replace_all.simps)

text \<open>
  One match at the start of the array, and a replacement with which the result would not fit in an \<open>int\<close>: \<open>newlen\<close>
  is negative, the array keeps its size, and the bytes behind the match are moved behind its end.
\<close>

lemma replace_overflow:
  assumes "before \<noteq> []" "length before < length after" "rest \<noteq> []"
    "first_occurrence before (before @ rest) (length before) = -1"
    "length (before @ rest) < 2147483648" "length after < 2147483648" "2147483648 \<le> length after + length rest"
  shows "QByteArray_replace junk False before after (before @ rest) = None"
proof -
  define b where "b = length before"
  define d where "d = before @ rest"
  have "first_occurrence before d 0 = 0"
    using first_occurrence_step [of before d 0] by (simp add: d_def occurs_at_def)
  then have found: "collect_matches (new_QByteArrayMatcher before) b d 4095 0 = Some ([0], -1)"
    using matcher_finds [of before d 0] matcher_finds [of before d b] assms(4)
    by (simp add: b_def d_def numeral_eq_Suc)
  have lens: "length d = b + length rest" "0 < length rest" "b < length after" using assms by (simp_all add: d_def b_def)
  have wraps: "i32 (int (length after) - int b) = int (length after) - int b"
    "\<not> i32 (int (length d) + (int (length after) - int b)) > int (length d)"
    "i32 (int b) = int b" "i32 (int (length after)) = int (length after)"
    using assms(5-7) lens i32_high [of "int (length rest) + int (length after)"]
    by (simp_all add: i32_id in32_def b_def algebra_simps)
  have "move_range (int (length after)) (int b) (int (length d) - int b) d = None"
    using lens assms(5-7) by (auto simp: move_range_def move_within_def memmove_def b_def)
  then have "move_matches b after [0] (int (length d)) d = None" by (simp add: wraps i32_id)
  then have "replace_longer junk (new_QByteArrayMatcher before) b after 0 d = None"
    using found wraps by (subst replace_longer.simps) (simp add: Let_def)
  then show ?thesis using assms(1,2) by (simp add: QByteArray_replace_def Let_def b_def d_def)
qed

section \<open>Inserting, removing and replacing at a position\<close>

lemma memmove_some: "off + length xs \<le> length d \<Longrightarrow> memmove off xs d = Some (take off d @ xs @ drop (off + length xs) d)"
  by (simp add: memmove_def)

lemma insert_ok:
  assumes "0 \<le> i"
  shows "QByteArray_insert junk i str d =
    Some (if str = [] then d else take (nat i) d @ replicate (nat i - length d) 0x20 @ str @ drop (nat i) d)"
proof (cases "str = []")
  case False
  define n where "n = nat i"
  have i: "i = int n" using assms by (simp add: n_def)
  define dst where "dst = QByteArray_resize junk d (max n (length d) + length str)"
  have dst: "length dst = max n (length d) + length str" "take (length d) dst = d"
    by (simp_all add: dst_def resize_bytes(2) resize_take)
  define e where "e = take n d @ replicate (n - length d) 0x20 @ drop n dst"
  show ?thesis
  proof (cases "n > length d")
    case True
    have "memmove (length d) (replicate (n - length d) 0x20) dst = Some (d @ replicate (n - length d) 0x20 @ drop n dst)"
      using True dst by (simp add: memmove_some)
    moreover have "memmove n str (d @ replicate (n - length d) 0x20 @ drop n dst) = Some (d @ replicate (n - length d) 0x20 @ str)"
      using True dst by (simp add: memmove_some)
    ultimately show ?thesis
      using False True unfolding QByteArray_insert_def Let_def i nat_int dst_def [symmetric] by simp
  next
    case le: False
    have "take (length d - n) (drop n dst) = drop n d"
      using le dst(2) by (metis add_diff_inverse_nat drop_take)
    then have "memmove (n + length str) (take (length d - n) (drop n dst)) dst = Some (take (n + length str) dst @ drop n d)"
      using le dst(1) by (simp add: memmove_some)
    moreover have "take n dst = take n d" using le dst(2) by (metis min.absorb1 not_less take_take)
    then have "memmove n str (take (n + length str) dst @ drop n d) = Some (take n d @ str @ drop n d)"
      using le dst(1) by (simp add: memmove_some)
    ultimately show ?thesis
      using False le unfolding QByteArray_insert_def Let_def i nat_int dst_def [symmetric] by simp
  qed
qed (simp add: QByteArray_insert_def)

lemma remove_ok:
  assumes "0 \<le> pos" "0 \<le> len"
  shows "QByteArray_remove junk pos len d = Some (take (nat pos) d @ drop (nat pos + nat len) d)"
proof -
  obtain p n where pn: "pos = int p" "len = int n" using assms by (metis nonneg_int_cases)
  consider "n = 0 \<or> length d \<le> p" | "n \<noteq> 0" "p < length d" "length d \<le> p + n" | "n \<noteq> 0" "p + n < length d" by linarith
  then show ?thesis
  proof cases
    case 1
    then show ?thesis by (auto simp: QByteArray_remove_def pn)
  next
    case 2
    then show ?thesis by (simp add: QByteArray_remove_def pn Let_def resize_shrink)
  next
    case 3
    have t: "nat (int (length d) - int p - int n) = length d - p - n" "nat (int p + int n) = p + n"
      "nat (int (length d) - int n) = length d - n" using 3 by auto
    have "memmove p (take (length d - p - n) (drop (p + n) d)) d = Some (take p d @ drop (p + n) d @ drop (length d - n) d)"
      using 3 by (simp add: memmove_some)
    then show ?thesis using 3 unfolding QByteArray_remove_def Let_def pn t nat_int
      by (simp add: resize_shrink)
  qed
qed

text \<open>
  \<open>remove\<close>, \<open>insert\<close> and \<open>replace\<close> at a position splice the array and stay within it: a position behind the end
  is filled up with spaces, a length beyond the end is cut.  Only a replacement of the same length at a negative
  position is copied in front of the array.
\<close>
theorem QByteArray_splice:
  assumes "0 \<le> pos" "0 \<le> len" "neg < 0" "length after \<le> length d"
  shows "QByteArray_remove junk pos len d = Some (take (nat pos) d @ drop (nat (pos + len)) d) \<and>
    QByteArray_insert junk pos after d =
      Some (if after = [] then d else take (nat pos) d @ replicate (nat pos - length d) 0x20 @ after @ drop (nat pos) d) \<and>
    replace_at junk pos len after d =
      Some (take (nat pos) d @ (if after = [] then [] else replicate (nat pos - length d) 0x20) @ after @ drop (nat (pos + len)) d) \<and>
    replace_at junk neg (int (length after)) after d = None"
proof (intro conjI)
  have s: "nat (pos + len) = nat pos + nat len" using assms by (simp add: nat_add_distrib)
  show "QByteArray_remove junk pos len d = Some (take (nat pos) d @ drop (nat (pos + len)) d)"
    unfolding s by (rule remove_ok [OF assms(1,2)])
  show "QByteArray_insert junk pos after d =
      Some (if after = [] then d else take (nat pos) d @ replicate (nat pos - length d) 0x20 @ after @ drop (nat pos) d)"
    by (rule insert_ok [OF assms(1)])
  show "replace_at junk neg (int (length after)) after d = None" using assms by (simp add: replace_at_def)
  show "replace_at junk pos len after d =
      Some (take (nat pos) d @ (if after = [] then [] else replicate (nat pos - length d) 0x20) @ after @ drop (nat (pos + len)) d)"
  proof (cases "len = int (length after) \<and> pos + len \<le> int (length d)")
    case True
    then have "nat pos + length after \<le> length d" "nat len = length after" using assms by auto
    then show ?thesis using True assms unfolding s by (simp add: replace_at_def memmove_some)
  next
    case False
    have "nat pos - length (take (nat pos) d @ drop (nat pos + nat len) d) = nat pos - length d" by auto
    moreover have "drop (nat pos) (take (nat pos) d @ drop (nat pos + nat len) d) = drop (nat pos + nat len) d"
      by (cases "nat pos \<le> length d") simp_all
    ultimately show ?thesis using False unfolding s
      by (auto simp: replace_at_def remove_ok [OF assms(1,2)] insert_ok [OF assms(1)])
  qed
qed

theorem QByteArray_splice_witness:
  "QByteArray_remove (\<lambda>i. 0xCD) 1 2 [1, 2, 3, 4] = Some [1, 4] \<and> QByteArray_insert (\<lambda>i. 0xCD) 1 [9] [1, 2, 3, 4] = Some [1, 9, 2, 3, 4] \<and>
   replace_at (\<lambda>i. 0xCD) 1 2 [9] [1, 2, 3, 4] = Some [1, 9, 4] \<and> replace_at (\<lambda>i. 0xCD) (-1) 1 [9] [1, 2, 3, 4] = None"
  using QByteArray_splice [of 1 2 "-1" "[9]" "[1, 2, 3, 4]" "\<lambda>i. 0xCD"] by (simp add: numeral_eq_Suc)

end
