(* ===== verification/ByteCodec.thy ===== *)
theory ByteCodec
  imports ByteReplace
begin

text \<open>
  The text encodings of \<open>QByteArray\<close> (src/src/core/tools/qbytearray.cpp): hexadecimal, Base64 and percent encoding.
  The arrays that are written through a pointer are the lists of the bytes written.
\<close>

unbundle bit_operations_syntax

section \<open>Hexadecimal\<close>

definition tohex :: "byte list" where
  "tohex = map word_of_nat ([0x30..<0x3A] @ [0x61..<0x67])"

fun toHex :: "byte list \<Rightarrow> byte list" where
  "toHex [] = []"
| "toHex (c # d) = tohex ! unat (drop_bit 4 c AND 0xF) # tohex ! unat (c AND 0xF) # toHex d"

definition hex_digit :: "byte \<Rightarrow> byte option" where
  "hex_digit ch =
    (if 0x30 \<le> ch \<and> ch \<le> 0x39 then Some (ch - 0x30)
     else if 0x61 \<le> ch \<and> ch \<le> 0x66 then Some (ch - 0x61 + 10)
     else if 0x41 \<le> ch \<and> ch \<le> 0x46 then Some (ch - 0x41 + 10)
     else None)"

text \<open>The loop from the last character to the first: \<open>invalidcount\<close>, \<open>oddhex\<close> and the bytes written so far.\<close>

fun fromHex_loop :: "byte list \<Rightarrow> nat \<Rightarrow> bool \<Rightarrow> byte list \<Rightarrow> nat \<times> byte list" where
  "fromHex_loop [] invalidcount oddhex result = (invalidcount, result)"
| "fromHex_loop (ch # rest) invalidcount oddhex result =
    (case hex_digit ch of
       None \<Rightarrow> fromHex_loop rest (invalidcount + 1) oddhex result
     | Some tmp \<Rightarrow>
         if oddhex then fromHex_loop rest invalidcount False (tmp # result)
         else fromHex_loop rest invalidcount True ((hd result OR push_bit 4 tmp) # tl result))"

text \<open>The bytes in front of \<open>result\<close> are not initialised; more than there is room for is \<open>None\<close>.\<close>

definition fromHex :: "(nat \<Rightarrow> byte) \<Rightarrow> byte list \<Rightarrow> byte list option" where
  "fromHex junk hexEncoded =
    (let size = (length hexEncoded + 1) div 2;
         (invalidcount, result) = fromHex_loop (rev hexEncoded) 0 True []
     in if length result > size then None
        else
          (let res = map junk [0..<size - length result] @ result
           in if invalidcount > 0 then QByteArray_remove junk 0 (int invalidcount) res else Some res))"

section \<open>Base64\<close>

definition base64chars :: "byte list" where
  "base64chars = map word_of_nat ([0x41..<0x5B] @ [0x61..<0x7B] @ [0x30..<0x3A] @ [0x2B, 0x2F])"

definition base64padchar :: byte where
  "base64padchar = 0x3D"

definition base64_group :: "uint \<Rightarrow> nat \<Rightarrow> byte list" where
  "base64_group chunk padlen =
    (let j = drop_bit 18 (chunk AND 0x00FC0000);
         k = drop_bit 12 (chunk AND 0x0003F000);
         l = drop_bit 6 (chunk AND 0x00000FC0);
         m = chunk AND 0x0000003F
     in [base64chars ! unat j, base64chars ! unat k,
         if padlen > 1 then base64padchar else base64chars ! unat l,
         if padlen > 0 then base64padchar else base64chars ! unat m])"

text \<open>The bytes that the loop writes through its pointer.\<close>

fun toBase64_out :: "byte list \<Rightarrow> byte list" where
  "toBase64_out [] = []"
| "toBase64_out [a] = base64_group (push_bit 16 (ucast a)) 2"
| "toBase64_out [a, b] = base64_group (push_bit 16 (ucast a) OR push_bit 8 (ucast b)) 1"
| "toBase64_out (a # b # c # d) =
    base64_group (push_bit 16 (ucast a) OR push_bit 8 (ucast b) OR ucast c) 0 @ toBase64_out d"

text \<open>The array has a size that is computed as an \<open>int\<close>, none for a negative one; to write behind it is \<open>None\<close>.\<close>

definition toBase64 :: "byte list \<Rightarrow> byte list option" where
  "toBase64 d =
    (let tmp_size = i32 (i32 (int (length d) * 4) sdiv 3 + 3);
         out = toBase64_out d
     in if int (length out) > max 0 tmp_size then None else Some out)"

definition base64_value :: "byte \<Rightarrow> uint option" where
  "base64_value ch =
    (if 0x41 \<le> ch \<and> ch \<le> 0x5A then Some (ucast (ch - 0x41))
     else if 0x61 \<le> ch \<and> ch \<le> 0x7A then Some (ucast (ch - 0x61 + 26))
     else if 0x30 \<le> ch \<and> ch \<le> 0x39 then Some (ucast (ch - 0x30 + 52))
     else if ch = 0x2B then Some 62
     else if ch = 0x2F then Some 63
     else None)"

text \<open>Assigning to \<open>tmp[offset]\<close>: a \<open>QByteRef\<close> makes the array longer when the index is behind its end.\<close>

definition QByteRef_assign :: "(nat \<Rightarrow> byte) \<Rightarrow> byte list \<Rightarrow> nat \<Rightarrow> byte \<Rightarrow> byte list" where
  "QByteRef_assign junk a i c = (if i \<ge> length a then QByteArray_resize junk a (i + 1) else a)[i := c]"

fun fromBase64_loop :: "(nat \<Rightarrow> byte) \<Rightarrow> byte list \<Rightarrow> uint \<Rightarrow> nat \<Rightarrow> nat \<Rightarrow> byte list \<Rightarrow> nat \<times> byte list" where
  "fromBase64_loop junk [] buf nbits offset tmp = (offset, tmp)"
| "fromBase64_loop junk (ch # rest) buf nbits offset tmp =
    (case base64_value ch of
       None \<Rightarrow> fromBase64_loop junk rest buf nbits offset tmp
     | Some d \<Rightarrow>
         (let buf = push_bit 6 buf OR d;
              nbits = nbits + 6
          in if nbits \<ge> 8 then
               fromBase64_loop junk rest (buf AND (push_bit (nbits - 8) 1 - 1)) (nbits - 8) (offset + 1)
                 (QByteRef_assign junk tmp offset (ucast (drop_bit (nbits - 8) buf)))
             else fromBase64_loop junk rest buf nbits offset tmp))"

definition fromBase64 :: "(nat \<Rightarrow> byte) \<Rightarrow> byte list \<Rightarrow> byte list" where
  "fromBase64 junk base64 =
    (let tmp = map junk [0..<nat (i32 (int (length base64) * 3) sdiv 4)];
         (offset, tmp) = fromBase64_loop junk base64 0 0 0 tmp
     in if offset < length tmp then QByteArray_resize junk tmp offset else tmp)"

section \<open>Percent encoding\<close>

definition percent_digit :: "byte \<Rightarrow> int" where
  "percent_digit a =
    (if 0x30 \<le> sint a \<and> sint a \<le> 0x39 then sint a - 0x30
     else if 0x61 \<le> sint a \<and> sint a \<le> 0x66 then sint a - 0x61 + 10
     else if 0x41 \<le> sint a \<and> sint a \<le> 0x46 then sint a - 0x41 + 10
     else sint a)"

fun q_fromPercentEncoding :: "byte \<Rightarrow> byte list \<Rightarrow> byte list" where
  "q_fromPercentEncoding percent (c # a # b # rest) =
    (if c = percent
     then word_of_int (push_bit 4 (percent_digit a) OR percent_digit b) # q_fromPercentEncoding percent rest
     else c # q_fromPercentEncoding percent (a # b # rest))"
| "q_fromPercentEncoding percent xs = xs"

text \<open>The characters of a string end at its zero byte.\<close>

definition q_strchr :: "byte list \<Rightarrow> byte \<Rightarrow> bool" where
  "q_strchr str chr \<longleftrightarrow> chr \<in> set (takeWhile (\<lambda>c. c \<noteq> 0) str)"

definition hexnumbers :: "byte list" where
  "hexnumbers = map word_of_nat ([0x30..<0x3A] @ [0x41..<0x47])"

definition toHexHelper :: "byte \<Rightarrow> byte" where
  "toHexHelper c = hexnumbers ! unat (c AND 0xF)"

definition unreserved :: "byte \<Rightarrow> bool" where
  "unreserved c \<longleftrightarrow> 0x61 \<le> c \<and> c \<le> 0x7A \<or> 0x41 \<le> c \<and> c \<le> 0x5A \<or> 0x30 \<le> c \<and> c \<le> 0x39 \<or>
    c = 0x2D \<or> c = 0x2E \<or> c = 0x5F \<or> c = 0x7E"

fun percent_out :: "byte list \<Rightarrow> byte list \<Rightarrow> byte \<Rightarrow> byte list \<Rightarrow> byte list" where
  "percent_out dontEncode alsoEncode percent [] = []"
| "percent_out dontEncode alsoEncode percent (c # input) =
    (if (unreserved c \<or> q_strchr dontEncode c) \<and> \<not> q_strchr alsoEncode c then
       c # percent_out dontEncode alsoEncode percent input
     else
       percent # toHexHelper (drop_bit 4 (c AND 0xF0)) # toHexHelper (c AND 0xF) #
         percent_out dontEncode alsoEncode percent input)"

text \<open>
  The first byte that is encoded makes the array three times as long, computed as an \<open>int\<close>; from then on every byte is
  written.  To write behind the end of the array is \<open>None\<close>.
\<close>

definition q_toPercentEncoding :: "byte list \<Rightarrow> byte list \<Rightarrow> byte \<Rightarrow> byte list \<Rightarrow> byte list option" where
  "q_toPercentEncoding dontEncode alsoEncode percent ba =
    (let output = percent_out dontEncode alsoEncode percent ba;
         detached = (length output \<noteq> length ba)
     in if detached \<and> int (length output) > max 0 (i32 (int (length ba) * 3)) then None else Some output)"

definition toPercentEncoding :: "byte list \<Rightarrow> byte list \<Rightarrow> byte \<Rightarrow> byte list \<Rightarrow> byte list option" where
  "toPercentEncoding exclude include percent d =
    (if d = [] then Some []
     else
       (let include2 = (if percent \<noteq> 0x25 \<and> unreserved percent then include @ [percent] else include)
        in q_toPercentEncoding exclude include2 percent d))"

definition fromPercentEncoding :: "byte \<Rightarrow> byte list \<Rightarrow> byte list" where
  "fromPercentEncoding percent input = (if input = [] then input else q_fromPercentEncoding percent input)"

definition q_normalizePercentEncoding :: "byte list \<Rightarrow> byte list \<Rightarrow> byte list option" where
  "q_normalizePercentEncoding exclude ba = q_toPercentEncoding exclude [] 0x25 (q_fromPercentEncoding 0x25 ba)"

section \<open>Hexadecimal digits\<close>

lemma byte_cases:
  assumes "\<And>n. n < 16 \<Longrightarrow> P (word_of_nat n)" "(c :: byte) < 16"
  shows "P c"
proof -
  have "unat c < 16" using assms(2) by (simp add: word_less_nat_alt)
  with assms(1) [of "unat c"] show ?thesis by simp
qed

lemma hex_digits: "n < 16 \<Longrightarrow> hex_digit (tohex ! n) = Some (word_of_nat n)"
proof -
  have "list_all (\<lambda>n. hex_digit (tohex ! n) = Some (word_of_nat n)) [0..<16]" by code_simp
  then show "n < 16 \<Longrightarrow> hex_digit (tohex ! n) = Some (word_of_nat n)" by (simp add: list_all_iff)
qed

lemma base64_values: "n < 64 \<Longrightarrow> base64_value (base64chars ! n) = Some (word_of_nat n)"
proof -
  have "list_all (\<lambda>n. base64_value (base64chars ! n) = Some (word_of_nat n)) [0..<64]" by code_simp
  then show "n < 64 \<Longrightarrow> base64_value (base64chars ! n) = Some (word_of_nat n)" by (simp add: list_all_iff)
qed

lemma percent_digits: "n < 16 \<Longrightarrow> percent_digit (hexnumbers ! n) = int n"
proof -
  have "list_all (\<lambda>n. percent_digit (hexnumbers ! n) = int n) [0..<16]" by code_simp
  then show "n < 16 \<Longrightarrow> percent_digit (hexnumbers ! n) = int n" by (simp add: list_all_iff)
qed

text \<open>Bytes are compared bit by bit.\<close>

lemma byte_bitI:
  assumes "bit v 0 = bit w 0" "bit v 1 = bit w 1" "bit v 2 = bit w 2" "bit v 3 = bit w 3"
    "bit v 4 = bit w 4" "bit v 5 = bit w 5" "bit v 6 = bit w 6" "bit v 7 = bit w 7"
  shows "(v :: byte) = w"
proof (rule bit_word_eqI)
  fix n assume "n < LENGTH(8)"
  then have "n = 0 \<or> n = 1 \<or> n = 2 \<or> n = 3 \<or> n = 4 \<or> n = 5 \<or> n = 6 \<or> n = 7" by auto
  then show "bit v n = bit w n" using assms by (elim disjE) simp_all
qed

lemma no_bit: "8 \<le> n \<Longrightarrow> \<not> bit (c :: byte) n"
  by (auto dest: bit_imp_le_length)

lemma nibbles: "drop_bit 4 c AND 0xF = drop_bit 4 (c :: byte)" "push_bit 4 (drop_bit 4 c) OR (c AND 0xF) = c"
  "drop_bit 4 (c AND 0xF0) = drop_bit 4 c" "(c AND 0xF) OR push_bit 4 (drop_bit 4 c) = c"
proof -
  have m: "(0xF :: byte) = mask 4" "(0xF0 :: byte) = push_bit 4 (mask 4)" by (simp_all add: mask_eq_exp_minus_1)
  show "drop_bit 4 c AND 0xF = drop_bit 4 c" "push_bit 4 (drop_bit 4 c) OR (c AND 0xF) = c"
    "drop_bit 4 (c AND 0xF0) = drop_bit 4 c" "(c AND 0xF) OR push_bit 4 (drop_bit 4 c) = c"
    unfolding m by (rule byte_bitI; simp add: bit_simps no_bit)+
qed

lemma nibble_less: "unat (drop_bit 4 c :: byte) < 16" "unat (c AND 0xF :: byte) < 16"
proof -
  have "drop_bit 4 c = drop_bit 4 c AND 0xF" by (simp add: nibbles)
  moreover have less: "unat (x AND 0xF :: byte) < 16" for x
    using word_and_le1 [of x "0xF"] by (simp add: word_le_nat_alt)
  ultimately show "unat (drop_bit 4 c :: byte) < 16" by metis
  show "unat (c AND 0xF :: byte) < 16" by (rule less)
qed

text \<open>
  The valid digits of a text, read from the end in pairs.
\<close>

lemma fromHex_loop_toHex:
  "fromHex_loop (rev (toHex d) @ rest) k True result = fromHex_loop rest k True (d @ result)"
proof (induction d arbitrary: rest result rule: rev_induct)
  case (snoc c d)
  have "toHex (d @ [c]) = toHex d @ [tohex ! unat (drop_bit 4 c AND 0xF), tohex ! unat (c AND 0xF)]"
    by (induction d) auto
  then show ?case
    using snoc [of rest "c # result"] hex_digits [OF nibble_less(1) [of c]] hex_digits [OF nibble_less(2) [of c]]
    by (simp add: nibbles)
qed simp

lemma length_toHex: "length (toHex d) = 2 * length d"
  by (induction d) auto


lemma fromHex_loop_filter:
  "fromHex_loop s k oddhex result =
    (k + length (filter (\<lambda>c. hex_digit c = None) s),
     snd (fromHex_loop (filter (\<lambda>c. hex_digit c \<noteq> None) s) 0 oddhex result))"
proof -
  have snd_k: "snd (fromHex_loop s k oddhex result) = snd (fromHex_loop s 0 oddhex result)" for s k oddhex result
  proof (induction s arbitrary: k oddhex result)
    case (Cons c s)
    show ?case
    proof (cases "hex_digit c")
      case None
      then show ?thesis using Cons [of "k + 1"] Cons [of 1] by simp
    next
      case (Some x)
      then show ?thesis using Cons [of k] by simp
    qed
  qed simp
  show ?thesis
  proof (induction s arbitrary: k oddhex result)
    case (Cons c s)
    show ?case
    proof (cases "hex_digit c")
      case None
      then show ?thesis using Cons [of "k + 1"] by simp
    next
      case (Some x)
      then show ?thesis using Cons [of k] by (cases oddhex) simp_all
    qed
  qed simp
qed

text \<open>
  C32: \<open>fromHex\<close> is the inverse of \<open>toHex\<close>, and stays within the array.  It is documented to skip invalid characters,
  but of two of them it drops a byte of the result: from a text whose valid characters are \<open>toHex d\<close> it returns
  \<open>d\<close> without half as many bytes in front as there are invalid characters.  Sizes are exact: \<open>toHex\<close> doubles that of its
  array, which is below \<open>2 ^ 30\<close>.
\<close>
theorem QByteArray_hex_roundtrip:
  assumes "filter (\<lambda>c. hex_digit c \<noteq> None) s = toHex d"
  shows "fromHex junk s = Some (drop ((length s - length (toHex d)) div 2) d)"
proof -
  define k where "k = length (filter (\<lambda>c. hex_digit c = None) s)"
  have len: "length s = k + 2 * length d"
    using sum_length_filter_compl [of "\<lambda>c. hex_digit c = None" s] assms length_toHex [of d] by (simp add: k_def)
  have rev: "filter (\<lambda>c. hex_digit c \<noteq> None) (rev s) = rev (toHex d)" "length (filter (\<lambda>c. hex_digit c = None) (rev s)) = k"
    using assms by (simp_all add: rev_filter [symmetric] k_def)
  have loop: "fromHex_loop (rev s) 0 True [] = (k, d)"
    using fromHex_loop_toHex [of d "[]" 0 "[]"] unfolding fromHex_loop_filter [of "rev s"] rev by simp
  define pad where "pad = (length s + 1) div 2 - length d"
  have pad: "pad = (k + 1) div 2" "\<not> length d > (length s + 1) div 2" using len by (simp_all add: pad_def)
  have start: "fromHex junk s = (if k > 0 then QByteArray_remove junk 0 (int k) (map junk [0..<pad] @ d) else Some (map junk [0..<pad] @ d))"
    using pad(2) loop by (simp add: fromHex_def Let_def pad_def)
  have diff: "length s - length (toHex d) = k" using len by (simp add: length_toHex)
  show ?thesis
  proof (cases "k = 0")
    case True
    then show ?thesis unfolding start diff using pad(1) by simp
  next
    case False
    have "k - pad = k div 2" "pad \<le> k" using False pad(1) by linarith+
    then have "drop k (map junk [0..<pad] @ d) = drop (k div 2) d" by simp
    then show ?thesis unfolding start diff using remove_ok [of 0 "int k" junk "map junk [0..<pad] @ d"] False by simp
  qed
qed

theorem QByteArray_hex_roundtrip_witness:
  "fromHex (\<lambda>i. 0xCD) [0x30, 0x31, 0x3A, 0x61, 0x62, 0x3A, 0x66, 0x66] = Some [0xAB, 0xFF]"
proof -
  have "filter (\<lambda>c. hex_digit c \<noteq> None) [0x30, 0x31, 0x3A, 0x61, 0x62, 0x3A, 0x66, 0x66] = toHex [0x01, 0xAB, 0xFF]"
    by code_simp
  from QByteArray_hex_roundtrip [OF this, of "\<lambda>i. 0xCD"] show ?thesis by (simp add: length_toHex del: toHex.simps)
qed

section \<open>Base64 groups\<close>

text \<open>The bytes that a text stands for, after \<open>n\<close> bits in \<open>buf\<close>.\<close>

fun base64_bytes :: "byte list \<Rightarrow> uint \<Rightarrow> nat \<Rightarrow> byte list" where
  "base64_bytes [] buf n = []"
| "base64_bytes (ch # rest) buf n =
    (case base64_value ch of
       None \<Rightarrow> base64_bytes rest buf n
     | Some d \<Rightarrow>
         (let buf = push_bit 6 buf OR d
          in if n + 6 \<ge> 8 then
               ucast (drop_bit (n + 6 - 8) buf) # base64_bytes rest (buf AND (push_bit (n + 6 - 8) 1 - 1)) (n + 6 - 8)
             else base64_bytes rest buf (n + 6)))"

lemma base64_bytes_filter: "base64_bytes (filter (\<lambda>c. base64_value c \<noteq> None) s) buf n = base64_bytes s buf n"
proof (induction s arbitrary: buf n)
  case (Cons c s)
  then show ?case by (cases "base64_value c") (simp_all add: Let_def)
qed simp

lemma QByteRef_assign_ok:
  assumes "offset \<le> length tmp"
  shows "take (Suc offset) (QByteRef_assign junk tmp offset c) = take offset tmp @ [c]"
    "Suc offset \<le> length (QByteRef_assign junk tmp offset c)"
proof -
  define e where "e = (if offset \<ge> length tmp then QByteArray_resize junk tmp (offset + 1) else tmp)"
  have e: "offset < length e" "take offset e = take offset tmp"
    using assms resize_bytes(2) [of junk tmp "offset + 1"] by (auto simp: e_def resize_take)
  then show "take (Suc offset) (QByteRef_assign junk tmp offset c) = take offset tmp @ [c]"
    "Suc offset \<le> length (QByteRef_assign junk tmp offset c)"
    unfolding QByteRef_assign_def e_def [symmetric] by (simp_all add: take_Suc_conv_app_nth)
qed

lemma fromBase64_loop_ok:
  "offset \<le> length tmp \<Longrightarrow> \<exists>e. fromBase64_loop junk s buf n offset tmp = (offset + length (base64_bytes s buf n), e) \<and>
    offset + length (base64_bytes s buf n) \<le> length e \<and>
    take (offset + length (base64_bytes s buf n)) e = take offset tmp @ base64_bytes s buf n"
proof (induction s arbitrary: buf n offset tmp)
  case (Cons c s)
  show ?case
  proof (cases "base64_value c")
    case None
    with Cons.IH [OF Cons.prems] show ?thesis by simp
  next
    case (Some d)
    define b where "b = push_bit 6 buf OR d"
    show ?thesis
    proof (cases "n + 6 \<ge> 8")
      case True
      define x :: byte where "x = ucast (drop_bit (n + 6 - 8) b)"
      note a = QByteRef_assign_ok [OF Cons.prems, of junk x]
      from Cons.IH [OF a(2), of "b AND (push_bit (n + 6 - 8) 1 - 1)" "n + 6 - 8"] True Some a(1)
      show ?thesis by (simp add: Let_def b_def [symmetric] x_def)
    next
      case False
      with Cons.IH [OF Cons.prems, of b "n + 6"] Some show ?thesis by (simp add: Let_def b_def [symmetric])
    qed
  qed
qed simp

lemma fromBase64_bytes: "fromBase64 junk s = base64_bytes s 0 0"
proof -
  define tmp where "tmp = map junk [0..<nat (i32 (int (length s) * 3) sdiv 4)]"
  define r where "r = base64_bytes s 0 0"
  have "\<exists>e. fromBase64_loop junk s 0 0 0 tmp = (length r, e) \<and> length r \<le> length e \<and> take (length r) e = r"
    using fromBase64_loop_ok [of 0 tmp junk s 0 0] by (simp add: r_def)
  then obtain e where e: "fromBase64_loop junk s 0 0 0 tmp = (length r, e)" "length r \<le> length e" "take (length r) e = r"
    by blast
  have "fromBase64 junk s = (if length r < length e then QByteArray_resize junk e (length r) else e)"
    unfolding fromBase64_def Let_def tmp_def [symmetric] e(1) prod.case ..
  also have "\<dots> = r"
  proof (cases "length r < length e")
    case False
    then have "take (length r) e = e" by simp
    with e(3) False show ?thesis by simp
  qed (use e(3) in \<open>simp add: resize_shrink\<close>)
  finally show ?thesis by (simp add: r_def)
qed

lemma length_toBase64_out: "length (toBase64_out d) = 4 * ((length d + 2) div 3)"
proof -
  have "(5 + k) div 3 = Suc (Suc (Suc k) div 3)" for k :: nat by presburger
  then show ?thesis by (induction d rule: toBase64_out.induct) (auto simp: base64_group_def Let_def)
qed

text \<open>The array is large enough exactly when four times the size is an \<open>int\<close>.\<close>

lemma toBase64_fits:
  assumes "length d < 2147483648"
  shows "toBase64 d = (if length d < 536870912 then Some (toBase64_out d) else None)"
proof -
  define n where "n = int (length d)"
  define a where "a = i32 (n * 4)"
  have n: "0 \<le> n" "n < 2147483648" using assms by (simp_all add: n_def)
  have out: "int (length (toBase64_out d)) = 4 * ((n + 2) div 3)" by (simp add: length_toBase64_out n_def zdiv_int)
  have a: "in32 a" "n < 536870912 \<Longrightarrow> a = 4 * n" "536870912 \<le> n \<Longrightarrow> a \<le> 4 * n - 4294967296"
  proof -
    have "(n * 4 + 2147483648) mod 4294967296 = (n * 4 - 2147483648) mod 4294967296"
      unfolding mod_eq_dvd_iff by simp
    then have "536870912 \<le> n \<Longrightarrow> (n * 4 + 2147483648) mod 4294967296 \<le> n * 4 - 2147483648"
      using zmod_le_nonneg_dividend [of "n * 4 - 2147483648" 4294967296] by linarith
    then show "536870912 \<le> n \<Longrightarrow> a \<le> 4 * n - 4294967296" unfolding a_def i32_def by linarith
    show "in32 a" by (simp add: a_def)
    show "n < 536870912 \<Longrightarrow> a = 4 * n" using n by (simp add: a_def i32_id in32_def)
  qed
  have s: "3 * (a sdiv 3) \<le> max 0 a + 2" "-3 * (a sdiv 3) \<le> 2147483650" "0 \<le> a \<Longrightarrow> a sdiv 3 = a div 3"
    using a(1) by (cases "0 \<le> a"; simp add: in32_def cdiv_simps; linarith)+
  then have size: "i32 (a sdiv 3 + 3) = a sdiv 3 + 3" using a(1) by (intro i32_id) (auto simp: in32_def)
  have q: "3 * (4 * ((n + 2) div 3)) \<ge> 4 * n" "3 * (4 * ((n + 2) div 3)) \<le> 4 * n + 8" by linarith+
  have "int (length (toBase64_out d)) > max 0 (i32 (i32 (n * 4) sdiv 3 + 3)) \<longleftrightarrow> \<not> n < 536870912"
  proof (cases "n < 536870912")
    case True
    then have "a sdiv 3 = 4 * n div 3" using s(3) a(2) n(1) by simp
    with True n show ?thesis unfolding out a_def [symmetric] size by auto
  next
    case False
    with a(3) n have "a \<le> 4 * n - 4294967296" by simp
    then have "3 * max 0 (a sdiv 3 + 3) < 4 * n" using s(1) False by (auto simp: max_def split: if_splits)
    moreover have "3 * x < 4 * n \<Longrightarrow> 4 * n \<le> 3 * (4 * y) \<Longrightarrow> x < 4 * y" for x y :: int by linarith
    ultimately have "max 0 (a sdiv 3 + 3) < 4 * ((n + 2) div 3)" using q(1) by blast
    with False show ?thesis unfolding out a_def [symmetric] size by simp
  qed
  then show ?thesis by (simp add: toBase64_def Let_def n_def)
qed

text \<open>The bits of the sextets of a chunk, and of the bytes read from them.\<close>

lemma sextets:
  fixes chunk :: uint
  defines "j \<equiv> drop_bit 18 (chunk AND 0x00FC0000)" and "k \<equiv> drop_bit 12 (chunk AND 0x0003F000)"
    and "l \<equiv> drop_bit 6 (chunk AND 0x00000FC0)" and "m \<equiv> chunk AND 0x0000003F"
  shows "ucast (drop_bit 4 (push_bit 6 j OR k)) = (ucast (drop_bit 16 chunk) :: byte)"
    "ucast (drop_bit 2 (push_bit 6 ((push_bit 6 j OR k) AND 0xF) OR l)) = (ucast (drop_bit 8 chunk) :: byte)"
    "ucast (push_bit 6 ((push_bit 6 ((push_bit 6 j OR k) AND 0xF) OR l) AND 3) OR m) = (ucast chunk :: byte)"
    "unat j < 64" "unat k < 64" "unat l < 64" "unat m < 64"
proof -
  have masks: "(0x00FC0000 :: uint) = push_bit 18 (mask 6)" "(0x0003F000 :: uint) = push_bit 12 (mask 6)"
    "(0x00000FC0 :: uint) = push_bit 6 (mask 6)" "(0x0000003F :: uint) = mask 6" "(0xF :: uint) = mask 4" "(3 :: uint) = mask 2"
    by (simp_all add: mask_eq_exp_minus_1)
  show "ucast (drop_bit 4 (push_bit 6 j OR k)) = (ucast (drop_bit 16 chunk) :: byte)"
    "ucast (drop_bit 2 (push_bit 6 ((push_bit 6 j OR k) AND 0xF) OR l)) = (ucast (drop_bit 8 chunk) :: byte)"
    "ucast (push_bit 6 ((push_bit 6 ((push_bit 6 j OR k) AND 0xF) OR l) AND 3) OR m) = (ucast chunk :: byte)"
    unfolding j_def k_def l_def m_def masks
    by (rule byte_bitI; simp add: bit_simps)+
  have less: "unat (x AND mask 6) < 64" for x :: uint
    using word_and_le1 [of x "mask 6"] by (simp add: word_le_nat_alt mask_eq_exp_minus_1)
  have d: "drop_bit n (chunk AND push_bit n (mask 6)) = drop_bit n chunk AND mask 6" for n
    by (auto simp: bit_eq_iff bit_simps dest: bit_imp_le_length)
  show "unat j < 64" "unat k < 64" "unat l < 64" "unat m < 64"
    unfolding j_def k_def l_def m_def masks d by (rule less)+
qed


lemma base64_group_decode:
  "base64_bytes (base64_group chunk 0 @ rest) 0 0 =
    ucast (drop_bit 16 chunk) # ucast (drop_bit 8 chunk) # ucast chunk # base64_bytes rest 0 0"
  "base64_bytes (base64_group chunk 1) 0 0 = [ucast (drop_bit 16 chunk), ucast (drop_bit 8 chunk)]"
  "base64_bytes (base64_group chunk 2) 0 0 = [ucast (drop_bit 16 chunk)]"
proof -
  note s = sextets [of chunk]
  note v = base64_values [OF s(4)] base64_values [OF s(5)] base64_values [OF s(6)] base64_values [OF s(7)]
  have pad: "base64_value base64padchar = None" by (simp add: base64_value_def base64padchar_def)
  show "base64_bytes (base64_group chunk 0 @ rest) 0 0 =
      ucast (drop_bit 16 chunk) # ucast (drop_bit 8 chunk) # ucast chunk # base64_bytes rest 0 0"
    "base64_bytes (base64_group chunk 1) 0 0 = [ucast (drop_bit 16 chunk), ucast (drop_bit 8 chunk)]"
    "base64_bytes (base64_group chunk 2) 0 0 = [ucast (drop_bit 16 chunk)]"
    using s(1-3) v pad by (simp_all add: base64_group_def Let_def)
qed

lemma chunk_bytes:
  fixes a b c :: byte
  defines "chunk \<equiv> push_bit 16 (ucast a) OR push_bit 8 (ucast b) OR (ucast c :: uint)"
  shows "ucast (drop_bit 16 chunk) = a" "ucast (drop_bit 8 chunk) = b" "ucast chunk = c"
  unfolding chunk_def by (rule byte_bitI; simp add: bit_simps no_bit)+

lemma base64_bytes_toBase64: "base64_bytes (toBase64_out d) 0 0 = d"
proof (induction d rule: toBase64_out.induct)
  case (2 a)
  then show ?case using chunk_bytes(1) [of a 0 0] by (simp add: base64_group_decode)
next
  case (3 a b)
  then show ?case using chunk_bytes(1,2) [of a b 0] base64_group_decode(2) by simp
next
  case (4 a b c d)
  then show ?case using chunk_bytes [of a b c] by (simp add: base64_group_decode(1))
qed simp

text \<open>
  C33: \<open>fromBase64\<close> is the inverse of \<open>toBase64\<close> also when characters that are not of the alphabet (line breaks,
  missing or additional padding) stand between.  \<open>toBase64\<close> stays within the array it allocates exactly for fewer than
  \<open>2 ^ 29\<close> bytes: from there on the size of the array, four thirds of that of the data, is not computed right in an
  \<open>int\<close>.  \<open>fromBase64\<close> does not depend on the size that it computes.
\<close>
theorem QByteArray_base64_roundtrip:
  assumes "length d < 2147483648"
  shows "if length d < 536870912
    then \<exists>t. toBase64 d = Some t \<and>
      (\<forall>s. filter (\<lambda>c. base64_value c \<noteq> None) s = filter (\<lambda>c. base64_value c \<noteq> None) t \<longrightarrow> fromBase64 junk s = d)
    else toBase64 d = None"
proof -
  have "fromBase64 junk s = d"
    if "filter (\<lambda>c. base64_value c \<noteq> None) s = filter (\<lambda>c. base64_value c \<noteq> None) (toBase64_out d)" for s
    using base64_bytes_filter [of s] base64_bytes_filter [of "toBase64_out d"] that base64_bytes_toBase64 fromBase64_bytes
    by metis
  then show ?thesis using toBase64_fits [OF assms] by auto
qed

theorem QByteArray_base64_roundtrip_witness:
  "fromBase64 (\<lambda>i. 0xCD) [0x4D, 0x54, 0x0A, 0x49] = [0x31, 0x32]"
proof -
  have t: "toBase64 [0x31, 0x32] = Some [0x4D, 0x54, 0x49, 0x3D]" by code_simp
  have "filter (\<lambda>c. base64_value c \<noteq> None) [0x4D, 0x54, 0x0A, 0x49] =
      filter (\<lambda>c. base64_value c \<noteq> None) [0x4D, 0x54, 0x49, 0x3D]" by code_simp
  with QByteArray_base64_roundtrip [of "[0x31, 0x32]" "\<lambda>i. 0xCD"] t show ?thesis by simp
qed

section \<open>Percent encoding\<close>

lemma percent_digit_nibbles:
  "word_of_int (push_bit 4 (percent_digit (toHexHelper (drop_bit 4 (c AND 0xF0)))) OR percent_digit (toHexHelper (c AND 0xF))) = (c :: byte)"
proof -
  have "toHexHelper (drop_bit 4 (c AND 0xF0)) = hexnumbers ! unat (drop_bit 4 c)" "toHexHelper (c AND 0xF) = hexnumbers ! unat (c AND 0xF)"
    unfolding toHexHelper_def nibbles(3) nibbles(1) by simp_all
  then have "percent_digit (toHexHelper (drop_bit 4 (c AND 0xF0))) = uint (drop_bit 4 c)"
    "percent_digit (toHexHelper (c AND 0xF)) = uint (c AND 0xF)"
    using percent_digits [OF nibble_less(1) [of c]] percent_digits [OF nibble_less(2) [of c]] by simp_all
  moreover have "word_of_int (push_bit 4 (uint (drop_bit 4 c)) OR uint (c AND 0xF)) = push_bit 4 (drop_bit 4 c) OR (c AND 0xF)"
    by (rule byte_bitI; simp add: bit_simps no_bit)
  ultimately show ?thesis by (simp add: nibbles)
qed

lemma fromPercent_Cons: "c \<noteq> percent \<Longrightarrow> q_fromPercentEncoding percent (c # xs) = c # q_fromPercentEncoding percent xs"
  by (cases xs; cases "tl xs") auto

lemma fromPercent_toPercent:
  "\<not> ((unreserved percent \<or> q_strchr dontEncode percent) \<and> \<not> q_strchr alsoEncode percent) \<Longrightarrow>
   q_fromPercentEncoding percent (percent_out dontEncode alsoEncode percent d) = d"
proof (induction d)
  case (Cons c d)
  show ?case
  proof (cases "(unreserved c \<or> q_strchr dontEncode c) \<and> \<not> q_strchr alsoEncode c")
    case True
    then have "c \<noteq> percent" using Cons.prems by auto
    with True Cons show ?thesis by (simp add: fromPercent_Cons)
  next
    case False
    then show ?thesis using Cons percent_digit_nibbles [of c] by auto
  qed
qed simp

lemma length_percent_out:
  "length ba \<le> length (percent_out dontEncode alsoEncode percent ba)"
  "length (percent_out dontEncode alsoEncode percent ba) \<le> 3 * length ba"
  by (induction ba) auto

lemma toPercent_fits:
  assumes "length ba < 715827883"
  shows "q_toPercentEncoding dontEncode alsoEncode percent ba = Some (percent_out dontEncode alsoEncode percent ba)"
proof -
  have "i32 (int (length ba) * 3) = int (length ba) * 3" using assms by (intro i32_id) (simp add: in32_def)
  then show ?thesis
    using length_percent_out(2) [of dontEncode alsoEncode percent ba] by (simp add: q_toPercentEncoding_def Let_def)
qed

lemma length_fromPercent: "length (q_fromPercentEncoding percent xs) \<le> length xs"
  by (induction percent xs rule: q_fromPercentEncoding.induct) auto

text \<open>
  C34: \<open>fromPercentEncoding\<close> is the inverse of \<open>toPercentEncoding\<close> for every escape character that is not itself excluded,
  every set of characters to exclude, and, when the escape character is one that is otherwise not encoded (a letter,
  a digit, \<open>-\<close>, \<open>.\<close>, \<open>_\<close> or a tilde), every set of characters to include without a zero byte, behind which the
  escape character would not be seen (any set for another escape character).  Normalizing an encoding twice changes
  nothing more, unless the percent sign is excluded.  Both stay within their arrays for less than 715827883 bytes, which
  three times are an \<open>int\<close>.
\<close>
theorem QByteArray_percent_roundtrip:
  assumes "\<not> q_strchr exclude percent" "unreserved percent \<Longrightarrow> 0 \<notin> set include" "\<not> q_strchr exclude2 0x25"
    "length d < 715827883" "length ba < 715827883"
  shows "(\<exists>t. toPercentEncoding exclude include percent d = Some t \<and> fromPercentEncoding percent t = d) \<and>
    (\<exists>n. q_normalizePercentEncoding exclude2 ba = Some n \<and> q_normalizePercentEncoding exclude2 n = Some n)"
proof (intro conjI)
  have u: "unreserved percent \<Longrightarrow> percent \<noteq> 0x25 \<and> percent \<noteq> 0" by (auto simp: unreserved_def)
  have "q_strchr (include @ [percent]) percent" if "unreserved percent"
  proof -
    have "takeWhile (\<lambda>c. c \<noteq> 0) (include @ [percent]) = include @ takeWhile (\<lambda>c. c \<noteq> 0) [percent]"
      using assms(2) that by (intro takeWhile_append2) auto
    with u that show ?thesis by (simp add: q_strchr_def)
  qed
  then have "q_fromPercentEncoding percent (percent_out exclude
      (if percent \<noteq> 0x25 \<and> unreserved percent then include @ [percent] else include) percent d) = d"
    using assms(1) u by (intro fromPercent_toPercent) auto
  then show "\<exists>t. toPercentEncoding exclude include percent d = Some t \<and> fromPercentEncoding percent t = d"
    by (auto simp: fromPercentEncoding_def toPercentEncoding_def Let_def toPercent_fits [OF assms(4)])
  define r where "r = q_fromPercentEncoding 0x25 ba"
  have "length r < 715827883" using length_fromPercent [of "0x25" ba] assms(5) by (simp add: r_def)
  from toPercent_fits [OF this] have n: "q_toPercentEncoding exclude2 [] 0x25 r = Some (percent_out exclude2 [] 0x25 r)" .
  have "\<not> unreserved 0x25" by (simp add: unreserved_def)
  then have "q_fromPercentEncoding 0x25 (percent_out exclude2 [] 0x25 r) = r" using assms(3) by (intro fromPercent_toPercent) simp
  with n show "\<exists>n. q_normalizePercentEncoding exclude2 ba = Some n \<and> q_normalizePercentEncoding exclude2 n = Some n"
    by (simp add: q_normalizePercentEncoding_def r_def)
qed

theorem QByteArray_percent_roundtrip_witness:
  "(\<exists>t. toPercentEncoding [0x20] [0x42] 0x41 [0x41, 0x20, 0x42, 0xFF] = Some t \<and>
     fromPercentEncoding 0x41 t = [0x41, 0x20, 0x42, 0xFF]) \<and>
   (\<exists>n. q_normalizePercentEncoding [0x20] [0x25, 0x41] = Some n \<and> q_normalizePercentEncoding [0x20] n = Some n)"
proof -
  have "\<not> q_strchr [0x20] 0x41" "\<not> q_strchr [0x20] 0x25" "0 \<notin> set [0x42 :: byte]" by (simp_all add: q_strchr_def)
  then show ?thesis by (intro QByteArray_percent_roundtrip) simp_all
qed

text \<open>The list of the characters to include is read as a string: with a zero byte in it, a letter as the escape is not encoded.\<close>

lemma percent_zero_hides:
  "map_option (fromPercentEncoding 0x41) (toPercentEncoding [] [0] 0x41 [0x41, 0x34, 0x31]) = Some [0x41]"
  by code_simp

end
