(* ===== verification/TimeOfDay.thy ===== *)
theory TimeOfDay
  imports Prelude
begin

text \<open>
  \<open>QTime\<close> (src/src/core/tools/qdatetime.h and qdatetime.cpp): a time of day is its number of milliseconds
  since midnight, an \<open>int\<close>; -1 is the null time.  The text conversions are not modelled.
\<close>

datatype qtime = QTimeMds (mds: int32)

definition SECS_PER_DAY :: int32 where "SECS_PER_DAY = 86400"
definition MSECS_PER_DAY :: int32 where "MSECS_PER_DAY = 86400000"
definition SECS_PER_HOUR :: int32 where "SECS_PER_HOUR = 3600"
definition MSECS_PER_HOUR :: int32 where "MSECS_PER_HOUR = 3600000"
definition SECS_PER_MIN :: int32 where "SECS_PER_MIN = 60"
definition MSECS_PER_MIN :: int32 where "MSECS_PER_MIN = 60000"

lemmas time_units = SECS_PER_DAY_def MSECS_PER_DAY_def SECS_PER_HOUR_def MSECS_PER_HOUR_def SECS_PER_MIN_def MSECS_PER_MIN_def

definition NullTime :: int32 where
  "NullTime = -1"

definition QTime0 :: qtime where
  "QTime0 = QTimeMds NullTime"

definition QTime_isNull :: "qtime \<Rightarrow> bool" where
  "QTime_isNull t \<longleftrightarrow> mds t = NullTime"

definition QTime_isValid :: "qtime \<Rightarrow> bool" where
  "QTime_isValid t \<longleftrightarrow> mds t > NullTime \<and> mds t < MSECS_PER_DAY"

definition QTime_isValid_hms :: "int32 \<Rightarrow> int32 \<Rightarrow> int32 \<Rightarrow> int32 \<Rightarrow> bool" where
  "QTime_isValid_hms h m s ms \<longleftrightarrow> u32 h < 24 \<and> u32 m < 60 \<and> u32 s < 60 \<and> u32 ms < 1000"

definition QTime_ds :: "qtime \<Rightarrow> int32" where
  "QTime_ds t = (if mds t = NullTime then 0 else mds t)"

definition QTime_setHMS :: "int32 \<Rightarrow> int32 \<Rightarrow> int32 \<Rightarrow> int32 \<Rightarrow> qtime \<times> bool" where
  "QTime_setHMS h m s ms =
    (if \<not> QTime_isValid_hms h m s ms then (QTimeMds NullTime, False)
     else (QTimeMds (i32 ((h * SECS_PER_HOUR + m * SECS_PER_MIN + s) * 1000 + ms)), True))"

definition QTime :: "int32 \<Rightarrow> int32 \<Rightarrow> int32 \<Rightarrow> int32 \<Rightarrow> qtime" where
  "QTime h m s ms = fst (QTime_setHMS h m s ms)"

definition QTime_hour :: "qtime \<Rightarrow> int32" where
  "QTime_hour t = QTime_ds t sdiv MSECS_PER_HOUR"

definition QTime_minute :: "qtime \<Rightarrow> int32" where
  "QTime_minute t = (QTime_ds t smod MSECS_PER_HOUR) sdiv MSECS_PER_MIN"

definition QTime_second :: "qtime \<Rightarrow> int32" where
  "QTime_second t = (QTime_ds t sdiv 1000) smod SECS_PER_MIN"

definition QTime_msec :: "qtime \<Rightarrow> int32" where
  "QTime_msec t = QTime_ds t smod 1000"

definition QTime_addMSecs :: "qtime \<Rightarrow> int32 \<Rightarrow> qtime" where
  "QTime_addMSecs t ms =
    (if ms < 0 then
       (let negdays = i32 (MSECS_PER_DAY - ms) sdiv MSECS_PER_DAY
        in QTimeMds (i32 (i32 (QTime_ds t + ms) + i32 (negdays * MSECS_PER_DAY)) smod MSECS_PER_DAY))
     else QTimeMds (i32 (QTime_ds t + ms) smod MSECS_PER_DAY))"

definition QTime_addSecs :: "qtime \<Rightarrow> int32 \<Rightarrow> qtime" where
  "QTime_addSecs t s = QTime_addMSecs t (i32 (s * 1000))"

definition QTime_msecsTo :: "qtime \<Rightarrow> qtime \<Rightarrow> int32" where
  "QTime_msecsTo self t = i32 (QTime_ds t - QTime_ds self)"

definition QTime_secsTo :: "qtime \<Rightarrow> qtime \<Rightarrow> int32" where
  "QTime_secsTo self t = i32 (QTime_ds t - QTime_ds self) sdiv 1000"

definition QTime_eq :: "qtime \<Rightarrow> qtime \<Rightarrow> bool" where
  "QTime_eq t other \<longleftrightarrow> mds t = mds other"

definition QTime_less :: "qtime \<Rightarrow> qtime \<Rightarrow> bool" where
  "QTime_less t other \<longleftrightarrow> mds t < mds other"

definition QTime_less_eq :: "qtime \<Rightarrow> qtime \<Rightarrow> bool" where
  "QTime_less_eq t other \<longleftrightarrow> mds t \<le> mds other"

instantiation qtime :: linorder
begin
definition less_eq_qtime :: "qtime \<Rightarrow> qtime \<Rightarrow> bool" where
  "less_eq_qtime = QTime_less_eq"
definition less_qtime :: "qtime \<Rightarrow> qtime \<Rightarrow> bool" where
  "less_qtime = QTime_less"
instance
  by standard (auto simp: less_eq_qtime_def less_qtime_def QTime_less_eq_def QTime_less_def intro: qtime.expand)
end

section \<open>Hours, minutes, seconds and milliseconds\<close>

lemma ds_range: "QTime_isValid t \<or> QTime_isNull t \<Longrightarrow> 0 \<le> QTime_ds t \<and> QTime_ds t < 86400000"
  by (auto simp: QTime_isValid_def QTime_isNull_def QTime_ds_def NullTime_def MSECS_PER_DAY_def)

lemma ds_valid: "QTime_isValid t \<Longrightarrow> QTime_ds t = mds t"
  by (simp add: QTime_isValid_def QTime_ds_def)

lemma u32_less: "in32 x \<Longrightarrow> k \<le> 2147483648 \<Longrightarrow> u32 x < k \<longleftrightarrow> 0 \<le> x \<and> x < k"
proof -
  assume a: "in32 x" "k \<le> 2147483648"
  have "u32 x = (if x < 0 then x + 4294967296 else x)"
  proof (cases "x < 0")
    case True
    then have "(x + 4294967296) mod 4294967296 = x + 4294967296"
      by (intro mod_pos_pos_trivial) (use a(1) in \<open>simp_all add: in32_def\<close>)
    then show ?thesis using True by (simp add: u32_def)
  qed (use a(1) in \<open>simp add: u32_def in32_def\<close>)
  then show ?thesis using a by (auto simp: in32_def)
qed

lemma valid_hms:
  assumes "in32 h" "in32 m" "in32 s" "in32 ms"
  shows "QTime_isValid_hms h m s ms \<longleftrightarrow> 0 \<le> h \<and> h < 24 \<and> 0 \<le> m \<and> m < 60 \<and> 0 \<le> s \<and> s < 60 \<and> 0 \<le> ms \<and> ms < 1000"
  using assms by (auto simp: QTime_isValid_hms_def u32_less)

lemma QTime_of_valid:
  assumes "0 \<le> h" "h < 24" "0 \<le> m" "m < 60" "0 \<le> s" "s < 60" "0 \<le> ms" "ms < 1000"
  shows "QTime h m s ms = QTimeMds (((h * 60 + m) * 60 + s) * 1000 + ms)"
proof -
  have "in32 h" "in32 m" "in32 s" "in32 ms" using assms by (simp_all add: in32_def)
  then have "QTime_isValid_hms h m s ms" using assms by (simp add: valid_hms)
  moreover have "in32 ((h * 3600 + m * 60 + s) * 1000 + ms)" using assms by (auto simp: in32_def)
  ultimately show ?thesis
    by (simp add: QTime_def QTime_setHMS_def time_units i32_id algebra_simps)
qed

lemma clock_parts:
  fixes x :: int
  assumes "0 \<le> h" "0 \<le> m" "m < 60" "0 \<le> s" "s < 60" "0 \<le> ms" "ms < 1000" "x = ((h * 60 + m) * 60 + s) * 1000 + ms"
  shows "x div 3600000 = h" "x mod 3600000 div 60000 = m" "x div 1000 mod 60 = s" "x mod 1000 = ms"
proof -
  have x: "x = h * 3600000 + m * 60000 + s * 1000 + ms" using assms(8) by simp
  show h: "x div 3600000 = h" by (rule int_div_eqI) (use assms(1-7) x in linarith)+
  have "x mod 3600000 = x - h * 3600000" using h minus_div_mult_eq_mod [of x 3600000] by simp
  then show "x mod 3600000 div 60000 = m" by (intro int_div_eqI) (use assms(1-7) x in linarith)+
  have s: "x div 1000 = (h * 60 + m) * 60 + s" by (rule int_div_eqI) (use assms(1-7) x in simp)+
  show "x div 1000 mod 60 = s" unfolding s mod_mult_self3 using assms(4,5) by simp
  show "x mod 1000 = ms" using s minus_div_mult_eq_mod [of x 1000] x by simp
qed

lemma parts_of:
  assumes "QTime_isValid t"
  shows "QTime_hour t = mds t div 3600000" "QTime_minute t = mds t mod 3600000 div 60000"
    "QTime_second t = mds t div 1000 mod 60" "QTime_msec t = mds t mod 1000" "0 \<le> mds t" "mds t < 86400000"
proof -
  have x: "QTime_ds t = mds t" "0 \<le> mds t" "mds t < 86400000"
    using assms ds_valid [OF assms] by (auto simp: QTime_isValid_def NullTime_def MSECS_PER_DAY_def)
  then show "QTime_hour t = mds t div 3600000" "QTime_minute t = mds t mod 3600000 div 60000"
    "QTime_second t = mds t div 1000 mod 60" "QTime_msec t = mds t mod 1000" "0 \<le> mds t" "mds t < 86400000"
    by (simp_all add: QTime_hour_def QTime_minute_def QTime_second_def QTime_msec_def time_units cdiv_simps)
qed

text \<open>
  Hour, minute, second and millisecond of a valid time are in their ranges and give it back; a time built
  from numbers in range has these parts, and numbers out of range give the null time.
\<close>
theorem QTime_parts:
  assumes "QTime_isValid t" "in32 h" "in32 m" "in32 s" "in32 ms"
  shows "QTime (QTime_hour t) (QTime_minute t) (QTime_second t) (QTime_msec t) = t \<and>
    (if 0 \<le> h \<and> h < 24 \<and> 0 \<le> m \<and> m < 60 \<and> 0 \<le> s \<and> s < 60 \<and> 0 \<le> ms \<and> ms < 1000
     then QTime_isValid (QTime h m s ms) \<and> QTime_hour (QTime h m s ms) = h \<and> QTime_minute (QTime h m s ms) = m \<and>
       QTime_second (QTime h m s ms) = s \<and> QTime_msec (QTime h m s ms) = ms
     else QTime h m s ms = QTime0)"
proof (intro conjI)
  define x where "x = mds t"
  note parts = parts_of [OF assms(1), folded x_def]
  have x: "t = QTimeMds x" by (simp add: x_def)
  define n where "n = x div 1000 div 60"
  have n: "0 \<le> n div 60" "n div 60 < 24" using parts(5,6) by (simp_all add: n_def zdiv_zmult2_eq [symmetric])
  have e: "x = ((n div 60 * 60 + n mod 60) * 60 + x div 1000 mod 60) * 1000 + x mod 1000" by (simp add: n_def)
  have b: "0 \<le> n mod 60" "n mod 60 < 60" "0 \<le> x div 1000 mod 60" "x div 1000 mod 60 < 60" "0 \<le> x mod 1000" "x mod 1000 < 1000"
    by simp_all
  note c = clock_parts [OF n(1) b e]
  show "QTime (QTime_hour t) (QTime_minute t) (QTime_second t) (QTime_msec t) = t"
    using QTime_of_valid [OF n b] e x unfolding parts(1-4) c(1,2) by simp
next
  show "if 0 \<le> h \<and> h < 24 \<and> 0 \<le> m \<and> m < 60 \<and> 0 \<le> s \<and> s < 60 \<and> 0 \<le> ms \<and> ms < 1000
     then QTime_isValid (QTime h m s ms) \<and> QTime_hour (QTime h m s ms) = h \<and> QTime_minute (QTime h m s ms) = m \<and>
       QTime_second (QTime h m s ms) = s \<and> QTime_msec (QTime h m s ms) = ms
     else QTime h m s ms = QTime0" (is "if ?r then _ else _")
  proof (cases ?r)
    case False
    then show ?thesis using valid_hms [OF assms(2-5)] by (auto simp: QTime_def QTime_setHMS_def QTime0_def)
  next
    case True
    define x where "x = ((h * 60 + m) * 60 + s) * 1000 + ms"
    have x: "0 \<le> x" "x < 86400000" using True by (simp_all add: x_def)
    have b: "0 \<le> h" "0 \<le> m" "m < 60" "0 \<le> s" "s < 60" "0 \<le> ms" "ms < 1000" using True by simp_all
    note c = clock_parts [OF b x_def]
    have t: "QTime h m s ms = QTimeMds x" using True QTime_of_valid [of h m s ms] by (simp add: x_def)
    then have v: "QTime_isValid (QTime h m s ms)" using x by (simp add: QTime_isValid_def NullTime_def MSECS_PER_DAY_def)
    have m: "mds (QTime h m s ms) = x" by (simp add: t)
    have "QTime_hour (QTime h m s ms) = h" "QTime_minute (QTime h m s ms) = m" "QTime_second (QTime h m s ms) = s"
      "QTime_msec (QTime h m s ms) = ms"
      unfolding parts_of(1-4) [OF v] m by (fact c)+
    then show ?thesis using v by (simp only: if_P [OF True] simp_thms)
  qed
qed

theorem QTime_parts_witness:
  "QTime (QTime_hour (QTimeMds 86399999)) (QTime_minute (QTimeMds 86399999)) (QTime_second (QTimeMds 86399999))
     (QTime_msec (QTimeMds 86399999)) = QTimeMds 86399999 \<and> QTime 24 0 0 0 = QTime0"
  using QTime_parts [of "QTimeMds 86399999" 24 0 0 0] by (simp add: QTime_isValid_def NullTime_def MSECS_PER_DAY_def in32_def)

section \<open>Adding\<close>

lemma addMSecs_sum:
  assumes "QTime_isValid t \<or> QTime_isNull t" "in32 n" "-2061083648 < n" "QTime_ds t + n < 2147483648"
  shows "mds (QTime_addMSecs t n) = (QTime_ds t + n) mod 86400000"
proof -
  define x where "x = QTime_ds t"
  have x: "0 \<le> x" "x < 86400000" using ds_range [OF assms(1)] by (simp_all add: x_def)
  note that = assms(2-4) [folded x_def]
  have "mds (QTime_addMSecs t n) = (x + n) mod 86400000"
  proof (cases "n < 0")
    case False
    then have "i32 (x + n) = x + n" "0 \<le> x + n" using x that by (auto simp: i32_id in32_def)
    then show ?thesis using False by (simp add: QTime_addMSecs_def x_def [symmetric] MSECS_PER_DAY_def cdiv_simps)
  next
    case True
    define k where "k = (86400000 - n) div 86400000"
    have "i32 (86400000 - n) = 86400000 - n" using True that by (simp add: i32_id in32_def)
    then have k: "i32 (86400000 - n) sdiv 86400000 = k" using True by (simp add: cdiv_simps k_def)
    have kb: "k * 86400000 \<le> 86400000 - n" "- n \<le> k * 86400000"
      using int_div_mult_le [of 86400000 "86400000 - n"] int_less_div_mult [of 86400000 "86400000 - n"]
      by (simp_all add: k_def distrib_right)
    then have w: "i32 (k * 86400000) = k * 86400000" "i32 (x + n) = x + n" "i32 (x + n + k * 86400000) = x + n + k * 86400000"
      using x True that by (auto simp: i32_id in32_def)
    have "mds (QTime_addMSecs t n) = (x + n + k * 86400000) smod 86400000"
      using True unfolding QTime_addMSecs_def x_def [symmetric] MSECS_PER_DAY_def k Let_def w by simp
    also have "\<dots> = (x + n + k * 86400000) mod 86400000" using kb x by (simp add: cdiv_simps)
    finally show ?thesis by simp
  qed
  then show ?thesis by (simp only: x_def)
qed

text \<open>
  \<open>addMSecs\<close> adds around the clock as long as its \<open>int\<close> sums do not overflow; \<open>addMSecs\<close> of \<open>msecsTo\<close>
  reaches the other time, and a sum above the range of \<open>int\<close> gives a wrong time.
\<close>
theorem QTime_addMSecs_exact:
  assumes "QTime_isValid t \<or> QTime_isNull t" "in32 ms" "-2061083648 < ms" "QTime_isValid u"
  shows "QTime_addMSecs t (QTime_msecsTo t u) = u \<and>
    (if QTime_ds t + ms < 2147483648
     then QTime_isValid (QTime_addMSecs t ms) \<and> mds (QTime_addMSecs t ms) = (QTime_ds t + ms) mod 86400000
     else mds (QTime_addMSecs t ms) \<le> 0 \<and> mds (QTime_addMSecs t ms) \<noteq> (QTime_ds t + ms) mod 86400000)"
proof -
  define x where "x = QTime_ds t"
  have x: "0 \<le> x" "x < 86400000" using ds_range [OF assms(1)] by (simp_all add: x_def)
  note add = addMSecs_sum [OF assms(1), folded x_def]
  have u: "0 \<le> mds u" "mds u < 86400000" "QTime_ds u = mds u"
    using assms(4) ds_valid [OF assms(4)] by (auto simp: QTime_isValid_def NullTime_def MSECS_PER_DAY_def)
  have d: "QTime_msecsTo t u = mds u - x" using u x by (simp add: QTime_msecsTo_def x_def [symmetric] i32_id in32_def)
  have "mds (QTime_addMSecs t (mds u - x)) = (x + (mds u - x)) mod 86400000"
    by (rule add) (use u x in \<open>simp_all add: in32_def\<close>)
  then have "QTime_addMSecs t (QTime_msecsTo t u) = u" using u(1,2) d by (simp add: qtime.expand)
  moreover have "mds (QTime_addMSecs t ms) \<le> 0 \<and> mds (QTime_addMSecs t ms) \<noteq> (x + ms) mod 86400000"
    if big: "\<not> x + ms < 2147483648"
  proof -
    define y where "y = 4294967296 - (x + ms)"
    have "i32 (x + ms) = i32 (- y)" unfolding i32_eq_iff y_def by simp
    moreover have y: "in32 (- y)" "0 < y" "0 \<le> ms" using big x assms(2) by (auto simp: y_def in32_def)
    ultimately have m: "mds (QTime_addMSecs t ms) = - (y mod 86400000)"
      by (simp add: QTime_addMSecs_def x_def [symmetric] MSECS_PER_DAY_def i32_id cdiv_simps)
    have pos: "0 \<le> y mod 86400000" "0 \<le> (x + ms) mod 86400000" by simp_all
    have "(y mod 86400000 + (x + ms) mod 86400000) mod 86400000 = (4294967296 :: int) mod 86400000"
      unfolding mod_add_eq y_def by simp
    then have "y mod 86400000 + (x + ms) mod 86400000 \<noteq> 0" by (intro notI) simp
    then show ?thesis using m pos by auto
  qed
  ultimately show ?thesis using add [OF assms(2,3)] unfolding x_def [symmetric]
    by (auto simp: QTime_isValid_def NullTime_def MSECS_PER_DAY_def intro: less_le_trans [of "-1" 0])
qed

theorem QTime_addMSecs_exact_witness:
  "mds (QTime_addMSecs (QTimeMds 1000) (-86402000)) = 86399000"
  using QTime_addMSecs_exact [of "QTimeMds 1000" "-86402000" "QTimeMds 0"]
  by (simp add: QTime_isValid_def QTime_ds_def NullTime_def MSECS_PER_DAY_def in32_def)

end
