(* ===== verification/DateTime.thy ===== *)
theory DateTime
  imports DateArith TimeOfDay
begin

text \<open>
  \<open>QDateTime\<close> (src/src/core/tools/qdatetime.h, qdatetime_p.h and qdatetime.cpp): a date, a time and what they are
  relative to.  The C library's conversions between seconds since 1970 and broken-down time (\<open>localtime_r\<close>,
  \<open>gmtime_r\<close>, \<open>mktime\<close>) are parameters, the record \<open>libc\<close>; \<open>None\<close> is a null pointer returned.  Implicit sharing with
  \<open>detach\<close> is the value semantics of HOL.  The text conversions and the system clock are not modelled.

  \<open>qint64\<close> sums of days times milliseconds stay within 64 bits for 32-bit day numbers and are not wrapped.
\<close>

record tm =
  tm_sec :: int
  tm_min :: int
  tm_hour :: int
  tm_mday :: int
  tm_mon :: int
  tm_year :: int
  tm_isdst :: int

record libc =
  localtime :: "int \<Rightarrow> tm option"
  gmtime :: "int \<Rightarrow> tm option"
  mktime :: "tm \<Rightarrow> int"

text \<open>\<open>QDateTimePrivate::Spec\<close>, an enumeration that a stream may set to any number, and \<open>Qt::TimeSpec\<close>.\<close>

type_synonym Spec = int32

definition LocalUnknown :: Spec where "LocalUnknown = -1"
definition LocalStandard :: Spec where "LocalStandard = 0"
definition LocalDST :: Spec where "LocalDST = 1"
definition UTC :: Spec where "UTC = 2"
definition OffsetFromUTC :: Spec where "OffsetFromUTC = 3"

lemmas spec_defs = LocalUnknown_def LocalStandard_def LocalDST_def UTC_def OffsetFromUTC_def

datatype TimeSpec = Qt_LocalTime | Qt_UTC | Qt_OffsetFromUTC

record QDateTime =
  dt_date :: qdate
  dt_time :: qtime
  spec :: Spec
  dt_utcOffset :: int32

definition JULIAN_DAY_FOR_EPOCH :: int32 where
  "JULIAN_DAY_FOR_EPOCH = 2440588"

definition toMSecsSinceEpoch_helper :: "int64 \<Rightarrow> int32 \<Rightarrow> int64" where
  "toMSecsSinceEpoch_helper julian msecs = (julian - JULIAN_DAY_FOR_EPOCH) * MSECS_PER_DAY + msecs"

section \<open>Conversions to and from local time\<close>

text \<open>The C library is asked about a date of the same month and day in 1970 to 2037.\<close>

definition adjustDate :: "qdate \<Rightarrow> qdate" where
  "adjustDate date =
    (let lowerLimit = QDate 1970 1 2;
         upperLimit = QDate 2037 12 30
     in if QDate_less lowerLimit date \<and> QDate_less date upperLimit then date
        else
          let month = QDate_month date;
              day = QDate_day date;
              day = (if month = 2 \<and> day = 29 then day - 1 else day)
          in if QDate_less date lowerLimit then fst (QDate_setDate 1970 month day)
             else fst (QDate_setDate 2037 month day))"

definition broken_date :: "tm \<Rightarrow> qdate" where
  "broken_date b = QDate (i32 (tm_year b + 1900)) (i32 (tm_mon b + 1)) (tm_mday b)"

definition utcToLocal :: "libc \<Rightarrow> qdate \<Rightarrow> qtime \<Rightarrow> qdate \<times> qtime \<times> Spec" where
  "utcToLocal c date time =
    (let fakeDate = adjustDate date;
         secsSince1Jan1970UTC = toMSecsSinceEpoch_helper (toJulianDay fakeDate) (QTime_msecsTo QTime0 time) sdiv 1000
     in case localtime c secsSince1Jan1970UTC of
          None \<Rightarrow> (QDate 1970 1 1, QTime0, LocalUnknown)
        | Some brokenDown \<Rightarrow>
            (let deltaDays = QDate_daysTo fakeDate date;
                 date = broken_date brokenDown;
                 time = QTime (tm_hour brokenDown) (tm_min brokenDown) (tm_sec brokenDown) (QTime_msec time);
                 date = QDate_addDays date deltaDays
             in (date, time,
                 if tm_isdst brokenDown > 0 then LocalDST
                 else if tm_isdst brokenDown < 0 then LocalUnknown else LocalStandard)))"

definition localToUtc :: "libc \<Rightarrow> qdate \<Rightarrow> qtime \<Rightarrow> int32 \<Rightarrow> qdate \<times> qtime" where
  "localToUtc c date time isdst =
    (if \<not> QDate_isValid date then (date, time)
     else
       let fakeDate = adjustDate date;
           localTM = \<lparr>tm_sec = QTime_second time, tm_min = QTime_minute time, tm_hour = QTime_hour time,
             tm_mday = QDate_day fakeDate, tm_mon = QDate_month fakeDate - 1, tm_year = QDate_year fakeDate - 1900,
             tm_isdst = isdst\<rparr>;
           secsSince1Jan1970UTC = mktime c localTM
       in case gmtime c secsSince1Jan1970UTC of
            None \<Rightarrow> (QDate 1970 1 1, QTime0)
          | Some brokenDown \<Rightarrow>
              (let deltaDays = QDate_daysTo fakeDate date;
                   date = broken_date brokenDown;
                   time = QTime (tm_hour brokenDown) (tm_min brokenDown) (tm_sec brokenDown) (QTime_msec time)
               in (QDate_addDays date deltaDays, time)))"

text \<open>The static \<open>addMSecs\<close> on a date and a time.\<close>

definition addMSecs_utc :: "qdate \<Rightarrow> qtime \<Rightarrow> int64 \<Rightarrow> qdate \<times> qtime" where
  "addMSecs_utc utcDate utcTime msecs =
    (let dd = jd utcDate;
         tt = QTime_ds utcTime;
         sign = (if msecs < 0 then -1 else 1);
         msecs = (if msecs < 0 then i64 (- msecs) else msecs);
         (dd, msecs) = (if msecs \<ge> MSECS_PER_DAY
           then (u32 (dd + sign * (msecs sdiv MSECS_PER_DAY)), msecs smod MSECS_PER_DAY) else (dd, msecs));
         tt = i32 (tt + sign * msecs)
     in if tt < 0 then
          (let tt = MSECS_PER_DAY - tt - 1;
               dd = u32 (dd - tt sdiv MSECS_PER_DAY);
               tt = tt smod MSECS_PER_DAY;
               tt = MSECS_PER_DAY - tt - 1
           in (QDateJd dd, QTimeMds tt))
        else if tt \<ge> MSECS_PER_DAY then
          (QDateJd (u32 (dd + tt sdiv MSECS_PER_DAY)), QTimeMds (tt smod MSECS_PER_DAY))
        else (QDateJd dd, QTimeMds tt))"

definition getLocal :: "libc \<Rightarrow> QDateTime \<Rightarrow> qdate \<times> qtime \<times> Spec" where
  "getLocal c d =
    (if spec d = UTC then utcToLocal c (dt_date d) (dt_time d) else (dt_date d, dt_time d, spec d))"

definition getUTC :: "libc \<Rightarrow> QDateTime \<Rightarrow> qdate \<times> qtime" where
  "getUTC c d =
    (let isOffset = spec d = OffsetFromUTC;
         (date, time) = (if spec d \<noteq> UTC \<and> \<not> isOffset then localToUtc c (dt_date d) (dt_time d) (spec d)
           else (dt_date d, dt_time d))
     in if isOffset then addMSecs_utc date time (- (dt_utcOffset d * 1000)) else (date, time))"

section \<open>Construction and queries\<close>

definition QDateTime0 :: QDateTime where
  "QDateTime0 = \<lparr>dt_date = QDate0, dt_time = QTime0, spec = LocalUnknown, dt_utcOffset = 0\<rparr>"

definition QDateTime_of_date :: "qdate \<Rightarrow> QDateTime" where
  "QDateTime_of_date date = QDateTime0\<lparr>dt_date := date, dt_time := QTime 0 0 0 0\<rparr>"

definition new_QDateTime :: "qdate \<Rightarrow> qtime \<Rightarrow> TimeSpec \<Rightarrow> QDateTime" where
  "new_QDateTime date time ts =
    QDateTime0\<lparr>dt_date := date,
      dt_time := (if QDate_isValid date \<and> \<not> QTime_isValid time then QTime 0 0 0 0 else time),
      spec := (if ts = Qt_UTC then UTC else LocalUnknown)\<rparr>"

definition QDateTime_isNull :: "QDateTime \<Rightarrow> bool" where
  "QDateTime_isNull d \<longleftrightarrow> QDate_isNull (dt_date d) \<and> QTime_isNull (dt_time d)"

definition QDateTime_isValid :: "QDateTime \<Rightarrow> bool" where
  "QDateTime_isValid d \<longleftrightarrow> QDate_isValid (dt_date d) \<and> QTime_isValid (dt_time d)"

definition QDateTime_timeSpec :: "QDateTime \<Rightarrow> TimeSpec" where
  "QDateTime_timeSpec d =
    (if spec d = UTC then Qt_UTC else if spec d = OffsetFromUTC then Qt_OffsetFromUTC else Qt_LocalTime)"

definition QDateTime_setDate :: "qdate \<Rightarrow> QDateTime \<Rightarrow> QDateTime" where
  "QDateTime_setDate date d =
    (let d = d\<lparr>dt_date := date\<rparr>;
         d = (if spec d = LocalStandard \<or> spec d = LocalDST then d\<lparr>spec := LocalUnknown\<rparr> else d)
     in if QDate_isValid date \<and> \<not> QTime_isValid (dt_time d) then d\<lparr>dt_time := QTime 0 0 0 0\<rparr> else d)"

definition QDateTime_setTime :: "qtime \<Rightarrow> QDateTime \<Rightarrow> QDateTime" where
  "QDateTime_setTime time d =
    (let d = (if spec d = LocalStandard \<or> spec d = LocalDST then d\<lparr>spec := LocalUnknown\<rparr> else d)
     in d\<lparr>dt_time := time\<rparr>)"

definition QDateTime_setTimeSpec :: "TimeSpec \<Rightarrow> QDateTime \<Rightarrow> QDateTime" where
  "QDateTime_setTimeSpec ts d =
    d\<lparr>spec := (case ts of Qt_UTC \<Rightarrow> UTC | Qt_OffsetFromUTC \<Rightarrow> OffsetFromUTC | Qt_LocalTime \<Rightarrow> LocalUnknown)\<rparr>"

definition QDateTime_setUtcOffset :: "int32 \<Rightarrow> QDateTime \<Rightarrow> QDateTime" where
  "QDateTime_setUtcOffset seconds d =
    (d\<lparr>spec := (if seconds = 0 then UTC else OffsetFromUTC)\<rparr>)\<lparr>dt_utcOffset := seconds\<rparr>"

definition QDateTime_utcOffset :: "QDateTime \<Rightarrow> int32" where
  "QDateTime_utcOffset d = (if QDateTime_isValid d \<and> spec d = OffsetFromUTC then dt_utcOffset d else 0)"

section \<open>Milliseconds and seconds since 1970\<close>

definition toMSecsSinceEpoch :: "libc \<Rightarrow> QDateTime \<Rightarrow> int64" where
  "toMSecsSinceEpoch c d =
    (let (utcDate, utcTime) = getUTC c d in toMSecsSinceEpoch_helper (jd utcDate) (QTime_ds utcTime))"

definition toTime_t :: "libc \<Rightarrow> QDateTime \<Rightarrow> uint32" where
  "toTime_t c d =
    (let retval = toMSecsSinceEpoch c d sdiv 1000
     in if retval mod 18446744073709551616 \<ge> 0xFFFFFFFF then 0xFFFFFFFF else u32 retval)"

definition to_local :: "libc \<Rightarrow> Spec \<Rightarrow> QDateTime \<Rightarrow> QDateTime" where
  "to_local c oldSpec d =
    (if oldSpec \<noteq> UTC then
       (let (date, time, sp) = getLocal c d in d\<lparr>dt_date := date, dt_time := time, spec := sp\<rparr>)
     else d)"

definition setMSecsSinceEpoch :: "libc \<Rightarrow> int64 \<Rightarrow> QDateTime \<Rightarrow> QDateTime" where
  "setMSecsSinceEpoch c msecs d =
    (let oldSpec = spec d;
         ddays = i32 (msecs sdiv MSECS_PER_DAY);
         msecs = msecs smod MSECS_PER_DAY;
         (ddays, msecs) = (if msecs < 0 then (i32 (ddays - 1), msecs + MSECS_PER_DAY) else (ddays, msecs))
     in to_local c oldSpec
          (d\<lparr>dt_date := QDate_addDays (QDate 1970 1 1) ddays, dt_time := QTime_addMSecs QTime0 msecs, spec := UTC\<rparr>))"

definition setTime_t :: "libc \<Rightarrow> uint32 \<Rightarrow> QDateTime \<Rightarrow> QDateTime" where
  "setTime_t c secs d =
    to_local c (spec d)
      (d\<lparr>dt_date := QDate_addDays (QDate 1970 1 1) (secs div SECS_PER_DAY),
         dt_time := QTime_addSecs QTime0 (secs mod SECS_PER_DAY), spec := UTC\<rparr>)"

definition fromTime_t :: "libc \<Rightarrow> uint32 \<Rightarrow> QDateTime" where
  "fromTime_t c seconds = setTime_t c seconds QDateTime0"

definition fromMSecsSinceEpoch :: "libc \<Rightarrow> int64 \<Rightarrow> QDateTime" where
  "fromMSecsSinceEpoch c msecs = setMSecsSinceEpoch c msecs QDateTime0"

section \<open>Arithmetic and order\<close>

definition QDateTime_addDays :: "QDateTime \<Rightarrow> int32 \<Rightarrow> QDateTime" where
  "QDateTime_addDays d ndays = new_QDateTime (QDate_addDays (dt_date d) ndays) (dt_time d) (QDateTime_timeSpec d)"

definition QDateTime_addMonths :: "QDateTime \<Rightarrow> int32 \<Rightarrow> QDateTime" where
  "QDateTime_addMonths d nmonths = new_QDateTime (QDate_addMonths (dt_date d) nmonths) (dt_time d) (QDateTime_timeSpec d)"

definition QDateTime_addYears :: "QDateTime \<Rightarrow> int32 \<Rightarrow> QDateTime" where
  "QDateTime_addYears d nyears = new_QDateTime (QDate_addYears (dt_date d) nyears) (dt_time d) (QDateTime_timeSpec d)"

definition toTimeSpec :: "libc \<Rightarrow> TimeSpec \<Rightarrow> QDateTime \<Rightarrow> QDateTime" where
  "toTimeSpec c ts d =
    (if (spec d = UTC) = (ts = Qt_UTC) then d
     else if ts = Qt_UTC then
       (let (date, time) = getUTC c d in QDateTime0\<lparr>dt_date := date, dt_time := time, spec := UTC\<rparr>)
     else
       (let (date, time, sp) = getLocal c d in QDateTime0\<lparr>dt_date := date, dt_time := time, spec := sp\<rparr>))"

definition QDateTime_toLocalTime :: "libc \<Rightarrow> QDateTime \<Rightarrow> QDateTime" where
  "QDateTime_toLocalTime c d = toTimeSpec c Qt_LocalTime d"

definition QDateTime_toUTC :: "libc \<Rightarrow> QDateTime \<Rightarrow> QDateTime" where
  "QDateTime_toUTC c d = toTimeSpec c Qt_UTC d"

definition QDateTime_addMSecs :: "libc \<Rightarrow> QDateTime \<Rightarrow> int64 \<Rightarrow> QDateTime" where
  "QDateTime_addMSecs c dt msecs =
    (let (utcDate, utcTime) = getUTC c dt;
         (utcDate, utcTime) = addMSecs_utc utcDate utcTime msecs
     in toTimeSpec c (QDateTime_timeSpec dt) (new_QDateTime utcDate utcTime Qt_UTC))"

definition QDateTime_addSecs :: "libc \<Rightarrow> QDateTime \<Rightarrow> int32 \<Rightarrow> QDateTime" where
  "QDateTime_addSecs c dt s = QDateTime_addMSecs c dt (s * 1000)"

definition QDateTime_daysTo :: "QDateTime \<Rightarrow> QDateTime \<Rightarrow> int32" where
  "QDateTime_daysTo d other = QDate_daysTo (dt_date d) (dt_date other)"

definition QDateTime_secsTo :: "libc \<Rightarrow> QDateTime \<Rightarrow> QDateTime \<Rightarrow> int32" where
  "QDateTime_secsTo c d other =
    (let (date1, time1) = getUTC c d;
         (date2, time2) = getUTC c other
     in i32 (i32 (QDate_daysTo date1 date2 * SECS_PER_DAY) + QTime_secsTo time1 time2))"

definition QDateTime_msecsTo :: "libc \<Rightarrow> QDateTime \<Rightarrow> QDateTime \<Rightarrow> int64" where
  "QDateTime_msecsTo c d other =
    (let (selfDate, selfTime) = getUTC c d;
         (otherDate, otherTime) = getUTC c other
     in QDate_daysTo selfDate otherDate * MSECS_PER_DAY + QTime_msecsTo selfTime otherTime)"

definition QDateTime_eq :: "libc \<Rightarrow> QDateTime \<Rightarrow> QDateTime \<Rightarrow> bool" where
  "QDateTime_eq c d other \<longleftrightarrow>
    (if spec d = spec other \<and> dt_utcOffset d = dt_utcOffset other
     then QTime_eq (dt_time d) (dt_time other) \<and> QDate_eq (dt_date d) (dt_date other)
     else
       (let (date1, time1) = getUTC c d;
            (date2, time2) = getUTC c other
        in QTime_eq time1 time2 \<and> QDate_eq date1 date2))"

definition QDateTime_less :: "libc \<Rightarrow> QDateTime \<Rightarrow> QDateTime \<Rightarrow> bool" where
  "QDateTime_less c d other \<longleftrightarrow>
    (if spec d = spec other \<and> spec d \<noteq> OffsetFromUTC then
       (if \<not> QDate_eq (dt_date d) (dt_date other) then QDate_less (dt_date d) (dt_date other)
        else QTime_less (dt_time d) (dt_time other))
     else
       (let (date1, time1) = getUTC c d;
            (date2, time2) = getUTC c other
        in if \<not> QDate_eq date1 date2 then QDate_less date1 date2 else QTime_less time1 time2))"

end
