(* ===== verification/DateTimeArith.thy ===== *)
theory DateTimeArith
  imports DateTime
begin

text \<open>
  The arithmetic of \<open>QDateTime\<close>: milliseconds since 1970, adding milliseconds, order and equality, and the way to
  local time and back.
\<close>

section \<open>Instants\<close>

text \<open>The milliseconds of a date and a time from day number 0.\<close>

definition instant :: "qdate \<Rightarrow> qtime \<Rightarrow> int" where
  "instant date time = jd date * 86400000 + QTime_ds time"

definition at_instant :: "int \<Rightarrow> qdate \<times> qtime" where
  "at_instant t = (QDateJd (u32 (t div 86400000)), QTimeMds (t mod 86400000))"

definition date_time_ok :: "qdate \<Rightarrow> qtime \<Rightarrow> bool" where
  "date_time_ok date time \<longleftrightarrow> 0 \<le> jd date \<and> jd date < 4294967296 \<and> QTime_isValid time"

lemma time_of_mod: "QTime_isValid (QTimeMds (t mod 86400000))" "QTime_ds (QTimeMds (t mod 86400000)) = t mod 86400000"
proof -
  have "- 1 < t mod 86400000" "t mod 86400000 < 86400000" by (simp_all add: less_le_trans [of "-1" 0])
  then show "QTime_isValid (QTimeMds (t mod 86400000))" "QTime_ds (QTimeMds (t mod 86400000)) = t mod 86400000"
    by (simp_all add: QTime_isValid_def QTime_ds_def NullTime_def MSECS_PER_DAY_def)
qed

lemma instant_div_mod:
  assumes "date_time_ok date time"
  shows "instant date time div 86400000 = jd date" "instant date time mod 86400000 = mds time"
    "at_instant (instant date time) = (date, time)"
proof -
  have t: "QTime_ds time = mds time" "0 \<le> mds time" "mds time < 86400000"
    using assms ds_valid [of time] by (auto simp: date_time_ok_def QTime_isValid_def NullTime_def MSECS_PER_DAY_def)
  show d: "instant date time div 86400000 = jd date"
    using t by (intro int_div_eqI) (simp_all add: instant_def)
  show m: "instant date time mod 86400000 = mds time"
    using minus_div_mult_eq_mod [of "instant date time" 86400000] unfolding d by (simp add: instant_def t)
  show "at_instant (instant date time) = (date, time)"
    unfolding at_instant_def d m using assms by (simp add: date_time_ok_def u32_id)
qed

lemma at_instant_inverse:
  assumes "0 \<le> t" "t < 371085174374400000" "at_instant t = (date, time)"
  shows "instant date time = t" "date_time_ok date time"
proof -
  have "0 \<le> t div 86400000" "t div 86400000 < 4294967296" 
    using assms(1,2) int_div_mult_le [of 86400000 t] by (simp_all add: pos_imp_zdiv_nonneg_iff)
  then have d: "date = QDateJd (t div 86400000)" "time = QTimeMds (t mod 86400000)"
    using assms(3) by (simp_all add: at_instant_def u32_id)
  show "date_time_ok date time"
    using \<open>0 \<le> t div 86400000\<close> \<open>t div 86400000 < 4294967296\<close> time_of_mod(1) by (simp add: date_time_ok_def d)
  show "instant date time = t" by (simp only: instant_def d time_of_mod(2) qdate.sel div_mult_mod_eq)
qed

section \<open>Adding milliseconds\<close>

lemma div_mod_shift:
  fixes a k r :: int
  assumes "t = a * 86400000 + r" "0 \<le> r" "r < 86400000"
  shows "t div 86400000 = a" "t mod 86400000 = r"
proof -
  show d: "t div 86400000 = a" by (rule int_div_eqI) (use assms in simp_all)
  show "t mod 86400000 = r" using minus_div_mult_eq_mod [of t 86400000] unfolding d by (simp add: assms(1))
qed

lemma addMSecs_utc_exact:
  assumes "0 \<le> jd date" "QTime_isValid time" "in64 n" "n \<noteq> -9223372036854775808" "jd date < 4294967296"
  shows "addMSecs_utc date time n = at_instant (instant date time + n)"
proof -
  define x where "x = QTime_ds time"
  have x: "0 \<le> x" "x < 86400000" using ds_range [of time] assms(2) by (simp_all add: x_def)
  define sg :: int where "sg = (if n < 0 then -1 else 1)"
  define a where "a = \<bar>n\<bar>"
  have a: "n = sg * a" "0 \<le> a" "(if n < 0 then i64 (- n) else n) = a"
    using assms(3,4) by (auto simp: sg_def a_def i64_id in64_def)
  define q r where "q = a div 86400000" and "r = a mod 86400000"
  have qr: "a = q * 86400000 + r" "0 \<le> r" "r < 86400000" "0 \<le> q" "a sdiv 86400000 = q" "a smod 86400000 = r"
    using a(2) by (simp_all add: q_def r_def cdiv_simps pos_imp_zdiv_nonneg_iff)
  have small: "q = 0" "r = a" if "\<not> a \<ge> 86400000" using that a(2) by (simp_all add: q_def r_def)
  define dd where "dd = jd date + sg * q"
  define tt where "tt = x + sg * r"
  have tt: "i32 tt = tt" "-86400000 < tt" "tt < 172800000" using x qr(2,3) by (auto simp: tt_def sg_def i32_id in32_def)
  have inst: "instant date time + n = dd * 86400000 + tt"
    using a(1) qr(1) by (simp add: instant_def dd_def tt_def x_def algebra_simps)
  have jd_u: "u32 (jd date) = jd date" using assms(1,5) by (rule u32_id)
  have p: "(if a \<ge> 86400000 then (u32 (jd date + sg * q), r) else (jd date, a)) = (u32 dd, r)"
    using small jd_u by (auto simp: dd_def)
  have body: "addMSecs_utc date time n =
    (if tt < 0 then (QDateJd (u32 (u32 dd - (86400000 - tt - 1) sdiv 86400000)),
        QTimeMds (86400000 - (86400000 - tt - 1) smod 86400000 - 1))
     else if tt \<ge> 86400000 then (QDateJd (u32 (u32 dd + tt sdiv 86400000)), QTimeMds (tt smod 86400000))
     else (QDateJd (u32 dd), QTimeMds tt))"
    unfolding addMSecs_utc_def Let_def x_def [symmetric] sg_def [symmetric] a(3) MSECS_PER_DAY_def qr(5,6) p prod.case
      tt_def [symmetric] tt(1) by simp
  consider "tt < 0" | "0 \<le> tt" "tt < 86400000" | "86400000 \<le> tt" by linarith
  then show ?thesis
  proof cases
    case 1
    have "(86400000 - tt - 1) sdiv 86400000 = 1" "(86400000 - tt - 1) smod 86400000 = - tt - 1"
      using 1 tt div_mod_shift [of "86400000 - tt - 1" 1 "- tt - 1"] by (simp_all add: cdiv_simps)
    moreover have "instant date time + n = (dd - 1) * 86400000 + (86400000 + tt)" by (simp add: inst)
    note div_mod_shift [OF this]
    moreover have "u32 (u32 dd - 1) = u32 (dd - 1)" using u32_add_wrap(1) [of dd "-1"] by simp
    ultimately show ?thesis using 1 tt(2) by (simp add: body at_instant_def)
  next
    case 2
    then show ?thesis using div_mod_shift [OF inst] by (simp add: body at_instant_def)
  next
    case 3
    have "tt sdiv 86400000 = 1" "tt smod 86400000 = tt - 86400000"
      using 3 tt div_mod_shift [of tt 1 "tt - 86400000"] by (simp_all add: cdiv_simps)
    moreover have "instant date time + n = (dd + 1) * 86400000 + (tt - 86400000)" by (simp add: inst)
    note div_mod_shift [OF this]
    ultimately show ?thesis using 3 tt(3) by (simp add: body at_instant_def)
  qed
qed


section \<open>A time zone of fixed offset\<close>

text \<open>
  Broken-down time in the calendar of \<open>QDate\<close>, and the C library in a zone \<open>off\<close> seconds east of UTC: an instance
  of the parameter.
\<close>

definition broken_down :: "int \<Rightarrow> tm" where
  "broken_down t =
    (let (y, m, d) = getDateFromJulianDay (2440588 + t div 86400);
         s = t mod 86400
     in \<lparr>tm_sec = s mod 60, tm_min = s div 60 mod 60, tm_hour = s div 60 div 60, tm_mday = d, tm_mon = m - 1,
         tm_year = y - 1900, tm_isdst = 0\<rparr>)"

definition seconds_of :: "tm \<Rightarrow> int" where
  "seconds_of b =
    (julianDayFromDate (tm_year b + 1900) (tm_mon b + 1) (tm_mday b) - 2440588) * 86400 +
    (tm_hour b * 60 + tm_min b) * 60 + tm_sec b"

definition fixed_zone :: "int \<Rightarrow> libc" where
  "fixed_zone off = \<lparr>localtime = \<lambda>t. Some (broken_down (t + off)), gmtime = \<lambda>t. Some (broken_down t),
    mktime = \<lambda>b. seconds_of b - off\<rparr>"

section \<open>The epoch\<close>

lemma epoch_date: "QDate 1970 1 1 = QDateJd 2440588"
  by code_simp

lemma getUTC_UTC: "spec d = UTC \<Longrightarrow> getUTC c d = (dt_date d, dt_time d)"
  by (simp add: getUTC_def spec_defs)

lemma toMSecs_instant:
  "getUTC c d = (date, time) \<Longrightarrow> toMSecsSinceEpoch c d = instant date time - 210866803200000"
  by (simp add: toMSecsSinceEpoch_def toMSecsSinceEpoch_helper_def instant_def JULIAN_DAY_FOR_EPOCH_def MSECS_PER_DAY_def)

lemma setMSecs_UTC:
  assumes "spec e = UTC" "-210866803200000 \<le> n" "n < 185542587187200000"
  shows "setMSecsSinceEpoch c n e =
    e\<lparr>dt_date := fst (at_instant (n + 210866803200000)), dt_time := snd (at_instant (n + 210866803200000))\<rparr>"
proof -
  define k r where "k = n div 86400000" and "r = n mod 86400000"
  have n: "n = k * 86400000 + r" "0 \<le> r" "r < 86400000" by (simp_all add: k_def r_def)
  have k: "-2440588 \<le> k" "k < 2147483648" using n assms(2,3) by linarith+
  have split: "(if n smod 86400000 < 0 then (i32 (i32 (n sdiv 86400000) - 1), n smod 86400000 + 86400000)
      else (i32 (n sdiv 86400000), n smod 86400000)) = (k, r)"
  proof (cases "n < 0")
    case False
    then show ?thesis using k n(2) by (simp add: cdiv_simps k_def [symmetric] r_def [symmetric] i32_id in32_def)
  next
    case True
    show ?thesis
    proof (cases "r = 0")
      case r0: True
      have "- n = (- k) * 86400000 + 0" using n(1) r0 by simp
      from div_mod_shift [OF this] have "n sdiv 86400000 = k" "n smod 86400000 = 0" using True by (simp_all add: cdiv_simps)
      then show ?thesis using k r0 by (simp add: i32_id in32_def)
    next
      case False
      have "- n = (- k - 1) * 86400000 + (86400000 - r)" using n(1) by simp
      from div_mod_shift [OF this] have "n sdiv 86400000 = k + 1" "n smod 86400000 = r - 86400000"
        using True n(2,3) False by (simp_all add: cdiv_simps)
      moreover have "i32 (k + 1) = k + 1" "i32 k = k" using k True n by (auto simp: i32_id in32_def)
      ultimately show ?thesis using n(3) by simp
    qed
  qed
  have "in32 k" using k by (simp add: in32_def)
  then have date: "QDate_addDays (QDateJd 2440588) k = QDateJd (u32 (2440588 + k))"
    using addDays_sum [of "QDateJd 2440588" k] k by (simp add: u32_id)
  have "mds (QTime_addMSecs QTime0 r) = r"
    using addMSecs_sum [of QTime0 r] n(2,3) by (simp add: QTime_isNull_def QTime0_def QTime_ds_def in32_def)
  then have time: "QTime_addMSecs QTime0 r = QTimeMds r" by (metis qtime.collapse)
  have "n + 210866803200000 = (2440588 + k) * 86400000 + r" using n(1) by simp
  note t = div_mod_shift [OF this n(2,3)]
  show ?thesis
    unfolding setMSecsSinceEpoch_def Let_def MSECS_PER_DAY_def split prod.case epoch_date date time at_instant_def t fst_conv snd_conv
    using assms(1) by (simp add: to_local_def)
qed

text \<open>
  C35: For a datetime in UTC, \<open>setMSecsSinceEpoch\<close> and \<open>toMSecsSinceEpoch\<close> are inverse, from the first day on and as
  far as the day difference fits an \<open>int\<close>: the milliseconds come back, with a valid datetime, and so does every valid
  datetime.
\<close>
theorem QDateTime_epoch_roundtrip:
  assumes "spec e = UTC" "-210866716800000 \<le> n" "n < 185542587187200000" "spec d = UTC" "QDateTime_isValid d"
    "0 \<le> jd (dt_date d)" "jd (dt_date d) < 2149924236"
  shows "toMSecsSinceEpoch c (setMSecsSinceEpoch c n e) = n \<and> QDateTime_isValid (setMSecsSinceEpoch c n e) \<and>
    setMSecsSinceEpoch c (toMSecsSinceEpoch c d) e = d\<lparr>dt_utcOffset := dt_utcOffset e\<rparr>"
proof (intro conjI)
  define t where "t = n + 210866803200000"
  obtain date time where dt: "at_instant t = (date, time)" by (rule prod.exhaust)
  have "0 \<le> t" "t < 371085174374400000" using assms(2,3) by (simp_all add: t_def)
  note i = at_instant_inverse [OF this dt]
  have set: "setMSecsSinceEpoch c n e = e\<lparr>dt_date := date, dt_time := time\<rparr>"
    using setMSecs_UTC [of e n c] assms(1-3) by (simp add: t_def [symmetric] dt)
  then have "getUTC c (setMSecsSinceEpoch c n e) = (date, time)" using assms(1) by (simp add: getUTC_UTC)
  from toMSecs_instant [OF this] show "toMSecsSinceEpoch c (setMSecsSinceEpoch c n e) = n" by (simp add: i(1) t_def)
  have "86400000 \<le> instant date time" using assms(2) by (simp add: i(1) t_def)
  then have "jd date \<noteq> 0" using ds_range [of time] i(2) by (auto simp: instant_def date_time_ok_def)
  then show "QDateTime_isValid (setMSecsSinceEpoch c n e)"
    using i(2) by (simp add: set QDateTime_isValid_def QDate_isValid_def QDate_isNull_def date_time_ok_def)
next
  have ok: "date_time_ok (dt_date d) (dt_time d)"
    using assms(5-7) by (simp add: date_time_ok_def QDateTime_isValid_def)
  then have x: "0 \<le> QTime_ds (dt_time d)" "QTime_ds (dt_time d) < 86400000" using ds_range by (auto simp: date_time_ok_def)
  have ms: "toMSecsSinceEpoch c d = instant (dt_date d) (dt_time d) - 210866803200000"
    using assms(4) by (intro toMSecs_instant getUTC_UTC)
  have "-210866803200000 \<le> toMSecsSinceEpoch c d" "toMSecsSinceEpoch c d < 185542587187200000"
    using x assms(6,7) by (simp_all add: ms instant_def)
  from setMSecs_UTC [OF assms(1) this, of c] show "setMSecsSinceEpoch c (toMSecsSinceEpoch c d) e = d\<lparr>dt_utcOffset := dt_utcOffset e\<rparr>"
    using instant_div_mod(3) [OF ok] assms(1,4) by (simp add: ms)
qed

theorem QDateTime_epoch_roundtrip_witness:
  "toMSecsSinceEpoch (fixed_zone 3600) (setMSecsSinceEpoch (fixed_zone 3600) (-1) (new_QDateTime (QDateJd 1) (QTimeMds 5) Qt_UTC)) = -1"
  using QDateTime_epoch_roundtrip [of "new_QDateTime (QDateJd 1) (QTimeMds 5) Qt_UTC" "-1" "new_QDateTime (QDateJd 1) (QTimeMds 5) Qt_UTC" "fixed_zone 3600"]
  by (simp add: new_QDateTime_def QDateTime0_def QDateTime_isValid_def QDate_isValid_def QDate_isNull_def QTime_isValid_def
      NullTime_def MSECS_PER_DAY_def)

text \<open>
  \<open>toTime_t\<close> is documented to return -1, as a \<open>uint\<close>, before 1970; in the last second before 1970 it returns 0.
\<close>

lemma toTime_t_before_epoch:
  assumes "spec d = UTC" "dt_date d = QDateJd 2440587" "dt_time d = QTimeMds m" "86399000 < m" "m < 86400000"
  shows "toTime_t c d = 0"
proof -
  have "toMSecsSinceEpoch c d = m - 86400000"
    using assms toMSecs_instant [OF getUTC_UTC [OF assms(1)], of c] by (simp add: instant_def QTime_ds_def NullTime_def)
  moreover have "(86400000 - m) div 1000 = 0" using assms(4,5) by simp
  ultimately show ?thesis using assms(4,5) by (simp add: toTime_t_def cdiv_simps u32_def)
qed


section \<open>Arithmetic\<close>

definition utc_known :: "QDateTime \<Rightarrow> bool" where
  "utc_known d \<longleftrightarrow> date_time_ok (dt_date d) (dt_time d) \<and>
    (spec d = UTC \<or> spec d = OffsetFromUTC \<and> in32 (dt_utcOffset d) \<and>
      0 \<le> instant (dt_date d) (dt_time d) - dt_utcOffset d * 1000 \<and>
      instant (dt_date d) (dt_time d) - dt_utcOffset d * 1000 < 371085174374400000)"

lemma instant_bounds:
  assumes "date_time_ok date time"
  shows "0 \<le> instant date time" "instant date time < 371085174374400000"
  using assms ds_range [of time] by (auto simp: date_time_ok_def instant_def)

lemma getUTC_known:
  assumes "utc_known d" "getUTC c d = (date, time)"
  shows "date_time_ok date time" "toMSecsSinceEpoch c d = instant date time - 210866803200000"
    "instant date time = instant (dt_date d) (dt_time d) - (if spec d = UTC then 0 else dt_utcOffset d * 1000)"
proof -
  define t where "t = instant (dt_date d) (dt_time d) - (if spec d = UTC then 0 else dt_utcOffset d * 1000)"
  have ok: "date_time_ok (dt_date d) (dt_time d)" using assms(1) by (simp add: utc_known_def)
  have t: "0 \<le> t" "t < 371085174374400000"
    using assms(1) instant_bounds [OF ok] by (auto simp: utc_known_def t_def spec_defs)
  have "(date, time) = at_instant t"
  proof (cases "spec d = UTC")
    case True
    then show ?thesis using assms(2) instant_div_mod(3) [OF ok] by (simp add: getUTC_UTC t_def)
  next
    case False
    then have o: "spec d = OffsetFromUTC" "in32 (dt_utcOffset d)" using assms(1) by (auto simp: utc_known_def)
    then have n: "in64 (- (dt_utcOffset d * 1000))" "- (dt_utcOffset d * 1000) \<noteq> -9223372036854775808"
      by (auto simp: in32_def in64_def)
    have "addMSecs_utc (dt_date d) (dt_time d) (- (dt_utcOffset d * 1000)) = at_instant t"
      using addMSecs_utc_exact [OF _ _ n] ok False by (simp add: t_def date_time_ok_def)
    then show ?thesis using assms(2) o(1) by (simp add: getUTC_def spec_defs)
  qed
  note i = at_instant_inverse [OF t this [symmetric]]
  show "date_time_ok date time" "toMSecsSinceEpoch c d = instant date time - 210866803200000"
    "instant date time = instant (dt_date d) (dt_time d) - (if spec d = UTC then 0 else dt_utcOffset d * 1000)"
    using i toMSecs_instant [OF assms(2)] by (simp_all add: t_def)
qed

lemma msecs_range: "jd d = u32 x \<Longrightarrow> QTime_isValid t \<Longrightarrow> date_time_ok d t"
  by (simp add: date_time_ok_def)

lemma QDateTime_of_instant:
  assumes "0 < u32 (t div 86400000)"
  shows "(case at_instant t of (date, time) \<Rightarrow> new_QDateTime date time Qt_UTC) =
    \<lparr>dt_date = QDateJd (u32 (t div 86400000)), dt_time = QTimeMds (t mod 86400000), spec = UTC, dt_utcOffset = 0\<rparr>"
  using time_of_mod(1) [of t] by (simp add: at_instant_def new_QDateTime_def QDateTime0_def)

text \<open>
  \<open>addMSecs\<close> on a valid datetime in UTC adds exactly, \<open>addSecs\<close> likewise, and \<open>msecsTo\<close> measures it, as long as the day
  stays in the range of day numbers; outside of it, unlike \<open>QDate::addDays\<close>, the day number wraps around.
\<close>
theorem QDateTime_addMSecs_exact:
  assumes "spec d = UTC" "date_time_ok (dt_date d) (dt_time d)" "in64 n" "n \<noteq> -9223372036854775808"
    "t = instant (dt_date d) (dt_time d) + n" "0 < u32 (t div 86400000)"
  shows "QDateTime_addMSecs c d n =
      \<lparr>dt_date = QDateJd (u32 (t div 86400000)), dt_time = QTimeMds (t mod 86400000), spec = UTC, dt_utcOffset = 0\<rparr> \<and>
    (0 \<le> t \<and> t < 371085174374400000 \<longrightarrow> toMSecsSinceEpoch c (QDateTime_addMSecs c d n) = toMSecsSinceEpoch c d + n \<and>
      (in32 (t div 86400000 - jd (dt_date d)) \<longrightarrow> QDateTime_msecsTo c d (QDateTime_addMSecs c d n) = n))"
proof -
  let ?e = "\<lparr>dt_date = QDateJd (u32 (t div 86400000)), dt_time = QTimeMds (t mod 86400000), spec = UTC, dt_utcOffset = 0\<rparr>"
  have add: "addMSecs_utc (dt_date d) (dt_time d) n = at_instant t"
    using addMSecs_utc_exact [OF _ _ assms(3,4)] assms(2) by (simp add: assms(5) date_time_ok_def)
  have e: "QDateTime_addMSecs c d n = ?e"
    using QDateTime_of_instant [OF assms(6)] assms(1)
    by (auto simp: QDateTime_addMSecs_def getUTC_UTC add QDateTime_timeSpec_def toTimeSpec_def split: prod.splits)
  have u: "getUTC c d = (dt_date d, dt_time d)" "getUTC c ?e = (QDateJd (u32 (t div 86400000)), QTimeMds (t mod 86400000))"
    using assms(1) by (simp_all add: getUTC_UTC)
  have "toMSecsSinceEpoch c ?e = toMSecsSinceEpoch c d + n \<and>
      (in32 (t div 86400000 - jd (dt_date d)) \<longrightarrow> QDateTime_msecsTo c d ?e = n)" if t: "0 \<le> t" "t < 371085174374400000"
  proof
    have i: "instant (QDateJd (u32 (t div 86400000))) (QTimeMds (t mod 86400000)) = t"
      using at_instant_inverse(1) [OF t] by (simp add: at_instant_def)
    then show "toMSecsSinceEpoch c ?e = toMSecsSinceEpoch c d + n"
      using toMSecs_instant [OF u(1)] toMSecs_instant [OF u(2)] assms(5) by simp
    show "in32 (t div 86400000 - jd (dt_date d)) \<longrightarrow> QDateTime_msecsTo c d ?e = n"
    proof
      assume days: "in32 (t div 86400000 - jd (dt_date d))"
      have "t div 86400000 < 4294967296" using t int_div_mult_le [of 86400000 t] by linarith
      then have k: "u32 (t div 86400000) = t div 86400000" using t(1) by (simp add: u32_id pos_imp_zdiv_nonneg_iff)
      define x y where "x = QTime_ds (dt_time d)" and "y = t mod 86400000"
      have xy: "0 \<le> x" "x < 86400000" "0 \<le> y" "y < 86400000"
        using assms(2) ds_range [of "dt_time d"] by (auto simp: x_def y_def date_time_ok_def)
      have "QTime_msecsTo (dt_time d) (QTimeMds y) = y - x"
        using xy time_of_mod(2) [of t] by (simp add: QTime_msecsTo_def x_def [symmetric] y_def [symmetric] i32_id in32_def)
      moreover have "t = (t div 86400000) * 86400000 + y" by (simp add: y_def)
      moreover have "t = jd (dt_date d) * 86400000 + x + n" by (simp add: assms(5) instant_def x_def)
      ultimately show "QDateTime_msecsTo c d ?e = n"
        unfolding QDateTime_msecsTo_def u Let_def prod.case
        unfolding k y_def [symmetric] QDate_daysTo_def qdate.sel i32_id [OF days]
          MSECS_PER_DAY_def left_diff_distrib by linarith
    qed
  qed
  then show ?thesis unfolding e by blast
qed

theorem QDateTime_addMSecs_exact_witness:
  "QDateTime_msecsTo (fixed_zone 0) (new_QDateTime (QDateJd 2440588) (QTimeMds 5) Qt_UTC)
     (QDateTime_addMSecs (fixed_zone 0) (new_QDateTime (QDateJd 2440588) (QTimeMds 5) Qt_UTC) (-6)) = -6"
proof -
  let ?d = "new_QDateTime (QDateJd 2440588) (QTimeMds 5) Qt_UTC"
  have d: "?d = \<lparr>dt_date = QDateJd 2440588, dt_time = QTimeMds 5, spec = UTC, dt_utcOffset = 0\<rparr>"
    by (simp add: new_QDateTime_def QDateTime0_def QTime_isValid_def NullTime_def MSECS_PER_DAY_def)
  have h: "spec ?d = UTC" "date_time_ok (dt_date ?d) (dt_time ?d)" "in64 (-6)" "(-6 :: int) \<noteq> -9223372036854775808"
    "210866803199999 = instant (dt_date ?d) (dt_time ?d) + -6" "0 < u32 (210866803199999 div 86400000)"
    unfolding d by (simp_all add: date_time_ok_def QTime_isValid_def QTime_ds_def NullTime_def MSECS_PER_DAY_def in64_def
        instant_def u32_def)
  have "in32 (210866803199999 div 86400000 - jd (dt_date ?d))" unfolding d by (simp add: in32_def)
  moreover have "(0 :: int) \<le> 210866803199999 \<and> (210866803199999 :: int) < 371085174374400000" by simp
  ultimately show ?thesis using QDateTime_addMSecs_exact [OF h, of "fixed_zone 0"] by blast
qed


section \<open>Order\<close>

lemma instant_less:
  assumes "date_time_ok d1 t1" "date_time_ok d2 t2"
  shows "instant d1 t1 < instant d2 t2 \<longleftrightarrow> (if QDate_eq d1 d2 then QTime_less t1 t2 else QDate_less d1 d2)"
    "instant d1 t1 = instant d2 t2 \<longleftrightarrow> QDate_eq d1 d2 \<and> QTime_eq t1 t2"
proof -
  have t: "QTime_ds t1 = mds t1" "QTime_ds t2 = mds t2" "0 \<le> mds t1" "mds t1 < 86400000" "0 \<le> mds t2" "mds t2 < 86400000"
    using assms parts_of(5,6) ds_valid by (simp_all add: date_time_ok_def)
  show "instant d1 t1 < instant d2 t2 \<longleftrightarrow> (if QDate_eq d1 d2 then QTime_less t1 t2 else QDate_less d1 d2)"
    using t by (simp add: instant_def QDate_eq_def QDate_less_def QTime_less_def) linarith
  show "instant d1 t1 = instant d2 t2 \<longleftrightarrow> QDate_eq d1 d2 \<and> QTime_eq t1 t2"
    using t unfolding instant_def QDate_eq_def QTime_eq_def
    by (cases "jd d1" "jd d2" rule: linorder_cases) simp_all
qed

text \<open>
  For valid datetimes in UTC or at an offset from UTC, \<open><\<close> and \<open>==\<close> are those of the milliseconds since 1970, whatever
  the two are relative to.
\<close>
theorem QDateTime_order:
  assumes "utc_known a" "utc_known b"
  shows "(QDateTime_less c a b \<longleftrightarrow> toMSecsSinceEpoch c a < toMSecsSinceEpoch c b) \<and>
    (QDateTime_eq c a b \<longleftrightarrow> toMSecsSinceEpoch c a = toMSecsSinceEpoch c b)"
proof -
  obtain d1 t1 d2 t2 where u: "getUTC c a = (d1, t1)" "getUTC c b = (d2, t2)" by (meson prod.exhaust)
  note a = getUTC_known [OF assms(1) u(1)] and b = getUTC_known [OF assms(2) u(2)]
  note i = instant_less [OF a(1) b(1)]
  have ok: "date_time_ok (dt_date a) (dt_time a)" "date_time_ok (dt_date b) (dt_time b)"
    using assms by (simp_all add: utc_known_def)
  note j = instant_less [OF ok]
  have same: "spec a = spec b \<Longrightarrow> spec a \<noteq> OffsetFromUTC \<Longrightarrow>
      instant d1 t1 = instant (dt_date a) (dt_time a) \<and> instant d2 t2 = instant (dt_date b) (dt_time b)"
    using a(3) b(3) assms by (auto simp: utc_known_def)
  have diff: "spec a = spec b \<Longrightarrow> dt_utcOffset a = dt_utcOffset b \<Longrightarrow>
      instant d1 t1 - instant (dt_date a) (dt_time a) = instant d2 t2 - instant (dt_date b) (dt_time b)"
    using a(3) b(3) by simp
  show ?thesis
    unfolding a(2) b(2) QDateTime_less_def QDateTime_eq_def u Let_def prod.case
    using i j same diff by (auto split: if_splits)
qed

theorem QDateTime_order_witness:
  "QDateTime_less (fixed_zone 0) (QDateTime_setUtcOffset 3600 (new_QDateTime (QDateJd 2440588) (QTimeMds 5) Qt_UTC))
     (new_QDateTime (QDateJd 2440588) (QTimeMds 4) Qt_UTC)"
proof -
  let ?a = "QDateTime_setUtcOffset 3600 (new_QDateTime (QDateJd 2440588) (QTimeMds 5) Qt_UTC)"
  let ?b = "new_QDateTime (QDateJd 2440588) (QTimeMds 4) Qt_UTC"
  have "utc_known ?a" "utc_known ?b"
    by (simp_all add: utc_known_def QDateTime_setUtcOffset_def new_QDateTime_def QDateTime0_def date_time_ok_def QTime_isValid_def
        NullTime_def MSECS_PER_DAY_def spec_defs in32_def instant_def QTime_ds_def)
  note t = QDateTime_order [OF this, of "fixed_zone 0"]
  have "toMSecsSinceEpoch (fixed_zone 0) ?a < toMSecsSinceEpoch (fixed_zone 0) ?b" by code_simp
  with t show ?thesis by blast
qed

text \<open>An offset from UTC does not survive the arithmetic: \<open>addDays\<close> gives local time, \<open>addMSecs\<close> converts to it.\<close>

lemma addDays_drops_offset:
  "spec d = OffsetFromUTC \<Longrightarrow> spec (QDateTime_addDays d n) = LocalUnknown \<and> dt_utcOffset (QDateTime_addDays d n) = 0"
  by (simp add: QDateTime_addDays_def new_QDateTime_def QDateTime0_def QDateTime_timeSpec_def spec_defs)

section \<open>Local time and back\<close>

definition valid_tm :: "tm \<Rightarrow> bool" where
  "valid_tm b \<longleftrightarrow> 0 \<le> tm_sec b \<and> tm_sec b < 60 \<and> 0 \<le> tm_min b \<and> tm_min b < 60 \<and> 0 \<le> tm_hour b \<and> tm_hour b < 24 \<and>
    tm_year b + 1900 \<le> 1400000 \<and> QDate_isValid_ymd (tm_year b + 1900) (tm_mon b + 1) (tm_mday b) \<and> tm_isdst b \<in> {0, 1}"

text \<open>
  What the C library documents: \<open>gmtime_r\<close> breaks seconds down in UTC, and \<open>mktime\<close> of what \<open>localtime_r\<close> gives, the
  daylight saving flag included, is the seconds again.
\<close>

definition libc_ok :: "libc \<Rightarrow> bool" where
  "libc_ok c \<longleftrightarrow> (\<forall>t. 0 \<le> t \<and> t < 2147483648 \<longrightarrow>
    gmtime c t = Some (broken_down t) \<and> (\<exists>b. localtime c t = Some b \<and> valid_tm b \<and> mktime c b = t))"

lemma date_of_number:
  assumes "1 \<le> n" "n < 511000000" "getDateFromJulianDay n = (y, m, d)"
  shows "QDate y m d = QDateJd n" "QDate_isValid_ymd y m d" "y < 1400000" "julianDayFromDate y m d = n"
proof -
  from jd_surjective [OF assms(1,2)] obtain y' m' d' where
    v: "QDate_isValid_ymd y' m' d'" "y' < 1400000" "julianDayFromDate y' m' d' = n" by blast
  then have "getDateFromJulianDay n = (y', m', d')" using date_roundtrip(1) [of y' m' d'] by simp
  then have e: "y' = y" "m' = m" "d' = d" using assms(3) by simp_all
  show "QDate y m d = QDateJd n" "QDate_isValid_ymd y m d" "y < 1400000" "julianDayFromDate y m d = n"
    using v QDate_of_valid(1) [of y m d] unfolding e by simp_all
qed

lemma ymd_bounds:
  assumes "QDate_isValid_ymd y m d"
  shows "-4713 \<le> y" "1 \<le> m" "m \<le> 12" "1 \<le> d"
  using assms by (simp_all add: valid_ymd_iff)

lemma broken_down_ok:
  assumes "0 \<le> t" "t < 40000000000000"
  shows "broken_date (broken_down t) = QDateJd (2440588 + t div 86400)"
    "seconds_of (broken_down t) = t" "valid_tm (broken_down t)"
    "tm_hour (broken_down t) * 3600 + tm_min (broken_down t) * 60 + tm_sec (broken_down t) = t mod 86400"
proof -
  define n s where "n = 2440588 + t div 86400" and "s = t mod 86400"
  obtain y m d where g: "getDateFromJulianDay n = (y, m, d)" by (rule prod_cases3)
  have n: "1 \<le> n" "n < 511000000"
    using assms int_div_mult_le [of 86400 t] by (simp_all add: n_def pos_imp_zdiv_nonneg_iff add.commute [of _ "t div 86400"] add_pos_nonneg)
  note dn = date_of_number [OF n g]
  have b: "broken_down t = \<lparr>tm_sec = s mod 60, tm_min = s div 60 mod 60, tm_hour = s div 60 div 60, tm_mday = d, tm_mon = m - 1,
      tm_year = y - 1900, tm_isdst = 0\<rparr>"
    using g by (simp add: broken_down_def Let_def n_def s_def)
  have "in32 y" "in32 m" using ymd_bounds [OF dn(2)] dn(3) by (simp_all add: in32_def)
  then show "broken_date (broken_down t) = QDateJd (2440588 + t div 86400)"
    using dn(1) by (simp add: b broken_date_def i32_id n_def)
  have s: "0 \<le> s" "s < 86400" "t = t div 86400 * 86400 + s" by (simp_all add: s_def)
  have flat: "(p * 60 + q) * 60 + r = p * 3600 + q * 60 + r" for p q r :: int by simp
  have hms: "s = (s div 60 div 60 * 60 + s div 60 mod 60) * 60 + s mod 60" by simp
  then show h: "tm_hour (broken_down t) * 3600 + tm_min (broken_down t) * 60 + tm_sec (broken_down t) = t mod 86400"
    by (simp only: b tm.select_convs s_def [symmetric] flat [symmetric] hms [symmetric])
  have "seconds_of (broken_down t) = (n - 2440588) * 86400 + s"
    using dn(4) hms by (simp add: seconds_of_def b)
  then show "seconds_of (broken_down t) = t" using s(3) by (simp add: n_def)
  have "0 \<le> s div 60 div 60" "s div 60 div 60 < 24"
    using s(1,2) by (simp_all add: zdiv_zmult2_eq [symmetric] pos_imp_zdiv_nonneg_iff)
  then show "valid_tm (broken_down t)" using dn(2,3) by (simp add: valid_tm_def b)
qed


lemma time_of_tm:
  assumes "valid_tm b" "0 \<le> k" "k < 1000"
  shows "QTime (tm_hour b) (tm_min b) (tm_sec b) k = QTimeMds ((tm_hour b * 3600 + tm_min b * 60 + tm_sec b) * 1000 + k)"
    "QTime_isValid (QTime (tm_hour b) (tm_min b) (tm_sec b) k)"
    "QTime_hour (QTime (tm_hour b) (tm_min b) (tm_sec b) k) = tm_hour b"
    "QTime_minute (QTime (tm_hour b) (tm_min b) (tm_sec b) k) = tm_min b"
    "QTime_second (QTime (tm_hour b) (tm_min b) (tm_sec b) k) = tm_sec b"
    "QTime_msec (QTime (tm_hour b) (tm_min b) (tm_sec b) k) = k"
proof -
  note v = assms(1) [unfolded valid_tm_def]
  have b: "0 \<le> tm_hour b" "0 \<le> tm_min b" "tm_min b < 60" "0 \<le> tm_sec b" "tm_sec b < 60" "tm_hour b < 24" using v by simp_all
  define x where "x = ((tm_hour b * 60 + tm_min b) * 60 + tm_sec b) * 1000 + k"
  have t: "QTime (tm_hour b) (tm_min b) (tm_sec b) k = QTimeMds x"
    using QTime_of_valid [OF b(1,6,2-5) assms(2,3)] by (simp add: x_def)
  have "0 \<le> x" "x < 86400000" using b assms(2,3) by (simp_all add: x_def)
  then show valid: "QTime_isValid (QTime (tm_hour b) (tm_min b) (tm_sec b) k)"
    by (simp add: t QTime_isValid_def NullTime_def MSECS_PER_DAY_def)
  show "QTime (tm_hour b) (tm_min b) (tm_sec b) k = QTimeMds ((tm_hour b * 3600 + tm_min b * 60 + tm_sec b) * 1000 + k)"
    by (simp add: t x_def)
  have m: "mds (QTime (tm_hour b) (tm_min b) (tm_sec b) k) = x" by (simp add: t)
  note c = clock_parts [OF b(1-5) assms(2,3) x_def]
  show "QTime_hour (QTime (tm_hour b) (tm_min b) (tm_sec b) k) = tm_hour b"
    "QTime_minute (QTime (tm_hour b) (tm_min b) (tm_sec b) k) = tm_min b"
    "QTime_second (QTime (tm_hour b) (tm_min b) (tm_sec b) k) = tm_sec b"
    "QTime_msec (QTime (tm_hour b) (tm_min b) (tm_sec b) k) = k"
    unfolding parts_of(1-4) [OF valid] m by (fact c)+
qed

definition within_limits :: "qdate \<Rightarrow> bool" where
  "within_limits date \<longleftrightarrow> QDate_less (QDate 1970 1 2) date \<and> QDate_less date (QDate 2037 12 30)"

lemma limits:
  assumes "within_limits date"
  shows "adjustDate date = date" "2440589 < jd date" "jd date < 2465423" "toJulianDay date = jd date" "QDate_daysTo date date = 0"
proof -
  have l: "QDate 1970 1 2 = QDateJd 2440589" "QDate 2037 12 30 = QDateJd 2465423" by code_simp+
  show "adjustDate date = date" using assms by (simp add: adjustDate_def Let_def within_limits_def)
  show j: "2440589 < jd date" "jd date < 2465423" using assms by (simp_all add: within_limits_def l QDate_less_def)
  show "toJulianDay date = jd date" using j by (simp add: toJulianDay_def i32_id in32_def)
  show "QDate_daysTo date date = 0" by (simp add: QDate_daysTo_def i32_def)
qed

lemma addDays_0: "0 \<le> jd date \<Longrightarrow> jd date < 4294967296 \<Longrightarrow> QDate_addDays date 0 = date"
  using addDays_sum [of date 0] by simp

text \<open>
  C36: Converting a datetime within the limits of the C library from UTC to local time and back gives it back, with the
  milliseconds, for every time zone that the C library may know, and keeps the milliseconds since 1970.
\<close>
theorem QDateTime_local_roundtrip:
  assumes "libc_ok c" "spec d = UTC" "QTime_isValid (dt_time d)" "within_limits (dt_date d)"
    "within_limits (dt_date (QDateTime_toLocalTime c d))"
  shows "QDateTime_toUTC c (QDateTime_toLocalTime c d) = d\<lparr>dt_utcOffset := 0\<rparr> \<and>
    toMSecsSinceEpoch c (QDateTime_toLocalTime c d) = toMSecsSinceEpoch c d"
proof -
  define x where "x = mds (dt_time d)"
  have x: "0 \<le> x" "x < 86400000" "QTime_ds (dt_time d) = x"
    using parts_of(5,6) [OF assms(3)] ds_valid [OF assms(3)] by (simp_all add: x_def)
  note lim = limits [OF assms(4)]
  define t where "t = (jd (dt_date d) - 2440588) * 86400 + x div 1000"
  define k where "k = x mod 1000"
  have xk: "x = x div 1000 * 1000 + k" "0 \<le> k" "k < 1000" "0 \<le> x div 1000" "x div 1000 < 86400"
    using x(1,2) by (simp_all add: k_def pos_imp_zdiv_nonneg_iff)
  have t: "0 \<le> t" "t < 2147483648" using lim(2,3) xk by (simp_all add: t_def)
  have "toMSecsSinceEpoch_helper (jd (dt_date d)) x = t * 1000 + k"
    using xk(1) by (simp add: toMSecsSinceEpoch_helper_def JULIAN_DAY_FOR_EPOCH_def MSECS_PER_DAY_def t_def)
  moreover have "QTime_msecsTo QTime0 (dt_time d) = x"
    using x by (simp add: QTime_msecsTo_def QTime0_def QTime_ds_def [of "QTimeMds NullTime"] i32_id in32_def)
  moreover have "(t * 1000 + k) sdiv 1000 = t" using t(1) xk(2,3) int_div_eqI [of t 1000 "t * 1000 + k"] by (simp add: cdiv_simps)
  ultimately have secs: "toMSecsSinceEpoch_helper (toJulianDay (dt_date d)) (QTime_msecsTo QTime0 (dt_time d)) sdiv 1000 = t"
    using lim(4) by simp
  from assms(1) t obtain b where b: "localtime c t = Some b" "valid_tm b" "mktime c b = t" "gmtime c t = Some (broken_down t)"
    by (auto simp: libc_ok_def)
  have msec: "QTime_msec (dt_time d) = k" using parts_of(4) [OF assms(3)] by (simp add: x_def k_def)
  note lt = time_of_tm [OF b(2) xk(2,3)]
  have ymd: "QDate_isValid_ymd (tm_year b + 1900) (tm_mon b + 1) (tm_mday b)" "tm_year b + 1900 \<le> 1400000"
    using b(2) by (simp_all add: valid_tm_def)
  have "in32 (tm_year b + 1900)" "in32 (tm_mon b + 1)" using ymd_bounds [OF ymd(1)] ymd(2) by (simp_all add: in32_def)
  then have bd: "broken_date b = QDate (tm_year b + 1900) (tm_mon b + 1) (tm_mday b)" by (simp add: broken_date_def i32_id)
  note vd = QDate_of_valid [OF ymd, folded bd]
  have local_date: "QDate_addDays (broken_date b) 0 = broken_date b" using vd(4,5) by (intro addDays_0) simp_all
  define sp where "sp = tm_isdst b"
  have sp: "sp = 0 \<or> sp = 1" using b(2) by (simp add: sp_def valid_tm_def)
  have "(if tm_isdst b > 0 then LocalDST else if tm_isdst b < 0 then LocalUnknown else LocalStandard) = sp"
    using sp by (auto simp: sp_def spec_defs)
  then have "utcToLocal c (dt_date d) (dt_time d) = (broken_date b, QTime (tm_hour b) (tm_min b) (tm_sec b) k, sp)"
    unfolding utcToLocal_def Let_def lim(1) secs b(1) option.case lim(5) local_date msec by simp
  then have l: "QDateTime_toLocalTime c d =
      \<lparr>dt_date = broken_date b, dt_time = QTime (tm_hour b) (tm_min b) (tm_sec b) k, spec = sp, dt_utcOffset = 0\<rparr>"
    using assms(2) by (simp add: QDateTime_toLocalTime_def toTimeSpec_def getLocal_def QDateTime0_def)
  have lim': "within_limits (broken_date b)" using assms(5) by (simp add: l)
  note lim' = limits [OF lim']
  have fields: "\<lparr>tm_sec = tm_sec b, tm_min = tm_min b, tm_hour = tm_hour b, tm_mday = QDate_day (broken_date b),
      tm_mon = QDate_month (broken_date b) - 1, tm_year = QDate_year (broken_date b) - 1900, tm_isdst = sp\<rparr> = b"
    by (simp add: QDate_day_def QDate_month_def QDate_year_def vd(2) sp_def)
  have "t div 86400 = jd (dt_date d) - 2440588" "t mod 86400 = x div 1000"
  proof -
    show q: "t div 86400 = jd (dt_date d) - 2440588" by (rule int_div_eqI) (use xk in \<open>simp_all add: t_def\<close>)
    show "t mod 86400 = x div 1000" using minus_div_mult_eq_mod [of t 86400] unfolding q by (simp add: t_def)
  qed
  note down = broken_down_ok [OF t(1) order.strict_trans [OF t(2)], simplified, unfolded this]
  have date: "broken_date (broken_down t) = dt_date d" using down(1) by simp
  have time: "QTime (tm_hour (broken_down t)) (tm_min (broken_down t)) (tm_sec (broken_down t)) k = dt_time d"
    using time_of_tm(1) [OF down(3) xk(2,3)] down(4) xk(1) by (simp add: x_def)
  have return: "localToUtc c (broken_date b) (QTime (tm_hour b) (tm_min b) (tm_sec b) k) sp = (dt_date d, dt_time d)"
    using vd(3) lim(2,3)
    by (simp add: localToUtc_def Let_def lim'(1,5) lt(3-6) fields b(3,4) date time addDays_0)
  then have utc: "getUTC c (QDateTime_toLocalTime c d) = (dt_date d, dt_time d)"
    using sp by (auto simp: getUTC_def l spec_defs)
  have "QDateTime_toUTC c (QDateTime_toLocalTime c d) = d\<lparr>dt_utcOffset := 0\<rparr>"
    using utc sp assms(2) by (auto simp: QDateTime_toUTC_def toTimeSpec_def l QDateTime0_def spec_defs)
  moreover have "toMSecsSinceEpoch c (QDateTime_toLocalTime c d) = toMSecsSinceEpoch c d"
    using utc getUTC_UTC [OF assms(2)] by (simp add: toMSecsSinceEpoch_def)
  ultimately show ?thesis by simp
qed

lemma fixed_zone_ok:
  assumes "0 \<le> off" "off < 86400"
  shows "libc_ok (fixed_zone off)"
  using assms broken_down_ok by (auto simp: libc_ok_def fixed_zone_def)

theorem QDateTime_local_roundtrip_witness:
  "QDateTime_toUTC (fixed_zone 3600) (QDateTime_toLocalTime (fixed_zone 3600) (new_QDateTime (QDate 2024 2 29) (QTime 23 30 0 7) Qt_UTC)) =
    new_QDateTime (QDate 2024 2 29) (QTime 23 30 0 7) Qt_UTC"
proof -
  let ?d = "new_QDateTime (QDate 2024 2 29) (QTime 23 30 0 7) Qt_UTC"
  have "spec ?d = UTC" "QTime_isValid (dt_time ?d)" "within_limits (dt_date ?d)" "?d\<lparr>dt_utcOffset := 0\<rparr> = ?d"
    "within_limits (dt_date (QDateTime_toLocalTime (fixed_zone 3600) ?d))" by code_simp+
  with QDateTime_local_roundtrip [OF fixed_zone_ok [of 3600], of ?d] show ?thesis by simp
qed

end
