(* ===== verification/DataStream.thy ===== *)
theory DataStream
  imports IOSpec BitArray DateTime Rect "HOL-Library.Monad_Syntax"
begin

text \<open>
  \<open>QDataStream\<close> (src/src/core/io/qdatastream.h and qdatastream.cpp) on the \<open>QIODevice\<close> of theory IODevice, and the
  stream operators of the value types of the library.

  The record \<open>platform\<close> holds the byte order of the machine and the memory left uninitialised.  A \<open>float\<close> and a
  \<open>double\<close> are the words of their representation.  \<open>>>\<close> gives the value read and the stream; \<open>None\<close> is an access
  outside of an array.  A \<open>QByteArray\<close> or \<open>QString\<close> is \<open>None\<close> when it is null.
\<close>

datatype ByteOrder = BigEndian | LittleEndian

datatype DataStatus = Ok | ReadPastEnd | ReadCorruptData | WriteFailed

record platform =
  HostEndian :: ByteOrder
  uninit :: "nat \<Rightarrow> byte"

record QDataStream =
  dev :: "QIODevice option"
  owndev :: bool
  byteorder :: ByteOrder
  q_status :: DataStatus

unbundle bit_operations_syntax

section \<open>The stream\<close>

definition new_QDataStream :: "platform \<Rightarrow> QDataStream" where
  "new_QDataStream P = \<lparr>dev = None, owndev = False, byteorder = HostEndian P, q_status = Ok\<rparr>"

definition QDataStream_on :: "platform \<Rightarrow> QIODevice \<Rightarrow> QDataStream" where
  "QDataStream_on P device = \<lparr>dev = Some device, owndev = False, byteorder = HostEndian P, q_status = Ok\<rparr>"

definition QDataStream_array :: "platform \<Rightarrow> byte list \<Rightarrow> OpenMode \<Rightarrow> QDataStream" where
  "QDataStream_array P a flags =
    \<lparr>dev = Some (snd (QBuffer_open flags (new_QBuffer a))), owndev = True, byteorder = HostEndian P, q_status = Ok\<rparr>"

definition QDataStream_data :: "platform \<Rightarrow> byte list \<Rightarrow> QDataStream" where
  "QDataStream_data P a =
    \<lparr>dev = Some (snd (QBuffer_open ReadOnly (QBuffer_setData a (new_QBuffer [])))), owndev = True, byteorder = HostEndian P,
      q_status = Ok\<rparr>"

definition setDevice :: "QIODevice option \<Rightarrow> QDataStream \<Rightarrow> QDataStream" where
  "setDevice device s = s\<lparr>owndev := False, dev := device\<rparr>"

definition QDataStream_atEnd :: "QDataStream \<Rightarrow> bool" where
  "QDataStream_atEnd s = (case dev s of Some d \<Rightarrow> QIODevice_atEnd d | None \<Rightarrow> True)"

definition resetStatus :: "QDataStream \<Rightarrow> QDataStream" where
  "resetStatus s = s\<lparr>q_status := Ok\<rparr>"

definition setStatus :: "DataStatus \<Rightarrow> QDataStream \<Rightarrow> QDataStream" where
  "setStatus st s = (if q_status s = Ok then s\<lparr>q_status := st\<rparr> else s)"

definition setByteOrder :: "ByteOrder \<Rightarrow> QDataStream \<Rightarrow> QDataStream" where
  "setByteOrder bo s = s\<lparr>byteorder := bo\<rparr>"

section \<open>Raw data\<close>

definition readRawData :: "platform \<Rightarrow> int32 \<Rightarrow> QDataStream \<Rightarrow> (int32 \<times> byte list \<times> QDataStream) option" where
  "readRawData P n s =
    (case dev s of
       None \<Rightarrow> Some (-1, [], s)
     | Some d \<Rightarrow> map_option (\<lambda>(r, xs, d). (i32 r, xs, s\<lparr>dev := Some d\<rparr>)) (QBuffer_read (uninit P) n d))"

definition writeRawData :: "platform \<Rightarrow> byte list \<Rightarrow> QDataStream \<Rightarrow> (int32 \<times> QDataStream) option" where
  "writeRawData P xs s =
    (case dev s of
       None \<Rightarrow> Some (-1, s)
     | Some d \<Rightarrow>
         if q_status s \<noteq> Ok then Some (-1, s)
         else
           map_option (\<lambda>(r, d). (let ret = i32 r; s = s\<lparr>dev := Some d\<rparr>
                in (ret, if ret \<noteq> int (length xs) then s\<lparr>q_status := WriteFailed\<rparr> else s)))
             (QBuffer_write (uninit P) xs d))"

text \<open>\<open>QBuffer\<close> is not sequential.\<close>

definition skipRawData :: "platform \<Rightarrow> int32 \<Rightarrow> QDataStream \<Rightarrow> (int32 \<times> QDataStream) option" where
  "skipRawData P n s =
    (case dev s of
       None \<Rightarrow> Some (-1, s)
     | Some d \<Rightarrow>
         let pos = QIODevice_pos d;
             size = QBuffer_size d;
             n = (if pos + n > size then i32 (size - pos) else n)
         in map_option (\<lambda>(ok, d). (if ok then n else -1, s\<lparr>dev := Some d\<rparr>)) (QBuffer_seek (uninit P) (pos + n) d))"

section \<open>Numbers\<close>

text \<open>The bytes of a word, least significant first, and its bytes in memory.\<close>

definition little_bytes :: "'a::len word \<Rightarrow> byte list" where
  "little_bytes i = map (\<lambda>k. ucast (drop_bit (8 * k) i)) [0..<LENGTH('a) div 8]"

fun from_little :: "byte list \<Rightarrow> 'a::len word" where
  "from_little [] = 0"
| "from_little (b # bs) = ucast b OR push_bit 8 (from_little bs)"

definition memory_of :: "ByteOrder \<Rightarrow> 'a::len word \<Rightarrow> byte list" where
  "memory_of host i = (if host = BigEndian then rev (little_bytes i) else little_bytes i)"

definition word_at :: "ByteOrder \<Rightarrow> byte list \<Rightarrow> 'a::len word" where
  "word_at host xs = from_little (if host = BigEndian then rev xs else xs)"

definition qbswap :: "'a::len word \<Rightarrow> 'a word" where
  "qbswap i = from_little (rev (little_bytes i))"

definition read_qint8 :: "platform \<Rightarrow> QDataStream \<Rightarrow> (byte \<times> QDataStream) option" where
  "read_qint8 P s =
    (case dev s of
       None \<Rightarrow> Some (0, s)
     | Some d \<Rightarrow>
         map_option (\<lambda>(ok, xs, d). (let s = s\<lparr>dev := Some d\<rparr>
              in if \<not> ok then (0, setStatus ReadPastEnd s) else (hd xs, s)))
           (QIODevice_getChar (uninit P) d))"

definition write_qint8 :: "platform \<Rightarrow> byte \<Rightarrow> QDataStream \<Rightarrow> QDataStream option" where
  "write_qint8 P i s =
    (case dev s of
       None \<Rightarrow> Some s
     | Some d \<Rightarrow>
         if q_status s \<noteq> Ok then Some s
         else
           map_option (\<lambda>(ok, d). (let s = s\<lparr>dev := Some d\<rparr> in if \<not> ok then s\<lparr>q_status := WriteFailed\<rparr> else s))
             (QIODevice_putChar (uninit P) i d))"

text \<open>The operators for 16, 32 and 64 bits, \<open>float\<close> and \<open>double\<close> are the same but for the size.\<close>

definition read_number :: "platform \<Rightarrow> QDataStream \<Rightarrow> ('a::len word \<times> QDataStream) option" where
  "read_number P s =
    (case dev s of
       None \<Rightarrow> Some (0, s)
     | Some d \<Rightarrow>
         map_option (\<lambda>(r, xs, d). (let s = s\<lparr>dev := Some d\<rparr>
              in if r \<noteq> int (LENGTH('a) div 8) then (0, setStatus ReadPastEnd s)
                 else if byteorder s \<noteq> HostEndian P then (qbswap (word_at (HostEndian P) xs), s)
                 else (word_at (HostEndian P) xs, s)))
           (QBuffer_read (uninit P) (int (LENGTH('a) div 8)) d))"

definition write_number :: "platform \<Rightarrow> 'a::len word \<Rightarrow> QDataStream \<Rightarrow> QDataStream option" where
  "write_number P i s =
    (case dev s of
       None \<Rightarrow> Some s
     | Some d \<Rightarrow>
         if q_status s \<noteq> Ok then Some s
         else
           let i = (if byteorder s \<noteq> HostEndian P then qbswap i else i)
           in map_option (\<lambda>(r, d). (let s = s\<lparr>dev := Some d\<rparr>
                  in if r \<noteq> int (LENGTH('a) div 8) then s\<lparr>q_status := WriteFailed\<rparr> else s))
                (QBuffer_write (uninit P) (memory_of (HostEndian P) i) d))"

definition read_qint16 :: "platform \<Rightarrow> QDataStream \<Rightarrow> (16 word \<times> QDataStream) option" where
  "read_qint16 = read_number"
definition read_qint32 :: "platform \<Rightarrow> QDataStream \<Rightarrow> (32 word \<times> QDataStream) option" where
  "read_qint32 = read_number"
definition read_qint64 :: "platform \<Rightarrow> QDataStream \<Rightarrow> (64 word \<times> QDataStream) option" where
  "read_qint64 = read_number"
definition read_float :: "platform \<Rightarrow> QDataStream \<Rightarrow> (32 word \<times> QDataStream) option" where
  "read_float = read_number"
definition read_double :: "platform \<Rightarrow> QDataStream \<Rightarrow> (64 word \<times> QDataStream) option" where
  "read_double = read_number"
definition write_qint16 :: "platform \<Rightarrow> 16 word \<Rightarrow> QDataStream \<Rightarrow> QDataStream option" where
  "write_qint16 = write_number"
definition write_qint32 :: "platform \<Rightarrow> 32 word \<Rightarrow> QDataStream \<Rightarrow> QDataStream option" where
  "write_qint32 = write_number"
definition write_qint64 :: "platform \<Rightarrow> 64 word \<Rightarrow> QDataStream \<Rightarrow> QDataStream option" where
  "write_qint64 = write_number"
definition write_float :: "platform \<Rightarrow> 32 word \<Rightarrow> QDataStream \<Rightarrow> QDataStream option" where
  "write_float = write_number"
definition write_double :: "platform \<Rightarrow> 64 word \<Rightarrow> QDataStream \<Rightarrow> QDataStream option" where
  "write_double = write_number"

definition read_bool :: "platform \<Rightarrow> QDataStream \<Rightarrow> (bool \<times> QDataStream) option" where
  "read_bool P s = do { (v, s) \<leftarrow> read_qint8 P s; Some (v \<noteq> 0, s) }"

definition write_bool :: "platform \<Rightarrow> bool \<Rightarrow> QDataStream \<Rightarrow> QDataStream option" where
  "write_bool P i s = write_qint8 P (of_bool i) s"

text \<open>\<open>int\<close> values of the library's classes.\<close>

definition read_int :: "platform \<Rightarrow> QDataStream \<Rightarrow> (int32 \<times> QDataStream) option" where
  "read_int P s = do { (i, s) \<leftarrow> read_qint32 P s; Some (sint i, s) }"

definition write_int :: "platform \<Rightarrow> int32 \<Rightarrow> QDataStream \<Rightarrow> QDataStream option" where
  "write_int P i s = write_qint32 P (word_of_int i) s"

section \<open>Values of the library\<close>

definition write_QByteArray :: "platform \<Rightarrow> byte list option \<Rightarrow> QDataStream \<Rightarrow> QDataStream option" where
  "write_QByteArray P ba s =
    (case ba of
       None \<Rightarrow> write_qint32 P 0xFFFFFFFF s
     | Some xs \<Rightarrow> do {
         s \<leftarrow> write_qint32 P (of_nat (length xs)) s;
         (r, s) \<leftarrow> writeRawData P xs s;
         Some s })"

definition read_QByteArray :: "platform \<Rightarrow> QDataStream \<Rightarrow> (byte list option \<times> QDataStream) option" where
  "read_QByteArray P s = do {
    (n, s) \<leftarrow> read_qint32 P s;
    if n = 0xFFFFFFFF then Some (None, s)
    else do {
      (readlen, xs, s) \<leftarrow> readRawData P (sint n) s;
      if word_of_int readlen \<noteq> n then Some (None, setStatus ReadPastEnd s) else Some (Some xs, s) } }"

definition write_QBitArray :: "platform \<Rightarrow> QBitArray \<Rightarrow> QDataStream \<Rightarrow> QDataStream option" where
  "write_QBitArray P ba s = do {
    let n = (of_nat (QBitArray_size ba) :: 32 word);
    s \<leftarrow> write_qint32 P n s;
    if n > 0 then do { (r, s) \<leftarrow> writeRawData P (tl (bytes ba)) s; Some s } else Some s }"

definition Step :: nat where
  "Step = 8 * 1024 * 1024"

text \<open>The loop over the blocks: \<open>None\<close> inside when a block is not complete, else the bytes with the header byte.\<close>

function read_blocks :: "platform \<Rightarrow> nat \<Rightarrow> nat \<Rightarrow> byte list \<Rightarrow> QDataStream \<Rightarrow> (byte list option \<times> QDataStream) option" where
  "read_blocks P allocated totalBytes c s =
    (if allocated < totalBytes then
       (let blockSize = min Step (totalBytes - allocated);
            c = QByteArray_resize (uninit P) c (allocated + blockSize + 1)
        in case readRawData P (int blockSize) s of
             None \<Rightarrow> None
           | Some (r, xs, s) \<Rightarrow>
               if r \<noteq> int blockSize then Some (None, s)
               else (case memmove (1 + allocated) xs c of
                   None \<Rightarrow> None
                 | Some c \<Rightarrow> read_blocks P (allocated + blockSize) totalBytes c s))
     else Some (Some c, s))"
  by pat_completeness auto
termination
  by (relation "measure (\<lambda>(P, allocated, totalBytes, c, s). totalBytes - allocated)") (auto simp: Step_def)

declare read_blocks.simps [simp del]

definition read_QBitArray :: "platform \<Rightarrow> QDataStream \<Rightarrow> (QBitArray \<times> QDataStream) option" where
  "read_QBitArray P s = do {
    (n, s) \<leftarrow> read_qint32 P s;
    if n = 0 then Some (QBitArray [], s)
    else do {
      let totalBytes = unat ((n + 7) div 8);
      (c, s) \<leftarrow> read_blocks P 0 totalBytes [] s;
      case c of
        None \<Rightarrow> Some (QBitArray [], setStatus ReadPastEnd s)
      | Some c \<Rightarrow>
          if n AND 7 \<noteq> 0 \<and> c = [] then None
          else if n AND 7 \<noteq> 0 \<and> last c AND NOT (low_mask (unat (n AND 7))) \<noteq> 0
          then Some (QBitArray [], setStatus ReadCorruptData s)
          else Some (QBitArray (c[0 := of_nat (length c) * 8 - ucast n]), s) } }"

definition write_QChar :: "platform \<Rightarrow> 16 word \<Rightarrow> QDataStream \<Rightarrow> QDataStream option" where
  "write_QChar = write_qint16"

definition read_QChar :: "platform \<Rightarrow> QDataStream \<Rightarrow> (16 word \<times> QDataStream) option" where
  "read_QChar = read_qint16"

text \<open>The characters of a string are written as they are in memory, whatever the byte order of the stream.\<close>

definition write_QString :: "platform \<Rightarrow> 16 word list option \<Rightarrow> QDataStream \<Rightarrow> QDataStream option" where
  "write_QString P str s =
    (case str of
       Some (c # cs) \<Rightarrow> do {
         let n = (of_nat (length (c # cs) * 2) :: 32 word);
         s \<leftarrow> write_qint32 P n s;
         (r, s) \<leftarrow> writeRawData P (concat (map (memory_of (HostEndian P)) (c # cs))) s;
         Some s }
     | _ \<Rightarrow> write_qint32 P 0xFFFFFFFF s)"

fun chars_at :: "ByteOrder \<Rightarrow> byte list \<Rightarrow> 16 word list" where
  "chars_at host (a # b # xs) = word_at host [a, b] # chars_at host xs"
| "chars_at host xs = []"

definition read_QString :: "platform \<Rightarrow> QDataStream \<Rightarrow> (16 word list option \<times> QDataStream) option" where
  "read_QString P s = do {
    (n, s) \<leftarrow> read_qint32 P s;
    if n = 0xFFFFFFFF then Some (None, s)
    else if n > 0 then
      (if n AND 1 \<noteq> 0 then Some (None, setStatus ReadCorruptData s)
       else do {
         (readlen, xs, s) \<leftarrow> readRawData P (sint n) s;
         if word_of_int readlen \<noteq> n then Some (None, setStatus ReadPastEnd s)
         else Some (Some (chars_at (HostEndian P) xs), s) })
    else Some (Some [], s) }"

definition write_QPoint :: "platform \<Rightarrow> qpoint \<Rightarrow> QDataStream \<Rightarrow> QDataStream option" where
  "write_QPoint P p s = do { s \<leftarrow> write_int P (QPoint_x p) s; write_int P (QPoint_y p) s }"

definition read_QPoint :: "platform \<Rightarrow> QDataStream \<Rightarrow> (qpoint \<times> QDataStream) option" where
  "read_QPoint P s = do { (x, s) \<leftarrow> read_int P s; (y, s) \<leftarrow> read_int P s; Some (QPoint x y, s) }"

definition write_QSize :: "platform \<Rightarrow> qsize \<Rightarrow> QDataStream \<Rightarrow> QDataStream option" where
  "write_QSize P sz s = do { s \<leftarrow> write_int P (QSize_width sz) s; write_int P (QSize_height sz) s }"

definition read_QSize :: "platform \<Rightarrow> QDataStream \<Rightarrow> (qsize \<times> QDataStream) option" where
  "read_QSize P s = do { (w, s) \<leftarrow> read_int P s; (h, s) \<leftarrow> read_int P s; Some (QSize w h, s) }"

definition write_QLine :: "platform \<Rightarrow> qline \<Rightarrow> QDataStream \<Rightarrow> QDataStream option" where
  "write_QLine P l s = do { s \<leftarrow> write_QPoint P (QLine_p1 l) s; write_QPoint P (QLine_p2 l) s }"

definition read_QLine :: "platform \<Rightarrow> QDataStream \<Rightarrow> (qline \<times> QDataStream) option" where
  "read_QLine P s = do { (p1, s) \<leftarrow> read_QPoint P s; (p2, s) \<leftarrow> read_QPoint P s; Some (QLine p1 p2, s) }"


definition write_QRect :: "platform \<Rightarrow> qrect \<Rightarrow> QDataStream \<Rightarrow> QDataStream option" where
  "write_QRect P r s = do {
    s \<leftarrow> write_int P (QRect_left r) s;
    s \<leftarrow> write_int P (QRect_top r) s;
    s \<leftarrow> write_int P (QRect_right r) s;
    write_int P (QRect_bottom r) s }"

text \<open>\<open>r\<close> is the rectangle to read into; \<open>setCoords\<close> sets all of it.\<close>

definition read_QRect :: "platform \<Rightarrow> qrect \<Rightarrow> QDataStream \<Rightarrow> (qrect \<times> QDataStream) option" where
  "read_QRect P r s = do {
    (x1, s) \<leftarrow> read_int P s;
    (y1, s) \<leftarrow> read_int P s;
    (x2, s) \<leftarrow> read_int P s;
    (y2, s) \<leftarrow> read_int P s;
    Some (QRect_setCoords r x1 y1 x2 y2, s) }"

definition write_QDate :: "platform \<Rightarrow> qdate \<Rightarrow> QDataStream \<Rightarrow> QDataStream option" where
  "write_QDate P date s = write_qint32 P (word_of_int (jd date)) s"

definition read_QDate :: "platform \<Rightarrow> QDataStream \<Rightarrow> (qdate \<times> QDataStream) option" where
  "read_QDate P s = do { (n, s) \<leftarrow> read_qint32 P s; Some (QDateJd (uint n), s) }"

definition write_QTime :: "platform \<Rightarrow> qtime \<Rightarrow> QDataStream \<Rightarrow> QDataStream option" where
  "write_QTime P time s = write_qint32 P (word_of_int (mds time)) s"

definition read_QTime :: "platform \<Rightarrow> QDataStream \<Rightarrow> (qtime \<times> QDataStream) option" where
  "read_QTime P s = do { (n, s) \<leftarrow> read_qint32 P s; Some (QTimeMds (sint n), s) }"

definition write_QDateTime :: "platform \<Rightarrow> QDateTime \<Rightarrow> QDataStream \<Rightarrow> QDataStream option" where
  "write_QDateTime P d s = do {
    s \<leftarrow> write_QDate P (dt_date d) s;
    s \<leftarrow> write_QTime P (dt_time d) s;
    write_qint8 P (word_of_int (spec d)) s }"

text \<open>\<open>d\<close> is the datetime to read into; the offset from UTC is not on the stream.\<close>

definition read_QDateTime :: "platform \<Rightarrow> QDateTime \<Rightarrow> QDataStream \<Rightarrow> (QDateTime \<times> QDataStream) option" where
  "read_QDateTime P d s = do {
    (date, s) \<leftarrow> read_QDate P s;
    (time, s) \<leftarrow> read_QTime P s;
    (ts, s) \<leftarrow> read_qint8 P s;
    Some (d\<lparr>dt_date := date, dt_time := time, spec := sint ts\<rparr>, s) }"

section \<open>Containers\<close>

text \<open>The operators are templates: the operator of the element type is a parameter.\<close>

fun write_all :: "('a \<Rightarrow> QDataStream \<Rightarrow> QDataStream option) \<Rightarrow> 'a list \<Rightarrow> QDataStream \<Rightarrow> QDataStream option" where
  "write_all write [] s = Some s"
| "write_all write (x # xs) s = do { s \<leftarrow> write x s; write_all write xs s }"

definition write_QList ::
  "platform \<Rightarrow> ('a \<Rightarrow> QDataStream \<Rightarrow> QDataStream option) \<Rightarrow> 'a list \<Rightarrow> QDataStream \<Rightarrow> QDataStream option" where
  "write_QList P write l s = do { s \<leftarrow> write_qint32 P (of_nat (length l)) s; write_all write l s }"

fun read_items :: "(QDataStream \<Rightarrow> ('a \<times> QDataStream) option) \<Rightarrow> nat \<Rightarrow> QDataStream \<Rightarrow> ('a list \<times> QDataStream) option" where
  "read_items read 0 s = Some ([], s)"
| "read_items read (Suc c) s = do {
    (t, s) \<leftarrow> read s;
    if QDataStream_atEnd s then Some ([t], s)
    else do { (ts, s) \<leftarrow> read_items read c s; Some (t # ts, s) } }"

text \<open>
  \<open>reserve\<close> of the list, which has just been cleared: for a positive \<open>alloc\<close> (the count is converted to \<open>int\<close>),
  \<open>QListData::detach\<close> multiplies it with the size of a pointer, on a 64-bit machine, as an \<open>int\<close>; where that
  overflows, the memory allocated is not that of the list.
\<close>

definition QT_POINTER_SIZE :: int32 where
  "QT_POINTER_SIZE = 8"

definition QList_reserve_fits :: "int32 \<Rightarrow> bool" where
  "QList_reserve_fits alloc \<longleftrightarrow> \<not> (0 < alloc) \<or> i32 (alloc * QT_POINTER_SIZE) = alloc * QT_POINTER_SIZE"

definition read_QList ::
  "platform \<Rightarrow> (QDataStream \<Rightarrow> ('a \<times> QDataStream) option) \<Rightarrow> QDataStream \<Rightarrow> ('a list \<times> QDataStream) option" where
  "read_QList P read s = do {
    (c, s) \<leftarrow> read_qint32 P s;
    if \<not> QList_reserve_fits (sint c) then None else read_items read (unat c) s }"

definition write_QVector ::
  "platform \<Rightarrow> ('a \<Rightarrow> QDataStream \<Rightarrow> QDataStream option) \<Rightarrow> 'a list \<Rightarrow> QDataStream \<Rightarrow> QDataStream option" where
  "write_QVector P write v s = do { s \<leftarrow> write_qint32 P (of_nat (length v)) s; write_all write v s }"

fun read_elements :: "(QDataStream \<Rightarrow> ('a \<times> QDataStream) option) \<Rightarrow> nat \<Rightarrow> QDataStream \<Rightarrow> ('a list \<times> QDataStream) option" where
  "read_elements read 0 s = Some ([], s)"
| "read_elements read (Suc c) s = do { (t, s) \<leftarrow> read s; (ts, s) \<leftarrow> read_elements read c s; Some (t # ts, s) }"

text \<open>
  \<open>resize\<close> takes an \<open>int\<close>.  A negative size is outside of its contract, and so is one for which the elements and the 16 bytes
  in front of them are not less than \<open>2 ^ 30\<close> bytes (the assertion of \<open>qAllocMore\<close>, which computes with \<open>int\<close>).
\<close>

definition QVector_resize_fits :: "int32 \<Rightarrow> int32 \<Rightarrow> bool" where
  "QVector_resize_fits sizeofT asize \<longleftrightarrow> 0 \<le> asize \<and> asize * sizeofT < 1073741824 - 16"

definition read_QVector ::
  "platform \<Rightarrow> int32 \<Rightarrow> (QDataStream \<Rightarrow> ('a \<times> QDataStream) option) \<Rightarrow> QDataStream \<Rightarrow> ('a list \<times> QDataStream) option" where
  "read_QVector P sizeofT read s = do {
    (c, s) \<leftarrow> read_qint32 P s;
    if \<not> QVector_resize_fits sizeofT (sint c) then None else read_elements read (unat c) s }"

end
