(* ===== verification/StreamLaws.thy ===== *)
theory StreamLaws
  imports DataStream
begin

text \<open>
  What the stream operators promise: \<open>writes\<close> says that an operator appends bytes to the device, \<open>reads\<close> that it
  computes a decoder on the bytes in front of it, for every input and every status.  Both are kept by the composition of
  operators; the locale \<open>stream_type\<close> is the contract of a type that can be stored.
\<close>

section \<open>Streams that read and that write\<close>

definition reading :: "QDataStream \<Rightarrow> bool" where
  "reading s \<longleftrightarrow> (case dev s of Some d \<Rightarrow> dev_ok d \<and> isReadable d \<and> \<not> isTextModeEnabled d | None \<Rightarrow> False)"

definition remaining :: "QDataStream \<Rightarrow> byte list" where
  "remaining s = (case dev s of Some d \<Rightarrow> upcoming (file_of d) | None \<Rightarrow> [])"

text \<open>A stream that writes is at the end of its data.\<close>

definition writing :: "QDataStream \<Rightarrow> bool" where
  "writing s \<longleftrightarrow> q_status s = Ok \<and>
    (case dev s of
       Some d \<Rightarrow> dev_ok d \<and> isWritable d \<and> front d = QBuffer_size d \<and> unread (buffer d) = []
     | None \<Rightarrow> False)"

definition written :: "QDataStream \<Rightarrow> byte list" where
  "written s = (case dev s of Some d \<Rightarrow> contents d | None \<Rightarrow> [])"

definition joined :: "DataStatus \<Rightarrow> DataStatus \<Rightarrow> DataStatus" where
  "joined st st' = (if st = Ok then st' else st)"

lemma joined_simps [simp]: "joined Ok st = st" "joined st Ok = st" "joined (joined a b) c = joined a (joined b c)"
  by (auto simp: joined_def)

lemma setStatus_simps [simp]: "q_status (setStatus st s) = joined (q_status s) st" "dev (setStatus st s) = dev s"
  "byteorder (setStatus st s) = byteorder s" "reading (setStatus st s) = reading s" "remaining (setStatus st s) = remaining s"
  by (auto simp: setStatus_def joined_def reading_def remaining_def)

type_synonym 'a decoder = "byte list \<Rightarrow> ('a \<times> byte list \<times> DataStatus) option"

definition reads :: "(QDataStream \<Rightarrow> ('a \<times> QDataStream) option) \<Rightarrow> (ByteOrder \<Rightarrow> 'a decoder) \<Rightarrow> bool" where
  "reads read decode \<longleftrightarrow> (\<forall>s. reading s \<longrightarrow>
    (case decode (byteorder s) (remaining s) of
       None \<Rightarrow> read s = None
     | Some (x, rest, st) \<Rightarrow>
         \<exists>t. read s = Some (x, t) \<and> reading t \<and> remaining t = rest \<and> byteorder t = byteorder s \<and> q_status t = joined (q_status s) st))"

definition writes :: "(QDataStream \<Rightarrow> QDataStream option) \<Rightarrow> (ByteOrder \<Rightarrow> byte list) \<Rightarrow> bool" where
  "writes write bs \<longleftrightarrow> (\<forall>s. writing s \<longrightarrow>
    (\<exists>t. write s = Some t \<and> writing t \<and> byteorder t = byteorder s \<and> written t = written s @ bs (byteorder s)))"

section \<open>The device\<close>

lemma read_device:
  assumes "reading s" "dev s = Some d" "0 \<le> n" "xs = take (nat n) (remaining s)"
  shows "\<exists>e. QBuffer_read junk n d = Some (int (length xs), xs, e) \<and> reading (s\<lparr>dev := Some e\<rparr>) \<and>
    remaining (s\<lparr>dev := Some e\<rparr>) = drop (length xs) (remaining s)"
proof -
  have d: "dev_ok d" "\<not> isTextModeEnabled d" "isReadable d" "remaining s = upcoming (file_of d)"
    using assms(1,2) by (simp_all add: reading_def remaining_def)
  from read_binary [OF d(1,2) assms(3) assms(4) [unfolded d(4)] d(3), of junk] obtain e where
    "QBuffer_read junk n d = Some (int (length xs), xs, e)" "dev_ok e" "openMode e = openMode d"
    "file_of e = advance (length xs) (file_of d)" by blast
  then show ?thesis using d
    by (auto simp: reading_def remaining_def isReadable_def isTextModeEnabled_def upcoming_advance)
qed

lemma write_device:
  assumes "writing s" "dev s = Some d"
  shows "\<exists>e. QBuffer_write junk xs d = Some (int (length xs), e) \<and> writing (s\<lparr>dev := Some e\<rparr>) \<and>
    written (s\<lparr>dev := Some e\<rparr>) = written s @ xs"
proof -
  have d: "dev_ok d" "isWritable d" "front d = QBuffer_size d" "unread (buffer d) = []" "q_status s = Ok"
    using assms by (simp_all add: writing_def)
  have "len (buffer d) = 0" using d(1,4) length_unread [of "buffer d"] by (simp add: dev_ok_def)
  then have pos: "dpos d = QBuffer_size d" using d(3) by (simp add: front_def)
  then have "0 \<le> dpos d" by (simp add: QBuffer_size_def)
  from write_ok [OF d(1) this _ d(2), of "QBuffer_seek junk" junk xs] obtain e where
    e: "QBuffer_write junk xs d = Some (int (length xs), e)" "dev_ok e" "openMode e = openMode d"
    "file_of e = (overwrite (nat (dpos d)) xs (contents d), nat (max (front d) (dpos d + int (length xs))),
      drop (length xs) (unread (buffer d)))" by (auto simp: QBuffer_write_def)
  have "file_of e = (contents d @ xs, length (contents d) + length xs, [])"
    using e(4) pos d(3,4) by (simp add: QBuffer_size_def nat_add_distrib)
  then have "contents e = contents d @ xs" "front e = QBuffer_size e" "unread (buffer e) = []"
    using e(2) by (auto simp: file_of_def dev_ok_def QBuffer_size_def)
  then show ?thesis using e d assms(2) by (auto simp: writing_def written_def isWritable_def)
qed

lemma atEnd_reading: "reading s \<Longrightarrow> QDataStream_atEnd s \<longleftrightarrow> remaining s = []"
  using atEnd_ok by (auto simp: reading_def remaining_def QDataStream_atEnd_def split: option.splits)

section \<open>Composition\<close>

definition dec_bind :: "'a decoder \<Rightarrow> ('a \<Rightarrow> 'b decoder) \<Rightarrow> 'b decoder" where
  "dec_bind d f bs =
    (case d bs of
       None \<Rightarrow> None
     | Some (a, rest, st) \<Rightarrow> (case f a rest of None \<Rightarrow> None | Some (b, rest, st') \<Rightarrow> Some (b, rest, joined st st')))"

definition dec_return :: "'a \<Rightarrow> DataStatus \<Rightarrow> 'a decoder" where
  "dec_return x st bs = Some (x, bs, st)"

named_theorems stream_intros

lemma reads_bind [stream_intros]:
  assumes "reads r d" "\<And>a. reads (r' a) (d' a)"
  shows "reads (\<lambda>s. do { (a, s) \<leftarrow> r s; r' a s }) (\<lambda>bo. dec_bind (d bo) (\<lambda>a. d' a bo))"
  unfolding reads_def
proof (intro allI impI)
  fix s
  assume s: "reading s"
  show "case dec_bind (d (byteorder s)) (\<lambda>a. d' a (byteorder s)) (remaining s) of
      None \<Rightarrow> (do { (a, s) \<leftarrow> r s; r' a s }) = None
    | Some (x, rest, st) \<Rightarrow> \<exists>t. (do { (a, s) \<leftarrow> r s; r' a s }) = Some (x, t) \<and> reading t \<and> remaining t = rest \<and>
        byteorder t = byteorder s \<and> q_status t = joined (q_status s) st"
  proof (cases "d (byteorder s) (remaining s)")
    case None
    then have "r s = None" using assms(1) s by (auto simp: reads_def)
    with None show ?thesis by (simp add: dec_bind_def)
  next
    case (Some y)
    then obtain a rest st where y: "d (byteorder s) (remaining s) = Some (a, rest, st)" by (cases y) auto
    then obtain t where t: "r s = Some (a, t)" "reading t" "remaining t = rest" "byteorder t = byteorder s"
      "q_status t = joined (q_status s) st" using assms(1) s by (fastforce simp: reads_def)
    have "case d' a (byteorder s) rest of
        None \<Rightarrow> r' a t = None
      | Some (x, rest', st') \<Rightarrow> \<exists>u. r' a t = Some (x, u) \<and> reading u \<and> remaining u = rest' \<and>
          byteorder u = byteorder s \<and> q_status u = joined (q_status t) st'"
      using assms(2) [of a, unfolded reads_def, rule_format, OF t(2)] unfolding t(3,4) .
    then show ?thesis using t(1,5) y by (auto simp: dec_bind_def split: option.splits)
  qed
qed

lemma reads_status [stream_intros]: "reads (\<lambda>s. Some (x, setStatus st s)) (\<lambda>bo. dec_return x st)"
  by (simp add: reads_def dec_return_def)

lemma reads_return [stream_intros]: "reads (\<lambda>s. Some (x, s)) (\<lambda>bo. dec_return x Ok)"
  by (simp add: reads_def dec_return_def)

lemma reads_if [stream_intros]:
  "reads r d \<Longrightarrow> reads r' d' \<Longrightarrow> reads (\<lambda>s. if b then r s else r' s) (\<lambda>bo. if b then d bo else d' bo)"
  by (cases b) simp_all

lemma reads_None [stream_intros]: "reads (\<lambda>s. None) (\<lambda>bo bs. None)"
  by (simp add: reads_def)

lemma writes_bind [stream_intros]:
  "writes w bs \<Longrightarrow> writes w' cs \<Longrightarrow> writes (\<lambda>s. do { s \<leftarrow> w s; w' s }) (\<lambda>bo. bs bo @ cs bo)"
  unfolding writes_def by fastforce

lemma writes_return [stream_intros]: "writes Some (\<lambda>bo. [])"
  by (simp add: writes_def)

section \<open>Raw data\<close>

definition dec_raw :: "int \<Rightarrow> (int \<times> byte list) decoder" where
  "dec_raw n bs =
    (if n < 0 then Some ((-1, []), bs, Ok)
     else (let xs = take (nat n) bs in Some ((int (length xs), xs), drop (length xs) bs, Ok)))"

lemma reads_raw:
  assumes "in32 n"
  shows "reads (\<lambda>s. do { (r, xs, s) \<leftarrow> readRawData P n s; Some ((r, xs), s) }) (\<lambda>bo. dec_raw n)"
  unfolding reads_def
proof (intro allI impI)
  fix s
  assume s: "reading s"
  then obtain d where d: "dev s = Some d" by (auto simp: reading_def split: option.splits)
  show "case dec_raw n (remaining s) of
      None \<Rightarrow> (do { (r, xs, s) \<leftarrow> readRawData P n s; Some ((r, xs), s) }) = None
    | Some (x, rest, st) \<Rightarrow> \<exists>t. (do { (r, xs, s) \<leftarrow> readRawData P n s; Some ((r, xs), s) }) = Some (x, t) \<and> reading t \<and>
        remaining t = rest \<and> byteorder t = byteorder s \<and> q_status t = joined (q_status s) st"
  proof (cases "n < 0")
    case True
    have "reading (s\<lparr>dev := Some d\<rparr>)" "remaining (s\<lparr>dev := Some d\<rparr>) = remaining s"
      using s d by (simp_all add: reading_def remaining_def)
    with True s d show ?thesis by (simp add: dec_raw_def readRawData_def read_negative i32_def)
  next
    case False
    define xs where "xs = take (nat n) (remaining s)"
    from read_device [OF s d _ xs_def, of "uninit P"] False obtain e where
      e: "QBuffer_read (uninit P) n d = Some (int (length xs), xs, e)" "reading (s\<lparr>dev := Some e\<rparr>)"
      "remaining (s\<lparr>dev := Some e\<rparr>) = drop (length xs) (remaining s)" by auto
    have "int (length xs) \<le> n" using False by (simp add: xs_def)
    then have "i32 (int (length xs)) = int (length xs)" using assms by (simp add: i32_id in32_def)
    then show ?thesis using False d e by (simp add: dec_raw_def readRawData_def xs_def [symmetric])
  qed
qed

lemma raw_then:
  "(do { (r, xs, s) \<leftarrow> readRawData P n s; f r xs s }) =
   (do { (p, s) \<leftarrow> (do { (r, xs, s) \<leftarrow> readRawData P n s; Some ((r, xs), s) }); f (fst p) (snd p) s })"
  by (cases "readRawData P n s") auto

lemma writes_raw [stream_intros]:
  assumes "length xs < 2147483648"
  shows "writes (\<lambda>s. do { (r, s) \<leftarrow> writeRawData P xs s; Some s }) (\<lambda>bo. xs)"
  unfolding writes_def
proof (intro allI impI)
  fix s
  assume s: "writing s"
  then obtain d where d: "dev s = Some d" "q_status s = Ok" by (auto simp: writing_def split: option.splits)
  from write_device [OF s d(1), of "uninit P" xs] obtain e where
    e: "QBuffer_write (uninit P) xs d = Some (int (length xs), e)" "writing (s\<lparr>dev := Some e\<rparr>)"
    "written (s\<lparr>dev := Some e\<rparr>) = written s @ xs" by blast
  have "i32 (int (length xs)) = int (length xs)" using assms by (simp add: i32_id in32_def)
  then show "\<exists>t. (do { (r, s) \<leftarrow> writeRawData P xs s; Some s }) = Some t \<and> writing t \<and> byteorder t = byteorder s \<and>
      written t = written s @ xs"
    using d e by (simp add: writeRawData_def)
qed

end
