(* ===== verification/StreamTypes.thy ===== *)
theory StreamTypes
  imports StreamLaws
begin

text \<open>
  The contract of a type that can be stored, and its proof for the numbers, geometry, dates and times, byte arrays, strings
  and lists of \<open>QDataStream\<close>.
\<close>

section \<open>Bytes of a word\<close>

lemma bit_from_little:
  "bit (from_little bs :: 'a::len word) n \<longleftrightarrow> n < LENGTH('a) \<and> n div 8 < length bs \<and> bit (bs ! (n div 8)) (n mod 8)"
proof (induction bs arbitrary: n)
  case (Cons b bs)
  show ?case
  proof (cases "n < 8")
    case True
    then show ?thesis by (auto simp: bit_or_iff bit_push_bit_iff bit_ucast_iff)
  next
    case False
    then have "n div 8 = Suc ((n - 8) div 8)" "n mod 8 = (n - 8) mod 8" by (simp_all add: le_div_geq le_mod_geq)
    moreover have "\<not> bit b n" using False by (auto dest: bit_imp_le_length)
    ultimately show ?thesis using False Cons.IH [of "n - 8"]
      by (auto simp: bit_or_iff bit_push_bit_iff bit_ucast_iff)
  qed
qed simp

lemma little_bytes_props:
  "length (little_bytes (i :: 'a::len word)) = LENGTH('a) div 8"
  "k < LENGTH('a) div 8 \<Longrightarrow> bit (little_bytes i ! k) n \<longleftrightarrow> n < 8 \<and> bit i (8 * k + n)"
  by (auto simp: little_bytes_def bit_ucast_iff bit_drop_bit_eq)

lemma from_little_bytes:
  assumes "LENGTH('a) mod 8 = 0"
  shows "from_little (little_bytes (i :: 'a::len word)) = i"
proof (rule bit_word_eqI)
  fix n
  assume "n < LENGTH('a)"
  then have "n div 8 < LENGTH('a) div 8" using assms by (metis div_less_iff_less_mult dvd_eq_mod_eq_0 dvd_div_mult_self zero_less_numeral)
  then show "bit (from_little (little_bytes i) :: 'a word) n = bit i n"
    using \<open>n < LENGTH('a)\<close> by (simp add: bit_from_little little_bytes_props)
qed

lemma little_bytes_from:
  assumes "LENGTH('a) mod 8 = 0" "length xs = LENGTH('a) div 8"
  shows "little_bytes (from_little xs :: 'a::len word) = xs"
proof (rule nth_equalityI)
  fix k
  assume "k < length (little_bytes (from_little xs :: 'a word))"
  then have k: "k < LENGTH('a) div 8" by (simp add: little_bytes_props)
  then have "8 * k + 8 \<le> LENGTH('a)" using assms(1) by (metis Suc_leI mult_Suc_right mult_le_mono2 add.commute mult_div_mod_eq add_0_right)
  then show "little_bytes (from_little xs :: 'a word) ! k = xs ! k"
    using k assms(2) by (intro bit_word_eqI) (auto simp: little_bytes_props bit_from_little)
qed (simp add: little_bytes_props assms(2))

lemma memory_props:
  assumes "LENGTH('a) mod 8 = 0"
  shows "length (memory_of bo (i :: 'a::len word)) = LENGTH('a) div 8" "word_at bo (memory_of bo i) = i"
    "memory_of host (if bo \<noteq> host then qbswap i else i) = memory_of bo i"
    "length xs = LENGTH('a) div 8 \<Longrightarrow> (if bo \<noteq> host then qbswap (word_at host xs) else word_at host xs :: 'a word) = word_at bo xs"
proof -
  note fl = from_little_bytes [OF assms] and lf = little_bytes_from [OF assms]
  show "length (memory_of bo i) = LENGTH('a) div 8" "word_at bo (memory_of bo i) = i"
    by (simp_all add: memory_of_def word_at_def little_bytes_props fl)
  have "little_bytes (qbswap i) = rev (little_bytes i)" by (simp add: qbswap_def lf little_bytes_props)
  then show "memory_of host (if bo \<noteq> host then qbswap i else i) = memory_of bo i"
    by (cases bo; cases host) (simp_all add: memory_of_def)
  show "(if bo \<noteq> host then qbswap (word_at host xs) else word_at host xs :: 'a word) = word_at bo xs"
    if "length xs = LENGTH('a) div 8"
    using that lf [of xs] lf [of "rev xs"] by (cases bo; cases host) (simp_all add: word_at_def qbswap_def)
qed

section \<open>Numbers\<close>

definition dec_number :: "ByteOrder \<Rightarrow> 'a::len word decoder" where
  "dec_number bo bs =
    (if length bs < LENGTH('a) div 8 then Some (0, [], ReadPastEnd)
     else Some (word_at bo (take (LENGTH('a) div 8) bs), drop (LENGTH('a) div 8) bs, Ok))"

fun dec_qint8 :: "byte decoder" where
  "dec_qint8 [] = Some (0, [], ReadPastEnd)"
| "dec_qint8 (b # bs) = Some (b, bs, Ok)"

lemma reads_number:
  assumes "LENGTH('a) mod 8 = 0"
  shows "reads (read_number P :: QDataStream \<Rightarrow> ('a::len word \<times> QDataStream) option) dec_number"
  unfolding reads_def
proof (intro allI impI)
  fix s
  assume s: "reading s"
  then obtain d where d: "dev s = Some d" by (auto simp: reading_def split: option.splits)
  define k where "k = LENGTH('a) div 8"
  define xs where "xs = take (nat (int k)) (remaining s)"
  from read_device [OF s d _ xs_def, of "uninit P"] obtain e where
    e: "QBuffer_read (uninit P) (int k) d = Some (int (length xs), xs, e)" "reading (s\<lparr>dev := Some e\<rparr>)"
    "remaining (s\<lparr>dev := Some e\<rparr>) = drop (length xs) (remaining s)" by auto
  show "case dec_number (byteorder s) (remaining s) of
      None \<Rightarrow> (read_number P s :: ('a word \<times> QDataStream) option) = None
    | Some (x :: 'a word, rest, st) \<Rightarrow> \<exists>t. read_number P s = Some (x, t) \<and> reading t \<and> remaining t = rest \<and>
        byteorder t = byteorder s \<and> q_status t = joined (q_status s) st"
  proof (cases "length (remaining s) < k")
    case True
    then have "xs = remaining s" by (simp add: xs_def)
    then show ?thesis using True d e by (simp add: read_number_def dec_number_def k_def [symmetric] Let_def)
  next
    case False
    then have xs: "length xs = LENGTH('a) div 8" "xs = take k (remaining s)" by (simp_all add: xs_def k_def)
    note m = memory_props(4) [OF assms xs(1), of "byteorder s" "HostEndian P"]
    have r: "read_number P s = Some (word_at (byteorder s) xs :: 'a word, s\<lparr>dev := Some e\<rparr>)"
      using d e(1) xs(1) m by (auto simp: read_number_def k_def Let_def)
    show ?thesis using False e(2,3) r xs by (simp add: dec_number_def k_def [symmetric])
  qed
qed

lemma writes_number:
  assumes "LENGTH('a) mod 8 = 0"
  shows "writes (write_number P (i :: 'a::len word)) (\<lambda>bo. memory_of bo i)"
  unfolding writes_def
proof (intro allI impI)
  fix s
  assume s: "writing s"
  then obtain d where d: "dev s = Some d" "q_status s = Ok" by (auto simp: writing_def split: option.splits)
  define j where "j = (if byteorder s \<noteq> HostEndian P then qbswap i else i)"
  have j: "memory_of (HostEndian P) j = memory_of (byteorder s) i" "length (memory_of (HostEndian P) j) = LENGTH('a) div 8"
    using memory_props(1,3) [OF assms] by (simp_all add: j_def)
  from write_device [OF s d(1), of "uninit P" "memory_of (HostEndian P) j"] obtain e where
    "QBuffer_write (uninit P) (memory_of (HostEndian P) j) d = Some (int (length (memory_of (HostEndian P) j)), e)"
    "writing (s\<lparr>dev := Some e\<rparr>)" "written (s\<lparr>dev := Some e\<rparr>) = written s @ memory_of (HostEndian P) j" by blast
  then show "\<exists>t. write_number P i s = Some t \<and> writing t \<and> byteorder t = byteorder s \<and>
      written t = written s @ memory_of (byteorder s) i"
    using d j by (simp add: write_number_def j_def [symmetric] Let_def)
qed

lemma reads_qint8 [stream_intros]: "reads (read_qint8 P) (\<lambda>bo. dec_qint8)"
  unfolding reads_def
proof (intro allI impI)
  fix s
  assume s: "reading s"
  then obtain d where d: "dev s = Some d" by (auto simp: reading_def split: option.splits)
  define xs where "xs = take (nat 1) (remaining s)"
  from read_device [OF s d _ xs_def, of "uninit P"] obtain e where
    e: "QBuffer_read (uninit P) 1 d = Some (int (length xs), xs, e)" "reading (s\<lparr>dev := Some e\<rparr>)"
    "remaining (s\<lparr>dev := Some e\<rparr>) = drop (length xs) (remaining s)" by auto
  then show "case dec_qint8 (remaining s) of
      None \<Rightarrow> read_qint8 P s = None
    | Some (x, rest, st) \<Rightarrow> \<exists>t. read_qint8 P s = Some (x, t) \<and> reading t \<and> remaining t = rest \<and>
        byteorder t = byteorder s \<and> q_status t = joined (q_status s) st"
    using d by (cases "remaining s") (simp_all add: xs_def read_qint8_def QIODevice_getChar_def Let_def)
qed

lemma writes_qint8 [stream_intros]: "writes (write_qint8 P i) (\<lambda>bo. [i])"
  unfolding writes_def
proof (intro allI impI)
  fix s
  assume s: "writing s"
  then obtain d where d: "dev s = Some d" "q_status s = Ok" by (auto simp: writing_def split: option.splits)
  from write_device [OF s d(1), of "uninit P" "[i]"] obtain e where
    "QBuffer_write (uninit P) [i] d = Some (int (length [i]), e)" "writing (s\<lparr>dev := Some e\<rparr>)"
    "written (s\<lparr>dev := Some e\<rparr>) = written s @ [i]" by blast
  then show "\<exists>t. write_qint8 P i s = Some t \<and> writing t \<and> byteorder t = byteorder s \<and> written t = written s @ [i]"
    using d by (simp add: write_qint8_def QIODevice_putChar_def Let_def)
qed

lemmas number_reads [stream_intros] =
  reads_number [where 'a = 16, simplified, folded read_qint16_def]
  reads_number [where 'a = 32, simplified, folded read_qint32_def]
  reads_number [where 'a = 32, simplified, folded read_float_def]
  reads_number [where 'a = 64, simplified, folded read_qint64_def]
  reads_number [where 'a = 64, simplified, folded read_double_def]

lemmas number_writes [stream_intros] =
  writes_number [where 'a = 16, simplified, folded write_qint16_def]
  writes_number [where 'a = 32, simplified, folded write_qint32_def]
  writes_number [where 'a = 32, simplified, folded write_float_def]
  writes_number [where 'a = 64, simplified, folded write_qint64_def]
  writes_number [where 'a = 64, simplified, folded write_double_def]

lemma dec_number_memory:
  assumes "LENGTH('a) mod 8 = 0"
  shows "dec_number bo (memory_of bo (i :: 'a::len word) @ ys) = Some (i, ys, Ok)"
  using memory_props(1,2) [OF assms] by (simp add: dec_number_def)


section \<open>The contract of a type\<close>

fun dec_items :: "'a decoder \<Rightarrow> nat \<Rightarrow> 'a list decoder" where
  "dec_items d 0 bs = Some ([], bs, Ok)"
| "dec_items d (Suc c) bs =
    dec_bind d (\<lambda>t rest. if rest = [] then Some ([t], rest, Ok)
      else dec_bind (dec_items d c) (\<lambda>ts. dec_return (t # ts) Ok) rest) bs"

definition dec_QList :: "(ByteOrder \<Rightarrow> 'a decoder) \<Rightarrow> ByteOrder \<Rightarrow> 'a list decoder" where
  "dec_QList decode bo = dec_bind (dec_number bo) (\<lambda>c :: 32 word.
    if \<not> QList_reserve_fits (sint c) then (\<lambda>bs. None) else dec_items (decode bo) (unat c))"

lemma small_count:
  assumes "k < 268435456"
  shows "unat (of_nat k :: 32 word) = k" "QList_reserve_fits (sint (of_nat k :: 32 word))"
proof -
  show "unat (of_nat k :: 32 word) = k" using assms by (simp add: unat_of_nat)
  have "sint (of_nat k :: 32 word) = int k" using assms by (simp add: signed_of_nat signed_take_bit_int_eq_self)
  then show "QList_reserve_fits (sint (of_nat k :: 32 word))"
    using assms by (simp add: QList_reserve_fits_def QT_POINTER_SIZE_def i32_id in32_def)
qed

definition enc_QList :: "(ByteOrder \<Rightarrow> 'a \<Rightarrow> byte list) \<Rightarrow> ByteOrder \<Rightarrow> 'a list \<Rightarrow> byte list" where
  "enc_QList encode bo l = memory_of bo (of_nat (length l) :: 32 word) @ concat (map (encode bo) l)"

locale stream_type =
  fixes wr :: "'a \<Rightarrow> QDataStream \<Rightarrow> QDataStream option"
    and rd :: "QDataStream \<Rightarrow> ('a \<times> QDataStream) option"
    and encode :: "ByteOrder \<Rightarrow> 'a \<Rightarrow> byte list"
    and decode :: "ByteOrder \<Rightarrow> 'a decoder"
    and storable :: "'a \<Rightarrow> bool"
  assumes writes: "storable x \<Longrightarrow> writes (wr x) (\<lambda>bo. encode bo x)"
    and reads: "reads rd decode"
    and decode_encode: "storable x \<Longrightarrow> decode bo (encode bo x @ ys) = Some (x, ys, Ok)"
    and encode_bytes: "storable x \<Longrightarrow> encode bo x \<noteq> []"
begin

lemma writes_all: "\<forall>x \<in> set xs. storable x \<Longrightarrow> writes (write_all wr xs) (\<lambda>bo. concat (map (encode bo) xs))"
proof (induction xs)
  case Nil
  have "write_all wr [] = Some" by (rule ext) simp
  then show ?case using writes_return by simp
next
  case (Cons x xs)
  have "write_all wr (x # xs) = (\<lambda>s. do { s \<leftarrow> wr x s; write_all wr xs s })" by (rule ext) simp
  then show ?case using writes_bind [OF writes [of x] Cons.IH] Cons.prems by simp
qed

lemma reads_items: "reads (read_items rd c) (\<lambda>bo. dec_items (decode bo) c)"
proof (induction c)
  case 0
  then show ?case by (simp add: reads_def)
next
  case (Suc c)
  define more where "more t s = (if QDataStream_atEnd s then Some ([t], s)
      else do { (ts, s) \<leftarrow> read_items rd c s; Some (t # ts, s) })" for t s
  define dec where "dec t bo rest = (if rest = [] then Some ([t], rest, Ok)
      else dec_bind (dec_items (decode bo) c) (\<lambda>ts. dec_return (t # ts) Ok) rest)" for t bo rest
  have "reads (\<lambda>s. do { (ts, s) \<leftarrow> read_items rd c s; Some (t # ts, s) })
      (\<lambda>bo. dec_bind (dec_items (decode bo) c) (\<lambda>ts. dec_return (t # ts) Ok))" for t
    by (intro stream_intros Suc.IH)
  then have "reads (more t) (dec t)" for t
    unfolding reads_def more_def dec_def using atEnd_reading by (auto split: option.splits)
  from reads_bind [of rd decode more dec, OF reads this] show ?case
    by (simp add: more_def [abs_def] dec_def [abs_def])
qed

lemma reads_QList: "reads (read_QList P rd) (dec_QList decode)"
  unfolding read_QList_def [abs_def] dec_QList_def [abs_def] by (intro stream_intros reads_items)

lemma writes_QList:
  "\<forall>x \<in> set xs. storable x \<Longrightarrow> writes (write_QList P wr xs) (\<lambda>bo. enc_QList encode bo xs)"
  unfolding write_QList_def [abs_def] enc_QList_def [abs_def] by (intro stream_intros writes_all)

lemma items_encode:
  "\<forall>x \<in> set xs. storable x \<Longrightarrow>
   dec_items (decode bo) (length xs) (concat (map (encode bo) xs) @ ys) = Some (xs, ys, Ok)"
proof (induction xs)
  case (Cons x xs)
  show ?case
  proof (cases "concat (map (encode bo) xs) @ ys = []")
    case True
    then have "xs = []" using Cons.prems encode_bytes by (cases xs) auto
    moreover have "decode bo (encode bo x) = Some (x, [], Ok)" using decode_encode [of x bo "[]"] Cons.prems by simp
    ultimately show ?thesis using True by (simp add: dec_bind_def)
  next
    case False
    then show ?thesis using Cons by (auto simp: dec_bind_def decode_encode dec_return_def)
  qed
qed simp

lemma QList_encode:
  assumes "length xs < 268435456" "\<forall>x \<in> set xs. storable x"
  shows "dec_QList decode bo (enc_QList encode bo xs @ ys) = Some (xs, ys, Ok)"
  using items_encode [OF assms(2)] small_count [OF assms(1)]
  by (simp add: dec_QList_def enc_QList_def dec_bind_def dec_number_memory)

text \<open>What is written to an empty array is read from it.\<close>

lemma stored:
  assumes "storable x" "writing s" "written s = []"
  shows "\<exists>t. wr x s = Some t \<and> written t = encode (byteorder s) x"
    "reading r \<Longrightarrow> remaining r = encode (byteorder r) x \<Longrightarrow>
     \<exists>u. rd r = Some (x, u) \<and> QDataStream_atEnd u \<and> q_status u = q_status r"
proof -
  show "\<exists>t. wr x s = Some t \<and> written t = encode (byteorder s) x"
    using writes [OF assms(1)] assms(2,3) by (auto simp: writes_def)
  show "\<exists>u. rd r = Some (x, u) \<and> QDataStream_atEnd u \<and> q_status u = q_status r"
    if "reading r" "remaining r = encode (byteorder r) x"
    using reads decode_encode [OF assms(1), of "byteorder r" "[]"] that atEnd_reading by (fastforce simp: reads_def)
qed

end

text \<open>Lists of a type that can be stored.\<close>

lemma stream_type_QList:
  assumes "stream_type wr rd encode decode storable"
  shows "stream_type (write_QList P wr) (read_QList P rd) (enc_QList encode) (dec_QList decode)
    (\<lambda>xs. length xs < 268435456 \<and> (\<forall>x \<in> set xs. storable x))"
  using stream_type.writes_QList [OF assms] stream_type.reads_QList [OF assms] stream_type.QList_encode [OF assms]
    memory_props(1) [where 'a = 32]
  by unfold_locales (auto simp: enc_QList_def simp flip: length_greater_0_conv)

end
