(* ===== verification/StreamValues.thy ===== *)
theory StreamValues
  imports StreamTypes
begin

text \<open>
  The types with stream operators: for each the bytes it is stored as (\<open>enc\<close>), what \<open>>>\<close> makes of any bytes
  (\<open>dec\<close>), and the interpretation of the contract.
\<close>

unbundle bit_operations_syntax

section \<open>Numbers, geometry, dates and times\<close>

lemma sint_of_int: "in32 i \<Longrightarrow> sint (word_of_int i :: 32 word) = i"
  by (simp add: in32_def signed_of_int signed_take_bit_int_eq_self)

lemma in32_sint [simp]: "in32 (sint (i :: 32 word))"
  using sint_range_size [of i] by (simp add: in32_def word_size)

definition dec_bool :: "bool decoder" where
  "dec_bool = dec_bind dec_qint8 (\<lambda>v. dec_return (v \<noteq> 0) Ok)"

definition dec_int :: "ByteOrder \<Rightarrow> int32 decoder" where
  "dec_int bo = dec_bind (dec_number bo) (\<lambda>i :: 32 word. dec_return (sint i) Ok)"

definition enc_int :: "ByteOrder \<Rightarrow> int32 \<Rightarrow> byte list" where
  "enc_int bo i = memory_of bo (word_of_int i :: 32 word)"

definition dec_QPoint :: "ByteOrder \<Rightarrow> qpoint decoder" where
  "dec_QPoint bo = dec_bind (dec_int bo) (\<lambda>x. dec_bind (dec_int bo) (\<lambda>y. dec_return (QPoint x y) Ok))"

definition enc_QPoint :: "ByteOrder \<Rightarrow> qpoint \<Rightarrow> byte list" where
  "enc_QPoint bo p = enc_int bo (QPoint_x p) @ enc_int bo (QPoint_y p)"

definition dec_QSize :: "ByteOrder \<Rightarrow> qsize decoder" where
  "dec_QSize bo = dec_bind (dec_int bo) (\<lambda>w. dec_bind (dec_int bo) (\<lambda>h. dec_return (QSize w h) Ok))"

definition enc_QSize :: "ByteOrder \<Rightarrow> qsize \<Rightarrow> byte list" where
  "enc_QSize bo sz = enc_int bo (QSize_width sz) @ enc_int bo (QSize_height sz)"

definition dec_QLine :: "ByteOrder \<Rightarrow> qline decoder" where
  "dec_QLine bo = dec_bind (dec_QPoint bo) (\<lambda>p. dec_bind (dec_QPoint bo) (\<lambda>q. dec_return (QLine p q) Ok))"

definition enc_QLine :: "ByteOrder \<Rightarrow> qline \<Rightarrow> byte list" where
  "enc_QLine bo l = enc_QPoint bo (QLine_p1 l) @ enc_QPoint bo (QLine_p2 l)"

definition dec_QRect :: "qrect \<Rightarrow> ByteOrder \<Rightarrow> qrect decoder" where
  "dec_QRect r bo =
    dec_bind (dec_int bo) (\<lambda>x1. dec_bind (dec_int bo) (\<lambda>y1. dec_bind (dec_int bo) (\<lambda>x2. dec_bind (dec_int bo) (\<lambda>y2.
      dec_return (QRect_setCoords r x1 y1 x2 y2) Ok))))"

definition enc_QRect :: "ByteOrder \<Rightarrow> qrect \<Rightarrow> byte list" where
  "enc_QRect bo r =
    enc_int bo (QRect_left r) @ enc_int bo (QRect_top r) @ enc_int bo (QRect_right r) @ enc_int bo (QRect_bottom r)"

definition dec_QDate :: "ByteOrder \<Rightarrow> qdate decoder" where
  "dec_QDate bo = dec_bind (dec_number bo) (\<lambda>n :: 32 word. dec_return (QDateJd (uint n)) Ok)"

definition enc_QDate :: "ByteOrder \<Rightarrow> qdate \<Rightarrow> byte list" where
  "enc_QDate bo d = memory_of bo (word_of_int (jd d) :: 32 word)"

definition dec_QTime :: "ByteOrder \<Rightarrow> qtime decoder" where
  "dec_QTime bo = dec_bind (dec_number bo) (\<lambda>n :: 32 word. dec_return (QTimeMds (sint n)) Ok)"

definition enc_QTime :: "ByteOrder \<Rightarrow> qtime \<Rightarrow> byte list" where
  "enc_QTime bo t = memory_of bo (word_of_int (mds t) :: 32 word)"

definition dec_QDateTime :: "QDateTime \<Rightarrow> ByteOrder \<Rightarrow> QDateTime decoder" where
  "dec_QDateTime d bo =
    dec_bind (dec_QDate bo) (\<lambda>date. dec_bind (dec_QTime bo) (\<lambda>time. dec_bind dec_qint8 (\<lambda>ts.
      dec_return (d\<lparr>dt_date := date, dt_time := time, spec := sint ts\<rparr>) Ok)))"

definition enc_QDateTime :: "ByteOrder \<Rightarrow> QDateTime \<Rightarrow> byte list" where
  "enc_QDateTime bo d = enc_QDate bo (dt_date d) @ enc_QTime bo (dt_time d) @ [word_of_int (spec d)]"

lemma reads_bool [stream_intros]: "reads (read_bool P) (\<lambda>bo. dec_bool)"
  unfolding read_bool_def [abs_def] dec_bool_def by (intro stream_intros)

lemma writes_bool [stream_intros]: "writes (write_bool P b) (\<lambda>bo. [of_bool b])"
  unfolding write_bool_def [abs_def] by (intro stream_intros)

lemma reads_int [stream_intros]: "reads (read_int P) dec_int"
  unfolding read_int_def [abs_def] dec_int_def [abs_def] by (intro stream_intros)

lemma writes_int [stream_intros]: "writes (write_int P i) (\<lambda>bo. enc_int bo i)"
  unfolding write_int_def [abs_def] enc_int_def by (intro stream_intros)

lemma reads_QPoint [stream_intros]: "reads (read_QPoint P) dec_QPoint"
  unfolding read_QPoint_def [abs_def] dec_QPoint_def [abs_def] by (intro stream_intros)

lemma writes_QPoint [stream_intros]: "writes (write_QPoint P p) (\<lambda>bo. enc_QPoint bo p)"
  unfolding write_QPoint_def [abs_def] enc_QPoint_def by (intro stream_intros)

lemma reads_QSize [stream_intros]: "reads (read_QSize P) dec_QSize"
  unfolding read_QSize_def [abs_def] dec_QSize_def [abs_def] by (intro stream_intros)

lemma writes_QSize [stream_intros]: "writes (write_QSize P sz) (\<lambda>bo. enc_QSize bo sz)"
  unfolding write_QSize_def [abs_def] enc_QSize_def by (intro stream_intros)

lemma reads_QLine [stream_intros]: "reads (read_QLine P) dec_QLine"
  unfolding read_QLine_def [abs_def] dec_QLine_def [abs_def] by (intro stream_intros)

lemma writes_QLine [stream_intros]: "writes (write_QLine P l) (\<lambda>bo. enc_QLine bo l)"
  unfolding write_QLine_def [abs_def] enc_QLine_def by (intro stream_intros)

lemma reads_QRect [stream_intros]: "reads (read_QRect P r) (dec_QRect r)"
  unfolding read_QRect_def [abs_def] dec_QRect_def [abs_def] by (intro stream_intros)

lemma writes_QRect [stream_intros]: "writes (write_QRect P r) (\<lambda>bo. enc_QRect bo r)"
  unfolding write_QRect_def [abs_def] enc_QRect_def by (intro stream_intros)

lemma reads_QDate [stream_intros]: "reads (read_QDate P) dec_QDate"
  unfolding read_QDate_def [abs_def] dec_QDate_def [abs_def] by (intro stream_intros)

lemma writes_QDate [stream_intros]: "writes (write_QDate P d) (\<lambda>bo. enc_QDate bo d)"
  unfolding write_QDate_def [abs_def] enc_QDate_def by (intro stream_intros)

lemma reads_QTime [stream_intros]: "reads (read_QTime P) dec_QTime"
  unfolding read_QTime_def [abs_def] dec_QTime_def [abs_def] by (intro stream_intros)

lemma writes_QTime [stream_intros]: "writes (write_QTime P t) (\<lambda>bo. enc_QTime bo t)"
  unfolding write_QTime_def [abs_def] enc_QTime_def by (intro stream_intros)

lemma reads_QDateTime [stream_intros]: "reads (read_QDateTime P d) (dec_QDateTime d)"
  unfolding read_QDateTime_def [abs_def] dec_QDateTime_def [abs_def] by (intro stream_intros)

lemma writes_QDateTime [stream_intros]: "writes (write_QDateTime P d) (\<lambda>bo. enc_QDateTime bo d)"
  unfolding write_QDateTime_def [abs_def] enc_QDateTime_def by (intro stream_intros)

text \<open>Decoding what was encoded.\<close>

lemma memory_Nil [simp]: "memory_of bo (i :: 16 word) \<noteq> []" "memory_of bo (j :: 32 word) \<noteq> []" "memory_of bo (k :: 64 word) \<noteq> []"
  by (simp_all add: memory_props(1) flip: length_greater_0_conv)

lemmas dec_numbers =
  dec_number_memory [where 'a = 16, simplified] dec_number_memory [where 'a = 32, simplified] dec_number_memory [where 'a = 64, simplified]

lemmas dec_defs = dec_bind_def dec_return_def

lemma dec_bool_enc: "dec_bool ([of_bool b] @ ys) = Some (b, ys, Ok)"
  by (simp add: dec_bool_def dec_defs)

lemma dec_int_enc: "in32 i \<Longrightarrow> dec_int bo (enc_int bo i @ ys) = Some (i, ys, Ok)" "enc_int bo i \<noteq> []"
  by (simp_all add: dec_int_def enc_int_def dec_defs dec_numbers sint_of_int)

lemma dec_QPoint_enc: "QPoint_ok p \<Longrightarrow> dec_QPoint bo (enc_QPoint bo p @ ys) = Some (p, ys, Ok)" "enc_QPoint bo p \<noteq> []"
  by (simp_all add: dec_QPoint_def enc_QPoint_def QPoint_ok_def dec_defs dec_int_enc QPoint_x_def QPoint_y_def QPoint_def)

lemma dec_QSize_enc: "QSize_ok z \<Longrightarrow> dec_QSize bo (enc_QSize bo z @ ys) = Some (z, ys, Ok)" "enc_QSize bo z \<noteq> []"
  by (simp_all add: dec_QSize_def enc_QSize_def QSize_ok_def dec_defs dec_int_enc QSize_width_def QSize_height_def QSize_def)

definition QLine_ok :: "qline \<Rightarrow> bool" where
  "QLine_ok l \<longleftrightarrow> QPoint_ok (QLine_p1 l) \<and> QPoint_ok (QLine_p2 l)"

lemma dec_QLine_enc: "QLine_ok l \<Longrightarrow> dec_QLine bo (enc_QLine bo l @ ys) = Some (l, ys, Ok)" "enc_QLine bo l \<noteq> []"
  by (simp_all add: dec_QLine_def enc_QLine_def QLine_ok_def dec_defs dec_QPoint_enc QLine_p1_def QLine_p2_def QLine_def)

definition QRect_ok :: "qrect \<Rightarrow> bool" where
  "QRect_ok r \<longleftrightarrow> in32 (x1 r) \<and> in32 (y1 r) \<and> in32 (x2 r) \<and> in32 (y2 r)"

lemma dec_QRect_enc: "QRect_ok x \<Longrightarrow> dec_QRect r bo (enc_QRect bo x @ ys) = Some (x, ys, Ok)" "enc_QRect bo x \<noteq> []"
  by (simp_all add: dec_QRect_def enc_QRect_def QRect_ok_def dec_defs dec_int_enc QRect_left_def QRect_top_def QRect_right_def
      QRect_bottom_def QRect_setCoords_def)

definition QDate_ok :: "qdate \<Rightarrow> bool" where
  "QDate_ok d \<longleftrightarrow> 0 \<le> jd d \<and> jd d < 4294967296"

lemma dec_QDate_enc: "QDate_ok d \<Longrightarrow> dec_QDate bo (enc_QDate bo d @ ys) = Some (d, ys, Ok)" "enc_QDate bo d \<noteq> []"
  by (simp_all add: QDate_ok_def dec_QDate_def enc_QDate_def dec_defs dec_numbers uint_word_of_int)

definition QTime_ok :: "qtime \<Rightarrow> bool" where
  "QTime_ok t \<longleftrightarrow> in32 (mds t)"

lemma dec_QTime_enc: "QTime_ok t \<Longrightarrow> dec_QTime bo (enc_QTime bo t @ ys) = Some (t, ys, Ok)" "enc_QTime bo t \<noteq> []"
  by (simp_all add: QTime_ok_def dec_QTime_def enc_QTime_def dec_defs dec_numbers sint_of_int)

definition QDateTime_ok :: "QDateTime \<Rightarrow> bool" where
  "QDateTime_ok d \<longleftrightarrow> QDate_ok (dt_date d) \<and> QTime_ok (dt_time d) \<and> -128 \<le> spec d \<and> spec d < 128"

lemma dec_QDateTime_enc:
  "QDateTime_ok x \<and> dt_utcOffset x = dt_utcOffset d \<Longrightarrow> dec_QDateTime d bo (enc_QDateTime bo x @ ys) = Some (x, ys, Ok)"
  "enc_QDateTime bo x \<noteq> []"
  by (simp_all add: dec_QDateTime_def enc_QDateTime_def QDateTime_ok_def dec_defs dec_QDate_enc dec_QTime_enc
      signed_of_int signed_take_bit_int_eq_self)

section \<open>Their contracts\<close>

interpretation qint8: stream_type "write_qint8 P" "read_qint8 P" "\<lambda>bo i. [i]" "\<lambda>bo. dec_qint8" "\<lambda>i. True" for P
  by unfold_locales (auto intro: stream_intros)

interpretation qint16: stream_type "write_qint16 P" "read_qint16 P" memory_of dec_number "\<lambda>i. True" for P
  by unfold_locales (auto intro: stream_intros simp: dec_numbers)

interpretation qint32: stream_type "write_qint32 P" "read_qint32 P" memory_of dec_number "\<lambda>i. True" for P
  by unfold_locales (auto intro: stream_intros simp: dec_numbers)

interpretation qint64: stream_type "write_qint64 P" "read_qint64 P" memory_of dec_number "\<lambda>i. True" for P
  by unfold_locales (auto intro: stream_intros simp: dec_numbers)

interpretation float: stream_type "write_float P" "read_float P" memory_of dec_number "\<lambda>i. True" for P
  by unfold_locales (auto intro: stream_intros simp: dec_numbers)

interpretation double: stream_type "write_double P" "read_double P" memory_of dec_number "\<lambda>i. True" for P
  by unfold_locales (auto intro: stream_intros simp: dec_numbers)

interpretation bool: stream_type "write_bool P" "read_bool P" "\<lambda>bo b. [of_bool b]" "\<lambda>bo. dec_bool" "\<lambda>b. True" for P
  by unfold_locales (use writes_bool reads_bool dec_bool_enc in simp_all)

interpretation int: stream_type "write_int P" "read_int P" enc_int dec_int in32 for P
  by unfold_locales (auto intro: stream_intros simp: dec_int_enc)

interpretation QPoint: stream_type "write_QPoint P" "read_QPoint P" enc_QPoint dec_QPoint QPoint_ok for P
  by unfold_locales (auto intro: stream_intros simp: dec_QPoint_enc)

interpretation QSize: stream_type "write_QSize P" "read_QSize P" enc_QSize dec_QSize QSize_ok for P
  by unfold_locales (auto intro: stream_intros simp: dec_QSize_enc)

interpretation QLine: stream_type "write_QLine P" "read_QLine P" enc_QLine dec_QLine QLine_ok for P
  by unfold_locales (auto intro: stream_intros simp: dec_QLine_enc)

interpretation QRect: stream_type "write_QRect P" "read_QRect P r" enc_QRect "dec_QRect r" QRect_ok for P r
  by unfold_locales (auto intro: stream_intros simp: dec_QRect_enc)

interpretation QDate: stream_type "write_QDate P" "read_QDate P" enc_QDate dec_QDate QDate_ok for P
  by unfold_locales (auto intro: stream_intros simp: dec_QDate_enc)

interpretation QTime: stream_type "write_QTime P" "read_QTime P" enc_QTime dec_QTime QTime_ok for P
  by unfold_locales (auto intro: stream_intros simp: dec_QTime_enc)

interpretation QDateTime: stream_type "write_QDateTime P" "read_QDateTime P d" enc_QDateTime "dec_QDateTime d"
    "\<lambda>x. QDateTime_ok x \<and> dt_utcOffset x = dt_utcOffset d" for P d
  by unfold_locales (auto intro: stream_intros simp: dec_QDateTime_enc)

end
