(* ===== verification/StreamArrays.thy ===== *)
theory StreamArrays
  imports StreamValues
begin

text \<open>
  The stream operators of \<open>QByteArray\<close>, \<open>QString\<close>, \<open>QBitArray\<close> and \<open>QVector\<close>.
\<close>

unbundle bit_operations_syntax

section \<open>QByteArray and QString\<close>

definition dec_QByteArray :: "ByteOrder \<Rightarrow> byte list option decoder" where
  "dec_QByteArray bo =
    dec_bind (dec_number bo) (\<lambda>n :: 32 word.
      if n = 0xFFFFFFFF then dec_return None Ok
      else dec_bind (dec_raw (sint n)) (\<lambda>p.
        if word_of_int (fst p) \<noteq> n then dec_return None ReadPastEnd else dec_return (Some (snd p)) Ok))"

definition enc_QByteArray :: "ByteOrder \<Rightarrow> byte list option \<Rightarrow> byte list" where
  "enc_QByteArray bo ba =
    (case ba of
       None \<Rightarrow> memory_of bo (0xFFFFFFFF :: 32 word)
     | Some xs \<Rightarrow> memory_of bo (of_nat (length xs) :: 32 word) @ xs)"

definition QByteArray_ok :: "byte list option \<Rightarrow> bool" where
  "QByteArray_ok ba \<longleftrightarrow> (case ba of None \<Rightarrow> True | Some xs \<Rightarrow> length xs < 2147483648)"

lemma reads_raw_then [stream_intros]:
  assumes "in32 n" "\<And>r xs. reads (f r xs) (d r xs)"
  shows "reads (\<lambda>s. do { (r, xs, s) \<leftarrow> readRawData P n s; f r xs s }) (\<lambda>bo. dec_bind (dec_raw n) (\<lambda>p. d (fst p) (snd p) bo))"
  unfolding raw_then [of P n _ f]
  by (rule reads_bind [OF reads_raw [OF assms(1)], of "\<lambda>p. f (fst p) (snd p)" "\<lambda>p. d (fst p) (snd p)"]) (rule assms(2))

lemma reads_QByteArray [stream_intros]: "reads (read_QByteArray P) dec_QByteArray"
  unfolding read_QByteArray_def [abs_def] dec_QByteArray_def [abs_def] by (intro stream_intros in32_sint)

lemma writes_QByteArray [stream_intros]:
  assumes "QByteArray_ok ba"
  shows "writes (write_QByteArray P ba) (\<lambda>bo. enc_QByteArray bo ba)"
proof (cases ba)
  case None
  then show ?thesis by (simp add: write_QByteArray_def [abs_def] enc_QByteArray_def number_writes)
next
  case (Some xs)
  then have "length xs < 2147483648" using assms by (simp add: QByteArray_ok_def)
  then show ?thesis unfolding write_QByteArray_def [abs_def] enc_QByteArray_def Some option.case by (intro stream_intros)
qed

lemma small_word:
  assumes "k < 2147483648"
  shows "sint (of_nat k :: 32 word) = int k" "(of_nat k :: 32 word) \<noteq> 0xFFFFFFFF" "word_of_int (int k) = (of_nat k :: 32 word)"
    "unat (of_nat k :: 32 word) = k"
proof -
  show "sint (of_nat k :: 32 word) = int k" using sint_of_int [of "int k"] assms by (simp add: in32_def)
  show u: "unat (of_nat k :: 32 word) = k" using assms by (simp add: unat_of_nat)
  show "(of_nat k :: 32 word) \<noteq> 0xFFFFFFFF"
  proof
    assume "(of_nat k :: 32 word) = 0xFFFFFFFF"
    then have "unat (of_nat k :: 32 word) = unat (0xFFFFFFFF :: 32 word)" by (rule arg_cong)
    then show False using u assms by simp
  qed
qed simp

lemma dec_QByteArray_enc:
  "QByteArray_ok ba \<Longrightarrow> dec_QByteArray bo (enc_QByteArray bo ba @ ys) = Some (ba, ys, Ok)" "enc_QByteArray bo ba \<noteq> []"
  by (auto simp: QByteArray_ok_def dec_QByteArray_def enc_QByteArray_def dec_defs dec_numbers dec_raw_def small_word
      split: option.splits)

interpretation QByteArray: stream_type "write_QByteArray P" "read_QByteArray P" enc_QByteArray dec_QByteArray QByteArray_ok for P
  by unfold_locales (auto intro: stream_intros simp: dec_QByteArray_enc)

text \<open>The bytes of a string are those in the memory of the machine, \<open>host\<close>.\<close>

definition dec_QString :: "ByteOrder \<Rightarrow> ByteOrder \<Rightarrow> 16 word list option decoder" where
  "dec_QString host bo =
    dec_bind (dec_number bo) (\<lambda>n :: 32 word.
      if n = 0xFFFFFFFF then dec_return None Ok
      else if n > 0 then
        (if n AND 1 \<noteq> 0 then dec_return None ReadCorruptData
         else dec_bind (dec_raw (sint n)) (\<lambda>p.
           if word_of_int (fst p) \<noteq> n then dec_return None ReadPastEnd
           else dec_return (Some (chars_at host (snd p))) Ok))
      else dec_return (Some []) Ok)"

definition enc_QString :: "ByteOrder \<Rightarrow> ByteOrder \<Rightarrow> 16 word list option \<Rightarrow> byte list" where
  "enc_QString host bo str =
    (case str of
       Some (c # cs) \<Rightarrow> memory_of bo (of_nat (length (c # cs) * 2) :: 32 word) @ concat (map (memory_of host) (c # cs))
     | _ \<Rightarrow> memory_of bo (0xFFFFFFFF :: 32 word))"

text \<open>An empty string that is not null is stored like the null string.\<close>

definition QString_ok :: "16 word list option \<Rightarrow> bool" where
  "QString_ok str \<longleftrightarrow> (case str of None \<Rightarrow> True | Some xs \<Rightarrow> xs \<noteq> [] \<and> length xs < 1073741824)"

lemma reads_QString [stream_intros]: "reads (read_QString P) (dec_QString (HostEndian P))"
  unfolding read_QString_def [abs_def] dec_QString_def [abs_def] by (intro stream_intros in32_sint)

lemma length_chars: "length (concat (map (memory_of host) cs)) = 2 * length (cs :: 16 word list)"
  by (induction cs) (simp_all add: memory_props(1))

lemma chars_at_memory: "chars_at host (concat (map (memory_of host) cs)) = cs"
proof (induction cs)
  case (Cons c cs)
  have "length (memory_of host c) = 2" by (simp add: memory_props(1))
  then obtain a b where ab: "memory_of host c = [a, b]" by (auto simp: length_Suc_conv numeral_2_eq_2)
  then have "word_at host [a, b] = c" using memory_props(2) [of host c] by simp
  then show ?case using Cons.IH by (simp add: ab)
qed simp

lemma writes_QString [stream_intros]:
  assumes "QString_ok str"
  shows "writes (write_QString P str) (\<lambda>bo. enc_QString (HostEndian P) bo str)"
proof (cases str)
  case None
  then show ?thesis by (simp add: write_QString_def [abs_def] enc_QString_def number_writes)
next
  case (Some xs)
  then obtain c cs where cs: "str = Some (c # cs)" "length (c # cs) < 1073741824"
    using assms by (cases xs) (auto simp: QString_ok_def)
  then have "length (concat (map (memory_of (HostEndian P)) (c # cs))) < 2147483648" unfolding length_chars by simp
  then show ?thesis unfolding write_QString_def [abs_def] enc_QString_def cs(1) option.case list.case Let_def
    by (intro stream_intros)
qed

lemma dec_QString_enc:
  assumes "QString_ok str"
  shows "dec_QString host bo (enc_QString host bo str @ ys) = Some (str, ys, Ok)"
proof (cases str)
  case None
  then show ?thesis by (simp add: dec_QString_def enc_QString_def dec_defs dec_numbers)
next
  case (Some xs)
  then obtain c cs where cs: "str = Some (c # cs)" "length (c # cs) < 1073741824"
    using assms by (cases xs) (auto simp: QString_ok_def)
  define k where "k = length (c # cs) * 2"
  define bs where "bs = concat (map (memory_of host) (c # cs))"
  have k: "k < 2147483648" "0 < k" "length bs = k" using cs(2) length_chars [of host "c # cs"] by (simp_all add: k_def bs_def)
  have "2 dvd (of_nat k :: 32 word)" unfolding k_def of_nat_mult of_nat_numeral by (rule dvd_triv_right)
  then have even: "(of_nat k :: 32 word) AND 1 = 0" unfolding and_one_eq by (simp only: even_iff_mod_2_eq_zero)
  have pos: "(of_nat k :: 32 word) > 0" using k small_word(4) [OF k(1)] by (simp add: word_greater_zero_iff unat_eq_0 [symmetric])
  have "enc_QString host bo str = memory_of bo (of_nat k :: 32 word) @ bs"
    by (simp only: enc_QString_def cs(1) option.case list.case k_def bs_def)
  moreover have "chars_at host bs = c # cs" unfolding bs_def by (rule chars_at_memory)
  ultimately show ?thesis
    using small_word [OF k(1)] even pos k(3) by (simp add: dec_QString_def dec_defs dec_numbers dec_raw_def cs(1))
qed

lemma enc_QString_Nil: "enc_QString host bo str \<noteq> []"
  by (auto simp: enc_QString_def split: option.splits list.splits)

interpretation QString: stream_type "write_QString P" "read_QString P" "enc_QString (HostEndian P)" "dec_QString (HostEndian P)"
    QString_ok for P
  by unfold_locales (auto intro: stream_intros simp: dec_QString_enc enc_QString_Nil)


section \<open>QBitArray\<close>

definition dec_blocks :: "(nat \<Rightarrow> byte) \<Rightarrow> nat \<Rightarrow> nat \<Rightarrow> byte list \<Rightarrow> byte list option decoder" where
  "dec_blocks junk allocated totalBytes c bs =
    (if allocated < totalBytes then
       (if length bs < totalBytes - allocated then Some (None, [], Ok)
        else Some (Some ((if c = [] then [junk 0] else c) @ take (totalBytes - allocated) bs), drop (totalBytes - allocated) bs, Ok))
     else Some (Some c, bs, Ok))"

lemma block_result:
  assumes "c = [] \<and> allocated = 0 \<or> length c = allocated + 1" "length xs = b" "0 < b"
  shows "memmove (1 + allocated) xs (QByteArray_resize junk c (allocated + b + 1)) =
    Some ((if c = [] then [junk 0] else c) @ xs)"
proof -
  have "[0..<Suc b] = 0 # [1..<Suc b]" using upt_conv_Cons [of 0 "Suc b"] by simp
  then show ?thesis using assms by (auto simp: memmove_def QByteArray_resize_def simp del: upt_Suc)
qed

lemma reads_blocks:
  assumes "totalBytes < 2147483648" "c = [] \<and> allocated = 0 \<or> length c = allocated + 1"
  shows "reads (read_blocks P allocated totalBytes c) (\<lambda>bo. dec_blocks (uninit P) allocated totalBytes c)"
  using assms
proof (induction "totalBytes - allocated" arbitrary: allocated c rule: less_induct)
  case less
  show ?case
  proof (cases "allocated < totalBytes")
    case False
    then show ?thesis by (simp add: reads_def read_blocks.simps dec_blocks_def)
  next
    case True
    define b where "b = min Step (totalBytes - allocated)"
    have b: "0 < b" "allocated + b \<le> totalBytes" using True by (auto simp: b_def Step_def)
    have in32: "in32 (int b)" using b less.prems(1) by (simp add: in32_def)
    define h where "h = (if c = [] then [uninit P 0] else c)"
    have h: "h \<noteq> []" "length h = allocated + 1" using less.prems(2) by (auto simp: h_def)
    show ?thesis
      unfolding reads_def
    proof (intro allI impI)
      fix s
      assume s: "reading s"
      define xs where "xs = take b (remaining s)"
      from reads_raw [OF in32, of P, unfolded reads_def, rule_format, OF s] obtain t where
        t: "readRawData P (int b) s = Some (int (length xs), xs, t)" "reading t" "remaining t = drop (length xs) (remaining s)"
          "byteorder t = byteorder s" "q_status t = q_status s"
        by (cases "readRawData P (int b) s") (auto simp: dec_raw_def xs_def Let_def)
      have step: "read_blocks P allocated totalBytes c s =
        (if length xs \<noteq> b then Some (None, t) else read_blocks P (allocated + b) totalBytes (h @ xs) t)"
        using True t(1) block_result [OF less.prems(2) _ b(1), of xs]
        by (subst read_blocks.simps) (simp add: b_def [symmetric] h_def Let_def)
      show "case dec_blocks (uninit P) allocated totalBytes c (remaining s) of
          None \<Rightarrow> read_blocks P allocated totalBytes c s = None
        | Some (x, rest, st) \<Rightarrow> \<exists>t. read_blocks P allocated totalBytes c s = Some (x, t) \<and> reading t \<and> remaining t = rest \<and>
            byteorder t = byteorder s \<and> q_status t = joined (q_status s) st"
      proof (cases "length xs = b")
        case False
        then have less_b: "length (remaining s) < b" by (simp add: xs_def)
        then have "length (remaining s) < totalBytes - allocated" by (simp add: b_def)
        moreover have "xs = remaining s" using less_b by (simp add: xs_def)
        ultimately show ?thesis using step False True t by (simp add: dec_blocks_def)
      next
        case len: True
        then have le: "b \<le> length (remaining s)" by (simp add: xs_def)
        have l: "h @ xs = [] \<and> allocated + b = 0 \<or> length (h @ xs) = allocated + b + 1" using h len by simp
        have "totalBytes - (allocated + b) < totalBytes - allocated" using b True by simp
        from less.hyps [OF this less.prems(1) l] t(2)
        have ih: "case dec_blocks (uninit P) (allocated + b) totalBytes (h @ xs) (remaining t) of
            None \<Rightarrow> read_blocks P (allocated + b) totalBytes (h @ xs) t = None
          | Some (x, rest, st) \<Rightarrow> \<exists>u. read_blocks P (allocated + b) totalBytes (h @ xs) t = Some (x, u) \<and> reading u \<and>
              remaining u = rest \<and> byteorder u = byteorder t \<and> q_status u = joined (q_status t) st"
          by (simp add: reads_def)
        have rt: "remaining t = drop b (remaining s)" using t(3) len by simp
        define m where "m = totalBytes - (allocated + b)"
        have m: "totalBytes - allocated = b + m" using b by (simp add: m_def)
        have "xs @ take m (drop b (remaining s)) = take (b + m) (remaining s)" by (simp add: xs_def take_add)
        moreover have "\<not> allocated + b < totalBytes \<Longrightarrow> m = 0" by (simp add: m_def)
        ultimately have same: "dec_blocks (uninit P) (allocated + b) totalBytes (h @ xs) (remaining t) =
            dec_blocks (uninit P) allocated totalBytes c (remaining s)"
          using True le h unfolding dec_blocks_def rt m m_def [symmetric] h_def [symmetric]
          by (auto simp: add.commute)
        have next_round: "read_blocks P allocated totalBytes c s = read_blocks P (allocated + b) totalBytes (h @ xs) t"
          using step len by simp
        show ?thesis using ih unfolding same next_round t(4,5) .
      qed
    qed
  qed
qed


definition unused_set :: "32 word \<Rightarrow> byte list \<Rightarrow> bool" where
  "unused_set n xs \<longleftrightarrow> n AND 7 \<noteq> 0 \<and> last xs AND NOT (low_mask (unat (n AND 7))) \<noteq> 0"

definition dec_bits :: "32 word \<Rightarrow> nat \<Rightarrow> QBitArray decoder" where
  "dec_bits n tb bs =
    (if tb = 0 then None
     else if length bs < tb then Some (QBitArray [], [], ReadPastEnd)
     else if unused_set n (take tb bs) then Some (QBitArray [], drop tb bs, ReadCorruptData)
     else Some (QBitArray ((of_nat (tb + 1) * 8 - ucast n) # take tb bs), drop tb bs, Ok))"

definition dec_QBitArray :: "ByteOrder \<Rightarrow> QBitArray decoder" where
  "dec_QBitArray bo =
    dec_bind (dec_number bo) (\<lambda>n :: 32 word.
      if n = 0 then dec_return (QBitArray []) Ok else dec_bits n (unat ((n + 7) div 8)))"

definition enc_QBitArray :: "ByteOrder \<Rightarrow> QBitArray \<Rightarrow> byte list" where
  "enc_QBitArray bo ba =
    memory_of bo (of_nat (QBitArray_size ba) :: 32 word) @ (if QBitArray_size ba > 0 then tl (bytes ba) else [])"

definition QBitArray_ok :: "QBitArray \<Rightarrow> bool" where
  "QBitArray_ok ba \<longleftrightarrow> bits_wf ba \<and> QBitArray_size ba < 2147483648"

lemma word_and_7: "unat ((n :: 32 word) AND 7) = unat n mod 8" "n AND 7 \<noteq> 0 \<longleftrightarrow> unat n mod 8 \<noteq> 0"
proof -
  have "n AND 7 = n mod 8" using take_bit_eq_mask [of 3 n] take_bit_eq_mod [of 3 n] by (simp add: mask_eq_exp_minus_1)
  then show u: "unat (n AND 7) = unat n mod 8" by (simp add: unat_mod)
  show "n AND 7 \<noteq> 0 \<longleftrightarrow> unat n mod 8 \<noteq> 0" using u unat_eq_0 [of "n AND 7"] by simp
qed

lemma total_bytes:
  assumes "n \<noteq> 0"
  shows "unat (((n :: 32 word) + 7) div 8) < 2147483648"
    "unat ((n + 7) div 8) = (if unat n < 4294967289 then (unat n + 7) div 8 else 0)"
    "unat ((n + 7) div 8) = 0 \<Longrightarrow> n AND 7 \<noteq> 0"
proof -
  have n: "unat n < 4294967296" using unsigned_less [where w = n and 'a = nat] by simp
  have "unat (n + 7) = (unat n + 7) mod 4294967296" by (simp add: unat_word_ariths)
  then have s: "unat (n + 7) = (if unat n < 4294967289 then unat n + 7 else unat n - 4294967289)"
    using n by (auto simp: mod_if)
  then show t: "unat ((n + 7) div 8) = (if unat n < 4294967289 then (unat n + 7) div 8 else 0)"
    using n by (auto simp: unat_div)
  then show "unat ((n + 7) div 8) < 2147483648" by (auto simp: div_less_iff_less_mult)
  assume z: "unat ((n + 7) div 8) = 0"
  have "unat n \<noteq> 0" using assms by (simp add: unat_eq_0)
  then have "4294967289 \<le> unat n" using z t by (auto split: if_splits simp: div_eq_0_iff)
  then have "unat n mod 8 \<noteq> 0" using n by presburger
  then show "n AND 7 \<noteq> 0" by (simp add: word_and_7)
qed

text \<open>What is done with the bytes of the loop.\<close>

definition finish_bits :: "32 word \<Rightarrow> byte list option \<Rightarrow> QDataStream \<Rightarrow> (QBitArray \<times> QDataStream) option" where
  "finish_bits n b s =
    (case b of
       None \<Rightarrow> Some (QBitArray [], setStatus ReadPastEnd s)
     | Some c \<Rightarrow>
         if n AND 7 \<noteq> 0 \<and> c = [] then None
         else if n AND 7 \<noteq> 0 \<and> last c AND NOT (low_mask (unat (n AND 7))) \<noteq> 0
         then Some (QBitArray [], setStatus ReadCorruptData s)
         else Some (QBitArray (c[0 := of_nat (length c) * 8 - ucast n]), s))"

lemma read_QBitArray_finish:
  "read_QBitArray P s = do {
    (n, s) \<leftarrow> read_qint32 P s;
    if n = 0 then Some (QBitArray [], s)
    else do { (b, s) \<leftarrow> read_blocks P 0 (unat ((n + 7) div 8)) [] s; finish_bits n b s } }"
  unfolding read_QBitArray_def finish_bits_def [abs_def] Let_def by (rule refl)

lemma reads_bits:
  assumes n: "n \<noteq> 0" and tb: "tb = unat ((n + 7) div 8)"
  shows "reads (\<lambda>s. do { (b, s) \<leftarrow> read_blocks P 0 tb [] s; finish_bits n b s }) (\<lambda>bo. dec_bits n tb)"
  unfolding reads_def
proof (intro allI impI)
  fix s
  assume s: "reading s"
  have lt: "tb < 2147483648" using total_bytes(1) [OF n] tb by simp
  have "reads (read_blocks P 0 tb []) (\<lambda>bo. dec_blocks (uninit P) 0 tb [])" by (rule reads_blocks [OF lt]) simp
  note r = this [unfolded reads_def, rule_format, OF s]
  consider "tb = 0" | "0 < tb" "length (remaining s) < tb" | "0 < tb" "tb \<le> length (remaining s)" by linarith
  then show "case dec_bits n tb (remaining s) of
      None \<Rightarrow> (do { (b, s) \<leftarrow> read_blocks P 0 tb [] s; finish_bits n b s }) = None
    | Some (x, rest, st) \<Rightarrow> \<exists>t. (do { (b, s) \<leftarrow> read_blocks P 0 tb [] s; finish_bits n b s }) = Some (x, t) \<and>
        reading t \<and> remaining t = rest \<and> byteorder t = byteorder s \<and> q_status t = joined (q_status s) st"
  proof cases
    case 1
    then have "read_blocks P 0 tb [] s = Some (Some [], s)" by (simp add: read_blocks.simps)
    moreover have "n AND 7 \<noteq> 0" by (rule total_bytes(3) [OF n]) (use 1 tb in simp)
    ultimately show ?thesis using 1 by (simp add: finish_bits_def dec_bits_def)
  next
    case 2
    then obtain t where t: "read_blocks P 0 tb [] s = Some (None, t)" "reading t" "remaining t = []"
      "byteorder t = byteorder s" "q_status t = q_status s" using r by (auto simp: dec_blocks_def)
    then show ?thesis using 2 by (simp add: finish_bits_def dec_bits_def)
  next
    case 3
    then obtain t where t: "read_blocks P 0 tb [] s = Some (Some (uninit P 0 # take tb (remaining s)), t)" "reading t"
      "remaining t = drop tb (remaining s)" "byteorder t = byteorder s" "q_status t = q_status s"
      using r by (auto simp: dec_blocks_def)
    have "take tb (remaining s) \<noteq> []" using 3 by (cases "remaining s") auto
    then have "last (uninit P 0 # take tb (remaining s)) = last (take tb (remaining s))" by simp
    then show ?thesis using 3 t by (simp add: finish_bits_def dec_bits_def unused_set_def min_def)
  qed
qed

lemma reads_QBitArray [stream_intros]: "reads (read_QBitArray P) dec_QBitArray"
proof -
  have rest: "reads (\<lambda>s. if n = 0 then Some (QBitArray [], s)
      else do { (b, s) \<leftarrow> read_blocks P 0 (unat ((n + 7) div 8)) [] s; finish_bits n b s })
    (\<lambda>bo. if n = 0 then dec_return (QBitArray []) Ok else dec_bits n (unat ((n + 7) div 8)))" for n :: "32 word"
  proof (cases "n = 0")
    case True
    then show ?thesis using reads_return [of "QBitArray []"] by simp
  next
    case False
    show ?thesis unfolding if_not_P [OF False] by (rule reads_bits [OF False refl])
  qed
  show ?thesis
    unfolding read_QBitArray_finish [abs_def] dec_QBitArray_def [abs_def] by (rule reads_bind [OF number_reads(2) rest])
qed

text \<open>An array within its invariant is stored as its size and its data bytes; the check of the last byte is the invariant.\<close>

lemma unused_last:
  assumes "0 < n" "length xs = (n + 7) div 8"
  shows "(n mod 8 \<noteq> 0 \<and> last xs AND NOT (low_mask (n mod 8)) \<noteq> 0) \<longleftrightarrow>
    (\<exists>j. n \<le> j \<and> j < 8 * ((n + 7) div 8) \<and> raw_bit (h # xs) j)"
proof (cases "n mod 8 = 0")
  case True
  then show ?thesis using whole_bytes [OF True] by simp
next
  case False
  have "length xs = n div 8 + 1" using False assms(2) by (simp add: ceil8)
  then have l: "last xs = xs ! (n div 8)" by (cases "xs = []") (simp_all add: last_conv_nth)
  have "n mod 8 < 8" by simp
  then have "(last xs AND NOT (low_mask (n mod 8)) \<noteq> 0) \<longleftrightarrow> (\<exists>k. n mod 8 \<le> k \<and> k < 8 \<and> bit (last xs) k)"
    by (auto simp: bit_eq_iff [of "last xs AND NOT (low_mask (n mod 8))"] bit_and_iff bit_not_iff low_mask_bit not_less
        dest: bit_imp_le_length)
  also have "\<dots> \<longleftrightarrow> (\<exists>j. n \<le> j \<and> j < 8 * ((n + 7) div 8) \<and> raw_bit (h # xs) j)"
  proof
    assume "\<exists>k. n mod 8 \<le> k \<and> k < 8 \<and> bit (last xs) k"
    then obtain k where k: "n mod 8 \<le> k" "k < 8" "bit (last xs) k" by blast
    then have "n \<le> 8 * (n div 8) + k" using mult_div_mod_eq [of 8 n] by linarith
    moreover have "8 * (n div 8) + k < 8 * ((n + 7) div 8)" using False k by (simp add: ceil8)
    moreover have "raw_bit (h # xs) (8 * (n div 8) + k)" using k l by (simp add: raw_bit_def)
    ultimately show "\<exists>j. n \<le> j \<and> j < 8 * ((n + 7) div 8) \<and> raw_bit (h # xs) j" by blast
  next
    assume "\<exists>j. n \<le> j \<and> j < 8 * ((n + 7) div 8) \<and> raw_bit (h # xs) j"
    then obtain j where j: "n \<le> j" "j < 8 * ((n + 7) div 8)" "raw_bit (h # xs) j" by blast
    then have "n mod 8 \<le> j mod 8" "bit (last xs) (j mod 8)" using last_byte [OF False j(1,2)] l by (simp_all add: raw_bit_def)
    then show "\<exists>k. n mod 8 \<le> k \<and> k < 8 \<and> bit (last xs) k" by force
  qed
  finally show ?thesis using False by simp
qed

text \<open>The decoder over the numbers of bits and bytes.\<close>

lemma dec_bits_nat:
  assumes "n \<noteq> 0" "unat n < 4294967289" "tb = (unat n + 7) div 8"
  shows "dec_bits n (unat ((n + 7) div 8)) bs =
    (if length bs < tb then Some (QBitArray [], [], ReadPastEnd)
     else if \<exists>j. unat n \<le> j \<and> j < 8 * tb \<and> raw_bit (0 # take tb bs) j then Some (QBitArray [], drop tb bs, ReadCorruptData)
     else Some (QBitArray (set_header (unat n) (0 # take tb bs)), drop tb bs, Ok))"
proof -
  have pos: "0 < unat n" using assms(1) by (simp add: unat_eq_0 neq0_conv [symmetric])
  have tb: "unat ((n + 7) div 8) = tb" "tb \<noteq> 0" using total_bytes(2) [OF assms(1)] assms(2,3) pos by simp_all
  have u: "unused_set n (take tb bs) \<longleftrightarrow> (\<exists>j. unat n \<le> j \<and> j < 8 * tb \<and> raw_bit (0 # take tb bs) j)" if "tb \<le> length bs"
    using that unused_last [OF pos, of "take tb bs" 0] assms(3) by (simp add: unused_set_def word_and_7)
  have le: "unat n \<le> 8 * (tb + 1)" using ceil8_le [of "unat n" tb] assms(3) by simp
  have "(of_nat (8 * (tb + 1) - unat n) :: byte) = of_nat (8 * (tb + 1)) - of_nat (unat n)" by (rule of_nat_diff [OF le])
  also have "\<dots> = of_nat (tb + 1) * 8 - ucast n" by (simp add: of_nat_unat)
  finally have h: "(of_nat (tb + 1) * 8 - ucast n) # take tb bs = set_header (unat n) (0 # take tb bs)" if "tb \<le> length bs"
    using that by (simp add: set_header_def min_def)
  show ?thesis using tb u h by (auto simp: dec_bits_def not_less simp del: of_nat_add)
qed

lemma QBitArray_ok_word:
  assumes "QBitArray_ok ba" "bytes ba \<noteq> []"
  defines "n \<equiv> QBitArray_size ba"
  shows "0 < n" "unat (of_nat n :: 32 word) = n" "(of_nat n :: 32 word) \<noteq> 0" "length (tl (bytes ba)) = (n + 7) div 8"
    "set_header n (0 # tl (bytes ba)) = bytes ba"
    "\<not> (\<exists>j. n \<le> j \<and> j < 8 * ((n + 7) div 8) \<and> raw_bit (0 # tl (bytes ba)) j)" "n < 2147483648"
proof -
  have w: "bits_wf ba" "n < 2147483648" using assms by (simp_all add: QBitArray_ok_def)
  note l = wf_length [OF w(1) assms(2), folded n_def]
  show "0 < n" "n < 2147483648" "length (tl (bytes ba)) = (n + 7) div 8" using l w by simp_all
  show u: "unat (of_nat n :: 32 word) = n" using w(2) by (simp add: small_word)
  then show "(of_nat n :: 32 word) \<noteq> 0" using l(1) by (metis unsigned_0 less_irrefl)
  obtain h xs where b: "bytes ba = h # xs" using assms(2) by (cases "bytes ba") auto
  have "unat h = 8 * length (bytes ba) - n" using w(1) b by (simp add: bits_wf_def Let_def n_def)
  then have "of_nat (8 * length (bytes ba) - n) = h" by (metis of_nat_unat ucast_id)
  then show "set_header n (0 # tl (bytes ba)) = bytes ba" using b by (simp add: set_header_def)
  have "raw_bit (0 # xs) j = raw_bit (bytes ba) j" for j using b by (simp add: raw_bit_def)
  then show "\<not> (\<exists>j. n \<le> j \<and> j < 8 * ((n + 7) div 8) \<and> raw_bit (0 # tl (bytes ba)) j)" using l(3) b by auto
qed

lemma QBitArray_empty: "QBitArray_ok ba \<Longrightarrow> bytes ba = [] \<Longrightarrow> QBitArray_size ba = 0"
  by (simp add: QBitArray_size_def)

lemma writes_QBitArray [stream_intros]:
  assumes "QBitArray_ok ba"
  shows "writes (write_QBitArray P ba) (\<lambda>bo. enc_QBitArray bo ba)"
proof (cases "bytes ba = []")
  case True
  then have "write_QBitArray P ba = write_qint32 P 0" by (simp add: write_QBitArray_def [abs_def] QBitArray_size_def)
  then show ?thesis using True number_writes(2) [of P 0] by (simp add: enc_QBitArray_def QBitArray_size_def)
next
  case False
  note b = QBitArray_ok_word [OF assms False]
  have "(of_nat (QBitArray_size ba) :: 32 word) > 0" using b(3) by (simp add: word_greater_zero_iff)
  moreover have "length (tl (bytes ba)) < 2147483648" using b(4,7) by simp
  ultimately show ?thesis
    using b(1) unfolding write_QBitArray_def [abs_def] enc_QBitArray_def Let_def by (simp add: stream_intros)
qed

lemma dec_QBitArray_enc:
  assumes "QBitArray_ok ba"
  shows "dec_QBitArray bo (enc_QBitArray bo ba @ ys) = Some (ba, ys, Ok)" "enc_QBitArray bo ba \<noteq> []"
proof -
  show "dec_QBitArray bo (enc_QBitArray bo ba @ ys) = Some (ba, ys, Ok)"
  proof (cases "bytes ba = []")
    case True
    then have "ba = QBitArray []" by (cases ba) simp
    then show ?thesis by (simp add: dec_QBitArray_def enc_QBitArray_def QBitArray_size_def dec_defs dec_numbers)
  next
    case False
    note b = QBitArray_ok_word [OF assms False]
    show ?thesis
      using b dec_bits_nat [OF b(3) _ refl, of "tl (bytes ba) @ ys"]
      by (simp add: dec_QBitArray_def enc_QBitArray_def dec_bind_def dec_numbers)
  qed
qed (simp add: enc_QBitArray_def)

interpretation QBitArray: stream_type "write_QBitArray P" "read_QBitArray P" enc_QBitArray dec_QBitArray QBitArray_ok for P
  by unfold_locales (auto intro: stream_intros simp: dec_QBitArray_enc)

section \<open>QVector and QStringList\<close>

fun dec_elements :: "'a decoder \<Rightarrow> nat \<Rightarrow> 'a list decoder" where
  "dec_elements d 0 bs = Some ([], bs, Ok)"
| "dec_elements d (Suc c) bs = dec_bind d (\<lambda>t. dec_bind (dec_elements d c) (\<lambda>ts. dec_return (t # ts) Ok)) bs"

definition dec_QVector :: "int32 \<Rightarrow> (ByteOrder \<Rightarrow> 'a decoder) \<Rightarrow> ByteOrder \<Rightarrow> 'a list decoder" where
  "dec_QVector sizeofT decode bo =
    dec_bind (dec_number bo) (\<lambda>c :: 32 word.
      if \<not> QVector_resize_fits sizeofT (sint c) then (\<lambda>bs. None) else dec_elements (decode bo) (unat c))"

lemma QVector_resize_fits_0 [simp]: "QVector_resize_fits sizeofT 0"
  by (simp add: QVector_resize_fits_def)

lemma QVector_count:
  assumes "QVector_resize_fits sizeofT (int k)" "0 < sizeofT"
  shows "k < 2147483648"
proof -
  have "int k * 1 \<le> int k * sizeofT" using assms(2) by (intro mult_left_mono) simp_all
  then show ?thesis using assms(1) by (simp add: QVector_resize_fits_def)
qed

context stream_type begin

lemma reads_elements: "reads (read_elements rd c) (\<lambda>bo. dec_elements (decode bo) c)"
proof (induction c)
  case 0
  then show ?case by (simp add: reads_def)
next
  case (Suc c)
  have "reads (\<lambda>s. do { (ts, s) \<leftarrow> read_elements rd c s; Some (t # ts, s) })
      (\<lambda>bo. dec_bind (dec_elements (decode bo) c) (\<lambda>ts. dec_return (t # ts) Ok))" for t
    by (intro stream_intros Suc.IH)
  from reads_bind [OF reads this] show ?case by simp
qed

lemma reads_QVector: "reads (read_QVector P sizeofT rd) (dec_QVector sizeofT decode)"
  unfolding read_QVector_def [abs_def] dec_QVector_def [abs_def] by (intro stream_intros reads_elements)

lemma writes_QVector:
  "\<forall>x \<in> set xs. storable x \<Longrightarrow> writes (write_QVector P wr xs) (\<lambda>bo. enc_QList encode bo xs)"
  unfolding write_QVector_def [abs_def] enc_QList_def [abs_def] by (intro stream_intros writes_all)

lemma elements_encode:
  "\<forall>x \<in> set xs. storable x \<Longrightarrow>
   dec_elements (decode bo) (length xs) (concat (map (encode bo) xs) @ ys) = Some (xs, ys, Ok)"
  by (induction xs) (simp_all add: dec_defs decode_encode)

lemma QVector_encode:
  assumes "QVector_resize_fits sizeofT (int (length xs))" "0 < sizeofT" "\<forall>x \<in> set xs. storable x"
  shows "dec_QVector sizeofT decode bo (enc_QList encode bo xs @ ys) = Some (xs, ys, Ok)"
  using elements_encode [OF assms(3)] small_word [OF QVector_count [OF assms(1,2)]] assms(1)
  by (simp add: dec_QVector_def enc_QList_def dec_bind_def dec_number_memory)

end

lemma stream_type_QVector:
  assumes "stream_type wr rd encode decode storable" "0 < sizeofT"
  shows "stream_type (write_QVector P wr) (read_QVector P sizeofT rd) (enc_QList encode) (dec_QVector sizeofT decode)
    (\<lambda>xs. QVector_resize_fits sizeofT (int (length xs)) \<and> (\<forall>x \<in> set xs. storable x))"
  using stream_type.writes_QVector [OF assms(1)] stream_type.reads_QVector [OF assms(1)]
    stream_type.QVector_encode [OF assms(1) _ assms(2)]
  by unfold_locales (auto simp: enc_QList_def)

interpretation QStringList: stream_type "write_QList P (write_QString P)" "read_QList P (read_QString P)"
    "enc_QList (enc_QString (HostEndian P))" "dec_QList (dec_QString (HostEndian P))"
    "\<lambda>xs. length xs < 268435456 \<and> (\<forall>x \<in> set xs. QString_ok x)" for P
  by (rule stream_type_QList) (rule QString.stream_type_axioms)

interpretation QVector_int: stream_type "write_QVector P (write_int P)" "read_QVector P 4 (read_int P)"
    "enc_QList enc_int" "dec_QVector 4 dec_int"
    "\<lambda>xs. QVector_resize_fits 4 (int (length xs)) \<and> (\<forall>x \<in> set xs. in32 x)" for P
  by (rule stream_type_QVector) (rule int.stream_type_axioms, simp)

end
