(* ===== verification/StreamTyped.thy ===== *)
theory StreamTyped
  imports StreamArrays
begin

text \<open>
  What the decoders give is within the invariant of its type, whatever the bytes.  \<open>decodes d Q\<close> says that every value of
  the decoder \<open>d\<close> has the property \<open>Q\<close>.
\<close>

section \<open>What is read is well-formed\<close>

definition decodes :: "'a decoder \<Rightarrow> ('a \<Rightarrow> bool) \<Rightarrow> bool" where
  "decodes d Q \<longleftrightarrow> (\<forall>bs x rest st. d bs = Some (x, rest, st) \<longrightarrow> Q x)"

named_theorems stream_typed

lemma decodes_bind:
  assumes "decodes d Q" "\<And>a. Q a \<Longrightarrow> decodes (f a) R"
  shows "decodes (dec_bind d f) R"
  using assms unfolding decodes_def dec_bind_def by (fastforce split: option.splits)

lemma decodes_return: "Q x \<Longrightarrow> decodes (dec_return x st) Q"
  by (simp add: decodes_def dec_return_def)

lemma decodes_any: "decodes d (\<lambda>x. True)"
  by (simp add: decodes_def)

lemma decodes_step: "(\<And>a. decodes (f a) R) \<Longrightarrow> decodes (dec_bind d f) R"
  using decodes_bind [OF decodes_any] .

lemma decodes_int [stream_typed]: "decodes (dec_int bo) in32"
  unfolding dec_int_def by (intro decodes_step decodes_return) simp

lemma decodes_QPoint [stream_typed]: "decodes (dec_QPoint bo) QPoint_ok"
  unfolding dec_QPoint_def by (intro decodes_bind [OF decodes_int] decodes_return) (simp add: QPoint_ok_def QPoint_def)

lemma decodes_QSize [stream_typed]: "decodes (dec_QSize bo) QSize_ok"
  unfolding dec_QSize_def by (intro decodes_bind [OF decodes_int] decodes_return) (simp add: QSize_ok_def QSize_def)

lemma decodes_QLine [stream_typed]: "decodes (dec_QLine bo) QLine_ok"
  unfolding dec_QLine_def
  by (intro decodes_bind [OF decodes_QPoint] decodes_return) (simp add: QLine_ok_def QLine_def QLine_p1_def QLine_p2_def)

lemma decodes_QRect [stream_typed]: "decodes (dec_QRect r bo) QRect_ok"
  unfolding dec_QRect_def by (intro decodes_bind [OF decodes_int] decodes_return) (simp add: QRect_ok_def QRect_setCoords_def)

lemma decodes_QDate [stream_typed]: "decodes (dec_QDate bo) QDate_ok"
proof -
  have "uint (n :: 32 word) < 4294967296" for n using unsigned_less [where w = n and 'a = int] by simp
  then show ?thesis unfolding dec_QDate_def by (intro decodes_step decodes_return) (simp add: QDate_ok_def)
qed

lemma decodes_QTime [stream_typed]: "decodes (dec_QTime bo) QTime_ok"
  unfolding dec_QTime_def by (intro decodes_step decodes_return) (simp add: QTime_ok_def)

lemma decodes_QDateTime [stream_typed]:
  "decodes (dec_QDateTime d bo) (\<lambda>x. QDateTime_ok x \<and> dt_utcOffset x = dt_utcOffset d)"
proof -
  have "-128 \<le> sint b \<and> sint b < 128" for b :: byte using sint_range_size [of b] by (simp add: word_size)
  then show ?thesis unfolding dec_QDateTime_def
    by (intro decodes_bind [OF decodes_QDate] decodes_bind [OF decodes_QTime] decodes_step decodes_return)
      (simp add: QDateTime_ok_def)
qed

lemma decodes_raw: "in32 n \<Longrightarrow> decodes (dec_raw n) (\<lambda>p. length (snd p) < 2147483648)"
  by (auto simp: decodes_def dec_raw_def Let_def in32_def split: if_splits)

lemma decodes_QByteArray [stream_typed]: "decodes (dec_QByteArray bo) QByteArray_ok"
proof -
  have "decodes (dec_bind (dec_raw (sint n)) (\<lambda>p.
      if word_of_int (fst p) \<noteq> n then dec_return None ReadPastEnd else dec_return (Some (snd p)) Ok)) QByteArray_ok" for n :: "32 word"
    by (rule decodes_bind [OF decodes_raw [OF in32_sint]]) (simp add: decodes_return QByteArray_ok_def)
  then show ?thesis unfolding dec_QByteArray_def
    by (intro decodes_step) (simp add: decodes_return QByteArray_ok_def)
qed

text \<open>A string that is read may be empty without being null.\<close>

definition QString_wf :: "16 word list option \<Rightarrow> bool" where
  "QString_wf str \<longleftrightarrow> (case str of None \<Rightarrow> True | Some xs \<Rightarrow> length xs < 1073741824)"

lemma length_chars_at: "length (chars_at host xs) = length xs div 2"
  by (induction host xs rule: chars_at.induct) simp_all

lemma decodes_QString [stream_typed]: "decodes (dec_QString host bo) QString_wf"
proof -
  have "decodes (dec_bind (dec_raw (sint n)) (\<lambda>p.
      if word_of_int (fst p) \<noteq> n then dec_return None ReadPastEnd else dec_return (Some (chars_at host (snd p))) Ok)) QString_wf"
    for n :: "32 word"
    by (rule decodes_bind [OF decodes_raw [OF in32_sint]]) (simp add: decodes_return QString_wf_def length_chars_at)
  then show ?thesis unfolding dec_QString_def
    by (intro decodes_step) (simp add: decodes_return QString_wf_def)
qed

text \<open>The size of an array of bits that is read may exceed an \<open>int\<close>.\<close>

definition QBitArray_wf :: "QBitArray \<Rightarrow> bool" where
  "QBitArray_wf ba \<longleftrightarrow> bits_wf ba \<and> QBitArray_size ba < 4294967289"

lemma QBitArray_wf_Nil: "QBitArray_wf (QBitArray [])"
  by (simp add: QBitArray_wf_def bits_wf_def QBitArray_size_def)

lemma decodes_bits:
  assumes "n \<noteq> 0"
  shows "decodes (dec_bits n (unat ((n + 7) div 8))) QBitArray_wf"
proof (cases "unat n < 4294967289")
  case False
  then have "unat ((n + 7) div 8) = 0" using total_bytes(2) [OF assms] by simp
  then show ?thesis by (simp add: decodes_def dec_bits_def)
next
  case True
  define tb where "tb = (unat n + 7) div 8"
  have pos: "0 < unat n" using assms by (simp add: unat_eq_0 neq0_conv [symmetric])
  have "QBitArray_wf (QBitArray (set_header (unat n) (0 # take tb bs)))"
    if "tb \<le> length bs" "\<not> (\<exists>j. unat n \<le> j \<and> j < 8 * tb \<and> raw_bit (0 # take tb bs) j)" for bs
  proof -
    have l: "length (0 # take tb bs) = 1 + (unat n + 7) div 8" using that(1) by (simp add: tb_def)
    show ?thesis
      using wf_set_header [OF pos l] set_header_props(1) [OF pos l] that(2) True by (auto simp: QBitArray_wf_def tb_def)
  qed
  then show ?thesis
    using dec_bits_nat [OF assms True refl] QBitArray_wf_Nil by (auto simp: decodes_def tb_def split: if_splits)
qed

lemma decodes_QBitArray [stream_typed]: "decodes (dec_QBitArray bo) QBitArray_wf"
  unfolding dec_QBitArray_def
  by (intro decodes_step) (simp add: decodes_return QBitArray_wf_Nil decodes_bits)

lemma decodes_items:
  assumes "decodes d Q"
  shows "decodes (dec_items d c) (\<lambda>xs. length xs \<le> c \<and> (\<forall>x \<in> set xs. Q x))"
    "decodes (dec_elements d c) (\<lambda>xs. length xs = c \<and> (\<forall>x \<in> set xs. Q x))"
proof -
  show "decodes (dec_items d c) (\<lambda>xs. length xs \<le> c \<and> (\<forall>x \<in> set xs. Q x))"
  proof (induction c)
    case (Suc c)
    have "decodes (\<lambda>rest. if rest = [] then Some ([t], rest, Ok)
        else dec_bind (dec_items d c) (\<lambda>ts. dec_return (t # ts) Ok) rest) (\<lambda>xs. length xs \<le> Suc c \<and> (\<forall>x \<in> set xs. Q x))"
      if "Q t" for t
    proof -
      have "decodes (dec_bind (dec_items d c) (\<lambda>ts. dec_return (t # ts) Ok)) (\<lambda>xs. length xs \<le> Suc c \<and> (\<forall>x \<in> set xs. Q x))"
        using that by (intro decodes_bind [OF Suc.IH] decodes_return) simp
      then show ?thesis using that by (simp add: decodes_def)
    qed
    from decodes_bind [OF assms this] show ?case by (simp add: decodes_def)
  qed (simp add: decodes_def)
  show "decodes (dec_elements d c) (\<lambda>xs. length xs = c \<and> (\<forall>x \<in> set xs. Q x))"
  proof (induction c)
    case (Suc c)
    have "decodes (dec_bind d (\<lambda>t. dec_bind (dec_elements d c) (\<lambda>ts. dec_return (t # ts) Ok)))
      (\<lambda>xs. length xs = Suc c \<and> (\<forall>x \<in> set xs. Q x))"
      by (intro decodes_bind [OF assms] decodes_bind [OF Suc.IH] decodes_return) simp
    then show ?case by (simp add: decodes_def)
  qed (simp add: decodes_def)
qed

end
