(* ===== verification/StreamCut.thy ===== *)
theory StreamCut
  imports StreamArrays
begin

text \<open>
  Input that ends early.  \<open>cut_short d e Q\<close> says that the decoder \<open>d\<close> on a proper prefix of the bytes \<open>e\<close> gives a value with
  the property \<open>Q\<close>, takes all the bytes and reports the end of the data.
\<close>

unbundle bit_operations_syntax

definition cut_short :: "'a decoder \<Rightarrow> byte list \<Rightarrow> ('a \<Rightarrow> bool) \<Rightarrow> bool" where
  "cut_short d e Q \<longleftrightarrow> (\<forall>p q. e = p @ q \<and> q \<noteq> [] \<longrightarrow> (\<exists>x. d p = Some (x, [], ReadPastEnd) \<and> Q x))"

definition ends :: "'a decoder \<Rightarrow> ('a \<Rightarrow> bool) \<Rightarrow> bool" where
  "ends d Q \<longleftrightarrow> (\<exists>x st. d [] = Some (x, [], st) \<and> Q x)"

lemma ends_bind: "ends d Q \<Longrightarrow> (\<And>a. Q a \<Longrightarrow> ends (f a) R) \<Longrightarrow> ends (dec_bind d f) R"
  unfolding ends_def dec_bind_def by fastforce

lemma ends_return: "Q x \<Longrightarrow> ends (dec_return x st) Q"
  by (simp add: ends_def dec_return_def)

lemma cut_return: "cut_short (dec_return x st) [] Q"
  by (simp add: cut_short_def)

lemma cut_bind:
  assumes "cut_short d e Q" "\<And>a. Q a \<Longrightarrow> ends (f a) R" "\<And>ys. d (e @ ys) = Some (a, ys, Ok)" "cut_short (f a) e' R"
  shows "cut_short (dec_bind d f) (e @ e') R"
  unfolding cut_short_def
proof (intro allI impI)
  fix p q
  assume pq: "e @ e' = p @ q \<and> q \<noteq> []"
  then consider r where "e = p @ r" "r \<noteq> []" | r where "p = e @ r" "e' = r @ q"
    by (auto simp: append_eq_append_conv2) (metis append_self_conv)
  then show "\<exists>x. dec_bind d f p = Some (x, [], ReadPastEnd) \<and> R x"
  proof cases
    case 1
    then obtain b where b: "d p = Some (b, [], ReadPastEnd)" "Q b" using assms(1) by (auto simp: cut_short_def)
    then obtain x st where "f b [] = Some (x, [], st)" "R x" using assms(2) [OF b(2)] by (auto simp: ends_def)
    then show ?thesis using b by (simp add: dec_bind_def joined_def)
  next
    case 2
    then obtain x where "f a r = Some (x, [], ReadPastEnd)" "R x" using assms(4) pq by (auto simp: cut_short_def)
    then show ?thesis using 2 assms(3) by (simp add: dec_bind_def)
  qed
qed

lemma cut_last:
  assumes "cut_short d e Q" "\<And>a. Q a \<Longrightarrow> ends (f a) R" "\<And>ys. d (e @ ys) = Some (a, ys, Ok)" "cut_short (f a) [] R"
  shows "cut_short (dec_bind d f) e R"
  using cut_bind [of d e Q f R a "[]"] assms by simp

section \<open>Numbers, geometry, dates and times\<close>

lemma cut_number:
  assumes "LENGTH('a) mod 8 = 0"
  shows "cut_short (dec_number bo) (memory_of bo (i :: 'a::len word)) (\<lambda>x :: 'a word. x = 0)"
proof -
  have "length p < LENGTH('a) div 8" if "memory_of bo i = p @ q" "q \<noteq> []" for p q
  proof -
    have "length (p @ q) = LENGTH('a) div 8" using memory_props(1) [OF assms, of bo i] that(1) by simp
    then show ?thesis using that(2) by (cases q) auto
  qed
  then show ?thesis by (auto simp: cut_short_def dec_number_def)
qed

lemma ends_number: "0 < LENGTH('a) div 8 \<Longrightarrow> ends (dec_number bo) (\<lambda>x :: 'a::len word. x = 0)"
  by (simp add: ends_def dec_number_def)

lemma cut_qint8: "cut_short dec_qint8 [b] (\<lambda>x. x = 0)" "ends dec_qint8 (\<lambda>x. x = 0)"
  by (auto simp: cut_short_def ends_def Cons_eq_append_conv)

lemmas cut_numbers = cut_number [where 'a = 16, simplified] cut_number [where 'a = 32, simplified] cut_number [where 'a = 64, simplified]
lemmas ends_numbers = ends_number [where 'a = 32, simplified]

lemma cut_bool: "cut_short dec_bool [of_bool b] (\<lambda>x. True)"
  unfolding dec_bool_def by (rule cut_last [OF cut_qint8(1)]) (auto intro: ends_return cut_return)

text \<open>Decoders whose results do not depend on the bytes that are there.\<close>

abbreviation cuts :: "'a decoder \<Rightarrow> byte list \<Rightarrow> bool" where
  "cuts d e \<equiv> cut_short d e (\<lambda>x. True)"

abbreviation ending :: "'a decoder \<Rightarrow> bool" where
  "ending d \<equiv> ends d (\<lambda>x. True)"

lemma ending_return: "ending (dec_return x st)"
  by (simp add: ends_return)

lemma cuts_map:
  assumes "cut_short d e Q" "\<And>ys. d (e @ ys) = Some (a, ys, Ok)"
  shows "cuts (dec_bind d (\<lambda>x. dec_return (f x) Ok)) e"
  by (rule cut_last [OF assms(1) _ assms(2)]) (simp_all add: ending_return cut_return)

lemma ending_step: "ends d Q \<Longrightarrow> (\<And>a. ending (f a)) \<Longrightarrow> ending (dec_bind d f)"
  using ends_bind [of d Q f] by blast

lemma cuts_bind:
  assumes "cuts d e" "\<And>ys. d (e @ ys) = Some (a, ys, Ok)" "cuts (f a) e'" "\<And>a. ending (f a)"
  shows "cuts (dec_bind d f) (e @ e')"
  by (rule cut_bind [of d e "\<lambda>x. True" f "\<lambda>x. True" a]) (use assms in simp_all)

named_theorems cut_intros

lemma cuts_int: "in32 i \<Longrightarrow> cuts (dec_int bo) (enc_int bo i)"
  unfolding dec_int_def enc_int_def by (rule cuts_map [OF cut_numbers(2)]) (simp add: dec_numbers)

lemma ending_int: "ending (dec_int bo)"
  unfolding dec_int_def by (rule ending_step [OF ends_numbers ending_return])

lemmas [cut_intros] = ending_return ending_step [OF ending_int] cuts_bind [OF cuts_int dec_int_enc(1)]
  cuts_map [OF cuts_int dec_int_enc(1)]

lemma cuts_QPoint: "QPoint_ok p \<Longrightarrow> cuts (dec_QPoint bo) (enc_QPoint bo p)"
  unfolding dec_QPoint_def enc_QPoint_def QPoint_ok_def by (auto intro!: cut_intros)

lemma ending_QPoint: "ending (dec_QPoint bo)"
  unfolding dec_QPoint_def by (intro cut_intros)

lemmas [cut_intros] = ending_step [OF ending_QPoint] cuts_bind [OF cuts_QPoint dec_QPoint_enc(1)]
  cuts_map [OF cuts_QPoint dec_QPoint_enc(1)]

lemma cuts_QSize: "QSize_ok z \<Longrightarrow> cuts (dec_QSize bo) (enc_QSize bo z)"
  unfolding dec_QSize_def enc_QSize_def QSize_ok_def by (auto intro!: cut_intros)

lemma cuts_QLine: "QLine_ok l \<Longrightarrow> cuts (dec_QLine bo) (enc_QLine bo l)"
  unfolding dec_QLine_def enc_QLine_def QLine_ok_def by (auto intro!: cut_intros)

lemma cuts_QRect: "QRect_ok x \<Longrightarrow> cuts (dec_QRect r bo) (enc_QRect bo x)"
  unfolding dec_QRect_def enc_QRect_def QRect_ok_def QRect_left_def QRect_top_def QRect_right_def QRect_bottom_def
  by (auto intro!: cut_intros)

lemma cuts_QDate: "cuts (dec_QDate bo) (enc_QDate bo d)"
  unfolding dec_QDate_def enc_QDate_def by (rule cuts_map [OF cut_numbers(2)]) (simp add: dec_numbers)

lemma cuts_QTime: "cuts (dec_QTime bo) (enc_QTime bo t)"
  unfolding dec_QTime_def enc_QTime_def by (rule cuts_map [OF cut_numbers(2)]) (simp add: dec_numbers)

lemma ending_QTime: "ending (dec_QTime bo)"
  unfolding dec_QTime_def by (rule ending_step [OF ends_numbers ending_return])

lemma cuts_QDateTime: "QDateTime_ok x \<Longrightarrow> cuts (dec_QDateTime d bo) (enc_QDateTime bo x)"
  unfolding dec_QDateTime_def enc_QDateTime_def QDateTime_ok_def
  by (auto intro!: cuts_bind [OF cuts_QDate dec_QDate_enc(1)] cuts_bind [OF cuts_QTime dec_QTime_enc(1)]
      cuts_map [OF cut_qint8(1)] ending_step [OF ending_QTime] ending_step [OF cut_qint8(2)] ending_return)

section \<open>Arrays and lists\<close>

lemma ends_raw: "ending (dec_raw n)"
  by (auto simp: ends_def dec_raw_def Let_def)

text \<open>Raw data that is shorter than its length says.\<close>

lemma cut_raw:
  assumes "length xs < 2147483648"
  shows "cuts (dec_bind (dec_raw (sint (of_nat (length xs) :: 32 word))) (\<lambda>p.
    if word_of_int (fst p) \<noteq> (of_nat (length xs) :: 32 word) then dec_return None ReadPastEnd else dec_return (g (snd p)) Ok)) xs"
  unfolding cut_short_def
proof (intro allI impI)
  fix p q
  assume pq: "xs = p @ q \<and> q \<noteq> []"
  then have less: "length p < length xs" by simp
  then have "unat (word_of_int (int (length p)) :: 32 word) \<noteq> unat (of_nat (length xs) :: 32 word)"
    using assms small_word(3,4) by simp
  then have "word_of_int (int (length p)) \<noteq> (of_nat (length xs) :: 32 word)" by metis
  then show "\<exists>x. dec_bind (dec_raw (sint (of_nat (length xs) :: 32 word))) (\<lambda>p.
      if word_of_int (fst p) \<noteq> (of_nat (length xs) :: 32 word) then dec_return None ReadPastEnd else dec_return (g (snd p)) Ok) p =
    Some (x, [], ReadPastEnd) \<and> True"
    using less small_word(1) [OF assms] by (simp add: dec_defs dec_raw_def)
qed

lemma cuts_number_then:
  assumes "ending (f 0)" "cuts (f i) e"
  shows "cuts (dec_bind (dec_number bo) f) (memory_of bo (i :: 32 word) @ e)"
  by (rule cut_bind [OF cut_numbers(2)]) (use assms in \<open>auto simp: dec_numbers\<close>)

lemma cuts_number_last:
  "ending (f 0) \<Longrightarrow> f i = dec_return x st \<Longrightarrow> cuts (dec_bind (dec_number bo) f) (memory_of bo (i :: 32 word))"
  using cuts_number_then [of f i "[]" bo] by (simp add: cut_return)

lemma cuts_QByteArray:
  assumes "QByteArray_ok ba"
  shows "cuts (dec_QByteArray bo) (enc_QByteArray bo ba)"
proof -
  have z: "ending (dec_bind (dec_raw 0) (\<lambda>p.
      if word_of_int (fst p) \<noteq> (0 :: 32 word) then dec_return None ReadPastEnd else dec_return (Some (snd p)) Ok))"
    by (rule ending_step [OF ends_raw]) (simp add: ending_return)
  show ?thesis
  proof (cases ba)
    case None
    show ?thesis
      unfolding dec_QByteArray_def enc_QByteArray_def None option.case by (rule cuts_number_last) (use z in simp_all)
  next
    case (Some xs)
    then have l: "length xs < 2147483648" using assms by (simp add: QByteArray_ok_def)
    show ?thesis
      unfolding dec_QByteArray_def enc_QByteArray_def Some option.case
      by (rule cuts_number_then) (use z cut_raw [OF l, of Some] small_word(2) [OF l] in simp_all)
  qed
qed

lemma cuts_QString:
  assumes "QString_ok str"
  shows "cuts (dec_QString host bo) (enc_QString host bo str)"
proof (cases str)
  case None
  show ?thesis
    unfolding dec_QString_def enc_QString_def None option.case by (rule cuts_number_last) (simp_all add: ending_return)
next
  case (Some xs)
  then obtain c cs where cs: "str = Some (c # cs)" "length (c # cs) < 1073741824"
    using assms by (cases xs) (auto simp: QString_ok_def)
  define bs where "bs = concat (map (memory_of host) (c # cs))"
  have bs: "length bs = length (c # cs) * 2" "length bs < 2147483648" "0 < length bs"
    using cs(2) length_chars [of host "c # cs"] by (simp_all add: bs_def)
  have "2 dvd (of_nat (length bs) :: 32 word)" unfolding bs(1) of_nat_mult of_nat_numeral by (rule dvd_triv_right)
  then have odd: "(of_nat (length bs) :: 32 word) AND 1 = 0" unfolding and_one_eq by (simp only: even_iff_mod_2_eq_zero)
  have pos: "(of_nat (length bs) :: 32 word) > 0"
    using bs(3) small_word(4) [OF bs(2)] by (simp add: word_greater_zero_iff unat_eq_0 [symmetric])
  have "enc_QString host bo str = memory_of bo (of_nat (length bs) :: 32 word) @ bs"
    by (simp only: enc_QString_def cs(1) option.case list.case bs(1)) (simp only: bs_def)
  moreover have "cuts (dec_bind (dec_number bo) (\<lambda>n :: 32 word.
      if n = 0xFFFFFFFF then dec_return None Ok
      else if n > 0 then
        (if n AND 1 \<noteq> 0 then dec_return None ReadCorruptData
         else dec_bind (dec_raw (sint n)) (\<lambda>p.
           if word_of_int (fst p) \<noteq> n then dec_return None ReadPastEnd
           else dec_return (Some (chars_at host (snd p))) Ok))
      else dec_return (Some []) Ok)) (memory_of bo (of_nat (length bs) :: 32 word) @ bs)"
    by (rule cuts_number_then)
      (use odd pos small_word(2) [OF bs(2)] cut_raw [OF bs(2), of "\<lambda>p. Some (chars_at host p)"] in \<open>simp_all add: ending_return\<close>)
  ultimately show ?thesis by (simp only: dec_QString_def)
qed

lemma cuts_QBitArray:
  assumes "QBitArray_ok ba"
  shows "cuts (dec_QBitArray bo) (enc_QBitArray bo ba)"
proof (cases "bytes ba = []")
  case True
  then have "enc_QBitArray bo ba = memory_of bo (0 :: 32 word) @ []" by (simp add: enc_QBitArray_def QBitArray_size_def)
  then show ?thesis
    unfolding dec_QBitArray_def by (simp only:) (rule cuts_number_then, simp_all add: ending_return cut_return)
next
  case False
  note b = QBitArray_ok_word [OF assms False]
  have "cuts (dec_bits (of_nat (QBitArray_size ba)) (unat ((of_nat (QBitArray_size ba) + 7 :: 32 word) div 8))) (tl (bytes ba))"
    unfolding cut_short_def
  proof (intro allI impI)
    fix p q
    assume pq: "tl (bytes ba) = p @ q \<and> q \<noteq> []"
    then have "length p < length (tl (bytes ba))" by simp
    then show "\<exists>x. dec_bits (of_nat (QBitArray_size ba)) (unat ((of_nat (QBitArray_size ba) + 7 :: 32 word) div 8)) p =
        Some (x, [], ReadPastEnd) \<and> True"
      using dec_bits_nat [OF b(3) _ refl] b(2,4,7) by simp
  qed
  then show ?thesis
    unfolding dec_QBitArray_def enc_QBitArray_def using b(1,3)
    by simp (rule cuts_number_then, simp_all add: ending_return)
qed

lemma ending_elements: "ending d \<Longrightarrow> ending (dec_elements d c)"
proof (induction c)
  case (Suc c)
  then have "ending (dec_bind d (\<lambda>t. dec_bind (dec_elements d c) (\<lambda>ts. dec_return (t # ts) Ok)))"
    by (intro ending_step [of d] ending_step [of "dec_elements d c"] ending_return)
  then show ?case by (simp add: ends_def)
qed (simp add: ends_def)

context stream_type begin

lemma cuts_elements:
  assumes "\<And>x. storable x \<Longrightarrow> cuts (decode bo) (encode bo x)" "ending (decode bo)" "\<forall>x \<in> set xs. storable x"
  shows "cuts (dec_elements (decode bo) (length xs)) (concat (map (encode bo) xs))"
  using assms(3)
proof (induction xs)
  case (Cons x xs)
  have "cuts (dec_bind (dec_elements (decode bo) (length xs)) (\<lambda>ts. dec_return (x # ts) Ok)) (concat (map (encode bo) xs))"
    by (rule cuts_map [where a = xs]) (use Cons elements_encode in auto)
  then have "cuts (dec_bind (decode bo) (\<lambda>t. dec_bind (dec_elements (decode bo) (length xs)) (\<lambda>ts. dec_return (t # ts) Ok)))
      (encode bo x @ concat (map (encode bo) xs))"
    using Cons.prems assms(1) decode_encode
    by (intro cuts_bind [where a = x] ending_step [OF ending_elements [OF assms(2)]] ending_return) auto
  then show ?case by (simp add: cut_short_def)
qed (simp add: cut_short_def)

lemma cuts_QVector:
  assumes "\<And>x. storable x \<Longrightarrow> cuts (decode bo) (encode bo x)" "ending (decode bo)" "\<forall>x \<in> set xs. storable x"
    "QVector_resize_fits sizeofT (int (length xs))" "0 < sizeofT"
  shows "cuts (dec_QVector sizeofT decode bo) (enc_QList encode bo xs)"
  unfolding dec_QVector_def enc_QList_def
  by (rule cuts_number_then)
    (use cuts_elements [OF assms(1-3)] small_word [OF QVector_count [OF assms(4,5)]] assms(4) in \<open>simp_all add: ends_def\<close>)

text \<open>The loop of \<open>QList\<close> stops at the end of the data, whatever the count says.\<close>

lemma items_silent:
  assumes "\<forall>x \<in> set xs. storable x" "xs \<noteq> []" "length xs \<le> c"
  shows "dec_items (decode bo) c (concat (map (encode bo) xs)) = Some (xs, [], Ok)"
  using assms
proof (induction xs arbitrary: c)
  case (Cons x xs)
  then obtain c' where c: "c = Suc c'" by (cases c) auto
  have d: "decode bo (encode bo x @ ys) = Some (x, ys, Ok)" for ys using Cons.prems decode_encode by simp
  show ?case
  proof (cases xs)
    case Nil
    then show ?thesis using d [of "[]"] c by (simp add: dec_bind_def)
  next
    case (Cons y ys)
    then have "concat (map (encode bo) xs) \<noteq> []" using Cons.prems encode_bytes by auto
    then show ?thesis using Cons.IH [of c'] Cons.prems c d \<open>xs = y # ys\<close> by (simp add: dec_bind_def dec_return_def)
  qed
qed simp

lemma QList_silent:
  assumes "\<forall>x \<in> set xs. storable x" "xs \<noteq> []" "length xs \<le> c" "c < 268435456"
  shows "dec_QList decode bo (memory_of bo (of_nat c :: 32 word) @ concat (map (encode bo) xs)) = Some (xs, [], Ok)"
  using items_silent [OF assms(1-3)] small_count [OF assms(4)]
  by (simp add: dec_QList_def dec_bind_def dec_number_memory)

end

end
