(* ===== verification/StreamSpec.thy ===== *)
theory StreamSpec
  imports StreamTyped StreamCut
begin

text \<open>
  Values of all modelled types on one stream: what is written is read again, what is read depends on the unread bytes and the
  byte orders alone, an array of bits is read exactly, and an input that ends early is reported, except in a QList.
\<close>

section \<open>A value of any type\<close>

datatype stream_value =
    VByte byte | VShort "16 word" | VWord "32 word" | VLong "64 word" | VBool bool | VInt int
  | VBytes "byte list option" | VBits QBitArray | VString "16 word list option"
  | VPoint qpoint | VSize qsize | VLine qline | VRect qrect | VDate qdate | VTime qtime | VDateTime QDateTime
  | VStrings "16 word list option list" | VInts "int list"

datatype stream_kind =
    KByte | KShort | KWord | KLong | KBool | KInt | KBytes | KBits | KString
  | KPoint | KSize | KLine | KRect | KDate | KTime | KDateTime | KStrings | KInts

fun kind_of :: "stream_value \<Rightarrow> stream_kind" where
  "kind_of (VByte x) = KByte" | "kind_of (VShort x) = KShort" | "kind_of (VWord x) = KWord" | "kind_of (VLong x) = KLong"
| "kind_of (VBool x) = KBool" | "kind_of (VInt x) = KInt" | "kind_of (VBytes x) = KBytes" | "kind_of (VBits x) = KBits"
| "kind_of (VString x) = KString" | "kind_of (VPoint x) = KPoint" | "kind_of (VSize x) = KSize" | "kind_of (VLine x) = KLine"
| "kind_of (VRect x) = KRect" | "kind_of (VDate x) = KDate" | "kind_of (VTime x) = KTime"
| "kind_of (VDateTime x) = KDateTime" | "kind_of (VStrings x) = KStrings" | "kind_of (VInts x) = KInts"

text \<open>The value is read into a default-constructed object.\<close>

fun write_value :: "platform \<Rightarrow> stream_value \<Rightarrow> QDataStream \<Rightarrow> QDataStream option" where
  "write_value P (VByte x) = write_qint8 P x"
| "write_value P (VShort x) = write_qint16 P x"
| "write_value P (VWord x) = write_qint32 P x"
| "write_value P (VLong x) = write_qint64 P x"
| "write_value P (VBool x) = write_bool P x"
| "write_value P (VInt x) = write_int P x"
| "write_value P (VBytes x) = write_QByteArray P x"
| "write_value P (VBits x) = write_QBitArray P x"
| "write_value P (VString x) = write_QString P x"
| "write_value P (VPoint x) = write_QPoint P x"
| "write_value P (VSize x) = write_QSize P x"
| "write_value P (VLine x) = write_QLine P x"
| "write_value P (VRect x) = write_QRect P x"
| "write_value P (VDate x) = write_QDate P x"
| "write_value P (VTime x) = write_QTime P x"
| "write_value P (VDateTime x) = write_QDateTime P x"
| "write_value P (VStrings x) = write_QList P (write_QString P) x"
| "write_value P (VInts x) = write_QVector P (write_int P) x"

definition as_value :: "('a \<Rightarrow> 'b) \<Rightarrow> (QDataStream \<Rightarrow> ('a \<times> QDataStream) option) \<Rightarrow> QDataStream \<Rightarrow> ('b \<times> QDataStream) option" where
  "as_value V read s = do { (x, s) \<leftarrow> read s; Some (V x, s) }"

fun read_value :: "platform \<Rightarrow> stream_kind \<Rightarrow> QDataStream \<Rightarrow> (stream_value \<times> QDataStream) option" where
  "read_value P KByte = as_value VByte (read_qint8 P)"
| "read_value P KShort = as_value VShort (read_qint16 P)"
| "read_value P KWord = as_value VWord (read_qint32 P)"
| "read_value P KLong = as_value VLong (read_qint64 P)"
| "read_value P KBool = as_value VBool (read_bool P)"
| "read_value P KInt = as_value VInt (read_int P)"
| "read_value P KBytes = as_value VBytes (read_QByteArray P)"
| "read_value P KBits = as_value VBits (read_QBitArray P)"
| "read_value P KString = as_value VString (read_QString P)"
| "read_value P KPoint = as_value VPoint (read_QPoint P)"
| "read_value P KSize = as_value VSize (read_QSize P)"
| "read_value P KLine = as_value VLine (read_QLine P)"
| "read_value P KRect = as_value VRect (read_QRect P QRect0)"
| "read_value P KDate = as_value VDate (read_QDate P)"
| "read_value P KTime = as_value VTime (read_QTime P)"
| "read_value P KDateTime = as_value VDateTime (read_QDateTime P QDateTime0)"
| "read_value P KStrings = as_value VStrings (read_QList P (read_QString P))"
| "read_value P KInts = as_value VInts (read_QVector P 4 (read_int P))"

fun read_values :: "platform \<Rightarrow> stream_kind list \<Rightarrow> QDataStream \<Rightarrow> (stream_value list \<times> QDataStream) option" where
  "read_values P [] s = Some ([], s)"
| "read_values P (k # ks) s = do { (v, s) \<leftarrow> read_value P k s; (vs, s) \<leftarrow> read_values P ks s; Some (v # vs, s) }"

text \<open>The values that are stored without loss.\<close>

fun value_ok :: "stream_value \<Rightarrow> bool" where
  "value_ok (VInt x) = in32 x"
| "value_ok (VBytes x) = QByteArray_ok x"
| "value_ok (VBits x) = QBitArray_ok x"
| "value_ok (VString x) = QString_ok x"
| "value_ok (VPoint x) = QPoint_ok x"
| "value_ok (VSize x) = QSize_ok x"
| "value_ok (VLine x) = QLine_ok x"
| "value_ok (VRect x) = QRect_ok x"
| "value_ok (VDate x) = QDate_ok x"
| "value_ok (VTime x) = QTime_ok x"
| "value_ok (VDateTime x) = (QDateTime_ok x \<and> dt_utcOffset x = dt_utcOffset QDateTime0)"
| "value_ok (VStrings x) = (length x < 268435456 \<and> (\<forall>str \<in> set x. QString_ok str))"
| "value_ok (VInts x) = (QVector_resize_fits 4 (int (length x)) \<and> (\<forall>i \<in> set x. in32 i))"
| "value_ok v = True"

section \<open>Their encoding\<close>

fun enc_value :: "ByteOrder \<Rightarrow> ByteOrder \<Rightarrow> stream_value \<Rightarrow> byte list" where
  "enc_value host bo (VByte x) = [x]"
| "enc_value host bo (VShort x) = memory_of bo x"
| "enc_value host bo (VWord x) = memory_of bo x"
| "enc_value host bo (VLong x) = memory_of bo x"
| "enc_value host bo (VBool x) = [of_bool x]"
| "enc_value host bo (VInt x) = enc_int bo x"
| "enc_value host bo (VBytes x) = enc_QByteArray bo x"
| "enc_value host bo (VBits x) = enc_QBitArray bo x"
| "enc_value host bo (VString x) = enc_QString host bo x"
| "enc_value host bo (VPoint x) = enc_QPoint bo x"
| "enc_value host bo (VSize x) = enc_QSize bo x"
| "enc_value host bo (VLine x) = enc_QLine bo x"
| "enc_value host bo (VRect x) = enc_QRect bo x"
| "enc_value host bo (VDate x) = enc_QDate bo x"
| "enc_value host bo (VTime x) = enc_QTime bo x"
| "enc_value host bo (VDateTime x) = enc_QDateTime bo x"
| "enc_value host bo (VStrings x) = enc_QList (enc_QString host) bo x"
| "enc_value host bo (VInts x) = enc_QList enc_int bo x"

definition dec_as :: "('a \<Rightarrow> 'b) \<Rightarrow> 'a decoder \<Rightarrow> 'b decoder" where
  "dec_as V d = dec_bind d (\<lambda>x. dec_return (V x) Ok)"

fun dec_value :: "ByteOrder \<Rightarrow> stream_kind \<Rightarrow> ByteOrder \<Rightarrow> stream_value decoder" where
  "dec_value host KByte bo = dec_as VByte dec_qint8"
| "dec_value host KShort bo = dec_as VShort (dec_number bo)"
| "dec_value host KWord bo = dec_as VWord (dec_number bo)"
| "dec_value host KLong bo = dec_as VLong (dec_number bo)"
| "dec_value host KBool bo = dec_as VBool dec_bool"
| "dec_value host KInt bo = dec_as VInt (dec_int bo)"
| "dec_value host KBytes bo = dec_as VBytes (dec_QByteArray bo)"
| "dec_value host KBits bo = dec_as VBits (dec_QBitArray bo)"
| "dec_value host KString bo = dec_as VString (dec_QString host bo)"
| "dec_value host KPoint bo = dec_as VPoint (dec_QPoint bo)"
| "dec_value host KSize bo = dec_as VSize (dec_QSize bo)"
| "dec_value host KLine bo = dec_as VLine (dec_QLine bo)"
| "dec_value host KRect bo = dec_as VRect (dec_QRect QRect0 bo)"
| "dec_value host KDate bo = dec_as VDate (dec_QDate bo)"
| "dec_value host KTime bo = dec_as VTime (dec_QTime bo)"
| "dec_value host KDateTime bo = dec_as VDateTime (dec_QDateTime QDateTime0 bo)"
| "dec_value host KStrings bo = dec_as VStrings (dec_QList (dec_QString host) bo)"
| "dec_value host KInts bo = dec_as VInts (dec_QVector 4 dec_int bo)"

fun dec_values :: "ByteOrder \<Rightarrow> stream_kind list \<Rightarrow> ByteOrder \<Rightarrow> stream_value list decoder" where
  "dec_values host [] bo = dec_return [] Ok"
| "dec_values host (k # ks) bo =
    dec_bind (dec_value host k bo) (\<lambda>v. dec_bind (dec_values host ks bo) (\<lambda>vs. dec_return (v # vs) Ok))"

lemma reads_as: "reads read d \<Longrightarrow> reads (as_value V read) (\<lambda>bo. dec_as V (d bo))"
  unfolding as_value_def [abs_def] dec_as_def [abs_def] by (intro stream_intros)

lemma reads_value: "reads (read_value P k) (dec_value (HostEndian P) k)"
proof -
  have "reads (read_value P k) (\<lambda>bo. dec_value (HostEndian P) k bo)"
    by (cases k; simp only: read_value.simps dec_value.simps; rule reads_as;
        intro stream_intros QStringList.reads QVector_int.reads)
  then show ?thesis .
qed

lemma reads_values: "reads (read_values P ks) (dec_values (HostEndian P) ks)"
proof (induction ks)
  case Nil
  then show ?case by (simp add: reads_def dec_return_def)
next
  case (Cons k ks)
  have "reads (\<lambda>s. do { (vs, s) \<leftarrow> read_values P ks s; Some (v # vs, s) })
      (\<lambda>bo. dec_bind (dec_values (HostEndian P) ks bo) (\<lambda>vs. dec_return (v # vs) Ok))" for v
    by (intro stream_intros Cons.IH)
  from reads_bind [OF reads_value this] show ?case by (simp add: reads_def)
qed

lemma writes_value: "value_ok v \<Longrightarrow> writes (write_value P v) (\<lambda>bo. enc_value (HostEndian P) bo v)"
  by (cases v; simp only: write_value.simps enc_value.simps value_ok.simps;
      intro stream_intros QStringList.writes QVector_int.writes; simp)

lemma dec_as_encode: "d bs = Some (x, ys, Ok) \<Longrightarrow> dec_as V d bs = Some (V x, ys, Ok)"
  by (simp add: dec_as_def dec_defs)

lemma dec_value_encode:
  assumes "value_ok v"
  shows "dec_value host (kind_of v) bo (enc_value host bo v @ ys) = Some (v, ys, Ok)"
proof (cases v)
  case (VStrings x)
  then show ?thesis
    using QStringList.decode_encode [where P = "\<lparr>HostEndian = host, uninit = \<lambda>i. 0\<rparr>" and x = x and bo = bo and ys = ys] assms
    by (auto intro!: dec_as_encode)
next
  case (VInts x)
  then show ?thesis using QVector_int.decode_encode [of x bo ys] assms by (auto intro!: dec_as_encode)
qed (use assms in \<open>auto intro!: dec_as_encode
  simp: dec_numbers dec_bool_enc [of True, simplified] dec_bool_enc [of False, simplified] dec_int_enc dec_QByteArray_enc dec_QBitArray_enc dec_QString_enc dec_QPoint_enc
    dec_QSize_enc dec_QLine_enc dec_QRect_enc dec_QDate_enc dec_QTime_enc dec_QDateTime_enc\<close>)

lemma writes_values:
  "\<forall>v \<in> set vs. value_ok v \<Longrightarrow>
   writes (write_all (write_value P) vs) (\<lambda>bo. concat (map (enc_value (HostEndian P) bo) vs))"
proof (induction vs)
  case Nil
  have "write_all (write_value P) [] = Some" by (rule ext) simp
  then show ?case using writes_return by simp
next
  case (Cons v vs)
  have "write_all (write_value P) (v # vs) = (\<lambda>s. do { s \<leftarrow> write_value P v s; write_all (write_value P) vs s })"
    by (rule ext) simp
  then show ?case using writes_bind [OF writes_value [of v P] Cons.IH] Cons.prems by simp
qed

lemma dec_values_encode:
  "\<forall>v \<in> set vs. value_ok v \<Longrightarrow>
   dec_values host (map kind_of vs) bo (concat (map (enc_value host bo) vs) @ ys) = Some (vs, ys, Ok)"
  by (induction vs) (simp_all add: dec_defs dec_value_encode)

section \<open>Streams on byte arrays\<close>

lemma data_stream:
  defines "s P bo xs \<equiv> setByteOrder bo (QDataStream_data P xs)"
  shows "reading (s P bo xs)" "remaining (s P bo xs) = xs" "byteorder (s P bo xs) = bo" "q_status (s P bo xs) = Ok"
proof -
  have "QBuffer_setData xs (new_QBuffer []) = new_QBuffer xs" by (simp add: QBuffer_setData_def new_QBuffer_def isOpen_def)
  moreover obtain d where "QBuffer_open ReadOnly (new_QBuffer xs) = (True, d)" "dev_ok d" "file_of d = opened_file ReadOnly xs"
    "isReadable d" "\<not> isTextModeEnabled d"
    using QBuffer_open_ok [of ReadOnly xs]
    by (auto simp: ReadOnly_def WriteOnly_def AppendMode_def TruncateMode_def TextMode_def)
  ultimately show "reading (s P bo xs)" "remaining (s P bo xs) = xs" "byteorder (s P bo xs) = bo" "q_status (s P bo xs) = Ok"
    by (simp_all add: s_def setByteOrder_def QDataStream_data_def reading_def remaining_def opened_file_def
        ReadOnly_def AppendMode_def TruncateMode_def)
qed

lemma append_stream:
  defines "s P bo a \<equiv> setByteOrder bo (QDataStream_array P a AppendMode)"
  shows "writing (s P bo a)" "written (s P bo a) = a" "byteorder (s P bo a) = bo"
proof -
  obtain d where d: "QBuffer_open AppendMode (new_QBuffer a) = (True, d)" "dev_ok d" "file_of d = opened_file AppendMode a"
    "isWritable d"
    using QBuffer_open_ok [of AppendMode a]
    by (auto simp: ReadOnly_def WriteOnly_def AppendMode_def TruncateMode_def TextMode_def)
  then have "contents d = a" "front d = QBuffer_size d" "unread (buffer d) = []"
    by (auto simp: file_of_def opened_file_def dev_ok_def QBuffer_size_def AppendMode_def TruncateMode_def)
  with d show "writing (s P bo a)" "written (s P bo a) = a" "byteorder (s P bo a) = bo"
    by (simp_all add: s_def setByteOrder_def QDataStream_array_def writing_def written_def)
qed

lemma read_values_data:
  "case dec_values (HostEndian P) ks bo xs of
     None \<Rightarrow> read_values P ks (setByteOrder bo (QDataStream_data P xs)) = None
   | Some (vs, rest, st) \<Rightarrow>
       \<exists>t. read_values P ks (setByteOrder bo (QDataStream_data P xs)) = Some (vs, t) \<and> q_status t = st \<and>
         remaining t = rest \<and> (QDataStream_atEnd t \<longleftrightarrow> rest = [])"
proof -
  note d = data_stream [of bo P xs]
  from reads_values [of P ks, unfolded reads_def, rule_format, OF d(1)] show ?thesis
    unfolding d by (auto simp: atEnd_reading split: option.splits prod.splits)
qed

lemma read_value_data:
  assumes "dec_value (HostEndian P) k bo xs = Some (v, rest, st)"
  shows "\<exists>t. read_value P k (setByteOrder bo (QDataStream_data P xs)) = Some (v, t) \<and> q_status t = st \<and>
    (QDataStream_atEnd t \<longleftrightarrow> rest = [])"
proof -
  note d = data_stream [of bo P xs]
  from reads_value [of P k, unfolded reads_def, rule_format, OF d(1)] show ?thesis
    unfolding d assms by (auto simp: atEnd_reading)
qed

text \<open>
  C37: values that the format can represent, written behind the bytes of an array, in either byte order and on either machine,
  are read from those bytes, on a machine of the same byte order, as they were, and nothing is left.  \<open>value_ok\<close> leaves out
  what the format loses, a datetime with an offset from UTC and a string that is empty and not null (it is written as null),
  arrays of bits with bits set beyond the size, and what does not fit: byte arrays and arrays of bits of \<open>2 ^ 31\<close> and more,
  strings of \<open>2 ^ 30\<close> characters, lists of \<open>2 ^ 28\<close> items and vectors beyond the bound of \<open>qAllocMore\<close>.
\<close>

theorem QDataStream_roundtrip:
  assumes "\<forall>v \<in> set vs. value_ok v"
  shows "\<exists>t u. write_all (write_value P) vs (setByteOrder bo (QDataStream_array P a AppendMode)) = Some t \<and> q_status t = Ok \<and>
    take (length a) (written t) = a \<and>
    read_values P (map kind_of vs) (setByteOrder bo (QDataStream_data P (drop (length a) (written t)))) = Some (vs, u) \<and>
    q_status u = Ok \<and> QDataStream_atEnd u"
proof -
  define e where "e = concat (map (enc_value (HostEndian P) bo) vs)"
  obtain t where t: "write_all (write_value P) vs (setByteOrder bo (QDataStream_array P a AppendMode)) = Some t" "writing t"
    "written t = a @ e"
    using writes_values [OF assms, of P] append_stream [of bo P a] by (auto simp: writes_def e_def)
  have "dec_values (HostEndian P) (map kind_of vs) bo e = Some (vs, [], Ok)"
    using dec_values_encode [OF assms, of "HostEndian P" bo "[]"] by (simp add: e_def)
  then show ?thesis
    using t read_values_data [of P "map kind_of vs" bo e] by (auto simp: writing_def)
qed

definition example_platform :: platform where
  "example_platform = \<lparr>HostEndian = LittleEndian, uninit = \<lambda>i. 0xCD\<rparr>"

definition example_values :: "stream_value list" where
  "example_values = [VRect \<lparr>x1 = -1, y1 = 0, x2 = 9, y2 = 7\<rparr>, VString None, VBits (QBitArray [13, 5]), VBytes (Some []),
     VDate (QDateJd 2455000), VStrings [Some [0x65, 0x66], None], VInts [-1, 7], VBool True]"

lemma example_values_ok: "\<forall>v \<in> set example_values. value_ok v"
proof -
  have size: "QBitArray_size (QBitArray [13, 5]) = 3" by (simp add: QBitArray_size_def)
  have "\<not> raw_bit [13, 5] j" if "3 \<le> j" "j < 8" for j
  proof -
    have "j = 3 \<or> j = 4 \<or> j = 5 \<or> j = 6 \<or> j = 7" using that by linarith
    then show ?thesis by (auto simp: raw_bit_def bit_iff_odd_drop_bit drop_bit_eq_div)
  qed
  then have "bits_wf (QBitArray [13, 5])" using size by (simp add: bits_wf_def)
  with size show ?thesis
    by (simp add: example_values_def QRect_ok_def QString_ok_def QBitArray_ok_def QByteArray_ok_def QDate_ok_def QVector_resize_fits_def in32_def)
qed

theorem QDataStream_roundtrip_witness:
  "\<exists>t u. write_all (write_value example_platform) example_values
      (setByteOrder BigEndian (QDataStream_array example_platform [1, 2, 3] AppendMode)) = Some t \<and> q_status t = Ok \<and>
    take (length [1, 2, 3 :: byte]) (written t) = [1, 2, 3] \<and>
    read_values example_platform (map kind_of example_values)
      (setByteOrder BigEndian (QDataStream_data example_platform (drop (length [1, 2, 3 :: byte]) (written t)))) =
      Some (example_values, u) \<and>
    q_status u = Ok \<and> QDataStream_atEnd u"
  by (rule QDataStream_roundtrip [OF example_values_ok])

text \<open>
  C38: what a sequence of stream operators reads depends on the unread bytes, the byte order of the stream and that of the
  machine alone: not on what lies before the position, the buffering of the device, the status before (it keeps its first
  error) or the memory that is not initialised.
\<close>

theorem QDataStream_reads_determined:
  assumes "reading s" "reading s2" "remaining s = remaining s2" "byteorder s = byteorder s2" "HostEndian P = HostEndian P2"
  shows "case (read_values P ks s, read_values P2 ks s2) of
      (None, None) \<Rightarrow> True
    | (Some (vs, t), Some (vs2, t2)) \<Rightarrow>
        vs = vs2 \<and> remaining t = remaining t2 \<and> QDataStream_atEnd t = QDataStream_atEnd t2 \<and>
        (q_status s \<noteq> Ok \<longrightarrow> q_status t = q_status s) \<and> (q_status s = q_status s2 \<longrightarrow> q_status t = q_status t2)
    | _ \<Rightarrow> False"
proof -
  note r = reads_values [unfolded reads_def, rule_format]
  show ?thesis
    using r [OF assms(1), of P ks] r [OF assms(2), of P2 ks] assms(3-5)
    by (auto simp: atEnd_reading joined_def split: option.splits prod.splits)
qed

theorem QDataStream_reads_determined_witness:
  "\<exists>vs t t2 P2. HostEndian P2 = HostEndian example_platform \<and> P2 \<noteq> example_platform \<and>
    read_values example_platform [KBits, KRect] (setByteOrder BigEndian (QDataStream_data example_platform
      [0, 0, 0, 3, 5, 255, 255, 255, 255, 7])) = Some (vs, t) \<and>
    read_values P2 [KBits, KRect] (setByteOrder BigEndian (QDataStream_data P2 [0, 0, 0, 3, 5, 255, 255, 255, 255, 7])) = Some (vs, t2) \<and>
    vs = [VBits (QBitArray [13, 5]), VRect \<lparr>x1 = -1, y1 = 0, x2 = 0, y2 = 0\<rparr>] \<and> q_status t = q_status t2"
proof -
  define P where "P = example_platform"
  define P2 where "P2 = P\<lparr>uninit := \<lambda>i. 1\<rparr>"
  define xs :: "byte list" where "xs = [0, 0, 0, 3, 5, 255, 255, 255, 255, 7]"
  define s where "s P = setByteOrder BigEndian (QDataStream_data P xs)" for P
  have "uninit P 0 \<noteq> uninit P2 0" by (simp add: P_def P2_def example_platform_def)
  then have "P2 \<noteq> P" by metis
  then have h: "HostEndian P = HostEndian P2" "P2 \<noteq> P" by (simp_all add: P2_def)
  define vs where "vs = [VBits (QBitArray [13, 5]), VRect \<lparr>x1 = -1, y1 = 0, x2 = 0, y2 = 0\<rparr>]"
  have "dec_values (HostEndian P) [KBits, KRect] BigEndian xs = Some (vs, [], ReadPastEnd)"
    unfolding vs_def xs_def P_def by code_simp
  then obtain t where t: "read_values P [KBits, KRect] (s P) = Some (vs, t)"
    using read_values_data [of P "[KBits, KRect]" BigEndian xs] by (auto simp: s_def)
  note d = data_stream [of BigEndian P xs] data_stream [of BigEndian P2 xs]
  have "case (read_values P [KBits, KRect] (s P), read_values P2 [KBits, KRect] (s P2)) of
      (None, None) \<Rightarrow> True
    | (Some (vs, t), Some (vs2, t2)) \<Rightarrow>
        vs = vs2 \<and> remaining t = remaining t2 \<and> QDataStream_atEnd t = QDataStream_atEnd t2 \<and>
        (q_status (s P) \<noteq> Ok \<longrightarrow> q_status t = q_status (s P)) \<and> (q_status (s P) = q_status (s P2) \<longrightarrow> q_status t = q_status t2)
    | _ \<Rightarrow> False"
    by (rule QDataStream_reads_determined) (simp_all add: s_def d h)
  then obtain t2 where "read_values P2 [KBits, KRect] (s P2) = Some (vs, t2)" "q_status t = q_status t2"
    using t d by (auto simp: s_def split: option.splits prod.splits)
  with t h show ?thesis unfolding P_def s_def xs_def vs_def by metis
qed

section \<open>What is read is well-formed\<close>

fun value_wf :: "stream_value \<Rightarrow> bool" where
  "value_wf (VInt x) = in32 x"
| "value_wf (VBytes x) = QByteArray_ok x"
| "value_wf (VBits x) = QBitArray_wf x"
| "value_wf (VString x) = QString_wf x"
| "value_wf (VPoint x) = QPoint_ok x"
| "value_wf (VSize x) = QSize_ok x"
| "value_wf (VLine x) = QLine_ok x"
| "value_wf (VRect x) = QRect_ok x"
| "value_wf (VDate x) = QDate_ok x"
| "value_wf (VTime x) = QTime_ok x"
| "value_wf (VDateTime x) = (QDateTime_ok x \<and> dt_utcOffset x = 0)"
| "value_wf (VStrings x) = (\<forall>str \<in> set x. QString_wf str)"
| "value_wf (VInts x) = (\<forall>i \<in> set x. in32 i)"
| "value_wf v = True"

lemma decodes_as: "decodes d Q \<Longrightarrow> (\<And>x. Q x \<Longrightarrow> kind_of (V x) = k \<and> value_wf (V x)) \<Longrightarrow>
    decodes (dec_as V d) (\<lambda>v. kind_of v = k \<and> value_wf v)"
  unfolding dec_as_def by (intro decodes_bind [of d Q] decodes_return) auto

lemma decodes_value: "decodes (dec_value host k bo) (\<lambda>v. kind_of v = k \<and> value_wf v)"
proof (cases k)
  case KStrings
  have "decodes (dec_items (dec_QString host bo) c) (\<lambda>xs. \<forall>x \<in> set xs. QString_wf x)" for c
    using decodes_items(1) [OF decodes_QString, of host bo c] unfolding decodes_def by fast
  then have "decodes (dec_QList (dec_QString host) bo) (\<lambda>xs. \<forall>x \<in> set xs. QString_wf x)"
    unfolding dec_QList_def by (intro decodes_step) (simp add: decodes_def)
  then show ?thesis unfolding KStrings dec_value.simps by (rule decodes_as) simp
next
  case KInts
  have "decodes (dec_QVector 4 dec_int bo) (\<lambda>xs. \<forall>x \<in> set xs. in32 x)"
    unfolding dec_QVector_def
  proof (rule decodes_step)
    fix c :: "32 word"
    have "decodes (\<lambda>bs. None) (\<lambda>xs :: int list. \<forall>x \<in> set xs. in32 x)" by (simp add: decodes_def)
    then show "decodes (if \<not> QVector_resize_fits 4 (sint c) then (\<lambda>bs. None) else dec_elements (dec_int bo) (unat c)) (\<lambda>xs. \<forall>x \<in> set xs. in32 x)"
      using decodes_items(2) [OF decodes_int, of bo "unat c"] by (simp add: decodes_def)
  qed
  then show ?thesis unfolding KInts dec_value.simps by (rule decodes_as) simp
qed (simp only: dec_value.simps, rule decodes_as, (rule stream_typed decodes_any), simp add: QDateTime0_def)+

lemma decodes_values: "decodes (dec_values host ks bo) (\<lambda>vs. map kind_of vs = ks \<and> (\<forall>v \<in> set vs. value_wf v))"
proof (induction ks)
  case (Cons k ks)
  show ?case unfolding dec_values.simps
    by (rule decodes_bind [OF decodes_value], rule decodes_bind [OF Cons.IH], rule decodes_return) simp
qed (simp add: decodes_return)

text \<open>
  C39: an array of bits, read anywhere on a stream: its size is the number in front of it, its bits are those of the bytes that
  follow, from the lowest up, and nothing else is read; if bytes are missing the status is \<open>ReadPastEnd\<close>, and if a bit beyond the
  size is set it is \<open>ReadCorruptData\<close>, and the array is empty.
\<close>

theorem QBitArray_read_exact:
  assumes "reading s" "remaining s = memory_of (byteorder s) (of_nat n :: 32 word) @ ys" "0 < n" "n < 4294967289"
  shows "\<exists>ba t. read_QBitArray P s = Some (ba, t) \<and> reading t \<and> byteorder t = byteorder s \<and>
    (let tb = (n + 7) div 8; stray = (\<exists>j. n \<le> j \<and> j < 8 * tb \<and> bit (ys ! (j div 8)) (j mod 8)) in
     if length ys < tb \<or> stray
     then ba = QBitArray [] \<and> remaining t = drop tb ys \<and>
       q_status t = (if q_status s \<noteq> Ok then q_status s else if length ys < tb then ReadPastEnd else ReadCorruptData)
     else QBitArray_size ba = n \<and> (\<forall>i<n. QBitArray_testBit ba i = bit (ys ! (i div 8)) (i mod 8)) \<and> bits_wf ba \<and>
       remaining t = drop tb ys \<and> q_status t = q_status s)"
proof -
  define tb where "tb = (n + 7) div 8"
  define w where "w = (of_nat n :: 32 word)"
  have u: "unat w = n" using assms(4) by (simp add: w_def unat_of_nat)
  then have w: "w \<noteq> 0" "unat w < 4294967289" "tb = (unat w + 7) div 8" using assms(3,4) by (auto simp: tb_def)
  have raw: "raw_bit (0 # take tb ys) j = bit (ys ! (j div 8)) (j mod 8)" if "j < 8 * tb" for j
    using that by (simp add: raw_bit_def less_mult_imp_div_less mult.commute)
  have d: "dec_QBitArray (byteorder s) (remaining s) = dec_bits w (unat ((w + 7) div 8)) ys"
    using assms(2) w(1) by (cases "dec_bits w (unat ((w + 7) div 8)) ys")
      (auto simp: dec_QBitArray_def dec_bind_def dec_number_memory w_def)
  note r = reads_QBitArray [of P, unfolded reads_def, rule_format, OF assms(1)]
  show ?thesis
  proof (cases "length ys < tb \<or> (\<exists>j. n \<le> j \<and> j < 8 * tb \<and> bit (ys ! (j div 8)) (j mod 8))")
    case True
    then have "dec_bits w (unat ((w + 7) div 8)) ys =
        Some (QBitArray [], drop tb ys, if length ys < tb then ReadPastEnd else ReadCorruptData)"
      using raw unfolding dec_bits_nat [OF w] u by auto
    with r d True show ?thesis by (auto simp: tb_def [symmetric] joined_def)
  next
    case False
    define a where "a = QBitArray (set_header n (0 # take tb ys))"
    have l: "length (0 # take tb ys) = 1 + (n + 7) div 8" using False by (simp add: tb_def)
    have le: "n \<le> 8 * tb" using ceil8_le [of n tb] by (simp add: tb_def)
    have "\<not> raw_bit (0 # take tb ys) j" if "n \<le> j" "j < 8 * ((n + 7) div 8)" for j
      using False raw [of j] that by (auto simp: tb_def)
    then have a: "QBitArray_size a = n" "bits_wf a" "i < n \<Longrightarrow> QBitArray_testBit a i = bit (ys ! (i div 8)) (i mod 8)" for i
      using set_header_props [OF assms(3) l] wf_set_header [OF assms(3) l] raw [of i] le by (simp_all add: a_def testBit_raw)
    have "dec_bits w (unat ((w + 7) div 8)) ys = Some (a, drop tb ys, Ok)"
      using raw False unfolding dec_bits_nat [OF w] u a_def by auto
    with r d a show ?thesis unfolding Let_def tb_def [symmetric] if_not_P [OF False] by auto
  qed
qed

theorem QBitArray_read_exact_witness:
  "\<exists>ba t. read_QBitArray example_platform (setByteOrder BigEndian (QDataStream_data example_platform [0, 0, 0, 11, 0x05, 0x04, 9])) =
      Some (ba, t) \<and>
    QBitArray_size ba = 11 \<and> QBitArray_testBit ba 0 \<and> \<not> QBitArray_testBit ba 1 \<and> QBitArray_testBit ba 10 \<and>
    remaining t = [9] \<and> q_status t = Ok"
proof -
  define s where "s = setByteOrder BigEndian (QDataStream_data example_platform [0, 0, 0, 11, 0x05, 0x04, 9])"
  note d = data_stream [of BigEndian example_platform "[0, 0, 0, 11, 0x05, 0x04, 9]", folded s_def]
  have m: "remaining s = memory_of (byteorder s) (of_nat 11 :: 32 word) @ [0x05, 0x04, 9]"
    unfolding d by code_simp
  have n: "\<not> (\<exists>j. 11 \<le> j \<and> j < 16 \<and> bit ([0x05, 0x04, 9 :: byte] ! (j div 8)) (j mod 8))"
  proof -
    have "\<forall>j \<in> {11..<16}. \<not> bit ([0x05, 0x04, 9 :: byte] ! (j div 8)) (j mod 8)" by code_simp
    then show ?thesis unfolding Ball_def atLeastLessThan_iff by blast
  qed
  have b: "bit (0x05 :: byte) 0" "\<not> bit (0x05 :: byte) 1" "bit (0x04 :: byte) 2" by code_simp+
  from QBitArray_read_exact [OF d(1) m, of example_platform] n b d(4) show ?thesis
    unfolding s_def [symmetric] by (auto simp: Let_def)
qed

section \<open>Input that ends early\<close>

lemma cuts_as: "cuts d e \<Longrightarrow> cuts (dec_as V d) e"
  unfolding cut_short_def dec_as_def dec_bind_def dec_return_def by (fastforce simp: joined_def)

lemma cuts_value:
  assumes "value_ok v" "kind_of v \<noteq> KStrings"
  shows "cuts (dec_value host (kind_of v) bo) (enc_value host bo v)"
proof -
  have n: "cut_short d e Q \<Longrightarrow> cuts d e" for d :: "'z decoder" and e Q unfolding cut_short_def by blast
  show ?thesis
    by (cases v; simp only: kind_of.simps dec_value.simps enc_value.simps; (rule cuts_as)?)
      (use assms in \<open>auto intro: n [OF cut_numbers(1)] n [OF cut_numbers(2)] n [OF cut_numbers(3)] n [OF cut_qint8(1)] cut_bool [of True, simplified] cut_bool [of False, simplified] cuts_int
        cuts_QByteArray cuts_QBitArray cuts_QString cuts_QPoint cuts_QSize cuts_QLine cuts_QRect cuts_QDate cuts_QTime cuts_QDateTime
        int.cuts_QVector ending_int\<close>)
qed

text \<open>
  C40: a value of any modelled type but QList, whose bytes are not all there, is reported: the status is \<open>ReadPastEnd\<close> at every
  cut, and all the data is used.  A QList is not: see \<open>QList_truncated_silently\<close> below.
\<close>

theorem QDataStream_truncated:
  assumes "value_ok v" "kind_of v \<noteq> KStrings" "write_value P v (setByteOrder bo (QDataStream_array P [] AppendMode)) = Some t"
    "n < length (written t)"
  shows "\<exists>w u. read_value P (kind_of v) (setByteOrder bo (QDataStream_data P (take n (written t)))) = Some (w, u) \<and>
    kind_of w = kind_of v \<and> value_wf w \<and> q_status u = ReadPastEnd \<and> QDataStream_atEnd u"
proof -
  have e: "written t = enc_value (HostEndian P) bo v"
    using writes_value [OF assms(1), of P] append_stream [of bo P "[]"] assms(3) by (fastforce simp: writes_def)
  have "written t = take n (written t) @ drop n (written t) \<and> drop n (written t) \<noteq> []" using assms(4) by simp
  then obtain w where w: "dec_value (HostEndian P) (kind_of v) bo (take n (written t)) = Some (w, [], ReadPastEnd)"
    using cuts_value [OF assms(1,2), of "HostEndian P" bo] unfolding e cut_short_def by blast
  moreover have "kind_of w = kind_of v \<and> value_wf w" using w decodes_value unfolding decodes_def by blast
  ultimately show ?thesis using read_value_data by fastforce
qed

lemma written_value:
  assumes "value_ok v"
  shows "\<exists>t. write_value P v (setByteOrder bo (QDataStream_array P [] AppendMode)) = Some t \<and> written t = enc_value (HostEndian P) bo v"
  using writes_value [OF assms, of P] append_stream [of bo P "[]"] by (fastforce simp: writes_def)

theorem QDataStream_truncated_witness:
  "\<exists>t w u. write_value example_platform (VString (Some [0x65, 0x66]))
      (setByteOrder BigEndian (QDataStream_array example_platform [] AppendMode)) = Some t \<and>
    written t = [0, 0, 0, 4, 0x65, 0, 0x66, 0] \<and>
    read_value example_platform KString (setByteOrder BigEndian (QDataStream_data example_platform (take 7 (written t)))) = Some (w, u) \<and>
    q_status u = ReadPastEnd \<and> QDataStream_atEnd u"
proof -
  have ok: "value_ok (VString (Some [0x65, 0x66]))" by (simp add: QString_ok_def)
  have "enc_value (HostEndian example_platform) BigEndian (VString (Some [0x65, 0x66])) = [0, 0, 0, 4, 0x65, 0, 0x66, 0]"
    by code_simp
  then obtain t where t: "write_value example_platform (VString (Some [0x65, 0x66]))
      (setByteOrder BigEndian (QDataStream_array example_platform [] AppendMode)) = Some t"
    "written t = [0, 0, 0, 4, 0x65, 0, 0x66, 0]"
    using written_value [OF ok, of example_platform BigEndian] by auto
  have "7 < length (written t)" unfolding t(2) by simp
  from QDataStream_truncated [OF ok _ t(1) this] t show ?thesis by auto
qed

text \<open>
  A list that is cut between two items is not reported: its loop stops at the end of the data, the items that are there are
  read and the status stays \<open>Ok\<close>.
\<close>

theorem QList_truncated_silently:
  assumes "value_ok (VStrings xs)" "0 < k" "k < length xs"
    "write_value P (VStrings xs) (setByteOrder bo (QDataStream_array P [] AppendMode)) = Some t"
  shows "\<exists>n < length (written t). \<exists>u.
    read_value P KStrings (setByteOrder bo (QDataStream_data P (take n (written t)))) = Some (VStrings (take k xs), u) \<and>
    q_status u = Ok"
proof -
  define c where "c = memory_of bo (of_nat (length xs) :: 32 word)"
  define enc where "enc ys = concat (map (enc_QString (HostEndian P) bo) ys)" for ys
  have "written t = enc_value (HostEndian P) bo (VStrings xs)"
    using writes_value [OF assms(1), of P] append_stream [of bo P "[]"] assms(4) by (fastforce simp: writes_def)
  moreover have "enc xs = enc (take k xs) @ enc (drop k xs)"
    unfolding enc_def by (simp flip: concat_append map_append)
  ultimately have e: "written t = (c @ enc (take k xs)) @ enc (drop k xs)" by (simp add: enc_QList_def c_def enc_def)
  obtain y ys where "drop k xs = y # ys" using assms(3) by (cases "drop k xs") auto
  then have "enc (drop k xs) \<noteq> []" using enc_QString_Nil by (simp add: enc_def)
  with e have n: "length (c @ enc (take k xs)) < length (written t)" by simp
  have "dec_QList (dec_QString (HostEndian P)) bo (c @ enc (take k xs)) = Some (take k xs, [], Ok)"
    unfolding c_def enc_def
    by (rule QString.QList_silent) (use assms in \<open>auto dest: in_set_takeD\<close>)
  then have "dec_value (HostEndian P) KStrings bo (take (length (c @ enc (take k xs))) (written t)) =
      Some (VStrings (take k xs), [], Ok)"
    unfolding e by (simp add: dec_as_encode)
  from read_value_data [OF this] n show ?thesis by blast
qed

theorem QList_truncated_silently_witness:
  "\<exists>t n u. write_value example_platform (VStrings [Some [0x65], None, Some [0x66]])
      (setByteOrder BigEndian (QDataStream_array example_platform [] AppendMode)) = Some t \<and> n < length (written t) \<and>
    read_value example_platform KStrings (setByteOrder BigEndian (QDataStream_data example_platform (take n (written t)))) =
      Some (VStrings [Some [0x65]], u) \<and> q_status u = Ok"
proof -
  have ok: "value_ok (VStrings [Some [0x65], None, Some [0x66]])" by (simp add: QString_ok_def)
  obtain t where t: "write_value example_platform (VStrings [Some [0x65], None, Some [0x66]])
      (setByteOrder BigEndian (QDataStream_array example_platform [] AppendMode)) = Some t"
    using written_value [OF ok, of example_platform BigEndian] by blast
  from QList_truncated_silently [OF ok _ _ t, of 1] t show ?thesis by auto
qed

section \<open>Strings between machines\<close>

text \<open>
  The characters of a string do not follow the byte order of the stream: on a machine of the other byte order they are
  read with their two bytes exchanged, in either order of the stream, and the status stays \<open>Ok\<close>.
\<close>

theorem QString_other_host:
  assumes "QString_ok (Some cs)" "HostEndian P \<noteq> HostEndian R"
  shows "\<exists>t u. write_QString P (Some cs) (setByteOrder bo (QDataStream_array P [] AppendMode)) = Some t \<and>
    read_QString R (setByteOrder bo (QDataStream_data R (written t))) = Some (Some (map qbswap cs), u) \<and> q_status u = Ok"
proof -
  obtain t where t: "write_QString P (Some cs) (setByteOrder bo (QDataStream_array P [] AppendMode)) = Some t"
    "written t = enc_QString (HostEndian P) bo (Some cs)"
    using written_value [of "VString (Some cs)" P bo] assms(1) by auto
  have "QString_ok (Some (map qbswap cs))" using assms(1) by (simp add: QString_ok_def)
  from dec_QString_enc [OF this, of "HostEndian R" bo "[]"]
  have d: "dec_QString (HostEndian R) bo (enc_QString (HostEndian R) bo (Some (map qbswap cs))) = Some (Some (map qbswap cs), [], Ok)"
    by simp
  have "concat (map (memory_of (HostEndian R)) (map qbswap cs)) = concat (map (memory_of (HostEndian P)) cs)"
  proof -
    have "memory_of (HostEndian R) (qbswap c) = memory_of (HostEndian P) c" for c :: "16 word"
      using memory_props(3) [of "HostEndian R" "HostEndian P" c] assms(2) by (simp split: if_splits)
    then show ?thesis by (simp add: comp_def)
  qed
  then have "enc_QString (HostEndian R) bo (Some (map qbswap cs)) = written t"
    unfolding t(2) by (cases cs) (simp_all add: enc_QString_def)
  with d have "dec_QString (HostEndian R) bo (written t) = Some (Some (map qbswap cs), [], Ok)" by simp
  moreover note s = data_stream [of bo R "written t"]
  ultimately show ?thesis
    using reads_QString [of R, unfolded reads_def, rule_format, OF s(1)] t(1) unfolding s by auto
qed

theorem QString_other_host_witness:
  "\<exists>t u. write_QString example_platform (Some [0x41]) (setByteOrder BigEndian (QDataStream_array example_platform [] AppendMode)) = Some t \<and>
    read_QString (example_platform\<lparr>HostEndian := BigEndian\<rparr>)
      (setByteOrder BigEndian (QDataStream_data (example_platform\<lparr>HostEndian := BigEndian\<rparr>) (written t))) =
      Some (Some [0x4100], u) \<and> q_status u = Ok"
proof -
  have "map qbswap [0x41 :: 16 word] = [0x4100]" by code_simp
  then show ?thesis
    using QString_other_host [of "[0x41]" example_platform "example_platform\<lparr>HostEndian := BigEndian\<rparr>" BigEndian]
    by (simp add: QString_ok_def example_platform_def)
qed

end
