(* ===== verification/ListData.thy ===== *)
theory ListData
  imports Refinement
begin

text \<open>
  \<open>QListData\<close> (src/src/core/tools/qlist.h and qlist.cpp): an array of nodes with free room in front of the first node
  and behind the last one.  A node is a value here: what \<open>memmove\<close> and \<open>realloc\<close> copy are the nodes, not what they
  point to.  The parameter \<open>junk\<close> is memory that was not written.

  An operation that makes room returns the index of the free node; \<open>None\<close> is an access outside of the array.  Sizes and
  indices are not negative unless they are \<open>int\<close>; the comparisons of the code are written without subtraction.
\<close>

record 'a Data =
  alloc :: nat
  first :: nat
  last_end :: nat
  array :: "'a list"

text \<open>\<open>memmove(array + dst, array + src, n)\<close>.\<close>

definition move_nodes :: "nat \<Rightarrow> nat \<Rightarrow> nat \<Rightarrow> 'a list \<Rightarrow> 'a list option" where
  "move_nodes dst src n xs =
    (if src + n \<le> length xs \<and> dst + n \<le> length xs
     then Some (take dst xs @ take n (drop src xs) @ drop (dst + n) xs) else None)"

definition empty_data :: "'a Data" where
  "empty_data = \<lparr>alloc = 0, first = 0, last_end = 0, array = []\<rparr>"

text \<open>A new array for \<open>n\<close> nodes with the nodes of \<open>d\<close> still to be copied.\<close>

definition QListData_detach :: "'a \<Rightarrow> nat \<Rightarrow> 'a Data \<Rightarrow> 'a Data" where
  "QListData_detach junk n d =
    \<lparr>alloc = n, first = (if n = 0 then 0 else first d), last_end = (if n = 0 then 0 else last_end d),
      array = replicate n junk\<rparr>"

definition QListData_realloc :: "'a \<Rightarrow> nat \<Rightarrow> 'a Data \<Rightarrow> 'a Data" where
  "QListData_realloc junk n d =
    \<lparr>alloc = n, first = (if n = 0 then 0 else first d), last_end = (if n = 0 then 0 else last_end d),
      array = take n (array d) @ replicate (n - length (array d)) junk\<rparr>"

definition QListData_append :: "'a \<Rightarrow> nat \<Rightarrow> 'a Data \<Rightarrow> (nat \<times> 'a Data) option" where
  "QListData_append junk n d =
    (let e = last_end d in
     if e + n > alloc d then
       (let b = first d in
        if b \<ge> n + 2 * alloc d div 3 then
          (let e = e - b in
           case move_nodes 0 b e (array d) of
             None \<Rightarrow> None
           | Some xs \<Rightarrow> Some (e, d\<lparr>array := xs, first := 0, last_end := e + n\<rparr>))
        else Some (e, (QListData_realloc junk (alloc d + n) d)\<lparr>last_end := e + n\<rparr>))
     else Some (e, d\<lparr>last_end := e + n\<rparr>))"

definition QListData_prepend :: "'a \<Rightarrow> 'a Data \<Rightarrow> (nat \<times> 'a Data) option" where
  "QListData_prepend junk d =
    (if first d = 0 then
       (let d = (if last_end d \<ge> alloc d div 3 then QListData_realloc junk (alloc d + 1) d else d);
            b = (if last_end d < alloc d div 3 then alloc d - 2 * last_end d else alloc d - last_end d)
        in case move_nodes b 0 (last_end d) (array d) of
             None \<Rightarrow> None
           | Some xs \<Rightarrow> if b = 0 then None else Some (b - 1, d\<lparr>array := xs, first := b - 1, last_end := last_end d + b\<rparr>))
     else Some (first d - 1, d\<lparr>first := first d - 1\<rparr>))"

definition QListData_insert :: "'a \<Rightarrow> int \<Rightarrow> 'a Data \<Rightarrow> (nat \<times> 'a Data) option" where
  "QListData_insert junk i d =
    (if i \<le> 0 then QListData_prepend junk d
     else
       (let size = last_end d - first d in
        if i \<ge> int size then QListData_append junk 1 d
        else
          (let i = nat i;
               leftward = (first d \<noteq> 0 \<and> (last_end d = alloc d \<or> i < size - i));
               d = (if first d = 0 \<and> last_end d = alloc d then QListData_realloc junk (alloc d + 1) d else d)
           in if leftward then
                (let d = d\<lparr>first := first d - 1\<rparr>
                 in map_option (\<lambda>xs. (first d + i, d\<lparr>array := xs\<rparr>)) (move_nodes (first d) (first d + 1) i (array d)))
              else
                map_option (\<lambda>xs. (first d + i, d\<lparr>array := xs, last_end := last_end d + 1\<rparr>))
                  (move_nodes (first d + i + 1) (first d + i) (size - i) (array d)))))"

definition QListData_remove :: "nat \<Rightarrow> 'a Data \<Rightarrow> 'a Data option" where
  "QListData_remove i d =
    (let i = i + first d in
     if i - first d < last_end d - i then
       (let offset = i - first d in
        map_option (\<lambda>xs. d\<lparr>array := xs, first := first d + 1\<rparr>)
          (if offset \<noteq> 0 then move_nodes (first d + 1) (first d) offset (array d) else Some (array d)))
     else
       (let offset = last_end d - i - 1 in
        map_option (\<lambda>xs. d\<lparr>array := xs, last_end := last_end d - 1\<rparr>)
          (if offset \<noteq> 0 then move_nodes i (i + 1) offset (array d) else Some (array d))))"

definition QListData_remove_range :: "nat \<Rightarrow> nat \<Rightarrow> 'a Data \<Rightarrow> 'a Data option" where
  "QListData_remove_range i n d =
    (let i = i + first d; middle = i + n div 2 in
     if middle - first d < last_end d - middle then
       map_option (\<lambda>xs. d\<lparr>array := xs, first := first d + n\<rparr>)
         (move_nodes (first d + n) (first d) (i - first d) (array d))
     else
       map_option (\<lambda>xs. d\<lparr>array := xs, last_end := last_end d - n\<rparr>)
         (move_nodes i (i + n) (last_end d - i - n) (array d)))"

text \<open>\<open>Some\<close> of the array unchanged when there is nothing to move.\<close>

definition move_some :: "nat \<Rightarrow> nat \<Rightarrow> nat \<Rightarrow> 'a list \<Rightarrow> 'a list option" where
  "move_some dst src n xs = (if n \<noteq> 0 then move_nodes dst src n xs else Some xs)"

definition set_node :: "nat \<Rightarrow> 'a \<Rightarrow> 'a Data \<Rightarrow> 'a Data option" where
  "set_node k x d = (if k < length (array d) then Some (d\<lparr>array := (array d)[k := x]\<rparr>) else None)"

definition QListData_move :: "nat \<Rightarrow> nat \<Rightarrow> 'a Data \<Rightarrow> 'a Data option" where
  "QListData_move i j d =
    (if i = j then Some d
     else
       (let i = i + first d; j = j + first d in
        if i < length (array d) then
          (let t = array d ! i in
           if i < j then
             (if last_end d = alloc d \<or> 3 * (j - i) < 2 * (last_end d - first d) then
                (case move_nodes i (i + 1) (j - i) (array d) of None \<Rightarrow> None | Some xs \<Rightarrow> set_node j t (d\<lparr>array := xs\<rparr>))
              else
                (case move_some (first d + 1) (first d) (i - first d) (array d) of
                   None \<Rightarrow> None
                 | Some xs \<Rightarrow>
                     (case move_some (j + 2) (j + 1) (last_end d - (j + 1)) xs of
                        None \<Rightarrow> None
                      | Some xs \<Rightarrow> set_node (j + 1) t (d\<lparr>array := xs, first := first d + 1, last_end := last_end d + 1\<rparr>))))
           else
             (if first d = 0 \<or> 3 * (i - j) < 2 * (last_end d - first d) then
                (case move_nodes (j + 1) j (i - j) (array d) of None \<Rightarrow> None | Some xs \<Rightarrow> set_node j t (d\<lparr>array := xs\<rparr>))
              else
                (case move_some (first d - 1) (first d) (j - first d) (array d) of
                   None \<Rightarrow> None
                 | Some xs \<Rightarrow>
                     (case move_some i (i + 1) (last_end d - (i + 1)) xs of
                        None \<Rightarrow> None
                      | Some xs \<Rightarrow> set_node (j - 1) t (d\<lparr>array := xs, first := first d - 1, last_end := last_end d - 1\<rparr>)))))
        else None))"

definition QListData_size :: "'a Data \<Rightarrow> nat" where
  "QListData_size d = last_end d - first d"

definition QListData_isEmpty :: "'a Data \<Rightarrow> bool" where
  "QListData_isEmpty d \<longleftrightarrow> last_end d = first d"

definition QListData_at :: "nat \<Rightarrow> 'a Data \<Rightarrow> 'a option" where
  "QListData_at i d = (if first d + i < length (array d) then Some (array d ! (first d + i)) else None)"

end
