(* ===== verification/ListSpec.thy ===== *)
theory ListSpec
  imports ListData
begin

text \<open>
  \<open>QListData\<close> refines a list: every operation stays within the array, keeps the invariant and does to the nodes what the
  operation on lists does.
\<close>

definition data_ok :: "'a Data \<Rightarrow> bool" where
  "data_ok d \<longleftrightarrow> length (array d) = alloc d \<and> first d \<le> last_end d \<and> last_end d \<le> alloc d"

definition nodes :: "'a Data \<Rightarrow> 'a list" where
  "nodes d = take (last_end d - first d) (drop (first d) (array d))"

text \<open>The array as what is in front of the nodes, the nodes, and what is behind them.\<close>

definition laid_out :: "'a Data \<Rightarrow> 'a list \<Rightarrow> 'a list \<Rightarrow> 'a list \<Rightarrow> bool" where
  "laid_out d L xs R \<longleftrightarrow> array d = L @ xs @ R \<and> first d = length L \<and> last_end d = length L + length xs \<and>
    alloc d = length L + length xs + length R"

lemma laid_out_ok: "laid_out d L xs R \<Longrightarrow> data_ok d \<and> nodes d = xs"
  by (simp add: laid_out_def data_ok_def nodes_def)

lemma ok_laid_out:
  assumes "data_ok d"
  shows "\<exists>L R. laid_out d L (nodes d) R"
proof -
  have "array d = take (first d) (array d) @ nodes d @ drop (last_end d) (array d)"
    using assms unfolding nodes_def data_ok_def
    by (metis append_take_drop_id drop_drop le_add_diff_inverse2 add.commute)
  moreover have "length (nodes d) = last_end d - first d" using assms by (auto simp: nodes_def data_ok_def)
  ultimately have "laid_out d (take (first d) (array d)) (nodes d) (drop (last_end d) (array d))"
    using assms by (simp add: laid_out_def data_ok_def)
  then show ?thesis by blast
qed

lemma length_nodes: "data_ok d \<Longrightarrow> length (nodes d) = last_end d - first d"
  by (auto simp: nodes_def data_ok_def)

text \<open>Moving a part of the array to the left and to the right.\<close>

lemma move_left:
  "dst = length L \<Longrightarrow> src = length L + length G \<Longrightarrow> n = length A \<Longrightarrow>
   move_nodes dst src n (L @ G @ A @ R) = Some (L @ A @ drop n (G @ A) @ R)"
  by (simp add: move_nodes_def)

lemma move_right:
  "src = length L \<Longrightarrow> dst = length L + length G \<Longrightarrow> n = length A \<Longrightarrow>
   move_nodes dst src n (L @ A @ G @ R) = Some (L @ take (length G) (A @ G) @ A @ R)"
  by (simp add: move_nodes_def)

lemma append_room:
  assumes "laid_out d L xs R"
  shows "\<exists>k e G M R'. QListData_append junk n d = Some (k, e) \<and> laid_out e M (xs @ G) R' \<and> length G = n \<and>
    k = length M + length xs"
proof -
  note d = assms [unfolded laid_out_def]
  consider (room) "n \<le> length R" | (front) "length R < n" "n + 2 * alloc d div 3 \<le> length L"
    | (grow) "length R < n" "\<not> n + 2 * alloc d div 3 \<le> length L" by linarith
  then show ?thesis
  proof cases
    case room
    define e where "e = d\<lparr>last_end := last_end d + n\<rparr>"
    have "QListData_append junk n d = Some (last_end d, e)" using d room by (simp add: QListData_append_def e_def Let_def)
    moreover have "laid_out e L (xs @ take n R) (drop n R)" using d room by (simp add: laid_out_def e_def)
    moreover have "length (take n R) = n" "last_end d = length L + length xs" using d room by simp_all
    ultimately show ?thesis by blast
  next
    case front
    define Y where "Y = drop (length xs) (L @ xs) @ R"
    define e where "e = d\<lparr>array := xs @ Y, first := 0, last_end := length xs + n\<rparr>"
    have m: "move_nodes 0 (length L) (length xs) (array d) = Some (xs @ Y)"
      using d move_left [of 0 "[]" "length L" L "length xs" xs R] by (simp add: Y_def)
    have Y: "length Y = length L + length R" by (simp add: Y_def)
    then have "n \<le> length Y" using front by simp
    then have "laid_out e [] (xs @ take n Y) (drop n Y)" using d Y by (simp add: laid_out_def e_def)
    moreover have "QListData_append junk n d = Some (length xs, e)"
      using d front m by (simp add: QListData_append_def e_def Let_def)
    moreover have "length (take n Y) = n" "length xs = length ([] :: 'a list) + length xs" using \<open>n \<le> length Y\<close> by simp_all
    ultimately show ?thesis by blast
  next
    case grow
    define Y where "Y = R @ replicate n junk"
    define e where "e = (QListData_realloc junk (alloc d + n) d)\<lparr>last_end := last_end d + n\<rparr>"
    have "laid_out e L (xs @ take n Y) (drop n Y)" using d grow by (simp add: laid_out_def e_def QListData_realloc_def Y_def flip: replicate_add)
    moreover have "QListData_append junk n d = Some (last_end d, e)"
      using d grow by (simp add: QListData_append_def e_def Let_def)
    moreover have "length (take n Y) = n" "last_end d = length L + length xs" using d by (simp_all add: Y_def)
    ultimately show ?thesis by blast
  qed
qed

lemma realloc_laid_out:
  "laid_out d L xs R \<Longrightarrow> 0 < n \<Longrightarrow> alloc d \<le> n \<Longrightarrow>
   laid_out (QListData_realloc junk n d) L xs (R @ replicate (n - alloc d) junk)"
  by (auto simp: laid_out_def QListData_realloc_def)

lemma prepend_room:
  assumes "laid_out d L xs R"
  shows "\<exists>k e M R' g. QListData_prepend junk d = Some (k, e) \<and> laid_out e M (g # xs) R' \<and> k = length M"
proof (cases "L = []")
  case False
  then obtain M g where L: "L = M @ [g]" using rev_exhaust by blast
  define e where "e = d\<lparr>first := first d - 1\<rparr>"
  have "laid_out e M (g # xs) R" using assms L by (simp add: laid_out_def e_def)
  moreover have "QListData_prepend junk d = Some (length M, e)" using assms L by (simp add: QListData_prepend_def laid_out_def e_def)
  ultimately show ?thesis by blast
next
  case True
  define c where "c = (if last_end d \<ge> alloc d div 3 then QListData_realloc junk (alloc d + 1) d else d)"
  obtain S where S: "laid_out c [] xs S" "S \<noteq> []"
  proof (cases "last_end d \<ge> alloc d div 3")
    case t: True
    then show ?thesis using that realloc_laid_out [OF assms, of "alloc d + 1" junk] True by (simp add: c_def)
  next
    case False
    then have "R \<noteq> []" using assms by (auto simp: laid_out_def True)
    then show ?thesis using that assms True False by (simp add: c_def)
  qed
  note c = S(1) [unfolded laid_out_def]
  define b where "b = (if last_end c < alloc c div 3 then alloc c - 2 * last_end c else alloc c - last_end c)"
  have b: "0 < b" "b + length xs \<le> alloc c" "b \<le> length S" using c S(2) by (auto simp: b_def)
  define Y where "Y = take b (xs @ S)"
  have "array c = [] @ xs @ take b S @ drop b S" using c by simp
  then have m: "move_nodes b 0 (length xs) (array c) = Some (Y @ xs @ drop b S)"
    using b move_right [of 0 "[]" b "take b S" "length xs" xs "drop b S"] by (simp add: Y_def min_def)
  have Y: "length Y = b" using b by (simp add: Y_def)
  then obtain M g where Mg: "Y = M @ [g]" using b by (cases Y rule: rev_cases) auto
  define e where "e = c\<lparr>array := Y @ xs @ drop b S, first := b - 1, last_end := last_end c + b\<rparr>"
  have "QListData_prepend junk d = Some (b - 1, e)"
    unfolding QListData_prepend_def Let_def c_def [symmetric] unfolding b_def [symmetric]
    using True assms m b(1) c by (simp add: laid_out_def e_def)
  moreover have "laid_out e M (g # xs) (drop b S)" using c b Y Mg by (auto simp: laid_out_def e_def)
  moreover have "b - 1 = length M" using Y Mg by simp
  ultimately show ?thesis by blast
qed

lemma set_laid_out:
  assumes "laid_out e M (A @ g # B) R" "k = length M + length A"
  shows "\<exists>f. set_node k x e = Some f \<and> laid_out f M (A @ x # B) R"
  using assms by (simp add: laid_out_def set_node_def list_update_append)

lemma one_node: "length xs = 1 \<Longrightarrow> \<exists>h. xs = [h]"
  by (cases xs) auto

lemma insert_room:
  assumes "laid_out d L (A @ B) R" "i = int (length A) \<or> i \<le> 0 \<and> A = [] \<or> int (length A) \<le> i \<and> B = []"
  shows "\<exists>k e M R' g. QListData_insert junk i d = Some (k, e) \<and> laid_out e M (A @ g # B) R' \<and> k = length M + length A"
proof -
  note d = assms(1) [unfolded laid_out_def]
  consider "i \<le> 0" "A = []" | "0 < i" "B = []" "int (length A) \<le> i" | "0 < i" "i = int (length A)" "B \<noteq> []"
    using assms(2) by (cases "i \<le> 0"; cases "B = []"; cases A) auto
  then show ?thesis
  proof cases
    case 1
    then show ?thesis using prepend_room [OF assms(1), of junk] by (auto simp: QListData_insert_def)
  next
    case 2
    obtain k e G M R' where e: "QListData_append junk 1 d = Some (k, e)" "laid_out e M ((A @ B) @ G) R'" "length G = 1"
      "k = length M + length (A @ B)" using append_room [OF assms(1), of junk 1] by blast
    obtain h where "G = [h]" using one_node [OF e(3)] by blast
    with e 2 have "laid_out e M (A @ h # B) R'" "k = length M + length A" by simp_all
    moreover have "QListData_insert junk i d = Some (k, e)" using e(1) 2 d by (simp add: QListData_insert_def)
    ultimately show ?thesis by blast
  next
    case 3
    define leftward where "leftward = (first d \<noteq> 0 \<and> (last_end d = alloc d \<or> nat i < last_end d - first d - nat i))"
    define c where "c = (if first d = 0 \<and> last_end d = alloc d then QListData_realloc junk (alloc d + 1) d else d)"
    have size: "last_end d - first d = length A + length B" "nat i = length A" "\<not> i \<ge> int (last_end d - first d)"
      using d 3 by simp_all
    show ?thesis
    proof (cases leftward)
      case True
      then have c: "c = d" by (simp add: leftward_def c_def)
      obtain M g where L: "L = M @ [g]" using True d by (cases L rule: rev_cases) (auto simp: leftward_def)
      obtain h where h: "drop (length A) ([g] @ A) = [h]" using one_node [of "drop (length A) ([g] @ A)"] by auto
      define e where "e = d\<lparr>first := length M, array := M @ A @ [h] @ B @ R\<rparr>"
      have "move_nodes (length M) (length M + 1) (length A) (array d) = Some (M @ A @ [h] @ B @ R)"
        using move_left [of "length M" M "length M + 1" "[g]" "length A" A "B @ R"] d L h by simp
      then have "QListData_insert junk i d = Some (length M + length A, e)"
        using True c d L 3 size True [unfolded leftward_def]
        by (simp add: QListData_insert_def Let_def leftward_def [symmetric] c_def [symmetric] e_def)
      moreover have "laid_out e M (A @ h # B) R" using d L by (simp add: laid_out_def e_def)
      ultimately show ?thesis by blast
    next
      case False
      obtain g S where S: "laid_out c L (A @ B) (g # S)"
      proof (cases "first d = 0 \<and> last_end d = alloc d")
        case True
        then show ?thesis using that realloc_laid_out [OF assms(1), of "alloc d + 1" junk] d by (auto simp: c_def)
      next
        case nr: False
        then have "R \<noteq> []" using False d by (auto simp: leftward_def)
        then show ?thesis using that assms(1) nr by (cases R) (auto simp: c_def)
      qed
      note c = S [unfolded laid_out_def]
      obtain h where h: "take 1 (B @ [g]) = [h]" by (cases B) auto
      define e where "e = c\<lparr>array := L @ A @ [h] @ B @ S, last_end := last_end c + 1\<rparr>"
      have "move_nodes (length L + length A + 1) (length L + length A) (length B) (array c) = Some (L @ A @ [h] @ B @ S)"
        using move_right [of "length L + length A" "L @ A" "length L + length A + 1" "[g]" "length B" B S] c h by simp
      then have "QListData_insert junk i d = Some (length L + length A, e)"
        unfolding QListData_insert_def Let_def c_def [symmetric] leftward_def [symmetric]
        using False c d 3 size by (simp add: e_def)
      moreover have "laid_out e L (A @ h # B) S" using c by (simp add: laid_out_def e_def)
      ultimately show ?thesis by blast
    qed
  qed
qed

lemma remove_node_ok:
  assumes "laid_out d L (A @ x # B) R"
  shows "\<exists>e M S. QListData_remove (length A) d = Some e \<and> laid_out e M (A @ B) S"
proof (cases "length A < last_end d - (length A + first d)")
  case True
  note d = assms [unfolded laid_out_def]
  obtain h where h: "take 1 (A @ [x]) = [h]" by (cases A) auto
  define e where "e = d\<lparr>array := L @ [h] @ A @ B @ R, first := length L + 1\<rparr>"
  have m: "move_nodes (length L + 1) (length L) (length A) (array d) = Some (L @ [h] @ A @ B @ R)"
    using move_right [of "length L" L "length L + 1" "[x]" "length A" A "B @ R"] d h by simp
  have "A = [] \<Longrightarrow> array d = L @ [h] @ A @ B @ R" using d h by simp
  then have "QListData_remove (length A) d = Some e"
    using True d m by (cases "A = []") (simp_all add: QListData_remove_def Let_def e_def)
  moreover have "laid_out e (L @ [h]) (A @ B) R" using d by (simp add: laid_out_def e_def)
  ultimately show ?thesis by blast
next
  case False
  note d = assms [unfolded laid_out_def]
  obtain h where h: "drop (length B) ([x] @ B) = [h]" using one_node [of "drop (length B) ([x] @ B)"] by auto
  define e where "e = d\<lparr>array := L @ A @ B @ [h] @ R, last_end := last_end d - 1\<rparr>"
  have m: "move_nodes (length L + length A) (length L + length A + 1) (length B) (array d) = Some (L @ A @ B @ [h] @ R)"
    using move_left [of "length L + length A" "L @ A" "length L + length A + 1" "[x]" "length B" B R] d h by simp
  have "B = [] \<Longrightarrow> array d = L @ A @ B @ [h] @ R" using d h by simp
  then have "QListData_remove (length A) d = Some e"
    using False d m by (cases "B = []") (simp_all add: QListData_remove_def Let_def e_def add.commute)
  moreover have "laid_out e L (A @ B) (h # R)" using d by (simp add: laid_out_def e_def)
  ultimately show ?thesis by blast
qed

lemma remove_range_ok:
  assumes "laid_out d L (A @ N @ B) R"
  shows "\<exists>e M S. QListData_remove_range (length A) (length N) d = Some e \<and> laid_out e M (A @ B) S"
proof (cases "length A + length N div 2 < last_end d - (length A + first d + length N div 2)")
  case True
  note d = assms [unfolded laid_out_def]
  define H where "H = take (length N) (A @ N)"
  have H: "length H = length N" by (simp add: H_def min_absorb1)
  define e where "e = d\<lparr>array := L @ H @ A @ B @ R, first := length L + length N\<rparr>"
  have "move_nodes (length L + length N) (length L) (length A) (array d) = Some (L @ H @ A @ B @ R)"
    using move_right [of "length L" L "length L + length N" N "length A" A "B @ R"] d by (simp add: H_def)
  then have "QListData_remove_range (length A) (length N) d = Some e"
    using True d by (simp add: QListData_remove_range_def Let_def e_def add.commute add.left_commute)
  moreover have "laid_out e (L @ H) (A @ B) R" using d H by (simp add: laid_out_def e_def)
  ultimately show ?thesis by blast
next
  case False
  note d = assms [unfolded laid_out_def]
  define H where "H = drop (length B) (N @ B)"
  define e where "e = d\<lparr>array := L @ A @ B @ H @ R, last_end := last_end d - length N\<rparr>"
  have "move_nodes (length L + length A) (length L + length A + length N) (length B) (array d) = Some (L @ A @ B @ H @ R)"
    using move_left [of "length L + length A" "L @ A" "length L + length A + length N" N "length B" B R] d by (simp add: H_def)
  then have "QListData_remove_range (length A) (length N) d = Some e"
    using False d by (simp add: QListData_remove_range_def Let_def e_def add.commute add.left_commute)
  moreover have "laid_out e L (A @ B) (H @ R)" using d by (simp add: laid_out_def e_def H_def)
  ultimately show ?thesis by blast
qed

lemma move_up_ok:
  assumes "laid_out d L (A @ [t] @ N @ B) R" "N \<noteq> []"
  shows "\<exists>e M S. QListData_move (length A) (length A + length N) d = Some e \<and> laid_out e M (A @ N @ [t] @ B) S"
proof -
  note d = assms(1) [unfolded laid_out_def]
  have t: "array d ! (length A + first d) = t" using d by (simp add: nth_append)
  define short where "short = (last_end d = alloc d \<or> 3 * length N < 2 * (last_end d - first d))"
  show ?thesis
  proof (cases short)
    case True
    obtain h where h: "drop (length N) ([t] @ N) = [h]" using one_node [of "drop (length N) ([t] @ N)"] by auto
    have "move_nodes (length L + length A) (length L + length A + 1) (length N) (array d) = Some (L @ A @ N @ [h] @ B @ R)"
      using move_left [of "length L + length A" "L @ A" "length L + length A + 1" "[t]" "length N" N "B @ R"] d h by simp
    moreover have "laid_out (d\<lparr>array := L @ A @ N @ [h] @ B @ R\<rparr>) L ((A @ N) @ h # B) R" using d by (simp add: laid_out_def)
    from set_laid_out [OF this refl, of t] obtain f where
      "set_node (length L + length (A @ N)) t (d\<lparr>array := L @ A @ N @ [h] @ B @ R\<rparr>) = Some f" "laid_out f L ((A @ N) @ t # B) R" by blast
    ultimately show ?thesis
      using True d t assms(2) unfolding short_def
      by (intro exI [of _ f] exI [of _ L] exI [of _ R]) (simp add: QListData_move_def Let_def add.commute add.left_commute)
  next
    case False
    then obtain g S where R: "R = g # S" using d by (cases R) (auto simp: short_def)
    obtain h where h: "take 1 (A @ [t]) = [h]" by (cases A) auto
    obtain k where k: "take 1 (B @ [g]) = [k]" by (cases B) auto
    define ys where "ys = L @ [h] @ A @ N @ B @ R"
    define zs where "zs = L @ [h] @ A @ N @ [k] @ B @ S"
    have "move_some (length L + 1) (length L) (length A) (array d) = Some ys"
      using move_right [of "length L" L "length L + 1" "[t]" "length A" A "N @ B @ R"] d h
      by (cases "A = []") (simp_all add: move_some_def ys_def)
    moreover have "move_some (length L + length A + length N + 2) (length L + length A + length N + 1) (length B) ys = Some zs"
      using move_right [of "length L + length A + length N + 1" "L @ [h] @ A @ N" "length L + length A + length N + 2" "[g]" "length B" B S] R k
      by (cases "B = []") (simp_all add: move_some_def ys_def zs_def)
    moreover define e where "e = d\<lparr>array := zs, first := first d + 1, last_end := last_end d + 1\<rparr>"
    moreover have "laid_out e (L @ [h]) ((A @ N) @ k # B) S" using d R by (simp add: laid_out_def e_def zs_def)
    from set_laid_out [OF this refl, of t] obtain f where
      "set_node (length (L @ [h]) + length (A @ N)) t e = Some f" "laid_out f (L @ [h]) ((A @ N) @ t # B) S" by blast
    ultimately show ?thesis
      using False d t assms(2) unfolding short_def
      by (intro exI [of _ f] exI [of _ "L @ [h]"] exI [of _ S])
        (simp add: QListData_move_def Let_def add.commute add.left_commute)
  qed
qed

lemma move_down_ok:
  assumes "laid_out d L (A @ N @ [t] @ B) R" "N \<noteq> []"
  shows "\<exists>e M S. QListData_move (length A + length N) (length A) d = Some e \<and> laid_out e M (A @ [t] @ N @ B) S"
proof -
  note d = assms(1) [unfolded laid_out_def]
  have t: "array d ! (length A + length N + first d) = t" using d by (simp add: nth_append)
  define short where "short = (first d = 0 \<or> 3 * length N < 2 * (last_end d - first d))"
  show ?thesis
  proof (cases short)
    case True
    obtain h where h: "take 1 (N @ [t]) = [h]" by (cases N) auto
    have "move_nodes (length L + length A + 1) (length L + length A) (length N) (array d) = Some (L @ A @ [h] @ N @ B @ R)"
      using move_right [of "length L + length A" "L @ A" "length L + length A + 1" "[t]" "length N" N "B @ R"] d h by simp
    moreover have "laid_out (d\<lparr>array := L @ A @ [h] @ N @ B @ R\<rparr>) L (A @ h # N @ B) R" using d by (simp add: laid_out_def)
    from set_laid_out [OF this refl, of t] obtain f where
      "set_node (length L + length A) t (d\<lparr>array := L @ A @ [h] @ N @ B @ R\<rparr>) = Some f" "laid_out f L (A @ t # N @ B) R" by blast
    ultimately show ?thesis
      using True d t assms(2) unfolding short_def
      by (intro exI [of _ f] exI [of _ L] exI [of _ R]) (simp add: QListData_move_def Let_def add.commute add.left_commute)
  next
    case False
    then obtain M g where L: "L = M @ [g]" using d by (cases L rule: rev_cases) (auto simp: short_def)
    obtain h where h: "drop (length A) ([g] @ A) = [h]" using one_node [of "drop (length A) ([g] @ A)"] by auto
    obtain k where k: "drop (length B) ([t] @ B) = [k]" using one_node [of "drop (length B) ([t] @ B)"] by auto
    define ys where "ys = M @ A @ [h] @ N @ [t] @ B @ R"
    define zs where "zs = M @ A @ [h] @ N @ B @ [k] @ R"
    have "move_some (length M) (length M + 1) (length A) (array d) = Some ys"
      using move_left [of "length M" M "length M + 1" "[g]" "length A" A "N @ [t] @ B @ R"] d h L
      by (cases "A = []") (simp_all add: move_some_def ys_def)
    moreover have "move_some (length M + length A + length N + 1) (length M + length A + length N + 2) (length B) ys = Some zs"
      using move_left [of "length M + length A + length N + 1" "M @ A @ [h] @ N" "length M + length A + length N + 2" "[t]" "length B" B R] k
      by (cases "B = []") (simp_all add: move_some_def ys_def zs_def)
    moreover define e where "e = d\<lparr>array := zs, first := first d - 1, last_end := last_end d - 1\<rparr>"
    moreover have "laid_out e M (A @ h # N @ B) (k # R)" using d L by (simp add: laid_out_def e_def zs_def)
    from set_laid_out [OF this refl, of t] obtain f where
      "set_node (length M + length A) t e = Some f" "laid_out f M (A @ t # N @ B) (k # R)" by blast
    ultimately show ?thesis
      using False d t assms(2) L unfolding short_def
      by (intro exI [of _ f] exI [of _ M] exI [of _ "k # R"])
        (simp add: QListData_move_def Let_def add.commute add.left_commute)
  qed
qed

end
