(* ===== verification/SharedList.thy ===== *)
theory SharedList
  imports ListSpec "HOL-Library.Multiset" "HOL-Library.Monad_Syntax"
begin

text \<open>
  \<open>QList\<close> (src/src/core/tools/qlist.h): a class with implicit sharing.  The state holds the blocks of \<open>QListData\<close> with
  their reference counts, the variables of type \<open>QList\<close> with the block each points to, and the elements that were
  constructed and not yet destroyed (\<open>node_construct\<close>, \<open>node_copy\<close> and \<open>node_destruct\<close>).  Block 0 is \<open>shared_null\<close>.

  An element is its value, and its type's \<open>==\<close> is equality.  \<open>None\<close> is an access outside of an array or to a block that was
  freed, or a violated assertion.
\<close>

record 'a shared_data =
  ref :: nat
  data :: "'a Data"

record 'a lists =
  blocks :: "nat \<Rightarrow> 'a shared_data option"
  vars :: "nat \<Rightarrow> nat option"
  next_block :: nat
  live :: "'a multiset"

text \<open>The elements of the nodes from \<open>i\<close> on, read one by one.\<close>

definition read_nodes :: "nat \<Rightarrow> nat \<Rightarrow> 'a Data \<Rightarrow> 'a list option" where
  "read_nodes i n d = (if i + n \<le> length (array d) then Some (take n (drop i (array d))) else None)"

definition write_nodes :: "nat \<Rightarrow> 'a list \<Rightarrow> 'a Data \<Rightarrow> 'a Data option" where
  "write_nodes i xs d =
    (if i + length xs \<le> length (array d)
     then Some (d\<lparr>array := take i (array d) @ xs @ drop (i + length xs) (array d)\<rparr>) else None)"

section \<open>Reference counts\<close>

definition no_lists :: "'a lists" where
  "no_lists = \<lparr>blocks = [0 \<mapsto> \<lparr>ref = 1, data = empty_data\<rparr>], vars = (\<lambda>v. None), next_block = 1, live = {#}\<rparr>"

definition block_of :: "nat \<Rightarrow> 'a lists \<Rightarrow> (nat \<times> 'a shared_data) option" where
  "block_of v w = do { a \<leftarrow> vars w v; c \<leftarrow> blocks w a; Some (a, c) }"

definition ref_block :: "nat \<Rightarrow> 'a lists \<Rightarrow> 'a lists option" where
  "ref_block a w = do { c \<leftarrow> blocks w a; Some (w\<lparr>blocks := (blocks w)(a \<mapsto> c\<lparr>ref := ref c + 1\<rparr>)\<rparr>) }"

definition freeData :: "nat \<Rightarrow> 'a lists \<Rightarrow> 'a lists" where
  "freeData a w = (if a \<noteq> 0 then w\<lparr>blocks := (blocks w)(a := None)\<rparr> else w)"

text \<open>Dropping a reference, with the destruction of the elements by the last one or without.\<close>

definition deref_block :: "bool \<Rightarrow> nat \<Rightarrow> 'a lists \<Rightarrow> 'a lists option" where
  "deref_block destruct a w = do {
    c \<leftarrow> blocks w a;
    if ref c = 0 then None
    else if ref c = 1
    then do {
      xs \<leftarrow> read_nodes (first (data c)) (last_end (data c) - first (data c)) (data c);
      Some (freeData a (if destruct then w\<lparr>live := live w - mset xs\<rparr> else w)) }
    else Some (w\<lparr>blocks := (blocks w)(a \<mapsto> c\<lparr>ref := ref c - 1\<rparr>)\<rparr>) }"

definition new_QList :: "nat \<Rightarrow> 'a lists \<Rightarrow> 'a lists option" where
  "new_QList v w = map_option (\<lambda>w. w\<lparr>vars := (vars w)(v \<mapsto> 0)\<rparr>) (ref_block 0 w)"

definition copy_QList :: "nat \<Rightarrow> nat \<Rightarrow> 'a lists \<Rightarrow> 'a lists option" where
  "copy_QList v l w = do {
    (a, c) \<leftarrow> block_of l w;
    w \<leftarrow> ref_block a w;
    Some (w\<lparr>vars := (vars w)(v \<mapsto> a)\<rparr>) }"

definition destroy_QList :: "nat \<Rightarrow> 'a lists \<Rightarrow> 'a lists option" where
  "destroy_QList v w = do {
    a \<leftarrow> vars w v;
    w \<leftarrow> deref_block True a w;
    Some (w\<lparr>vars := (vars w)(v := None)\<rparr>) }"

definition QList_assign :: "nat \<Rightarrow> nat \<Rightarrow> 'a lists \<Rightarrow> 'a lists option" where
  "QList_assign v l w = do {
    d \<leftarrow> vars w v;
    o' \<leftarrow> vars w l;
    if d \<noteq> o' then do {
      w \<leftarrow> ref_block o' w;
      w \<leftarrow> deref_block True d w;
      Some (w\<lparr>vars := (vars w)(v \<mapsto> o')\<rparr>) }
    else Some w }"

definition QList_swap_with :: "nat \<Rightarrow> nat \<Rightarrow> 'a lists \<Rightarrow> 'a lists option" where
  "QList_swap_with v l w = do {
    d \<leftarrow> vars w v;
    o' \<leftarrow> vars w l;
    Some (w\<lparr>vars := (vars w)(v \<mapsto> o', l \<mapsto> d)\<rparr>) }"

definition detach_helper :: "'a \<Rightarrow> nat \<Rightarrow> nat \<Rightarrow> 'a lists \<Rightarrow> 'a lists option" where
  "detach_helper junk n v w = do {
    (x, c) \<leftarrow> block_of v w;
    let t = QListData_detach junk n (data c);
    xs \<leftarrow> read_nodes (first (data c)) (last_end t - first t) (data c);
    t \<leftarrow> write_nodes (first t) xs t;
    let b = next_block w;
    let w = w\<lparr>blocks := (blocks w)(b \<mapsto> \<lparr>ref = 1, data = t\<rparr>), next_block := b + 1, vars := (vars w)(v \<mapsto> b),
             live := live w + mset xs\<rparr>;
    deref_block False x w }"

definition QList_detach :: "'a \<Rightarrow> nat \<Rightarrow> 'a lists \<Rightarrow> 'a lists option" where
  "QList_detach junk v w = do {
    (a, c) \<leftarrow> block_of v w;
    if ref c \<noteq> 1 then detach_helper junk (alloc (data c)) v w else Some w }"

definition QList_reserve :: "'a \<Rightarrow> int \<Rightarrow> nat \<Rightarrow> 'a lists \<Rightarrow> 'a lists option" where
  "QList_reserve junk n v w = do {
    (a, c) \<leftarrow> block_of v w;
    if int (alloc (data c)) < n then detach_helper junk (nat n) v w else Some w }"

definition QList_clear :: "nat \<Rightarrow> nat \<Rightarrow> 'a lists \<Rightarrow> 'a lists option" where
  "QList_clear tmp v w = do {
    w \<leftarrow> new_QList tmp w;
    w \<leftarrow> QList_swap_with v tmp w;
    destroy_QList tmp w }"

section \<open>Queries\<close>

definition QList_at :: "nat \<Rightarrow> 'a Data \<Rightarrow> 'a option" where
  "QList_at i d = (if i < QListData_size d then QListData_at i d else None)"

definition QList_value :: "int \<Rightarrow> 'a \<Rightarrow> 'a Data \<Rightarrow> 'a option" where
  "QList_value i defaultValue d =
    (if i < 0 \<or> i \<ge> int (QListData_size d) then Some defaultValue else QListData_at (nat i) d)"

text \<open>The loops over the nodes, upwards and downwards; \<open>i\<close> counts from the first node.\<close>

function scan_up :: "'a \<Rightarrow> nat \<Rightarrow> 'a Data \<Rightarrow> int option" where
  "scan_up t i d =
    (if i < QListData_size d then do {
       x \<leftarrow> QListData_at i d;
       if x = t then Some (int i) else scan_up t (i + 1) d }
     else Some (-1))"
  by pat_completeness auto
termination
  by (relation "measure (\<lambda>(t, i, d). QListData_size d - i)") auto

fun scan_down :: "'a \<Rightarrow> nat \<Rightarrow> 'a Data \<Rightarrow> int option" where
  "scan_down t 0 d = Some (-1)"
| "scan_down t (Suc i) d = do {
    x \<leftarrow> QListData_at i d;
    if x = t then Some (int i) else scan_down t i d }"

fun count_down :: "'a \<Rightarrow> nat \<Rightarrow> nat \<Rightarrow> 'a Data \<Rightarrow> nat option" where
  "count_down t c 0 d = Some c"
| "count_down t c (Suc i) d = do {
    x \<leftarrow> QListData_at i d;
    count_down t (if x = t then c + 1 else c) i d }"

declare scan_up.simps [simp del]

definition QList_indexOf :: "'a \<Rightarrow> int \<Rightarrow> 'a Data \<Rightarrow> int option" where
  "QList_indexOf t start d =
    (let start = (if start < 0 then max (start + int (QListData_size d)) 0 else start)
     in if start < int (QListData_size d) then scan_up t (nat start) d else Some (-1))"

definition QList_lastIndexOf :: "'a \<Rightarrow> int \<Rightarrow> 'a Data \<Rightarrow> int option" where
  "QList_lastIndexOf t start d =
    (let size = int (QListData_size d);
         start = (if start < 0 then start + size else if start \<ge> size then size - 1 else start)
     in if start \<ge> 0 then scan_down t (nat start + 1) d else Some (-1))"

definition QList_contains :: "'a \<Rightarrow> 'a Data \<Rightarrow> bool option" where
  "QList_contains t d = map_option (\<lambda>i. i \<noteq> -1) (scan_down t (QListData_size d) d)"

definition QList_count :: "'a \<Rightarrow> 'a Data \<Rightarrow> nat option" where
  "QList_count t d = count_down t 0 (QListData_size d) d"

fun equal_down :: "nat \<Rightarrow> 'a Data \<Rightarrow> 'a Data \<Rightarrow> bool option" where
  "equal_down 0 d l = Some True"
| "equal_down (Suc i) d l = do {
    x \<leftarrow> QListData_at i d;
    y \<leftarrow> QListData_at i l;
    if x \<noteq> y then Some False else equal_down i d l }"

definition QList_equal :: "nat \<Rightarrow> nat \<Rightarrow> 'a lists \<Rightarrow> bool option" where
  "QList_equal v l w = do {
    (a, c) \<leftarrow> block_of v w;
    (b, e) \<leftarrow> block_of l w;
    if QListData_size (data c) \<noteq> QListData_size (data e) then Some False
    else if a = b then Some True
    else equal_down (QListData_size (data c)) (data c) (data e) }"

section \<open>Operations on the elements\<close>

text \<open>
  On the data of a detached list: the new data, the elements constructed and the elements destroyed.  A node to be filled is
  written at once.  The iterators of \<open>erase\<close> are an index and a length; they come from a \<open>begin\<close> or \<open>end\<close> that detached.
\<close>

type_synonym 'a change = "'a Data \<times> 'a list \<times> 'a list"

definition put_node :: "'a \<Rightarrow> (nat \<times> 'a Data) option \<Rightarrow> 'a change option" where
  "put_node x r = do { (k, d) \<leftarrow> r; d \<leftarrow> set_node k x d; Some (d, [x], []) }"

definition list_append :: "'a \<Rightarrow> 'a \<Rightarrow> 'a Data \<Rightarrow> 'a change option" where
  "list_append junk x d = put_node x (QListData_append junk 1 d)"

definition list_prepend :: "'a \<Rightarrow> 'a \<Rightarrow> 'a Data \<Rightarrow> 'a change option" where
  "list_prepend junk x d = put_node x (QListData_prepend junk d)"

definition list_insert :: "'a \<Rightarrow> int \<Rightarrow> 'a \<Rightarrow> 'a Data \<Rightarrow> 'a change option" where
  "list_insert junk i x d = put_node x (QListData_insert junk i d)"

definition list_replace :: "nat \<Rightarrow> 'a \<Rightarrow> 'a Data \<Rightarrow> 'a change option" where
  "list_replace i x d = do { y \<leftarrow> QList_at i d; d \<leftarrow> set_node (first d + i) x d; Some (d, [x], [y]) }"

definition list_removeAt :: "int \<Rightarrow> 'a Data \<Rightarrow> 'a change option" where
  "list_removeAt i d = do { y \<leftarrow> QListData_at (nat i) d; d \<leftarrow> QListData_remove (nat i) d; Some (d, [], [y]) }"

definition list_swap :: "nat \<Rightarrow> nat \<Rightarrow> 'a Data \<Rightarrow> 'a change option" where
  "list_swap i j d = do {
    t \<leftarrow> QList_at i d;
    u \<leftarrow> QList_at j d;
    d \<leftarrow> set_node (first d + i) u d;
    d \<leftarrow> set_node (first d + j) t d;
    Some (d, [], []) }"

definition list_move :: "nat \<Rightarrow> nat \<Rightarrow> 'a Data \<Rightarrow> 'a change option" where
  "list_move i j d =
    (if i < QListData_size d \<and> j < QListData_size d then do { d \<leftarrow> QListData_move i j d; Some (d, [], []) } else None)"

definition list_erase :: "nat \<Rightarrow> nat \<Rightarrow> 'a Data \<Rightarrow> 'a change option" where
  "list_erase i n d = do {
    ys \<leftarrow> read_nodes (first d + i) n d;
    d \<leftarrow> QListData_remove_range i n d;
    Some (d, [], ys) }"

text \<open>
  The loop of \<open>removeAll\<close> on the array: \<open>i\<close> runs over the nodes behind the first match up to \<open>e\<close>, \<open>n\<close> is where the next node
  is kept.
\<close>

function compact :: "'a \<Rightarrow> nat \<Rightarrow> nat \<Rightarrow> nat \<Rightarrow> 'a list \<Rightarrow> 'a list \<Rightarrow> (nat \<times> 'a list \<times> 'a list) option" where
  "compact t e i n dead xs =
    (if i < e then
       (if i < length xs \<and> n < length xs then
          (if xs ! i = t then compact t e (i + 1) n (xs ! i # dead) xs
           else compact t e (i + 1) (n + 1) dead (xs[n := xs ! i]))
        else None)
     else Some (n, dead, xs))"
  by pat_completeness auto
termination
  by (relation "measure (\<lambda>(t, e, i, n, dead, xs). e - i)") auto

declare compact.simps [simp del]

definition list_removeAll :: "'a \<Rightarrow> nat \<Rightarrow> 'a Data \<Rightarrow> (nat \<times> 'a change) option" where
  "list_removeAll t index d = do {
    y \<leftarrow> QListData_at index d;
    let i = first d + index;
    (n, dead, xs) \<leftarrow> compact t (last_end d) (i + 1) i [y] (array d);
    let removedCount = last_end d - n;
    Some (removedCount, d\<lparr>array := xs, last_end := last_end d - removedCount\<rparr>, [], dead) }"

section \<open>Operations on a list\<close>

text \<open>Every operation detaches the list first.\<close>

definition commit :: "nat \<Rightarrow> 'a change \<Rightarrow> 'a lists \<Rightarrow> 'a lists option" where
  "commit v ch w = do {
    (a, c) \<leftarrow> block_of v w;
    let (d, new, dead) = ch;
    Some (w\<lparr>blocks := (blocks w)(a \<mapsto> c\<lparr>data := d\<rparr>), live := live w + mset new - mset dead\<rparr>) }"

definition mutate :: "'a \<Rightarrow> ('a Data \<Rightarrow> 'a change option) \<Rightarrow> nat \<Rightarrow> 'a lists \<Rightarrow> 'a lists option" where
  "mutate junk f v w = do {
    w \<leftarrow> QList_detach junk v w;
    (a, c) \<leftarrow> block_of v w;
    ch \<leftarrow> f (data c);
    commit v ch w }"

definition QList_append :: "'a \<Rightarrow> 'a \<Rightarrow> nat \<Rightarrow> 'a lists \<Rightarrow> 'a lists option" where
  "QList_append junk x = mutate junk (list_append junk x)"

definition QList_prepend :: "'a \<Rightarrow> 'a \<Rightarrow> nat \<Rightarrow> 'a lists \<Rightarrow> 'a lists option" where
  "QList_prepend junk x = mutate junk (list_prepend junk x)"

definition QList_insert :: "'a \<Rightarrow> int \<Rightarrow> 'a \<Rightarrow> nat \<Rightarrow> 'a lists \<Rightarrow> 'a lists option" where
  "QList_insert junk i x = mutate junk (list_insert junk i x)"

definition QList_replace :: "'a \<Rightarrow> nat \<Rightarrow> 'a \<Rightarrow> nat \<Rightarrow> 'a lists \<Rightarrow> 'a lists option" where
  "QList_replace junk i x = mutate junk (list_replace i x)"

definition QList_swap :: "'a \<Rightarrow> nat \<Rightarrow> nat \<Rightarrow> nat \<Rightarrow> 'a lists \<Rightarrow> 'a lists option" where
  "QList_swap junk i j = mutate junk (list_swap i j)"

definition QList_move :: "'a \<Rightarrow> nat \<Rightarrow> nat \<Rightarrow> nat \<Rightarrow> 'a lists \<Rightarrow> 'a lists option" where
  "QList_move junk i j = mutate junk (list_move i j)"

definition QList_erase :: "'a \<Rightarrow> nat \<Rightarrow> nat \<Rightarrow> nat \<Rightarrow> 'a lists \<Rightarrow> 'a lists option" where
  "QList_erase junk i n = mutate junk (list_erase i n)"

definition QList_removeAt :: "'a \<Rightarrow> int \<Rightarrow> nat \<Rightarrow> 'a lists \<Rightarrow> 'a lists option" where
  "QList_removeAt junk i v w = do {
    (a, c) \<leftarrow> block_of v w;
    if i \<ge> 0 \<and> i < int (QListData_size (data c)) then mutate junk (list_removeAt i) v w else Some w }"

definition QList_takeAt :: "'a \<Rightarrow> nat \<Rightarrow> nat \<Rightarrow> 'a lists \<Rightarrow> ('a \<times> 'a lists) option" where
  "QList_takeAt junk i v w = do {
    w \<leftarrow> QList_detach junk v w;
    (a, c) \<leftarrow> block_of v w;
    t \<leftarrow> QList_at i (data c);
    ch \<leftarrow> list_removeAt (int i) (data c);
    w \<leftarrow> commit v ch w;
    Some (t, w) }"

definition QList_takeFirst :: "'a \<Rightarrow> nat \<Rightarrow> 'a lists \<Rightarrow> ('a \<times> 'a lists) option" where
  "QList_takeFirst junk v w = do {
    w \<leftarrow> QList_detach junk v w;
    (a, c) \<leftarrow> block_of v w;
    t \<leftarrow> QList_at 0 (data c);
    w \<leftarrow> mutate junk (list_removeAt 0) v w;
    Some (t, w) }"

definition QList_takeLast :: "'a \<Rightarrow> nat \<Rightarrow> 'a lists \<Rightarrow> ('a \<times> 'a lists) option" where
  "QList_takeLast junk v w = do {
    w \<leftarrow> QList_detach junk v w;
    (a, c) \<leftarrow> block_of v w;
    t \<leftarrow> QList_at (QListData_size (data c) - 1) (data c);
    w \<leftarrow> mutate junk (list_removeAt (int (QListData_size (data c)) - 1)) v w;
    Some (t, w) }"

definition QList_removeOne :: "'a \<Rightarrow> 'a \<Rightarrow> nat \<Rightarrow> 'a lists \<Rightarrow> (bool \<times> 'a lists) option" where
  "QList_removeOne junk t v w = do {
    (a, c) \<leftarrow> block_of v w;
    index \<leftarrow> QList_indexOf t 0 (data c);
    if index \<noteq> -1 then do { w \<leftarrow> QList_removeAt junk index v w; Some (True, w) } else Some (False, w) }"

definition QList_removeAll :: "'a \<Rightarrow> 'a \<Rightarrow> nat \<Rightarrow> 'a lists \<Rightarrow> (nat \<times> 'a lists) option" where
  "QList_removeAll junk t v w = do {
    (a, c) \<leftarrow> block_of v w;
    index \<leftarrow> QList_indexOf t 0 (data c);
    if index = -1 then Some (0, w)
    else do {
      w \<leftarrow> QList_detach junk v w;
      (a, c) \<leftarrow> block_of v w;
      (n, ch) \<leftarrow> list_removeAll t (nat index) (data c);
      w \<leftarrow> commit v ch w;
      Some (n, w) } }"

text \<open>\<open>mid\<close> gives its list to the variable \<open>r\<close>.\<close>

definition QList_mid :: "'a \<Rightarrow> nat \<Rightarrow> int \<Rightarrow> nat \<Rightarrow> nat \<Rightarrow> 'a lists \<Rightarrow> 'a lists option" where
  "QList_mid junk pos alength r v w = do {
    (a, c) \<leftarrow> block_of v w;
    let size = int (QListData_size (data c));
    let alength = (if alength < 0 \<or> i32 (int pos + alength) > size then size - int pos else alength);
    if pos = 0 \<and> alength = size then copy_QList r v w
    else do {
      w \<leftarrow> new_QList r w;
      if alength \<le> 0 then Some w
      else do {
        w \<leftarrow> QList_reserve junk alength r w;
        (b, e) \<leftarrow> block_of r w;
        (a, c) \<leftarrow> block_of v w;
        xs \<leftarrow> read_nodes (first (data c) + pos) (nat alength) (data c);
        d \<leftarrow> write_nodes (first (data e)) xs ((data e)\<lparr>last_end := nat alength\<rparr>);
        commit r (d, xs, []) w } } }"

definition QList_append_list :: "'a \<Rightarrow> nat \<Rightarrow> nat \<Rightarrow> 'a lists \<Rightarrow> 'a lists option" where
  "QList_append_list junk l v w = do {
    (b, e) \<leftarrow> block_of l w;
    if QListData_isEmpty (data e) then Some w
    else do {
      (a, c) \<leftarrow> block_of v w;
      if QListData_isEmpty (data c) then QList_assign v l w
      else do {
        w \<leftarrow> QList_detach junk v w;
        (a, c) \<leftarrow> block_of v w;
        (b, e) \<leftarrow> block_of l w;
        (n, d) \<leftarrow> QListData_append junk (QListData_size (data e)) (data c);
        w \<leftarrow> commit v (d, [], []) w;
        (b, e) \<leftarrow> block_of l w;
        xs \<leftarrow> read_nodes (first (data e)) (last_end d - n) (data e);
        d \<leftarrow> write_nodes n xs d;
        commit v (d, xs, []) w } } }"

end
