(* ===== verification/ListChange.thy ===== *)
theory ListChange
  imports SharedList
begin

text \<open>
  What the operations on the data of a list do to its elements: the locale \<open>list_change\<close> is the contract that the
  operations on shared lists rely on.
\<close>

section \<open>The contract\<close>

text \<open>
  \<open>change\<close> stays within the array, keeps the invariant, does \<open>effect\<close> to the elements, and accounts for the elements
  constructed and destroyed.
\<close>

locale list_change =
  fixes change :: "'a Data \<Rightarrow> 'a change option"
    and effect :: "'a list \<Rightarrow> 'a list"
    and allowed :: "'a list \<Rightarrow> bool"
  assumes changes: "data_ok d \<Longrightarrow> allowed (nodes d) \<Longrightarrow>
    \<exists>e new dead. change d = Some (e, new, dead) \<and> data_ok e \<and> nodes e = effect (nodes d) \<and>
      mset (effect (nodes d)) + mset dead = mset (nodes d) + mset new"

lemma at_nodes: "data_ok d \<Longrightarrow> i < length (nodes d) \<Longrightarrow> QListData_at i d = Some (nodes d ! i)"
  by (auto simp: QListData_at_def data_ok_def nodes_def)

lemma QList_at_nodes: "data_ok d \<Longrightarrow> QList_at i d = (if i < length (nodes d) then Some (nodes d ! i) else None)"
  using at_nodes [of d i] by (auto simp: QList_at_def QListData_size_def length_nodes)

lemma size_nodes: "data_ok d \<Longrightarrow> QListData_size d = length (nodes d)"
  by (simp add: QListData_size_def length_nodes)

lemma put_ok:
  assumes "\<exists>k e M R' g. r = Some (k, e) \<and> laid_out e M (A @ g # B) R' \<and> k = length M + length A"
  shows "\<exists>e. put_node x r = Some (e, [x], []) \<and> data_ok e \<and> nodes e = A @ x # B"
proof -
  obtain k e M R' g where e: "r = Some (k, e)" "laid_out e M (A @ g # B) R'" "k = length M + length A" using assms by blast
  from set_laid_out [OF e(2,3), of x] obtain f where "set_node k x e = Some f" "laid_out f M (A @ x # B) R'" by blast
  then show ?thesis using e(1) laid_out_ok by (fastforce simp: put_node_def)
qed

interpretation prepend: list_change "list_prepend junk x" "\<lambda>xs. x # xs" "\<lambda>xs. True" for junk x
proof
  fix d :: "'a Data"
  assume "data_ok d"
  then obtain L R where "laid_out d L (nodes d) R" using ok_laid_out by blast
  from prepend_room [OF this, of junk] obtain k e M R' g where
    "QListData_prepend junk d = Some (k, e)" "laid_out e M ([] @ g # nodes d) R'" "k = length M + length ([] :: 'a list)" by auto
  from put_ok [of "QListData_prepend junk d" "[]" "nodes d" x] this
  show "\<exists>e new dead. list_prepend junk x d = Some (e, new, dead) \<and> data_ok e \<and> nodes e = x # nodes d \<and>
      mset (x # nodes d) + mset dead = mset (nodes d) + mset new"
    by (fastforce simp: list_prepend_def)
qed

interpretation append: list_change "list_append junk x" "\<lambda>xs. xs @ [x]" "\<lambda>xs. True" for junk x
proof
  fix d :: "'a Data"
  assume "data_ok d"
  then obtain L R where "laid_out d L (nodes d) R" using ok_laid_out by blast
  from append_room [OF this, of junk 1] obtain k e G M R' where
    e: "QListData_append junk 1 d = Some (k, e)" "laid_out e M (nodes d @ G) R'" "length G = 1" "k = length M + length (nodes d)"
    by auto
  moreover obtain g where "G = [g]" using one_node [OF e(3)] by blast
  ultimately show "\<exists>e new dead. list_append junk x d = Some (e, new, dead) \<and> data_ok e \<and> nodes e = nodes d @ [x] \<and>
      mset (nodes d @ [x]) + mset dead = mset (nodes d) + mset new"
    using put_ok [of "QListData_append junk 1 d" "nodes d" "[]" x] by (fastforce simp: list_append_def)
qed

text \<open>Where \<open>insert\<close> puts the element: a position outside of the list is clipped.\<close>

definition insert_at :: "int \<Rightarrow> 'a \<Rightarrow> 'a list \<Rightarrow> 'a list" where
  "insert_at i x xs = take (nat i) xs @ x # drop (nat i) xs"

interpretation insert: list_change "list_insert junk i x" "insert_at i x" "\<lambda>xs. True" for junk i x
proof
  fix d :: "'a Data"
  assume ok: "data_ok d"
  define A where "A = take (nat i) (nodes d)"
  define B where "B = drop (nat i) (nodes d)"
  have "nodes d = A @ B" by (simp add: A_def B_def)
  then obtain L R where l: "laid_out d L (A @ B) R" using ok_laid_out [OF ok] by metis
  have "i = int (length A) \<or> i \<le> 0 \<and> A = [] \<or> int (length A) \<le> i \<and> B = []"
  proof (cases "0 < i")
    case True
    then obtain n where "i = int n" using zero_less_imp_eq_int by blast
    then show ?thesis by (auto simp: A_def B_def)
  qed (simp add: A_def)
  from insert_room [OF l this, of junk] have "\<exists>k e M R' g. QListData_insert junk i d = Some (k, e) \<and>
      laid_out e M (A @ g # B) R' \<and> k = length M + length A" .
  from put_ok [OF this, of x] obtain e where e: "list_insert junk i x d = Some (e, [x], [])" "data_ok e" "nodes e = A @ x # B"
    unfolding list_insert_def by blast
  show "\<exists>e new dead. list_insert junk i x d = Some (e, new, dead) \<and> data_ok e \<and> nodes e = insert_at i x (nodes d) \<and>
      mset (insert_at i x (nodes d)) + mset dead = mset (nodes d) + mset new"
    using e arg_cong [OF \<open>nodes d = A @ B\<close>, of mset]
    by (intro exI [of _ e] exI [of _ "[x]"] exI [of _ "[]"]) (simp add: insert_at_def flip: A_def B_def)
qed

lemma split_at: "i < length xs \<Longrightarrow> \<exists>A B. xs = A @ xs ! i # B \<and> A = take i xs \<and> B = drop (Suc i) xs \<and> length A = i"
  using id_take_nth_drop [of i xs] by simp

lemma set_at:
  assumes "laid_out d L xs R" "i < length xs"
  shows "\<exists>e. set_node (first d + i) x d = Some e \<and> laid_out e L (xs[i := x]) R"
proof -
  obtain A B where s: "xs = A @ xs ! i # B" "A = take i xs" "B = drop (Suc i) xs" "length A = i"
    using split_at [OF assms(2)] by blast
  have "laid_out d L (A @ xs ! i # B) R" unfolding s(1) [symmetric] by (rule assms(1))
  moreover have "first d + i = length L + length A" using assms(1) s(4) by (simp add: laid_out_def)
  moreover have "xs[i := x] = A @ x # B" using upd_conv_take_nth_drop [OF assms(2)] s(2,3) by simp
  ultimately show ?thesis using set_laid_out [of d L A "xs ! i" B R "first d + i" x] by simp
qed

interpretation replace: list_change "list_replace i x" "\<lambda>xs. xs[i := x]" "\<lambda>xs. i < length xs" for i x
proof
  fix d :: "'a Data"
  assume ok: "data_ok d" and i: "i < length (nodes d)"
  obtain L R where "laid_out d L (nodes d) R" using ok_laid_out [OF ok] by blast
  from set_at [OF this i, of x] obtain e where e: "set_node (first d + i) x d = Some e" "laid_out e L ((nodes d)[i := x]) R" by blast
  have "mset ((nodes d)[i := x]) + {#nodes d ! i#} = add_mset x (mset (nodes d))" using i by (simp add: mset_update)
  then show "\<exists>e new dead. list_replace i x d = Some (e, new, dead) \<and> data_ok e \<and> nodes e = (nodes d)[i := x] \<and>
      mset ((nodes d)[i := x]) + mset dead = mset (nodes d) + mset new"
    using e i laid_out_ok [OF e(2)]
    by (intro exI [of _ e] exI [of _ "[x]"] exI [of _ "[nodes d ! i]"]) (simp add: list_replace_def QList_at_nodes [OF ok])
qed

definition remove_at :: "nat \<Rightarrow> 'a list \<Rightarrow> 'a list" where
  "remove_at i xs = take i xs @ drop (Suc i) xs"

interpretation removeAt: list_change "list_removeAt (int i)" "remove_at i" "\<lambda>xs. i < length xs" for i
proof
  fix d :: "'a Data"
  assume ok: "data_ok d" and i: "i < length (nodes d)"
  obtain A B where s: "nodes d = A @ nodes d ! i # B" "A = take i (nodes d)" "B = drop (Suc i) (nodes d)" "length A = i"
    using split_at [OF i] by blast
  obtain L R where "laid_out d L (A @ nodes d ! i # B) R" using ok_laid_out [OF ok] s(1) by metis
  from remove_node_ok [OF this] obtain e M S where e: "QListData_remove i d = Some e" "laid_out e M (A @ B) S" using s(4) by blast
  have m: "mset (nodes d) = add_mset (nodes d ! i) (mset (A @ B))" using arg_cong [OF s(1), of mset] by simp
  show "\<exists>e new dead. list_removeAt (int i) d = Some (e, new, dead) \<and> data_ok e \<and> nodes e = remove_at i (nodes d) \<and>
      mset (remove_at i (nodes d)) + mset dead = mset (nodes d) + mset new"
    using e(1) laid_out_ok [OF e(2)] at_nodes [OF ok i] m
    by (intro exI [of _ e] exI [of _ "[]"] exI [of _ "[nodes d ! i]"])
      (simp add: list_removeAt_def remove_at_def s(2,3))
qed

definition swap_at :: "nat \<Rightarrow> nat \<Rightarrow> 'a list \<Rightarrow> 'a list" where
  "swap_at i j xs = xs[i := xs ! j, j := xs ! i]"

interpretation swap: list_change "list_swap i j" "swap_at i j" "\<lambda>xs. i < length xs \<and> j < length xs" for i j
proof
  fix d :: "'a Data"
  assume ok: "data_ok d" and ij: "i < length (nodes d) \<and> j < length (nodes d)"
  obtain L R where l: "laid_out d L (nodes d) R" using ok_laid_out [OF ok] by blast
  obtain e where e: "set_node (first d + i) (nodes d ! j) d = Some e" "laid_out e L ((nodes d)[i := nodes d ! j]) R"
    using set_at [OF l] ij by blast
  have "first e = first d" using e(2) l by (simp add: laid_out_def)
  then obtain f where f: "set_node (first d + j) (nodes d ! i) e = Some f" "laid_out f L (swap_at i j (nodes d)) R"
    using set_at [OF e(2), of j "nodes d ! i"] ij by (auto simp: swap_at_def)
  have "first e = first d" using e(2) l by (simp add: laid_out_def)
  then have "list_swap i j d = Some (f, [], [])" using e(1) f(1) ij ok by (simp add: list_swap_def QList_at_nodes)
  moreover have "mset (swap_at i j (nodes d)) = mset (nodes d)" using ij unfolding swap_at_def by (simp add: mset_swap)
  ultimately show "\<exists>e new dead. list_swap i j d = Some (e, new, dead) \<and> data_ok e \<and> nodes e = swap_at i j (nodes d) \<and>
      mset (swap_at i j (nodes d)) + mset dead = mset (nodes d) + mset new"
    using laid_out_ok [OF f(2)] by (intro exI [of _ f] exI [of _ "[]"]) simp
qed

definition move_item :: "nat \<Rightarrow> nat \<Rightarrow> 'a list \<Rightarrow> 'a list" where
  "move_item i j xs = insert_at (int j) (xs ! i) (remove_at i xs)"

lemma move_item_parts:
  "move_item (length A) (length A + length N) (A @ [t] @ N @ B) = A @ N @ [t] @ B"
  "move_item (length A + length N) (length A) (A @ N @ [t] @ B) = A @ [t] @ N @ B"
  by (simp_all add: move_item_def insert_at_def remove_at_def nth_append)

lemma move_split:
  assumes "i < length xs" "j < length xs"
  shows "\<exists>A N B t. xs = A @ [t] @ N @ B \<and> length A = i \<and> length A + length N = j \<or>
    xs = A @ N @ [t] @ B \<and> length A + length N = i \<and> length A = j"
proof (cases "i \<le> j")
  case True
  have "xs = take i xs @ [xs ! i] @ take (j - i) (drop (Suc i) xs) @ drop (j - i) (drop (Suc i) xs)"
    using id_take_nth_drop [OF assms(1)] by (simp del: drop_drop)
  moreover have "length (take i xs) = i" "length (take i xs) + length (take (j - i) (drop (Suc i) xs)) = j"
    using True assms by simp_all
  ultimately show ?thesis by blast
next
  case False
  have "xs = take j xs @ take (i - j) (drop j xs) @ [xs ! i] @ drop (Suc i) xs"
    using id_take_nth_drop [OF assms(1)] False by (metis append.assoc append_Cons append_Nil le_add_diff_inverse nat_le_linear take_add)
  moreover have "length (take j xs) = j" "length (take j xs) + length (take (i - j) (drop j xs)) = i"
    using False assms by simp_all
  ultimately show ?thesis by blast
qed

lemma move_item_mset:
  assumes "i < length xs" "j < length xs"
  shows "mset (move_item i j xs) = mset xs"
proof -
  obtain A N B t where "xs = A @ [t] @ N @ B \<and> length A = i \<and> length A + length N = j \<or>
    xs = A @ N @ [t] @ B \<and> length A + length N = i \<and> length A = j" using move_split [OF assms] by blast
  then show ?thesis using move_item_parts [of A N t B] by auto
qed

interpretation move: list_change "list_move i j" "move_item i j" "\<lambda>xs. i < length xs \<and> j < length xs" for i j
proof
  fix d :: "'a Data"
  assume ok: "data_ok d" and ij: "i < length (nodes d) \<and> j < length (nodes d)"
  obtain L R where l: "laid_out d L (nodes d) R" using ok_laid_out [OF ok] by blast
  have "\<exists>e M S. QListData_move i j d = Some e \<and> laid_out e M (move_item i j (nodes d)) S"
  proof -
    from move_split [of i "nodes d" j] ij obtain A N B t where
      "nodes d = A @ [t] @ N @ B \<and> length A = i \<and> length A + length N = j \<or>
       nodes d = A @ N @ [t] @ B \<and> length A + length N = i \<and> length A = j" by blast
    then consider (same) "i = j" | (up) "nodes d = A @ [t] @ N @ B" "length A = i" "length A + length N = j" "N \<noteq> []"
      | (down) "nodes d = A @ N @ [t] @ B" "length A + length N = i" "length A = j" "N \<noteq> []" by (cases "N = []") auto
    then show ?thesis
    proof cases
      case same
      obtain A B where "nodes d = A @ nodes d ! i # B" "A = take i (nodes d)" "B = drop (Suc i) (nodes d)" using split_at ij by blast
      then have "move_item i j (nodes d) = nodes d" using same ij by (simp add: move_item_def insert_at_def remove_at_def)
      then show ?thesis using same l by (auto simp: QListData_move_def)
    next
      case up
      then show ?thesis using move_up_ok [of d L A t N B R] l move_item_parts(1) [of A N t B] by auto
    next
      case down
      then show ?thesis using move_down_ok [of d L A N t B R] l move_item_parts(2) [of A N t B] by auto
    qed
  qed
  then obtain e M S where e: "QListData_move i j d = Some e" "laid_out e M (move_item i j (nodes d)) S" by blast
  have "mset (move_item i j (nodes d)) = mset (nodes d)" using move_item_mset ij by blast
  then show "\<exists>e new dead. list_move i j d = Some (e, new, dead) \<and> data_ok e \<and> nodes e = move_item i j (nodes d) \<and>
      mset (move_item i j (nodes d)) + mset dead = mset (nodes d) + mset new"
    using e(1) laid_out_ok [OF e(2)] ij size_nodes [OF ok] by (intro exI [of _ e] exI [of _ "[]"]) (simp add: list_move_def)
qed

definition erase_range :: "nat \<Rightarrow> nat \<Rightarrow> 'a list \<Rightarrow> 'a list" where
  "erase_range i n xs = take i xs @ drop (i + n) xs"

lemma read_nodes_ok:
  assumes "data_ok d" "i + n \<le> length (nodes d)"
  shows "read_nodes (first d + i) n d = Some (take n (drop i (nodes d)))"
proof -
  obtain L R where "laid_out d L (nodes d) R" using ok_laid_out [OF assms(1)] by blast
  then show ?thesis using assms(2) by (auto simp: read_nodes_def laid_out_def)
qed

interpretation erase: list_change "list_erase i n" "erase_range i n" "\<lambda>xs. i + n \<le> length xs" for i n
proof
  fix d :: "'a Data"
  assume ok: "data_ok d" and i: "i + n \<le> length (nodes d)"
  define A N B where "A = take i (nodes d)" and "N = take n (drop i (nodes d))" and "B = drop (i + n) (nodes d)"
  have "N @ B = drop i (nodes d)" unfolding N_def B_def by (metis add.commute append_take_drop_id drop_drop)
  then have s: "nodes d = A @ N @ B" by (simp add: A_def)
  have len: "length A = i" "length N = n" using i by (simp_all add: A_def N_def)
  obtain L R where "laid_out d L (A @ N @ B) R" using ok_laid_out [OF ok] s by metis
  from remove_range_ok [OF this] obtain e M S where e: "QListData_remove_range i n d = Some e" "laid_out e M (A @ B) S"
    using len by auto
  have "erase_range i n (nodes d) = A @ B" by (simp add: erase_range_def A_def B_def)
  moreover have "list_erase i n d = Some (e, [], N)" using e(1) read_nodes_ok [OF ok i] by (simp add: list_erase_def N_def)
  ultimately show "\<exists>e new dead. list_erase i n d = Some (e, new, dead) \<and> data_ok e \<and> nodes e = erase_range i n (nodes d) \<and>
      mset (erase_range i n (nodes d)) + mset dead = mset (nodes d) + mset new"
    using laid_out_ok [OF e(2)] s by (intro exI [of _ e] exI [of _ "[]"] exI [of _ N]) simp
qed

section \<open>The loops\<close>

lemma compact_ok:
  "G \<noteq> [] \<Longrightarrow> \<exists>H. compact t (length U + length G + length V) (length U + length G) (length U) dead (U @ G @ V @ W) =
     Some (length U + length [x \<leftarrow> V. x \<noteq> t], rev [x \<leftarrow> V. x = t] @ dead, U @ [x \<leftarrow> V. x \<noteq> t] @ H @ W) \<and>
     length H + length [x \<leftarrow> V. x \<noteq> t] = length G + length V"
proof (induction V arbitrary: U G dead)
  case Nil
  then show ?case by (simp add: compact.simps)
next
  case (Cons x V)
  have x: "(U @ G @ x # V @ W) ! (length U + length G) = x" by (simp add: nth_append)
  show ?case
  proof (cases "x = t")
    case True
    from Cons.IH [of "G @ [x]" U "x # dead"] obtain H where
      "compact t (length U + length (G @ [x]) + length V) (length U + length (G @ [x])) (length U) (x # dead) (U @ (G @ [x]) @ V @ W) =
        Some (length U + length [x \<leftarrow> V. x \<noteq> t], rev [x \<leftarrow> V. x = t] @ x # dead, U @ [x \<leftarrow> V. x \<noteq> t] @ H @ W)"
      "length H + length [x \<leftarrow> V. x \<noteq> t] = length (G @ [x]) + length V" by auto
    then show ?thesis using True x by (subst compact.simps) (simp add: add.commute add.left_commute)
  next
    case False
    obtain g G' where G: "G = g # G'" using Cons.prems by (cases G) auto
    have set: "(U @ G @ x # V @ W)[length U := x] = (U @ [x]) @ (G' @ [x]) @ V @ W" by (simp add: G)
    from Cons.IH [of "G' @ [x]" "U @ [x]" dead] obtain H where
      "compact t (length (U @ [x]) + length (G' @ [x]) + length V) (length (U @ [x]) + length (G' @ [x])) (length (U @ [x])) dead
        ((U @ [x]) @ (G' @ [x]) @ V @ W) =
        Some (length (U @ [x]) + length [x \<leftarrow> V. x \<noteq> t], rev [x \<leftarrow> V. x = t] @ dead, (U @ [x]) @ [x \<leftarrow> V. x \<noteq> t] @ H @ W)"
      "length H + length [x \<leftarrow> V. x \<noteq> t] = length (G' @ [x]) + length V" by auto
    then show ?thesis using False x set G by (subst compact.simps) (simp add: add.commute add.left_commute)
  qed
qed

lemma removeAll_ok:
  assumes "data_ok d" "i < length (nodes d)" "nodes d ! i = t" "t \<notin> set (take i (nodes d))"
  shows "\<exists>e dead. list_removeAll t i d = Some (length [x \<leftarrow> nodes d. x = t], e, [], dead) \<and> data_ok e \<and>
    nodes e = [x \<leftarrow> nodes d. x \<noteq> t] \<and> mset [x \<leftarrow> nodes d. x \<noteq> t] + mset dead = mset (nodes d)"
proof -
  obtain A V where s: "nodes d = A @ nodes d ! i # V" "A = take i (nodes d)" "V = drop (Suc i) (nodes d)" "length A = i"
    using split_at [OF assms(2)] by blast
  then have n: "nodes d = A @ t # V" using assms(3) by simp
  obtain L R where "laid_out d L (nodes d) R" using ok_laid_out [OF assms(1)] by blast
  note d = this [unfolded laid_out_def n]
  define F where "F = [x \<leftarrow> V. x \<noteq> t]"
  have A: "[x \<leftarrow> A. x \<noteq> t] = A" "[x \<leftarrow> A. x = t] = []"
    using assms(4) s(2) by (auto simp: filter_id_conv filter_empty_conv)
  from compact_ok [of "[t]" t "L @ A" V "[t]" R] obtain H where
    c: "compact t (last_end d) (first d + i + 1) (first d + i) [t] (array d) =
      Some (first d + i + length F, rev [x \<leftarrow> V. x = t] @ [t], L @ A @ F @ H @ R)" "length H + length F = 1 + length V"
    using d s(4) by (auto simp: F_def add.assoc)
  define e where "e = d\<lparr>array := L @ A @ F @ H @ R, last_end := first d + i + length F\<rparr>"
  have le: "last_end d - (last_end d - (first d + i + length F)) = first d + i + length F"
    "last_end d - (first d + i + length F) = Suc (length V) - length F" using d s(4) c(2) by simp_all
  have cnt: "Suc (length V) - length F = length [x \<leftarrow> nodes d. x = t]"
    using sum_length_filter_compl [of "\<lambda>x. x = t" V] n A by (simp add: F_def)
  have "list_removeAll t i d = Some (length [x \<leftarrow> nodes d. x = t], e, [], rev [x \<leftarrow> V. x = t] @ [t])"
    using c(1) at_nodes [OF assms(1,2)] assms(3) le cnt by (simp add: list_removeAll_def e_def Let_def)
  moreover have "laid_out e L (A @ F) (H @ R)" using d c(2) s(4) by (simp add: laid_out_def e_def)
  moreover have "[x \<leftarrow> nodes d. x \<noteq> t] = A @ F" using n A by (simp add: F_def)
  moreover have "mset (A @ F) + mset (rev [x \<leftarrow> V. x = t] @ [t]) = mset (nodes d)"
    using multiset_partition [of "mset V" "\<lambda>x. x = t"] n by (simp add: F_def mset_filter)
  ultimately show ?thesis using laid_out_ok by metis
qed

text \<open>The first position from \<open>i\<close> on, the last one below \<open>i\<close>, or -1.\<close>

fun first_from :: "'a \<Rightarrow> nat \<Rightarrow> 'a list \<Rightarrow> int" where
  "first_from t i [] = -1"
| "first_from t i (x # xs) = (if x = t then int i else first_from t (i + 1) xs)"

lemma scan_up_ok: "data_ok d \<Longrightarrow> scan_up t i d = Some (first_from t i (drop i (nodes d)))"
proof (induction "length (nodes d) - i" arbitrary: i)
  case 0
  then show ?case by (simp add: scan_up.simps size_nodes)
next
  case (Suc k)
  then have i: "i < length (nodes d)" by simp
  have "drop i (nodes d) = nodes d ! i # drop (Suc i) (nodes d)" using Cons_nth_drop_Suc [OF i] by simp
  then show ?case using Suc i at_nodes [OF Suc.prems i] by (subst scan_up.simps) (simp add: size_nodes)
qed

lemma first_from_props:
  "first_from t i xs = -1 \<longleftrightarrow> t \<notin> set xs"
  "t \<in> set xs \<Longrightarrow> \<exists>k < length xs. first_from t i xs = int (i + k) \<and> xs ! k = t \<and> t \<notin> set (take k xs)"
proof -
  have "t \<in> set xs \<longrightarrow> (\<exists>k < length xs. first_from t i xs = int (i + k) \<and> xs ! k = t \<and> t \<notin> set (take k xs))"
  proof (induction xs arbitrary: i)
    case (Cons x xs)
    show ?case
    proof (cases "x = t")
      case False
      show ?thesis
      proof
        assume "t \<in> set (x # xs)"
        then obtain k where "k < length xs" "first_from t (i + 1) xs = int (i + 1 + k)" "xs ! k = t" "t \<notin> set (take k xs)"
          using Cons.IH False by fastforce
        then show "\<exists>k < length (x # xs). first_from t i (x # xs) = int (i + k) \<and> (x # xs) ! k = t \<and> t \<notin> set (take k (x # xs))"
          using False by (intro exI [of _ "Suc k"]) simp
      qed
    qed auto
  qed simp
  moreover have "t \<notin> set xs \<longrightarrow> first_from t i xs = -1" by (induction xs arbitrary: i) auto
  ultimately show "first_from t i xs = -1 \<longleftrightarrow> t \<notin> set xs"
    "t \<in> set xs \<Longrightarrow> \<exists>k < length xs. first_from t i xs = int (i + k) \<and> xs ! k = t \<and> t \<notin> set (take k xs)" by fastforce+
qed

fun last_below :: "'a \<Rightarrow> nat \<Rightarrow> 'a list \<Rightarrow> int" where
  "last_below t 0 xs = -1"
| "last_below t (Suc i) xs = (if xs ! i = t then int i else last_below t i xs)"

lemma scan_down_ok: "data_ok d \<Longrightarrow> i \<le> length (nodes d) \<Longrightarrow> scan_down t i d = Some (last_below t i (nodes d))"
  by (induction i) (simp_all add: at_nodes)

lemma last_below_props:
  "i \<le> length xs \<Longrightarrow> last_below t i xs = -1 \<longleftrightarrow> t \<notin> set (take i xs)"
  by (induction i) (auto simp: take_Suc_conv_app_nth)

lemma count_down_ok:
  "data_ok d \<Longrightarrow> i \<le> length (nodes d) \<Longrightarrow> count_down t c i d = Some (c + count_list (take i (nodes d)) t)"
  by (induction i arbitrary: c) (simp_all add: at_nodes take_Suc_conv_app_nth)

lemma equal_down_ok:
  "data_ok d \<Longrightarrow> data_ok l \<Longrightarrow> i \<le> length (nodes d) \<Longrightarrow> i \<le> length (nodes l) \<Longrightarrow>
   equal_down i d l = Some (take i (nodes d) = take i (nodes l))"
  by (induction i) (simp_all add: at_nodes take_Suc_conv_app_nth)

end
