(* ===== verification/ListSharing.thy ===== *)
theory ListSharing
  imports ListChange
begin

text \<open>
  Reference counting of \<open>QList\<close>: the count of every block is the number of variables that point to it, so that a block is
  freed with its last variable, and a change of one list is not seen through another.
\<close>

section \<open>The invariant\<close>

definition holders :: "'a lists \<Rightarrow> nat \<Rightarrow> nat set" where
  "holders w a = {v. vars w v = Some a}"

text \<open>\<open>x\<close> are the references that no variable holds: those on their way, and the one of \<open>shared_null\<close> itself.\<close>

definition references :: "nat multiset \<Rightarrow> 'a lists \<Rightarrow> nat \<Rightarrow> nat" where
  "references x w a = card (holders w a) + count x a"

definition good :: "nat multiset \<Rightarrow> 'a lists \<Rightarrow> nat \<Rightarrow> bool" where
  "good x w a \<longleftrightarrow>
    (case blocks w a of
       None \<Rightarrow> a \<noteq> 0 \<and> references x w a = 0
     | Some c \<Rightarrow> data_ok (data c) \<and> ref c = references x w a \<and> 0 < ref c \<and> a < next_block w \<and> (a = 0 \<longrightarrow> data c = empty_data))"

definition counted :: "nat multiset \<Rightarrow> 'a lists \<Rightarrow> bool" where
  "counted x w \<longleftrightarrow> finite (dom (vars w)) \<and> (\<forall>a. good x w a)"

abbreviation lists_ok :: "'a lists \<Rightarrow> bool" where
  "lists_ok \<equiv> counted {#0#}"

text \<open>The value of every variable, and the elements of all blocks.\<close>

definition elements :: "'a lists \<Rightarrow> nat \<Rightarrow> 'a list" where
  "elements w a = (case blocks w a of None \<Rightarrow> [] | Some c \<Rightarrow> nodes (data c))"

definition view :: "'a lists \<Rightarrow> nat \<Rightarrow> 'a list option" where
  "view w v = map_option (elements w) (vars w v)"

definition all_elements :: "'a lists \<Rightarrow> 'a multiset" where
  "all_elements w = (\<Sum>a < next_block w. mset (elements w a))"

text \<open>All elements that are not destroyed are in a block, but for those in \<open>lost\<close>.\<close>

definition accounted :: "'a multiset \<Rightarrow> 'a lists \<Rightarrow> bool" where
  "accounted lost w \<longleftrightarrow> live w = all_elements w + lost"

lemma good_cong:
  "good x w a \<Longrightarrow> blocks t a = blocks w a \<Longrightarrow> references y t a = references x w a \<Longrightarrow> next_block w \<le> next_block t \<Longrightarrow> good y t a"
  by (auto simp: good_def split: option.splits)

lemma no_lists_ok: "lists_ok no_lists" "accounted {#} no_lists" "view no_lists = (\<lambda>v. None)"
  by (auto simp: counted_def good_def references_def no_lists_def holders_def data_ok_def empty_data_def accounted_def
      all_elements_def elements_def nodes_def view_def)

lemma counted_block:
  assumes "counted x w" "blocks w a = Some c"
  shows "data_ok (data c)" "ref c = references x w a" "0 < ref c" "a < next_block w" "a = 0 \<Longrightarrow> data c = empty_data"
  using assms by (auto simp: counted_def good_def dest: spec [where x = a])

lemma holders_finite: "counted x w \<Longrightarrow> finite (holders w a)"
  by (rule finite_subset [of _ "dom (vars w)"]) (auto simp: counted_def holders_def)

lemma referenced_block:
  assumes "counted x w" "0 < references x w a"
  shows "\<exists>c. blocks w a = Some c"
  using assms by (cases "blocks w a") (auto simp: counted_def good_def dest!: spec [where x = a])

lemma var_referenced: "counted x w \<Longrightarrow> vars w v = Some a \<Longrightarrow> 0 < references x w a \<and> 0 < card (holders w a)"
  using holders_finite [of x w a] by (auto simp: references_def holders_def card_gt_0_iff)

lemma counted_var: "counted x w \<Longrightarrow> vars w v = Some a \<Longrightarrow> \<exists>c. block_of v w = Some (a, c) \<and> blocks w a = Some c"
  using referenced_block [of x w a] var_referenced [of x w v a] by (auto simp: block_of_def)

lemma view_var:
  assumes "view w v = Some xs" "counted x w"
  shows "\<exists>a c. vars w v = Some a \<and> block_of v w = Some (a, c) \<and> blocks w a = Some c \<and> data_ok (data c) \<and> nodes (data c) = xs"
proof -
  obtain a where a: "vars w v = Some a" "elements w a = xs" using assms(1) by (auto simp: view_def)
  obtain c where c: "block_of v w = Some (a, c)" "blocks w a = Some c" using counted_var [OF assms(2) a(1)] by blast
  then show ?thesis using a counted_block(1) [OF assms(2) c(2)] by (simp add: elements_def)
qed

text \<open>Changing one block.\<close>

lemma elements_upd: "elements (w\<lparr>blocks := (blocks w)(a := b)\<rparr>) c =
    (if c = a then (case b of None \<Rightarrow> [] | Some k \<Rightarrow> nodes (data k)) else elements w c)"
  by (simp add: elements_def)

lemma all_elements_upd:
  assumes "a < next_block w"
  shows "all_elements (w\<lparr>blocks := (blocks w)(a := b)\<rparr>) + mset (elements w a) =
    all_elements w + mset (case b of None \<Rightarrow> [] | Some k \<Rightarrow> nodes (data k))"
proof -
  have a: "{..<next_block w} = insert a ({..<next_block w} - {a})" using assms by auto
  have "(\<Sum>c \<in> {..<next_block w} - {a}. mset (elements (w\<lparr>blocks := (blocks w)(a := b)\<rparr>) c)) =
      (\<Sum>c \<in> {..<next_block w} - {a}. mset (elements w c))"
    by (rule sum.cong) (simp_all add: elements_upd)
  then show ?thesis unfolding all_elements_def using a
    by (simp add: sum.remove [of "{..<next_block w}" a] assms elements_upd)
qed

lemma other_fields: "elements (w\<lparr>vars := V\<rparr>) = elements w" "elements (w\<lparr>live := L\<rparr>) = elements w"
    "all_elements (w\<lparr>vars := V\<rparr>) = all_elements w" "all_elements (w\<lparr>live := L\<rparr>) = all_elements w"
  by (simp_all add: elements_def [abs_def] all_elements_def)

section \<open>References\<close>

lemma counted_upd:
  assumes "counted x w" "finite (dom (vars t))" "next_block w \<le> next_block t" "good y t a"
    "\<And>b. b \<noteq> a \<Longrightarrow> blocks t b = blocks w b" "\<And>b. b \<noteq> a \<Longrightarrow> references y t b = references x w b"
  shows "counted y t"
  using assms good_cong unfolding counted_def by metis

lemma references_add [simp]: "references (add_mset a x) w b = references x w b + (if b = a then 1 else 0)"
  by (simp add: references_def)

lemma references_fields [simp]: "references x (w\<lparr>blocks := B\<rparr>) b = references x w b"
    "references x (w\<lparr>live := L\<rparr>) b = references x w b" "references x (w\<lparr>next_block := n\<rparr>) b = references x w b"
    "holders (w\<lparr>blocks := B\<rparr>) = holders w" "holders (w\<lparr>live := L\<rparr>) = holders w" "holders (w\<lparr>next_block := n\<rparr>) = holders w"
  by (simp_all add: references_def holders_def [abs_def])

lemma ref_block_ok:
  assumes "counted x w" "0 < references x w a"
  shows "\<exists>t. ref_block a w = Some t \<and> counted (add_mset a x) t \<and> vars t = vars w \<and> elements t = elements w \<and>
    (\<forall>l. accounted l w \<longrightarrow> accounted l t)"
proof -
  obtain c where c: "blocks w a = Some c" using referenced_block [OF assms] by blast
  define t where "t = w\<lparr>blocks := (blocks w)(a \<mapsto> c\<lparr>ref := ref c + 1\<rparr>)\<rparr>"
  have "elements t = elements w" using c by (auto simp: t_def elements_def [abs_def])
  moreover have "counted (add_mset a x) t"
    by (rule counted_upd [OF assms(1), where a = a])
      (use assms(1) counted_block [OF assms(1) c] in \<open>auto simp: t_def good_def counted_def\<close>)
  moreover have "all_elements t = all_elements w" using \<open>elements t = elements w\<close> by (simp add: all_elements_def t_def)
  ultimately show ?thesis using c by (simp add: ref_block_def t_def accounted_def)
qed

lemma deref_block_ok:
  assumes "counted (add_mset a x) w" "0 \<in># x"
  shows "\<exists>t. deref_block destruct a w = Some t \<and> counted x t \<and> vars t = vars w \<and>
    (\<forall>b. holders w b \<noteq> {} \<longrightarrow> elements t b = elements w b) \<and>
    (\<forall>l. accounted l w \<longrightarrow> accounted (if \<not> destruct \<and> references x w a = 0 then l + mset (elements w a) else l) t)"
proof -
  obtain c where c: "blocks w a = Some c" using referenced_block [OF assms(1), of a] by auto
  note k = counted_block [OF assms(1) c]
  have fin: "finite (dom (vars w))" using assms(1) by (simp add: counted_def)
  show ?thesis
  proof (cases "ref c = 1")
    case True
    then have none: "references x w a = 0" using k(2) by simp
    then have h: "holders w a = {}" using holders_finite [OF assms(1)] by (simp add: references_def)
    have "a \<noteq> 0" using none assms(2) unfolding references_def by (metis add_is_0 not_in_iff)
    have xs: "read_nodes (first (data c)) (last_end (data c) - first (data c)) (data c) = Some (elements w a)"
      using k(1) c by (auto simp: read_nodes_def data_ok_def elements_def nodes_def)
    define u where "u = (if destruct then w\<lparr>live := live w - mset (elements w a)\<rparr> else w)"
    define t where "t = u\<lparr>blocks := (blocks u)(a := None)\<rparr>"
    have u: "blocks u = blocks w" "vars u = vars w" "next_block u = next_block w" "elements u = elements w" "holders u = holders w"
      "references x u = references x w"
      by (auto simp: u_def other_fields)
    have r: "deref_block destruct a w = Some t" using c True xs \<open>a \<noteq> 0\<close> by (simp add: deref_block_def freeData_def t_def u_def)
    have "counted x t"
      by (rule counted_upd [OF assms(1), where a = a])
        (use u none \<open>a \<noteq> 0\<close> fin in \<open>auto simp: t_def good_def\<close>)
    moreover have "elements t b = elements w b" if "holders w b \<noteq> {}" for b
    proof -
      have "b \<noteq> a" using that h by blast
      then show ?thesis using u by (simp add: t_def elements_def)
    qed
    moreover have "accounted (if \<not> destruct then l + mset (elements w a) else l) t" if "accounted l w" for l
    proof -
      have "all_elements w = all_elements t + mset (elements w a)"
        using all_elements_upd [of a u None] k(4) u by (simp add: t_def all_elements_def)
      moreover have "live t = (if destruct then live w - mset (elements w a) else live w)" by (simp add: t_def u_def)
      ultimately show ?thesis using that by (cases destruct) (simp_all add: accounted_def)
    qed
    ultimately show ?thesis using r none u by (simp add: t_def)
  next
    case False
    define t where "t = w\<lparr>blocks := (blocks w)(a \<mapsto> c\<lparr>ref := ref c - 1\<rparr>)\<rparr>"
    have "elements t = elements w" using c by (auto simp: t_def elements_def [abs_def])
    moreover have "counted x t"
      by (rule counted_upd [OF assms(1), where a = a])
        (use False k fin in \<open>auto simp: t_def good_def\<close>)
    moreover have "all_elements t = all_elements w" using \<open>elements t = elements w\<close> by (simp add: all_elements_def t_def)
    moreover have "references x w a \<noteq> 0" using False k(2,3) by simp
    ultimately show ?thesis using c False k(3) by (simp add: deref_block_def t_def accounted_def)
  qed
qed

text \<open>Binding a variable and unbinding it.\<close>

lemma references_bind:
  assumes "vars w v = None" "finite (dom (vars w))"
  shows "references x (w\<lparr>vars := (vars w)(v \<mapsto> a)\<rparr>) b = references x w b + (if b = a then 1 else 0)"
proof -
  have "holders (w\<lparr>vars := (vars w)(v \<mapsto> a)\<rparr>) b = (if b = a then insert v (holders w b) else holders w b)" "v \<notin> holders w b"
    using assms(1) by (auto simp: holders_def)
  moreover have "finite (holders w b)" by (rule finite_subset [OF _ assms(2)]) (auto simp: holders_def)
  ultimately show ?thesis by (cases "b = a") (simp_all add: references_def)
qed

lemma counted_cong:
  "counted x w \<Longrightarrow> finite (dom (vars t)) \<Longrightarrow> next_block t = next_block w \<Longrightarrow> blocks t = blocks w \<Longrightarrow>
   (\<And>a. references y t a = references x w a) \<Longrightarrow> counted y t"
  using good_cong unfolding counted_def by (metis order_refl)

lemma bind_ok:
  assumes "counted (add_mset a x) w" "vars w v = None"
  shows "counted x (w\<lparr>vars := (vars w)(v \<mapsto> a)\<rparr>)"
proof -
  have "finite (dom (vars w))" using assms(1) by (simp add: counted_def)
  with references_bind [OF assms(2) this] show ?thesis by (intro counted_cong [OF assms(1)]) auto
qed

lemma unbind_ok:
  assumes "counted x w" "vars w v = Some a"
  shows "counted (add_mset a x) (w\<lparr>vars := (vars w)(v := None)\<rparr>)"
proof -
  have f: "finite (dom (vars w))" using assms(1) by (simp add: counted_def)
  define u where "u = w\<lparr>vars := (vars w)(v := None)\<rparr>"
  have "w = u\<lparr>vars := (vars u)(v \<mapsto> a)\<rparr>" using assms(2) by (simp add: u_def fun_upd_idem)
  moreover have "vars u v = None" "finite (dom (vars u))" using f by (simp_all add: u_def)
  ultimately have "references x w b = references x u b + (if b = a then 1 else 0)" for b
    using references_bind [of u v x a b] by simp
  then have "counted (add_mset a x) u" using f by (intro counted_cong [OF assms(1)]) (auto simp: u_def)
  then show ?thesis by (simp add: u_def)
qed

lemma deref_vars: "deref_block destruct a (w\<lparr>vars := V\<rparr>) = map_option (\<lambda>t. t\<lparr>vars := V\<rparr>) (deref_block destruct a w)"
  by (auto simp: deref_block_def freeData_def split: option.splits Option.bind_splits)

end
