(* ===== verification/ListValues.thy ===== *)
theory ListValues
  imports ListSharing
begin

text \<open>
  Every operation on a shared list changes the value of its list as the operation on lists does and no other value, keeps the
  reference counts and loses no element; \<open>reserve\<close> is the exception.
\<close>

section \<open>Copies\<close>

lemma view_vars: "view (w\<lparr>vars := (vars w)(v := b)\<rparr>) = (view w)(v := map_option (elements w) b)"
  by (rule ext) (simp add: view_def other_fields)

lemma view_cong: "vars t = vars w \<Longrightarrow> (\<And>b. holders w b \<noteq> {} \<Longrightarrow> elements t b = elements w b) \<Longrightarrow> view t = view w"
proof (rule ext)
  fix v
  assume t: "vars t = vars w" "\<And>b. holders w b \<noteq> {} \<Longrightarrow> elements t b = elements w b"
  show "view t v = view w v"
  proof (cases "vars w v")
    case (Some a)
    then have "holders w a \<noteq> {}" by (auto simp: holders_def)
    then show ?thesis using t Some by (simp add: view_def)
  qed (simp add: view_def t)
qed

lemma accounted_vars [simp]: "accounted l (w\<lparr>vars := V\<rparr>) = accounted l w"
  by (simp add: accounted_def other_fields)

text \<open>The values become \<open>V\<close> and no element is lost.\<close>

definition becomes :: "'a lists \<Rightarrow> (nat \<Rightarrow> 'a list option) \<Rightarrow> 'a lists option \<Rightarrow> bool" where
  "becomes w V r \<longleftrightarrow> (\<exists>t. r = Some t \<and> lists_ok t \<and> view t = V \<and> (\<forall>l. accounted l w \<longrightarrow> accounted l t))"

lemma becomes_same: "lists_ok w \<Longrightarrow> becomes w (view w) (Some w)"
  by (simp add: becomes_def)

lemma shared_null: "lists_ok w \<Longrightarrow> elements w 0 = [] \<and> 0 < references {#0#} w 0"
  by (auto simp: counted_def good_def elements_def references_def empty_data_def nodes_def split: option.splits
      dest!: spec [where x = 0])

lemma attach_ok:
  assumes "lists_ok w" "vars w v = None" "0 < references {#0#} w a"
  shows "becomes w ((view w)(v \<mapsto> elements w a)) (map_option (\<lambda>w. w\<lparr>vars := (vars w)(v \<mapsto> a)\<rparr>) (ref_block a w))"
proof -
  obtain t where t: "ref_block a w = Some t" "counted (add_mset a {#0#}) t" "vars t = vars w" "elements t = elements w"
    "\<forall>l. accounted l w \<longrightarrow> accounted l t" using ref_block_ok [OF assms(1,3)] by auto
  have "lists_ok (t\<lparr>vars := (vars t)(v \<mapsto> a)\<rparr>)" by (rule bind_ok) (use t assms(2) in simp_all)
  moreover have "view (t\<lparr>vars := (vars t)(v \<mapsto> a)\<rparr>) = (view w)(v \<mapsto> elements w a)"
    unfolding view_vars using t(3,4) by (simp add: view_def [abs_def])
  ultimately show ?thesis using t(1,5) by (simp add: becomes_def)
qed

lemma new_QList_ok: "lists_ok w \<Longrightarrow> vars w v = None \<Longrightarrow> becomes w ((view w)(v \<mapsto> [])) (new_QList v w)"
  using attach_ok [of w v 0] shared_null [of w] by (simp add: new_QList_def)

lemma copy_QList_ok:
  assumes "lists_ok w" "vars w v = None" "view w l = Some xs"
  shows "becomes w ((view w)(v \<mapsto> xs)) (copy_QList v l w)"
proof -
  obtain a c where a: "vars w l = Some a" "block_of l w = Some (a, c)" "elements w a = xs"
    using view_var [OF assms(3,1)] by (auto simp: elements_def)
  moreover have "0 < references {#0#} w a" using var_referenced [OF assms(1) a(1)] by simp
  moreover have "copy_QList v l w = map_option (\<lambda>w. w\<lparr>vars := (vars w)(v \<mapsto> a)\<rparr>) (ref_block a w)"
    using a(2) by (cases "ref_block a w") (simp_all add: copy_QList_def)
  ultimately show ?thesis using attach_ok [OF assms(1,2), of a] by simp
qed

text \<open>Dropping the reference of a variable, with another variable state \<open>V\<close> in which it is unbound.\<close>

lemma release_ok:
  assumes "counted (add_mset a {#0#}) (w\<lparr>vars := V\<rparr>)"
  shows "\<exists>t. deref_block destruct a w = Some t \<and> lists_ok (t\<lparr>vars := V\<rparr>) \<and> view (t\<lparr>vars := V\<rparr>) = view (w\<lparr>vars := V\<rparr>) \<and>
    (\<forall>b. holders (w\<lparr>vars := V\<rparr>) b \<noteq> {} \<longrightarrow> elements t b = elements w b) \<and> vars t = vars w \<and>
    (\<forall>l. accounted l w \<longrightarrow> accounted (if \<not> destruct \<and> references {#0#} (w\<lparr>vars := V\<rparr>) a = 0 then l + mset (elements w a) else l) t)"
proof -
  obtain t' where t': "deref_block destruct a (w\<lparr>vars := V\<rparr>) = Some t'" "lists_ok t'" "vars t' = V"
    "\<forall>b. holders (w\<lparr>vars := V\<rparr>) b \<noteq> {} \<longrightarrow> elements t' b = elements (w\<lparr>vars := V\<rparr>) b"
    "\<forall>l. accounted l (w\<lparr>vars := V\<rparr>) \<longrightarrow>
     accounted (if \<not> destruct \<and> references {#0#} (w\<lparr>vars := V\<rparr>) a = 0 then l + mset (elements (w\<lparr>vars := V\<rparr>) a) else l) t'"
    using deref_block_ok [OF assms, of destruct] by auto
  obtain t where t: "deref_block destruct a w = Some t" "t' = t\<lparr>vars := V\<rparr>"
    using t'(1) unfolding deref_vars by (cases "deref_block destruct a w") auto
  have "vars t = vars w"
    using t(1) by (auto simp: deref_block_def freeData_def split: option.splits Option.bind_splits if_splits)
  moreover have "view t' = view (w\<lparr>vars := V\<rparr>)" by (rule view_cong) (use t' in auto)
  ultimately show ?thesis
    using t(1) t'(2,4) t'(5) [unfolded t(2) other_fields accounted_vars] unfolding t(2) other_fields
    by (intro exI [of _ t] conjI)
qed

lemma destroy_QList_ok:
  assumes "lists_ok w" "vars w v = Some a"
  shows "becomes w ((view w)(v := None)) (destroy_QList v w)"
proof -
  define V where "V = (vars w)(v := None)"
  obtain t where t: "deref_block True a w = Some t" "lists_ok (t\<lparr>vars := V\<rparr>)" "view (t\<lparr>vars := V\<rparr>) = view (w\<lparr>vars := V\<rparr>)"
    "vars t = vars w" "\<forall>l. accounted l w \<longrightarrow> accounted l t"
    using release_ok [OF unbind_ok [OF assms, folded V_def], of True] by auto
  have "view (w\<lparr>vars := V\<rparr>) = (view w)(v := None)" unfolding V_def view_vars by simp
  then show ?thesis using t assms(2) by (simp add: becomes_def destroy_QList_def V_def)
qed

lemma QList_assign_ok:
  assumes "lists_ok w" "view w v = Some xs" "view w l = Some ys"
  shows "becomes w ((view w)(v \<mapsto> ys)) (QList_assign v l w)"
proof -
  obtain d where d: "vars w v = Some d" using assms(2) by (auto simp: view_def)
  obtain o' where o': "vars w l = Some o'" "elements w o' = ys" using assms(3) by (auto simp: view_def)
  show ?thesis
  proof (cases "d = o'")
    case True
    then have "(view w)(v \<mapsto> ys) = view w" using d o' by (auto simp: view_def)
    then show ?thesis using True d o' becomes_same [OF assms(1)] by (simp add: QList_assign_def)
  next
    case False
    have "0 < references {#0#} w o'" using var_referenced [OF assms(1) o'(1)] by simp
    then obtain u where u: "ref_block o' w = Some u" "counted (add_mset o' {#0#}) u" "vars u = vars w" "elements u = elements w"
      "\<forall>l. accounted l w \<longrightarrow> accounted l u" using ref_block_ok [OF assms(1)] by blast
    define V where "V = (vars w)(v \<mapsto> o')"
    have "counted (add_mset d {#o', 0#}) (u\<lparr>vars := (vars u)(v := None)\<rparr>)" using unbind_ok [OF u(2)] d u(3) by simp
    then have "counted (add_mset o' {#d, 0#}) (u\<lparr>vars := (vars u)(v := None)\<rparr>)" by (simp add: add_mset_commute)
    from bind_ok [OF this, of v] have "counted (add_mset d {#0#}) (u\<lparr>vars := V\<rparr>)" using u(3) by (simp add: V_def)
    from release_ok [OF this, of True] obtain t where t: "deref_block True d u = Some t" "lists_ok (t\<lparr>vars := V\<rparr>)"
      "view (t\<lparr>vars := V\<rparr>) = view (u\<lparr>vars := V\<rparr>)" "vars t = vars u" "\<forall>l. accounted l u \<longrightarrow> accounted l t" by auto
    have "view (u\<lparr>vars := V\<rparr>) = (view w)(v \<mapsto> ys)" using u(3,4) o'(2) by (auto simp: view_def other_fields V_def)
    then show ?thesis using False d o'(1) u t by (simp add: becomes_def QList_assign_def V_def)
  qed
qed

lemma QList_swap_with_ok:
  assumes "lists_ok w" "view w v = Some xs" "view w l = Some ys"
  shows "becomes w ((view w)(v \<mapsto> ys, l \<mapsto> xs)) (QList_swap_with v l w)"
proof -
  obtain d where d: "vars w v = Some d" "elements w d = xs" using assms(2) by (auto simp: view_def)
  obtain o' where o': "vars w l = Some o'" "elements w o' = ys" using assms(3) by (auto simp: view_def)
  define t where "t = w\<lparr>vars := (vars w)(v \<mapsto> o', l \<mapsto> d)\<rparr>"
  have "view t = (view w)(v \<mapsto> ys, l \<mapsto> xs)" using d o' by (auto simp: view_def t_def other_fields)
  moreover have "lists_ok t"
  proof (cases "v = l")
    case True
    then show ?thesis using assms(1) d o' by (simp add: t_def fun_upd_idem)
  next
    case False
    define u where "u = w\<lparr>vars := (vars w)(v := None, l := None)\<rparr>"
    have "counted {#o', d, 0#} u"
      using unbind_ok [OF unbind_ok [OF assms(1) d(1)], of l o'] False o'(1) by (simp add: u_def)
    then have "counted {#d, 0#} (u\<lparr>vars := (vars u)(v \<mapsto> o')\<rparr>)" by (rule bind_ok) (simp add: u_def)
    then have "lists_ok (u\<lparr>vars := (vars u)(v \<mapsto> o', l \<mapsto> d)\<rparr>)" using bind_ok [of d _ "u\<lparr>vars := (vars u)(v \<mapsto> o')\<rparr>" l] False
      by (simp add: u_def)
    moreover have "u\<lparr>vars := (vars u)(v \<mapsto> o', l \<mapsto> d)\<rparr> = t" using False by (simp add: u_def t_def fun_upd_twist)
    ultimately show ?thesis by simp
  qed
  ultimately show ?thesis using d o' by (simp add: becomes_def QList_swap_with_def t_def)
qed

section \<open>Detaching\<close>

text \<open>The new block: the nodes copied into an array with enough room.\<close>

lemma detached_data:
  fixes junk :: 'a
  assumes "data_ok d" "last_end d \<le> n"
  defines "t \<equiv> QListData_detach junk n d"
  shows "\<exists>e. read_nodes (first d) (last_end t - first t) d = Some (nodes d) \<and> write_nodes (first t) (nodes d) t = Some e \<and>
    data_ok e \<and> nodes e = nodes d \<and> alloc e = n \<and> first e = (if n = 0 then 0 else first d)"
proof (cases "n = 0")
  case True
  then have "nodes d = []" using assms by (simp add: nodes_def data_ok_def)
  then show ?thesis using True assms by (simp add: t_def QListData_detach_def read_nodes_def write_nodes_def data_ok_def nodes_def)
next
  case False
  have len: "length (nodes d) = last_end d - first d" by (rule length_nodes [OF assms(1)])
  have "read_nodes (first d) (last_end d - first d) d = Some (nodes d)"
    using read_nodes_ok [OF assms(1), of 0 "last_end d - first d"] len by simp
  moreover define e where "e = t\<lparr>array := take (first d) (array t) @ nodes d @ drop (last_end d) (array t)\<rparr>"
  moreover have "laid_out e (take (first d) (array t)) (nodes d) (drop (last_end d) (array t))"
    using assms(1,2) len False by (auto simp: laid_out_def e_def t_def QListData_detach_def data_ok_def)
  then have "data_ok e \<and> nodes e = nodes d" by (rule laid_out_ok)
  moreover have "write_nodes (first t) (nodes d) t = Some e"
    using assms(1,2) len False by (simp add: write_nodes_def e_def t_def QListData_detach_def data_ok_def)
  ultimately show ?thesis using False by (simp add: t_def e_def QListData_detach_def)
qed

lemma detach_helper_ok:
  assumes "lists_ok w" "view w v = Some xs" "block_of v w = Some (x, c)" "last_end (data c) \<le> n"
  shows "\<exists>t a e. detach_helper junk n v w = Some t \<and> lists_ok t \<and> view t = view w \<and> block_of v t = Some (a, e) \<and>
    ref e = 1 \<and> a \<noteq> 0 \<and> alloc (data e) = n \<and> first (data e) = (if n = 0 then 0 else first (data c)) \<and>
    (\<forall>l. accounted l w \<longrightarrow> accounted (if ref c = 1 then l + mset xs else l) t)"
proof -
  have x: "vars w v = Some x" "blocks w x = Some c" using assms(3) by (auto simp: block_of_def split: Option.bind_splits)
  have c: "data_ok (data c)" "nodes (data c) = xs" "elements w x = xs" "ref c = references {#0#} w x"
    using view_var [OF assms(2,1)] x counted_block(2) [OF assms(1) x(2)] by (auto simp: elements_def)
  obtain e where e: "read_nodes (first (data c)) (last_end (QListData_detach junk n (data c)) - first (QListData_detach junk n (data c)))
      (data c) = Some xs" "write_nodes (first (QListData_detach junk n (data c))) xs (QListData_detach junk n (data c)) = Some e"
    "data_ok e" "nodes e = xs" "alloc e = n" "first e = (if n = 0 then 0 else first (data c))"
    using detached_data [OF c(1) assms(4), of junk] c(2) by blast
  define b where "b = next_block w"
  have fresh: "blocks w b = None" "references {#0#} w b = 0" "b \<noteq> 0"
  proof -
    have g: "good {#0#} w b" "good {#0#} w 0" using assms(1) by (simp_all add: counted_def)
    show "blocks w b = None" "references {#0#} w b = 0" using g(1) by (auto simp: good_def b_def split: option.splits)
    then show "b \<noteq> 0" by (auto split: if_splits)
  qed
  define u where "u = w\<lparr>blocks := (blocks w)(b \<mapsto> \<lparr>ref = 1, data = e\<rparr>), next_block := b + 1, vars := (vars w)(v \<mapsto> b),
    live := live w + mset xs\<rparr>"
  define u0 where "u0 = w\<lparr>vars := (vars w)(v := None)\<rparr>"
  define u1 where "u1 = u0\<lparr>blocks := (blocks w)(b \<mapsto> \<lparr>ref = 1, data = e\<rparr>), next_block := b + 1, live := live w + mset xs\<rparr>"
  have c0: "counted (add_mset x {#0#}) u0" unfolding u0_def by (rule unbind_ok [OF assms(1) x(1)])
  have fin: "finite (dom (vars w))" using assms(1) by (simp add: counted_def)
  have w: "w = u0\<lparr>vars := (vars u0)(v \<mapsto> x)\<rparr>" using x(1) by (simp add: u0_def fun_upd_idem)
  have r0: "references y w a = references y u0 a + (if a = x then 1 else 0)" for y a
  proof -
    have "references y (u0\<lparr>vars := (vars u0)(v \<mapsto> x)\<rparr>) a = references y u0 a + (if a = x then 1 else 0)"
      by (rule references_bind) (use fin in \<open>simp_all add: u0_def\<close>)
    then show ?thesis unfolding w [symmetric] .
  qed
  have h: "holders u1 = holders u0" by (simp add: u1_def holders_def [abs_def])
  have "x \<noteq> b" using fresh x by auto
  have "counted (add_mset b {#x, 0#}) u1"
  proof (rule counted_upd [OF c0, where a = b])
    show "good (add_mset b {#x, 0#}) u1 b"
      using e(3) fresh r0 [of "{#0#}" b] \<open>x \<noteq> b\<close> h
      by (simp add: good_def u1_def references_def)
  qed (use fin h in \<open>auto simp: u1_def u0_def b_def references_def\<close>)
  then have "counted (add_mset x {#0#}) (u1\<lparr>vars := (vars u1)(v \<mapsto> b)\<rparr>)" by (rule bind_ok) (simp add: u1_def u0_def)
  moreover have u: "u1\<lparr>vars := (vars u1)(v \<mapsto> b)\<rparr> = u" by (simp add: u_def u1_def u0_def)
  ultimately have cu: "counted (add_mset x {#0#}) (u\<lparr>vars := vars u\<rparr>)" by simp
  have ru: "references {#0#} u x = references {#0#} w x - 1"
  proof -
    have "references {#0#} (u1\<lparr>vars := (vars u1)(v \<mapsto> b)\<rparr>) x = references {#0#} u1 x + (if x = b then 1 else 0)"
      by (rule references_bind) (use fin in \<open>simp_all add: u1_def u0_def\<close>)
    then have "references {#0#} u x = references {#0#} u1 x" unfolding u using \<open>x \<noteq> b\<close> by simp
    also have "\<dots> = references {#0#} u0 x" using h by (simp add: references_def)
    finally show ?thesis using r0 [of "{#0#}" x] by simp
  qed
  from release_ok [OF cu, of False] obtain t where t: "deref_block False x u = Some t" "lists_ok (t\<lparr>vars := vars u\<rparr>)"
    "view (t\<lparr>vars := vars u\<rparr>) = view u" "\<forall>b. holders u b \<noteq> {} \<longrightarrow> elements t b = elements u b" "vars t = vars u"
    "\<forall>l. accounted l u \<longrightarrow> accounted (if references {#0#} u x = 0 then l + mset (elements u x) else l) t" by auto
  have "t\<lparr>vars := vars u\<rparr> = t" unfolding t(5) [symmetric] by simp
  then have t': "lists_ok t" "view t = view u" using t(2,3) by simp_all
  have eu: "elements u a = (if a = b then xs else elements w a)" for a using e(4) by (simp add: u_def elements_def)
  have "view u = view w"
  proof (rule ext)
    fix y
    have "vars w y \<noteq> Some b" using fresh counted_var [OF assms(1), of y b] by auto
    moreover have "vars u = (vars w)(v \<mapsto> b)" by (simp add: u_def)
    ultimately show "view u y = view w y" using assms(2) by (cases "y = v"; cases "vars w y") (auto simp: view_def eu)
  qed
  moreover have "accounted l u" if "accounted l w" for l
  proof -
    have "(\<Sum>a < b. mset (elements u a)) = (\<Sum>a < b. mset (elements w a))" by (rule sum.cong) (auto simp: eu)
    moreover have "all_elements u = (\<Sum>a < b. mset (elements u a)) + mset xs"
      using eu [of b] by (simp add: all_elements_def u_def)
    ultimately have "all_elements u = all_elements w + mset xs" by (simp add: all_elements_def b_def)
    then show ?thesis using that by (simp add: accounted_def u_def)
  qed
  moreover have "detach_helper junk n v w = Some t"
    using assms(3) e(1,2) t(1) by (simp add: detach_helper_def Let_def b_def u_def)
  moreover obtain f where f: "block_of v t = Some (b, f)" "blocks t b = Some f"
    using counted_var [OF t'(1), of v b] t(5) by (auto simp: u_def)
  moreover have "f = \<lparr>ref = 1, data = e\<rparr>"
    using t(1) f(2) \<open>x \<noteq> b\<close> by (auto simp: deref_block_def freeData_def u_def split: if_splits Option.bind_splits)
  ultimately show ?thesis using t' t(6) fresh(3) e(5,6) c(3,4) ru \<open>x \<noteq> b\<close> eu
    counted_block(3) [OF assms(1) x(2)] by (intro exI [of _ t] exI [of _ b] exI [of _ f]) auto
qed

lemma detach_ok:
  assumes "lists_ok w" "view w v = Some xs"
  shows "\<exists>t a e. QList_detach junk v w = Some t \<and> lists_ok t \<and> view t = view w \<and> block_of v t = Some (a, e) \<and> ref e = 1 \<and>
    a \<noteq> 0 \<and> data_ok (data e) \<and> nodes (data e) = xs \<and> (\<forall>l. accounted l w \<longrightarrow> accounted l t)"
proof -
  obtain x c where c: "vars w v = Some x" "block_of v w = Some (x, c)" "blocks w x = Some c" "data_ok (data c)"
    "nodes (data c) = xs" using view_var [OF assms(2,1)] by blast
  show ?thesis
  proof (cases "ref c = 1")
    case True
    then have "x \<noteq> 0" using counted_block(2) [OF assms(1) c(3)] var_referenced [OF assms(1) c(1)]
      by (auto simp: references_def split: if_splits)
    then show ?thesis using True c assms(1) by (simp add: QList_detach_def)
  next
    case False
    have "last_end (data c) \<le> alloc (data c)" using c(4) by (simp add: data_ok_def)
    from detach_helper_ok [OF assms c(2) this, of junk] obtain t a e where t: "detach_helper junk (alloc (data c)) v w = Some t"
      "lists_ok t" "view t = view w" "block_of v t = Some (a, e)" "ref e = 1" "a \<noteq> 0"
      "\<forall>l. accounted l w \<longrightarrow> accounted l t" using False by auto
    moreover have "view t v = Some xs" using t(3) assms(2) by simp
    from view_var [OF this t(2)] t(4) have "data_ok (data e) \<and> nodes (data e) = xs" by auto
    ultimately show ?thesis using False c(2) by (simp add: QList_detach_def)
  qed
qed

end
