(* ===== verification/ListOps.thy ===== *)
theory ListOps
  imports ListValues
begin

text \<open>
  The operations that change the elements of a shared list: each detaches the list and commits the change of its data.
\<close>

section \<open>Committing a change\<close>

lemma only_holder:
  assumes "lists_ok w" "block_of v w = Some (a, c)" "ref c = 1" "a \<noteq> 0"
  shows "vars w v = Some a" "blocks w a = Some c" "holders w a = {v}"
proof -
  show v: "vars w v = Some a" "blocks w a = Some c" using assms(2) by (auto simp: block_of_def split: Option.bind_splits)
  have "card (holders w a) = 1" using counted_block(2) [OF assms(1) v(2)] assms(3,4) by (simp add: references_def)
  moreover have "v \<in> holders w a" using v by (simp add: holders_def)
  ultimately show "holders w a = {v}" by (metis card_1_singletonE singletonD)
qed

lemma commit_ok:
  assumes "lists_ok w" "block_of v w = Some (a, c)" "ref c = 1" "a \<noteq> 0" "data_ok e"
  shows "\<exists>t. commit v (e, new, dead) w = Some t \<and> lists_ok t \<and> view t = (view w)(v \<mapsto> nodes e) \<and>
    (\<forall>y. block_of y t = (if y = v then Some (a, c\<lparr>data := e\<rparr>) else block_of y w)) \<and>
    live t = live w + mset new - mset dead \<and> all_elements t + mset (nodes (data c)) = all_elements w + mset (nodes e)"
proof -
  note v = only_holder [OF assms(1-4)]
  define u where "u = w\<lparr>blocks := (blocks w)(a \<mapsto> c\<lparr>data := e\<rparr>)\<rparr>"
  define t where "t = u\<lparr>live := live w + mset new - mset dead\<rparr>"
  have "lists_ok t"
    by (rule counted_upd [OF assms(1), where a = a])
      (use assms(1,4,5) counted_block [OF assms(1) v(2)] in \<open>auto simp: t_def u_def counted_def good_def\<close>)
  moreover have e: "elements t b = (if b = a then nodes e else elements w b)" for b
    by (simp add: t_def u_def other_fields elements_upd)
  have "view t = (view w)(v \<mapsto> nodes e)"
  proof (rule ext)
    fix y
    have "vars w y = Some a \<longleftrightarrow> y = v" using v(3) by (auto simp: holders_def)
    then show "view t y = ((view w)(v \<mapsto> nodes e)) y" using v(1) e by (cases "vars w y") (auto simp: view_def t_def u_def)
  qed
  moreover have "block_of y t = (if y = v then Some (a, c\<lparr>data := e\<rparr>) else block_of y w)" for y
  proof -
    have "vars w y = Some a \<longleftrightarrow> y = v" using v(3) by (auto simp: holders_def)
    then show ?thesis using v(1) by (cases "vars w y") (auto simp: block_of_def t_def u_def)
  qed
  moreover have "all_elements t + mset (nodes (data c)) = all_elements w + mset (nodes e)"
    using all_elements_upd [of a w "Some (c\<lparr>data := e\<rparr>)"] counted_block(4) [OF assms(1) v(2)] v(2)
    by (simp add: t_def u_def other_fields elements_def)
  ultimately show ?thesis using assms(2) by (intro exI [of _ t]) (simp add: commit_def t_def u_def)
qed

lemma commit_accounted:
  assumes "live t = live w + mset new - mset dead" "all_elements t + mset xs = all_elements w + mset ys"
    "mset ys + mset dead = mset xs + mset new" "accounted l w"
  shows "accounted l t"
proof -
  have "all_elements w + mset new + mset xs = all_elements t + mset dead + mset xs"
    using assms(2,3) by (metis add.assoc add.commute)
  then have "all_elements w + mset new = all_elements t + mset dead" by simp
  then have "live w + mset new = (all_elements t + l) + mset dead"
    using assms(4) by (simp add: accounted_def add.commute add.left_commute)
  then show ?thesis using assms(1) by (simp add: accounted_def)
qed

context list_change begin

lemma apply_ok:
  assumes "lists_ok w" "block_of v w = Some (a, c)" "ref c = 1" "a \<noteq> 0" "data_ok (data c)" "allowed (nodes (data c))"
  shows "\<exists>ch. change (data c) = Some ch \<and> becomes w ((view w)(v \<mapsto> effect (nodes (data c)))) (commit v ch w)"
proof -
  obtain e new dead where e: "change (data c) = Some (e, new, dead)" "data_ok e" "nodes e = effect (nodes (data c))"
    "mset (effect (nodes (data c))) + mset dead = mset (nodes (data c)) + mset new" using changes [OF assms(5,6)] by blast
  obtain t where "commit v (e, new, dead) w = Some t" "lists_ok t" "view t = (view w)(v \<mapsto> nodes e)"
    "live t = live w + mset new - mset dead" "all_elements t + mset (nodes (data c)) = all_elements w + mset (nodes e)"
    using commit_ok [OF assms(1-4) e(2), of new dead] by blast
  then show ?thesis using e commit_accounted by (fastforce simp: becomes_def)
qed

lemma mutate_ok:
  assumes "lists_ok w" "view w v = Some xs" "allowed xs"
  shows "becomes w ((view w)(v \<mapsto> effect xs)) (mutate junk change v w)"
proof -
  obtain t a c where t: "QList_detach junk v w = Some t" "lists_ok t" "view t = view w" "block_of v t = Some (a, c)" "ref c = 1"
    "a \<noteq> 0" "data_ok (data c)" "nodes (data c) = xs" "\<forall>l. accounted l w \<longrightarrow> accounted l t"
    using detach_ok [OF assms(1,2), of junk] by blast
  obtain ch where "change (data c) = Some ch" "becomes t ((view t)(v \<mapsto> effect xs)) (commit v ch t)"
    using apply_ok [OF t(2,4-7)] t(8) assms(3) by auto
  then show ?thesis using t by (auto simp: becomes_def mutate_def)
qed

end

section \<open>The operations\<close>

lemma QList_append_ok: "lists_ok w \<Longrightarrow> view w v = Some xs \<Longrightarrow> becomes w ((view w)(v \<mapsto> xs @ [x])) (QList_append junk x v w)"
  unfolding QList_append_def by (rule append.mutate_ok) simp_all

lemma QList_prepend_ok: "lists_ok w \<Longrightarrow> view w v = Some xs \<Longrightarrow> becomes w ((view w)(v \<mapsto> x # xs)) (QList_prepend junk x v w)"
  unfolding QList_prepend_def by (rule prepend.mutate_ok) simp_all

lemma QList_insert_ok:
  "lists_ok w \<Longrightarrow> view w v = Some xs \<Longrightarrow> becomes w ((view w)(v \<mapsto> insert_at i x xs)) (QList_insert junk i x v w)"
  unfolding QList_insert_def by (rule insert.mutate_ok) simp_all

lemma QList_replace_ok:
  "lists_ok w \<Longrightarrow> view w v = Some xs \<Longrightarrow> i < length xs \<Longrightarrow> becomes w ((view w)(v \<mapsto> xs[i := x])) (QList_replace junk i x v w)"
  unfolding QList_replace_def by (rule replace.mutate_ok) simp_all

lemma QList_swap_ok:
  "lists_ok w \<Longrightarrow> view w v = Some xs \<Longrightarrow> i < length xs \<and> j < length xs \<Longrightarrow>
   becomes w ((view w)(v \<mapsto> swap_at i j xs)) (QList_swap junk i j v w)"
  unfolding QList_swap_def by (rule swap.mutate_ok)

lemma QList_move_ok:
  "lists_ok w \<Longrightarrow> view w v = Some xs \<Longrightarrow> i < length xs \<and> j < length xs \<Longrightarrow>
   becomes w ((view w)(v \<mapsto> move_item i j xs)) (QList_move junk i j v w)"
  unfolding QList_move_def by (rule move.mutate_ok)

lemma QList_erase_ok:
  "lists_ok w \<Longrightarrow> view w v = Some xs \<Longrightarrow> i + n \<le> length xs \<Longrightarrow>
   becomes w ((view w)(v \<mapsto> erase_range i n xs)) (QList_erase junk i n v w)"
  unfolding QList_erase_def by (rule erase.mutate_ok)

lemma QList_removeAt_ok:
  assumes "lists_ok w" "view w v = Some xs"
  shows "becomes w ((view w)(v \<mapsto> (if 0 \<le> i \<and> i < int (length xs) then remove_at (nat i) xs else xs))) (QList_removeAt junk i v w)"
proof -
  obtain a c where c: "block_of v w = Some (a, c)" "data_ok (data c)" "nodes (data c) = xs" using view_var [OF assms(2,1)] by blast
  show ?thesis
  proof (cases "0 \<le> i \<and> i < int (length xs)")
    case True
    then have "becomes w ((view w)(v \<mapsto> remove_at (nat i) xs)) (mutate junk (list_removeAt (int (nat i))) v w)"
      by (intro removeAt.mutate_ok [OF assms]) linarith
    then show ?thesis using True c by (simp add: QList_removeAt_def size_nodes)
  next
    case False
    have "(view w)(v \<mapsto> xs) = view w" using assms(2) by (simp add: fun_upd_idem)
    then show ?thesis using False c becomes_same [OF assms(1)] by (auto simp: QList_removeAt_def size_nodes)
  qed
qed

text \<open>With a result.\<close>

definition gives :: "'a lists \<Rightarrow> 'r \<Rightarrow> (nat \<Rightarrow> 'a list option) \<Rightarrow> ('r \<times> 'a lists) option \<Rightarrow> bool" where
  "gives w r V s \<longleftrightarrow> (\<exists>t. s = Some (r, t) \<and> becomes w V (Some t))"

lemma becomes_trans:
  "lists_ok t \<Longrightarrow> view t = view w \<Longrightarrow> \<forall>l. accounted l w \<longrightarrow> accounted l t \<Longrightarrow> becomes t V r \<Longrightarrow> becomes w V r"
  by (auto simp: becomes_def)

lemma becomes_Some: "becomes w V r \<Longrightarrow> \<exists>t. r = Some t \<and> becomes w V (Some t)"
  by (auto simp: becomes_def)

lemma QList_takeAt_ok:
  assumes "lists_ok w" "view w v = Some xs" "i < length xs"
  shows "gives w (xs ! i) ((view w)(v \<mapsto> remove_at i xs)) (QList_takeAt junk i v w)"
proof -
  obtain t a c where t: "QList_detach junk v w = Some t" "lists_ok t" "view t = view w" "block_of v t = Some (a, c)" "ref c = 1"
    "a \<noteq> 0" "data_ok (data c)" "nodes (data c) = xs" "\<forall>l. accounted l w \<longrightarrow> accounted l t"
    using detach_ok [OF assms(1,2), of junk] by blast
  have "i < length (nodes (data c))" using t(8) assms(3) by simp
  from removeAt.apply_ok [OF t(2,4-7) this] obtain ch where ch: "list_removeAt (int i) (data c) = Some ch"
    "becomes t ((view t)(v \<mapsto> remove_at i xs)) (commit v ch t)" unfolding t(8) by blast
  from becomes_Some [OF becomes_trans [OF t(2,3,9) ch(2)]] obtain u where
    "commit v ch t = Some u" "becomes w ((view t)(v \<mapsto> remove_at i xs)) (Some u)" by blast
  then show ?thesis using t(1,3,4,7,8) ch(1) assms(3) by (simp add: gives_def QList_takeAt_def QList_at_nodes)
qed

lemma take_ends_ok:
  assumes "lists_ok w" "view w v = Some xs" "xs \<noteq> []"
  shows "gives w (hd xs) ((view w)(v \<mapsto> tl xs)) (QList_takeFirst junk v w)"
    "gives w (last xs) ((view w)(v \<mapsto> butlast xs)) (QList_takeLast junk v w)"
proof -
  obtain t a c where t: "QList_detach junk v w = Some t" "lists_ok t" "view t = view w" "block_of v t = Some (a, c)"
    "data_ok (data c)" "nodes (data c) = xs" "\<forall>l. accounted l w \<longrightarrow> accounted l t"
    using detach_ok [OF assms(1,2), of junk] by blast
  have xs: "view t v = Some xs" using t(3) assms(2) by simp
  have rm: "\<exists>u. mutate junk (list_removeAt (int i)) v t = Some u \<and> becomes w ((view w)(v \<mapsto> remove_at i xs)) (Some u)"
    if "i < length xs" for i
    using becomes_Some [OF becomes_trans [OF t(2,3,7) removeAt.mutate_ok [OF t(2) xs that]]] t(3) by simp
  obtain u where u: "mutate junk (list_removeAt (int 0)) v t = Some u" "becomes w ((view w)(v \<mapsto> remove_at 0 xs)) (Some u)"
    using rm [of 0] assms(3) by blast
  have "remove_at 0 xs = tl xs" by (simp add: remove_at_def drop_Suc)
  then show "gives w (hd xs) ((view w)(v \<mapsto> tl xs)) (QList_takeFirst junk v w)"
    using t(1,4,5,6) u assms(3) by (simp add: gives_def QList_takeFirst_def QList_at_nodes hd_conv_nth)
  define k where "k = length xs - 1"
  have k: "k < length xs" "int (length xs) - 1 = int k" "length xs - Suc 0 = k" using assms(3) by (cases xs; simp add: k_def)+
  obtain z where z: "mutate junk (list_removeAt (int k)) v t = Some z" "becomes w ((view w)(v \<mapsto> remove_at k xs)) (Some z)"
    using rm [OF k(1)] by blast
  have "remove_at k xs = butlast xs" "xs ! k = last xs" using assms(3)
    by (simp_all add: k_def remove_at_def butlast_conv_take last_conv_nth)
  then show "gives w (last xs) ((view w)(v \<mapsto> butlast xs)) (QList_takeLast junk v w)"
    using t(1,4,5,6) z k by (simp add: gives_def QList_takeLast_def QList_at_nodes size_nodes flip: k_def)
qed

end
