(* ===== verification/ListQueries.thy ===== *)
theory ListQueries
  imports ListOps
begin

text \<open>
  The queries of a shared list, the operations that search before they change, and those on two lists: \<open>operator==\<close>,
  \<open>operator+=\<close>, \<open>mid\<close>, \<open>clear\<close> and \<open>reserve\<close>.
\<close>

section \<open>Queries\<close>

lemma queries_ok:
  assumes "data_ok d"
  shows "QList_value i x d = Some (if 0 \<le> i \<and> i < int (length (nodes d)) then nodes d ! nat i else x)"
    "QList_contains t d = Some (t \<in> set (nodes d))"
    "QList_count t d = Some (count_list (nodes d) t)"
proof -
  show "QList_value i x d = Some (if 0 \<le> i \<and> i < int (length (nodes d)) then nodes d ! nat i else x)"
  proof (cases "0 \<le> i \<and> i < int (length (nodes d))")
    case True
    then have "nat i < length (nodes d)" by linarith
    then show ?thesis using True at_nodes [OF assms] by (simp add: QList_value_def size_nodes [OF assms])
  next
    case False
    then show ?thesis by (auto simp: QList_value_def size_nodes [OF assms])
  qed
  show "QList_contains t d = Some (t \<in> set (nodes d))" "QList_count t d = Some (count_list (nodes d) t)"
    using scan_down_ok [OF assms, of "length (nodes d)" t] last_below_props [of "length (nodes d)" "nodes d" t]
      count_down_ok [OF assms, of "length (nodes d)" t 0]
    by (simp_all add: QList_contains_def QList_count_def size_nodes [OF assms])
qed

text \<open>Where \<open>indexOf\<close> and \<open>lastIndexOf\<close> start: a negative position counts from the end.\<close>

definition list_index_of :: "'a \<Rightarrow> int \<Rightarrow> 'a list \<Rightarrow> int" where
  "list_index_of t i xs = (let k = nat (if i < 0 then i + int (length xs) else i) in first_from t k (drop k xs))"

definition list_last_index_of :: "'a \<Rightarrow> int \<Rightarrow> 'a list \<Rightarrow> int" where
  "list_last_index_of t i xs =
    (let k = (if i < 0 then i + int (length xs) else min i (int (length xs) - 1)) in last_below t (nat (k + 1)) xs)"

lemma QList_indexOf_ok:
  assumes "data_ok d"
  shows "QList_indexOf t i d = Some (list_index_of t i (nodes d))"
proof -
  define k where "k = nat (if i < 0 then i + int (length (nodes d)) else i)"
  have k: "(if i < 0 then max (i + int (length (nodes d))) 0 else i) = int k" by (auto simp: k_def)
  have e: "list_index_of t i (nodes d) = first_from t k (drop k (nodes d))" unfolding list_index_of_def k_def Let_def ..
  show ?thesis using scan_up_ok [OF assms, of t k] unfolding QList_indexOf_def size_nodes [OF assms] k Let_def e
    by (cases "k < length (nodes d)") simp_all
qed

lemma QList_lastIndexOf_ok:
  assumes "data_ok d"
  shows "QList_lastIndexOf t i d = Some (list_last_index_of t i (nodes d))"
proof -
  define n where "n = int (length (nodes d))"
  define k where "k = (if i < 0 then i + n else if i \<ge> n then n - 1 else i)"
  have k: "(if i < 0 then i + n else min i (n - 1)) = k" by (auto simp: k_def)
  have "scan_down t (nat k + 1) d = Some (last_below t (nat (k + 1)) (nodes d))" if "0 \<le> k"
  proof -
    have "k < n" using that by (auto simp: k_def n_def split: if_splits)
    then have "nat k + 1 \<le> length (nodes d)" using that unfolding n_def by linarith
    moreover have "nat (k + 1) = nat k + 1" using that by simp
    ultimately show ?thesis using scan_down_ok [OF assms, of "nat k + 1" t] by (simp only:)
  qed
  moreover have "list_last_index_of t i (nodes d) = last_below t (nat (k + 1)) (nodes d)"
    unfolding list_last_index_of_def Let_def n_def [symmetric] k ..
  ultimately show ?thesis
    unfolding QList_lastIndexOf_def size_nodes [OF assms] Let_def n_def [symmetric] k_def [symmetric] by (cases "0 \<le> k") simp_all
qed

lemma QList_equal_ok:
  assumes "lists_ok w" "view w v = Some xs" "view w l = Some ys"
  shows "QList_equal v l w = Some (xs = ys)"
proof -
  obtain a c where c: "block_of v w = Some (a, c)" "blocks w a = Some c" "data_ok (data c)" "nodes (data c) = xs"
    using view_var [OF assms(2,1)] by blast
  obtain b e where e: "block_of l w = Some (b, e)" "blocks w b = Some e" "data_ok (data e)" "nodes (data e) = ys"
    using view_var [OF assms(3,1)] by blast
  have "a = b \<Longrightarrow> xs = ys" using c e by auto
  moreover have "length xs = length ys \<Longrightarrow> equal_down (length xs) (data c) (data e) = Some (xs = ys)"
    using equal_down_ok [OF c(3) e(3), of "length xs"] c(4) e(4) by simp
  ultimately show ?thesis using c e by (auto simp: QList_equal_def size_nodes)
qed

section \<open>Searching before a change\<close>

lemma gives_same: "lists_ok w \<Longrightarrow> view w v = Some xs \<Longrightarrow> gives w r ((view w)(v \<mapsto> xs)) (Some (r, w))"
  using becomes_same [of w] by (simp add: gives_def fun_upd_idem)

lemma list_index_of_found:
  "list_index_of t 0 xs = -1 \<longleftrightarrow> t \<notin> set xs"
  "t \<in> set xs \<Longrightarrow> \<exists>k < length xs. list_index_of t 0 xs = int k \<and> xs ! k = t \<and> t \<notin> set (take k xs)"
  using first_from_props(1) [of t 0 xs] first_from_props(2) [of t xs 0] by (simp_all add: list_index_of_def)

lemma remove1_at: "k < length xs \<Longrightarrow> xs ! k = t \<Longrightarrow> t \<notin> set (take k xs) \<Longrightarrow> remove_at k xs = remove1 t xs"
proof (induction xs arbitrary: k)
  case (Cons x xs)
  then show ?case by (cases k) (auto simp: remove_at_def)
qed simp

lemma QList_removeOne_ok:
  assumes "lists_ok w" "view w v = Some xs"
  shows "gives w (t \<in> set xs) ((view w)(v \<mapsto> remove1 t xs)) (QList_removeOne junk t v w)"
proof -
  obtain a c where c: "block_of v w = Some (a, c)" "data_ok (data c)" "nodes (data c) = xs"
    using view_var [OF assms(2,1)] by blast
  have i: "QList_indexOf t 0 (data c) = Some (list_index_of t 0 xs)" using QList_indexOf_ok [OF c(2)] c(3) by simp
  show ?thesis
  proof (cases "t \<in> set xs")
    case True
    then obtain k where k: "k < length xs" "list_index_of t 0 xs = int k" "xs ! k = t" "t \<notin> set (take k xs)"
      using list_index_of_found(2) [OF True] by blast
    from becomes_Some [OF QList_removeAt_ok [OF assms, of "int k" junk]] obtain u where
      "QList_removeAt junk (int k) v w = Some u" "becomes w ((view w)(v \<mapsto> remove1 t xs)) (Some u)"
      using k(1) remove1_at [OF k(1,3,4)] by auto
    then show ?thesis using c(1) i k(2) True by (simp add: QList_removeOne_def gives_def)
  next
    case False
    then show ?thesis using gives_same [OF assms] c(1) i list_index_of_found(1) [of t xs]
      by (simp add: QList_removeOne_def remove1_idem)
  qed
qed

lemma QList_removeAll_ok:
  assumes "lists_ok w" "view w v = Some xs"
  shows "gives w (count_list xs t) ((view w)(v \<mapsto> [x \<leftarrow> xs. x \<noteq> t])) (QList_removeAll junk t v w)"
proof -
  obtain a c where c: "block_of v w = Some (a, c)" "data_ok (data c)" "nodes (data c) = xs"
    using view_var [OF assms(2,1)] by blast
  have i: "QList_indexOf t 0 (data c) = Some (list_index_of t 0 xs)" using QList_indexOf_ok [OF c(2)] c(3) by simp
  show ?thesis
  proof (cases "t \<in> set xs")
    case True
    then obtain k where k: "k < length xs" "list_index_of t 0 xs = int k" "xs ! k = t" "t \<notin> set (take k xs)"
      using list_index_of_found(2) [OF True] by blast
    obtain u b e where u: "QList_detach junk v w = Some u" "lists_ok u" "view u = view w" "block_of v u = Some (b, e)" "ref e = 1"
      "b \<noteq> 0" "data_ok (data e)" "nodes (data e) = xs" "\<forall>l. accounted l w \<longrightarrow> accounted l u"
      using detach_ok [OF assms, of junk] by blast
    obtain f dead where f: "list_removeAll t k (data e) = Some (length [x \<leftarrow> xs. x = t], f, [], dead)" "data_ok f"
      "nodes f = [x \<leftarrow> xs. x \<noteq> t]" "mset [x \<leftarrow> xs. x \<noteq> t] + mset dead = mset xs"
      using removeAll_ok [OF u(7), of k t] k u(8) by auto
    obtain s where s: "commit v (f, [], dead) u = Some s" "lists_ok s" "view s = (view u)(v \<mapsto> nodes f)"
      "live s = live u + mset [] - mset dead" "all_elements s + mset (nodes (data e)) = all_elements u + mset (nodes f)"
      using commit_ok [OF u(2,4,5,6) f(2), of "[]" dead] by blast
    have "accounted l s" if "accounted l w" for l
      using commit_accounted [OF s(4,5)] f(3,4) u(8,9) that by simp
    moreover have "length [x \<leftarrow> xs. x = t] = count_list xs t"
      by (induction xs) auto
    ultimately show ?thesis using c(1) i k(2) u(1,3,4) f(1,3) s(1-3)
      by (simp add: QList_removeAll_def gives_def becomes_def)
  next
    case False
    moreover have "count_list xs t = 0" "[x \<leftarrow> xs. x \<noteq> t] = xs" using False by (auto simp: count_list_0_iff filter_id_conv)
    ultimately show ?thesis using gives_same [OF assms] c(1) i list_index_of_found(1) [of t xs]
      by (simp add: QList_removeAll_def)
  qed
qed

section \<open>Two lists\<close>

lemma write_nodes_ok:
  assumes "laid_out d L (A @ G) R" "k = length L + length A" "length ys = length G"
  shows "\<exists>e. write_nodes k ys d = Some e \<and> data_ok e \<and> nodes e = A @ ys"
proof -
  define e where "e = d\<lparr>array := L @ A @ ys @ R\<rparr>"
  have "write_nodes k ys d = Some e" using assms by (simp add: write_nodes_def laid_out_def e_def)
  moreover have "laid_out e L (A @ ys) R" using assms by (simp add: laid_out_def e_def)
  ultimately show ?thesis using laid_out_ok by blast
qed

lemma QList_append_list_ok:
  assumes "lists_ok w" "view w v = Some xs" "view w l = Some ys"
  shows "becomes w ((view w)(v \<mapsto> xs @ ys)) (QList_append_list junk l v w)"
proof -
  obtain b0 e0 where e: "block_of l w = Some (b0, e0)" "data_ok (data e0)" "nodes (data e0) = ys"
    using view_var [OF assms(3,1)] by blast
  obtain a0 c0 where c: "block_of v w = Some (a0, c0)" "data_ok (data c0)" "nodes (data c0) = xs"
    using view_var [OF assms(2,1)] by blast
  have empty: "QListData_isEmpty d \<longleftrightarrow> nodes d = []" if "data_ok d" for d :: "'a Data"
    using length_nodes [OF that] that by (auto simp: QListData_isEmpty_def data_ok_def nodes_def)
  consider "ys = []" | "ys \<noteq> []" "xs = []" | (both) "ys \<noteq> []" "xs \<noteq> []" by blast
  then show ?thesis
  proof cases
    case both
    obtain t a c where t: "QList_detach junk v w = Some t" "lists_ok t" "view t = view w" "block_of v t = Some (a, c)" "ref c = 1"
      "a \<noteq> 0" "data_ok (data c)" "nodes (data c) = xs" "\<forall>l. accounted l w \<longrightarrow> accounted l t"
      using detach_ok [OF assms(1,2), of junk] by blast
    have "view t l = Some ys" using t(3) assms(3) by simp
    from view_var [OF this t(2)] obtain b e where e': "block_of l t = Some (b, e)" "data_ok (data e)" "nodes (data e) = ys" by blast
    obtain L R where "laid_out (data c) L xs R" using ok_laid_out [OF t(7)] t(8) by auto
    from append_room [OF this, of junk "length ys"] obtain k d G M R' where
      d: "QListData_append junk (length ys) (data c) = Some (k, d)" "laid_out d M (xs @ G) R'" "length G = length ys"
        "k = length M + length xs" by blast
    have dn: "data_ok d" "nodes d = xs @ G" "last_end d - k = length ys" using laid_out_ok [OF d(2)] d by (simp_all add: laid_out_def)
    obtain u where u: "commit v (d, [], []) t = Some u" "lists_ok u" "view u = (view t)(v \<mapsto> xs @ G)"
      "\<forall>y. block_of y u = (if y = v then Some (a, c\<lparr>data := d\<rparr>) else block_of y t)" "live u = live t + mset [] - mset []"
      "all_elements u + mset (nodes (data c)) = all_elements t + mset (nodes d)"
      using commit_ok [OF t(2,4-6) dn(1), of "[]" "[]"] dn(2) by auto
    obtain b' e' where l: "block_of l u = Some (b', e')" "data_ok (data e')" "take (length ys) (nodes (data e')) = ys"
      "length ys \<le> length (nodes (data e'))"
    proof (cases "l = v")
      case True
      then have "ys = xs" using assms by simp
      then show ?thesis using True u(4) dn that by simp
    next
      case False
      then show ?thesis using u(4) e' that by simp
    qed
    have r: "read_nodes (first (data e')) (last_end d - k) (data e') = Some ys"
      using read_nodes_ok [OF l(2), of 0 "length ys"] l(3,4) dn(3) by simp
    obtain f where f: "write_nodes k ys d = Some f" "data_ok f" "nodes f = xs @ ys"
      using write_nodes_ok [OF d(2,4)] d(3) by auto
    have cu: "block_of v u = Some (a, c\<lparr>data := d\<rparr>)" "ref (c\<lparr>data := d\<rparr>) = 1" using u(4) t(5) by simp_all
    obtain s where s: "commit v (f, ys, []) u = Some s" "lists_ok s" "view s = (view u)(v \<mapsto> xs @ ys)"
      "live s = live u + mset ys - mset []" "all_elements s + mset (nodes (data (c\<lparr>data := d\<rparr>))) = all_elements u + mset (nodes f)"
      using commit_ok [OF u(2) cu t(6) f(2), of ys "[]"] f(3) by auto
    have "all_elements s + mset xs = all_elements t + mset (xs @ ys)"
    proof -
      have "all_elements s + mset xs + (mset xs + mset G) = all_elements u + mset xs + (mset xs + mset ys)"
        using s(5) f(3) dn(2) by (simp add: add_ac)
      also have "\<dots> = all_elements t + mset (xs @ ys) + (mset xs + mset G)" using u(6) t(8) dn(2) by (simp add: add_ac)
      finally show ?thesis by simp
    qed
    then have bal: "\<forall>l. accounted l w \<longrightarrow> accounted l s"
      using commit_accounted [of s t ys "[]" xs "xs @ ys"] s(4) u(5) t(9) by simp
    have "QListData_size (data e) = length ys" using size_nodes [OF e'(2)] e'(3) by simp
    moreover have "\<not> QListData_isEmpty (data e0)" "\<not> QListData_isEmpty (data c0)" using both empty e c by simp_all
    ultimately have "QList_append_list junk l v w = Some s"
      using e(1) c(1) t(1,4) e'(1) d(1) u(1) l(1) r f(1) s(1) by (simp add: QList_append_list_def)
    then show ?thesis using s(2,3) u(3) t(3) bal by (simp add: becomes_def)
  qed (use assms e c empty QList_assign_ok [OF assms] becomes_same [OF assms(1)] in
      \<open>simp_all add: QList_append_list_def fun_upd_idem\<close>)
qed

section \<open>\<open>clear\<close>, \<open>reserve\<close> and \<open>mid\<close>\<close>

lemma becomes_bind:
  assumes "becomes w V r" "\<And>t. lists_ok t \<Longrightarrow> view t = V \<Longrightarrow> becomes t V' (f t)"
  shows "becomes w V' (r \<bind> f)"
proof -
  obtain t where t: "r = Some t" "lists_ok t" "view t = V" "\<forall>l. accounted l w \<longrightarrow> accounted l t"
    using assms(1) by (auto simp: becomes_def)
  from becomes_Some [OF assms(2) [OF t(2,3)]] show ?thesis using t by (auto simp: becomes_def)
qed

lemma view_None: "view w v = None \<longleftrightarrow> vars w v = None"
  by (simp add: view_def)

lemma QList_clear_ok:
  assumes "lists_ok w" "view w v = Some xs" "view w tmp = None"
  shows "becomes w ((view w)(v \<mapsto> [])) (QList_clear tmp v w)"
  unfolding QList_clear_def
proof (rule becomes_bind [OF new_QList_ok [OF assms(1)]], goal_cases)
  case 1
  show ?case using assms(3) by (simp add: view_None)
next
  case (2 t)
  have n: "v \<noteq> tmp" using assms(2,3) by auto
  then have v: "view t v = Some xs" "view t tmp = Some []" using 2 assms(2) by simp_all
  show ?case
  proof (rule becomes_bind [OF QList_swap_with_ok [OF 2(1) v]], goal_cases)
    case (1 u)
    then obtain a where a: "vars u tmp = Some a" by (cases "vars u tmp") (auto simp: view_def dest: fun_cong [where x = tmp])
    have "(view u)(tmp := None) = (view w)(v \<mapsto> [])" using 1(2) 2(2) n assms(3) by auto
    then show ?case using destroy_QList_ok [OF 1(1) a] by simp
  qed
qed

lemma QList_reserve_ok:
  assumes "lists_ok w" "view w v = Some xs" "block_of v w = Some (a, c)"
  shows "\<exists>t. QList_reserve junk n v w = Some t \<and> lists_ok t \<and> view t = view w \<and>
    (\<forall>l. accounted l w \<longrightarrow> accounted (if int (alloc (data c)) < n \<and> ref c = 1 then l + mset xs else l) t)"
proof (cases "int (alloc (data c)) < n")
  case True
  have "data_ok (data c)" using view_var [OF assms(2,1)] assms(3) by auto
  then have "last_end (data c) \<le> nat n" using True unfolding data_ok_def by linarith
  from detach_helper_ok [OF assms this, of junk] show ?thesis using True assms(3) by (auto simp: QList_reserve_def)
next
  case False
  then show ?thesis using assms(1,3) by (auto simp: QList_reserve_def)
qed

definition mid_of :: "nat \<Rightarrow> int \<Rightarrow> 'a list \<Rightarrow> 'a list" where
  "mid_of pos n xs =
    (let n = (if n < 0 \<or> int pos + n > int (length xs) then int (length xs) - int pos else n) in take (nat n) (drop pos xs))"

lemma new_block:
  assumes "new_QList r w = Some u" "lists_ok u"
  shows "\<exists>c. block_of r u = Some (0, c) \<and> data c = empty_data \<and> ref c \<noteq> 1"
proof -
  have v: "vars u r = Some 0" using assms(1) by (auto simp: new_QList_def)
  obtain c where c: "block_of r u = Some (0, c)" "blocks u 0 = Some c" using counted_var [OF assms(2) v] by blast
  have "0 < card (holders u 0)" using var_referenced [OF assms(2) v] by simp
  then have "ref c \<noteq> 1" using counted_block(2) [OF assms(2) c(2)] by (simp add: references_def)
  then show ?thesis using c counted_block(5) [OF assms(2) c(2)] by simp
qed

lemma QList_mid_ok:
  assumes "lists_ok w" "view w v = Some xs" "view w r = None" "n < 0 \<or> int pos + n < 2147483648"
  shows "becomes w ((view w)(r \<mapsto> mid_of pos n xs)) (QList_mid junk pos n r v w)"
proof -
  obtain a c where c: "block_of v w = Some (a, c)" "data_ok (data c)" "nodes (data c) = xs"
    using view_var [OF assms(2,1)] by blast
  have r: "vars w r = None" "r \<noteq> v" using assms(2,3) by (simp add: view_None, auto)
  define k where "k = (if n < 0 \<or> int pos + n > int (length xs) then int (length xs) - int pos else n)"
  have m: "mid_of pos n xs = take (nat k) (drop pos xs)" unfolding mid_of_def Let_def k_def ..
  have kl: "int pos + k \<le> int (length xs)" by (auto simp: k_def)
  have mid: "QList_mid junk pos n r v w =
    (if pos = 0 \<and> k = int (length xs) then copy_QList r v w
     else do {
      w \<leftarrow> new_QList r w;
      if k \<le> 0 then Some w
      else do {
        w \<leftarrow> QList_reserve junk k r w;
        (b, e) \<leftarrow> block_of r w;
        (a, c) \<leftarrow> block_of v w;
        xs \<leftarrow> read_nodes (first (data c) + pos) (nat k) (data c);
        d \<leftarrow> write_nodes (first (data e)) xs ((data e)\<lparr>last_end := nat k\<rparr>);
        commit r (d, xs, []) w } })"
  proof -
    have "n < 0 \<or> i32 (int pos + n) = int pos + n" using assms(4) i32_id [of "int pos + n"] by (cases "n < 0") (simp_all add: in32_def)
    then have "(if n < 0 \<or> i32 (int pos + n) > int (length xs) then int (length xs) - int pos else n) = k"
      by (auto simp: k_def)
    then show ?thesis by (simp only: QList_mid_def c(1) Option.bind_lunit prod.case size_nodes [OF c(2)] c(3) Let_def)
  qed
  consider (copy) "pos = 0" "k = int (length xs)" | (none) "\<not> (pos = 0 \<and> k = int (length xs))" "k \<le> 0"
    | (part) "\<not> (pos = 0 \<and> k = int (length xs))" "0 < k" by linarith
  then show ?thesis
  proof cases
    case copy
    then show ?thesis using copy_QList_ok [OF assms(1) r(1) assms(2)] unfolding mid m by simp
  next
    case none
    obtain u where "new_QList r w = Some u" "becomes w ((view w)(r \<mapsto> [])) (Some u)"
      using becomes_Some [OF new_QList_ok [OF assms(1) r(1)]] by blast
    then show ?thesis using none by (auto simp: mid m)
  next
    case part
    obtain u where u: "new_QList r w = Some u" "lists_ok u" "view u = (view w)(r \<mapsto> [])" "\<forall>l. accounted l w \<longrightarrow> accounted l u"
      using new_QList_ok [OF assms(1) r(1)] by (auto simp: becomes_def)
    obtain z where z: "block_of r u = Some (0, z)" "data z = empty_data" "ref z \<noteq> 1" using new_block [OF u(1,2)] by blast
    have "last_end (data z) \<le> nat k" using z(2) by (simp add: empty_data_def)
    from detach_helper_ok [OF u(2) _ z(1) this, of "[]" junk] obtain t b e where t: "detach_helper junk (nat k) r u = Some t"
      "lists_ok t" "view t = view u" "block_of r t = Some (b, e)" "ref e = 1" "b \<noteq> 0" "alloc (data e) = nat k" "first (data e) = 0"
      "\<forall>l. accounted l u \<longrightarrow> accounted l t"
      using u(3) z(2,3) by (auto simp: empty_data_def)
    have res: "QList_reserve junk k r u = Some t" using z(1,2) t(1) part(2) by (simp add: QList_reserve_def empty_data_def)
    have "view t r = Some []" using t(3) u(3) by simp
    from view_var [OF this t(2)] t(4) have e: "data_ok (data e)" "nodes (data e) = []" by auto
    have "view t v = Some xs" using t(3) u(3) r(2) assms(2) by simp
    from view_var [OF this t(2)] obtain x y where y: "block_of v t = Some (x, y)" "data_ok (data y)" "nodes (data y) = xs" by blast
    define ys where "ys = mid_of pos n xs"
    have ys: "length ys = nat k" "read_nodes (first (data y) + pos) (nat k) (data y) = Some ys"
    proof -
      have le: "pos + nat k \<le> length (nodes (data y))" unfolding y(3) using kl part(2) by linarith
      then show "length ys = nat k" using y(3) by (simp add: ys_def m)
      obtain L R where "laid_out (data y) L xs R" using ok_laid_out [OF y(2)] y(3) by auto
      then show "read_nodes (first (data y) + pos) (nat k) (data y) = Some ys"
        using le y(3) by (simp add: read_nodes_def laid_out_def ys_def m)
    qed
    have "laid_out ((data e)\<lparr>last_end := nat k\<rparr>) [] ([] @ array (data e)) []"
      using e(1) t(7,8) by (simp add: laid_out_def data_ok_def)
    from write_nodes_ok [OF this, of 0 ys] obtain f where f: "write_nodes (first (data e)) ys ((data e)\<lparr>last_end := nat k\<rparr>) = Some f"
      "data_ok f" "nodes f = ys" using ys(1) e(1) t(7,8) by (auto simp: data_ok_def)
    obtain s where s: "commit r (f, ys, []) t = Some s" "lists_ok s" "view s = (view t)(r \<mapsto> ys)"
      "live s = live t + mset ys - mset []" "all_elements s + mset [] = all_elements t + mset ys"
      using commit_ok [OF t(2,4,5,6) f(2), of ys "[]"] f(3) e(2) by auto
    have "\<forall>l. accounted l w \<longrightarrow> accounted l s" using commit_accounted [OF s(4,5)] u(4) t(9) by simp
    moreover have "QList_mid junk pos n r v w = Some s"
      unfolding mid if_not_P [OF part(1)] using part(2) u(1) res t(4) y(1) ys(2) f(1) s(1) by simp
    ultimately show ?thesis using s(2,3) t(3) u(3) by (simp add: becomes_def ys_def)
  qed
qed

end
