(* ===== verification/ListRefine.thy ===== *)
theory ListRefine
  imports ListQueries
begin

text \<open>
  Programs with lists: a sequence of operations on variables of type \<open>QList\<close> gives the results, and leaves the values,
  that the same operations give on lists that share nothing.
\<close>

section \<open>Operations as a program calls them\<close>

datatype 'a list_op =
    ListNew nat | ListCopy nat nat | ListDestroy nat | ListAssign nat nat | ListSwapWith nat nat
  | ListAppend nat 'a | ListPrepend nat 'a | ListInsert nat int 'a | ListReplace nat nat 'a
  | ListRemoveAt nat int | ListSwap nat nat nat | ListMove nat nat nat | ListErase nat nat nat
  | ListTakeAt nat nat | ListTakeFirst nat | ListTakeLast nat
  | ListRemoveOne nat 'a | ListRemoveAll nat 'a
  | ListClear nat nat | ListAppendList nat nat | ListMid nat nat nat int | ListReserve nat int
  | ListAt nat nat | ListValue nat int 'a | ListIndexOf nat 'a int | ListLastIndexOf nat 'a int
  | ListContains nat 'a | ListCount nat 'a | ListSize nat | ListEqual nat nat

datatype 'a list_out = NoResult | Element 'a | Number int | Truth bool

definition silent :: "'a lists option \<Rightarrow> ('a list_out \<times> 'a lists) option" where
  "silent r = map_option (\<lambda>w. (NoResult, w)) r"

definition result :: "('r \<Rightarrow> 'a list_out) \<Rightarrow> ('r \<times> 'a lists) option \<Rightarrow> ('a list_out \<times> 'a lists) option" where
  "result f r = map_option (\<lambda>(x, w). (f x, w)) r"

definition query :: "('r \<Rightarrow> 'a list_out) \<Rightarrow> ('a Data \<Rightarrow> 'r option) \<Rightarrow> nat \<Rightarrow> 'a lists \<Rightarrow> ('a list_out \<times> 'a lists) option" where
  "query f q v w = do { (a, c) \<leftarrow> block_of v w; x \<leftarrow> q (data c); Some (f x, w) }"

fun list_step :: "'a \<Rightarrow> 'a list_op \<Rightarrow> 'a lists \<Rightarrow> ('a list_out \<times> 'a lists) option" where
  "list_step junk (ListNew v) w = silent (new_QList v w)"
| "list_step junk (ListCopy v l) w = silent (copy_QList v l w)"
| "list_step junk (ListDestroy v) w = silent (destroy_QList v w)"
| "list_step junk (ListAssign v l) w = silent (QList_assign v l w)"
| "list_step junk (ListSwapWith v l) w = silent (QList_swap_with v l w)"
| "list_step junk (ListAppend v x) w = silent (QList_append junk x v w)"
| "list_step junk (ListPrepend v x) w = silent (QList_prepend junk x v w)"
| "list_step junk (ListInsert v i x) w = silent (QList_insert junk i x v w)"
| "list_step junk (ListReplace v i x) w = silent (QList_replace junk i x v w)"
| "list_step junk (ListRemoveAt v i) w = silent (QList_removeAt junk i v w)"
| "list_step junk (ListSwap v i j) w = silent (QList_swap junk i j v w)"
| "list_step junk (ListMove v i j) w = silent (QList_move junk i j v w)"
| "list_step junk (ListErase v i n) w = silent (QList_erase junk i n v w)"
| "list_step junk (ListTakeAt v i) w = result Element (QList_takeAt junk i v w)"
| "list_step junk (ListTakeFirst v) w = result Element (QList_takeFirst junk v w)"
| "list_step junk (ListTakeLast v) w = result Element (QList_takeLast junk v w)"
| "list_step junk (ListRemoveOne v t) w = result Truth (QList_removeOne junk t v w)"
| "list_step junk (ListRemoveAll v t) w = result (\<lambda>n. Number (int n)) (QList_removeAll junk t v w)"
| "list_step junk (ListClear v tmp) w = silent (QList_clear tmp v w)"
| "list_step junk (ListAppendList v l) w = silent (QList_append_list junk l v w)"
| "list_step junk (ListMid r v pos n) w = silent (QList_mid junk pos n r v w)"
| "list_step junk (ListReserve v n) w = silent (QList_reserve junk n v w)"
| "list_step junk (ListAt v i) w = query Element (QList_at i) v w"
| "list_step junk (ListValue v i x) w = query Element (QList_value i x) v w"
| "list_step junk (ListIndexOf v t i) w = query Number (QList_indexOf t i) v w"
| "list_step junk (ListLastIndexOf v t i) w = query Number (QList_lastIndexOf t i) v w"
| "list_step junk (ListContains v t) w = query Truth (QList_contains t) v w"
| "list_step junk (ListCount v t) w = query (\<lambda>n. Number (int n)) (QList_count t) v w"
| "list_step junk (ListSize v) w = query (\<lambda>n. Number (int n)) (\<lambda>d. Some (QListData_size d)) v w"
| "list_step junk (ListEqual v l) w = map_option (\<lambda>b. (Truth b, w)) (QList_equal v l w)"

section \<open>The same on values\<close>

type_synonym 'a list_values = "nat \<Rightarrow> 'a list option"

definition on_list :: "'a list_values \<Rightarrow> nat \<Rightarrow> ('a list \<Rightarrow> bool) \<Rightarrow> bool" where
  "on_list V v P = (case V v of None \<Rightarrow> False | Some xs \<Rightarrow> P xs)"

abbreviation bound :: "'a list_values \<Rightarrow> nat \<Rightarrow> bool" where
  "bound V v \<equiv> on_list V v (\<lambda>xs. True)"

text \<open>
  When an operation may be called: on lists that exist, with the indices that the assertions of the code require, with the
  result of \<open>mid\<close> and the temporary of \<open>clear\<close> in a new variable, and with the sum of position and length, which \<open>mid\<close>
  computes first, in the range of \<open>int\<close> (\<open>mid (1, INT_MAX)\<close> wraps, takes the length as it is and copies from behind the array).
\<close>

fun list_pre :: "'a list_op \<Rightarrow> 'a list_values \<Rightarrow> bool" where
  "list_pre (ListNew v) V = (V v = None)"
| "list_pre (ListCopy v l) V = (V v = None \<and> bound V l)"
| "list_pre (ListAssign v l) V = (bound V v \<and> bound V l)"
| "list_pre (ListSwapWith v l) V = (bound V v \<and> bound V l)"
| "list_pre (ListReplace v i x) V = on_list V v (\<lambda>xs. i < length xs)"
| "list_pre (ListSwap v i j) V = on_list V v (\<lambda>xs. i < length xs \<and> j < length xs)"
| "list_pre (ListMove v i j) V = on_list V v (\<lambda>xs. i < length xs \<and> j < length xs)"
| "list_pre (ListErase v i n) V = on_list V v (\<lambda>xs. i + n \<le> length xs)"
| "list_pre (ListTakeAt v i) V = on_list V v (\<lambda>xs. i < length xs)"
| "list_pre (ListTakeFirst v) V = on_list V v (\<lambda>xs. xs \<noteq> [])"
| "list_pre (ListTakeLast v) V = on_list V v (\<lambda>xs. xs \<noteq> [])"
| "list_pre (ListClear v tmp) V = (bound V v \<and> V tmp = None)"
| "list_pre (ListAppendList v l) V = (bound V v \<and> bound V l)"
| "list_pre (ListMid r v pos n) V = (bound V v \<and> V r = None \<and> (n < 0 \<or> int pos + n < 2147483648))"
| "list_pre (ListAt v i) V = on_list V v (\<lambda>xs. i < length xs)"
| "list_pre (ListEqual v l) V = (bound V v \<and> bound V l)"
| "list_pre (ListDestroy v) V = bound V v"
| "list_pre (ListAppend v x) V = bound V v"
| "list_pre (ListPrepend v x) V = bound V v"
| "list_pre (ListInsert v i x) V = bound V v"
| "list_pre (ListRemoveAt v i) V = bound V v"
| "list_pre (ListRemoveOne v t) V = bound V v"
| "list_pre (ListRemoveAll v t) V = bound V v"
| "list_pre (ListReserve v n) V = bound V v"
| "list_pre (ListValue v i x) V = bound V v"
| "list_pre (ListIndexOf v t i) V = bound V v"
| "list_pre (ListLastIndexOf v t i) V = bound V v"
| "list_pre (ListContains v t) V = bound V v"
| "list_pre (ListCount v t) V = bound V v"
| "list_pre (ListSize v) V = bound V v"

abbreviation update :: "'a list_values \<Rightarrow> nat \<Rightarrow> ('a list \<Rightarrow> 'a list) \<Rightarrow> 'a list_values" where
  "update V v f \<equiv> V(v \<mapsto> f (the (V v)))"

fun list_spec :: "'a list_op \<Rightarrow> 'a list_values \<Rightarrow> 'a list_out \<times> 'a list_values" where
  "list_spec (ListNew v) V = (NoResult, V(v \<mapsto> []))"
| "list_spec (ListCopy v l) V = (NoResult, V(v := V l))"
| "list_spec (ListDestroy v) V = (NoResult, V(v := None))"
| "list_spec (ListAssign v l) V = (NoResult, V(v := V l))"
| "list_spec (ListSwapWith v l) V = (NoResult, V(v := V l, l := V v))"
| "list_spec (ListAppend v x) V = (NoResult, update V v (\<lambda>xs. xs @ [x]))"
| "list_spec (ListPrepend v x) V = (NoResult, update V v ((#) x))"
| "list_spec (ListInsert v i x) V = (NoResult, update V v (insert_at i x))"
| "list_spec (ListReplace v i x) V = (NoResult, update V v (\<lambda>xs. xs[i := x]))"
| "list_spec (ListRemoveAt v i) V =
    (NoResult, update V v (\<lambda>xs. if 0 \<le> i \<and> i < int (length xs) then remove_at (nat i) xs else xs))"
| "list_spec (ListSwap v i j) V = (NoResult, update V v (swap_at i j))"
| "list_spec (ListMove v i j) V = (NoResult, update V v (move_item i j))"
| "list_spec (ListErase v i n) V = (NoResult, update V v (erase_range i n))"
| "list_spec (ListTakeAt v i) V = (Element (the (V v) ! i), update V v (remove_at i))"
| "list_spec (ListTakeFirst v) V = (Element (hd (the (V v))), update V v tl)"
| "list_spec (ListTakeLast v) V = (Element (last (the (V v))), update V v butlast)"
| "list_spec (ListRemoveOne v t) V = (Truth (t \<in> set (the (V v))), update V v (remove1 t))"
| "list_spec (ListRemoveAll v t) V = (Number (int (count_list (the (V v)) t)), update V v (filter (\<lambda>x. x \<noteq> t)))"
| "list_spec (ListClear v tmp) V = (NoResult, V(v \<mapsto> []))"
| "list_spec (ListAppendList v l) V = (NoResult, update V v (\<lambda>xs. xs @ the (V l)))"
| "list_spec (ListMid r v pos n) V = (NoResult, V(r \<mapsto> mid_of pos n (the (V v))))"
| "list_spec (ListReserve v n) V = (NoResult, V)"
| "list_spec (ListAt v i) V = (Element (the (V v) ! i), V)"
| "list_spec (ListValue v i x) V =
    (Element (if 0 \<le> i \<and> i < int (length (the (V v))) then the (V v) ! nat i else x), V)"
| "list_spec (ListIndexOf v t i) V = (Number (list_index_of t i (the (V v))), V)"
| "list_spec (ListLastIndexOf v t i) V = (Number (list_last_index_of t i (the (V v))), V)"
| "list_spec (ListContains v t) V = (Truth (t \<in> set (the (V v))), V)"
| "list_spec (ListCount v t) V = (Number (int (count_list (the (V v)) t)), V)"
| "list_spec (ListSize v) V = (Number (int (length (the (V v)))), V)"
| "list_spec (ListEqual v l) V = (Truth (V v = V l), V)"

definition is_reserve :: "'a list_op \<Rightarrow> bool" where
  "is_reserve op = (case op of ListReserve v n \<Rightarrow> True | _ \<Rightarrow> False)"

section \<open>One operation\<close>

lemma silent_gives: "becomes w V r \<Longrightarrow> gives w NoResult V (silent r)"
  by (auto simp: gives_def silent_def becomes_def)

lemma result_gives: "gives w x V r \<Longrightarrow> gives w (f x) V (result f r)"
  by (auto simp: gives_def result_def)

lemma query_gives:
  assumes "lists_ok w" "view w v = Some xs" "\<And>d. data_ok d \<Longrightarrow> nodes d = xs \<Longrightarrow> q d = Some r"
  shows "gives w (f r) (view w) (query f q v w)"
proof -
  obtain a c where "block_of v w = Some (a, c)" "data_ok (data c)" "nodes (data c) = xs" using view_var [OF assms(2,1)] by blast
  then show ?thesis using assms(3) becomes_same [OF assms(1)] by (simp add: query_def gives_def)
qed

lemma on_listD: "on_list V v P \<Longrightarrow> \<exists>xs. V v = Some xs \<and> P xs"
  by (auto simp: on_list_def split: option.splits)

lemma view_gives: "lists_ok w \<Longrightarrow> gives w x (view w) (Some (x, w))"
  using becomes_same by (simp add: gives_def)

lemmas list_changes = QList_assign_ok QList_swap_with_ok QList_append_ok QList_prepend_ok QList_insert_ok QList_replace_ok
  QList_removeAt_ok QList_swap_ok QList_move_ok QList_erase_ok QList_clear_ok QList_append_list_ok QList_mid_ok

lemmas list_results = QList_takeAt_ok take_ends_ok QList_removeOne_ok QList_removeAll_ok

lemma query_step:
  assumes "lists_ok w" "view w v = Some xs"
  shows "i < length xs \<Longrightarrow> gives w (Element (xs ! i)) (view w) (query Element (QList_at i) v w)"
    "gives w (Element (if 0 \<le> k \<and> k < int (length xs) then xs ! nat k else x)) (view w) (query Element (QList_value k x) v w)"
    "gives w (Number (list_index_of t k xs)) (view w) (query Number (QList_indexOf t k) v w)"
    "gives w (Number (list_last_index_of t k xs)) (view w) (query Number (QList_lastIndexOf t k) v w)"
    "gives w (Truth (t \<in> set xs)) (view w) (query Truth (QList_contains t) v w)"
    "gives w (Number (int (count_list xs t))) (view w) (query (\<lambda>n. Number (int n)) (QList_count t) v w)"
    "gives w (Number (int (length xs))) (view w) (query (\<lambda>n. Number (int n)) (\<lambda>d. Some (QListData_size d)) v w)"
  by (rule query_gives [OF assms]; simp add: QList_at_nodes queries_ok QList_indexOf_ok QList_lastIndexOf_ok size_nodes)+

lemma list_step_gives:
  assumes "lists_ok w" "list_pre op (view w)" "\<not> is_reserve op"
  shows "gives w (fst (list_spec op (view w))) (snd (list_spec op (view w))) (list_step junk op w)"
proof (cases op)
  case (ListNew v)
  then show ?thesis using new_QList_ok [OF assms(1)] assms(2) by (simp add: silent_gives view_None)
next
  case (ListCopy v l)
  then obtain xs where "view w l = Some xs" using assms(2) on_listD by fastforce
  then show ?thesis using copy_QList_ok [OF assms(1)] assms(2) by (simp add: ListCopy silent_gives view_None)
next
  case (ListDestroy v)
  then obtain a where "vars w v = Some a" using assms(2) on_listD by (fastforce simp: view_def)
  then show ?thesis using destroy_QList_ok [OF assms(1)] by (simp add: ListDestroy silent_gives)
next
  case (ListEqual v l)
  then obtain xs ys where "view w v = Some xs" "view w l = Some ys" using assms(2) by (auto dest!: on_listD)
  then show ?thesis using QList_equal_ok [OF assms(1)] view_gives [OF assms(1)] by (simp add: ListEqual)
next
  case (ListRemoveAt v i)
  then obtain xs where xs: "view w v = Some xs" using assms(2) by (auto dest!: on_listD)
  show ?thesis unfolding ListRemoveAt list_step.simps list_spec.simps fst_conv snd_conv xs option.sel
    by (rule silent_gives [OF QList_removeAt_ok [OF assms(1) xs]])
next
  case (ListValue v i x)
  then obtain xs where xs: "view w v = Some xs" using assms(2) by (auto dest!: on_listD)
  show ?thesis unfolding ListValue list_step.simps list_spec.simps fst_conv snd_conv xs option.sel
    by (rule query_step(2) [OF assms(1) xs])
next
  case (ListReserve v n)
  then show ?thesis using assms(3) by (simp add: is_reserve_def)
qed (use assms(2) in \<open>auto dest!: on_listD intro!: silent_gives result_gives list_changes [OF assms(1)] list_results [OF assms(1)]
    query_step [OF assms(1)] simp del: if_split\<close>)

lemma list_step_ok:
  assumes "lists_ok w" "list_pre op (view w)" "list_spec op (view w) = (out, V)"
  shows "\<exists>t. list_step junk op w = Some (out, t) \<and> lists_ok t \<and> view t = V \<and>
    (\<not> is_reserve op \<longrightarrow> (\<forall>l. accounted l w \<longrightarrow> accounted l t))"
proof (cases "is_reserve op")
  case True
  then obtain v n where op: "op = ListReserve v n" by (auto simp: is_reserve_def split: list_op.splits)
  then obtain xs where xs: "view w v = Some xs" using assms(2) by (auto dest!: on_listD)
  then obtain a c where "block_of v w = Some (a, c)" using view_var [OF _ assms(1)] by blast
  from QList_reserve_ok [OF assms(1) xs this, of junk n] show ?thesis using op assms(3) by (auto simp: silent_def is_reserve_def)
next
  case False
  from list_step_gives [OF assms(1,2) this, of junk] show ?thesis using assms(3) by (auto simp: gives_def becomes_def)
qed

section \<open>Sequences of operations\<close>


text \<open>The states in which every element that is not destroyed is in a block.\<close>

definition nothing_lost :: "'a lists \<Rightarrow> bool" where
  "nothing_lost w \<longleftrightarrow> lists_ok w \<and> accounted {#} w"

definition unreserved_pre :: "'a list_op \<Rightarrow> 'a list_values \<Rightarrow> bool" where
  "unreserved_pre op V \<longleftrightarrow> list_pre op V \<and> \<not> is_reserve op"

interpretation without_reserve: refinement "list_step junk" list_spec unreserved_pre nothing_lost view for junk
proof
  fix w :: "'a lists" and op out V
  assume "nothing_lost w" "unreserved_pre op (view w)" and s: "list_spec op (view w) = (out, V)"
  then have w: "lists_ok w" "accounted {#} w" "list_pre op (view w)" "\<not> is_reserve op"
    by (simp_all add: nothing_lost_def unreserved_pre_def)
  from list_step_ok [OF w(1,3) s, of junk] w(2,4)
  show "\<exists>t. list_step junk op w = Some (out, t) \<and> nothing_lost t \<and> view t = V" by (auto simp: nothing_lost_def)
qed

definition list_program :: "int list_op list" where
  "list_program = [ListNew 1, ListAppend 1 3, ListAppend 1 5, ListCopy 2 1, ListPrepend 2 4, ListInsert 2 1 9, ListAppendList 2 2,
     ListRemoveAll 2 4, ListMove 2 0 3, ListAt 2 3, ListTakeFirst 2, ListEqual 1 2, ListMid 3 2 1 2, ListIndexOf 3 9 0,
     ListAssign 1 3, ListClear 3 7, ListSize 1, ListDestroy 2]"



lemma lists_ok_counts:
  assumes "lists_ok w"
  shows "case blocks w a of
      None \<Rightarrow> a \<noteq> 0 \<and> holders w a = {}
    | Some c \<Rightarrow> data_ok (data c) \<and> ref c = card (holders w a) + (if a = 0 then 1 else 0) \<and> (a \<noteq> 0 \<longrightarrow> holders w a \<noteq> {})"
proof (cases "blocks w a")
  case None
  have "good {#0#} w a" using assms by (simp add: counted_def)
  then show ?thesis using None holders_finite [OF assms, of a] by (simp add: good_def references_def)
next
  case (Some c)
  from counted_block [OF assms Some] Some show ?thesis by (auto simp: references_def split: if_splits)
qed



lemma nothing_lost_at_end:
  assumes "nothing_lost w" "\<forall>v. vars w v = None"
  shows "live w = {#}"
proof -
  have w: "lists_ok w" "live w = all_elements w" using assms(1) by (auto simp: nothing_lost_def accounted_def)
  have "elements w a = []" for a
    using lists_ok_counts [OF w(1), of a] shared_null [OF w(1)] assms(2)
    by (cases "a = 0") (auto simp: elements_def holders_def split: option.splits)
  then show ?thesis using w(2) by (simp add: all_elements_def)
qed

text \<open>
  C14: No operation but \<open>reserve\<close> loses an element or destroys one twice: the elements constructed and not yet destroyed are
  at any time those in the arrays, so that none is left when the last list is destroyed.
\<close>
theorem QList_no_leak:
  assumes "admissible unreserved_pre list_spec ops (\<lambda>v. None)"
  shows "\<exists>outs w. run_steps (list_step junk) ops no_lists = Some (outs, w) \<and> live w = all_elements w \<and>
    ((\<forall>v. view w v = None) \<longrightarrow> live w = {#})"
proof -
  obtain outs V where "run_spec list_spec ops (\<lambda>v. None) = (outs, V)" by fastforce
  moreover have "nothing_lost no_lists" by (simp add: nothing_lost_def no_lists_ok)
  ultimately obtain w where "run_steps (list_step junk) ops no_lists = Some (outs, w)" "nothing_lost w"
    using without_reserve.run_refines [of no_lists ops outs V junk] assms by (auto simp: no_lists_ok(3))
  then show ?thesis using nothing_lost_at_end [of w] by (auto simp: nothing_lost_def accounted_def view_None)
qed

theorem QList_no_leak_witness:
  "\<exists>outs w. run_steps (list_step 0) (list_program @ [ListDestroy 1, ListDestroy 3]) no_lists = Some (outs, w) \<and>
    live w = all_elements w \<and> ((\<forall>v. view w v = None) \<longrightarrow> live w = {#})"
  by (rule QList_no_leak) code_simp

text \<open>
  \<open>reserve\<close> is the exception: on a list that is not shared and has too small an array, it copies the elements into a new
  array and frees the old one without destroying what is in it.  The list keeps its value, but the old elements are lost:
  they are not in any block any more and still not destroyed.
\<close>
theorem QList_reserve_leaks:
  assumes "lists_ok w" "live w = all_elements w" "block_of v w = Some (a, c)" "ref c = 1" "int (alloc (data c)) < n"
  shows "\<exists>t. QList_reserve junk n v w = Some t \<and> view t = view w \<and> live t = all_elements t + mset (nodes (data c))"
proof -
  have "vars w v = Some a" "blocks w a = Some c" using assms(3) by (auto simp: block_of_def split: Option.bind_splits)
  then have "view w v = Some (nodes (data c))" by (simp add: view_def elements_def)
  from QList_reserve_ok [OF assms(1) this assms(3), of junk n] show ?thesis
    using assms(2,4,5) by (auto simp: accounted_def dest: spec [where x = "{#}"])
qed

definition one_list :: "int lists" where
  "one_list = \<lparr>blocks = [0 \<mapsto> \<lparr>ref = 1, data = empty_data\<rparr>, 1 \<mapsto> \<lparr>ref = 1, data = \<lparr>alloc = 1, first = 0, last_end = 1, array = [3]\<rparr>\<rparr>],
     vars = [5 \<mapsto> 1], next_block = 2, live = {#3#}\<rparr>"

theorem QList_reserve_leaks_witness:
  "\<exists>t. QList_reserve 0 10 5 one_list = Some t \<and> view t = view one_list \<and> live t = all_elements t + {#3#}"
proof -
  have "lists_ok one_list"
    by (auto simp: counted_def good_def references_def holders_def one_list_def data_ok_def empty_data_def)
  moreover have "live one_list = all_elements one_list"
    by (simp add: all_elements_def elements_def one_list_def nodes_def empty_data_def numeral_2_eq_2)
  moreover have "block_of 5 one_list = Some (1, \<lparr>ref = 1, data = \<lparr>alloc = 1, first = 0, last_end = 1, array = [3]\<rparr>\<rparr>)"
    by (simp add: block_of_def one_list_def)
  ultimately show ?thesis using QList_reserve_leaks [of one_list 5 1 _ 10 0] by (fastforce simp: nodes_def)
qed

end
