(* ===== verification/HashData.thy ===== *)
theory HashData
  imports Refinement "HOL-Library.Word" "HOL-Library.Monad_Syntax"
begin

text \<open>
  \<open>QHashData\<close> and \<open>QHash\<close> (src/src/core/tools/qhash.h and qhash.cpp): a hash table whose buckets are chains of nodes.  A
  chain is a list; a node, or the place where one is put, is a bucket and a position in its chain.  The end of every chain
  is the table itself (\<open>e\<close>), which is the place \<open>None\<close> as a node.  The tables have no reference counts here: an operation works
  on the table of its object, which \<open>detach()\<close> copied when it was shared.

  The hash function of the key type is the parameter \<open>qHash\<close>, and \<open>==\<close> on keys and values is equality.  \<open>None\<close> as a result is
  an access outside of an array or a shift that overflows.
\<close>

unbundle bit_operations_syntax

section \<open>Hash functions\<close>

text \<open>One step of the loop of \<open>hash\<close>.\<close>

definition hash_step :: "32 word \<Rightarrow> 32 word \<Rightarrow> 32 word" where
  "hash_step h c =
    (let h = push_bit 4 h + c; h = h XOR drop_bit 23 (h AND 0xf0000000) in h AND 0x0fffffff)"

fun hash_chars :: "32 word \<Rightarrow> 32 word list \<Rightarrow> 32 word" where
  "hash_chars h [] = h"
| "hash_chars h (c # cs) = hash_chars (hash_step h c) cs"

definition qHash_bytes :: "8 word list \<Rightarrow> 32 word" where
  "qHash_bytes key = hash_chars 0 (map ucast key)"

definition qHash_string :: "16 word list \<Rightarrow> 32 word" where
  "qHash_string key = hash_chars 0 (map ucast key)"

definition qHash_int :: "32 word \<Rightarrow> 32 word" where
  "qHash_int key = key"

definition qHash_ulong :: "64 word \<Rightarrow> 32 word" where
  "qHash_ulong key = ucast (drop_bit 31 key XOR key)"

definition qHash_pair :: "('a \<Rightarrow> 32 word) \<Rightarrow> ('b \<Rightarrow> 32 word) \<Rightarrow> 'a \<times> 'b \<Rightarrow> 32 word" where
  "qHash_pair f g key = (push_bit 16 (f (fst key)) OR drop_bit 16 (f (fst key))) XOR g (snd key)"

section \<open>The table\<close>

record ('k, 'v) hash_node =
  node_h :: "32 word"
  node_key :: 'k
  node_value :: 'v

record ('k, 'v) QHashData =
  buckets :: "('k, 'v) hash_node list list"
  hash_size :: nat
  userNumBits :: nat
  numBits :: nat

abbreviation numBuckets :: "('k, 'v) QHashData \<Rightarrow> nat" where
  "numBuckets d \<equiv> length (buckets d)"

definition MinNumBits :: nat where
  "MinNumBits = 4"

definition hash_shared_null :: "('k, 'v) QHashData" where
  "hash_shared_null = \<lparr>buckets = [], hash_size = 0, userNumBits = MinNumBits, numBits = 0\<rparr>"

definition prime_deltas :: "nat list" where
  "prime_deltas = [0, 0, 1, 3, 1, 5, 3, 3, 1, 9, 7, 5, 3, 9, 25, 3, 1, 21, 3, 21, 7, 15, 9, 5, 3, 29, 15, 0, 0, 0, 0, 0]"

definition primeForNumBits :: "nat \<Rightarrow> nat option" where
  "primeForNumBits n = (if n < 31 then Some (2 ^ n + prime_deltas ! n) else None)"

fun count_bits_loop :: "nat \<Rightarrow> nat \<Rightarrow> nat" where
  "count_bits_loop n bits = (if bits > 1 then count_bits_loop (Suc n) (bits div 2) else n)"

declare count_bits_loop.simps [simp del]

definition countBits :: "nat \<Rightarrow> nat option" where
  "countBits hint =
    (let n = count_bits_loop 0 hint
     in if n \<ge> length prime_deltas then Some (length prime_deltas - 1)
        else do { p \<leftarrow> primeForNumBits n; Some (if p < hint then n + 1 else n) })"

section \<open>Rehashing\<close>

function enough_bits :: "nat \<Rightarrow> nat \<Rightarrow> nat option" where
  "enough_bits hint s = (case primeForNumBits hint of None \<Rightarrow> None
    | Some p \<Rightarrow> if p < s div 2 then enough_bits (hint + 1) s else Some hint)"
  by pat_completeness auto
termination
  by (relation "measure (\<lambda>(hint, s). 31 - hint)") (auto simp: primeForNumBits_def split: if_splits)

declare enough_bits.simps [simp del]

text \<open>
  The loop over one old chain: the nodes from the first up to the last of the same hash value in a row go to the end of
  their new chain.
\<close>

function move_runs :: "nat \<Rightarrow> ('k, 'v) hash_node list \<Rightarrow> ('k, 'v) hash_node list list \<Rightarrow> ('k, 'v) hash_node list list" where
  "move_runs nb [] bs = bs"
| "move_runs nb (n # ns) bs =
    (let i = unat (node_h n) mod nb;
         same = (\<lambda>m. node_h m = node_h n)
     in move_runs nb (dropWhile same ns) (bs[i := bs ! i @ n # takeWhile same ns]))"
  by pat_completeness auto
termination
  by (relation "measure (\<lambda>(nb, ns, bs). length ns)") (auto simp: le_imp_less_Suc length_dropWhile_le)

fun move_buckets :: "nat \<Rightarrow> ('k, 'v) hash_node list list \<Rightarrow> ('k, 'v) hash_node list list \<Rightarrow> ('k, 'v) hash_node list list" where
  "move_buckets nb [] bs = bs"
| "move_buckets nb (ns # old) bs = move_buckets nb old (move_runs nb ns bs)"

definition QHashData_rehash :: "int \<Rightarrow> ('k, 'v) QHashData \<Rightarrow> ('k, 'v) QHashData option" where
  "QHashData_rehash hint d = do {
    (hint, d) \<leftarrow>
      (if hint < 0 then do {
         n \<leftarrow> countBits (nat (- hint));
         let n = max n MinNumBits;
         let d = d\<lparr>userNumBits := n\<rparr>;
         n \<leftarrow> enough_bits n (hash_size d);
         Some (n, d) }
       else Some (max (nat hint) MinNumBits, d));
    if numBits d \<noteq> hint then do {
      nb \<leftarrow> primeForNumBits hint;
      Some (d\<lparr>numBits := hint, buckets := move_buckets nb (buckets d) (replicate nb [])\<rparr>) }
    else Some d }"

definition willGrow :: "('k, 'v) QHashData \<Rightarrow> (bool \<times> ('k, 'v) QHashData) option" where
  "willGrow d =
    (if hash_size d \<ge> numBuckets d then map_option (\<lambda>d. (True, d)) (QHashData_rehash (int (numBits d) + 1) d)
     else Some (False, d))"

definition hasShrunk :: "('k, 'v) QHashData \<Rightarrow> ('k, 'v) QHashData option" where
  "hasShrunk d =
    (if hash_size d \<le> numBuckets d div 8 \<and> numBits d > userNumBits d
     then QHashData_rehash (max (int (numBits d) - 2) (int (userNumBits d))) d else Some d)"

section \<open>Nodes\<close>

definition node_at :: "(nat \<times> nat) option \<Rightarrow> ('k, 'v) QHashData \<Rightarrow> ('k, 'v) hash_node option" where
  "node_at p d =
    (case p of None \<Rightarrow> None
     | Some (i, j) \<Rightarrow> if i < numBuckets d \<and> j < length (buckets d ! i) then Some (buckets d ! i ! j) else None)"

definition same_key :: "32 word \<Rightarrow> 'k \<Rightarrow> ('k, 'v) hash_node \<Rightarrow> bool" where
  "same_key h key n \<longleftrightarrow> h = node_h n \<and> key = node_key n"

fun find_in_chain :: "32 word \<Rightarrow> 'k \<Rightarrow> ('k, 'v) hash_node list \<Rightarrow> nat" where
  "find_in_chain h key [] = 0"
| "find_in_chain h key (n # ns) = (if same_key h key n then 0 else Suc (find_in_chain h key ns))"

definition QHash_findNode :: "('k \<Rightarrow> 32 word) \<Rightarrow> 'k \<Rightarrow> ('k, 'v) QHashData \<Rightarrow> 32 word \<times> (nat \<times> nat) option" where
  "QHash_findNode qHash key d =
    (let h = qHash key
     in (h, if numBuckets d \<noteq> 0
            then (let i = unat h mod numBuckets d in Some (i, find_in_chain h key (buckets d ! i)))
            else None))"

definition createNode :: "32 word \<Rightarrow> 'k \<Rightarrow> 'v \<Rightarrow> (nat \<times> nat) option \<Rightarrow> ('k, 'v) QHashData \<Rightarrow> ('k, 'v) QHashData option" where
  "createNode h key v p d =
    (case p of None \<Rightarrow> None
     | Some (i, j) \<Rightarrow>
         Some (d\<lparr>buckets := (buckets d)[i := take j (buckets d ! i) @ \<lparr>node_h = h, node_key = key, node_value = v\<rparr> #
                  drop j (buckets d ! i)], hash_size := hash_size d + 1\<rparr>))"

definition set_node_value :: "(nat \<times> nat) option \<Rightarrow> 'v \<Rightarrow> ('k, 'v) QHashData \<Rightarrow> ('k, 'v) QHashData" where
  "set_node_value p v d =
    (case p of None \<Rightarrow> d
     | Some (i, j) \<Rightarrow> d\<lparr>buckets := (buckets d)[i := (buckets d ! i)[j := (buckets d ! i ! j)\<lparr>node_value := v\<rparr>]]\<rparr>)"

text \<open>The chain from a node on.\<close>

definition chain_from :: "(nat \<times> nat) option \<Rightarrow> ('k, 'v) QHashData \<Rightarrow> ('k, 'v) hash_node list" where
  "chain_from p d = (case p of None \<Rightarrow> [] | Some (i, j) \<Rightarrow> drop j (buckets d ! i))"

definition set_chain_from :: "(nat \<times> nat) option \<Rightarrow> ('k, 'v) hash_node list \<Rightarrow> ('k, 'v) QHashData \<Rightarrow> ('k, 'v) QHashData" where
  "set_chain_from p ns d =
    (case p of None \<Rightarrow> d | Some (i, j) \<Rightarrow> d\<lparr>buckets := (buckets d)[i := take j (buckets d ! i) @ ns]\<rparr>)"

section \<open>Lookup\<close>

definition QHash_contains :: "('k \<Rightarrow> 32 word) \<Rightarrow> 'k \<Rightarrow> ('k, 'v) QHashData \<Rightarrow> bool" where
  "QHash_contains qHash key d \<longleftrightarrow> node_at (snd (QHash_findNode qHash key d)) d \<noteq> None"

definition QHash_value :: "('k \<Rightarrow> 32 word) \<Rightarrow> 'k \<Rightarrow> 'v \<Rightarrow> ('k, 'v) QHashData \<Rightarrow> 'v" where
  "QHash_value qHash key defaultValue d =
    (if hash_size d = 0 then defaultValue
     else (case node_at (snd (QHash_findNode qHash key d)) d of None \<Rightarrow> defaultValue | Some n \<Rightarrow> node_value n))"

text \<open>The loops of \<open>count\<close> and \<open>values\<close> behind the first node of the key.\<close>

fun count_chain :: "'k \<Rightarrow> nat \<Rightarrow> ('k, 'v) hash_node list \<Rightarrow> nat" where
  "count_chain key cnt [] = cnt"
| "count_chain key cnt (n # ns) = (if node_key n = key then count_chain key (cnt + 1) ns else cnt)"

definition QHash_count :: "('k \<Rightarrow> 32 word) \<Rightarrow> 'k \<Rightarrow> ('k, 'v) QHashData \<Rightarrow> nat" where
  "QHash_count qHash key d =
    (case chain_from (snd (QHash_findNode qHash key d)) d of [] \<Rightarrow> 0 | n # ns \<Rightarrow> count_chain key 1 ns)"

fun values_chain :: "'k \<Rightarrow> 'v list \<Rightarrow> ('k, 'v) hash_node list \<Rightarrow> 'v list" where
  "values_chain key res [] = res"
| "values_chain key res (n # ns) = (if node_key n = key then values_chain key (res @ [node_value n]) ns else res)"

definition QHash_values :: "('k \<Rightarrow> 32 word) \<Rightarrow> 'k \<Rightarrow> ('k, 'v) QHashData \<Rightarrow> 'v list" where
  "QHash_values qHash key d =
    (case chain_from (snd (QHash_findNode qHash key d)) d of [] \<Rightarrow> [] | n # ns \<Rightarrow> values_chain key [node_value n] ns)"

section \<open>Changes\<close>

definition QHash_insert :: "('k \<Rightarrow> 32 word) \<Rightarrow> 'k \<Rightarrow> 'v \<Rightarrow> ('k, 'v) QHashData \<Rightarrow> ('k, 'v) QHashData option" where
  "QHash_insert qHash key v d =
    (let (h, p) = QHash_findNode qHash key d
     in if node_at p d = None then do {
          (grown, d) \<leftarrow> willGrow d;
          createNode h key v (if grown then snd (QHash_findNode qHash key d) else p) d }
        else Some (set_node_value p v d))"

text \<open>\<open>operator[]\<close>; \<open>v\<close> is the value \<open>T()\<close>.\<close>

definition QHash_index :: "('k \<Rightarrow> 32 word) \<Rightarrow> 'v \<Rightarrow> 'k \<Rightarrow> ('k, 'v) QHashData \<Rightarrow> ('v \<times> ('k, 'v) QHashData) option" where
  "QHash_index qHash v key d =
    (let (h, p) = QHash_findNode qHash key d
     in (case node_at p d of
           None \<Rightarrow> do {
             (grown, d) \<leftarrow> willGrow d;
             d \<leftarrow> createNode h key v (if grown then snd (QHash_findNode qHash key d) else p) d;
             Some (v, d) }
         | Some n \<Rightarrow> Some (node_value n, d)))"

definition QHash_insertMulti :: "('k \<Rightarrow> 32 word) \<Rightarrow> 'k \<Rightarrow> 'v \<Rightarrow> ('k, 'v) QHashData \<Rightarrow> ('k, 'v) QHashData option" where
  "QHash_insertMulti qHash key v d = do {
    (grown, d) \<leftarrow> willGrow d;
    let (h, p) = QHash_findNode qHash key d;
    createNode h key v p d }"

text \<open>The loop of \<open>remove\<close>: the nodes deleted and the rest of the chain.\<close>

fun remove_chain :: "nat \<Rightarrow> ('k, 'v) hash_node list \<Rightarrow> nat \<times> ('k, 'v) hash_node list" where
  "remove_chain cnt [] = (cnt, [])"
| "remove_chain cnt (n # ns) =
    (if ns \<noteq> [] \<and> node_key (hd ns) = node_key n then remove_chain (cnt + 1) ns else (cnt + 1, ns))"

definition QHash_remove :: "('k \<Rightarrow> 32 word) \<Rightarrow> 'k \<Rightarrow> ('k, 'v) QHashData \<Rightarrow> (nat \<times> ('k, 'v) QHashData) option" where
  "QHash_remove qHash key d =
    (if hash_size d = 0 then Some (0, d)
     else
       (let oldSize = hash_size d;
            p = snd (QHash_findNode qHash key d)
        in if node_at p d \<noteq> None then do {
             let (cnt, ns) = remove_chain 0 (chain_from p d);
             d \<leftarrow> hasShrunk ((set_chain_from p ns d)\<lparr>hash_size := hash_size d - cnt\<rparr>);
             Some (oldSize - hash_size d, d) }
           else Some (oldSize - hash_size d, d)))"

definition QHash_take :: "('k \<Rightarrow> 32 word) \<Rightarrow> 'v \<Rightarrow> 'k \<Rightarrow> ('k, 'v) QHashData \<Rightarrow> ('v \<times> ('k, 'v) QHashData) option" where
  "QHash_take qHash v key d =
    (if hash_size d = 0 then Some (v, d)
     else
       (let p = snd (QHash_findNode qHash key d)
        in case chain_from p d of
             [] \<Rightarrow> Some (v, d)
           | n # ns \<Rightarrow> map_option (\<lambda>d. (node_value n, d)) (hasShrunk ((set_chain_from p ns d)\<lparr>hash_size := hash_size d - 1\<rparr>))))"

definition QHash_clear :: "('k, 'v) QHashData \<Rightarrow> ('k, 'v) QHashData" where
  "QHash_clear d = hash_shared_null"

definition QHash_reserve :: "int \<Rightarrow> ('k, 'v) QHashData \<Rightarrow> ('k, 'v) QHashData option" where
  "QHash_reserve asize d = QHashData_rehash (- max asize 1) d"

definition QHash_squeeze :: "('k, 'v) QHashData \<Rightarrow> ('k, 'v) QHashData option" where
  "QHash_squeeze d = QHash_reserve 1 d"

end
