(* ===== verification/HashSpec.thy ===== *)
theory HashSpec
  imports HashData "HOL-Library.Multiset"
begin

text \<open>
  The invariant of a hash table and what rehashing does to its nodes: each node is in the chain of its hash value, the
  nodes of a key stand together, and rehashing keeps the values of every key in their order.
\<close>

section \<open>The number of buckets\<close>

lemma prime_delta_small: "n < 31 \<Longrightarrow> prime_deltas ! n < 2 ^ n"
proof (cases "n < 5")
  case True
  then show ?thesis by (auto simp: prime_deltas_def numeral_eq_Suc less_Suc_eq)
next
  case False
  assume n: "n < 31"
  have "\<forall>x \<in> set prime_deltas. x < 32" by (simp add: prime_deltas_def)
  moreover have "n < length prime_deltas" using n by (simp add: prime_deltas_def)
  ultimately have "prime_deltas ! n < 32" using nth_mem by blast
  also have "(32 :: nat) = 2 ^ 5" by simp
  also have "\<dots> \<le> 2 ^ n" using False by (intro power_increasing) simp_all
  finally show ?thesis .
qed

lemma prime_bounds:
  assumes "primeForNumBits n = Some p"
  shows "n < 31" "2 ^ n \<le> p" "p < 2 ^ Suc n"
  using assms prime_delta_small [of n] by (auto simp: primeForNumBits_def split: if_splits)

lemma prime_mono:
  assumes "primeForNumBits m = Some p" "primeForNumBits n = Some q" "m < n"
  shows "p < q"
proof -
  have "p < 2 ^ Suc m" by (rule prime_bounds(3) [OF assms(1)])
  also have "\<dots> \<le> (2 :: nat) ^ n" using assms(3) by (intro power_increasing) simp_all
  also have "\<dots> \<le> q" by (rule prime_bounds(2) [OF assms(2)])
  finally show ?thesis .
qed

lemma prime_defined: "n < 31 \<Longrightarrow> \<exists>p. primeForNumBits n = Some p"
  by (simp add: primeForNumBits_def)

lemma count_bits_loop_ok:
  "0 < b \<Longrightarrow> c \<le> count_bits_loop c b \<and> 2 ^ (count_bits_loop c b - c) \<le> b \<and> b < 2 ^ Suc (count_bits_loop c b - c)"
proof (induction c b rule: count_bits_loop.induct)
  case (1 c b)
  show ?case
  proof (cases "1 < b")
    case False
    then show ?thesis using 1(2) by (simp add: count_bits_loop.simps [of c b])
  next
    case True
    define k where "k = count_bits_loop (Suc c) (b div 2)"
    have k: "Suc c \<le> k" "2 ^ (k - Suc c) \<le> b div 2" "b div 2 < 2 ^ Suc (k - Suc c)"
      using 1(1) [OF True] True unfolding k_def by auto
    have "k - c = Suc (k - Suc c)" using k(1) by simp
    moreover have "count_bits_loop c b = k" using True by (simp add: count_bits_loop.simps [of c b] k_def)
    moreover have "2 * 2 ^ (k - Suc c) \<le> b" "b < 2 * (2 * 2 ^ (k - Suc c))" using k(2,3) by simp_all
    ultimately show ?thesis using k(1) by simp
  qed
qed

lemma countBits_ok:
  assumes "0 < hint" "hint \<le> 2 ^ 30"
  shows "\<exists>n p. countBits hint = Some n \<and> primeForNumBits n = Some p \<and> hint \<le> p \<and>
    (\<forall>m < n. \<exists>p. primeForNumBits m = Some p \<and> p < hint)"
proof -
  define n where "n = count_bits_loop 0 hint"
  have n: "2 ^ n \<le> hint" "hint < 2 ^ Suc n" using count_bits_loop_ok [OF assms(1), of 0] by (simp_all add: n_def)
  have "(2 :: nat) ^ n \<le> 2 ^ 30" using n(1) assms(2) by (rule order_trans)
  then have n30: "n \<le> 30" by (rule power_le_imp_le_exp [rotated]) simp
  then obtain p where p: "primeForNumBits n = Some p" using prime_defined [of n] by auto
  have below: "\<exists>p. primeForNumBits m = Some p \<and> p < hint" if m: "m < n" for m
  proof -
    obtain q where q: "primeForNumBits m = Some q" using prime_defined [of m] m n30 by auto
    have "q < 2 ^ Suc m" by (rule prime_bounds(3) [OF q])
    also have "\<dots> \<le> (2 :: nat) ^ n" using m by (intro power_increasing) simp_all
    also note n(1)
    finally show ?thesis using q by blast
  qed
  have c: "countBits hint = Some (if p < hint then n + 1 else n)"
    using n30 p by (simp add: countBits_def prime_deltas_def flip: n_def)
  show ?thesis
  proof (cases "p < hint")
    case False
    then show ?thesis using c p below by auto
  next
    case True
    have "n \<noteq> 30" using True p assms(2) by (auto simp: primeForNumBits_def prime_deltas_def)
    then obtain q where q: "primeForNumBits (Suc n) = Some q" using prime_defined [of "Suc n"] n30 by auto
    have "hint \<le> q" using prime_bounds(2) [OF q] n(2) by linarith
    moreover have "\<exists>p. primeForNumBits m = Some p \<and> p < hint" if "m < Suc n" for m
      using that below p True by (cases "m = n") auto
    ultimately show ?thesis using c True q by auto
  qed
qed

lemma enough_bits_ok:
  assumes "n \<le> 30" "s < 2 ^ 31"
  shows "\<exists>m p. enough_bits n s = Some m \<and> n \<le> m \<and> primeForNumBits m = Some p \<and> s div 2 \<le> p"
  using assms
proof (induction "30 - n" arbitrary: n)
  case 0
  then have "n = 30" by simp
  moreover have "primeForNumBits 30 = Some (2 ^ 30)" by (simp add: primeForNumBits_def prime_deltas_def)
  moreover have "s div 2 < 2 ^ 30" using assms(2) by simp
  ultimately show ?case by (subst enough_bits.simps) simp
next
  case (Suc k)
  obtain p where p: "primeForNumBits n = Some p" using prime_defined [of n] Suc.prems by auto
  show ?case
  proof (cases "p < s div 2")
    case True
    have "k = 30 - (n + 1)" "n + 1 \<le> 30" using Suc.hyps(2) by simp_all
    from Suc.hyps(1) [OF this assms(2)] obtain m q where
      "enough_bits (n + 1) s = Some m" "n + 1 \<le> m" "primeForNumBits m = Some q" "s div 2 \<le> q" by blast
    then show ?thesis using p True by (subst enough_bits.simps) auto
  next
    case False
    then show ?thesis using p by (subst enough_bits.simps) auto
  qed
qed

section \<open>Keys that stand together\<close>

fun grouped :: "'k list \<Rightarrow> bool" where
  "grouped [] = True"
| "grouped (k # ks) = (k \<notin> set (dropWhile (\<lambda>x. x = k) ks) \<and> grouped ks)"

lemma grouped_append: "set xs \<inter> set ys = {} \<Longrightarrow> grouped (xs @ ys) \<longleftrightarrow> grouped xs \<and> grouped ys"
proof (induction xs)
  case (Cons x xs)
  have "x \<notin> set ys" "set xs \<inter> set ys = {}" using Cons.prems by auto
  moreover have "x \<notin> set (dropWhile (\<lambda>y. y = x) ys)" using \<open>x \<notin> set ys\<close> by (blast dest: set_dropWhileD)
  ultimately have "x \<in> set (dropWhile (\<lambda>y. y = x) (xs @ ys)) \<longleftrightarrow> x \<in> set (dropWhile (\<lambda>y. y = x) xs)"
  proof (cases "\<forall>y \<in> set xs. y = x")
    case True
    then have d: "dropWhile (\<lambda>y. y = x) xs = []" "dropWhile (\<lambda>y. y = x) (xs @ ys) = dropWhile (\<lambda>y. y = x) ys"
      by (simp_all add: dropWhile_append)
    show ?thesis unfolding d using \<open>x \<notin> set (dropWhile (\<lambda>y. y = x) ys)\<close> by simp
  next
    case False
    then show ?thesis using \<open>x \<notin> set ys\<close> by (auto simp: dropWhile_append)
  qed
  then show ?case using Cons.IH \<open>set xs \<inter> set ys = {}\<close> by simp
qed simp

lemma dropWhile_filter: "x \<in> set (dropWhile Q (filter P xs)) \<Longrightarrow> x \<in> set (dropWhile Q xs)"
  by (induction xs) (auto split: if_splits dest: set_dropWhileD)

lemma grouped_filter: "grouped ks \<Longrightarrow> grouped (filter P ks)"
  by (induction ks) (auto dest: dropWhile_filter)

lemma grouped_concat:
  "(\<And>xs. xs \<in> set xss \<Longrightarrow> grouped xs) \<Longrightarrow> (\<And>i j x. i < j \<Longrightarrow> j < length xss \<Longrightarrow> x \<in> set (xss ! i) \<Longrightarrow> x \<notin> set (xss ! j)) \<Longrightarrow>
   grouped (concat xss)"
proof (induction xss)
  case (Cons xs xss)
  have "x \<notin> set (concat xss)" if "x \<in> set xs" for x
  proof
    assume "x \<in> set (concat xss)"
    then obtain ys where "ys \<in> set xss" "x \<in> set ys" by auto
    then obtain j where "j < length xss" "x \<in> set (xss ! j)" by (metis in_set_conv_nth)
    then show False using Cons.prems(2) [of 0 "Suc j" x] that by simp
  qed
  then have "set xs \<inter> set (concat xss) = {}" by blast
  moreover have "grouped (concat xss)"
    by (rule Cons.IH) (use Cons.prems(1) Cons.prems(2) [of "Suc _" "Suc _"] in auto)
  ultimately show ?case using Cons.prems(1) by (simp add: grouped_append)
qed simp

section \<open>The nodes\<close>

definition all_nodes :: "('k, 'v) QHashData \<Rightarrow> ('k, 'v) hash_node list" where
  "all_nodes d = concat (buckets d)"

definition nodes_of :: "'k \<Rightarrow> ('k, 'v) hash_node list \<Rightarrow> ('k, 'v) hash_node list" where
  "nodes_of k ns = filter (\<lambda>n. node_key n = k) ns"

definition placed :: "('k \<Rightarrow> 32 word) \<Rightarrow> ('k, 'v) hash_node list list \<Rightarrow> bool" where
  "placed q bs \<longleftrightarrow> (\<forall>i < length bs. \<forall>n \<in> set (bs ! i). node_h n = q (node_key n) \<and> unat (q (node_key n)) mod length bs = i)"

definition chains_ok :: "('k \<Rightarrow> 32 word) \<Rightarrow> ('k, 'v) hash_node list list \<Rightarrow> bool" where
  "chains_ok q bs \<longleftrightarrow> placed q bs \<and> (\<forall>b \<in> set bs. grouped (map node_key b))"

lemma chains_grouped:
  assumes "chains_ok q bs"
  shows "grouped (map node_key (concat bs))"
proof -
  have "map node_key (concat bs) = concat (map (map node_key) bs)" by (simp add: map_concat)
  moreover have "grouped (concat (map (map node_key) bs))"
  proof (rule grouped_concat)
    fix i j x
    assume ij: "i < j" "j < length (map (map node_key) bs)" and x: "x \<in> set (map (map node_key) bs ! i)"
    show "x \<notin> set (map (map node_key) bs ! j)"
    proof
      assume "x \<in> set (map (map node_key) bs ! j)"
      then have "unat (q x) mod length bs = j" "unat (q x) mod length bs = i"
        using ij x assms by (auto simp: chains_ok_def placed_def)
      then show False using ij(1) by simp
    qed
  qed (use assms in \<open>auto simp: chains_ok_def\<close>)
  ultimately show ?thesis by simp
qed

text \<open>The nodes of a key are in the chain of its hash value.\<close>

lemma nodes_of_bucket:
  assumes "placed q bs" "bs \<noteq> []"
  shows "nodes_of k (concat bs) = nodes_of k (bs ! (unat (q k) mod length bs))"
proof -
  define i where "i = unat (q k) mod length bs"
  have i: "i < length bs" using assms(2) by (simp add: i_def)
  have none: "nodes_of k (bs ! j) = []" if "j < length bs" "j \<noteq> i" for j
    using assms(1) that by (auto simp: nodes_of_def filter_empty_conv placed_def i_def)
  have "nodes_of k (concat (take i bs)) = []" "nodes_of k (concat (drop (Suc i) bs)) = []"
  proof -
    have "nodes_of k b = []" if "b \<in> set (take i bs)" for b
      using that none i by (auto simp: in_set_conv_nth)
    then show "nodes_of k (concat (take i bs)) = []" by (fastforce simp: nodes_of_def filter_empty_conv)
    have "nodes_of k b = []" if "b \<in> set (drop (Suc i) bs)" for b
      using that none i by (auto simp: in_set_conv_nth)
    then show "nodes_of k (concat (drop (Suc i) bs)) = []" by (fastforce simp: nodes_of_def filter_empty_conv)
  qed
  moreover have "concat bs = concat (take i bs) @ bs ! i @ concat (drop (Suc i) bs)"
    using arg_cong [OF id_take_nth_drop [OF i], of concat] by simp
  ultimately show ?thesis by (simp add: nodes_of_def i_def)
qed

section \<open>Rehashing\<close>

definition in_bucket :: "nat \<Rightarrow> nat \<Rightarrow> ('k, 'v) hash_node list \<Rightarrow> ('k, 'v) hash_node list" where
  "in_bucket nb i ns = filter (\<lambda>n. unat (node_h n) mod nb = i) ns"

lemma move_runs_ok:
  fixes ns :: "('a, 'b) hash_node list"
  shows "length bs = nb \<Longrightarrow> 0 < nb \<Longrightarrow> length (move_runs nb ns bs) = nb \<and> (\<forall>i < nb. move_runs nb ns bs ! i = bs ! i @ in_bucket nb i ns)"
proof (induction nb ns bs rule: move_runs.induct)
  case (2 nb n ns bs)
  define same where "same = (\<lambda>m :: ('a, 'b) hash_node. node_h m = node_h n)"
  define k where "k = unat (node_h n) mod nb"
  have k: "k < nb" using 2(3) by (simp add: k_def)
  define bs1 where "bs1 = bs[k := bs ! k @ n # takeWhile same ns]"
  have run: "in_bucket nb i (n # takeWhile same ns) = (if i = k then n # takeWhile same ns else [])" for i
  proof -
    have "\<forall>m \<in> set (n # takeWhile same ns). unat (node_h m) mod nb = k"
    proof
      fix m
      assume "m \<in> set (n # takeWhile same ns)"
      then have "node_h m = node_h n" by (cases "m = n") (simp, simp add: same_def, blast dest: set_takeWhileD)
      then show "unat (node_h m) mod nb = k" by (simp add: k_def)
    qed
    then have all: "unat (node_h m) mod nb = i \<longleftrightarrow> i = k" if "m \<in> set (n # takeWhile same ns)" for m
      using that by metis
    have "in_bucket nb i (n # takeWhile same ns) = filter (\<lambda>m. i = k) (n # takeWhile same ns)"
      unfolding in_bucket_def by (rule filter_cong [OF refl all])
    then show ?thesis by simp
  qed
  have step: "bs1 ! i @ in_bucket nb i (dropWhile same ns) = bs ! i @ in_bucket nb i (n # ns)" if i: "i < nb" for i
  proof -
    have "n # ns = (n # takeWhile same ns) @ dropWhile same ns" by simp
    then have "in_bucket nb i (n # ns) = in_bucket nb i (n # takeWhile same ns) @ in_bucket nb i (dropWhile same ns)"
      unfolding in_bucket_def by (metis filter_append)
    moreover have "bs1 ! i = bs ! i @ in_bucket nb i (n # takeWhile same ns)"
      using run [of i] i 2(2) by (simp add: bs1_def nth_list_update)
    ultimately show ?thesis by (simp only: append_assoc)
  qed
  have m: "move_runs nb (n # ns) bs = move_runs nb (dropWhile same ns) bs1"
    by (simp add: same_def k_def bs1_def Let_def)
  have "length (move_runs nb (dropWhile same ns) bs1) = nb \<and>
    (\<forall>i < nb. move_runs nb (dropWhile same ns) bs1 ! i = bs1 ! i @ in_bucket nb i (dropWhile same ns))"
    unfolding same_def k_def bs1_def by (rule 2(1)) (use 2(2,3) in simp_all)
  then show ?case unfolding m using step by (metis (no_types, lifting))
qed (simp add: in_bucket_def)

lemma move_buckets_ok:
  "length bs = nb \<Longrightarrow> 0 < nb \<Longrightarrow>
   length (move_buckets nb old bs) = nb \<and> (\<forall>i < nb. move_buckets nb old bs ! i = bs ! i @ in_bucket nb i (concat old))"
proof (induction old arbitrary: bs)
  case (Cons ns old)
  note r = move_runs_ok [OF Cons.prems, of ns]
  from Cons.IH [of "move_runs nb ns bs"] r Cons.prems show ?case by (simp add: in_bucket_def)
qed (simp add: in_bucket_def)

lemma rehashed:
  assumes "chains_ok q bs" "0 < nb"
  defines "bs' \<equiv> move_buckets nb bs (replicate nb [])"
  shows "chains_ok q bs'" "length bs' = nb" "nodes_of k (concat bs') = nodes_of k (concat bs)"
    "length (concat bs') = length (concat bs)"
proof -
  have b: "length bs' = nb" "\<And>i. i < nb \<Longrightarrow> bs' ! i = in_bucket nb i (concat bs)"
    using move_buckets_ok [of "replicate nb []" nb bs] assms(2) by (simp_all add: bs'_def)
  have h: "node_h n = q (node_key n)" if n: "n \<in> set (concat bs)" for n
  proof -
    from n obtain b where "b \<in> set bs" "n \<in> set b" by auto
    then obtain i where "i < length bs" "n \<in> set (bs ! i)" by (metis in_set_conv_nth)
    then show ?thesis using assms(1) by (simp add: chains_ok_def placed_def)
  qed
  have p: "placed q bs'" unfolding placed_def b(1)
  proof (intro allI impI ballI)
    fix i n
    assume "i < nb" "n \<in> set (bs' ! i)"
    then have "n \<in> set (concat bs)" "unat (node_h n) mod nb = i" using b(2) by (auto simp: in_bucket_def)
    then show "node_h n = q (node_key n) \<and> unat (q (node_key n)) mod nb = i" using h by metis
  qed
  have "grouped (map node_key (bs' ! i))" if i: "i < nb" for i
  proof -
    have "map node_key (bs' ! i) = filter (\<lambda>k. unat (q k) mod nb = i) (map node_key (concat bs))"
    proof -
      have "in_bucket nb i (concat bs) = filter (\<lambda>n. unat (q (node_key n)) mod nb = i) (concat bs)"
        unfolding in_bucket_def by (rule filter_cong [OF refl]) (simp only: h)
      then show ?thesis by (simp add: b(2) [OF i] filter_map o_def)
    qed
    then show ?thesis using grouped_filter [OF chains_grouped [OF assms(1)]] by simp
  qed
  then show "chains_ok q bs'" using p b(1) by (auto simp: chains_ok_def in_set_conv_nth)
  show "length bs' = nb" by (rule b(1))
  have vals: "nodes_of k (concat bs') = nodes_of k (concat bs)" for k
  proof -
    have "nodes_of k (concat bs') = nodes_of k (bs' ! (unat (q k) mod nb))"
      using nodes_of_bucket [OF p] b(1) assms(2) by auto
    also have "\<dots> = nodes_of k (concat bs)"
      using b(2) [of "unat (q k) mod nb"] h assms(2) by (auto simp: nodes_of_def in_bucket_def intro!: filter_cong)
    finally show ?thesis .
  qed
  then show "nodes_of k (concat bs') = nodes_of k (concat bs)" .
  have "mset (concat bs') = mset (concat bs)"
  proof (rule multiset_eqI)
    fix n
    show "count (mset (concat bs')) n = count (mset (concat bs)) n"
      using arg_cong [OF vals [of "node_key n"], of "\<lambda>ns. count (mset ns) n"] by (simp add: nodes_of_def)
  qed
  then show "length (concat bs') = length (concat bs)" by (metis size_mset)
qed

end
