(* ===== verification/HashOps.thy ===== *)
theory HashOps
  imports HashSpec
begin

text \<open>
  Every operation of the hash table keeps the invariant and does to the values of its key what the operation on a map from
  keys to lists of values does.
\<close>

section \<open>The invariant\<close>

definition hash_ok :: "('k \<Rightarrow> 32 word) \<Rightarrow> ('k, 'v) QHashData \<Rightarrow> bool" where
  "hash_ok q d \<longleftrightarrow> chains_ok q (buckets d) \<and> hash_size d = length (all_nodes d) \<and> MinNumBits \<le> userNumBits d \<and>
    (if buckets d = [] then numBits d = 0
     else MinNumBits \<le> numBits d \<and> primeForNumBits (numBits d) = Some (numBuckets d)) \<and>
    hash_size d \<le> 2 * numBuckets d + 1"

text \<open>The values of a key, the last one inserted first.\<close>

definition hash_values :: "('k, 'v) QHashData \<Rightarrow> 'k \<Rightarrow> 'v list" where
  "hash_values d k = map node_value (nodes_of k (all_nodes d))"

lemma shared_null_ok: "hash_ok q hash_shared_null" "hash_values hash_shared_null = (\<lambda>k. [])" "hash_size hash_shared_null = 0"
  by (auto simp: hash_ok_def hash_shared_null_def chains_ok_def placed_def all_nodes_def hash_values_def nodes_of_def)

lemma hash_okD:
  assumes "hash_ok q d"
  shows "chains_ok q (buckets d)" "hash_size d = length (all_nodes d)" "MinNumBits \<le> userNumBits d"
    "hash_size d \<le> 2 * numBuckets d + 1" "buckets d = [] \<Longrightarrow> numBits d = 0"
    "buckets d \<noteq> [] \<Longrightarrow> MinNumBits \<le> numBits d \<and> primeForNumBits (numBits d) = Some (numBuckets d)"
  using assms by (auto simp: hash_ok_def)

lemma prime_pos: "primeForNumBits n = Some p \<Longrightarrow> 0 < p"
  using prime_bounds(2) [of n p] by (metis less_le_trans zero_less_power zero_less_numeral)

text \<open>\<open>t\<close> is the table \<open>d\<close> with the same values.\<close>

definition same_values :: "('k \<Rightarrow> 32 word) \<Rightarrow> ('k, 'v) QHashData \<Rightarrow> ('k, 'v) QHashData \<Rightarrow> bool" where
  "same_values q d t \<longleftrightarrow> hash_ok q t \<and> hash_values t = hash_values d \<and> hash_size t = hash_size d"

section \<open>Growing and shrinking\<close>

lemma rehash_core:
  assumes "hash_ok q d" "primeForNumBits n = Some p" "MinNumBits \<le> n" "hash_size d \<le> 2 * p + 1" "MinNumBits \<le> u"
  defines "e \<equiv> d\<lparr>userNumBits := u\<rparr>"
  defines "t \<equiv> if numBits e \<noteq> n then e\<lparr>numBits := n, buckets := move_buckets p (buckets e) (replicate p [])\<rparr> else e"
  shows "same_values q d t" "numBits t = n" "userNumBits t = u" "numBuckets t = p"
proof -
  note ok = hash_okD [OF assms(1)]
  have "same_values q d t \<and> numBits t = n \<and> userNumBits t = u \<and> numBuckets t = p"
  proof (cases "numBits d = n")
    case True
    then have "buckets d \<noteq> []" using ok(5) assms(3) by (auto simp: MinNumBits_def)
    with ok(6) True assms(2) have "numBuckets d = p" by simp
    moreover have t: "t = e" using True by (simp add: t_def e_def)
    ultimately show ?thesis using True assms(1-3,5) unfolding t
      by (auto simp: same_values_def hash_ok_def e_def all_nodes_def hash_values_def [abs_def])
  next
    case False
    then have t: "t = e\<lparr>numBits := n, buckets := move_buckets p (buckets e) (replicate p [])\<rparr>" by (simp add: t_def e_def)
    have p: "0 < p" by (rule prime_pos [OF assms(2)])
    note r = rehashed [OF ok(1) p]
    have b: "buckets t = move_buckets p (buckets d) (replicate p [])" by (simp add: t e_def)
    have "buckets t \<noteq> []" using r(2) p b by auto
    moreover have "hash_size t = hash_size d" "numBits t = n" "userNumBits t = u" by (simp_all add: t e_def)
    ultimately show ?thesis using r assms(2-5) ok(2) b
      by (simp add: same_values_def hash_ok_def all_nodes_def hash_values_def [abs_def])
  qed
  then show "same_values q d t" "numBits t = n" "userNumBits t = u" "numBuckets t = p" by simp_all
qed

lemma rehash_to:
  assumes "hash_ok q d" "primeForNumBits (max n MinNumBits) = Some p" "hash_size d \<le> 2 * p + 1"
  shows "\<exists>t. QHashData_rehash (int n) d = Some t \<and> same_values q d t \<and> numBits t = max n MinNumBits \<and>
    userNumBits t = userNumBits d \<and> numBuckets t = p"
proof -
  have "d\<lparr>userNumBits := userNumBits d\<rparr> = d" by simp
  moreover have "MinNumBits \<le> userNumBits d" by (rule hash_okD(3) [OF assms(1)])
  ultimately show ?thesis using rehash_core [OF assms(1,2) _ assms(3), of "userNumBits d"] assms(2)
    by (simp add: QHashData_rehash_def split: if_splits)
qed

text \<open>\<open>reserve\<close>: at least so many buckets, and \<open>userNumBits\<close> keeps the table from shrinking below that.\<close>

lemma reserve_ok:
  assumes "hash_ok q d" "max asize 1 \<le> 2 ^ 30" "hash_size d < 2 ^ 31"
  shows "\<exists>t p. QHash_reserve asize d = Some t \<and> same_values q d t \<and> primeForNumBits (userNumBits t) = Some p \<and>
    asize \<le> int p \<and> p \<le> numBuckets t"
proof -
  define a where "a = nat (max asize 1)"
  have a: "0 < a" "a \<le> 2 ^ 30" using assms(2) by (simp_all add: a_def nat_le_iff)
  obtain n p where n: "countBits a = Some n" "primeForNumBits n = Some p" "a \<le> p" using countBits_ok [OF a] by blast
  define u where "u = max n MinNumBits"
  have u: "u \<le> 30" "MinNumBits \<le> u" using prime_bounds(1) [OF n(2)] by (simp_all add: u_def MinNumBits_def)
  obtain pu where pu: "primeForNumBits u = Some pu" using prime_defined [of u] u by auto
  have apu: "a \<le> pu"
  proof (cases "n = u")
    case True
    then show ?thesis using n pu by simp
  next
    case False
    then have "n < u" by (simp add: u_def)
    then show ?thesis using prime_mono [OF n(2) pu] n(3) by simp
  qed
  obtain m r where m: "enough_bits u (hash_size d) = Some m" "u \<le> m" "primeForNumBits m = Some r" "hash_size d div 2 \<le> r"
    using enough_bits_ok [OF u(1) assms(3)] by blast
  have "hash_size d \<le> 2 * r + 1" using m(4) by linarith
  moreover have "MinNumBits \<le> m" using m(2) u(2) by simp
  ultimately have core: "hash_size d \<le> 2 * r + 1" "MinNumBits \<le> m" by blast+
  note t = rehash_core [OF assms(1) m(3) core(2,1) u(2)]
  have "pu \<le> r" using prime_mono [OF pu m(3)] m(2,3) pu by (cases "u = m") auto
  moreover have "asize \<le> int a" unfolding a_def by linarith
  moreover have "- max asize 1 < 0" "nat (- (- max asize 1)) = a" by (simp_all add: a_def)
  ultimately show ?thesis using t pu apu m(1,3) n(1)
    by (simp add: QHash_reserve_def QHashData_rehash_def Let_def split: if_splits flip: u_def)
qed

lemma willGrow_ok:
  assumes "hash_ok q d" "hash_size d < 2 ^ 30"
  shows "\<exists>g t. willGrow d = Some (g, t) \<and> same_values q d t \<and> buckets t \<noteq> [] \<and> hash_size t \<le> 2 * numBuckets t \<and>
    (\<not> g \<longrightarrow> t = d)"
proof (cases "numBuckets d \<le> hash_size d")
  case False
  then show ?thesis using assms(1) by (auto simp: willGrow_def same_values_def)
next
  case True
  note ok = hash_okD [OF assms(1)]
  have "\<exists>p. primeForNumBits (max (numBits d + 1) MinNumBits) = Some p \<and> hash_size d \<le> 2 * p"
  proof (cases "buckets d = []")
    case True
    have "primeForNumBits 4 = Some 17" by (simp add: primeForNumBits_def prime_deltas_def)
    then show ?thesis using True ok(4,5) by (simp add: MinNumBits_def)
  next
    case False
    then have p: "MinNumBits \<le> numBits d" "primeForNumBits (numBits d) = Some (numBuckets d)" using ok(6) by simp_all
    have "(2 :: nat) ^ numBits d < 2 ^ 30" using prime_bounds(2) [OF p(2)] True assms(2) by linarith
    then have "numBits d < 30" by (rule power_less_imp_less_exp [rotated]) simp
    then obtain r where r: "primeForNumBits (numBits d + 1) = Some r" using prime_defined [of "numBits d + 1"] by auto
    have "numBuckets d < r" using prime_mono [OF p(2) r] by simp
    then show ?thesis using r p(1) ok(4) by (auto simp: max_def)
  qed
  then obtain p where p: "primeForNumBits (max (numBits d + 1) MinNumBits) = Some p" "hash_size d \<le> 2 * p" by blast
  from rehash_to [OF assms(1) p(1)] p(2) obtain t where
    t: "QHashData_rehash (int (numBits d + 1)) d = Some t" "same_values q d t" "numBuckets t = p" by auto
  have "buckets t \<noteq> []" using prime_pos [OF p(1)] t(3) by auto
  then show ?thesis using True t p(2) by (auto simp: willGrow_def same_values_def add.commute)
qed

lemma hasShrunk_ok:
  assumes "hash_ok q d"
  shows "\<exists>t. hasShrunk d = Some t \<and> same_values q d t"
proof (cases "hash_size d \<le> numBuckets d div 8 \<and> numBits d > userNumBits d")
  case False
  then show ?thesis using assms unfolding hasShrunk_def same_values_def by (simp only: if_False simp_thms) auto
next
  case True
  note ok = hash_okD [OF assms]
  define n where "n = max (numBits d - 2) (userNumBits d)"
  have nb: "buckets d \<noteq> []" using True ok(3,5) by (auto simp: MinNumBits_def)
  then have p: "MinNumBits \<le> numBits d" "primeForNumBits (numBits d) = Some (numBuckets d)" using ok(6) by simp_all
  have n: "max (int (numBits d) - 2) (int (userNumBits d)) = int n" "MinNumBits \<le> n" "n < numBits d" "numBits d \<le> n + 2"
    using True ok(3) p(1) by (auto simp: n_def MinNumBits_def)
  obtain r where r: "primeForNumBits n = Some r" using prime_defined [of n] n(3) prime_bounds(1) [OF p(2)] by auto
  have "numBuckets d < 2 ^ Suc (numBits d)" by (rule prime_bounds(3) [OF p(2)])
  also have "\<dots> \<le> (2 :: nat) ^ (n + 3)" using n(4) by (intro power_increasing) simp_all
  also have "\<dots> = 8 * 2 ^ n" by (simp add: power_add)
  also have "\<dots> \<le> 8 * r" using prime_bounds(2) [OF r] by simp
  finally have "hash_size d \<le> 2 * r + 1" using True by linarith
  from rehash_to [OF assms, of n r] this r n(2) show ?thesis using True n(1) by (auto simp: hasShrunk_def max_def)
qed

section \<open>One chain\<close>

lemma grouped_split: "grouped (A @ k # B) \<Longrightarrow> k \<notin> set A \<Longrightarrow> set A \<inter> set (k # B) = {}"
proof (induction A)
  case (Cons a A)
  have "a \<notin> set (dropWhile (\<lambda>x. x = a) (A @ k # B))" "a \<noteq> k" using Cons.prems by auto
  moreover have "set (k # B) \<subseteq> set (dropWhile (\<lambda>x. x = a) (A @ k # B))"
    using \<open>a \<noteq> k\<close> by (induction A) auto
  ultimately have "a \<notin> set (k # B)" by blast
  then show ?case using Cons by simp
qed simp

text \<open>A chain split at the first node of a key: the nodes of the key, and those of other keys behind them.\<close>

lemma chain_parts:
  fixes A B :: "('k, 'v) hash_node list"
  assumes "grouped (map node_key (A @ B))" "k \<notin> node_key ` set A" "B = [] \<or> node_key (hd B) = k"
  shows "nodes_of k (A @ B) = nodes_of k B" "set (map node_key A) \<inter> set (map node_key B) = {}"
    "grouped (map node_key A)" "grouped (map node_key B)"
    "takeWhile (\<lambda>n. node_key n = k) B = nodes_of k B" "dropWhile (\<lambda>n. node_key n = k) B = filter (\<lambda>n. node_key n \<noteq> k) B"
proof -
  show "nodes_of k (A @ B) = nodes_of k B" using assms(2) by (auto simp: nodes_of_def filter_empty_conv)
  show dis: "set (map node_key A) \<inter> set (map node_key B) = {}"
  proof (cases B)
    case (Cons b B')
    then have "node_key b = k" using assms(3) by simp
    then show ?thesis using grouped_split [of "map node_key A" k "map node_key B'"] assms(1,2) Cons by auto
  qed simp
  then show g: "grouped (map node_key A)" "grouped (map node_key B)" using assms(1) by (simp_all add: grouped_append)
  have "takeWhile (\<lambda>n. node_key n = k) B = nodes_of k B \<and> dropWhile (\<lambda>n. node_key n = k) B = filter (\<lambda>n. node_key n \<noteq> k) B"
    using g(2) assms(3)
  proof (induction B)
    case (Cons b B)
    then have b: "node_key b = k" by simp
    have out: "k \<notin> set (dropWhile (\<lambda>x. x = k) (map node_key B))" using Cons.prems(1) b by simp
    show ?case
    proof (cases "B = [] \<or> node_key (hd B) = k")
      case True
      then show ?thesis using Cons.IH Cons.prems(1) b by (simp add: nodes_of_def)
    next
      case False
      then have "k \<notin> node_key ` set B" using out by (cases B) auto
      then have "\<forall>n \<in> set B. node_key n \<noteq> k" by blast
      moreover have "takeWhile (\<lambda>n. node_key n = k) B = []" "dropWhile (\<lambda>n. node_key n = k) B = B"
        using False by (cases B; simp)+
      ultimately show ?thesis using b by (simp add: nodes_of_def filter_id_conv)
    qed
  qed (simp add: nodes_of_def)
  then show "takeWhile (\<lambda>n. node_key n = k) B = nodes_of k B" "dropWhile (\<lambda>n. node_key n = k) B = filter (\<lambda>n. node_key n \<noteq> k) B"
    by simp_all
qed

definition at_home :: "('k \<Rightarrow> 32 word) \<Rightarrow> nat \<Rightarrow> nat \<Rightarrow> ('k, 'v) hash_node \<Rightarrow> bool" where
  "at_home q nb i n \<longleftrightarrow> node_h n = q (node_key n) \<and> unat (q (node_key n)) mod nb = i"

lemma find_in_chain_split:
  assumes "\<forall>n \<in> set b. node_h n = q (node_key n)"
  shows "\<exists>A B. b = A @ B \<and> find_in_chain (q k) k b = length A \<and> k \<notin> node_key ` set A \<and> (B = [] \<or> node_key (hd B) = k)"
  using assms
proof (induction b)
  case (Cons n b)
  show ?case
  proof (cases "node_key n = k")
    case True
    then have "same_key (q k) k n" using Cons.prems by (simp add: same_key_def)
    then show ?thesis using True by (intro exI [of _ "[]"] exI [of _ "n # b"]) simp
  next
    case False
    obtain A B where "b = A @ B" "find_in_chain (q k) k b = length A" "k \<notin> node_key ` set A" "B = [] \<or> node_key (hd B) = k"
      using Cons.IH Cons.prems by auto
    then show ?thesis using False by (intro exI [of _ "n # A"] exI [of _ B]) (auto simp: same_key_def)
  qed
qed simp

text \<open>Where \<open>findNode\<close> stops.\<close>

definition found :: "('k \<Rightarrow> 32 word) \<Rightarrow> 'k \<Rightarrow> ('k, 'v) QHashData \<Rightarrow> nat \<Rightarrow> ('k, 'v) hash_node list \<Rightarrow> ('k, 'v) hash_node list \<Rightarrow> bool" where
  "found q k d i A B \<longleftrightarrow> QHash_findNode q k d = (q k, Some (i, length A)) \<and> i = unat (q k) mod numBuckets d \<and> i < numBuckets d \<and>
    buckets d ! i = A @ B \<and> k \<notin> node_key ` set A \<and> (B = [] \<or> node_key (hd B) = k)"

lemma foundD:
  assumes "found q k d i A B"
  shows "QHash_findNode q k d = (q k, Some (i, length A))" "unat (q k) mod numBuckets d = i" "i < numBuckets d"
    "buckets d ! i = A @ B" "\<And>n. n \<in> set A \<Longrightarrow> node_key n \<noteq> k" "k \<notin> node_key ` set A" "B = [] \<or> node_key (hd B) = k"
  using assms by (auto simp: found_def)

lemma findNode_ok:
  assumes "hash_ok q d" "buckets d \<noteq> []"
  shows "\<exists>i A B. found q k d i A B"
proof -
  define i where "i = unat (q k) mod numBuckets d"
  have i: "i < numBuckets d" using assms(2) by (simp add: i_def)
  have "\<forall>n \<in> set (buckets d ! i). node_h n = q (node_key n)"
    using hash_okD(1) [OF assms(1)] i by (simp add: chains_ok_def placed_def)
  from find_in_chain_split [OF this, of k] obtain A B where "buckets d ! i = A @ B" "find_in_chain (q k) k (buckets d ! i) = length A"
    "k \<notin> node_key ` set A" "B = [] \<or> node_key (hd B) = k" by blast
  then show ?thesis using assms(2) i by (auto simp: found_def QHash_findNode_def Let_def simp flip: i_def)
qed

lemma found_facts:
  assumes "hash_ok q d" "found q k d i A B"
  shows "grouped (map node_key (A @ B))" "\<forall>n \<in> set (A @ B). at_home q (numBuckets d) i n" "hash_values d k = map node_value (nodes_of k B)"
    "node_at (Some (i, length A)) d = (case B of [] \<Rightarrow> None | n # ns \<Rightarrow> Some n)" "chain_from (Some (i, length A)) d = B"
proof -
  note ok = hash_okD(1) [OF assms(1)] and f = assms(2) [unfolded found_def]
  have "A @ B \<in> set (buckets d)" using f nth_mem by metis
  then show g: "grouped (map node_key (A @ B))" using ok unfolding chains_ok_def by blast
  show "\<forall>n \<in> set (A @ B). at_home q (numBuckets d) i n" using ok f by (auto simp: chains_ok_def placed_def at_home_def)
  have "nodes_of k (all_nodes d) = nodes_of k (A @ B)"
  proof -
    have "buckets d \<noteq> []" using f by force
    moreover have "placed q (buckets d)" using ok by (simp add: chains_ok_def)
    ultimately show ?thesis using nodes_of_bucket f unfolding all_nodes_def by metis
  qed
  then show "hash_values d k = map node_value (nodes_of k B)"
    using chain_parts(1) [OF g, of k] f by (simp add: hash_values_def)
  have "buckets d ! i = A @ B" "i < numBuckets d" using f by blast+
  then show "node_at (Some (i, length A)) d = (case B of [] \<Rightarrow> None | n # ns \<Rightarrow> Some n)" "chain_from (Some (i, length A)) d = B"
    by (simp_all add: node_at_def chain_from_def split: list.split)
qed

text \<open>A new chain in place of the old one.\<close>

lemma length_concat_update: "i < length bs \<Longrightarrow> length (concat (bs[i := c])) + length (bs ! i) = length (concat bs) + length c"
proof (induction bs arbitrary: i)
  case (Cons b bs)
  then show ?case by (cases i) (auto simp: nth_Cons split: nat.split)
qed simp

lemma update_chain:
  assumes "hash_ok q d" "found q k d i A B" "grouped (map node_key c)" "\<forall>n \<in> set c. at_home q (numBuckets d) i n"
    "\<And>k'. k' \<noteq> k \<Longrightarrow> nodes_of k' c = nodes_of k' (A @ B)" "s = hash_size d + length c - length (A @ B)" "s \<le> 2 * numBuckets d + 1"
  defines "t \<equiv> d\<lparr>buckets := (buckets d)[i := c], hash_size := s\<rparr>"
  shows "hash_ok q t" "hash_values t = (hash_values d)(k := map node_value (nodes_of k c))"
proof -
  note ok = hash_okD [OF assms(1)] and f = assms(2) [unfolded found_def]
  have nb: "buckets d \<noteq> []" using f by auto
  have ch: "chains_ok q ((buckets d)[i := c])"
  proof -
    have "placed q ((buckets d)[i := c])"
      unfolding placed_def length_list_update
    proof (intro allI impI)
      fix j
      assume j: "j < numBuckets d"
      show "\<forall>n \<in> set ((buckets d)[i := c] ! j). node_h n = q (node_key n) \<and> unat (q (node_key n)) mod numBuckets d = j"
        using ok(1) assms(4) j by (cases "j = i") (simp_all add: chains_ok_def placed_def at_home_def)
    qed
    moreover have "b \<in> insert c (set (buckets d))" if "b \<in> set ((buckets d)[i := c])" for b
      using that set_update_subset_insert by (rule rev_subsetD)
    ultimately show ?thesis using ok(1) assms(3) unfolding chains_ok_def by blast
  qed
  have len: "length (concat ((buckets d)[i := c])) = s"
  proof -
    have "i < numBuckets d" "buckets d ! i = A @ B" using f by blast+
    with length_concat_update [OF this(1), of c] have "length (concat ((buckets d)[i := c])) + length (A @ B) =
      length (concat (buckets d)) + length c" by simp
    then show ?thesis unfolding assms(6) ok(2) all_nodes_def by linarith
  qed
  show "hash_ok q t" using ch len ok assms(7) nb by (simp add: hash_ok_def t_def all_nodes_def)
  show "hash_values t = (hash_values d)(k := map node_value (nodes_of k c))"
  proof (rule ext)
    fix k'
    have t: "nodes_of k' (all_nodes t) = nodes_of k' ((buckets d)[i := c] ! (unat (q k') mod numBuckets d))"
      using nodes_of_bucket [of q "(buckets d)[i := c]" k'] ch nb by (simp add: all_nodes_def t_def chains_ok_def)
    have d: "nodes_of k' (all_nodes d) = nodes_of k' (buckets d ! (unat (q k') mod numBuckets d))"
      using nodes_of_bucket [of q "buckets d" k'] ok(1) nb by (simp add: all_nodes_def chains_ok_def)
    show "hash_values t k' = ((hash_values d)(k := map node_value (nodes_of k c))) k'"
      using t d f assms(5) [of k'] by (cases "k' = k") (auto simp: hash_values_def nth_list_update)
  qed
qed

end
