(* ===== verification/HashChanges.thy ===== *)
theory HashChanges
  imports HashOps
begin

text \<open>
  The operations of \<open>QHash\<close> on the values of their key.
\<close>

section \<open>Lookup\<close>

lemma no_buckets: "hash_ok q d \<Longrightarrow> buckets d = [] \<Longrightarrow> hash_values d k = [] \<and> hash_size d = 0 \<and> QHash_findNode q k d = (q k, None)"
  using hash_okD(2) [of q d] by (simp add: hash_values_def nodes_of_def all_nodes_def QHash_findNode_def)

lemma empty_hash: "hash_ok q d \<Longrightarrow> hash_size d = 0 \<Longrightarrow> hash_values d k = []"
  using hash_okD(2) [of q d] by (simp add: hash_values_def nodes_of_def)

text \<open>What \<open>findNode\<close> gives: nothing, or the chain from the first node of the key on.\<close>

lemma lookup:
  assumes "hash_ok q d"
  obtains (none) "hash_values d k = []" "node_at (snd (QHash_findNode q k d)) d = None" "chain_from (snd (QHash_findNode q k d)) d = []"
  | (node) i A n ns where "found q k d i A (n # ns)" "node_key n = k" "hash_values d k = node_value n # map node_value (nodes_of k ns)"
      "node_at (snd (QHash_findNode q k d)) d = Some n" "chain_from (snd (QHash_findNode q k d)) d = n # ns"
proof (cases "buckets d = []")
  case True
  then show ?thesis using no_buckets [OF assms, of k] none by (simp add: node_at_def chain_from_def)
next
  case False
  then obtain i A B where f: "found q k d i A B" using findNode_ok [OF assms] by blast
  note g = found_facts [OF assms f]
  have p: "snd (QHash_findNode q k d) = Some (i, length A)" using f by (simp add: found_def)
  show ?thesis
  proof (cases B)
    case Nil
    then show ?thesis using none g p by (simp add: nodes_of_def)
  next
    case (Cons n ns)
    have "node_key n = k" using f Cons by (simp add: found_def)
    then show ?thesis using node [of i A n ns] f g p Cons by (simp add: nodes_of_def)
  qed
qed

lemma take_run:
  assumes "hash_ok q d" "found q k d i A (n # ns)"
  shows "takeWhile (\<lambda>n. node_key n = k) ns = nodes_of k ns" "dropWhile (\<lambda>n. node_key n = k) ns = filter (\<lambda>n. node_key n \<noteq> k) ns"
proof -
  have k: "node_key n = k" using assms(2) by (simp add: found_def)
  show "takeWhile (\<lambda>n. node_key n = k) ns = nodes_of k ns" "dropWhile (\<lambda>n. node_key n = k) ns = filter (\<lambda>n. node_key n \<noteq> k) ns"
    using chain_parts(5,6) [OF found_facts(1) [OF assms], of k] assms(2) k by (simp_all add: found_def nodes_of_def)
qed

lemma count_chain_run: "count_chain k c ns = c + length (takeWhile (\<lambda>n. node_key n = k) ns)"
  by (induction ns arbitrary: c) simp_all

lemma values_chain_run: "values_chain k vs ns = vs @ map node_value (takeWhile (\<lambda>n. node_key n = k) ns)"
  by (induction ns arbitrary: vs) simp_all

lemma hash_queries:
  assumes "hash_ok q d"
  shows "QHash_contains q k d \<longleftrightarrow> hash_values d k \<noteq> []"
    "QHash_value q k v d = (case hash_values d k of [] \<Rightarrow> v | x # xs \<Rightarrow> x)"
    "QHash_count q k d = length (hash_values d k)"
    "QHash_values q k d = hash_values d k"
proof -
  have "(QHash_contains q k d \<longleftrightarrow> hash_values d k \<noteq> []) \<and>
    QHash_value q k v d = (case hash_values d k of [] \<Rightarrow> v | x # xs \<Rightarrow> x) \<and>
    QHash_count q k d = length (hash_values d k) \<and> QHash_values q k d = hash_values d k"
  proof (cases rule: lookup [where k = k, OF assms, case_names none node])
    case none
    then show ?thesis by (simp add: QHash_contains_def QHash_value_def QHash_count_def QHash_values_def)
  next
    case (node i A n ns)
    have "hash_size d \<noteq> 0" using empty_hash [OF assms, of k] node(3) by auto
    then show ?thesis using node take_run(1) [OF assms node(1)]
      by (simp add: QHash_contains_def QHash_value_def QHash_count_def QHash_values_def count_chain_run values_chain_run)
  qed
  then show "QHash_contains q k d \<longleftrightarrow> hash_values d k \<noteq> []"
    "QHash_value q k v d = (case hash_values d k of [] \<Rightarrow> v | x # xs \<Rightarrow> x)"
    "QHash_count q k d = length (hash_values d k)" "QHash_values q k d = hash_values d k" by blast+
qed

section \<open>Insertion\<close>

text \<open>The table \<open>t\<close> has the values \<open>xs\<close> for the key, and the size \<open>s\<close>.\<close>

definition hash_becomes :: "('k \<Rightarrow> 32 word) \<Rightarrow> ('k, 'v) QHashData \<Rightarrow> 'k \<Rightarrow> 'v list \<Rightarrow> nat \<Rightarrow> ('k, 'v) QHashData \<Rightarrow> bool" where
  "hash_becomes q d k xs s t \<longleftrightarrow> hash_ok q t \<and> hash_values t = (hash_values d)(k := xs) \<and> hash_size t = s"

lemma createNode_ok:
  assumes "hash_ok q d" "found q k d i A B" "hash_size d \<le> 2 * numBuckets d"
  shows "\<exists>t. createNode (q k) k v (Some (i, length A)) d = Some t \<and>
    hash_becomes q d k (v # hash_values d k) (hash_size d + 1) t"
proof -
  define n where "n = \<lparr>node_h = q k, node_key = k, node_value = v\<rparr>"
  note f = foundD [OF assms(2)] and g = found_facts [OF assms(1,2)]
  note c = chain_parts [OF g(1) f(6,7)]
  have "grouped (map node_key (n # B))"
  proof (cases B)
    case (Cons b B')
    then show ?thesis using c(4) f(7) by (simp add: n_def)
  qed simp
  moreover have "set (map node_key A) \<inter> set (map node_key (n # B)) = {}" using c(2) f(6) by (simp add: n_def)
  moreover note c(3)
  ultimately have 1: "grouped (map node_key (A @ n # B))" by (simp only: map_append grouped_append)
  have 2: "\<forall>m \<in> set (A @ n # B). at_home q (numBuckets d) i m" using g(2) f(2) by (auto simp: at_home_def n_def)
  have 3: "k' \<noteq> k \<Longrightarrow> nodes_of k' (A @ n # B) = nodes_of k' (A @ B)" for k' by (simp add: nodes_of_def n_def)
  have 4: "nodes_of k (A @ n # B) = n # nodes_of k B" using f(5) by (auto simp: nodes_of_def n_def filter_empty_conv)
  note u = update_chain [OF assms(1,2) 1 2 3 refl]
  have "createNode (q k) k v (Some (i, length A)) d = Some (d\<lparr>buckets := (buckets d)[i := A @ n # B], hash_size := hash_size d + 1\<rparr>)"
    using f(4) by (simp add: createNode_def n_def)
  then show ?thesis using u assms(3) 4 g(3) by (simp add: hash_becomes_def n_def)
qed

lemma grow_and_create:
  assumes "hash_ok q d" "hash_size d < 2 ^ 30"
  shows "\<exists>g t u. willGrow d = Some (g, t) \<and> (\<not> g \<longrightarrow> t = d) \<and>
    createNode (q k) k v (snd (QHash_findNode q k t)) t = Some u \<and> hash_becomes q d k (v # hash_values d k) (hash_size d + 1) u"
proof -
  obtain g t where t: "willGrow d = Some (g, t)" "same_values q d t" "buckets t \<noteq> []" "hash_size t \<le> 2 * numBuckets t" "\<not> g \<longrightarrow> t = d"
    using willGrow_ok [OF assms] by blast
  have ok: "hash_ok q t" using t(2) by (simp add: same_values_def)
  obtain i A B where f: "found q k t i A B" using findNode_ok [OF ok t(3)] by blast
  have "snd (QHash_findNode q k t) = Some (i, length A)" using f by (simp add: found_def)
  then show ?thesis using createNode_ok [OF ok f t(4), of v] t by (auto simp: hash_becomes_def same_values_def)
qed

lemma findNode_pair: "QHash_findNode q k d = (q k, snd (QHash_findNode q k d))"
  by (simp add: QHash_findNode_def Let_def)

lemma QHash_insertMulti_ok:
  assumes "hash_ok q d" "hash_size d < 2 ^ 30"
  shows "\<exists>t. QHash_insertMulti q k v d = Some t \<and> hash_becomes q d k (v # hash_values d k) (hash_size d + 1) t"
proof -
  obtain g t u where t: "willGrow d = Some (g, t)" "createNode (q k) k v (snd (QHash_findNode q k t)) t = Some u"
    "hash_becomes q d k (v # hash_values d k) (hash_size d + 1) u" using grow_and_create [OF assms, of k v] by blast
  have "QHash_insertMulti q k v d = (let (h, p) = QHash_findNode q k t in createNode h k v p t)"
    using t(1) by (simp add: QHash_insertMulti_def)
  also have "\<dots> = Some u" by (subst findNode_pair) (simp add: t(2))
  finally show ?thesis using t(3) by blast
qed

lemma create_new:
  assumes "hash_ok q d" "hash_size d < 2 ^ 30"
  shows "\<exists>g t u. willGrow d = Some (g, t) \<and>
    createNode (q k) k v (if g then snd (QHash_findNode q k t) else snd (QHash_findNode q k d)) t = Some u \<and>
    hash_becomes q d k (v # hash_values d k) (hash_size d + 1) u"
proof -
  obtain g t u where "willGrow d = Some (g, t)" "\<not> g \<longrightarrow> t = d" "createNode (q k) k v (snd (QHash_findNode q k t)) t = Some u"
    "hash_becomes q d k (v # hash_values d k) (hash_size d + 1) u" using grow_and_create [OF assms, of k v] by blast
  then show ?thesis by (cases g) auto
qed

lemma QHash_index_ok:
  assumes "hash_ok q d" "hash_size d < 2 ^ 30"
  shows "\<exists>t. QHash_index q v k d = Some (case hash_values d k of [] \<Rightarrow> v | x # xs \<Rightarrow> x, t) \<and>
    hash_becomes q d k (if hash_values d k = [] then [v] else hash_values d k)
      (if hash_values d k = [] then hash_size d + 1 else hash_size d) t"
proof (cases rule: lookup [where k = k, OF assms(1), case_names none node])
  case none
  obtain g t u where t: "willGrow d = Some (g, t)"
    "createNode (q k) k v (if g then snd (QHash_findNode q k t) else snd (QHash_findNode q k d)) t = Some u"
    "hash_becomes q d k (v # hash_values d k) (hash_size d + 1) u" using create_new [OF assms, of k v] by blast
  then show ?thesis using none by (subst QHash_index_def, subst findNode_pair) (auto simp: Let_def)
next
  case (node i A n ns)
  have "hash_becomes q d k (hash_values d k) (hash_size d) d" using assms(1) by (simp add: hash_becomes_def)
  then show ?thesis using node(3,4) by (subst QHash_index_def, subst findNode_pair) (auto simp: Let_def)
qed

lemma QHash_insert_ok:
  assumes "hash_ok q d" "hash_size d < 2 ^ 30"
  shows "\<exists>t. QHash_insert q k v d = Some t \<and>
    hash_becomes q d k (v # tl (hash_values d k)) (if hash_values d k = [] then hash_size d + 1 else hash_size d) t"
proof (cases rule: lookup [where k = k, OF assms(1), case_names none node])
  case none
  obtain g t u where t: "willGrow d = Some (g, t)"
    "createNode (q k) k v (if g then snd (QHash_findNode q k t) else snd (QHash_findNode q k d)) t = Some u"
    "hash_becomes q d k (v # hash_values d k) (hash_size d + 1) u" using create_new [OF assms, of k v] by blast
  then show ?thesis using none by (subst QHash_insert_def, subst findNode_pair) (auto simp: Let_def)
next
  case (node i A n ns)
  define m where "m = n\<lparr>node_value := v\<rparr>"
  note f = foundD [OF node(1)] and g = found_facts [OF assms(1) node(1)]
  note p = f(1)
  have 1: "grouped (map node_key (A @ m # ns))" using g(1) by (simp add: m_def)
  have 2: "\<forall>x \<in> set (A @ m # ns). at_home q (numBuckets d) i x" using g(2) by (auto simp: at_home_def m_def)
  have 3: "k' \<noteq> k \<Longrightarrow> nodes_of k' (A @ m # ns) = nodes_of k' (A @ n # ns)" for k' using node(2) by (simp add: nodes_of_def m_def)
  have "hash_size d \<le> 2 * numBuckets d + 1" by (rule hash_okD(4) [OF assms(1)])
  note u = update_chain [OF assms(1) node(1) 1 2 3, of "hash_size d"]
  have "nodes_of k (A @ m # ns) = m # nodes_of k ns" using f(5) node(2) by (auto simp: nodes_of_def m_def filter_empty_conv)
  moreover have "set_node_value (Some (i, length A)) v d = d\<lparr>buckets := (buckets d)[i := A @ m # ns], hash_size := hash_size d\<rparr>"
    using f(4) by (simp add: set_node_value_def m_def)
  ultimately show ?thesis using u node(3,4) p \<open>hash_size d \<le> 2 * numBuckets d + 1\<close>
    by (simp add: QHash_insert_def hash_becomes_def m_def)
qed

section \<open>Removal\<close>

lemma remove_chain_run:
  "remove_chain c (n # ns) =
    (c + 1 + length (takeWhile (\<lambda>m. node_key m = node_key n) ns), dropWhile (\<lambda>m. node_key m = node_key n) ns)"
proof (induction ns arbitrary: c n)
  case (Cons m ns)
  then show ?case by (cases "node_key m = node_key n") simp_all
qed simp

text \<open>Cutting nodes of the key out of its chain, and shrinking.\<close>

lemma cut_and_shrink:
  assumes "hash_ok q d" "found q k d i A (n # ns)" "ns = C @ B" "\<forall>m \<in> set C. node_key m = k"
  shows "\<exists>t. hasShrunk ((set_chain_from (Some (i, length A)) B d)\<lparr>hash_size := hash_size d - (1 + length C)\<rparr>) = Some t \<and>
    hash_becomes q d k (map node_value (nodes_of k B)) (hash_size d - (1 + length C)) t \<and> 1 + length C \<le> hash_size d"
proof -
  note f = foundD [OF assms(2)] and g = found_facts [OF assms(1,2)]
  have nk: "node_key n = k" using f(7) by simp
  note c = chain_parts [OF g(1) f(6,7)] and i = f(3,4)
  have gB: "grouped (map node_key B)"
  proof -
    have "grouped (map node_key C @ map node_key B)" using c(4) by (simp add: assms(3))
    then show ?thesis by (induction C) simp_all
  qed
  have dis: "set (map node_key A) \<inter> set (map node_key B) = {}" using c(2) by (auto simp: assms(3))
  from c(3) gB dis have 1: "grouped (map node_key (A @ B))" by (simp only: map_append grouped_append)
  have 2: "\<forall>m \<in> set (A @ B). at_home q (numBuckets d) i m" using g(2) by (auto simp: assms(3))
  have 3: "nodes_of k' (A @ B) = nodes_of k' (A @ n # ns)" if "k' \<noteq> k" for k'
    using nk assms(4) that by (auto simp: nodes_of_def assms(3) filter_empty_conv)
  have kB: "nodes_of k (A @ B) = nodes_of k B" using f(5) by (auto simp: nodes_of_def filter_empty_conv)
  have len: "1 + length C \<le> hash_size d" "hash_size d - (1 + length C) = hash_size d + length (A @ B) - length (A @ n # ns)"
  proof -
    have "length (A @ n # ns) \<le> length (all_nodes d)"
      using length_concat_update [OF i(1), of "[]"] i(2) by (simp add: all_nodes_def)
    then show "1 + length C \<le> hash_size d" "hash_size d - (1 + length C) = hash_size d + length (A @ B) - length (A @ n # ns)"
      using hash_okD(2) [OF assms(1)] by (simp_all add: assms(3))
  qed
  define e where "e = d\<lparr>buckets := (buckets d)[i := A @ B], hash_size := hash_size d - (1 + length C)\<rparr>"
  have "hash_size d - (1 + length C) \<le> 2 * numBuckets d + 1" using hash_okD(4) [OF assms(1)] by simp
  note u = update_chain [OF assms(1,2) 1 2 3 len(2) this, folded e_def]
  have "(set_chain_from (Some (i, length A)) B d)\<lparr>hash_size := hash_size d - (1 + length C)\<rparr> = e"
    using i by (simp add: set_chain_from_def e_def)
  moreover obtain t where "hasShrunk e = Some t" "same_values q e t" using hasShrunk_ok [OF u(1)] by blast
  ultimately show ?thesis using u kB len(1) by (simp add: hash_becomes_def same_values_def) (simp add: e_def)
qed

lemma QHash_remove_ok:
  assumes "hash_ok q d"
  shows "\<exists>t. QHash_remove q k d = Some (length (hash_values d k), t) \<and>
    hash_becomes q d k [] (hash_size d - length (hash_values d k)) t"
proof (cases rule: lookup [where k = k, OF assms, case_names none node])
  case none
  then have "(hash_values d)(k := []) = hash_values d" by auto
  then show ?thesis using none assms by (simp add: QHash_remove_def hash_becomes_def Let_def)
next
  case (node i A n ns)
  define C where "C = takeWhile (\<lambda>m. node_key m = k) ns"
  define B where "B = dropWhile (\<lambda>m. node_key m = k) ns"
  have s: "ns = C @ B" "\<forall>m \<in> set C. node_key m = k" unfolding C_def B_def by (auto dest: set_takeWhileD)
  have "nodes_of k B = []" using take_run(2) [OF assms node(1)] by (auto simp: B_def nodes_of_def filter_empty_conv)
  moreover have "length (hash_values d k) = 1 + length C" using node(3) take_run(1) [OF assms node(1)] by (simp add: C_def)
  moreover have "remove_chain 0 (n # ns) = (1 + length C, B)" using node(2) by (simp add: remove_chain_run C_def B_def del: remove_chain.simps)
  moreover obtain t where "hasShrunk ((set_chain_from (Some (i, length A)) B d)\<lparr>hash_size := hash_size d - (1 + length C)\<rparr>) = Some t"
    "hash_becomes q d k (map node_value (nodes_of k B)) (hash_size d - (1 + length C)) t" "1 + length C \<le> hash_size d"
    using cut_and_shrink [OF assms node(1) s] by blast
  moreover have "snd (QHash_findNode q k d) = Some (i, length A)" using node(1) by (simp add: found_def)
  ultimately show ?thesis using node(4,5) by (auto simp: QHash_remove_def hash_becomes_def Let_def)
qed

lemma QHash_take_ok:
  assumes "hash_ok q d"
  shows "\<exists>t. QHash_take q v k d = Some (case hash_values d k of [] \<Rightarrow> v | x # xs \<Rightarrow> x, t) \<and>
    hash_becomes q d k (tl (hash_values d k)) (hash_size d - (if hash_values d k = [] then 0 else 1)) t"
proof (cases rule: lookup [where k = k, OF assms, case_names none node])
  case none
  then have "(hash_values d)(k := []) = hash_values d" by auto
  then show ?thesis using none assms by (simp add: QHash_take_def hash_becomes_def Let_def)
next
  case (node i A n ns)
  have "hash_size d \<noteq> 0" using empty_hash [OF assms, of k] node(3) by auto
  moreover obtain t where "hasShrunk ((set_chain_from (Some (i, length A)) ns d)\<lparr>hash_size := hash_size d - (1 + length ([] :: ('a, 'b) hash_node list))\<rparr>) = Some t"
    "hash_becomes q d k (map node_value (nodes_of k ns)) (hash_size d - (1 + length ([] :: ('a, 'b) hash_node list))) t"
    using cut_and_shrink [OF assms node(1), of "[]" ns] by auto
  moreover have "snd (QHash_findNode q k d) = Some (i, length A)" using node(1) by (simp add: found_def)
  ultimately show ?thesis using node(3,5) by (simp add: QHash_take_def Let_def)
qed

end
