(* ===== verification/HashIter.thy ===== *)
theory HashIter
  imports HashChanges
begin

text \<open>
  Iterators of \<open>QHash\<close>, the functions that run over all nodes, \<open>operator==\<close> and \<open>unite\<close>.  An iterator is the place of its
  node, \<open>None\<close> at the end.
\<close>

type_synonym hash_iterator = "(nat \<times> nat) option"

section \<open>Iterators\<close>

text \<open>The first node of the chains from bucket \<open>i\<close> on, and the last one below it.\<close>

fun first_filled :: "nat \<Rightarrow> 'c list list \<Rightarrow> hash_iterator" where
  "first_filled i [] = None"
| "first_filled i (b # bs) = (if b \<noteq> [] then Some (i, 0) else first_filled (i + 1) bs)"

fun last_filled :: "nat \<Rightarrow> 'c list list \<Rightarrow> hash_iterator" where
  "last_filled 0 bs = None"
| "last_filled (Suc i) bs = (if bs ! i \<noteq> [] then Some (i, length (bs ! i) - 1) else last_filled i bs)"

definition firstNode :: "('k, 'v) QHashData \<Rightarrow> hash_iterator" where
  "firstNode d = first_filled 0 (buckets d)"

definition nextNode :: "nat \<times> nat \<Rightarrow> ('k, 'v) QHashData \<Rightarrow> hash_iterator" where
  "nextNode p d =
    (let (i, j) = p
     in if j + 1 < length (buckets d ! i) then Some (i, j + 1)
        else (let start = unat (node_h (buckets d ! i ! j)) mod numBuckets d + 1
              in first_filled start (drop start (buckets d))))"

text \<open>A node that is not the first of its chain comes behind a node of that chain.\<close>

definition previousNode :: "hash_iterator \<Rightarrow> ('k, 'v) QHashData \<Rightarrow> hash_iterator" where
  "previousNode p d =
    (case p of
       None \<Rightarrow> last_filled (numBuckets d) (buckets d)
     | Some (i, j) \<Rightarrow>
         (let start = unat (node_h (buckets d ! i ! j)) mod numBuckets d
          in if j \<noteq> 0 then Some (start, j - 1) else last_filled start (buckets d)))"

text \<open>The nodes that the loops from an iterator to \<open>constEnd()\<close> visit.\<close>

partial_function (option) hash_walk :: "hash_iterator \<Rightarrow> ('k, 'v) QHashData \<Rightarrow> ('k, 'v) hash_node list option" where
  "hash_walk it d =
    (case it of
       None \<Rightarrow> Some []
     | Some p \<Rightarrow> do { n \<leftarrow> node_at it d; ns \<leftarrow> hash_walk (nextNode p d) d; Some (n # ns) })"

section \<open>Loops over all nodes\<close>

definition QHash_keys :: "('k, 'v) QHashData \<Rightarrow> 'k list option" where
  "QHash_keys d = map_option (map node_key) (hash_walk (firstNode d) d)"

definition QHash_all_values :: "('k, 'v) QHashData \<Rightarrow> 'v list option" where
  "QHash_all_values d = map_option (map node_value) (hash_walk (firstNode d) d)"

definition QHash_keys_of :: "'v \<Rightarrow> ('k, 'v) QHashData \<Rightarrow> 'k list option" where
  "QHash_keys_of v d = map_option (\<lambda>ns. map node_key (filter (\<lambda>n. node_value n = v) ns)) (hash_walk (firstNode d) d)"

fun key_loop :: "'v \<Rightarrow> 'k \<Rightarrow> ('k, 'v) hash_node list \<Rightarrow> 'k" where
  "key_loop v defaultKey [] = defaultKey"
| "key_loop v defaultKey (n # ns) = (if node_value n = v then node_key n else key_loop v defaultKey ns)"

definition QHash_key :: "'v \<Rightarrow> 'k \<Rightarrow> ('k, 'v) QHashData \<Rightarrow> 'k option" where
  "QHash_key v defaultKey d = map_option (key_loop v defaultKey) (hash_walk (firstNode d) d)"

function unique_loop :: "('k, 'v) hash_node list \<Rightarrow> 'k list" where
  "unique_loop [] = []"
| "unique_loop (n # ns) = node_key n # unique_loop (dropWhile (\<lambda>m. node_key m = node_key n) ns)"
  by pat_completeness auto
termination
  by (relation "measure length") (auto simp: le_imp_less_Suc length_dropWhile_le)

definition QHash_uniqueKeys :: "('k, 'v) QHashData \<Rightarrow> 'k list option" where
  "QHash_uniqueKeys d = map_option unique_loop (hash_walk (firstNode d) d)"

text \<open>
  \<open>operator==\<close> on two tables that are not the same: the inner loop over the nodes of a key in both, which gives the nodes of
  the first table that are left, and the outer one.
\<close>

fun equal_run :: "'k \<Rightarrow> ('k, 'v) hash_node list \<Rightarrow> ('k, 'v) hash_node list \<Rightarrow> ('k, 'v) hash_node list option" where
  "equal_run k [] ms = None"
| "equal_run k (n # ns) [] = None"
| "equal_run k (n # ns) (m # ms) =
    (if node_key m \<noteq> k then None
     else if node_value n \<noteq> node_value m then None
     else if ns \<noteq> [] \<and> node_key (hd ns) = k then equal_run k ns ms else Some ns)"

lemma equal_run_shorter: "equal_run k ns ms = Some r \<Longrightarrow> length r < length ns"
  by (induction k ns ms rule: equal_run.induct) (auto split: if_splits)

function equal_loop :: "('k \<Rightarrow> 32 word) \<Rightarrow> ('k, 'v) QHashData \<Rightarrow> ('k, 'v) hash_node list \<Rightarrow> bool option" where
  "equal_loop q e [] = Some True"
| "equal_loop q e (n # ns) =
    (case hash_walk (let p = snd (QHash_findNode q (node_key n) e) in if node_at p e = None then None else p) e of
       None \<Rightarrow> None
     | Some ms \<Rightarrow> (case equal_run (node_key n) (n # ns) ms of None \<Rightarrow> Some False | Some r \<Rightarrow> equal_loop q e r))"
  by pat_completeness auto
termination
  by (relation "measure (\<lambda>(q, e, ns). length ns)") (auto dest: equal_run_shorter)

definition QHash_equal :: "('k \<Rightarrow> 32 word) \<Rightarrow> ('k, 'v) QHashData \<Rightarrow> ('k, 'v) QHashData \<Rightarrow> bool option" where
  "QHash_equal q d e =
    (if hash_size d \<noteq> hash_size e then Some False
     else do { ns \<leftarrow> hash_walk (firstNode d) d; equal_loop q e ns })"

text \<open>\<open>unite\<close> with another table.\<close>

partial_function (option) unite_loop ::
    "('k \<Rightarrow> 32 word) \<Rightarrow> ('k, 'v) QHashData \<Rightarrow> hash_iterator \<Rightarrow> ('k, 'v) QHashData \<Rightarrow> ('k, 'v) QHashData option" where
  "unite_loop q other it d =
    (if it = firstNode other then Some d
     else do {
       let it = previousNode it other;
       n \<leftarrow> node_at it other;
       d \<leftarrow> QHash_insertMulti q (node_key n) (node_value n) d;
       unite_loop q other it d })"

definition QHash_unite :: "('k \<Rightarrow> 32 word) \<Rightarrow> ('k, 'v) QHashData \<Rightarrow> ('k, 'v) QHashData \<Rightarrow> ('k, 'v) QHashData option" where
  "QHash_unite q other d = unite_loop q other None d"

section \<open>The order of the nodes\<close>

definition valid_place :: "nat \<times> nat \<Rightarrow> 'c list list \<Rightarrow> bool" where
  "valid_place p bs \<longleftrightarrow> fst p < length bs \<and> snd p < length (bs ! fst p)"

definition nodes_from :: "hash_iterator \<Rightarrow> 'c list list \<Rightarrow> 'c list" where
  "nodes_from it bs = (case it of None \<Rightarrow> [] | Some (i, j) \<Rightarrow> drop j (bs ! i) @ concat (drop (Suc i) bs))"

definition nodes_before :: "hash_iterator \<Rightarrow> 'c list list \<Rightarrow> 'c list" where
  "nodes_before it bs = (case it of None \<Rightarrow> concat bs | Some (i, j) \<Rightarrow> concat (take i bs) @ take j (bs ! i))"

definition valid_it :: "hash_iterator \<Rightarrow> 'c list list \<Rightarrow> bool" where
  "valid_it it bs = (case it of None \<Rightarrow> True | Some p \<Rightarrow> valid_place p bs)"

lemma first_filled_ok:
  "i \<le> length bs \<Longrightarrow> valid_it (first_filled i (drop i bs)) bs \<and> nodes_from (first_filled i (drop i bs)) bs = concat (drop i bs)"
proof (induction "length bs - i" arbitrary: i)
  case 0
  then show ?case by (simp add: valid_it_def nodes_from_def)
next
  case (Suc n)
  then have i: "i < length bs" by simp
  have d: "drop i bs = bs ! i # drop (Suc i) bs" using Cons_nth_drop_Suc [OF i] by simp
  show ?case
  proof (cases "bs ! i = []")
    case True
    have "n = length bs - (i + 1)" "i + 1 \<le> length bs" using Suc i by simp_all
    from Suc.hyps(1) [OF this] show ?thesis using True by (simp add: d)
  next
    case False
    then show ?thesis using i by (simp add: d valid_it_def valid_place_def nodes_from_def)
  qed
qed

lemma firstNode_ok: "valid_it (firstNode d) (buckets d) \<and> nodes_from (firstNode d) (buckets d) = all_nodes d"
  using first_filled_ok [of 0 "buckets d"] by (simp add: firstNode_def all_nodes_def)

lemma home_bucket:
  assumes "hash_ok q d" "valid_place (i, j) (buckets d)"
  shows "unat (node_h (buckets d ! i ! j)) mod numBuckets d = i"
proof -
  have v: "i < numBuckets d" "buckets d ! i ! j \<in> set (buckets d ! i)" using assms(2) by (simp_all add: valid_place_def)
  have "placed q (buckets d)" using hash_okD(1) [OF assms(1)] by (simp add: chains_ok_def)
  then show ?thesis using v unfolding placed_def by metis
qed

lemma nextNode_ok:
  assumes "hash_ok q d" "valid_place p (buckets d)"
  shows "\<exists>n. node_at (Some p) d = Some n \<and> valid_it (nextNode p d) (buckets d) \<and>
    nodes_from (Some p) (buckets d) = n # nodes_from (nextNode p d) (buckets d)"
proof -
  obtain i j where p: "p = (i, j)" by fastforce
  have v: "i < numBuckets d" "j < length (buckets d ! i)" using assms(2) by (simp_all add: valid_place_def p)
  have n: "drop j (buckets d ! i) = buckets d ! i ! j # drop (Suc j) (buckets d ! i)" using Cons_nth_drop_Suc [OF v(2)] by simp
  show ?thesis
  proof (cases "j + 1 < length (buckets d ! i)")
    case True
    then show ?thesis using v n by (simp add: p node_at_def nextNode_def valid_it_def valid_place_def nodes_from_def)
  next
    case False
    have "nextNode p d = first_filled (i + 1) (drop (i + 1) (buckets d))"
      using False home_bucket [OF assms(1), of i j] assms(2) by (simp add: p nextNode_def Let_def)
    moreover have "drop (Suc j) (buckets d ! i) = []" using False by simp
    ultimately show ?thesis using first_filled_ok [of "i + 1" "buckets d"] v n
      by (simp add: p node_at_def nodes_from_def)
  qed
qed

lemma hash_walk_ok:
  assumes "hash_ok q d" "valid_it it (buckets d)"
  shows "hash_walk it d = Some (nodes_from it (buckets d))"
  using assms(2)
proof (induction "length (nodes_from it (buckets d))" arbitrary: it rule: less_induct)
  case less
  show ?case
  proof (cases it)
    case None
    then show ?thesis by (subst hash_walk.simps) (simp add: nodes_from_def)
  next
    case (Some p)
    then have "valid_place p (buckets d)" using less.prems by (simp add: valid_it_def)
    from nextNode_ok [OF assms(1) this] obtain n where n: "node_at (Some p) d = Some n" "valid_it (nextNode p d) (buckets d)"
      "nodes_from (Some p) (buckets d) = n # nodes_from (nextNode p d) (buckets d)" by blast
    have "hash_walk (nextNode p d) d = Some (nodes_from (nextNode p d) (buckets d))"
      by (rule less.hyps [OF _ n(2)]) (simp add: Some n(3))
    then show ?thesis using n by (subst hash_walk.simps) (simp add: Some)
  qed
qed

lemma walk_all: "hash_ok q d \<Longrightarrow> hash_walk (firstNode d) d = Some (all_nodes d)"
  using hash_walk_ok [of q d "firstNode d"] firstNode_ok [of d] by simp

section \<open>Backwards\<close>

lemma last_filled_ok:
  "i \<le> length bs \<Longrightarrow> concat (take i bs) \<noteq> [] \<Longrightarrow>
   \<exists>p. last_filled i bs = Some p \<and> valid_place p bs \<and> concat (take i bs) = nodes_before (Some p) bs @ [bs ! fst p ! snd p]"
proof (induction i)
  case (Suc i)
  have t: "concat (take (Suc i) bs) = concat (take i bs) @ bs ! i" using Suc.prems(1) by (simp add: take_Suc_conv_app_nth)
  show ?case
  proof (cases "bs ! i = []")
    case True
    then show ?thesis using Suc t by simp
  next
    case False
    then have "bs ! i = take (length (bs ! i) - 1) (bs ! i) @ [bs ! i ! (length (bs ! i) - 1)]"
      by (metis append_butlast_last_id butlast_conv_take last_conv_nth)
    then show ?thesis using False Suc.prems(1) t by (simp add: valid_place_def nodes_before_def)
  qed
qed simp

lemma previousNode_ok:
  assumes "hash_ok q d" "valid_it it (buckets d)" "nodes_before it (buckets d) \<noteq> []"
  shows "\<exists>p n. previousNode it d = Some p \<and> valid_place p (buckets d) \<and> node_at (Some p) d = Some n \<and>
    nodes_before it (buckets d) = nodes_before (Some p) (buckets d) @ [n]"
proof -
  have at: "node_at (Some p) d = Some (buckets d ! fst p ! snd p)" if "valid_place p (buckets d)" for p
    using that by (cases p) (simp add: node_at_def valid_place_def)
  show ?thesis
  proof (cases it)
    case None
    then show ?thesis using last_filled_ok [of "numBuckets d" "buckets d"] assms(3) at
      by (auto simp: previousNode_def nodes_before_def)
  next
    case (Some p)
    obtain i j where p: "p = (i, j)" by fastforce
    have v: "valid_place (i, j) (buckets d)" using assms(2) by (simp add: Some p valid_it_def)
    have h: "unat (node_h (buckets d ! i ! j)) mod numBuckets d = i" by (rule home_bucket [OF assms(1) v])
    show ?thesis
    proof (cases j)
      case 0
      then show ?thesis using last_filled_ok [of i "buckets d"] assms(3) v at h
        by (auto simp: previousNode_def nodes_before_def Some p valid_place_def)
    next
      case (Suc k)
      have "valid_place (i, k) (buckets d)" using v Suc by (simp add: valid_place_def)
      moreover have "take j (buckets d ! i) = take k (buckets d ! i) @ [buckets d ! i ! k]"
        using v Suc by (simp add: valid_place_def take_Suc_conv_app_nth)
      ultimately show ?thesis using at [of "(i, k)"] h Suc by (simp add: previousNode_def nodes_before_def Some p)
    qed
  qed
qed

end
