(* ===== verification/HashCompare.thy ===== *)
theory HashCompare
  imports HashIter "HOL-Library.Sublist"
begin

text \<open>
  What the loops of \<open>QHash\<close> over all nodes compute: the distinct keys, equality of two tables, and their union.
\<close>

section \<open>Keys\<close>

lemma grouped_suffix: "grouped (xs @ ys) \<Longrightarrow> grouped ys"
  by (induction xs) auto

lemma grouped_dropWhile: "grouped (map node_key ns) \<Longrightarrow> grouped (map node_key (dropWhile P ns))"
  using grouped_suffix [of "map node_key (takeWhile P ns)" "map node_key (dropWhile P ns)"] by (simp flip: map_append)

lemma unique_loop_ok:
  fixes ns :: "('k, 'v) hash_node list"
  shows "grouped (map node_key ns) \<Longrightarrow> distinct (unique_loop ns) \<and> set (unique_loop ns) = node_key ` set ns"
proof (induction ns rule: unique_loop.induct)
  case (2 n ns)
  define same where "same = (\<lambda>m :: ('k, 'v) hash_node. node_key m = node_key n)"
  have IH: "distinct (unique_loop (dropWhile same ns))" "set (unique_loop (dropWhile same ns)) = node_key ` set (dropWhile same ns)"
    using 2 grouped_dropWhile [of ns same] by (simp_all add: same_def)
  have "node_key n \<notin> node_key ` set (dropWhile same ns)"
    using 2(2) by (simp add: dropWhile_map same_def o_def)
  moreover have "node_key ` set ns \<subseteq> insert (node_key n) (node_key ` set (dropWhile same ns))"
  proof
    fix k
    assume "k \<in> node_key ` set ns"
    then obtain m where "m \<in> set ns" "k = node_key m" by blast
    moreover from this have "m \<in> set (takeWhile same ns) \<or> m \<in> set (dropWhile same ns)"
      using takeWhile_dropWhile_id [of same ns] by (metis Un_iff set_append)
    ultimately show "k \<in> insert (node_key n) (node_key ` set (dropWhile same ns))"
      by (auto simp: same_def dest: set_takeWhileD)
  qed
  moreover have "unique_loop (n # ns) = node_key n # unique_loop (dropWhile same ns)" by (simp add: same_def)
  ultimately show ?case using IH by (auto dest: set_dropWhileD)
qed simp

lemma all_nodes_grouped: "hash_ok q d \<Longrightarrow> grouped (map node_key (all_nodes d))"
  unfolding all_nodes_def by (rule chains_grouped [OF hash_okD(1)])

lemma keys_values: "node_key ` set (all_nodes d) = {k. hash_values d k \<noteq> []}"
  by (auto simp: hash_values_def nodes_of_def filter_empty_conv)

section \<open>Equality\<close>

text \<open>The inner loop compares the run of the key.\<close>

abbreviation run :: "'k \<Rightarrow> ('k, 'v) hash_node list \<Rightarrow> ('k, 'v) hash_node list" where
  "run k ns \<equiv> takeWhile (\<lambda>n. node_key n = k) ns"

lemma equal_run_ok:
  "ns \<noteq> [] \<Longrightarrow> node_key (hd ns) = k \<Longrightarrow>
   equal_run k ns ms = (if prefix (map node_value (run k ns)) (map node_value (run k ms))
     then Some (dropWhile (\<lambda>n. node_key n = k) ns) else None)"
proof (induction k ns ms rule: equal_run.induct)
  case (3 k n ns m ms)
  show ?case
  proof (cases "node_key m = k \<and> node_value n = node_value m")
    case True
    show ?thesis
    proof (cases "ns \<noteq> [] \<and> node_key (hd ns) = k")
      case True
      then show ?thesis using 3 \<open>node_key m = k \<and> node_value n = node_value m\<close> by simp
    next
      case False
      then have "run k ns = []" "dropWhile (\<lambda>n. node_key n = k) ns = ns" by (cases ns; simp)+
      then show ?thesis using True False 3(3) by auto
    qed
  qed (use 3(3) in auto)
qed simp_all

lemma run_append: "k \<notin> node_key ` set C \<Longrightarrow> run k (B @ C) = run k B"
  by (induction B) (auto simp: takeWhile_eq_Nil_iff)

lemma find_walk:
  assumes "hash_ok q e"
  shows "\<exists>ms. hash_walk (let p = snd (QHash_findNode q k e) in if node_at p e = None then None else p) e = Some ms \<and>
    map node_value (run k ms) = hash_values e k"
proof (cases rule: lookup [where k = k, OF assms, case_names none node])
  case none
  have "hash_walk None e = Some []" by (subst hash_walk.simps) simp
  then show ?thesis using none by simp
next
  case (node i A n ns)
  note f = foundD [OF node(1)]
  have "valid_it (Some (i, length A)) (buckets e)" using f(3,4) by (simp add: valid_it_def valid_place_def)
  from hash_walk_ok [OF assms this] f(4)
  have w: "hash_walk (Some (i, length A)) e = Some ((n # ns) @ concat (drop (Suc i) (buckets e)))" by (simp add: nodes_from_def)
  have "k \<notin> node_key ` set (concat (drop (Suc i) (buckets e)))"
  proof
    assume "k \<in> node_key ` set (concat (drop (Suc i) (buckets e)))"
    then obtain b m where b: "b \<in> set (drop (Suc i) (buckets e))" "m \<in> set b" "node_key m = k" by auto
    then obtain j where j: "j < length (drop (Suc i) (buckets e))" "drop (Suc i) (buckets e) ! j = b" by (metis in_set_conv_nth)
    define l where "l = Suc i + j"
    have l: "l < numBuckets e" "buckets e ! l = b" using j by (simp_all add: l_def)
    have "placed q (buckets e)" using hash_okD(1) [OF assms] by (simp add: chains_ok_def)
    then have "unat (q (node_key m)) mod numBuckets e = l" using l b(2) unfolding placed_def by metis
    then show False using f(2) b(3) by (simp add: l_def)
  qed
  from run_append [OF this, of "n # ns"]
  have "run k ((n # ns) @ concat (drop (Suc i) (buckets e))) = n # nodes_of k ns"
    using node(2) take_run(1) [OF assms node(1)] by simp
  moreover have "snd (QHash_findNode q k e) = Some (i, length A)" using f(1) by simp
  ultimately show ?thesis using node(3,4) w by simp
qed

lemma equal_loop_ok:
  assumes "hash_ok q e"
  shows "grouped (map node_key ns) \<Longrightarrow>
    equal_loop q e ns = Some (\<forall>k \<in> node_key ` set ns. prefix (map node_value (nodes_of k ns)) (hash_values e k))"
  using assms
proof (induction q e ns rule: equal_loop.induct)
  case (2 q e n ns)
  define k where "k = node_key n"
  define r where "r = dropWhile (\<lambda>m. node_key m = k) (n # ns)"
  have parts: "run k (n # ns) = nodes_of k (n # ns)" "r = filter (\<lambda>m. node_key m \<noteq> k) (n # ns)"
    using chain_parts(5,6) [of "[]" "n # ns" k] 2(2) unfolding k_def r_def by simp_all
  obtain ms where ms: "hash_walk (let p = snd (QHash_findNode q (node_key n) e) in if node_at p e = None then None else p) e = Some ms"
    "map node_value (run k ms) = hash_values e k" using find_walk [OF 2(3), of k] by (auto simp: k_def)
  have eq: "equal_run (node_key n) (n # ns) ms =
    (if prefix (map node_value (nodes_of k (n # ns))) (hash_values e k) then Some r else None)"
    using equal_run_ok [of "n # ns" k ms, unfolded parts(1) ms(2), folded r_def] by (simp add: k_def)
  show ?case
  proof (cases "prefix (map node_value (nodes_of k (n # ns))) (hash_values e k)")
    case False
    then show ?thesis using ms(1) eq by (auto simp: k_def)
  next
    case True
    have "grouped (map node_key r)" unfolding r_def by (rule grouped_dropWhile [OF 2(2)])
    then have "equal_loop q e r = Some (\<forall>k \<in> node_key ` set r. prefix (map node_value (nodes_of k r)) (hash_values e k))"
      using 2(1) [OF ms(1)] eq True 2(3) by simp
    moreover have K: "node_key ` set (n # ns) = insert k (node_key ` set r)" "k \<notin> node_key ` set r"
      unfolding parts(2) by (auto simp: k_def)
    have "nodes_of k' r = nodes_of k' (n # ns)" if "k' \<noteq> k" for k'
      using that unfolding parts(2) nodes_of_def by (auto intro: filter_cong)
    then have "(\<forall>k' \<in> node_key ` set r. prefix (map node_value (nodes_of k' r)) (hash_values e k')) \<longleftrightarrow>
      (\<forall>k' \<in> node_key ` set r. prefix (map node_value (nodes_of k' (n # ns))) (hash_values e k'))"
      using K(2) by (intro ball_cong refl) metis
    ultimately show ?thesis using ms(1) eq True unfolding K(1) by simp
  qed
qed simp

lemma length_by_key:
  assumes "finite K" "node_key ` set ns \<subseteq> K"
  shows "length ns = (\<Sum>k \<in> K. length (nodes_of k ns))"
  using assms(2)
proof (induction ns)
  case (Cons n ns)
  have "(\<Sum>k \<in> K. length (nodes_of k (n # ns))) = (\<Sum>k \<in> K. length (nodes_of k ns) + (if k = node_key n then 1 else 0))"
    by (rule sum.cong) (auto simp: nodes_of_def)
  also have "\<dots> = length (n # ns)" using Cons assms(1) by (simp add: sum.distrib)
  finally show ?case by simp
qed (simp add: nodes_of_def)

lemma QHash_equal_values:
  assumes "hash_ok q d" "hash_ok q e"
  shows "QHash_equal q d e = Some (hash_values d = hash_values e)"
proof -
  define K where "K = node_key ` set (all_nodes d) \<union> node_key ` set (all_nodes e)"
  have sizes: "hash_size d = (\<Sum>k \<in> K. length (hash_values d k))" "hash_size e = (\<Sum>k \<in> K. length (hash_values e k))"
    using length_by_key [of K "all_nodes d"] length_by_key [of K "all_nodes e"] hash_okD(2) [OF assms(1)] hash_okD(2) [OF assms(2)]
    by (auto simp: K_def hash_values_def)
  show ?thesis
  proof (cases "hash_size d = hash_size e")
    case False
    then have "hash_values d \<noteq> hash_values e" using sizes by auto
    then show ?thesis using False by (simp add: QHash_equal_def)
  next
    case True
    have "QHash_equal q d e = Some (\<forall>k \<in> node_key ` set (all_nodes d). prefix (hash_values d k) (hash_values e k))"
      using True walk_all [OF assms(1)] equal_loop_ok [OF assms(2) all_nodes_grouped [OF assms(1)]]
      by (simp add: QHash_equal_def hash_values_def)
    moreover have "hash_values d = hash_values e" if p: "\<forall>k \<in> node_key ` set (all_nodes d). prefix (hash_values d k) (hash_values e k)"
    proof (rule ext, rule ccontr)
      fix k
      have all: "prefix (hash_values d k) (hash_values e k)" for k
        using p by (cases "hash_values d k = []") (auto simp: keys_values)
      assume ne: "hash_values d k \<noteq> hash_values e k"
      have le: "length (hash_values d k) \<le> length (hash_values e k)" for k using all [of k] by (rule prefix_length_le)
      have "length (hash_values d k) < length (hash_values e k)"
        using all [of k] ne by (metis prefix_length_less prefix_order.less_le strict_prefix_def)
      moreover have "k \<in> K" using ne by (auto simp: K_def keys_values)
      moreover have "finite K" by (simp add: K_def)
      ultimately have "(\<Sum>k \<in> K. length (hash_values d k)) < (\<Sum>k \<in> K. length (hash_values e k))"
        using le by (intro sum_strict_mono_ex1) auto
      then show False using sizes True by simp
    qed
    ultimately show ?thesis by auto
  qed
qed

section \<open>Union\<close>

lemma before_from: "valid_it it bs \<Longrightarrow> nodes_before it bs @ nodes_from it bs = concat bs"
proof (cases it)
  case (Some p)
  assume "valid_it it bs"
  obtain i j where p: "p = (i, j)" by fastforce
  have i: "i < length bs" using \<open>valid_it it bs\<close> by (simp add: Some p valid_it_def valid_place_def)
  have "concat bs = concat (take i bs) @ bs ! i @ concat (drop (Suc i) bs)"
    using arg_cong [OF id_take_nth_drop [OF i], of concat] by simp
  moreover have "take j (bs ! i) @ drop j (bs ! i) @ C = bs ! i @ C" for C by (simp flip: append_assoc)
  ultimately show ?thesis by (simp add: Some p nodes_before_def nodes_from_def)
qed (simp add: nodes_before_def nodes_from_def)

lemma first_filled_place:
  "concat (take i bs) = [] \<Longrightarrow> i < length bs \<Longrightarrow> bs ! i \<noteq> [] \<Longrightarrow> first_filled k bs = Some (k + i, 0)"
proof (induction bs arbitrary: i k)
  case (Cons b bs)
  then show ?case by (cases i) auto
qed simp

lemma first_filled_none: "concat bs = [] \<Longrightarrow> first_filled k bs = None"
  by (induction bs arbitrary: k) auto

lemma at_begin:
  assumes "valid_it it (buckets d)"
  shows "it = firstNode d \<longleftrightarrow> nodes_before it (buckets d) = []"
proof
  assume "it = firstNode d"
  then show "nodes_before it (buckets d) = []"
    using before_from [OF assms] firstNode_ok [of d] by (simp add: all_nodes_def)
next
  assume b: "nodes_before it (buckets d) = []"
  show "it = firstNode d"
  proof (cases it)
    case None
    then show ?thesis using b first_filled_none [of "buckets d" 0] by (simp add: nodes_before_def firstNode_def)
  next
    case (Some p)
    obtain i j where p: "p = (i, j)" by fastforce
    have v: "i < numBuckets d" "j < length (buckets d ! i)" using assms by (simp_all add: Some p valid_it_def valid_place_def)
    then have "j = 0" "concat (take i (buckets d)) = []" using b by (auto simp: Some p nodes_before_def)
    moreover have "buckets d ! i \<noteq> []" using v by auto
    ultimately show ?thesis using first_filled_place [of i "buckets d" 0] v by (simp add: Some p firstNode_def)
  qed
qed

lemma unite_loop_ok:
  assumes "hash_ok q other"
  shows "hash_ok q d \<Longrightarrow> valid_it it (buckets other) \<Longrightarrow> hash_size d + length (nodes_before it (buckets other)) \<le> 2 ^ 30 \<Longrightarrow>
    \<exists>t. unite_loop q other it d = Some t \<and> hash_ok q t \<and>
      (\<forall>k. hash_values t k = map node_value (nodes_of k (nodes_before it (buckets other))) @ hash_values d k) \<and>
      hash_size t = hash_size d + length (nodes_before it (buckets other))"
proof (induction "length (nodes_before it (buckets other))" arbitrary: it d)
  case 0
  then have "it = firstNode other" using at_begin [OF 0(3)] by simp
  then show ?case using 0 by (subst unite_loop.simps) (simp add: nodes_of_def)
next
  case (Suc l)
  then have ne: "nodes_before it (buckets other) \<noteq> []" by auto
  obtain p n where p: "previousNode it other = Some p" "valid_place p (buckets other)" "node_at (Some p) other = Some n"
    "nodes_before it (buckets other) = nodes_before (Some p) (buckets other) @ [n]"
    using previousNode_ok [OF assms Suc.prems(2) ne] by blast
  have "hash_size d < 2 ^ 30" using Suc.prems(3) p(4) by simp
  from QHash_insertMulti_ok [OF Suc.prems(1) this, of "node_key n" "node_value n"] obtain e where
    e: "QHash_insertMulti q (node_key n) (node_value n) d = Some e" "hash_ok q e"
      "hash_values e = (hash_values d)(node_key n := node_value n # hash_values d (node_key n))" "hash_size e = hash_size d + 1"
    by (auto simp: hash_becomes_def)
  have "l = length (nodes_before (Some p) (buckets other))" "valid_it (Some p) (buckets other)"
    "hash_size e + length (nodes_before (Some p) (buckets other)) \<le> 2 ^ 30"
    using Suc.hyps(2) Suc.prems(3) p(2,4) e(4) by (simp_all add: valid_it_def)
  from Suc.hyps(1) [OF this(1) e(2) this(2,3)] obtain t where t: "unite_loop q other (Some p) e = Some t" "hash_ok q t"
    "\<forall>k. hash_values t k = map node_value (nodes_of k (nodes_before (Some p) (buckets other))) @ hash_values e k"
    "hash_size t = hash_size e + length (nodes_before (Some p) (buckets other))" by blast
  have "it \<noteq> firstNode other" using at_begin [OF Suc.prems(2)] ne by blast
  then have "unite_loop q other it d = Some t" using p(1,3) e(1) t(1) by (subst unite_loop.simps) simp
  moreover have "hash_values t k = map node_value (nodes_of k (nodes_before it (buckets other))) @ hash_values d k" for k
    using t(3) e(3) p(4) by (simp add: nodes_of_def)
  ultimately show ?case using t(2,4) e(4) p(4) by simp
qed

lemma QHash_unite_values:
  assumes "hash_ok q other" "hash_ok q d" "hash_size d + hash_size other \<le> 2 ^ 30"
  shows "\<exists>t. QHash_unite q other d = Some t \<and> hash_ok q t \<and>
    (\<forall>k. hash_values t k = hash_values other k @ hash_values d k) \<and> hash_size t = hash_size d + hash_size other"
proof -
  have b: "nodes_before None (buckets other) = all_nodes other" "valid_it None (buckets other)"
    by (simp_all add: nodes_before_def all_nodes_def valid_it_def)
  show ?thesis using unite_loop_ok [OF assms(1,2) b(2)] hash_okD(2) [OF assms(1)] assms(3)
    unfolding b(1) QHash_unite_def hash_values_def [of other] by simp
qed

end
