(* ===== verification/HashRefine.thy ===== *)
theory HashRefine
  imports HashCompare
begin

text \<open>
  \<open>QHash\<close> refines a map from keys to lists of values, for every hash function of the key type.
\<close>

section \<open>Hash values\<close>

lemma hash_step_range: "hash_step h c < 2 ^ 28"
proof -
  have "hash_step h c \<le> 0x0fffffff" unfolding hash_step_def Let_def by (rule word_and_le1)
  also have "(0x0fffffff :: 32 word) < 2 ^ 28" by simp
  finally show ?thesis .
qed

lemma hash_chars_range: "h < 2 ^ 28 \<Longrightarrow> hash_chars h cs < 2 ^ 28"
proof (induction cs arbitrary: h)
  case (Cons c cs)
  show ?case using Cons.IH [OF hash_step_range] by simp
qed simp

lemma hash_range: "qHash_bytes xs < 2 ^ 28" "qHash_string cs < 2 ^ 28"
  unfolding qHash_bytes_def qHash_string_def by (rule hash_chars_range, simp)+

section \<open>Operations as a program calls them\<close>

datatype ('k, 'v) hash_op =
    HashInsert 'k 'v | HashInsertMulti 'k 'v | HashIndex 'k | HashRemove 'k | HashTake 'k
  | HashUnite "('k, 'v) QHashData" | HashClear | HashReserve int | HashSqueeze
  | HashContains 'k | HashValue 'k 'v | HashCount 'k | HashValues 'k | HashSize

datatype 'v hash_out = HashDone | HashResult 'v | HashResults "'v list" | HashNumber nat | HashTruth bool

definition hash_silent :: "('k, 'v) QHashData option \<Rightarrow> ('v hash_out \<times> ('k, 'v) QHashData) option" where
  "hash_silent r = map_option (\<lambda>d. (HashDone, d)) r"

text \<open>\<open>v0\<close> is the value \<open>T()\<close>.\<close>

fun hash_op_step :: "('k \<Rightarrow> 32 word) \<Rightarrow> 'v \<Rightarrow> ('k, 'v) hash_op \<Rightarrow> ('k, 'v) QHashData \<Rightarrow> ('v hash_out \<times> ('k, 'v) QHashData) option" where
  "hash_op_step q v0 (HashInsert k v) d = hash_silent (QHash_insert q k v d)"
| "hash_op_step q v0 (HashInsertMulti k v) d = hash_silent (QHash_insertMulti q k v d)"
| "hash_op_step q v0 (HashIndex k) d = map_option (\<lambda>(v, d). (HashResult v, d)) (QHash_index q v0 k d)"
| "hash_op_step q v0 (HashRemove k) d = map_option (\<lambda>(n, d). (HashNumber n, d)) (QHash_remove q k d)"
| "hash_op_step q v0 (HashTake k) d = map_option (\<lambda>(v, d). (HashResult v, d)) (QHash_take q v0 k d)"
| "hash_op_step q v0 (HashUnite other) d = hash_silent (QHash_unite q other d)"
| "hash_op_step q v0 HashClear d = Some (HashDone, QHash_clear d)"
| "hash_op_step q v0 (HashReserve n) d = hash_silent (QHash_reserve n d)"
| "hash_op_step q v0 HashSqueeze d = hash_silent (QHash_squeeze d)"
| "hash_op_step q v0 (HashContains k) d = Some (HashTruth (QHash_contains q k d), d)"
| "hash_op_step q v0 (HashValue k v) d = Some (HashResult (QHash_value q k v d), d)"
| "hash_op_step q v0 (HashCount k) d = Some (HashNumber (QHash_count q k d), d)"
| "hash_op_step q v0 (HashValues k) d = Some (HashResults (QHash_values q k d), d)"
| "hash_op_step q v0 HashSize d = Some (HashNumber (hash_size d), d)"

section \<open>The same on a multimap\<close>

type_synonym ('k, 'v) multimap = "('k \<Rightarrow> 'v list) \<times> nat"

text \<open>The number of values stays below what 30 bits of buckets hold.\<close>

fun hash_pre :: "('k \<Rightarrow> 32 word) \<Rightarrow> ('k, 'v) hash_op \<Rightarrow> ('k, 'v) multimap \<Rightarrow> bool" where
  "hash_pre q (HashInsert k v) (M, n) = (n < 2 ^ 30)"
| "hash_pre q (HashInsertMulti k v) (M, n) = (n < 2 ^ 30)"
| "hash_pre q (HashIndex k) (M, n) = (n < 2 ^ 30)"
| "hash_pre q (HashUnite other) (M, n) = (hash_ok q other \<and> n + hash_size other \<le> 2 ^ 30)"
| "hash_pre q (HashReserve a) (M, n) = (a \<le> 2 ^ 30 \<and> n < 2 ^ 31)"
| "hash_pre q HashSqueeze (M, n) = (n < 2 ^ 31)"
| "hash_pre q op (M, n) = True"

definition first_value :: "'v \<Rightarrow> 'v list \<Rightarrow> 'v" where
  "first_value v xs = (case xs of [] \<Rightarrow> v | x # xs \<Rightarrow> x)"

fun hash_spec :: "'v \<Rightarrow> ('k, 'v) hash_op \<Rightarrow> ('k, 'v) multimap \<Rightarrow> 'v hash_out \<times> ('k, 'v) multimap" where
  "hash_spec v0 (HashInsert k v) (M, n) = (HashDone, M(k := v # tl (M k)), if M k = [] then n + 1 else n)"
| "hash_spec v0 (HashInsertMulti k v) (M, n) = (HashDone, M(k := v # M k), n + 1)"
| "hash_spec v0 (HashIndex k) (M, n) =
    (HashResult (first_value v0 (M k)), M(k := if M k = [] then [v0] else M k), if M k = [] then n + 1 else n)"
| "hash_spec v0 (HashRemove k) (M, n) = (HashNumber (length (M k)), M(k := []), n - length (M k))"
| "hash_spec v0 (HashTake k) (M, n) = (HashResult (first_value v0 (M k)), M(k := tl (M k)), n - (if M k = [] then 0 else 1))"
| "hash_spec v0 (HashUnite other) (M, n) = (HashDone, (\<lambda>k. hash_values other k @ M k), n + hash_size other)"
| "hash_spec v0 HashClear (M, n) = (HashDone, (\<lambda>k. []), 0)"
| "hash_spec v0 (HashReserve a) (M, n) = (HashDone, M, n)"
| "hash_spec v0 HashSqueeze (M, n) = (HashDone, M, n)"
| "hash_spec v0 (HashContains k) (M, n) = (HashTruth (M k \<noteq> []), M, n)"
| "hash_spec v0 (HashValue k v) (M, n) = (HashResult (first_value v (M k)), M, n)"
| "hash_spec v0 (HashCount k) (M, n) = (HashNumber (length (M k)), M, n)"
| "hash_spec v0 (HashValues k) (M, n) = (HashResults (M k), M, n)"
| "hash_spec v0 HashSize (M, n) = (HashNumber n, M, n)"

definition hash_abs :: "('k, 'v) QHashData \<Rightarrow> ('k, 'v) multimap" where
  "hash_abs d = (hash_values d, hash_size d)"

lemma hash_step_ok:
  assumes "hash_ok q d" "hash_pre q op (hash_abs d)" "hash_spec v0 op (hash_abs d) = (out, a)"
  shows "\<exists>t. hash_op_step q v0 op d = Some (out, t) \<and> hash_ok q t \<and> hash_abs t = a"
proof (cases op)
  case (HashInsert k v)
  from QHash_insert_ok [OF assms(1), of k v] assms(2,3) show ?thesis
    by (auto simp: HashInsert hash_abs_def hash_becomes_def hash_silent_def)
next
  case (HashInsertMulti k v)
  from QHash_insertMulti_ok [OF assms(1), of k v] assms(2,3) show ?thesis
    by (auto simp: HashInsertMulti hash_abs_def hash_becomes_def hash_silent_def)
next
  case (HashIndex k)
  from QHash_index_ok [OF assms(1), of v0 k] assms(2,3) show ?thesis
    by (auto simp: HashIndex hash_abs_def hash_becomes_def first_value_def)
next
  case (HashRemove k)
  from QHash_remove_ok [OF assms(1), of k] assms(3) show ?thesis
    by (auto simp: HashRemove hash_abs_def hash_becomes_def)
next
  case (HashTake k)
  from QHash_take_ok [OF assms(1), of v0 k] assms(3) show ?thesis
    by (auto simp: HashTake hash_abs_def hash_becomes_def first_value_def)
next
  case (HashUnite other)
  from QHash_unite_values [OF _ assms(1), of other] assms(2,3) show ?thesis
    by (auto simp: HashUnite hash_abs_def hash_silent_def)
next
  case (HashReserve n)
  from reserve_ok [OF assms(1), of n] assms(2,3) show ?thesis
    by (auto simp: HashReserve hash_abs_def hash_silent_def same_values_def)
next
  case HashSqueeze
  from reserve_ok [OF assms(1), of 1] assms(2,3) show ?thesis
    by (auto simp: HashSqueeze hash_abs_def hash_silent_def same_values_def QHash_squeeze_def)
qed (use assms in \<open>auto simp: hash_abs_def hash_queries first_value_def QHash_clear_def shared_null_ok\<close>)

interpretation hash_table: refinement "hash_op_step q v0" "hash_spec v0" "hash_pre q" "hash_ok q" hash_abs for q v0
proof
  fix d op out a
  assume "hash_ok q d" "hash_pre q op (hash_abs d)" "hash_spec v0 op (hash_abs d) = (out, a)"
  from hash_step_ok [OF this] show "\<exists>t. hash_op_step q v0 op d = Some (out, t) \<and> hash_ok q t \<and> hash_abs t = a" .
qed

section \<open>Properties\<close>

text \<open>
  C15: For every hash function, good or bad, \<open>QHash\<close> refines a map from keys to their values, the last one inserted first: any
  sequence of its operations returns with the results that they give on the map, and leaves the values that they leave.
  Growing, shrinking and \<open>reserve\<close> keep the values of every key in their order, no access is outside of the table, and there
  are never more than two nodes for each bucket, and one more.
\<close>
theorem QHash_refines_multimap:
  assumes "admissible (hash_pre q) (hash_spec v0) ops (\<lambda>k. [], 0)"
    "run_spec (hash_spec v0) ops (\<lambda>k. [], 0) = (outs, M, n)"
  shows "\<exists>d. run_steps (hash_op_step q v0) ops hash_shared_null = Some (outs, d) \<and>
    hash_values d = M \<and> hash_size d = n \<and> hash_size d \<le> 2 * numBuckets d + 1"
proof -
  have null: "hash_abs hash_shared_null = (\<lambda>k. [], 0)" by (simp add: hash_abs_def shared_null_ok)
  from hash_table.run_refines [OF shared_null_ok(1), unfolded null, OF assms] obtain d where
    "run_steps (hash_op_step q v0) ops hash_shared_null = Some (outs, d)" "hash_ok q d" "hash_abs d = (M, n)" by auto
  then show ?thesis using hash_okD(4) by (auto simp: hash_abs_def)
qed

definition hash_program :: "(8 word list, int) hash_op list" where
  "hash_program = [HashInsertMulti [1, 2] 5, HashInsert [3] 7, HashInsertMulti [1, 2] 6, HashInsert [3] 8, HashValues [1, 2],
     HashIndex [4], HashRemove [3], HashReserve 40, HashTake [1, 2], HashValue [1, 2] 0, HashContains [3], HashSize]"

theorem QHash_refines_multimap_witness:
  "\<exists>d. run_steps (hash_op_step qHash_bytes 0) hash_program hash_shared_null =
    Some ([HashDone, HashDone, HashDone, HashDone, HashResults [6, 5], HashResult 0, HashNumber 1, HashDone, HashResult 6,
      HashResult 5, HashTruth False, HashNumber 2], d) \<and>
    hash_values d [1, 2] = [5] \<and> hash_size d = 2"
proof -
  obtain outs M n where r: "run_spec (hash_spec 0) hash_program (\<lambda>k. [], 0) = (outs, M, n)" by (metis prod.exhaust)
  have "(case run_spec (hash_spec 0) hash_program (\<lambda>k. [], 0) of (outs, M, n) \<Rightarrow> (outs, M [1, 2], n)) =
    ([HashDone, HashDone, HashDone, HashDone, HashResults [6, 5], HashResult 0, HashNumber 1, HashDone, HashResult 6,
      HashResult 5, HashTruth False, HashNumber 2], [5], 2)" by (simp add: hash_program_def first_value_def Let_def)
  moreover have "admissible (hash_pre qHash_bytes) (hash_spec 0) hash_program (\<lambda>k. [], 0)"
    by (simp add: hash_program_def)
  from QHash_refines_multimap [OF this r] obtain d where
    "run_steps (hash_op_step qHash_bytes 0) hash_program hash_shared_null = Some (outs, d)" "hash_values d = M" "hash_size d = n"
    by blast
  ultimately show ?thesis unfolding r by auto
qed

text \<open>
  C16: The iterators visit every node once: the loops from \<open>constBegin()\<close> to \<open>constEnd()\<close> end, whatever the chains are, and see as
  many nodes as \<open>size()\<close>, the values of every key among them in the order in which \<open>values(key)\<close> gives them.
  \<open>uniqueKeys()\<close> is the list of the keys that have a value, each once.
\<close>
theorem QHash_iterates:
  assumes "hash_ok q d"
  shows "\<exists>ns ks. hash_walk (firstNode d) d = Some ns \<and> length ns = hash_size d \<and>
    (\<forall>k. map node_value (filter (\<lambda>n. node_key n = k) ns) = QHash_values q k d) \<and>
    QHash_uniqueKeys d = Some ks \<and> distinct ks \<and> set ks = {k. QHash_contains q k d}"
proof -
  have "QHash_uniqueKeys d = Some (unique_loop (all_nodes d))" using walk_all [OF assms] by (simp add: QHash_uniqueKeys_def)
  moreover have "{k. QHash_contains q k d} = node_key ` set (all_nodes d)"
    using hash_queries(1) [OF assms] by (simp add: keys_values)
  ultimately show ?thesis using walk_all [OF assms] unique_loop_ok [OF all_nodes_grouped [OF assms]] hash_okD(2) [OF assms]
    hash_queries(4) [OF assms] by (simp add: hash_values_def nodes_of_def)
qed

lemma example_table:
  "\<exists>d. hash_ok qHash_int d \<and> hash_values d = (\<lambda>k. [])(1 := [20, 10], 18 := [30 :: int]) \<and> hash_size d = 3"
proof -
  have pre: "admissible (hash_pre qHash_int) (hash_spec 0) [HashInsertMulti (1 :: 32 word) 10, HashInsertMulti 18 30, HashInsertMulti 1 20] (\<lambda>k. [], 0)"
    by simp
  have run: "run_spec (hash_spec 0) [HashInsertMulti (1 :: 32 word) 10, HashInsertMulti 18 30, HashInsertMulti 1 20] (\<lambda>k. [], 0) =
    ([HashDone, HashDone, HashDone], (\<lambda>k. [])(1 := [20, 10], 18 := [30 :: int]), 3)" by (auto simp: fun_eq_iff)
  have null: "hash_abs hash_shared_null = (\<lambda>k. [], 0)" by (simp add: hash_abs_def shared_null_ok)
  from hash_table.run_refines [OF shared_null_ok(1), unfolded null, OF pre run] show ?thesis
    by (auto simp: hash_abs_def)
qed

theorem QHash_iterates_witness:
  "\<exists>(d :: (32 word, int) QHashData) ns ks. hash_walk (firstNode d) d = Some ns \<and> length ns = 3 \<and>
    map node_value (filter (\<lambda>n. node_key n = 1) ns) = [20, 10] \<and> QHash_uniqueKeys d = Some ks \<and> distinct ks \<and> set ks = {1, 18}"
proof -
  obtain d where d: "hash_ok qHash_int d" "hash_values d = (\<lambda>k. [])(1 := [20, 10], 18 := [30 :: int])" "hash_size d = 3"
    using example_table by blast
  have "QHash_values qHash_int 1 d = [20, 10]" "{k. QHash_contains qHash_int k d} = {1, 18}"
    using hash_queries(1,4) [OF d(1)] d(2) by auto
  then show ?thesis using QHash_iterates [OF d(1)] unfolding d(3) by metis
qed

text \<open>
  C17: \<open>operator==\<close> decides whether two tables have the same values in the same order for every key, whatever their numbers of
  buckets and the order of their chains; a table copied node by node from its end into an empty one, as \<open>unite\<close> does, is
  equal to it.  For a table with at most one value for each key this is the documented equality, the same pairs of
  key and value; with several values for a key it is not: their order counts (\<open>QHash_equal_order\<close> below).
\<close>
theorem QHash_equal_decides:
  assumes "hash_ok q d" "hash_ok q e" "hash_size d \<le> 2 ^ 30"
  shows "QHash_equal q d e = Some (\<forall>k. QHash_values q k d = QHash_values q k e) \<and>
    ((\<forall>k. length (QHash_values q k d) \<le> 1) \<longrightarrow>
      QHash_equal q d e = Some (\<forall>k. mset (QHash_values q k d) = mset (QHash_values q k e))) \<and>
    (\<exists>t. QHash_unite q d hash_shared_null = Some t \<and> QHash_equal q t d = Some True)"
proof (intro conjI impI)
  show eq: "QHash_equal q d e = Some (\<forall>k. QHash_values q k d = QHash_values q k e)"
    using QHash_equal_values [OF assms(1,2)] hash_queries(4) [OF assms(1)] hash_queries(4) [OF assms(2)] by (auto simp: fun_eq_iff)
  show "QHash_equal q d e = Some (\<forall>k. mset (QHash_values q k d) = mset (QHash_values q k e))"
    if "\<forall>k. length (QHash_values q k d) \<le> 1"
  proof -
    have "xs = ys \<longleftrightarrow> mset xs = mset ys" if "length xs \<le> 1" for xs ys :: "'b list"
      using that by (cases xs) (auto dest: mset_eq_length)
    with that show ?thesis unfolding eq by simp
  qed
  obtain t where t: "QHash_unite q d hash_shared_null = Some t" "hash_ok q t" "\<forall>k. hash_values t k = hash_values d k @ []"
    using QHash_unite_values [OF assms(1) shared_null_ok(1)] assms(3) by (auto simp: shared_null_ok)
  then have "hash_values t = hash_values d" by auto
  then show "\<exists>t. QHash_unite q d hash_shared_null = Some t \<and> QHash_equal q t d = Some True"
    using QHash_equal_values [OF t(2) assms(1)] t(1) by simp
qed

theorem QHash_equal_decides_witness:
  "\<exists>d :: (32 word, int) QHashData. hash_size d = 3 \<and> QHash_equal qHash_int d hash_shared_null = Some False \<and>
    (\<exists>t. QHash_unite qHash_int d hash_shared_null = Some t \<and> QHash_equal qHash_int t d = Some True)"
proof -
  obtain d where d: "hash_ok qHash_int d" "hash_values d = (\<lambda>k. [])(1 := [20, 10], 18 := [30 :: int])" "hash_size d = 3"
    using example_table by blast
  have "QHash_values qHash_int 18 d = [30]" "QHash_values qHash_int 18 (hash_shared_null :: (32 word, int) QHashData) = []"
    using hash_queries(4) [OF d(1)] d(2) hash_queries(4) [OF shared_null_ok(1)] by (simp_all add: shared_null_ok)
  then have "\<not> (\<forall>k. QHash_values qHash_int k d = QHash_values qHash_int k hash_shared_null)" by (metis list.distinct(1))
  moreover have "hash_size d \<le> 2 ^ 30" by (simp add: d(3))
  note e = QHash_equal_decides [OF d(1) shared_null_ok(1) this]
  ultimately have "QHash_equal qHash_int d hash_shared_null = Some False" by simp
  then show ?thesis using conjunct2 [OF conjunct2 [OF e]] d(3) by blast
qed

text \<open>The same two pairs, inserted in two orders: the tables have the same pairs, and are not equal.\<close>

lemma two_values:
  "\<exists>t. run_steps (hash_op_step q v0) [HashInsertMulti k v, HashInsertMulti k w] hash_shared_null = Some ([HashDone, HashDone], t) \<and>
    hash_ok q t \<and> hash_values t = (\<lambda>_. [])(k := [w, v])"
proof -
  have pre: "admissible (hash_pre q) (hash_spec v0) [HashInsertMulti k v, HashInsertMulti k w] (\<lambda>k. [], 0)"
    by simp
  have run: "run_spec (hash_spec v0) [HashInsertMulti k v, HashInsertMulti k w] (\<lambda>k. [], 0) =
    ([HashDone, HashDone], (\<lambda>k. [])(k := [w, v]), 2)" by (auto simp: fun_eq_iff)
  have null: "hash_abs hash_shared_null = (\<lambda>k. [], 0)" by (simp add: hash_abs_def shared_null_ok)
  from hash_table.run_refines [OF shared_null_ok(1), unfolded null, OF pre run] show ?thesis
    by (auto simp: hash_abs_def)
qed

lemma QHash_equal_order:
  assumes "v \<noteq> w"
  shows "\<exists>t u. run_steps (hash_op_step q v0) [HashInsertMulti k v, HashInsertMulti k w] hash_shared_null = Some ([HashDone, HashDone], t) \<and>
    run_steps (hash_op_step q v0) [HashInsertMulti k w, HashInsertMulti k v] hash_shared_null = Some ([HashDone, HashDone], u) \<and>
    (\<forall>x. mset (QHash_values q x t) = mset (QHash_values q x u)) \<and> QHash_equal q t u = Some False"
proof -
  obtain t where t: "run_steps (hash_op_step q v0) [HashInsertMulti k v, HashInsertMulti k w] hash_shared_null = Some ([HashDone, HashDone], t)"
    "hash_ok q t" "hash_values t = (\<lambda>_. [])(k := [w, v])" using two_values [of q v0 k v w] by (elim exE conjE) (rule that)
  obtain u where u: "run_steps (hash_op_step q v0) [HashInsertMulti k w, HashInsertMulti k v] hash_shared_null = Some ([HashDone, HashDone], u)"
    "hash_ok q u" "hash_values u = (\<lambda>_. [])(k := [v, w])" using two_values [of q v0 k w v] by (elim exE conjE) (rule that)
  have "QHash_equal q t u = Some False" using QHash_equal_values [OF t(2) u(2)] t(3) u(3) assms by (auto simp: fun_eq_iff)
  moreover have "mset (QHash_values q x t) = mset (QHash_values q x u)" for x
    using hash_queries(4) [OF t(2)] hash_queries(4) [OF u(2)] t(3) u(3) by simp
  ultimately show ?thesis using t(1) u(1) by blast
qed

text \<open>After \<open>reserve(n)\<close> an insertion does not rehash as long as there are less than \<open>n\<close> values.\<close>

lemma reserve_capacity:
  assumes "hash_ok q d" "asize \<le> 2 ^ 30" "hash_size d < 2 ^ 31" "int (hash_size d) < asize"
  shows "\<exists>t. QHash_reserve asize d = Some t \<and> hash_values t = hash_values d \<and> willGrow t = Some (False, t)"
  using reserve_ok [OF assms(1) _ assms(3), of asize] assms(2,4) by (fastforce simp: same_values_def willGrow_def)

end
