(* ===== verification/Spec2Isabelle.thy ===== *)
theory Spec2Isabelle
  imports Prelude Rect DateArith UndoGroup BitArray RingFifo LayoutSpec SizePolicy IOSpec ByteCodec DateTimeArith StreamSpec ListRefine HashRefine
begin

text \<open>
  A verification library for the core logic of this repository, the Katie fork of the Qt 4 toolkit
  (C++, under src/src).  The toolkit is a set of libraries: \<open>core\<close> (value classes, containers, text,
  dates, input and output), \<open>gui\<close> (widgets, layouts, painting, text layout, item views, the undo
  framework), and \<open>xml\<close>, \<open>network\<close>, \<open>dbus\<close>, \<open>svg\<close>, \<open>script\<close>, \<open>declarative\<close> on top of them.  What is
  modelled here is logic that the rest relies on and that computes on plain data.

  Parts, theories and code:

  Prelude: the machine integers of C++ (\<open>i32\<close>, \<open>u32\<close>, \<open>i64\<close> wrap a result, \<open>sdiv\<close> and \<open>smod\<close>
  truncate).  Refinement: the locale \<open>refinement\<close>, the contract between an abstract machine and the
  code, proved once for sequences of operations and interpreted on each buffer and device below.

  Geometry, Rect: QPoint, QSize, QMargins, QLine and QRect (core/tools/qpoint.h, qsize.cpp,
  qmargins.h, qline.h, qrect.cpp), records with the fields of the classes.  Rect shows that union,
  intersection and the tests of rectangles are those of the sets of their points.

  Dates, Calendar, DateArith: QDate (core/tools/qdatetime.cpp): day numbers in both calendars,
  validity, arithmetic, week numbers.  Calendar proves the bijection between day numbers and dates
  against an independent definition of the next day, DateArith the arithmetic.

  TimeOfDay, DateTime, DateTimeArith: QTime and QDateTime (core/tools/qdatetime.cpp, qdatetime_p.h):
  the time of day, datetimes in UTC, at an offset and in local time, seconds and milliseconds since
  1970.  The conversions of the C library are the record \<open>libc\<close>, with the contract \<open>libc_ok\<close>, which
  holds of a zone at a fixed offset.  DateTimeArith proves arithmetic and order against the
  milliseconds since 1970 and the round trip through local time.

  UndoStack, UndoHistory, UndoSignals, UndoGroup: the undo framework (gui/util/qundostack.cpp,
  qundogroup.cpp): commands with children, merging, macros, undo limit, clean state, signals,
  actions, and a world of stacks and groups that share pointers.  UndoHistory proves that the
  document is determined by the index of the stack, UndoSignals that the signals tell an observer
  the state, UndoGroup the consistency of membership.

  ByteArray, BitArray: QByteArray::resize and QBitArray (core/tools/qbytearray.cpp, qbitarray.cpp):
  bits packed into bytes behind a header byte.

  ByteMatcher, ByteSearch, ByteSearchSpec, ByteReplace, ByteCodec: QByteArray as a text of bytes
  (core/tools/qbytearray.cpp, qbytearraymatcher.cpp): Boyer-Moore and rolling-hash searches, which find
  the first or last occurrence, counting, the in-place replacement loops, splicing, and the
  hexadecimal, Base64 and percent encodings with their round trips, with the sizes from which the
  \<open>int\<close> arithmetic of counting, replacing and encoding wraps.

  ListData, ListSpec, SharedList, ListChange, ListSharing, ListValues, ListOps, ListQueries, ListRefine:
  QListData and QList (core/tools/qlist.cpp, qlist.h).  ListData has the array with room at both ends,
  ListSpec what its operations do to the nodes; SharedList the class: blocks with reference counts, the
  variables that point to them, and the elements constructed and not destroyed.  The locale \<open>list_change\<close>
  (ListChange) is the contract of an operation on the data, interpreted on each of them; ListSharing has the
  invariant of the reference counts.  ListRefine shows that programs with lists cannot tell that they share,
  and that no element but those of \<open>reserve\<close> is lost.

  HashData, HashSpec, HashOps, HashChanges, HashIter, HashCompare, HashRefine: QHashData and QHash
  (core/tools/qhash.cpp, qhash.h), a table of chains, for any hash function.  HashSpec has the invariant of
  the chains and rehashing, HashOps and HashChanges what each operation does to the values of its key,
  HashIter the iterators and the functions that loop over all nodes, HashCompare equality and union, and
  HashRefine that the table is a map from keys to lists of values.  Tables hold at most 2^30 values, so that
  the shifts that compute the number of buckets do not overflow.

  RingBuffer, RingFifo: QRingBuffer (core/tools/qringbuffer_p.h), which refines a queue of bytes.

  LinearBuffer, IODevice, IOFile, IOLine, IOSpec: the read buffer of QIODevice
  (core/io/qiodevice_p.h), QIODevice on a QBuffer (core/io/qiodevice.cpp, qbuffer.cpp), and the
  proof that it refines a file: bytes, a position and put-back characters.  The virtual functions of
  QBuffer and the base class call each other; \<open>seek\<close> is a parameter of the base functions.

  DataStream, StreamLaws, StreamTypes, StreamValues, StreamArrays, StreamTyped, StreamCut,
  StreamSpec: QDataStream on a QBuffer (core/io/qdatastream.cpp and qdatastream.h) and the stream
  operators of the value classes above, of QChar, QString, QList and QVector.  StreamLaws says what an
  operator promises: writing appends bytes, reading computes a decoder; StreamTypes has the locale
  \<open>stream_type\<close>, the contract of a type that can be stored, interpreted on every type.  StreamTyped
  shows that what is read keeps the invariant of its class, StreamCut that input that ends early is
  reported (but for QList), and StreamSpec the round trip of any sequence of values, that reading
  depends on the unread bytes and the byte orders alone, and what is read as an array of bits.

  LayoutEngine, LayoutSums, LayoutSpec, SizePolicy: qGeomCalc (gui/kernel/qlayoutengine.cpp), which
  distributes a length over the items of a layout in fixed-point arithmetic, the packed
  QSizePolicy and the sizes computed from it (qsizepolicy.h, qlayoutengine.cpp).

  Conventions: a C++ \<open>int\<close> is an \<open>int\<close> in the 32-bit range; stored results pass through \<open>i32\<close> where
  an overflow matters, and bytes, flags and packed fields are machine words.  A function that changes
  its object returns the new record.  What the code reads from memory it did not write is a
  parameter (\<open>junk\<close>), and so are constants of the platform (\<open>B\<close>, the size of the buffers of the C
  library).  An access outside of an array is the result \<open>None\<close>.  Arithmetic is exact where no property
  needs more: in the splicing operations of QByteArray (left, mid, insert, remove, repeated, toHex), the sizes of
  containers that are within the range of \<open>int\<close>, and qGeomCalc, for lengths within its bounds.  Every loop is a terminating
  recursion, or a \<open>partial_function\<close> whose result is proved to be \<open>Some\<close>; no fuel is used.

  Not modelled, with the reasons: floating-point classes and overloads; the system clock, locale
  and Unicode tables and the text conversions over them; painting, fonts, platform windows, sockets,
  processes, files, threads and SQL, which are calls into the system; the widgets, item views,
  graphics view, style and declarative classes, whose logic is spread over event handlers on shared
  mutable object graphs; the script engine, the XML parsers, the D-Bus and SVG modules; generated
  tables, tools, tests, benchmarks, and vendored code (3rdparty).
\<close>

end
